(* ===== verification/Eufy_Prelude.thy ===== *)
theory Eufy_Prelude
  imports Main "HOL-Library.Word" "HOL-Library.Monad_Syntax"
begin

text \<open>
  Shared vocabulary of the development: bytes and buffers, the fixed-width integer encoders and
  readers of Node's \<open>Buffer\<close> and of \<open>src/core/util.ts\<close>, thrown errors as values, and the
  contracts several components share as locales (a fixed-width codec, a chunk-fed scanner, a zero
  padder, a run of steps that keeps an invariant).

  A \<open>Buffer\<close> is a list of bytes. \<open>subarray(s, e)\<close> is \<open>take (e - s) (drop s b)\<close>,
  \<open>Buffer.concat\<close> is append. A JavaScript number that is an integer is an \<open>int\<close>, or a
  \<open>nat\<close> where the code only ever holds a length or an offset in it.
\<close>

unbundle bit_operations_syntax

type_synonym byte = "8 word"
type_synonym buffer = "byte list"

named_theorems buf_simps \<open>lengths and slices of buffers\<close>
named_theorems codec_simps \<open>reading back what an encoder wrote\<close>

section \<open>Thrown errors as values\<close>

text \<open>
  What a throwing JavaScript function may raise. The message of an \<open>Error\<close> is not modelled,
  only where it is raised; \<open>RangeError\<close> is what Node's \<open>Buffer\<close> readers and writers raise.
\<close>

datatype js_error = RangeError | TypeError | UserError string

definition res_bind :: "js_error + 'a \<Rightarrow> ('a \<Rightarrow> js_error + 'b) \<Rightarrow> js_error + 'b" where
  "res_bind r f = (case r of Inl e \<Rightarrow> Inl e | Inr x \<Rightarrow> f x)"

lemma res_bind_simps [simp]:
  "res_bind (Inl e) f = Inl e"
  "res_bind (Inr x) f = f x"
  by (simp_all add: res_bind_def)

lemma res_bind_Inr_conv:
  "res_bind r f = Inr y \<longleftrightarrow> (\<exists>x. r = Inr x \<and> f x = Inr y)"
  by (cases r) auto

fun res_map :: "('a \<Rightarrow> js_error + 'b) \<Rightarrow> 'a list \<Rightarrow> js_error + 'b list" where
  "res_map f [] = Inr []"
| "res_map f (x # xs) =
     res_bind (f x) (\<lambda>y. res_bind (res_map f xs) (\<lambda>ys. Inr (y # ys)))"

lemma res_map_length: "res_map f xs = Inr ys \<Longrightarrow> length ys = length xs"
  by (induction xs arbitrary: ys) (auto simp: res_bind_Inr_conv)

section \<open>Slices\<close>

text \<open>\<open>b.subarray(s, e)\<close> for \<open>s \<le> e\<close>; Node clamps both ends to the buffer.\<close>

definition slice :: "nat \<Rightarrow> nat \<Rightarrow> 'a list \<Rightarrow> 'a list" where
  "slice s e b = take (e - s) (drop s b)"

lemma length_slice [buf_simps]: "length (slice s e b) = min e (length b) - s"
  by (auto simp: slice_def min_def)

lemma slice_append_left [buf_simps]: "e \<le> length a \<Longrightarrow> slice s e (a @ b) = slice s e a"
  by (simp add: slice_def)

lemma slice_skip [buf_simps]: "slice (length a + s) (length a + e) (a @ b) = slice s e b"
  by (simp add: slice_def)

lemma slice_all: "length b \<le> e \<Longrightarrow> slice 0 e b = b"
  by (simp add: slice_def)

section \<open>Fixed-width encoders\<close>

text \<open>
  \<open>u16le\<close>, \<open>u16be\<close>, \<open>u32le\<close>, \<open>u32be\<close> of \<open>src/core/util.ts\<close>. The masks there
  (\<open>n & 0xffff\<close>, \<open>n >>> 0\<close>) make them total on every integer: the bytes are the low bits of
  the two's complement form, which \<open>word_of_int\<close> of the shifted number gives.
\<close>

definition u16le :: "int \<Rightarrow> buffer" where
  "u16le n = [word_of_int n, word_of_int (drop_bit 8 n)]"

definition u16be :: "int \<Rightarrow> buffer" where
  "u16be n = [word_of_int (drop_bit 8 n), word_of_int n]"

definition u32le :: "int \<Rightarrow> buffer" where
  "u32le n = [word_of_int n, word_of_int (drop_bit 8 n),
              word_of_int (drop_bit 16 n), word_of_int (drop_bit 24 n)]"

definition u32be :: "int \<Rightarrow> buffer" where
  "u32be n = [word_of_int (drop_bit 24 n), word_of_int (drop_bit 16 n),
              word_of_int (drop_bit 8 n), word_of_int n]"

text \<open>
  Node's own writers, unlike those helpers, raise \<open>RangeError\<close> outside the width.
\<close>

definition write_u16le :: "int \<Rightarrow> js_error + buffer" where
  "write_u16le n = (if 0 \<le> n \<and> n < 65536 then Inr (u16le n) else Inl RangeError)"

definition write_u16be :: "int \<Rightarrow> js_error + buffer" where
  "write_u16be n = (if 0 \<le> n \<and> n < 65536 then Inr (u16be n) else Inl RangeError)"

definition write_u32be :: "int \<Rightarrow> js_error + buffer" where
  "write_u32be n = (if 0 \<le> n \<and> n < 4294967296 then Inr (u32be n) else Inl RangeError)"

text \<open>
  The readers on the bytes at offset \<open>i\<close>. The plain forms are used under a length check of the
  source; the \<open>read_\<close> forms raise where the bytes are not there.
\<close>

definition u16le_at :: "buffer \<Rightarrow> nat \<Rightarrow> nat" where
  "u16le_at b i = unat (b ! i) + 256 * unat (b ! (i + 1))"

definition u16be_at :: "buffer \<Rightarrow> nat \<Rightarrow> nat" where
  "u16be_at b i = 256 * unat (b ! i) + unat (b ! (i + 1))"

definition u32le_at :: "buffer \<Rightarrow> nat \<Rightarrow> nat" where
  "u32le_at b i = unat (b ! i) + 256 * unat (b ! (i + 1))
     + 65536 * unat (b ! (i + 2)) + 16777216 * unat (b ! (i + 3))"

definition u32be_at :: "buffer \<Rightarrow> nat \<Rightarrow> nat" where
  "u32be_at b i = 16777216 * unat (b ! i) + 65536 * unat (b ! (i + 1))
     + 256 * unat (b ! (i + 2)) + unat (b ! (i + 3))"

definition read_u8 :: "buffer \<Rightarrow> nat \<Rightarrow> js_error + nat" where
  "read_u8 b i = (if i < length b then Inr (unat (b ! i)) else Inl RangeError)"

definition read_u16le :: "buffer \<Rightarrow> nat \<Rightarrow> js_error + nat" where
  "read_u16le b i = (if i + 2 \<le> length b then Inr (u16le_at b i) else Inl RangeError)"

definition read_u32le :: "buffer \<Rightarrow> nat \<Rightarrow> js_error + nat" where
  "read_u32le b i = (if i + 4 \<le> length b then Inr (u32le_at b i) else Inl RangeError)"

definition read_u32be :: "buffer \<Rightarrow> nat \<Rightarrow> js_error + nat" where
  "read_u32be b i = (if i + 4 \<le> length b then Inr (u32be_at b i) else Inl RangeError)"

text \<open>\<open>readInt16LE\<close> and friends: two's complement reading of an unsigned value of width \<open>w\<close>.\<close>

definition as_signed :: "nat \<Rightarrow> nat \<Rightarrow> int" where
  "as_signed w n = (if n < 2 ^ (w - 1) then int n else int n - 2 ^ w)"

lemma length_encoders [simp]:
  "length (u16le n) = 2" "length (u16be n) = 2" "length (u32le n) = 4" "length (u32be n) = 4"
  by (simp_all add: u16le_def u16be_def u32le_def u32be_def)

lemma unat_byte_lt [simp]: "unat (b :: byte) < 256"
  using unsigned_less [of b] by simp

lemma unat_word_of_int_byte: "unat (word_of_int n :: byte) = nat (n mod 256)"
  by (simp add: unsigned_of_int take_bit_eq_mod)

lemma unat_of_nat_byte: "unat (of_nat n :: byte) = n mod 256"
  by (simp add: unsigned_of_nat take_bit_eq_mod)

lemma unat_drop_bit_byte: "unat (drop_bit n (w :: byte)) = unat w div 2 ^ n"
proof -
  have "take_bit 8 (unat w) = unat w"
    by (simp add: take_bit_nat_eq_self)
  then have "unat (drop_bit n w) = drop_bit n (unat w)"
    by (simp add: unsigned_drop_bit_eq)
  then show ?thesis by (simp only: drop_bit_eq_div [of n "unat w"])
qed

lemma unat_take_bit_byte: "unat (take_bit n (w :: byte)) = unat w mod 2 ^ n"
  by (simp only: unsigned_take_bit_eq take_bit_eq_mod [of n "unat w"])

lemma byte_and_mask:
  "(w :: byte) AND 1 = take_bit 1 w" "w AND 3 = take_bit 2 w" "w AND 7 = take_bit 3 w"
  "w AND 15 = take_bit 4 w" "w AND 31 = take_bit 5 w" "w AND 63 = take_bit 6 w"
  "w AND 127 = take_bit 7 w"
  by (simp_all only: take_bit_eq_mask mask_eq_decr_exp) simp_all

lemma unat_byte_and:
  "unat ((w :: byte) AND 1) = unat w mod 2" "unat (w AND 3) = unat w mod 4"
  "unat (w AND 7) = unat w mod 8" "unat (w AND 15) = unat w mod 16"
  "unat (w AND 31) = unat w mod 32" "unat (w AND 63) = unat w mod 64"
  "unat (w AND 127) = unat w mod 128"
  by (simp_all only: byte_and_mask unat_take_bit_byte) simp_all

lemma drop_bit_8_div: "drop_bit 8 (n :: int) = n div 256"
  and drop_bit_16_div: "drop_bit 16 (n :: int) = n div 65536"
  and drop_bit_24_div: "drop_bit 24 (n :: int) = n div 16777216"
  by (simp_all add: drop_bit_eq_div)

lemmas byte_arith = unat_word_of_int_byte drop_bit_8_div drop_bit_16_div drop_bit_24_div

lemma mod_65536: "(n :: int) mod 65536 = n mod 256 + 256 * (n div 256 mod 256)"
  using zmod_zmult2_eq [of 256 n 256] by simp

lemma mod_4294967296: "(n :: int) mod 4294967296 = n mod 256 + 256 * (n div 256 mod 256)
     + 65536 * (n div 65536 mod 256) + 16777216 * (n div 16777216 mod 256)"
proof -
  have a: "n mod 4294967296 = 65536 * (n div 65536 mod 65536) + n mod 65536"
    using zmod_zmult2_eq [of 65536 n 65536] by simp
  have b: "n div 65536 div 256 = n div 16777216"
    using zdiv_zmult2_eq [of 256 n 65536] by simp
  have c: "n div 65536 mod 65536 = n div 65536 mod 256 + 256 * (n div 16777216 mod 256)"
    using mod_65536 [of "n div 65536"] unfolding b .
  have gen: "65536 * (x + 256 * y) + (z + 256 * w) = z + 256 * w + 65536 * x + 16777216 * y"
    for x y z w :: int by simp
  show ?thesis unfolding a c mod_65536 b by (rule gen)
qed

lemma int_unat_word_of_int: "uint (word_of_int n :: byte) = n mod 256"
  by (simp add: unsigned_of_int take_bit_eq_mod)

lemma int_u16le [codec_simps]: "u16le_at (u16le n @ r) 0 = nat (n mod 65536)"
proof -
  have "int (u16le_at (u16le n @ r) 0) = n mod 65536"
    unfolding mod_65536
    by (simp add: u16le_def u16le_at_def int_unat_word_of_int drop_bit_8_div del: int_nat_eq)
  then show ?thesis by linarith
qed

lemma int_u16be [codec_simps]: "u16be_at (u16be n @ r) 0 = nat (n mod 65536)"
  using int_u16le [of n r] by (simp add: u16le_def u16be_def u16le_at_def u16be_at_def)

lemma int_u32le [codec_simps]: "u32le_at (u32le n @ r) 0 = nat (n mod 4294967296)"
proof -
  have "int (u32le_at (u32le n @ r) 0) = n mod 4294967296"
    unfolding mod_4294967296
    by (simp add: u32le_def u32le_at_def int_unat_word_of_int
        drop_bit_8_div drop_bit_16_div drop_bit_24_div)
  then show ?thesis by linarith
qed

lemma int_u32be [codec_simps]: "u32be_at (u32be n @ r) 0 = nat (n mod 4294967296)"
  using int_u32le [of n r] by (simp add: u32le_def u32be_def u32le_at_def u32be_at_def)

lemma u16le_at_skip [codec_simps]: "u16le_at (a @ b) (length a + i) = u16le_at b i"
  and u16be_at_skip [codec_simps]: "u16be_at (a @ b) (length a + i) = u16be_at b i"
  and u32le_at_skip [codec_simps]: "u32le_at (a @ b) (length a + i) = u32le_at b i"
  and u32be_at_skip [codec_simps]: "u32be_at (a @ b) (length a + i) = u32be_at b i"
  by (simp_all add: u16le_at_def u16be_at_def u32le_at_def u32be_at_def nth_append)

section \<open>Contracts several components share\<close>

subsection \<open>A fixed-width integer field\<close>

text \<open>
  What a frame builder and a frame parser rely on: the encoder writes \<open>width\<close> bytes, the reader
  reads them back modulo the width, and reading at an offset only depends on the bytes from there.
\<close>

locale fixed_codec =
  fixes width :: nat
    and enc :: "int \<Rightarrow> buffer"
    and rd :: "buffer \<Rightarrow> nat \<Rightarrow> nat"
  assumes length_enc: "length (enc n) = width"
    and rd_enc: "rd (enc n @ r) 0 = nat (n mod 2 ^ (8 * width))"
    and rd_skip: "rd (a @ b) (length a + i) = rd b i"
begin

lemma rd_at: "rd (a @ enc n @ r) (length a) = nat (n mod 2 ^ (8 * width))"
  using rd_skip [of a "enc n @ r" 0] by (simp add: rd_enc)

lemma rd_exact:
  "0 \<le> n \<Longrightarrow> n < 2 ^ (8 * width) \<Longrightarrow> rd (a @ enc n @ r) (length a) = nat n"
  by (simp add: rd_at)

lemma enc_inj:
  assumes "enc m = enc n" "0 \<le> m" "m < 2 ^ (8 * width)" "0 \<le> n" "n < 2 ^ (8 * width)"
  shows "m = n"
  using assms rd_exact [of m "[]" "[]"] rd_exact [of n "[]" "[]"] by simp

end

interpretation le16: fixed_codec 2 u16le u16le_at
  by unfold_locales (simp_all add: int_u16le u16le_at_skip)

interpretation be16: fixed_codec 2 u16be u16be_at
  by unfold_locales (simp_all add: int_u16be u16be_at_skip)

interpretation le32: fixed_codec 4 u32le u32le_at
  by unfold_locales (simp_all add: int_u32le u32le_at_skip)

interpretation be32: fixed_codec 4 u32be u32be_at
  by unfold_locales (simp_all add: int_u32be u32be_at_skip)

lemmas field_simps_at = le16.rd_at be16.rd_at le32.rd_at be32.rd_at

subsection \<open>A scanner fed in chunks\<close>

text \<open>
  The stream readers (the ADTS scanner, the MCS parser) take bytes in whatever chunks the socket or
  the encoder delivers. The contract: pushing two runs of bytes one after the other is pushing their
  concatenation, and a state a push leaves has nothing more to give. The client's theorem: the
  chunking is invisible.
\<close>

fun feed :: "('s \<Rightarrow> 'b list \<Rightarrow> 's \<times> 'o list) \<Rightarrow> 's \<Rightarrow> 'b list list \<Rightarrow> 's \<times> 'o list" where
  "feed push s [] = (s, [])"
| "feed push s (c # cs) =
     (let (s1, out1) = push s c; (s2, out2) = feed push s1 cs in (s2, out1 @ out2))"

locale chunk_scanner =
  fixes push :: "'s \<Rightarrow> 'b list \<Rightarrow> 's \<times> 'o list"
    and drained :: "'s \<Rightarrow> bool"
  assumes push_append: "drained s \<Longrightarrow> push s (a @ b) =
      (let (s1, out1) = push s a; (s2, out2) = push s1 b in (s2, out1 @ out2))"
    and push_nil: "drained s \<Longrightarrow> push s [] = (s, [])"
    and drained_push: "drained s \<Longrightarrow> drained (fst (push s a))"
begin

lemma feed_concat: "drained s \<Longrightarrow> feed push s cs = push s (concat cs)"
proof (induction cs arbitrary: s)
  case Nil
  then show ?case by (simp add: push_nil)
next
  case (Cons c cs)
  from Cons.prems have "drained (fst (push s c))" by (rule drained_push)
  then have "feed push (fst (push s c)) cs = push (fst (push s c)) (concat cs)"
    by (rule Cons.IH)
  with Cons.prems show ?case
    by (simp add: push_append case_prod_unfold Let_def)
qed

lemma feed_rechunk:
  "drained s \<Longrightarrow> concat cs = concat ds \<Longrightarrow> feed push s cs = feed push s ds"
  by (simp add: feed_concat)

end

subsection \<open>Zero padding to a block\<close>

text \<open>
  Three call sites of the source pad a buffer with zero bytes to a multiple of a block, never to less
  than one block. What the frames built on them rely on.
\<close>

locale zero_padder =
  fixes pad :: "buffer \<Rightarrow> buffer"
    and block :: nat
  assumes block_pos: "0 < block"
    and pad_prefix: "take (length b) (pad b) = b"
    and pad_block: "block dvd length (pad b)"
    and pad_nonempty: "pad b \<noteq> []"
    and pad_tail: "x \<in> set (drop (length b) (pad b)) \<Longrightarrow> x = 0"
    and pad_tight: "length (pad b) < length b + block \<or> length (pad b) = block"
begin

lemma pad_decomp: "\<exists>k. pad b = b @ replicate k 0"
proof -
  have "drop (length b) (pad b) = replicate (length (drop (length b) (pad b))) 0"
    by (intro replicate_eqI) (auto dest: pad_tail)
  then have "pad b = b @ replicate (length (drop (length b) (pad b))) 0"
    by (metis append_take_drop_id pad_prefix)
  then show ?thesis by blast
qed

lemma length_pad_ge: "length b \<le> length (pad b)"
  using pad_decomp [of b] by auto

lemma length_pad_ge_block: "block \<le> length (pad b)"
  using pad_block [of b] pad_nonempty [of b] by (auto intro: dvd_imp_le)

end

subsection \<open>Runs of a step function\<close>

locale stepper =
  fixes step :: "'s \<Rightarrow> 'e \<Rightarrow> 's"
    and inv :: "'s \<Rightarrow> bool"
  assumes inv_step: "inv s \<Longrightarrow> inv (step s e)"
begin

lemma inv_run: "inv s \<Longrightarrow> inv (foldl step s es)"
  by (induction es arbitrary: s) (auto intro: inv_step)

end

end
