(* ===== verification/Lz4_Block.thy ===== *)
theory Lz4_Block
  imports Eufy_Prelude
begin

text \<open>
  \<open>src/core/lz4-block.ts\<close>: the decompressor of a bare LZ4 block, the form the map stream's pixel
  planes arrive in. \<open>lz4BlockDecompress\<close> is the code's loop; \<open>lz4_block\<close> is a declarative
  grammar of blocks, and the two are shown to agree on every input. An encoder of token sequences
  gives the round trip.

  The read position is the suffix of the block still to read, and the preallocated output is the list
  of the \<open>written\<close> bytes: the source never reads at or past \<open>written\<close> and only returns a full
  buffer.
\<close>

section \<open>The decompressor\<close>

definition MAX_OUTPUT :: int where
  "MAX_OUTPUT = 64 * 1024 * 1024"

text \<open>The \<open>extend\<close> closure: the chain of length bytes that follows a saturated nibble.\<close>

fun extend_chain :: "nat \<Rightarrow> buffer \<Rightarrow> (nat \<times> buffer) option" where
  "extend_chain len [] = None"
| "extend_chain len (b # bs) =
     (if b \<noteq> 255 then Some (len + unat b, bs) else extend_chain (len + unat b) bs)"

definition extend :: "nat \<Rightarrow> buffer \<Rightarrow> (nat \<times> buffer) option" where
  "extend base bs = (if base \<noteq> 15 then Some (base, bs) else extend_chain base bs)"

text \<open>The match copy, one byte at a time: it may read bytes it has just written.\<close>

fun copy_match :: "buffer \<Rightarrow> nat \<Rightarrow> nat \<Rightarrow> buffer" where
  "copy_match out from 0 = out"
| "copy_match out from (Suc n) = copy_match (out @ [out ! from]) (Suc from) n"

lemma extend_chain_shorter: "extend_chain len bs = Some (n, bs') \<Longrightarrow> length bs' < length bs"
  by (induction len bs rule: extend_chain.induct) (auto split: if_splits)

lemma extend_le: "extend base bs = Some (n, bs') \<Longrightarrow> length bs' \<le> length bs"
  by (auto simp: extend_def split: if_splits dest: extend_chain_shorter)

function (sequential) lz4_loop :: "nat \<Rightarrow> buffer \<Rightarrow> buffer \<Rightarrow> buffer option" where
  "lz4_loop sz [] out = (if length out = sz then Some out else None)"
| "lz4_loop sz (token # bs1) out =
     (case extend (unat (drop_bit 4 token)) bs1 of
        None \<Rightarrow> None
      | Some (literals, bs2) \<Rightarrow>
          if literals > length bs2 \<or> length out + literals > sz then None
          else
            (let out1 = out @ take literals bs2 in
             case drop literals bs2 of
               [] \<Rightarrow> (if length out1 = sz then Some out1 else None)
             | [_] \<Rightarrow> None
             | lo # hi # bs4 \<Rightarrow>
                 (let offset = unat lo OR push_bit 8 (unat hi) in
                  if offset = 0 \<or> offset > length out1 then None
                  else
                    (case extend (unat (token AND 15)) bs4 of
                       None \<Rightarrow> None
                     | Some (match, bs5) \<Rightarrow>
                         (let len = match + 4 in
                          if length out1 + len > sz then None
                          else lz4_loop sz bs5
                                 (copy_match out1 (length out1 - offset) len))))))"
  by pat_completeness auto
termination
proof (relation "measure (\<lambda>(sz, bs, out). length bs)", goal_cases)
  case 1
  show ?case by simp
next
  case prems: (2 sz token bs1 out a literals bs2 out1 lo z hi bs4 offset b match bs5 len)
  have "length bs2 \<le> length bs1"
    using prems(1,2) by (auto dest: extend_le)
  moreover have "length (lo # hi # bs4) \<le> length bs2"
    using prems(5-7) by (metis diff_le_self length_drop)
  moreover have "length bs5 \<le> length bs4"
    using prems by (auto dest: extend_le)
  ultimately show ?case by simp
qed

definition lz4BlockDecompress :: "buffer \<Rightarrow> int \<Rightarrow> buffer option" where
  "lz4BlockDecompress block sz =
     (if sz < 0 \<or> sz > MAX_OUTPUT then None else lz4_loop (nat sz) block [])"

section \<open>The overlapping copy is a periodic extension\<close>

text \<open>The bytes a match stands for: the last \<open>off\<close> bytes of the output, repeated.\<close>

definition lz77_match :: "buffer \<Rightarrow> nat \<Rightarrow> nat \<Rightarrow> buffer" where
  "lz77_match out off n = map (\<lambda>i. out ! (length out - off + i mod off)) [0..<n]"

lemma length_lz77_match [simp]: "length (lz77_match out off n) = n"
  by (simp add: lz77_match_def)

lemma copy_match_nth:
  "from < length out \<Longrightarrow> length (copy_match out from n) = length out + n \<and>
   take (length out) (copy_match out from n) = out"
proof (induction n arbitrary: out "from")
  case 0
  then show ?case by simp
next
  case (Suc n)
  let ?o = "out @ [out ! from]"
  have "length (copy_match ?o (Suc from) n) = length ?o + n \<and>
      take (length ?o) (copy_match ?o (Suc from) n) = ?o"
    using Suc.prems by (intro Suc.IH) simp
  then have "length (copy_match ?o (Suc from) n) = length out + Suc n"
    and t: "take (length ?o) (copy_match ?o (Suc from) n) = ?o"
    by simp_all
  moreover have "take (length out) (copy_match ?o (Suc from) n) = out"
    using arg_cong [OF t, of "take (length out)"] by simp
  ultimately show ?case by simp
qed

lemma copy_match_snoc:
  "from < length out \<Longrightarrow>
   copy_match out from (Suc n) =
     copy_match out from n @ [copy_match out from n ! (from + n)]"
proof (induction n arbitrary: out "from")
  case 0
  then show ?case by simp
next
  case (Suc n)
  let ?o = "out @ [out ! from]"
  have "copy_match out from (Suc (Suc n)) = copy_match ?o (Suc from) (Suc n)"
    by simp
  also have "\<dots> = copy_match ?o (Suc from) n @ [copy_match ?o (Suc from) n ! (Suc from + n)]"
    using Suc.prems by (intro Suc.IH) simp
  finally show ?case by simp
qed

lemma copy_match_lz77:
  assumes "0 < off" "off \<le> length out"
  shows "copy_match out (length out - off) n = out @ lz77_match out off n"
proof (induction n)
  case 0
  then show ?case by (simp add: lz77_match_def)
next
  case (Suc n)
  let ?f = "length out - off"
  have "copy_match out ?f (Suc n) = copy_match out ?f n @ [copy_match out ?f n ! (?f + n)]"
    using assms by (intro copy_match_snoc) auto
  moreover have "(out @ lz77_match out off n) ! (?f + n) = out ! (?f + n mod off)"
  proof (cases "n < off")
    case True
    with assms have "?f + n < length out" by linarith
    with True show ?thesis by (simp add: nth_append)
  next
    case False
    then have "?f + n - length out = n - off" "n - off < n" "\<not> ?f + n < length out"
      using assms by auto
    moreover have "(n - off) mod off = n mod off"
      using False by (simp add: le_mod_geq)
    ultimately show ?thesis
      by (simp add: nth_append lz77_match_def)
  qed
  ultimately show ?case
    using Suc.IH by (simp add: lz77_match_def)
qed

lemma copy_match_lz77_append:
  assumes "0 < off" "off \<le> length a + length b"
  shows "copy_match (a @ b) (length a + length b - off) n = a @ b @ lz77_match (a @ b) off n"
  using copy_match_lz77 [of off "a @ b" n] assms by simp

section \<open>The grammar of blocks\<close>

text \<open>A length nibble and the bytes that extend it.\<close>

definition len_code :: "nat \<Rightarrow> buffer \<Rightarrow> nat \<Rightarrow> bool" where
  "len_code base ext n \<longleftrightarrow>
     (if base \<noteq> 15 then ext = [] \<and> n = base
      else \<exists>k b. ext = replicate k 255 @ [b] \<and> b \<noteq> 255 \<and> n = 15 + 255 * k + unat b)"

text \<open>
  \<open>lz4_block out bs res\<close>: with \<open>out\<close> already produced, the block \<open>bs\<close> stands for \<open>res\<close>. A block
  is a run of sequences (literals, then a match) that may end on a literal run, whose token's match
  nibble then means nothing.
\<close>

inductive lz4_block :: "buffer \<Rightarrow> buffer \<Rightarrow> buffer \<Rightarrow> bool" where
  nil: "lz4_block out [] out"
| literals: "len_code (unat (drop_bit 4 token)) ext (length lits) \<Longrightarrow>
     lz4_block out (token # ext @ lits) (out @ lits)"
| sequence: "len_code (unat (drop_bit 4 token)) ext (length lits) \<Longrightarrow>
     offset = unat lo + 256 * unat hi \<Longrightarrow> 0 < offset \<Longrightarrow> offset \<le> length (out @ lits) \<Longrightarrow>
     len_code (unat (token AND 15)) ext2 match \<Longrightarrow>
     lz4_block (out @ lits @ lz77_match (out @ lits) offset (match + 4)) rest res \<Longrightarrow>
     lz4_block out (token # ext @ lits @ lo # hi # ext2 @ rest) res"

lemma extend_chain_append:
  "b \<noteq> 255 \<Longrightarrow> extend_chain len (replicate k 255 @ b # r) = Some (len + 255 * k + unat b, r)"
  by (induction k arbitrary: len) auto

lemma extend_chain_SomeD:
  "extend_chain len bs = Some (n, r) \<Longrightarrow>
   \<exists>k b. bs = replicate k 255 @ b # r \<and> b \<noteq> 255 \<and> n = len + 255 * k + unat b"
proof (induction len bs rule: extend_chain.induct)
  case (1 len)
  then show ?case by simp
next
  case (2 len b bs)
  show ?case
  proof (cases "b = 255")
    case True
    with 2 obtain k c where "bs = replicate k 255 @ c # r" "c \<noteq> 255" "n = len + 255 + 255 * k + unat c"
      by auto
    with True have "b # bs = replicate (Suc k) 255 @ c # r \<and> c \<noteq> 255 \<and> n = len + 255 * Suc k + unat c"
      by simp
    then show ?thesis by blast
  next
    case False
    with "2.prems" have "b # bs = replicate 0 255 @ b # r \<and> b \<noteq> 255 \<and> n = len + 255 * 0 + unat b"
      by auto
    then show ?thesis by blast
  qed
qed

lemma extend_iff: "extend base bs = Some (n, r) \<longleftrightarrow> (\<exists>ext. bs = ext @ r \<and> len_code base ext n)"
proof (cases "base = 15")
  case True
  show ?thesis
  proof
    assume "extend base bs = Some (n, r)"
    with True obtain k b where "bs = (replicate k 255 @ [b]) @ r" "b \<noteq> 255" "n = 15 + 255 * k + unat b"
      by (auto simp: extend_def dest!: extend_chain_SomeD)
    with True show "\<exists>ext. bs = ext @ r \<and> len_code base ext n"
      by (auto simp: len_code_def)
  next
    assume "\<exists>ext. bs = ext @ r \<and> len_code base ext n"
    with True show "extend base bs = Some (n, r)"
      by (auto simp: extend_def len_code_def extend_chain_append)
  qed
next
  case False
  then show ?thesis by (auto simp: extend_def len_code_def)
qed

lemma or_bytes: "unat (lo :: byte) OR push_bit 8 (unat (hi :: byte)) = unat lo + 256 * unat hi"
proof -
  have "unat lo AND push_bit 8 (unat hi) = 0"
  proof (rule bit_eqI)
    fix n
    have "\<not> bit (unat lo) n" if "8 \<le> n"
    proof -
      from that have "(256 :: nat) \<le> 2 ^ n"
        using power_increasing [of 8 n "2::nat"] by simp
      then have "unat lo < 2 ^ n" by (rule order_less_le_trans [OF unat_byte_lt])
      then show ?thesis by (simp add: bit_iff_odd)
    qed
    then show "bit (unat lo AND push_bit 8 (unat hi)) n \<longleftrightarrow> bit (0::nat) n"
      by (auto simp: bit_simps)
  qed
  then have "unat lo OR push_bit 8 (unat hi) = unat lo + push_bit 8 (unat hi)"
    by (simp add: disjunctive_add_eq_or)
  then show ?thesis by (simp add: push_bit_eq_mult)
qed

section \<open>The decompressor decides the grammar\<close>

lemma lz4_block_grows: "lz4_block out bs res \<Longrightarrow> length out \<le> length res"
  by (induction rule: lz4_block.induct) auto

lemma lz4_loop_sound: "lz4_loop sz bs out = Some res \<Longrightarrow> lz4_block out bs res \<and> length res = sz"
proof (induction sz bs out rule: lz4_loop.induct)
  case (1 sz out)
  then show ?case by (auto intro: lz4_block.nil split: if_splits)
next
  case (2 sz token bs1 out)
  from "2.prems" obtain n bs2 where e: "extend (unat (drop_bit 4 token)) bs1 = Some (n, bs2)"
    and n: "n \<le> length bs2" "length out + n \<le> sz"
    by (auto split: option.splits if_splits)
  define lits where "lits = take n bs2"
  from e obtain ext where ext: "bs1 = ext @ bs2" "len_code (unat (drop_bit 4 token)) ext n"
    by (auto simp: extend_iff)
  have ll: "length lits = n" using n by (simp add: lits_def)
  consider (lit) "drop n bs2 = []" | (one) x where "drop n bs2 = [x]"
    | (seq) lo hi bs4 where "drop n bs2 = lo # hi # bs4"
    by (metis neq_Nil_conv)
  then show ?case
  proof cases
    case lit
    then have "bs2 = lits" using n by (simp add: lits_def)
    with lit "2.prems" e n ext ll show ?thesis
      by (auto simp: lits_def [symmetric] Let_def split: if_splits intro: lz4_block.literals)
  next
    case one
    with "2.prems" e n show ?thesis by (simp add: Let_def)
  next
    case seq
    then have bs2: "bs2 = lits @ lo # hi # bs4"
      unfolding lits_def by (metis append_take_drop_id)
    let ?off = "unat lo OR push_bit 8 (unat hi)"
    from seq "2.prems" e n obtain m bs5
      where off: "0 < ?off" "?off \<le> length (out @ lits)"
      and m: "extend (unat (token AND 15)) bs4 = Some (m, bs5)"
      and len: "length (out @ lits) + (m + 4) \<le> sz"
      and rec: "lz4_loop sz bs5 (copy_match (out @ lits) (length (out @ lits) - ?off) (m + 4)) = Some res"
      by (auto simp: lits_def Let_def split: option.splits if_splits)
    from "2.IH" [OF e, of n bs2] seq off m len n rec
    have IH: "lz4_block (copy_match (out @ lits) (length (out @ lits) - ?off) (m + 4)) bs5 res \<and> length res = sz"
      by (simp add: lits_def)
    from m obtain ext2 where ext2: "bs4 = ext2 @ bs5" "len_code (unat (token AND 15)) ext2 m"
      by (auto simp: extend_iff)
    show ?thesis
      using IH ext ext2 off ll bs2
      by (auto simp: copy_match_lz77_append or_bytes intro!: lz4_block.sequence)
  qed
qed

lemma lz4_loop_complete: "lz4_block out bs res \<Longrightarrow> lz4_loop (length res) bs out = Some res"
proof (induction rule: lz4_block.induct)
  case (nil out)
  then show ?case by simp
next
  case (literals token ext lits out)
  then have "extend (unat (drop_bit 4 token)) (ext @ lits) = Some (length lits, lits)"
    by (auto simp: extend_iff)
  then show ?case by (simp add: Let_def)
next
  case (sequence token ext lits offset lo hi out ext2 match rest res)
  let ?bs = "lits @ lo # hi # ext2 @ rest"
  have e: "extend (unat (drop_bit 4 token)) (ext @ ?bs) = Some (length lits, ?bs)"
    using sequence.hyps(1) unfolding extend_iff by blast
  have e2: "extend (unat (token AND 15)) (ext2 @ rest) = Some (match, rest)"
    using sequence.hyps(5) unfolding extend_iff by blast
  have "length (out @ lits) + (match + 4) \<le> length res"
    using lz4_block_grows [OF sequence.hyps(6)] by simp
  with sequence e e2 show ?case
    by (simp add: Let_def or_bytes copy_match_lz77_append)
qed

text \<open>
  C27. On every block and every size the decompressor accepts, it answers \<open>out\<close> exactly when the LZ4
  grammar derives \<open>out\<close> from the block and \<open>out\<close> has the size asked for; on every other input,
  truncated and corrupt blocks included, it answers \<open>undefined\<close>.
\<close>

theorem lz4_decompress_iff:
  "lz4BlockDecompress block sz = Some out \<longleftrightarrow>
     0 \<le> sz \<and> sz \<le> MAX_OUTPUT \<and> int (length out) = sz \<and> lz4_block [] block out"
  by (auto simp: lz4BlockDecompress_def dest: lz4_loop_sound lz4_loop_complete)

section \<open>An encoder, and the round trip\<close>

text \<open>
  What a compressor sends: sequences of literals, an offset and a match length, then a last literal
  run. The encoder writes each length canonically.
\<close>

definition enc_len :: "nat \<Rightarrow> nat \<times> buffer" where
  "enc_len n = (if n < 15 then (n, [])
     else (15, replicate ((n - 15) div 255) 255 @ [of_nat ((n - 15) mod 255)]))"

definition lz4_token :: "nat \<Rightarrow> nat \<Rightarrow> byte" where
  "lz4_token hi lo = of_nat (16 * hi + lo)"

fun lz4_encode :: "(buffer \<times> nat \<times> nat) list \<Rightarrow> buffer \<Rightarrow> buffer" where
  "lz4_encode [] lits = (case enc_len (length lits) of (h, ext) \<Rightarrow> lz4_token h 0 # ext @ lits)"
| "lz4_encode ((lits, off, n) # qs) final =
     (case enc_len (length lits) of (h, ext) \<Rightarrow> case enc_len (n - 4) of (m, ext2) \<Rightarrow>
        lz4_token h m # ext @ lits @ of_nat (off mod 256) # of_nat (off div 256)
          # ext2 @ lz4_encode qs final)"

fun lz4_expand :: "(buffer \<times> nat \<times> nat) list \<Rightarrow> buffer \<Rightarrow> buffer \<Rightarrow> buffer" where
  "lz4_expand [] final out = out @ final"
| "lz4_expand ((lits, off, n) # qs) final out =
     lz4_expand qs final (out @ lits @ lz77_match (out @ lits) off n)"

fun lz4_valid :: "(buffer \<times> nat \<times> nat) list \<Rightarrow> nat \<Rightarrow> bool" where
  "lz4_valid [] k = True"
| "lz4_valid ((lits, off, n) # qs) k =
     (0 < off \<and> off < 65536 \<and> off \<le> k + length lits \<and> 4 \<le> n \<and>
      lz4_valid qs (k + length lits + n))"

lemma enc_len_code: "len_code (fst (enc_len n)) (snd (enc_len n)) n"
proof (cases "n < 15")
  case True
  then show ?thesis by (simp add: enc_len_def len_code_def)
next
  case False
  let ?b = "of_nat ((n - 15) mod 255) :: byte"
  have u: "unat ?b = (n - 15) mod 255"
    using mod_less_divisor [of 255 "n - 15"] by (simp add: unat_of_nat_byte del: mod_less_divisor)
  then have "?b \<noteq> 255"
    using mod_less_divisor [of 255 "n - 15"] by (auto simp del: mod_less_divisor)
  moreover have "n = 15 + 255 * ((n - 15) div 255) + unat ?b"
    using False by (simp add: u)
  ultimately show ?thesis
    using False by (auto simp: enc_len_def len_code_def)
qed

lemma enc_len_lt: "fst (enc_len n) < 16"
  by (simp add: enc_len_def)

lemma lz4_token_nibbles:
  assumes "hi < 16" "lo < 16"
  shows "unat (drop_bit 4 (lz4_token hi lo)) = hi" "unat (lz4_token hi lo AND 15) = lo"
proof -
  have u: "unat (lz4_token hi lo) = 16 * hi + lo"
    using assms unfolding lz4_token_def unat_of_nat_byte by simp
  then show "unat (drop_bit 4 (lz4_token hi lo)) = hi" "unat (lz4_token hi lo AND 15) = lo"
    unfolding unat_drop_bit_byte unat_byte_and using assms by simp_all
qed

lemma unat_byte_parts:
  assumes "off < 65536"
  shows "unat (of_nat (off mod 256) :: byte) + 256 * unat (of_nat (off div 256) :: byte) = off"
  using assms by (simp add: unat_of_nat_byte)

lemma lz4_encode_block:
  "lz4_valid qs (length out) \<Longrightarrow> lz4_block out (lz4_encode qs final) (lz4_expand qs final out)"
proof (induction qs arbitrary: out)
  case Nil
  then show ?case
    using enc_len_code [of "length final"] enc_len_lt [of "length final"]
    by (auto simp: lz4_token_nibbles split: prod.split intro!: lz4_block.literals)
next
  case (Cons q qs)
  obtain lits off n where q: "q = (lits, off, n)" by (cases q)
  obtain h ext where h: "enc_len (length lits) = (h, ext)" by fastforce
  obtain m ext2 where m: "enc_len (n - 4) = (m, ext2)" by fastforce
  have v: "0 < off" "off < 65536" "off \<le> length out + length lits" "4 \<le> n"
    "lz4_valid qs (length (out @ lits @ lz77_match (out @ lits) off n))"
    using Cons.prems by (simp_all add: q add.assoc)
  have "lz4_block (out @ lits @ lz77_match (out @ lits) off n) (lz4_encode qs final)
      (lz4_expand qs final (out @ lits @ lz77_match (out @ lits) off n))"
    using v(5) by (rule Cons.IH)
  moreover have "len_code (unat (drop_bit 4 (lz4_token h m))) ext (length lits)"
    "len_code (unat (lz4_token h m AND 15)) ext2 (n - 4)"
    using enc_len_code [of "length lits"] enc_len_lt [of "length lits"]
      enc_len_code [of "n - 4"] enc_len_lt [of "n - 4"] h m
    by (simp_all add: lz4_token_nibbles)
  moreover have "off = unat (of_nat (off mod 256) :: byte) + 256 * unat (of_nat (off div 256) :: byte)"
    using v(2) by (simp add: unat_byte_parts)
  moreover obtain k where k: "n = k + 4" using v(4) by (metis le_add_diff_inverse2)
  moreover have "enc_len k = (m, ext2)" using m k by simp
  ultimately show ?case
    using v(1-4) by (simp add: q h) (rule lz4_block.sequence [where offset = off], simp_all)
qed

text \<open>
  C28. The round trip: whatever valid sequences a compressor encodes, the decompressor given the
  expanded size returns the expansion, overlapping matches included.
\<close>

theorem lz4_roundtrip:
  "lz4_valid qs 0 \<Longrightarrow> int (length (lz4_expand qs final [])) \<le> MAX_OUTPUT \<Longrightarrow>
   lz4BlockDecompress (lz4_encode qs final) (int (length (lz4_expand qs final []))) =
     Some (lz4_expand qs final [])"
  using lz4_encode_block [of qs "[]" final]
  by (auto simp: lz4BlockDecompress_def dest: lz4_loop_complete)

theorem lz4_roundtrip_witness:
  "lz4BlockDecompress (lz4_encode [([7, 8], 1, 20)] [9]) 23 = Some (7 # replicate 21 8 @ [9])"
proof -
  have e: "lz4_expand [([7, 8], 1, 20)] [9] [] = 7 # replicate 21 8 @ [9]"
    by (simp add: lz77_match_def upt_rec numeral_eq_Suc)
  show ?thesis
    using lz4_roundtrip [of "[([7, 8], 1, 20)]" "[9]"] unfolding e by (simp add: MAX_OUTPUT_def)
qed

end
