(* ===== verification/Js_Number.thy ===== *)
theory Js_Number
  imports Eufy_Prelude "HOL-Library.Char_ord"
begin

text \<open>
  The parts of JavaScript's number and string library the modelled code leans on: which integers a
  double holds exactly (\<open>Number.isSafeInteger\<close>, the rounding of larger integers), and Node's base64
  and hex encodings of a \<open>Buffer\<close>. None of this is a component of the SDK; the components import it.
\<close>

section \<open>Integers in a double\<close>

definition MAX_SAFE_INTEGER :: int where
  "MAX_SAFE_INTEGER = 9007199254740991"

definition is_safe_integer :: "int \<Rightarrow> bool" where
  "is_safe_integer n \<longleftrightarrow> - MAX_SAFE_INTEGER \<le> n \<and> n \<le> MAX_SAFE_INTEGER"

fun bit_len :: "nat \<Rightarrow> nat" where
  "bit_len n = (if n = 0 then 0 else Suc (bit_len (n div 2)))"

declare bit_len.simps [simp del]

text \<open>Round to a multiple of \<open>2 ^ k\<close>, ties to the even quotient.\<close>

definition round_shift :: "nat \<Rightarrow> nat \<Rightarrow> nat" where
  "round_shift n k =
     (let q = n div 2 ^ k; r = n mod 2 ^ k
      in (if 2 * r > 2 ^ k \<or> (2 * r = 2 ^ k \<and> odd q) then q + 1 else q) * 2 ^ k)"

text \<open>The double nearest to a natural number: 53 significant bits.\<close>

definition js_nat :: "nat \<Rightarrow> nat" where
  "js_nat n = (if bit_len n \<le> 53 then n else round_shift n (bit_len n - 53))"

definition js_int :: "int \<Rightarrow> int" where
  "js_int n = (if n < 0 then - int (js_nat (nat (- n))) else int (js_nat (nat n)))"

lemma bit_len_le: "n < 2 ^ k \<Longrightarrow> bit_len n \<le> k"
proof (induction k arbitrary: n)
  case 0
  then show ?case by (simp add: bit_len.simps)
next
  case (Suc k)
  then have "n div 2 < 2 ^ k" by auto
  then have "bit_len (n div 2) \<le> k" by (rule Suc.IH)
  then show ?case by (subst bit_len.simps) simp
qed

lemma js_nat_exact: "n < 2 ^ 53 \<Longrightarrow> js_nat n = n"
  by (simp add: js_nat_def bit_len_le)

lemma js_int_exact: "\<bar>n\<bar> < 2 ^ 53 \<Longrightarrow> js_int n = n"
  by (simp add: js_int_def js_nat_exact nat_less_iff)

section \<open>Base64\<close>

definition b64_char :: "nat \<Rightarrow> char" where
  "b64_char n =
     (if n < 26 then char_of (65 + n)
      else if n < 52 then char_of (71 + n)
      else if n < 62 then char_of (n - 4 :: nat)
      else if n = 62 then CHR ''+'' else CHR ''/'')"

text \<open>
  The sextet a character stands for; Node accepts the URL-safe alphabet too and drops every other
  character, the padding included.
\<close>

definition b64_value :: "char \<Rightarrow> nat option" where
  "b64_value c = (let n = of_char c :: nat in
     if 65 \<le> n \<and> n \<le> 90 then Some (n - 65)
     else if 97 \<le> n \<and> n \<le> 122 then Some (n - 71)
     else if 48 \<le> n \<and> n \<le> 57 then Some (n + 4)
     else if n = 43 \<or> n = 45 then Some 62
     else if n = 47 \<or> n = 95 then Some 63
     else None)"

fun b64_encode :: "buffer \<Rightarrow> string" where
  "b64_encode [] = []"
| "b64_encode [a] =
     [b64_char (unat a div 4), b64_char (unat a mod 4 * 16), CHR ''='', CHR ''='']"
| "b64_encode [a, b] =
     [b64_char (unat a div 4), b64_char (unat a mod 4 * 16 + unat b div 16),
      b64_char (unat b mod 16 * 4), CHR ''='']"
| "b64_encode (a # b # c # bs) =
     b64_char (unat a div 4) # b64_char (unat a mod 4 * 16 + unat b div 16)
     # b64_char (unat b mod 16 * 4 + unat c div 64) # b64_char (unat c mod 64) # b64_encode bs"

fun sextets_bytes :: "nat list \<Rightarrow> buffer" where
  "sextets_bytes [] = []"
| "sextets_bytes [p] = []"
| "sextets_bytes [p, q] = [of_nat (p * 4 + q div 16)]"
| "sextets_bytes [p, q, r] = [of_nat (p * 4 + q div 16), of_nat (q mod 16 * 16 + r div 4)]"
| "sextets_bytes (p # q # r # s # xs) =
     of_nat (p * 4 + q div 16) # of_nat (q mod 16 * 16 + r div 4) # of_nat (r mod 4 * 64 + s)
     # sextets_bytes xs"

definition b64_decode :: "string \<Rightarrow> buffer" where
  "b64_decode s = sextets_bytes (List.map_filter b64_value s)"

lemma b64_value_char: "n < 64 \<Longrightarrow> b64_value (b64_char n) = Some n"
  by (auto simp: b64_value_def b64_char_def Let_def)

lemma b64_value_pad: "b64_value (CHR ''='') = None"
  by (simp add: b64_value_def)

lemma byte_of_nat_eqI: "n = unat b \<Longrightarrow> of_nat n = (b :: byte)"
  by simp

lemma unat_byte_div_lt: "unat (a :: byte) div 4 < 64" "unat a div 16 < 16" "unat a div 64 < 4"
  using unat_byte_lt [of a] by linarith+

lemma b64_roundtrip: "b64_decode (b64_encode bs) = bs"
proof -
  note bounds = unat_byte_div_lt
  have lt: "unat (a :: byte) mod 4 * 16 < 64" "unat a mod 4 * 16 + unat (b :: byte) div 16 < 64"
    "unat b mod 16 * 4 < 64" "unat b mod 16 * 4 + unat (c :: byte) div 64 < 64" for a b c
    using bounds(2) [of b] bounds(3) [of c] by linarith+
  show ?thesis
    unfolding b64_decode_def
    by (induction bs rule: b64_encode.induct)
      (simp_all add: List.map_filter_simps b64_value_char b64_value_pad bounds lt byte_of_nat_eqI)
qed

section \<open>Hex\<close>

definition hex_value :: "char \<Rightarrow> nat option" where
  "hex_value c = (let n = of_char c :: nat in
     if 48 \<le> n \<and> n \<le> 57 then Some (n - 48)
     else if 97 \<le> n \<and> n \<le> 102 then Some (n - 87)
     else if 65 \<le> n \<and> n \<le> 70 then Some (n - 55)
     else None)"

definition hex_digit :: "nat \<Rightarrow> char" where
  "hex_digit n = (if n < 10 then char_of (48 + n) else char_of (87 + n))"

fun hex_encode :: "buffer \<Rightarrow> string" where
  "hex_encode [] = []"
| "hex_encode (b # bs) = hex_digit (unat b div 16) # hex_digit (unat b mod 16) # hex_encode bs"

text \<open>\<open>Buffer.from(s, "hex")\<close>: stops at the first pair that is not two hex digits.\<close>

fun hex_decode :: "string \<Rightarrow> buffer" where
  "hex_decode (c # d # cs) =
     (case (hex_value c, hex_value d) of
        (Some h, Some l) \<Rightarrow> of_nat (16 * h + l) # hex_decode cs
      | _ \<Rightarrow> [])"
| "hex_decode _ = []"

definition is_hex :: "string \<Rightarrow> bool" where
  "is_hex s = list_all (\<lambda>c. hex_value c \<noteq> None) s"

lemma hex_value_digit: "n < 16 \<Longrightarrow> hex_value (hex_digit n) = Some n"
  by (auto simp: hex_value_def hex_digit_def Let_def)

lemma hex_roundtrip: "hex_decode (hex_encode bs) = bs"
  using unat_byte_div_lt(2)
  by (induction bs) (auto simp: hex_value_digit byte_of_nat_eqI)

lemma hex_encode_clean: "is_hex (hex_encode bs) \<and> length (hex_encode bs) = 2 * length bs"
  using unat_byte_div_lt(2)
  by (induction bs) (auto simp: hex_value_digit is_hex_def)

lemma length_hex_decode: "is_hex s \<Longrightarrow> even (length s) \<Longrightarrow> length (hex_decode s) = length s div 2"
  by (induction s rule: hex_decode.induct) (auto simp: is_hex_def split: option.splits)

end
