(* ===== verification/Raw_Dp.thy ===== *)
theory Raw_Dp
  imports Js_Number
begin

text \<open>
  The structured values data points carry: \<open>src/core/raw-dp-writer.ts\<close> (the writer),
  \<open>src/transport/raw-dp.ts\<close> (the codec that reads them), \<open>src/core/raw-dp-hex.ts\<close> and
  \<open>src/model/proto-read.ts\<close> (the field readers every decoder shares).

  The codec drives a protobufjs \<open>Reader\<close>, which is not in the repository: it is the record
  \<open>pb_reader\<close>, a parameter of the definitions, and \<open>pb_contract\<close> is what the code relies on. The writer's
  spread of a byte array into one call, which an array of some hundred thousand bytes overflows, is not limited
  here.
\<close>

section \<open>The writer\<close>

fun varint_loop :: "nat \<Rightarrow> buffer" where
  "varint_loop v =
     (if v > 127 then of_nat (v mod 128 + 128) # varint_loop (v div 128) else [of_nat v])"

declare varint_loop.simps [simp del]

definition encodeVarint :: "int \<Rightarrow> js_error + buffer" where
  "encodeVarint value =
     (if \<not> is_safe_integer value \<or> value < 0 then Inl (UserError ''varint'')
      else Inr (varint_loop (nat value)))"

definition zigzag :: "int \<Rightarrow> js_error + int" where
  "zigzag value =
     (if \<not> is_safe_integer value then Inl (UserError ''zigzag'')
      else Inr (if value < 0 then js_int (js_int (- 2 * value) - 1) else js_int (2 * value)))"

definition WIRE_VARINT :: int where "WIRE_VARINT = 0"
definition WIRE_LENGTH_DELIMITED :: int where "WIRE_LENGTH_DELIMITED = 2"

definition dp_tag :: "int \<Rightarrow> int \<Rightarrow> js_error + int" where
  "dp_tag field wire =
     (if \<not> is_safe_integer field \<or> field < 1 then Inl (UserError ''field number'')
      else Inr (js_int (js_int (field * 8) + wire)))"

text \<open>
  The writer's methods take the body so far and return it extended. Every argument of the \<open>push\<close> is
  evaluated before anything is appended, so a throw leaves the body as it was.
\<close>

definition w_int :: "int \<Rightarrow> int \<Rightarrow> buffer \<Rightarrow> js_error + buffer" where
  "w_int field value body =
     res_bind (dp_tag field WIRE_VARINT) (\<lambda>t.
     res_bind (encodeVarint t) (\<lambda>tb.
     res_bind (encodeVarint value) (\<lambda>vb. Inr (body @ tb @ vb))))"

definition w_sint :: "int \<Rightarrow> int \<Rightarrow> buffer \<Rightarrow> js_error + buffer" where
  "w_sint field value body = res_bind (zigzag value) (\<lambda>z. w_int field z body)"

definition w_bool :: "int \<Rightarrow> bool \<Rightarrow> buffer \<Rightarrow> js_error + buffer" where
  "w_bool field value body = w_int field (if value then 1 else 0) body"

definition w_bytes :: "int \<Rightarrow> buffer \<Rightarrow> buffer \<Rightarrow> js_error + buffer" where
  "w_bytes field bs body =
     res_bind (dp_tag field WIRE_LENGTH_DELIMITED) (\<lambda>t.
     res_bind (encodeVarint t) (\<lambda>tb.
     res_bind (encodeVarint (int (length bs))) (\<lambda>lb. Inr (body @ tb @ lb @ bs))))"

definition w_sub :: "int \<Rightarrow> (buffer \<Rightarrow> js_error + buffer) \<Rightarrow> buffer \<Rightarrow> js_error + buffer" where
  "w_sub field build body = res_bind (build []) (\<lambda>inner. w_bytes field inner body)"

definition w_finish :: "buffer \<Rightarrow> js_error + string" where
  "w_finish body =
     res_bind (encodeVarint (int (length body))) (\<lambda>lb. Inr (b64_encode (lb @ body)))"

definition rawDp :: "(buffer \<Rightarrow> js_error + buffer) \<Rightarrow> js_error + string" where
  "rawDp build = res_bind (build []) w_finish"

section \<open>The reader\<close>

text \<open>
  A protobufjs \<open>Reader\<close> over a buffer at a position: each read answers the value and the position
  after it, or \<open>None\<close> where it throws.
\<close>

record pb_reader =
  rd_uint32 :: "buffer \<Rightarrow> nat \<Rightarrow> (nat \<times> nat) option"
  rd_uint64 :: "buffer \<Rightarrow> nat \<Rightarrow> (nat \<times> nat) option"
  rd_fixed64 :: "buffer \<Rightarrow> nat \<Rightarrow> (nat \<times> nat) option"
  rd_fixed32 :: "buffer \<Rightarrow> nat \<Rightarrow> (nat \<times> nat) option"
  rd_bytes :: "buffer \<Rightarrow> nat \<Rightarrow> (buffer \<times> nat) option"

text \<open>
  The documented behaviour: a varint read recovers the value from its base-128 groups and stops after
  them, and \<open>bytes\<close> reads a length and that many bytes.
\<close>

definition pb_contract :: "pb_reader \<Rightarrow> bool" where
  "pb_contract r \<longleftrightarrow>
     (\<forall>a v c. v < 2 ^ 32 \<longrightarrow>
        rd_uint32 r (a @ varint_loop v @ c) (length a) =
          Some (v, length a + length (varint_loop v))) \<and>
     (\<forall>a v c. v < 2 ^ 64 \<longrightarrow>
        rd_uint64 r (a @ varint_loop v @ c) (length a) =
          Some (v, length a + length (varint_loop v))) \<and>
     (\<forall>a bs c. length bs < 2 ^ 32 \<longrightarrow>
        rd_bytes r (a @ varint_loop (length bs) @ bs @ c) (length a) =
          Some (bs, length a + length (varint_loop (length bs)) + length bs))"

datatype dp_value = IntV nat | BytesV buffer

type_synonym dp_field = "nat \<times> dp_value"

text \<open>
  The body of \<open>readFields\<close>'s loop at one position: the field read and the position after it, or
  \<open>None\<close> where the payload is rejected (a throw, or a wire type other than 0, 1, 2, 5).
\<close>

definition map_read :: "('a \<Rightarrow> 'b) \<Rightarrow> ('a \<times> nat) option \<Rightarrow> ('b \<times> nat) option" where
  "map_read f = map_option (\<lambda>(v, q). (f v, q))"

definition read_field :: "pb_reader \<Rightarrow> buffer \<Rightarrow> nat \<Rightarrow> (dp_field \<times> nat) option" where
  "read_field r body pos =
     (case rd_uint32 r body pos of
        None \<Rightarrow> None
      | Some (tag, pos1) \<Rightarrow>
          (let field = drop_bit 3 tag; wire = tag AND 7 in
           if wire = 0 then map_read (\<lambda>v. (field, IntV v)) (rd_uint64 r body pos1)
           else if wire = 1 then map_read (\<lambda>v. (field, IntV v)) (rd_fixed64 r body pos1)
           else if wire = 2 then map_read (\<lambda>v. (field, BytesV v)) (rd_bytes r body pos1)
           else if wire = 5 then map_read (\<lambda>v. (field, IntV v)) (rd_fixed32 r body pos1)
           else None))"

text \<open>
  The loop, with fuel for a reader that would not move: \<open>None\<close> is running out of it, \<open>Some None\<close>
  is the source's \<open>undefined\<close>.
\<close>

fun read_loop :: "pb_reader \<Rightarrow> buffer \<Rightarrow> nat \<Rightarrow> nat \<Rightarrow> dp_field list \<Rightarrow> dp_field list option option" where
  "read_loop r body 0 pos out = None"
| "read_loop r body (Suc fuel) pos out =
     (if pos < length body then
        (case read_field r body pos of
           None \<Rightarrow> Some None
         | Some (f, pos') \<Rightarrow> read_loop r body fuel pos' (out @ [f]))
      else Some (if pos = length body then Some out else None))"

definition readFields :: "pb_reader \<Rightarrow> buffer \<Rightarrow> dp_field list option option" where
  "readFields r body = read_loop r body (Suc (length body)) 0 []"

definition rawdp_decode :: "pb_reader \<Rightarrow> string \<Rightarrow> dp_field list option option" where
  "rawdp_decode r value =
     (if value = [] then Some None
      else
        (let buf = b64_decode value in
         if buf = [] then Some None
         else
           (case rd_uint32 r buf 0 of
              None \<Rightarrow> Some None
            | Some (len, bodyStart) \<Rightarrow>
                (let body = drop bodyStart buf in
                 if len \<noteq> length body then Some None else readFields r body))))"

definition rawdp_nested :: "pb_reader \<Rightarrow> buffer \<Rightarrow> dp_field list option option" where
  "rawdp_nested r value = readFields r value"

definition hexToRawDp :: "string \<Rightarrow> string option" where
  "hexToRawDp hex =
     (if length hex = 0 \<or> length hex mod 2 \<noteq> 0 \<or> \<not> is_hex hex then None
      else Some (b64_encode (hex_decode hex)))"

section \<open>The field readers\<close>

text \<open>\<open>fields?.find((f) => f.field === field)\<close>\<close>

definition find_field :: "dp_field list option \<Rightarrow> nat \<Rightarrow> dp_value option" where
  "find_field flds field =
     (case flds of None \<Rightarrow> None | Some fs \<Rightarrow> map_of fs field)"

definition pr_int :: "dp_field list option \<Rightarrow> nat \<Rightarrow> nat" where
  "pr_int flds field =
     (case find_field flds field of Some (IntV v) \<Rightarrow> js_nat v | _ \<Rightarrow> 0)"

definition pr_flag :: "dp_field list option \<Rightarrow> nat \<Rightarrow> bool" where
  "pr_flag flds field =
     (case find_field flds field of Some (IntV v) \<Rightarrow> v \<noteq> 0 | _ \<Rightarrow> False)"

definition pr_signed :: "dp_field list option \<Rightarrow> nat \<Rightarrow> int" where
  "pr_signed flds field =
     (let raw = int (pr_int flds field) in
      if raw mod 2 = 0 then raw div 2 else (- js_int (raw + 1)) div 2)"

definition pr_bytes :: "dp_field list option \<Rightarrow> nat \<Rightarrow> buffer option" where
  "pr_bytes flds field =
     (case find_field flds field of
        Some (BytesV b) \<Rightarrow> if 0 < length b then Some b else None
      | _ \<Rightarrow> None)"

definition pr_sub :: "(buffer \<Rightarrow> dp_field list option) \<Rightarrow> dp_field list option \<Rightarrow> nat \<Rightarrow> dp_field list option" where
  "pr_sub nested flds field =
     (case find_field flds field of Some (BytesV b) \<Rightarrow> nested b | _ \<Rightarrow> None)"

definition pr_each :: "(buffer \<Rightarrow> dp_field list option) \<Rightarrow> dp_field list option \<Rightarrow> nat \<Rightarrow> dp_field list list" where
  "pr_each nested flds field =
     concat (map (\<lambda>(n, v). case v of
         BytesV b \<Rightarrow> if n \<noteq> field then [] else (case nested b of None \<Rightarrow> [] | Some inner \<Rightarrow> [inner])
       | IntV _ \<Rightarrow> [])
       (case flds of None \<Rightarrow> [] | Some fs \<Rightarrow> fs))"

section \<open>Round trips\<close>

lemma varint_loop_nonempty [simp]: "varint_loop v \<noteq> []"
  by (subst varint_loop.simps) simp

text \<open>The value base-128 groups stand for: the specification a varint is read by.\<close>

fun varint_value :: "buffer \<Rightarrow> nat" where
  "varint_value [] = 0"
| "varint_value (b # bs) = unat b mod 128 + 128 * varint_value bs"

definition varint_shape :: "buffer \<Rightarrow> bool" where
  "varint_shape bs \<longleftrightarrow> bs \<noteq> [] \<and> unat (last bs) < 128 \<and> (\<forall>b \<in> set (butlast bs). 128 \<le> unat b)"

lemma varint_loop_spec: "varint_shape (varint_loop v) \<and> varint_value (varint_loop v) = v"
proof (induction v rule: varint_loop.induct)
  case (1 v)
  show ?case
  proof (cases "v > 127")
    case True
    have m: "v mod 128 + 128 < 256" by (rule order_less_le_trans [of _ "128 + 128"]) simp_all
    have h: "unat (of_nat (v mod 128 + 128) :: byte) = v mod 128 + 128"
      unfolding unat_of_nat_byte using m by (rule mod_less)
    have "varint_loop v = of_nat (v mod 128 + 128) # varint_loop (v div 128)"
      using True by (subst varint_loop.simps) simp
    moreover note "1.IH" [OF True]
    ultimately show ?thesis
      by (simp add: varint_shape_def h del: of_nat_add)
  next
    case False
    then have "varint_loop v = [of_nat v]" by (subst varint_loop.simps) simp
    with False show ?thesis by (simp add: varint_shape_def unat_of_nat_byte)
  qed
qed

text \<open>
  A varint is emitted low group first, with the continuation bit on every group but the last, and
  its groups stand for exactly the value given, over the whole safe-integer range; anything else
  raises.
\<close>

theorem encodeVarint_correct:
  "case encodeVarint value of
     Inr bs \<Rightarrow> 0 \<le> value \<and> is_safe_integer value \<and> varint_shape bs \<and> int (varint_value bs) = value
   | Inl e \<Rightarrow> \<not> (0 \<le> value \<and> is_safe_integer value)"
  using varint_loop_spec [of "nat value"] by (auto simp: encodeVarint_def)

lemma pr_signed_zigzag:
  assumes "\<bar>v\<bar> \<le> 2 ^ 51" and "zigzag v = Inr z"
    and "find_field flds f = Some (IntV (nat z))"
  shows "pr_signed flds f = v"
proof -
  have b: "\<bar>2 * v\<bar> < 2 ^ 53" "\<bar>- 2 * v\<bar> < 2 ^ 53" "\<bar>- 2 * v - 1\<bar> < 2 ^ 53" "\<bar>- 2 * v - 1 + 1\<bar> < 2 ^ 53"
    using assms(1) by auto
  have "is_safe_integer v"
    using assms(1) by (auto simp: is_safe_integer_def MAX_SAFE_INTEGER_def)
  then have z: "z = (if v < 0 then - 2 * v - 1 else 2 * v)"
    using assms(2) b by (simp add: zigzag_def js_int_exact split: if_splits)
  then have "0 \<le> z" "z < 2 ^ 53" using b by (auto split: if_splits)
  then have r: "int (pr_int flds f) = z"
    using assms(3) by (simp add: pr_int_def js_nat_exact nat_less_iff)
  show ?thesis
  proof (cases "v < 0")
    case True
    then have "z mod 2 = 1" and "z + 1 = - 2 * v" unfolding z by presburger+
    with True b show ?thesis by (simp add: pr_signed_def r js_int_exact)
  next
    case False
    then have "z mod 2 = 0" unfolding z by simp
    with False show ?thesis by (simp add: pr_signed_def r z)
  qed
qed

section \<open>What the writer writes, the codec reads back\<close>

text \<open>A writing program: the calls a builder makes on its writer, in order.\<close>

datatype dp_write = WInt int int | WBytes int buffer

fun run_writes :: "dp_write list \<Rightarrow> buffer \<Rightarrow> js_error + buffer" where
  "run_writes [] body = Inr body"
| "run_writes (WInt f v # ws) body = res_bind (w_int f v body) (run_writes ws)"
| "run_writes (WBytes f bs # ws) body = res_bind (w_bytes f bs body) (run_writes ws)"

fun write_ok :: "dp_write \<Rightarrow> bool" where
  "write_ok (WInt f v) \<longleftrightarrow> 1 \<le> f \<and> f < 2 ^ 29 \<and> 0 \<le> v \<and> is_safe_integer v"
| "write_ok (WBytes f bs) \<longleftrightarrow> 1 \<le> f \<and> f < 2 ^ 29 \<and> length bs < 2 ^ 32"

fun field_of :: "dp_write \<Rightarrow> dp_field" where
  "field_of (WInt f v) = (nat f, IntV (nat v))"
| "field_of (WBytes f bs) = (nat f, BytesV bs)"

fun write_bytes :: "dp_write \<Rightarrow> buffer" where
  "write_bytes (WInt f v) = varint_loop (8 * nat f) @ varint_loop (nat v)"
| "write_bytes (WBytes f bs) = varint_loop (8 * nat f + 2) @ varint_loop (length bs) @ bs"

lemma safe_small: "0 \<le> n \<Longrightarrow> n < 2 ^ 33 \<Longrightarrow> is_safe_integer n"
  by (simp add: is_safe_integer_def MAX_SAFE_INTEGER_def)

lemma dp_tag_small:
  assumes "1 \<le> f" "f < 2 ^ 29" "0 \<le> w" "w < 8"
  shows "dp_tag f w = Inr (f * 8 + w)"
  using assms by (simp add: dp_tag_def safe_small js_int_exact)

lemma encodeVarint_safe: "0 \<le> n \<Longrightarrow> is_safe_integer n \<Longrightarrow> encodeVarint n = Inr (varint_loop (nat n))"
  by (simp add: encodeVarint_def)

lemma run_writes_ok:
  "list_all write_ok ws \<Longrightarrow> run_writes ws body = Inr (body @ concat (map write_bytes ws))"
proof (induction ws arbitrary: body)
  case Nil
  then show ?case by simp
next
  case (Cons w ws)
  have nm: "nat (f * 8) = nat f * 8" "nat (f * 8 + 2) = nat f * 8 + 2" if "1 \<le> f" for f :: int
    using that by linarith+
  show ?case
  proof (cases w)
    case (WInt f v)
    with Cons.prems have "w_int f v body = Inr (body @ write_bytes w)"
      by (simp add: w_int_def WIRE_VARINT_def dp_tag_small encodeVarint_safe safe_small nm mult.commute)
    with Cons WInt show ?thesis by simp
  next
    case (WBytes f bs)
    with Cons.prems have "w_bytes f bs body = Inr (body @ write_bytes w)"
      by (simp add: w_bytes_def WIRE_LENGTH_DELIMITED_def dp_tag_small encodeVarint_safe safe_small
          nm mult.commute)
    with Cons WBytes show ?thesis by simp
  qed
qed

lemma nat_tag: "drop_bit 3 (8 * f + w) = f" "(8 * f + w) AND 7 = w" if "w < 8" for f w :: nat
proof -
  show "drop_bit 3 (8 * f + w) = f" using that by (simp add: drop_bit_eq_div)
  have "(8 * f + w) AND 7 = take_bit 3 (8 * f + w)" by (simp add: take_bit_eq_mask mask_eq_exp_minus_1)
  then show "(8 * f + w) AND 7 = w" using that by (simp add: take_bit_eq_mod)
qed

lemma pb_contractD:
  assumes "pb_contract r"
  shows "v < 2 ^ 32 \<Longrightarrow> rd_uint32 r (a @ varint_loop v @ c) (length a) =
      Some (v, length a + length (varint_loop v))"
    and "v < 2 ^ 64 \<Longrightarrow> rd_uint64 r (a @ varint_loop v @ c) (length a) =
      Some (v, length a + length (varint_loop v))"
    and "length bs < 2 ^ 32 \<Longrightarrow> rd_bytes r (a @ varint_loop (length bs) @ bs @ c) (length a) =
      Some (bs, length a + length (varint_loop (length bs)) + length bs)"
  using assms by (simp_all add: pb_contract_def)

lemma read_field_write:
  assumes r: "pb_contract r" and ok: "write_ok w"
  shows "read_field r (a @ write_bytes w @ c) (length a) =
    Some (field_of w, length a + length (write_bytes w))"
proof (cases w)
  case (WInt f v)
  let ?t = "varint_loop (8 * nat f)"
  have "8 * nat f < 2 ^ 32" "nat v < 2 ^ 64"
    using ok WInt by (auto simp: is_safe_integer_def MAX_SAFE_INTEGER_def)
  then have "rd_uint32 r (a @ ?t @ varint_loop (nat v) @ c) (length a) = Some (8 * nat f, length a + length ?t)"
    and "rd_uint64 r ((a @ ?t) @ varint_loop (nat v) @ c) (length (a @ ?t)) =
      Some (nat v, length (a @ ?t) + length (varint_loop (nat v)))"
    by (simp_all only: pb_contractD [OF r])
  then show ?thesis
    using WInt nat_tag [of 0 "nat f"] by (simp add: read_field_def map_read_def Let_def)
next
  case (WBytes f bs)
  let ?t = "varint_loop (8 * nat f + 2)"
  have "8 * nat f + 2 < 2 ^ 32" "length bs < 2 ^ 32"
    using ok WBytes by auto
  then have "rd_uint32 r (a @ ?t @ varint_loop (length bs) @ bs @ c) (length a) =
      Some (8 * nat f + 2, length a + length ?t)"
    and "rd_bytes r ((a @ ?t) @ varint_loop (length bs) @ bs @ c) (length (a @ ?t)) =
      Some (bs, length (a @ ?t) + length (varint_loop (length bs)) + length bs)"
    by (simp_all only: pb_contractD [OF r])
  then show ?thesis
    using WBytes nat_tag [of 2 "nat f"] by (simp add: read_field_def map_read_def Let_def)
qed

lemma read_loop_writes:
  assumes r: "pb_contract r"
  shows "list_all write_ok ws \<Longrightarrow> length ws < fuel \<Longrightarrow>
    read_loop r (a @ concat (map write_bytes ws)) fuel (length a) out =
      Some (Some (out @ map field_of ws))"
proof (induction ws arbitrary: fuel a out)
  case Nil
  then show ?case by (cases fuel) auto
next
  case (Cons w ws)
  obtain fuel' where f: "fuel = Suc fuel'" "length ws < fuel'"
    using Cons.prems(2) by (cases fuel) auto
  have ne: "write_bytes w \<noteq> []" by (cases w) simp_all
  have "read_loop r ((a @ write_bytes w) @ concat (map write_bytes ws)) fuel' (length (a @ write_bytes w))
      (out @ [field_of w]) = Some (Some ((out @ [field_of w]) @ map field_of ws))"
    using Cons.prems(1) f(2) by (intro Cons.IH) simp_all
  with f(1) ne Cons.prems(1) show ?case
    by (simp add: read_field_write [OF r])
qed

lemma length_writes: "length ws \<le> length (concat (map write_bytes ws))"
proof (induction ws)
  case (Cons w ws)
  have "1 \<le> length (write_bytes w)" by (cases w) (simp_all add: Suc_leI)
  with Cons show ?case by simp
qed simp

text \<open>
  C39. The genuine round trip the writer's documentation claims: for any run of field writes with field
  numbers and values in range, the finished DP value decodes, through the codec, to exactly those
  fields in that order.
\<close>

theorem rawdp_roundtrip:
  assumes r: "pb_contract r" and ok: "list_all write_ok ws"
    and size: "length (concat (map write_bytes ws)) < 2 ^ 32"
  shows "\<exists>value. rawDp (run_writes ws) = Inr value \<and>
     rawdp_decode r value = Some (Some (map field_of ws))"
proof -
  let ?body = "concat (map write_bytes ws)"
  let ?len = "varint_loop (length ?body)"
  have "is_safe_integer (int (length ?body))" using size by (intro safe_small) simp_all
  then have w: "rawDp (run_writes ws) = Inr (b64_encode (?len @ ?body))"
    by (simp add: rawDp_def w_finish_def run_writes_ok [OF ok] encodeVarint_safe)
  have "rd_uint32 r ([] @ ?len @ ?body) (length ([] :: buffer)) =
      Some (length ?body, length ([] :: buffer) + length ?len)"
    using pb_contractD(1) [OF r size] .
  moreover have "read_loop r ([] @ ?body) (Suc (length ?body)) (length ([] :: buffer)) [] =
      Some (Some ([] @ map field_of ws))"
    using length_writes [of ws] by (intro read_loop_writes [OF r ok]) simp
  moreover have "b64_encode (?len @ ?body) \<noteq> []"
    using b64_roundtrip [of "?len @ ?body"] by (auto simp: b64_decode_def)
  ultimately have "rawdp_decode r (b64_encode (?len @ ?body)) = Some (Some (map field_of ws))"
    by (simp add: rawdp_decode_def readFields_def b64_roundtrip Let_def)
  with w show ?thesis by blast
qed

section \<open>Fuel, and a reader that meets the contract\<close>

text \<open>A reader whose reads, where they do not throw, move forward; they may go past the end.\<close>

definition moves_on :: "(buffer \<Rightarrow> nat \<Rightarrow> ('a \<times> nat) option) \<Rightarrow> bool" where
  "moves_on rd \<longleftrightarrow> (\<forall>b p v q. rd b p = Some (v, q) \<longrightarrow> p < q)"

definition reader_moves :: "pb_reader \<Rightarrow> bool" where
  "reader_moves r \<longleftrightarrow> moves_on (rd_uint32 r) \<and> moves_on (rd_uint64 r) \<and> moves_on (rd_fixed64 r) \<and>
     moves_on (rd_fixed32 r) \<and> moves_on (rd_bytes r)"

lemma map_read_moves: "moves_on rd \<Longrightarrow> map_read g (rd b p) = Some (v, q) \<Longrightarrow> p < q"
  by (auto simp: map_read_def moves_on_def)

lemma read_field_moves:
  assumes "reader_moves r" "read_field r body pos = Some (f, pos')"
  shows "pos < pos'"
proof -
  have mv: "moves_on (rd_uint32 r)" "moves_on (rd_uint64 r)" "moves_on (rd_fixed64 r)"
    "moves_on (rd_fixed32 r)" "moves_on (rd_bytes r)"
    using assms(1) by (simp_all add: reader_moves_def)
  obtain t p1 where u: "rd_uint32 r body pos = Some (t, p1)"
    using assms(2) by (auto simp: read_field_def split: option.splits)
  then have "pos < p1" using mv(1) by (auto simp: moves_on_def)
  moreover have "p1 < pos'"
    using assms(2) u unfolding read_field_def
    by (auto simp: Let_def split: if_splits
        dest: map_read_moves [OF mv(2)] map_read_moves [OF mv(3)] map_read_moves [OF mv(4)] map_read_moves [OF mv(5)])
  ultimately show ?thesis by simp
qed

text \<open>The fuel is enough for any such reader: the loop's own answers are the only ones.\<close>

lemma read_loop_fuel:
  assumes "reader_moves r"
  shows "length body - pos < fuel \<Longrightarrow> read_loop r body fuel pos out \<noteq> None"
proof (induction fuel arbitrary: pos out)
  case (Suc fuel)
  show ?case
  proof (cases "pos < length body \<and> (\<exists>f pos'. read_field r body pos = Some (f, pos'))")
    case True
    then obtain f pos' where f: "read_field r body pos = Some (f, pos')" by blast
    have "pos < length body" using True by blast
    then have "length body - pos' < fuel" using read_field_moves [OF assms f] Suc.prems by arith
    then show ?thesis using True f Suc.IH [of pos' "out @ [f]"] by simp
  next
    case False
    then show ?thesis by (auto split: option.split)
  qed
qed simp

lemma readFields_returns: "reader_moves r \<Longrightarrow> readFields r body \<noteq> None"
  unfolding readFields_def by (rule read_loop_fuel) simp_all

text \<open>A reader that meets the contract, for the witnesses.\<close>

fun take_varint :: "buffer \<Rightarrow> buffer option" where
  "take_varint [] = None"
| "take_varint (b # bs) = (if unat b < 128 then Some [b] else map_option ((#) b) (take_varint bs))"

definition sample_varint :: "nat \<Rightarrow> buffer \<Rightarrow> nat \<Rightarrow> (nat \<times> nat) option" where
  "sample_varint w b p =
     (case take_varint (drop p b) of
        None \<Rightarrow> None
      | Some g \<Rightarrow> Some (varint_value g mod 2 ^ w, p + length g))"

definition sample_fixed :: "nat \<Rightarrow> buffer \<Rightarrow> nat \<Rightarrow> (nat \<times> nat) option" where
  "sample_fixed n b p = (if p + n \<le> length b then Some (u32le_at b p, p + n) else None)"

definition sample_bytes :: "buffer \<Rightarrow> nat \<Rightarrow> (buffer \<times> nat) option" where
  "sample_bytes b p =
     (case sample_varint 32 b p of
        None \<Rightarrow> None
      | Some (n, q) \<Rightarrow> if q + n \<le> length b then Some (take n (drop q b), q + n) else None)"

definition sample_reader :: pb_reader where
  "sample_reader = \<lparr>rd_uint32 = sample_varint 32, rd_uint64 = sample_varint 64,
     rd_fixed64 = sample_fixed 8, rd_fixed32 = sample_fixed 4, rd_bytes = sample_bytes\<rparr>"

lemma take_varint_shape:
  "varint_shape g \<Longrightarrow> take_varint (g @ c) = Some g"
proof (induction g)
  case Nil
  then show ?case by (simp add: varint_shape_def)
next
  case (Cons b g)
  show ?case
  proof (cases "g = []")
    case True
    with Cons.prems show ?thesis by (simp add: varint_shape_def)
  next
    case False
    with Cons.prems have "varint_shape g" "\<not> unat b < 128" by (auto simp: varint_shape_def)
    with Cons.IH show ?thesis by simp
  qed
qed

lemma take_varint_length: "take_varint bs = Some g \<Longrightarrow> 0 < length g \<and> length g \<le> length bs"
  by (induction bs arbitrary: g) (auto split: if_splits)

lemma sample_varint_at:
  "v < 2 ^ w \<Longrightarrow> sample_varint w (a @ varint_loop v @ c) (length a) =
     Some (v, length a + length (varint_loop v))"
  using varint_loop_spec [of v] by (simp add: sample_varint_def take_varint_shape)

lemma sample_varint_moves: "moves_on (sample_varint w)"
  by (auto simp: moves_on_def sample_varint_def split: option.splits dest!: take_varint_length)

lemma sample_bytes_moves: "moves_on sample_bytes"
  using sample_varint_moves [of 32]
  by (fastforce simp: moves_on_def sample_bytes_def split: option.splits if_splits)

lemma sample_reader_moves: "reader_moves sample_reader"
proof -
  have "moves_on (sample_fixed n)" if "0 < n" for n
    using that by (auto simp: moves_on_def sample_fixed_def split: if_splits)
  then show ?thesis by (simp add: reader_moves_def sample_reader_def sample_varint_moves sample_bytes_moves)
qed

lemma sample_reader_contract: "pb_contract sample_reader"
proof -
  have "sample_bytes (a @ varint_loop (length bs) @ bs @ c) (length a) =
      Some (bs, length a + length (varint_loop (length bs)) + length bs)"
    if "length bs < 2 ^ 32" for a bs c
    using sample_varint_at [OF that, of a "bs @ c"] by (simp add: sample_bytes_def)
  then show ?thesis
    unfolding pb_contract_def sample_reader_def pb_reader.simps
    by (intro conjI allI impI sample_varint_at) simp_all
qed

theorem rawdp_roundtrip_witness:
  "\<exists>value. rawDp (run_writes [WInt 1 6, WBytes 2 [1, 2], WInt 3 300]) = Inr value \<and>
     rawdp_decode sample_reader value =
       Some (Some [(1, IntV 6), (2, BytesV [1, 2]), (3, IntV 300)])"
  using rawdp_roundtrip [OF sample_reader_contract, of "[WInt 1 6, WBytes 2 [1, 2], WInt 3 300]"]
  by (simp add: is_safe_integer_def MAX_SAFE_INTEGER_def varint_loop.simps)

text \<open>
  A signed field survives the trip: for every value a map coordinate can take (and far beyond),
  reading the zig-zag encoded field with \<open>signed\<close> gives back the value written with \<open>sint\<close>.
\<close>

theorem signed_roundtrip:
  assumes v: "\<bar>v\<bar> \<le> 2 ^ 51" and f: "1 \<le> f" "f < 2 ^ 29"
  shows "\<exists>z. zigzag v = Inr z \<and> w_sint f v [] = Inr (write_bytes (WInt f z)) \<and>
    pr_signed (Some [field_of (WInt f z)]) (nat f) = v"
proof -
  have "is_safe_integer v" using v by (auto simp: is_safe_integer_def MAX_SAFE_INTEGER_def)
  then obtain z where z: "zigzag v = Inr z" by (simp add: zigzag_def)
  have "is_safe_integer z" "0 \<le> z"
    using z v by (auto simp: zigzag_def js_int_exact is_safe_integer_def MAX_SAFE_INTEGER_def split: if_splits)
  then have "w_sint f v [] = Inr (write_bytes (WInt f z))"
    using run_writes_ok [of "[WInt f z]" "[]"] f z by (simp add: w_sint_def res_bind_def split: sum.splits)
  moreover have "pr_signed (Some [field_of (WInt f z)]) (nat f) = v"
    using v z by (rule pr_signed_zigzag) (simp add: find_field_def)
  ultimately show ?thesis using z by blast
qed

theorem signed_roundtrip_witness:
  "\<exists>z. zigzag (- 150) = Inr z \<and> w_sint 2 (- 150) [] = Inr (write_bytes (WInt 2 z)) \<and>
    pr_signed (Some [field_of (WInt 2 z)]) (nat 2) = - 150"
  by (rule signed_roundtrip) simp_all

end
