(* ===== verification/P2p_Codec.thy ===== *)
theory P2p_Codec
  imports Js_String
begin

text \<open>
  \<open>src/transport/p2p/codec.ts\<close>: the PPCS datagram and command framing, the lookup payloads, the
  cloud-address cipher, the key derivation and the ECIES unwrap. The primitives of \<open>node:crypto\<close>
  (HMAC-SHA256, ECDH on P-256, AES) are parameters: the record \<open>crypto\<close>.
\<close>

section \<open>Message types and the datagram frame\<close>

definition MAGIC_WORD :: buffer where
  "MAGIC_WORD = bytes_of_string ''XZYH''"

datatype request_type = LOCAL_LOOKUP | LOOKUP_WITH_KEY | LOOKUP_WITH_KEY2 | CHECK_CAM | CHECK_CAM2
  | REQ_PING | REQ_PONG | REQ_DATA | REQ_ACK | REQ_END

fun request_bytes :: "request_type \<Rightarrow> buffer" where
  "request_bytes LOCAL_LOOKUP = [0xf1, 0x30]"
| "request_bytes LOOKUP_WITH_KEY = [0xf1, 0x26]"
| "request_bytes LOOKUP_WITH_KEY2 = [0xf1, 0x6a]"
| "request_bytes CHECK_CAM = [0xf1, 0x41]"
| "request_bytes CHECK_CAM2 = [0xf1, 0x42]"
| "request_bytes REQ_PING = [0xf1, 0xe0]"
| "request_bytes REQ_PONG = [0xf1, 0xe1]"
| "request_bytes REQ_DATA = [0xf1, 0xd0]"
| "request_bytes REQ_ACK = [0xf1, 0xd1]"
| "request_bytes REQ_END = [0xf1, 0xf0]"

datatype response_type = LOCAL_LOOKUP_RESP | LOOKUP_ADDR | LOOKUP_ADDR2 | CAM_ID | TURN_SERVER_CAM_ID
  | RESP_PING | RESP_PONG | RESP_DATA | RESP_ACK | RESP_END

fun response_bytes :: "response_type \<Rightarrow> buffer" where
  "response_bytes LOCAL_LOOKUP_RESP = [0xf1, 0x41]"
| "response_bytes LOOKUP_ADDR = [0xf1, 0x40]"
| "response_bytes LOOKUP_ADDR2 = [0xf1, 0x82]"
| "response_bytes CAM_ID = [0xf1, 0x42]"
| "response_bytes TURN_SERVER_CAM_ID = [0xf1, 0x84]"
| "response_bytes RESP_PING = [0xf1, 0xe0]"
| "response_bytes RESP_PONG = [0xf1, 0xe1]"
| "response_bytes RESP_DATA = [0xf1, 0xd0]"
| "response_bytes RESP_ACK = [0xf1, 0xd1]"
| "response_bytes RESP_END = [0xf1, 0xf0]"

datatype p2p_data_type = DT_DATA | DT_VIDEO | DT_CONTROL | DT_BINARY

fun data_type_header :: "p2p_data_type \<Rightarrow> buffer" where
  "data_type_header DT_DATA = [0xd1, 0x00]"
| "data_type_header DT_VIDEO = [0xd1, 0x01]"
| "data_type_header DT_CONTROL = [0xd1, 0x02]"
| "data_type_header DT_BINARY = [0xd1, 0x03]"

definition frameMessage :: "buffer \<Rightarrow> buffer \<Rightarrow> js_error + buffer" where
  "frameMessage msgType payload =
     res_bind (write_u16be (int (length payload))) (\<lambda>len. Inr (msgType @ len @ payload))"

definition hasHeader :: "buffer \<Rightarrow> buffer \<Rightarrow> bool" where
  "hasHeader msg ty \<longleftrightarrow>
     2 \<le> length msg \<and> 2 \<le> length ty \<and> msg ! 0 = ty ! 0 \<and> msg ! 1 = ty ! 1"

section \<open>Padding\<close>

definition ceil_to :: "nat \<Rightarrow> nat \<Rightarrow> nat" where
  "ceil_to blk n = (n + blk - 1) div blk * blk"

definition stringWithLength :: "string \<Rightarrow> nat \<Rightarrow> buffer" where
  "stringWithLength input chunkLength =
     (let b = bytes_of_string input;
          sz = (if length b < chunkLength then chunkLength else ceil_to chunkLength (length b))
      in b @ replicate (sz - length b) 0)"

definition paddingP2PData :: "buffer \<Rightarrow> nat \<Rightarrow> buffer" where
  "paddingP2PData data blocksize =
     (let sz = (if length data < blocksize then blocksize else ceil_to blocksize (length data))
      in data @ replicate (sz - length data) 0)"

lemma ceil_to_spec:
  assumes "0 < blk"
  shows "blk dvd ceil_to blk n" "n \<le> ceil_to blk n" "ceil_to blk n < n + blk"
proof -
  let ?m = "n + blk - 1"
  have e: "?m div blk * blk + ?m mod blk = ?m" by (rule div_mult_mod_eq)
  have r: "?m mod blk < blk" using assms by simp
  show "blk dvd ceil_to blk n" by (simp add: ceil_to_def)
  show "n \<le> ceil_to blk n" "ceil_to blk n < n + blk"
    using e r assms unfolding ceil_to_def by linarith+
qed

lemma zero_padder_by_ceil:
  assumes "0 < blk"
    and p: "\<And>b. pad b = b @ replicate ((if length b < blk then blk else ceil_to blk (length b)) - length b) 0"
  shows "zero_padder pad blk"
proof
  show "0 < blk" by fact
  fix b x
  have len: "length (pad b) = (if length b < blk then blk else ceil_to blk (length b))"
    using ceil_to_spec(2) [OF assms(1), of "length b"] by (simp add: p)
  show "take (length b) (pad b) = b" by (simp add: p)
  show "blk dvd length (pad b)" using ceil_to_spec(1) [OF assms(1)] by (simp add: len)
  have "0 < length (pad b)"
    using assms(1) ceil_to_spec(2) [OF assms(1), of "length b"] unfolding len by auto
  then show "pad b \<noteq> []" by auto
  show "x \<in> set (drop (length b) (pad b)) \<Longrightarrow> x = 0" by (simp add: p)
  show "length (pad b) < length b + blk \<or> length (pad b) = blk"
    using ceil_to_spec(3) [OF assms(1)] by (simp add: len)
qed

interpretation padding: zero_padder "\<lambda>b. paddingP2PData b 16" 16
  by (rule zero_padder_by_ceil) (simp_all add: paddingP2PData_def Let_def)

lemma stringWithLength_padding:
  "stringWithLength s n = paddingP2PData (bytes_of_string s) n"
  by (simp add: stringWithLength_def paddingP2PData_def)

interpretation chunk128: zero_padder "\<lambda>b. paddingP2PData b 128" 128
  by (rule zero_padder_by_ceil) (simp_all add: paddingP2PData_def Let_def)

interpretation chunk8: zero_padder "\<lambda>b. paddingP2PData b 8" 8
  by (rule zero_padder_by_ceil) (simp_all add: paddingP2PData_def Let_def)

section \<open>The device id and the lookup payloads\<close>

text \<open>
  \<open>a[1]\<close> missing makes \<open>parseInt\<close> answer NaN, which Node's writer stores as zero;
  \<open>a[2]\<close> missing makes \<open>Buffer.from(undefined)\<close> raise.
\<close>

definition p2pDidToBuffer :: "string \<Rightarrow> js_error + buffer" where
  "p2pDidToBuffer p2pDid =
     (let a = split_on (CHR ''-'') p2pDid;
          b1 = stringWithLength (a ! 0) 8;
          n = (if 1 < length a then case parse_int10 (a ! 1) of Some v \<Rightarrow> v | None \<Rightarrow> 0 else 0)
      in res_bind (write_u32be n) (\<lambda>b2.
         if 2 < length a then Inr (take 20 (b1 @ b2 @ stringWithLength (a ! 2) 8))
         else Inl TypeError))"

definition buildLocalLookupPayload :: buffer where
  "buildLocalLookupPayload = [0x00, 0x00]"

definition buildLookupWithKeyPayload2 :: "string \<Rightarrow> string \<Rightarrow> js_error + buffer" where
  "buildLookupWithKeyPayload2 p2pDid dskKey =
     res_bind (p2pDidToBuffer p2pDid) (\<lambda>did. Inr (did @ bytes_of_string dskKey @ [0, 0, 0, 0]))"

text \<open>
  \<open>host.split(".").map(Number)\<close> stored into bytes: an octet that is not a decimal number is NaN and
  stores as zero, as a missing one does.
\<close>

definition octet :: "string \<Rightarrow> nat \<Rightarrow> byte" where
  "octet host i =
     (let os = split_on (CHR ''.'') host in
      if i < length os \<and> is_digits (os ! i) then of_nat (digits_value (os ! i)) else 0)"

definition encodeSelfAddress :: "string \<Rightarrow> int \<Rightarrow> js_error + buffer" where
  "encodeSelfAddress host port =
     res_bind (write_u16le port) (\<lambda>p.
     Inr (u16be 0x0002 @ p @ [octet host 3, octet host 2, octet host 1, octet host 0]
          @ replicate 8 0))"

definition buildLookupWithKeyPayload :: "string \<Rightarrow> string \<Rightarrow> int \<Rightarrow> string \<Rightarrow> js_error + buffer" where
  "buildLookupWithKeyPayload p2pDid selfHost selfPort dskKey =
     res_bind (p2pDidToBuffer p2pDid) (\<lambda>did.
     res_bind (encodeSelfAddress selfHost selfPort) (\<lambda>addr.
     Inr (did @ addr @ [0x02, 0x05, 0x01, 0x05] @ bytes_of_string dskKey @ [0, 0, 0, 0])))"

definition buildCheckCamPayload :: "string \<Rightarrow> js_error + buffer" where
  "buildCheckCamPayload p2pDid =
     res_bind (p2pDidToBuffer p2pDid) (\<lambda>did. Inr (did @ [0, 0, 0]))"

record address =
  host :: string
  port :: nat

text \<open>A byte in a template string; one past the end renders as \<open>undefined\<close>.\<close>

definition show_at :: "buffer \<Rightarrow> nat \<Rightarrow> string" where
  "show_at b i = (if i < length b then dec_string (unat (b ! i)) else ''undefined'')"

definition parseLookupAddr :: "buffer \<Rightarrow> js_error + address" where
  "parseLookupAddr msg =
     res_bind (read_u16le (slice 6 8 msg) 0) (\<lambda>p.
     Inr \<lparr>host = join_with (CHR ''.'') [show_at msg 11, show_at msg 10, show_at msg 9, show_at msg 8],
          port = p\<rparr>)"

section \<open>The cloud-address cipher\<close>

definition lookupTable :: buffer where
  "lookupTable = hex_decode
     ''4959433db5bf6da347534f6165e371e9677f02030badb3892b2f35c16b8b959711e5a70deff1050783fb9d3bc5c713171d1f2529d3df''"

definition char_code :: "string \<Rightarrow> nat \<Rightarrow> int" where
  "char_code s i = of_char (s ! i)"

definition xor_all :: "buffer \<Rightarrow> byte" where
  "xor_all bs = foldl (XOR) 0 bs"

text \<open>
  The loop runs one round past \<open>output\<close>, whose store Node ignores; the rounds that store are those
  below its length, so \<open>output\<close> is built left to right.
\<close>

fun decode_ips_loop :: "string \<Rightarrow> nat \<Rightarrow> nat \<Rightarrow> buffer \<Rightarrow> buffer" where
  "decode_ips_loop data 0 i out = out"
| "decode_ips_loop data (Suc n) i out =
     (let z = foldl (XOR) 0x39 out;
          x = char_code data (i * 2 + 1) - 65;
          y = (char_code data (i * 2) - 65) * 0x10
      in decode_ips_loop data n (Suc i)
           (out @ [z XOR lookupTable ! (i mod length lookupTable) XOR word_of_int (x + y)]))"

definition decodeP2PCloudIPs :: "string \<Rightarrow> address list" where
  "decodeP2PCloudIPs data =
     (let encoded = hd (split_on (CHR '':'') data);
          out = decode_ips_loop data (length encoded div 2) 0 []
      in map (\<lambda>ip. \<lparr>host = ip, port = 32100\<rparr>)
           (filter (\<lambda>ip. ip \<noteq> []) (split_on (CHR '','') (string_of_bytes out))))"

section \<open>Keys\<close>

text \<open>\<open>s.slice(-n)\<close>\<close>

definition slice_last :: "nat \<Rightarrow> 'a list \<Rightarrow> 'a list" where
  "slice_last n s = drop (length s - n) s"

definition p2pCommandEncryptionKey :: "string \<Rightarrow> string \<Rightarrow> string" where
  "p2pCommandEncryptionKey stationSn p2pDid =
     slice_last 7 stationSn @
       (case index_of (CHR ''-'') p2pDid of
          Some i \<Rightarrow> slice i (i + 9) p2pDid
        | None \<Rightarrow> slice 0 8 p2pDid)"

text \<open>
  The primitives of \<open>node:crypto\<close>: HMAC-SHA256 of a key and a message, the ECDH shared X coordinate
  of a private scalar and a public point, AES-128-CBC decryption without padding, and the AES-128-ECB
  block cipher; \<open>None\<close> where the primitive throws.
\<close>

record crypto =
  hmac_sha256 :: "buffer \<Rightarrow> buffer \<Rightarrow> buffer"
  ecdh_shared :: "buffer \<Rightarrow> buffer \<Rightarrow> buffer option"
  aes_cbc_decrypt :: "buffer \<Rightarrow> buffer \<Rightarrow> buffer \<Rightarrow> buffer option"
  aes_ecb_encrypt :: "buffer \<Rightarrow> buffer \<Rightarrow> buffer option"
  aes_ecb_decrypt :: "buffer \<Rightarrow> buffer \<Rightarrow> buffer option"

text \<open>
  AES-256-GCM opening: \<open>gcm key nonce aad tag body\<close> is the plaintext, or \<open>None\<close> where authentication
  fails. Its contract with the sealing side: a 16-byte tag, and what was sealed opens.
\<close>

type_synonym gcm = "buffer \<Rightarrow> buffer \<Rightarrow> buffer \<Rightarrow> buffer \<Rightarrow> buffer \<Rightarrow> buffer option"

definition gcm_contract ::
  "(buffer \<Rightarrow> buffer \<Rightarrow> buffer \<Rightarrow> buffer \<Rightarrow> buffer \<times> buffer) \<Rightarrow> gcm \<Rightarrow> bool" where
  "gcm_contract seal gcm \<longleftrightarrow>
     (\<forall>k n a p. length (fst (seal k n a p)) = 16 \<and>
        gcm k n a (fst (seal k n a p)) (snd (seal k n a p)) = Some p)"

definition ECIES_LABEL :: buffer where
  "ECIES_LABEL = bytes_of_string ''ECIES''"

text \<open>
  The feedback chain of \<open>eufyKdf\<close>. Every round appends one HMAC block, so \<open>outLen\<close> rounds are enough
  for any HMAC that answers at least a byte; the fuel is that many.
\<close>

fun kdf_loop :: "(buffer \<Rightarrow> buffer \<Rightarrow> buffer) \<Rightarrow> buffer \<Rightarrow> nat \<Rightarrow> nat \<Rightarrow> buffer \<Rightarrow> buffer \<Rightarrow> buffer" where
  "kdf_loop hmac shared outLen 0 t out = out"
| "kdf_loop hmac shared outLen (Suc fuel) t out =
     (if length out < outLen then
        (let t' = hmac shared t
         in kdf_loop hmac shared outLen fuel t' (out @ hmac shared (t' @ ECIES_LABEL)))
      else out)"

definition eufyKdf :: "(buffer \<Rightarrow> buffer \<Rightarrow> buffer) \<Rightarrow> buffer \<Rightarrow> nat \<Rightarrow> buffer" where
  "eufyKdf hmac shared outLen =
     slice 0 outLen (kdf_loop hmac shared outLen outLen ECIES_LABEL [])"

text \<open>The PKCS#7 strip: only where the last byte counts 1..16 equal bytes at the end.\<close>

definition strip_pkcs7 :: "buffer \<Rightarrow> buffer" where
  "strip_pkcs7 full =
     (if full = [] then full
      else
        (let pad = last full; n = unat pad in
         if 1 \<le> n \<and> n \<le> 16 \<and> list_all (\<lambda>b. b = pad) (slice_last n full)
         then slice 0 (length full - n) full else full))"

definition eciesUnwrap :: "crypto \<Rightarrow> buffer \<Rightarrow> string \<Rightarrow> bool \<Rightarrow> bool \<Rightarrow> buffer option" where
  "eciesUnwrap c envelope eccPrivateKeyHex verifyHmac pkcs7 =
     (if length envelope < 33 + 16 + 48 + (if verifyHmac then 32 else 0) then None
      else
        (let ephemeralPub = slice 0 33 envelope;
             iv = slice 33 49 envelope;
             ct = slice 49 (49 + 48) envelope
         in case ecdh_shared c (hex_decode eccPrivateKeyHex) ephemeralPub of
              None \<Rightarrow> None
            | Some shared \<Rightarrow>
                (let kdf = eufyKdf (hmac_sha256 c) shared 48 in
                 if verifyHmac \<and>
                    hmac_sha256 c (slice 16 48 kdf) (slice 33 97 envelope) \<noteq> slice 97 (97 + 32) envelope
                 then None
                 else
                   map_option (\<lambda>full. if pkcs7 then strip_pkcs7 full else full)
                     (aes_cbc_decrypt c (slice 0 16 kdf) iv ct))))"

definition deriveLevel2KeyFromGatewayInfo :: "crypto \<Rightarrow> buffer \<Rightarrow> string \<Rightarrow> buffer option" where
  "deriveLevel2KeyFromGatewayInfo c gwPayload eccPrivateKeyHex =
     (case eciesUnwrap c (slice 4 (4 + 129) gwPayload) eccPrivateKeyHex False False of
        None \<Rightarrow> None
      | Some plain \<Rightarrow>
          (let key = slice 0 32 plain in if length key = 32 then Some key else None))"

definition gatewayInfoCipherId :: "buffer \<Rightarrow> nat" where
  "gatewayInfoCipherId gwPayload = (if 2 \<le> length gwPayload then u16le_at gwPayload 0 else 0)"

section \<open>Command frames\<close>

definition buildCommandHeader :: "int \<Rightarrow> int \<Rightarrow> buffer \<Rightarrow> js_error + buffer" where
  "buildCommandHeader seqNumber commandType dataTypeHeader =
     res_bind (write_u16be seqNumber) (\<lambda>sq.
     res_bind (write_u16le commandType) (\<lambda>cmd. Inr (dataTypeHeader @ sq @ MAGIC_WORD @ cmd)))"

definition buildVoidCommandPayload :: "int \<Rightarrow> buffer" where
  "buildVoidCommandPayload channel =
     [0x00, 0x00] @ [0x00, 0x00] @ [0x01, 0x00] @ [word_of_int channel, 0x00] @ [0x00, 0x00]"

definition or_throw :: "'a option \<Rightarrow> js_error + 'a" where
  "or_throw r = (case r of Some x \<Rightarrow> Inr x | None \<Rightarrow> Inl (UserError ''cipher''))"

definition encryptP2PData :: "crypto \<Rightarrow> buffer \<Rightarrow> buffer \<Rightarrow> js_error + buffer" where
  "encryptP2PData c data key = or_throw (aes_ecb_encrypt c key data)"

definition decryptP2PData :: "crypto \<Rightarrow> buffer \<Rightarrow> buffer \<Rightarrow> js_error + buffer" where
  "decryptP2PData c data key = or_throw (aes_ecb_decrypt c key data)"

text \<open>
  \<open>data\<close> behind its header, encrypted when a 16-byte key is given (a cipher that throws is an error): the tail the string and the
  int-and-string builders share.
\<close>

definition level1_body :: "crypto \<Rightarrow> buffer \<Rightarrow> int \<Rightarrow> buffer option \<Rightarrow> int \<Rightarrow> js_error + buffer" where
  "level1_body c raw channel key encType =
     (let encrypted = (case key of Some k \<Rightarrow> length k = 16 | None \<Rightarrow> False)
      in res_bind (case key of
              Some k \<Rightarrow> if encrypted then encryptP2PData c (paddingP2PData raw 16) k else Inr raw
            | None \<Rightarrow> Inr raw) (\<lambda>data.
         res_bind (write_u16le (int (length data))) (\<lambda>header.
         Inr (header @ [0x00, 0x00] @ [0x01, 0x00]
              @ [word_of_int channel, if encrypted then word_of_int encType else 0x00]
              @ [0x00, 0x00] @ data))))"

definition buildStringCommandPayload :: "crypto \<Rightarrow> string \<Rightarrow> int \<Rightarrow> buffer option \<Rightarrow> int \<Rightarrow> js_error + buffer" where
  "buildStringCommandPayload c value channel key encType =
     level1_body c (bytes_of_string value) channel key encType"

definition buildIntStringCommandPayload ::
  "crypto \<Rightarrow> int \<Rightarrow> int \<Rightarrow> string \<Rightarrow> int \<Rightarrow> buffer option \<Rightarrow> int \<Rightarrow> js_error + buffer" where
  "buildIntStringCommandPayload c value valueSub strValue channel key encType =
     (let strBuf = (if length strValue = 0 then [] else stringWithLength strValue 128)
      in level1_body c (u32le valueSub @ u32le value @ strBuf) channel key encType)"

definition buildRawCommandPayload ::
  "buffer \<Rightarrow> int \<Rightarrow> int \<Rightarrow> int \<times> int \<Rightarrow> int \<Rightarrow> js_error + buffer" where
  "buildRawCommandPayload data channel signCode magic streamId =
     res_bind (write_u16le (int (length data))) (\<lambda>header.
     Inr (header @ [0x00, 0x00] @ [word_of_int (fst magic), word_of_int (snd magic)]
          @ [word_of_int channel, word_of_int signCode] @ [word_of_int streamId, 0x00] @ data))"

definition buildAckPayload :: "buffer \<Rightarrow> int \<Rightarrow> js_error + buffer" where
  "buildAckPayload dataTypeHeader seqNo =
     res_bind (write_u16be seqNo) (\<lambda>sq. Inr (dataTypeHeader @ u16be 1 @ sq))"

record p2p_header =
  commandId :: nat
  bytesToRead :: nat
  channel :: nat
  signCode :: nat
  frameType :: nat

definition parseDataFrameHeader :: "buffer \<Rightarrow> js_error + p2p_header" where
  "parseDataFrameHeader frame =
     res_bind (read_u16le (slice 4 6 frame) 0) (\<lambda>cmd.
     res_bind (read_u32le (slice 6 10 frame) 0) (\<lambda>n.
     res_bind (read_u8 frame 12) (\<lambda>ch.
     res_bind (read_u8 frame 13) (\<lambda>sc.
     res_bind (read_u8 frame 14) (\<lambda>ty.
     Inr \<lparr>commandId = cmd, bytesToRead = n, channel = ch, signCode = sc, frameType = ty\<rparr>)))))"

definition readNullTerminatedString :: "buffer \<Rightarrow> string" where
  "readNullTerminatedString data = string_of_bytes (takeWhile (\<lambda>b. b \<noteq> 0) data)"

section \<open>What the framing guarantees\<close>

lemma in_byte: "0 \<le> n \<Longrightarrow> n < 256 \<Longrightarrow> unat (word_of_int n :: byte) = nat n"
  by (simp add: unat_word_of_int_byte)

lemma header_slices:
  assumes "length a = 4" "length b = 2" "length d = 4"
  shows "slice 4 6 (a @ b @ d @ r) = b" "slice 6 10 (a @ b @ d @ r) = d"
  using assms by (simp_all add: slice_def)

text \<open>A built frame, read where the receiver reads it.\<close>

lemma command_frame_reads:
  assumes "buildCommandHeader sq cmd dth = Inr hdr" "length dth = 2"
    and "buildRawCommandPayload data ch sc magic st = Inr body"
    and "0 \<le> ch" "ch < 256" "0 \<le> sc" "sc < 256" "0 \<le> st" "st < 256"
  shows "parseDataFrameHeader (drop 4 (hdr @ body)) =
    Inr \<lparr>commandId = nat cmd, bytesToRead = length data, channel = nat ch, signCode = nat sc,
         frameType = nat st\<rparr> \<and> drop 16 (drop 4 (hdr @ body)) = data"
proof -
  from assms(1) obtain r: "0 \<le> cmd" "cmd < 65536"
    and h: "hdr = dth @ u16be sq @ MAGIC_WORD @ u16le cmd"
    by (auto simp: buildCommandHeader_def write_u16be_def write_u16le_def split: if_splits)
  from assms(3) obtain l: "length data < 65536"
    and b: "body = u16le (int (length data)) @ [0, 0] @ [word_of_int (fst magic), word_of_int (snd magic)]
      @ [word_of_int ch, word_of_int sc] @ [word_of_int st, 0] @ data"
    by (auto simp: buildRawCommandPayload_def write_u16le_def split: if_splits)
  let ?tail = "[word_of_int (fst magic), word_of_int (snd magic)]
      @ [word_of_int ch, word_of_int sc] @ [word_of_int st, 0] @ data"
  have f: "drop 4 (hdr @ body) = MAGIC_WORD @ u16le cmd @ (u16le (int (length data)) @ [0, 0]) @ ?tail"
    using assms(2) by (simp add: h b)
  have m: "length MAGIC_WORD = 4" by (simp add: MAGIC_WORD_def)
  have s: "slice 4 6 (drop 4 (hdr @ body)) = u16le cmd"
    "slice 6 10 (drop 4 (hdr @ body)) = u16le (int (length data)) @ [0, 0]"
    unfolding f by (rule header_slices; simp add: m)+
  have c: "read_u16le (u16le cmd) 0 = Inr (nat cmd)"
    using le16.rd_exact [of cmd "[]" "[]"] r by (simp add: read_u16le_def)
  have n: "read_u32le (u16le (int (length data)) @ [0, 0]) 0 = Inr (length data)"
    using le16.rd_exact [of "int (length data)" "[]" "[0, 0]"] l
    by (simp add: read_u32le_def u32le_at_def u16le_at_def nth_append u16le_def)
  have bytes: "read_u8 (drop 4 (hdr @ body)) (12 + k) = read_u8 ([word_of_int ch, word_of_int sc]
      @ [word_of_int st, 0] @ data) k" for k
  proof -
    have "drop 4 (hdr @ body) = (MAGIC_WORD @ u16le cmd @ (u16le (int (length data)) @ [0, 0])
      @ [word_of_int (fst magic), word_of_int (snd magic)]) @ ([word_of_int ch, word_of_int sc]
      @ [word_of_int st, 0] @ data)" (is "_ = ?p @ ?q")
      unfolding f by simp
    moreover have "length ?p = 12" by (simp add: m)
    ultimately show ?thesis by (simp add: read_u8_def nth_append)
  qed
  have "read_u8 (drop 4 (hdr @ body)) 12 = Inr (nat ch)"
    "read_u8 (drop 4 (hdr @ body)) 13 = Inr (nat sc)"
    "read_u8 (drop 4 (hdr @ body)) 14 = Inr (nat st)"
    using bytes [of 0] bytes [of 1] bytes [of 2] assms(4-9)
    by (simp_all add: read_u8_def in_byte)
  moreover have "drop 16 (drop 4 (hdr @ body)) = data"
    unfolding f by (simp add: m)
  ultimately show ?thesis
    unfolding parseDataFrameHeader_def s c n by simp
qed

text \<open>
  A command frame reads back: the header a command was built with, followed by its payload, parses
  to the command id, the length of the data, the channel, the sign code and the stream id it carries,
  at the offsets the receiving side uses.
\<close>

theorem command_frame_roundtrip:
  assumes "buildCommandHeader sq cmd dth = Inr hdr" "length dth = 2"
    and "buildRawCommandPayload data ch sc magic st = Inr body"
    and "0 \<le> ch" "ch < 256" "0 \<le> sc" "sc < 256" "0 \<le> st" "st < 256"
  shows "parseDataFrameHeader (drop 4 (hdr @ body)) =
    Inr \<lparr>commandId = nat cmd, bytesToRead = length data, channel = nat ch, signCode = nat sc,
         frameType = nat st\<rparr> \<and> drop 16 (drop 4 (hdr @ body)) = data"
  using assms by (rule command_frame_reads)

lemma command_frame_roundtrip_witness:
  "parseDataFrameHeader (drop 4 (([0xd1, 0] @ u16be 7 @ MAGIC_WORD @ u16le 1350) @
       (u16le 2 @ [0, 0] @ [1, 0] @ [255, 2] @ [3, 0] @ [9, 8]))) =
     Inr \<lparr>commandId = 1350, bytesToRead = 2, channel = 255, signCode = 2, frameType = 3\<rparr>"
  using command_frame_roundtrip [of 7 1350 "[0xd1, 0]" "[0xd1, 0] @ u16be 7 @ MAGIC_WORD @ u16le 1350"
      "[9, 8]" 255 2 "(1, 0)" 3 "u16le 2 @ [0, 0] @ [1, 0] @ [255, 2] @ [3, 0] @ [9, 8]"]
  by (simp add: buildCommandHeader_def buildRawCommandPayload_def write_u16be_def write_u16le_def)

text \<open>
  A string command survives the level-1 channel: where the block cipher's decryption inverts its
  encryption, decrypting the data of the payload built for a NUL-free string and reading it as the
  receiver does gives the string back, whatever padding was added, and the length field counts the
  encrypted bytes.
\<close>

theorem string_command_roundtrip:
  assumes cipher: "\<And>p e. aes_ecb_encrypt c key p = Some e \<Longrightarrow> aes_ecb_decrypt c key e = Some p"
    and key: "length key = 16"
    and body: "buildStringCommandPayload c value ch (Some key) encType = Inr body"
    and no_nul: "CHR 0x00 \<notin> set value"
  shows "res_bind (decryptP2PData c (drop 10 body) key) (\<lambda>plain. Inr (readNullTerminatedString plain)) =
      Inr value \<and> u16le_at body 0 = length (drop 10 body)"
proof -
  obtain e where e: "aes_ecb_encrypt c key (paddingP2PData (bytes_of_string value) 16) = Some e"
    and l: "length e < 65536"
    and b: "body = u16le (int (length e)) @ [0, 0] @ [1, 0] @ [word_of_int ch, word_of_int encType]
      @ [0, 0] @ e"
    using body key
    by (auto simp: buildStringCommandPayload_def level1_body_def encryptP2PData_def or_throw_def
        res_bind_Inr_conv write_u16le_def split: option.splits if_splits)
  obtain k where k: "paddingP2PData (bytes_of_string value) 16 = bytes_of_string value @ replicate k 0"
    using padding.pad_decomp by blast
  have nz: "\<forall>x \<in> set (bytes_of_string value). x \<noteq> 0"
  proof
    fix x assume "x \<in> set (bytes_of_string value)"
    then obtain ch where ch: "ch \<in> set value" "x = of_nat (of_char ch)"
      by (auto simp: bytes_of_string_def)
    show "x \<noteq> 0"
    proof
      assume "x = 0"
      then have "char_of (unat x) = (CHR 0x00)" by (simp add: char_of_def)
      moreover have "char_of (unat x) = ch" by (simp add: ch(2) unat_of_nat_byte)
      ultimately show False using ch(1) no_nul by simp
    qed
  qed
  have "takeWhile (\<lambda>b. b \<noteq> 0) (bytes_of_string value @ replicate k 0) = bytes_of_string value"
    using nz by (cases k) (simp_all add: takeWhile_append2)
  moreover have "drop 10 body = e" unfolding b by simp
  moreover have "u16le_at body 0 = length e"
    using le16.rd_exact [of "int (length e)" "[]"] l unfolding b by simp
  ultimately show ?thesis
    using cipher [OF e] by (simp add: decryptP2PData_def or_throw_def k readNullTerminatedString_def)
qed

definition sample_crypto :: crypto where
  "sample_crypto =
     \<lparr>hmac_sha256 = \<lambda>k m. replicate 32 (of_nat (length k + length m)), ecdh_shared = \<lambda>k p. Some p,
      aes_cbc_decrypt = \<lambda>k iv x. Some (map (\<lambda>b. b XOR 0x5a) x),
      aes_ecb_encrypt = \<lambda>k x. Some (map (\<lambda>b. b XOR 0x5a) x),
      aes_ecb_decrypt = \<lambda>k x. Some (map (\<lambda>b. b XOR 0x5a) x)\<rparr>"

lemma xor_twice: "map ((\<lambda>b. b XOR (k :: byte)) \<circ> (\<lambda>b. b XOR k)) x = x"
  by (induction x) (simp_all add: xor.assoc)

lemma string_command_roundtrip_witness:
  "\<exists>body. buildStringCommandPayload sample_crypto ''on'' 0 (Some (replicate 16 1)) 1 = Inr body
     \<and> res_bind (decryptP2PData sample_crypto (drop 10 body) (replicate 16 1))
         (\<lambda>plain. Inr (readNullTerminatedString plain)) = Inr ''on''"
proof -
  have "\<exists>body. buildStringCommandPayload sample_crypto ''on'' 0 (Some (replicate 16 1)) 1 = Inr body"
    by (simp add: buildStringCommandPayload_def level1_body_def encryptP2PData_def or_throw_def
        sample_crypto_def paddingP2PData_def write_u16le_def)
  then obtain body where
    b: "buildStringCommandPayload sample_crypto ''on'' 0 (Some (replicate 16 1)) 1 = Inr body" by blast
  have "\<And>p e. aes_ecb_encrypt sample_crypto (replicate 16 1) p = Some e \<Longrightarrow>
      aes_ecb_decrypt sample_crypto (replicate 16 1) e = Some p"
    by (auto simp: sample_crypto_def xor_twice)
  from string_command_roundtrip [OF this _ b] b show ?thesis by simp
qed

section \<open>The lookup address, the cloud cipher and the keys\<close>

lemma show_octet:
  "n < 256 \<Longrightarrow> dec_string (unat (of_nat n :: byte)) = dec_string n"
  by (simp add: unat_of_nat_byte)

lemma octet_join:
  assumes "ns = [a, b, c, d]" "i < 4"
  shows "octet (join_with (CHR ''.'') (map dec_string ns)) i = of_nat (ns ! i)"
proof -
  have "CHR ''.'' \<notin> set (dec_string n)" for n
    by (rule dec_string_no) (simp add: digit_value_def Let_def)
  then have "split_on (CHR ''.'') (join_with (CHR ''.'') (map dec_string ns)) = map dec_string ns"
    using assms by (intro split_join) auto
  moreover have "i < length ns" using assms by simp
  ultimately show ?thesis
    using dec_string_spec by (simp only: octet_def Let_def length_map nth_map if_True simp_thms)
qed

text \<open>
  The address the client reports of itself is the address it would read: behind any four-byte
  datagram header, the record \<open>encodeSelfAddress\<close> writes for a dotted quad and a port is parsed by
  \<open>parseLookupAddr\<close> to that quad and that port.
\<close>

theorem self_address_roundtrip:
  assumes "a < 256" "b < 256" "c < 256" "d < 256"
    and "encodeSelfAddress (join_with (CHR ''.'') (map dec_string [a, b, c, d])) p = Inr addr"
    and "length hdr = 4"
  shows "parseLookupAddr (hdr @ addr) =
    Inr \<lparr>host = join_with (CHR ''.'') (map dec_string [a, b, c, d]), port = nat p\<rparr>"
proof -
  have o: "octet (join_with (CHR ''.'') (map dec_string [a, b, c, d])) 0 = of_nat a"
    "octet (join_with (CHR ''.'') (map dec_string [a, b, c, d])) 1 = of_nat b"
    "octet (join_with (CHR ''.'') (map dec_string [a, b, c, d])) 2 = of_nat c"
    "octet (join_with (CHR ''.'') (map dec_string [a, b, c, d])) 3 = of_nat d"
    using octet_join [of "[a, b, c, d]" a b c d] by simp_all
  from assms(5) have p: "0 \<le> p" "p < 65536"
    and addr: "addr = u16be 2 @ u16le p @ [of_nat d, of_nat c, of_nat b, of_nat a] @ replicate 8 0"
    unfolding encodeSelfAddress_def o by (auto simp: write_u16le_def split: if_splits)
  obtain h0 h1 h2 h3 where h: "hdr = [h0, h1, h2, h3]"
    using assms(6) by (auto simp: numeral_eq_Suc length_Suc_conv)
  have "slice 6 8 (hdr @ addr) = u16le p"
    by (simp add: h addr slice_def u16be_def)
  moreover have "read_u16le (u16le p) 0 = Inr (nat p)"
    using le16.rd_exact [of p "[]" "[]"] p by (simp add: read_u16le_def)
  moreover have "show_at (hdr @ addr) 11 = dec_string a" "show_at (hdr @ addr) 10 = dec_string b"
    "show_at (hdr @ addr) 9 = dec_string c" "show_at (hdr @ addr) 8 = dec_string d"
    using assms(1-4) by (simp_all add: show_at_def h addr u16be_def u16le_def show_octet)
  ultimately show ?thesis by (simp add: parseLookupAddr_def)
qed

lemma self_address_roundtrip_witness:
  "parseLookupAddr ([0xf1, 0x40, 0, 16] @ (u16be 2 @ u16le 12345 @ [7, 1, 168, 192] @ replicate 8 0)) =
    Inr \<lparr>host = join_with (CHR ''.'') (map dec_string [192, 168, 1, 7]), port = 12345\<rparr>"
proof -
  have "encodeSelfAddress (join_with (CHR ''.'') (map dec_string [192, 168, 1, 7])) 12345 =
      Inr (u16be 2 @ u16le 12345 @ [7, 1, 168, 192] @ replicate 8 0)"
    using octet_join [of "[192, 168, 1, 7]" 192 168 1 7]
    by (simp add: encodeSelfAddress_def write_u16le_def)
  from self_address_roundtrip [OF _ _ _ _ this, of "[0xf1, 0x40, 0, 16]"] show ?thesis by simp
qed

text \<open>The sender of the cloud cipher: every byte as two letters from \<open>A\<close>, high nibble first.\<close>

fun encode_ips :: "nat \<Rightarrow> byte \<Rightarrow> buffer \<Rightarrow> string" where
  "encode_ips i z [] = []"
| "encode_ips i z (b # bs) =
     (let v = b XOR (z XOR lookupTable ! (i mod length lookupTable))
      in char_of (65 + unat v div 16) # char_of (65 + unat v mod 16) # encode_ips (Suc i) (z XOR b) bs)"

lemma length_encode_ips: "length (encode_ips i z bs) = 2 * length bs"
  by (induction i z bs rule: encode_ips.induct) (simp_all add: Let_def)

lemma of_char_of_int: "n < 256 \<Longrightarrow> (of_char (char_of n) :: int) = int n"
  by (metis of_char_of mod_less of_nat_of_char)

lemma byte_div_16: "unat (v :: byte) div 16 < 16"
  by (rule less_mult_imp_div_less) simp

lemma letter_code: "k < 16 \<Longrightarrow> (of_char (char_of (65 + k :: nat)) :: int) = 65 + int k"
  by (simp add: of_char_of_int)

lemma nibbles: "word_of_int (int (unat (v :: byte) mod 16) + int (unat v div 16) * 16) = v"
proof -
  have "int (unat v mod 16) + int (unat v div 16) * 16 = int (unat v)"
    by (metis add.commute div_mult_mod_eq of_nat_add of_nat_mult of_nat_numeral)
  then show ?thesis by simp
qed

lemma xor_cancel_byte: "(a :: byte) XOR t XOR (b XOR (a XOR t)) = b"
  by (simp add: ac_simps)

lemma decode_ips_inverse:
  assumes "length pre = 2 * i" "z = foldl (XOR) 0x39 out"
  shows "decode_ips_loop (pre @ encode_ips i z bs @ suf) (length bs) i out = out @ bs"
  using assms
proof (induction bs arbitrary: pre i z out)
  case Nil
  then show ?case by simp
next
  case (Cons b bs)
  let ?t = "lookupTable ! (i mod length lookupTable)"
  let ?v = "b XOR (z XOR ?t)"
  let ?two = "[char_of (65 + unat ?v div 16), char_of (65 + unat ?v mod 16)] :: string"
  let ?d = "pre @ encode_ips i z (b # bs) @ suf"
  have d: "?d = (pre @ ?two) @ encode_ips (Suc i) (z XOR b) bs @ suf"
    by (simp add: Let_def)
  have k: "unat ?v div 16 < 16" by (rule byte_div_16)
  have hi: "char_code ?d (i * 2) = 65 + int (unat ?v div 16)"
    using Cons.prems(1) letter_code [OF k]
    by (simp add: char_code_def Let_def nth_append)
  have lo: "char_code ?d (i * 2 + 1) = 65 + int (unat ?v mod 16)"
    using Cons.prems(1) letter_code [of "unat ?v mod 16"]
    by (simp add: char_code_def Let_def nth_append)
  have byte: "z XOR ?t XOR word_of_int ((char_code ?d (i * 2 + 1) - 65) + (char_code ?d (i * 2) - 65) * 0x10) = b"
  proof -
    have e: "(char_code ?d (i * 2 + 1) - 65) + (char_code ?d (i * 2) - 65) * 0x10 =
        int (unat ?v mod 16) + int (unat ?v div 16) * 16"
      unfolding hi lo by simp
    show ?thesis unfolding e nibbles by (rule xor_cancel_byte)
  qed
  have step: "decode_ips_loop ?d (Suc (length bs)) i out = decode_ips_loop ?d (length bs) (Suc i) (out @ [b])"
    using byte by (simp only: decode_ips_loop.simps Let_def Cons.prems(2) [symmetric])
  have "decode_ips_loop ((pre @ ?two) @ encode_ips (Suc i) (z XOR b) bs @ suf) (length bs) (Suc i) (out @ [b])
      = (out @ [b]) @ bs"
    by (rule Cons.IH) (use Cons.prems in simp_all)
  then have "decode_ips_loop ?d (length bs) (Suc i) (out @ [b]) = out @ b # bs"
    by (simp only: d append_assoc append.simps)
  with step show ?case by (simp only: list.size add_Suc_right add_0_right)
qed

text \<open>
  The cloud-address cipher is read correctly: the letters its sender makes of a comma-separated
  list of hosts, with or without a \<open>:\<close> suffix, decode to exactly those hosts in order, each at
  port 32100.
\<close>

theorem cloud_ips_roundtrip:
  assumes "hosts \<noteq> []" "\<forall>h \<in> set hosts. h \<noteq> [] \<and> CHR '','' \<notin> set h"
    and "suf = [] \<or> (\<exists>r. suf = CHR '':'' # r)"
  shows "decodeP2PCloudIPs (encode_ips 0 0x39 (bytes_of_string (join_with (CHR '','') hosts)) @ suf) =
    map (\<lambda>h. \<lparr>host = h, port = 32100\<rparr>) hosts"
proof -
  let ?bs = "bytes_of_string (join_with (CHR '','') hosts)"
  let ?e = "encode_ips 0 0x39 ?bs"
  have nc: "CHR '':'' \<notin> set (encode_ips i z bs)" for i z bs
  proof (induction i z bs rule: encode_ips.induct)
    case (2 i z b bs)
    let ?v = "b XOR (z XOR lookupTable ! (i mod length lookupTable))"
    have ne: "char_of (65 + k) \<noteq> CHR '':''" if "k < 16" for k :: nat
    proof
      assume "char_of (65 + k) = CHR '':''"
      then have "(of_char (char_of (65 + k)) :: int) = of_char (CHR '':'')" by simp
      with letter_code [OF that] show False by simp
    qed
    have "unat ?v div 16 < 16" by (rule byte_div_16)
    with 2 ne [of "unat ?v mod 16"] ne [of "unat ?v div 16"] show ?case
      by (metis (no_types, lifting) encode_ips.simps(2) mod_less_divisor set_ConsD zero_less_numeral)
  qed simp
  have hd: "hd (split_on (CHR '':'') (?e @ suf)) = ?e"
    using assms(3) nc [of 0 "0x39" ?bs] by (auto simp: split_on_append split_on_single)
  have loop: "decode_ips_loop (?e @ suf) (length (join_with (CHR '','') hosts)) 0 [] = ?bs"
    using decode_ips_inverse [of "[]" 0 "0x39" "[]" ?bs suf] by simp
  have "split_on (CHR '','') (join_with (CHR '','') hosts) = hosts"
    using assms(1,2) by (intro split_join) auto
  moreover have "filter (\<lambda>ip. ip \<noteq> []) hosts = hosts"
    using assms(2) by (simp add: filter_id_conv)
  ultimately show ?thesis
    by (simp add: decodeP2PCloudIPs_def hd loop length_encode_ips Let_def)
qed

lemma cloud_ips_roundtrip_witness:
  "decodeP2PCloudIPs (encode_ips 0 0x39 (bytes_of_string (join_with (CHR '','') [''1.2'', ''3''])) @ '':x'') =
    [\<lparr>host = ''1.2'', port = 32100\<rparr>, \<lparr>host = ''3'', port = 32100\<rparr>]"
  using cloud_ips_roundtrip [of "[''1.2'', ''3'']" "'':x''"] by simp

text \<open>
  The chain in closed form: block \<open>k\<close> is keyed by the \<open>k + 1\<close>-fold hash of the label.
\<close>

lemma kdf_loop_fuel:
  assumes hmac: "\<And>k m. length (hmac k m) = 32"
  shows "outLen \<le> length out + 32 * fuel \<Longrightarrow>
    kdf_loop hmac s outLen fuel t out =
      out @ concat (map (\<lambda>i. hmac s (((hmac s) ^^ Suc i) t @ ECIES_LABEL))
        [0 ..< (outLen - length out + 31) div 32])"
proof (induction fuel arbitrary: t out)
  case 0
  then show ?case by simp
next
  case (Suc fuel)
  show ?case
  proof (cases "length out < outLen")
    case False
    then have "outLen - length out = 0" by simp
    then show ?thesis using False by simp
  next
    case True
    let ?t = "hmac s t" and ?out = "out @ hmac s (hmac s t @ ECIES_LABEL)"
    let ?n = "(outLen - length ?out + 31) div 32"
    have n: "(outLen - length out + 31) div 32 = Suc ?n"
    proof -
      have "outLen - length out + 31 = (outLen - length ?out + 31) + 32 \<or> outLen - length out \<le> 32"
        using True by (auto simp: hmac)
      moreover have "(outLen - length out + 31) div 32 = 1" "?n = 0" if "outLen - length out \<le> 32"
        using that True by (auto simp: hmac div_nat_eqI)
      ultimately show ?thesis by fastforce
    qed
    have "kdf_loop hmac s outLen fuel ?t ?out =
      ?out @ concat (map (\<lambda>i. hmac s (((hmac s) ^^ Suc i) ?t @ ECIES_LABEL)) [0 ..< ?n])"
      by (rule Suc.IH) (use Suc.prems in \<open>simp add: hmac\<close>)
    then show ?thesis
      unfolding n using True
      by (simp add: Let_def funpow_swap1 upt_conv_Cons map_Suc_upt [symmetric] o_def del: upt_Suc)
  qed
qed

lemma length_kdf_blocks:
  "(\<And>k m. length (hmac k m) = 32) \<Longrightarrow>
    length (concat (map (\<lambda>i. hmac s (f i)) xs)) = 32 * length xs"
  by (induction xs) simp_all

lemma eufyKdf_blocks:
  assumes "\<And>k m. length (hmac k m) = 32"
  shows "eufyKdf hmac s n = take n (concat (map (\<lambda>i. hmac s (((hmac s) ^^ Suc i) ECIES_LABEL @ ECIES_LABEL))
      [0 ..< (n + 31) div 32]))"
  using kdf_loop_fuel [OF assms, where outLen = n and out = "[]" and fuel = n and s = s
      and t = ECIES_LABEL]
  by (simp add: eufyKdf_def slice_def)

lemma length_eufyKdf:
  assumes "\<And>k m. length (hmac k m) = 32"
  shows "length (eufyKdf hmac s n) = n"
proof -
  have "n \<le> 32 * ((n + 31) div 32)" by simp
  then show ?thesis
    unfolding eufyKdf_blocks [of hmac, OF assms] length_take
      length_kdf_blocks [of hmac, OF assms] length_upt by simp
qed

text \<open>
  The key derivation is a 32-byte-block feedback stream cut to size: for any HMAC with 32-byte
  tags the loop delivers exactly the number of bytes asked for, whose block number \<open>k\<close> is the tag of
  the \<open>k + 1\<close>-fold hashed label, so the AES key and the MAC key the unwrap cuts out of one derivation
  are both full length.
\<close>

theorem eufyKdf_stream:
  assumes "\<And>k m. length (hmac k m) = 32"
  shows "eufyKdf hmac s n = take n (concat (map (\<lambda>i. hmac s (((hmac s) ^^ Suc i) ECIES_LABEL @ ECIES_LABEL))
      [0 ..< (n + 31) div 32])) \<and> length (eufyKdf hmac s n) = n"
  by (rule conjI) (rule eufyKdf_blocks length_eufyKdf, rule assms)+

lemma eufyKdf_stream_witness:
  "length (eufyKdf (\<lambda>k m. replicate 32 (of_nat (length m))) [1, 2] 48) = 48"
  by (rule conjunct2, rule eufyKdf_stream) simp

text \<open>
  The sender of an envelope, for a shared secret it agreed on: the PKCS#7-padded plaintext under the
  first 16 derived bytes, and the tag of IV and ciphertext under the next 32.
\<close>

definition pkcs7_pad :: "nat \<Rightarrow> buffer \<Rightarrow> buffer" where
  "pkcs7_pad sz p = p @ replicate (sz - length p) (of_nat (sz - length p))"

definition ecies_seal ::
  "crypto \<Rightarrow> (buffer \<Rightarrow> buffer \<Rightarrow> buffer \<Rightarrow> buffer) \<Rightarrow> buffer \<Rightarrow> buffer \<Rightarrow> buffer \<Rightarrow> buffer \<Rightarrow> buffer" where
  "ecies_seal c cbc_enc shared ephPub iv plain =
     (let kdf = eufyKdf (hmac_sha256 c) shared 48;
          ct = cbc_enc (take 16 kdf) iv (pkcs7_pad 48 plain)
      in ephPub @ iv @ ct @ hmac_sha256 c (drop 16 kdf) (iv @ ct))"

lemma strip_pad:
  assumes "sz - 16 \<le> length p" "length p < sz" "16 \<le> sz"
  shows "strip_pkcs7 (pkcs7_pad sz p) = p"
proof -
  define n where "n = sz - length p"
  have n: "1 \<le> n" "n \<le> 16" using assms by (auto simp: n_def)
  have u: "unat (of_nat n :: byte) = n" using n by (simp add: unat_of_nat_byte)
  have l: "last (p @ replicate n (of_nat n :: byte)) = of_nat n" using n by simp
  have d: "slice_last n (p @ replicate n x) = replicate n x" for x :: byte
    by (simp add: slice_last_def)
  have ne: "p @ replicate n (of_nat n :: byte) \<noteq> []" using n by simp
  show ?thesis
    unfolding strip_pkcs7_def pkcs7_pad_def n_def [symmetric] l u Let_def d if_not_P [OF ne]
    using n by (simp add: slice_def list_all_iff)
qed

lemma seal_slices:
  assumes "length e = 33" "length iv = 16" "length ct = 48" "length tag = 32"
  shows "slice 0 33 (e @ iv @ ct @ tag) = e" "slice 33 49 (e @ iv @ ct @ tag) = iv"
    "slice 49 97 (e @ iv @ ct @ tag) = ct" "slice 33 97 (e @ iv @ ct @ tag) = iv @ ct"
    "slice 97 129 (e @ iv @ ct @ tag) = tag"
  using assms by (simp_all add: slice_def)

text \<open>What a sealed envelope, with the tag it was sealed with or with another, unwraps to.\<close>

text \<open>
  AES-128-CBC without padding, as documented: under a 16-byte key and a 16-byte IV, decryption inverts
  encryption of a whole number of blocks, which is as long as they are.
\<close>

definition cbc_blocks :: "crypto \<Rightarrow> (buffer \<Rightarrow> buffer \<Rightarrow> buffer \<Rightarrow> buffer) \<Rightarrow> bool" where
  "cbc_blocks c cbc_enc \<longleftrightarrow> (\<forall>k i x. length k = 16 \<longrightarrow> length i = 16 \<longrightarrow> length x mod 16 = 0 \<longrightarrow>
     aes_cbc_decrypt c k i (cbc_enc k i x) = Some x \<and> length (cbc_enc k i x) = length x)"

lemma ecies_open_sealed:
  assumes hmac: "\<And>k m. length (hmac_sha256 c k m) = 32"
    and agree: "ecdh_shared c (hex_decode priv) ephPub = Some shared"
    and cbc: "cbc_blocks c cbc_enc"
    and lens: "length ephPub = 33" "length iv = 16" "32 \<le> length plain" "length plain < 48"
  shows "length tag = 32 \<Longrightarrow>
      eciesUnwrap c (take 97 (ecies_seal c cbc_enc shared ephPub iv plain) @ tag) priv True True =
      (if tag = drop 97 (ecies_seal c cbc_enc shared ephPub iv plain) then Some plain else None)"
    and "length (ecies_seal c cbc_enc shared ephPub iv plain) = 129"
proof -
  define kdf where "kdf = eufyKdf (hmac_sha256 c) shared 48"
  define ct where "ct = cbc_enc (take 16 kdf) iv (pkcs7_pad 48 plain)"
  define mac where "mac = hmac_sha256 c (drop 16 kdf) (iv @ ct)"
  have k: "length kdf = 48" unfolding kdf_def by (rule length_eufyKdf [OF hmac])
  have pad: "length (pkcs7_pad 48 plain) = 48" using lens by (simp add: pkcs7_pad_def)
  have enc: "aes_cbc_decrypt c (take 16 kdf) iv ct = Some (pkcs7_pad 48 plain)" "length ct = 48"
    using cbc lens(2) k pad by (simp_all add: cbc_blocks_def ct_def)
  have l: "length ct = 48" "length mac = 32" using enc(2) by (simp_all add: mac_def hmac)
  have seal: "ecies_seal c cbc_enc shared ephPub iv plain = ephPub @ iv @ ct @ mac"
    by (simp add: ecies_seal_def kdf_def ct_def mac_def Let_def)
  have kk: "slice 0 16 kdf = take 16 kdf" "slice 16 48 kdf = drop 16 kdf"
    using k by (simp_all add: slice_def)
  note dec = enc(1)
  have cut: "take 97 (ephPub @ iv @ ct @ mac) @ tg = ephPub @ iv @ ct @ tg"
    "drop 97 (ephPub @ iv @ ct @ mac) = mac" for tg
    using lens l by simp_all
  show "length (ecies_seal c cbc_enc shared ephPub iv plain) = 129"
    using lens l by (simp add: seal)
  assume "length tag = 32"
  then have "eciesUnwrap c (ephPub @ iv @ ct @ tag) priv True True =
      (if tag = mac then Some plain else None)"
    using lens l strip_pad [of 48 plain]
    by (simp add: eciesUnwrap_def seal_slices agree kk dec Let_def kdf_def [symmetric] mac_def)
  then show "eciesUnwrap c (take 97 (ecies_seal c cbc_enc shared ephPub iv plain) @ tag) priv True True =
      (if tag = drop 97 (ecies_seal c cbc_enc shared ephPub iv plain) then Some plain else None)"
    unfolding seal cut .
qed

lemma ecies_open:
  assumes "\<And>k m. length (hmac_sha256 c k m) = 32"
    and "ecdh_shared c (hex_decode priv) ephPub = Some shared"
    and "cbc_blocks c cbc_enc"
    and "length ephPub = 33" "length iv = 16" "32 \<le> length plain" "length plain < 48"
  shows "eciesUnwrap c (ecies_seal c cbc_enc shared ephPub iv plain) priv True True = Some plain"
  using ecies_open_sealed(1) [OF assms, of "drop 97 (ecies_seal c cbc_enc shared ephPub iv plain)"]
    ecies_open_sealed(2) [of c, OF assms] by simp

text \<open>
  The ECIES unwrap opens what a sender sealed and nothing altered: with a 32-byte HMAC, an ECDH
  that agrees on the sender's secret and CBC decryption that inverts the sender's encryption, a sealed
  envelope of a plaintext of 32 to 47 bytes unwraps to that plaintext, padding removed, and the same
  envelope with any other 32-byte tag is refused.
\<close>

theorem ecies_roundtrip:
  assumes hmac: "\<And>k m. length (hmac_sha256 c k m) = 32"
    and agree: "ecdh_shared c (hex_decode priv) ephPub = Some shared"
    and cbc: "cbc_blocks c cbc_enc"
    and lens: "length ephPub = 33" "length iv = 16" "32 \<le> length plain" "length plain < 48"
  shows "eciesUnwrap c (ecies_seal c cbc_enc shared ephPub iv plain) priv True True = Some plain \<and>
    (length tag = 32 \<longrightarrow> tag \<noteq> drop 97 (ecies_seal c cbc_enc shared ephPub iv plain) \<longrightarrow>
     eciesUnwrap c (take 97 (ecies_seal c cbc_enc shared ephPub iv plain) @ tag) priv True True = None)"
  using ecies_open_sealed(1) [OF assms, of tag] ecies_open [of c, OF assms] by simp

lemma ecies_roundtrip_witness:
  "eciesUnwrap sample_crypto
     (ecies_seal sample_crypto (\<lambda>k i x. map (\<lambda>b. b XOR 0x5a) x) (replicate 33 2) (replicate 33 2)
        (replicate 16 3) (replicate 32 4)) '''' True True = Some (replicate 32 4)"
proof -
  have "\<And>k m. length (hmac_sha256 sample_crypto k m) = 32"
    "ecdh_shared sample_crypto (hex_decode '''') (replicate 33 2) = Some (replicate 33 2)"
    "cbc_blocks sample_crypto (\<lambda>k i x. map (\<lambda>b. b XOR 0x5a) x)"
    by (simp_all add: cbc_blocks_def sample_crypto_def xor_twice)
  from ecies_roundtrip [where cbc_enc = "\<lambda>k i x. map (\<lambda>b. b XOR 0x5a) x", OF this]
  show ?thesis by simp
qed

end
