(* ===== verification/Adts.thy ===== *)
theory Adts
  imports Js_String
begin

text \<open>
  \<open>src/transport/p2p/adts.ts\<close>: the AAC framing of the talkback path. The header parser, the fixed
  audio parameters, and the incremental frame scanner, whose buffered bytes are its state.
\<close>

section \<open>The header\<close>

definition PROFILE_AAC_LC :: nat where "PROFILE_AAC_LC = 1"
definition FREQ_INDEX_16K :: nat where "FREQ_INDEX_16K = 8"
definition CHANNELS_MONO :: nat where "CHANNELS_MONO = 1"
definition AAC_SAMPLES_PER_FRAME :: nat where "AAC_SAMPLES_PER_FRAME = 1024"
definition AAC_SAMPLE_RATE :: nat where "AAC_SAMPLE_RATE = 16000"
definition AAC_FRAME_MS :: nat where "AAC_FRAME_MS = AAC_SAMPLES_PER_FRAME * 1000 div AAC_SAMPLE_RATE"
definition MAX_AUDIO_FRAME_BYTES :: nat where "MAX_AUDIO_FRAME_BYTES = 640"
definition HEADER_LEN_NO_CRC :: nat where "HEADER_LEN_NO_CRC = 7"

record adts_header =
  frameLength :: nat
  headerLength :: nat
  profile :: nat
  frequencyIndex :: nat
  channels :: nat

definition adts_frame_length :: "byte \<Rightarrow> byte \<Rightarrow> byte \<Rightarrow> nat" where
  "adts_frame_length b3 b4 b5 =
     push_bit 11 (unat (b3 AND 0x03)) OR push_bit 3 (unat b4) OR drop_bit 5 (unat (b5 AND 0xe0))"

definition parseAdtsHeader :: "buffer \<Rightarrow> nat \<Rightarrow> adts_header option" where
  "parseAdtsHeader buf offset =
     (if offset + HEADER_LEN_NO_CRC > length buf then None
      else if buf ! offset \<noteq> 0xff \<or> buf ! (offset + 1) AND 0xf0 \<noteq> 0xf0 then None
      else
        (let hl = (if buf ! (offset + 1) AND 0x01 \<noteq> 0 then 7 else 9);
             fl = adts_frame_length (buf ! (offset + 3)) (buf ! (offset + 4)) (buf ! (offset + 5))
         in if fl < hl then None
            else Some \<lparr>frameLength = fl, headerLength = hl,
              profile = drop_bit 6 (unat (buf ! (offset + 2) AND 0xc0)),
              frequencyIndex = drop_bit 2 (unat (buf ! (offset + 2) AND 0x3c)),
              channels = push_bit 2 (unat (buf ! (offset + 2) AND 0x01))
                OR drop_bit 6 (unat (buf ! (offset + 3) AND 0xc0))\<rparr>))"

definition isSupportedAdts :: "adts_header \<Rightarrow> bool" where
  "isSupportedAdts h \<longleftrightarrow> profile h = PROFILE_AAC_LC \<and> frequencyIndex h = FREQ_INDEX_16K
     \<and> channels h = CHANNELS_MONO"

definition ADTS_SAMPLE_RATES :: "nat list" where
  "ADTS_SAMPLE_RATES =
     [96000, 88200, 64000, 48000, 44100, 32000, 24000, 22050, 16000, 12000, 11025, 8000, 7350]"

definition describeAdts :: "adts_header \<Rightarrow> string" where
  "describeAdts h =
     (let rate = (if frequencyIndex h < length ADTS_SAMPLE_RATES
            then dec_string (ADTS_SAMPLE_RATES ! frequencyIndex h)
            else ''index '' @ dec_string (frequencyIndex h));
          prof = (if profile h = PROFILE_AAC_LC then ''AAC-LC''
            else ''profile field '' @ dec_string (profile h))
      in prof @ '', '' @ rate @ '' Hz, '' @ dec_string (channels h) @ '' channel(s)'')"

section \<open>The scanner\<close>

text \<open>
  The loop of \<open>push\<close> over the buffered bytes: \<open>pos\<close> is the source's \<open>at\<close>. It moves on by one byte
  where no header starts, by a whole frame where one is complete, and stops where the bytes run out.
\<close>

function scan_loop :: "buffer \<Rightarrow> nat \<Rightarrow> buffer list \<Rightarrow> nat \<times> buffer list" where
  "scan_loop buf pos frames =
     (case parseAdtsHeader buf pos of
        None \<Rightarrow>
          if pos + HEADER_LEN_NO_CRC > length buf then (pos, frames)
          else scan_loop buf (pos + 1) frames
      | Some h \<Rightarrow>
          if pos + frameLength h > length buf then (pos, frames)
          else scan_loop buf (pos + frameLength h) (frames @ [slice pos (pos + frameLength h) buf]))"
  by pat_completeness auto

lemma parse_positive: "parseAdtsHeader buf pos = Some h \<Longrightarrow> 7 \<le> frameLength h"
  by (auto simp: parseAdtsHeader_def Let_def split: if_splits)

termination scan_loop
  by (relation "measure (\<lambda>(buf, pos, frames). length buf - pos)")
    (auto simp: HEADER_LEN_NO_CRC_def dest: parse_positive)

declare scan_loop.simps [simp del]

text \<open>\<open>push\<close>: the new buffered bytes and the frames.\<close>

definition adts_push :: "buffer \<Rightarrow> buffer \<Rightarrow> buffer \<times> buffer list" where
  "adts_push buffered chunk =
     (let buf = buffered @ chunk; (pos, frames) = scan_loop buf 0 []
      in (drop pos buf, frames))"

definition adts_pending :: "buffer \<Rightarrow> nat" where
  "adts_pending buffered = length buffered"

section \<open>The scanner on suffixes\<close>

text \<open>The same scan without positions: what is left of the bytes, and the frames.\<close>

function scan :: "buffer \<Rightarrow> buffer \<times> buffer list" where
  "scan b =
     (case parseAdtsHeader b 0 of
        None \<Rightarrow> if length b < 7 then (b, []) else scan (tl b)
      | Some h \<Rightarrow>
          if frameLength h > length b then (b, [])
          else (case scan (drop (frameLength h) b) of
                  (rest, fs) \<Rightarrow> (rest, take (frameLength h) b # fs)))"
  by pat_completeness auto
termination
  by (relation "measure length") (auto dest: parse_positive)

declare scan.simps [simp del]

lemma parse_offset: "pos \<le> length buf \<Longrightarrow> parseAdtsHeader buf pos = parseAdtsHeader (drop pos buf) 0"
  by (auto simp: parseAdtsHeader_def HEADER_LEN_NO_CRC_def Let_def)

lemma parse_prefix: "7 \<le> length a \<Longrightarrow> parseAdtsHeader (a @ b) 0 = parseAdtsHeader a 0"
  by (cases "a = []") (simp_all add: parseAdtsHeader_def HEADER_LEN_NO_CRC_def nth_append Let_def)

lemma parse_short: "length b < 7 \<Longrightarrow> parseAdtsHeader b 0 = None"
  by (simp add: parseAdtsHeader_def HEADER_LEN_NO_CRC_def)

lemma scan_loop_scan:
  "pos \<le> length buf \<Longrightarrow>
    (let (p, fs) = scan_loop buf pos acc in (drop p buf, fs)) =
    (let (rest, fs) = scan (drop pos buf) in (rest, acc @ fs))"
proof (induction buf pos acc rule: scan_loop.induct)
  case (1 buf pos frames)
  show ?case
  proof (cases "parseAdtsHeader buf pos")
    case None
    note n = None [unfolded parse_offset [OF "1.prems"]]
    show ?thesis
    proof (cases "pos + 7 > length buf")
      case True
      then have "length (drop pos buf) < 7" using "1.prems" by simp
      with True show ?thesis
        by (subst scan_loop.simps, subst scan.simps) (simp add: None n HEADER_LEN_NO_CRC_def)
    next
      case False
      then have "\<not> length (drop pos buf) < 7" by simp
      with "1.IH"(1) [OF None] False
      show ?thesis
        by (subst scan_loop.simps, subst scan.simps)
          (simp add: None n HEADER_LEN_NO_CRC_def drop_Suc [symmetric] tl_drop)
    qed
  next
    case (Some h)
    note s = Some [unfolded parse_offset [OF "1.prems"]]
    show ?thesis
    proof (cases "pos + frameLength h > length buf")
      case True
      with "1.prems" have "frameLength h > length (drop pos buf)" by simp
      with True show ?thesis
        by (subst scan_loop.simps, subst scan.simps) (simp add: Some s)
    next
      case False
      then have f: "\<not> frameLength h > length (drop pos buf)" by simp
      from "1.IH"(2) [OF Some] False
      show ?thesis
        by (subst scan_loop.simps, subst scan.simps)
          (simp add: Some s f slice_def add.commute case_prod_unfold Let_def)
    qed
  qed
qed

lemma adts_push_scan: "adts_push s c = scan (s @ c)"
  using scan_loop_scan [of 0 "s @ c" "[]"]
  by (simp add: adts_push_def case_prod_unfold Let_def)

lemma scan_append:
  "scan (a @ b) = (case scan a of (r, fs) \<Rightarrow> case scan (r @ b) of (r', gs) \<Rightarrow> (r', fs @ gs))"
proof (induction a rule: scan.induct)
  case (1 a)
  show ?case
  proof (cases "parseAdtsHeader a 0")
    case None
    show ?thesis
    proof (cases "length a < 7")
      case True
      then have "scan a = (a, [])" by (subst scan.simps) (simp add: None)
      then show ?thesis by (simp add: case_prod_unfold)
    next
      case False
      then obtain x xs where a: "a = x # xs" by (cases a) auto
      from False have p: "parseAdtsHeader (a @ b) 0 = None" by (simp add: parse_prefix None)
      have "scan (a @ b) = scan (tl a @ b)"
        using False p by (subst scan.simps) (simp add: a)
      moreover have "scan a = scan (tl a)" using False None by (subst scan.simps) simp
      ultimately show ?thesis using "1.IH"(1) [OF None False] by simp
    qed
  next
    case (Some h)
    have long: "7 \<le> length a" using Some parse_short [of a] by fastforce
    then have p: "parseAdtsHeader (a @ b) 0 = Some h" by (simp add: parse_prefix Some)
    show ?thesis
    proof (cases "frameLength h > length a")
      case True
      then have "scan a = (a, [])" by (subst scan.simps) (simp add: Some)
      then show ?thesis by (simp add: case_prod_unfold)
    next
      case False
      have "scan (a @ b) = (case scan (drop (frameLength h) a @ b) of
          (r, fs) \<Rightarrow> (r, take (frameLength h) a # fs))"
        using False p by (subst scan.simps) simp
      moreover have "scan a = (case scan (drop (frameLength h) a) of
          (r, fs) \<Rightarrow> (r, take (frameLength h) a # fs))"
        using False Some by (subst scan.simps) simp
      ultimately show ?thesis using "1.IH"(2) [OF Some False] by (simp add: case_prod_unfold)
    qed
  qed
qed

lemma scan_rest: "scan (fst (scan a)) = (fst (scan a), [])"
proof (induction a rule: scan.induct)
  case (1 a)
  show ?case
  proof (cases "parseAdtsHeader a 0")
    case None
    with "1.IH"(1) show ?thesis by (cases "length a < 7") (simp_all add: scan.simps [of a])
  next
    case (Some h)
    with "1.IH"(2) show ?thesis
      by (cases "frameLength h > length a") (simp_all add: scan.simps [of a] case_prod_unfold)
  qed
qed

interpretation adts: chunk_scanner adts_push "\<lambda>s. scan s = (s, [])"
proof
  fix s a b
  show "adts_push s (a @ b) =
      (let (s1, out1) = adts_push s a; (s2, out2) = adts_push s1 b in (s2, out1 @ out2))"
    using scan_append [of "s @ a" b] by (simp add: adts_push_scan case_prod_unfold Let_def)
  show "scan s = (s, []) \<Longrightarrow> adts_push s [] = (s, [])" by (simp add: adts_push_scan)
  show "scan (fst (adts_push s a)) = (fst (adts_push s a), [])"
    by (simp add: adts_push_scan scan_rest)
qed

section \<open>What the scanner guarantees\<close>

text \<open>
  How the bytes are cut into chunks does not matter: feeding a fresh reader any chunks in order
  gives the frames, and leaves the bytes, that one push of all the bytes would.
\<close>

theorem adts_rechunk: "feed adts_push [] chunks = adts_push [] (concat chunks)"
proof (rule adts.feed_concat)
  show "scan [] = ([], [])" by (subst scan.simps) (simp add: parse_short)
qed

definition adts_frame :: "buffer \<Rightarrow> bool" where
  "adts_frame f \<longleftrightarrow> (\<exists>h. parseAdtsHeader f 0 = Some h \<and> frameLength h = length f)"

lemma adts_frame_long: "adts_frame f \<Longrightarrow> 7 \<le> length f"
  by (auto simp: adts_frame_def dest: parse_positive)

lemma scan_frame: "adts_frame f \<Longrightarrow> scan (f @ b) = (case scan b of (r, fs) \<Rightarrow> (r, f # fs))"
proof -
  assume f: "adts_frame f"
  then obtain h where h: "parseAdtsHeader f 0 = Some h" "frameLength h = length f"
    by (auto simp: adts_frame_def)
  have "parseAdtsHeader (f @ b) 0 = Some h"
    using adts_frame_long [OF f] h by (simp add: parse_prefix)
  then show ?thesis by (subst scan.simps) (simp add: h)
qed

lemma scan_nil: "scan [] = ([], [])"
  by (subst scan.simps) (simp add: parse_short)

lemma scan_frames: "\<forall>f \<in> set fs. adts_frame f \<Longrightarrow> scan (concat fs) = ([], fs)"
  by (induction fs) (simp_all add: scan_nil scan_frame)

lemma scan_junk:
  "0xff \<notin> set junk \<Longrightarrow> 7 \<le> length b \<Longrightarrow> scan (junk @ b) = scan b"
proof (induction junk)
  case (Cons x junk)
  then have "parseAdtsHeader ((x # junk) @ b) 0 = None"
    by (auto simp: parseAdtsHeader_def)
  with Cons show ?case by (subst scan.simps) auto
qed simp

text \<open>
  Frames are recovered whole and in order: after a preamble without a \<open>0xff\<close> byte, a stream of
  well-formed frames comes out as exactly those frames with nothing left over, in whatever chunks it
  arrived.
\<close>

theorem adts_stream_recovered:
  assumes "0xff \<notin> set junk" "fs \<noteq> []" "\<forall>f \<in> set fs. adts_frame f"
    and "concat chunks = junk @ concat fs"
  shows "feed adts_push [] chunks = ([], fs)"
proof -
  have "feed adts_push [] chunks = adts_push [] (concat chunks)"
    by (rule adts.feed_concat) (rule scan_nil)
  moreover have "7 \<le> length (concat fs)"
    using assms(2,3) adts_frame_long by (cases fs) force+
  ultimately show ?thesis
    using assms by (simp add: adts_push_scan scan_junk scan_frames)
qed

lemma sample_adts_frame: "adts_frame [0xff, 0xf1, 0x60, 0x40, 0x01, 0x1f, 0xfc, 0xaa]"
  by (simp add: adts_frame_def parseAdtsHeader_def HEADER_LEN_NO_CRC_def adts_frame_length_def)

lemma adts_stream_recovered_witness:
  "feed adts_push [] [[0x00, 0x12, 0xff, 0xf1], [0x60, 0x40, 0x01, 0x1f, 0xfc, 0xaa]] =
    ([], [[0xff, 0xf1, 0x60, 0x40, 0x01, 0x1f, 0xfc, 0xaa]])"
  using adts_stream_recovered [of "[0x00, 0x12]" "[[0xff, 0xf1, 0x60, 0x40, 0x01, 0x1f, 0xfc, 0xaa]]"
      "[[0x00, 0x12, 0xff, 0xf1], [0x60, 0x40, 0x01, 0x1f, 0xfc, 0xaa]]"] sample_adts_frame
  by simp

lemma adts_frame_length_bound: "adts_frame_length b3 b4 b5 < 8192"
proof -
  have b: "push_bit 11 (unat (b3 AND 3)) < 2 ^ 13" "push_bit 3 (unat b4) < 2 ^ 13"
    "drop_bit 5 (unat (b5 AND 0xe0)) < 2 ^ 13"
  proof -
    show "push_bit 11 (unat (b3 AND 3)) < 2 ^ 13"
      by (simp only: unat_byte_and push_bit_eq_mult) simp
    have "unat b4 < 1024" by (rule less_trans [OF unat_byte_lt]) simp
    then show "push_bit 3 (unat b4) < 2 ^ 13" by (simp only: push_bit_eq_mult) simp
    have "unat (b5 AND 0xe0) < 2 ^ 13" by (rule less_trans [OF unat_byte_lt]) simp
    then show "drop_bit 5 (unat (b5 AND 0xe0)) < 2 ^ 13"
      unfolding drop_bit_eq_div by (rule le_less_trans [OF div_le_dividend])
  qed
  have "adts_frame_length b3 b4 b5 = take_bit 13 (adts_frame_length b3 b4 b5)"
    using b by (simp only: adts_frame_length_def take_bit_or take_bit_nat_eq_self)
  also have "\<dots> < 2 ^ 13" by (rule take_bit_nat_less_exp)
  finally show ?thesis by simp
qed

lemma scan_bounded: "length (fst (scan b)) < 8191 \<and> list_all adts_frame (snd (scan b))"
proof (induction b rule: scan.induct)
  case (1 b)
  show ?case
  proof (cases "parseAdtsHeader b 0")
    case None
    with "1.IH"(1) show ?thesis by (cases "length b < 7") (simp_all add: scan.simps [of b])
  next
    case (Some h)
    have long: "7 \<le> length b" using Some parse_short [of b] by fastforce
    have lt: "frameLength h < 8192"
      using Some adts_frame_length_bound by (auto simp: parseAdtsHeader_def Let_def split: if_splits)
    show ?thesis
    proof (cases "frameLength h > length b")
      case True
      with lt show ?thesis by (simp add: scan.simps [of b] Some)
    next
      case False
      let ?f = "take (frameLength h) b"
      have pos: "7 \<le> length ?f" using False parse_positive [OF Some] by simp
      have "parseAdtsHeader (?f @ drop (frameLength h) b) 0 = parseAdtsHeader ?f 0"
        by (rule parse_prefix) (rule pos)
      then have "parseAdtsHeader ?f 0 = Some h" by (simp only: append_take_drop_id Some)
      then have "adts_frame ?f" using False by (auto simp: adts_frame_def)
      with "1.IH"(2) [OF Some False] False show ?thesis
        by (simp add: scan.simps [of b] Some case_prod_unfold)
    qed
  qed
qed

text \<open>
  Nothing malformed comes out and nothing piles up: after any push every frame carries a header
  whose length field is the frame's own length, and fewer than 8191 bytes are held back.
\<close>

theorem adts_frames_wellformed:
  "list_all adts_frame (snd (adts_push buffered chunk)) \<and>
   adts_pending (fst (adts_push buffered chunk)) < 8191"
  using scan_bounded [of "buffered @ chunk"] by (simp add: adts_push_scan adts_pending_def)

end
