(* ===== verification/Video.thy ===== *)
theory Video
  imports P2p_Codec
begin

text \<open>
  \<open>src/transport/p2p/video.ts\<close>: the header of a video frame, the per-stream decoder that is re-keyed
  by keyframes, and the assembler of access units a station split over several frames. AES-256-GCM is
  a parameter: \<open>gcm key nonce aad tag body\<close> is the plaintext, or \<open>None\<close> where authentication fails.
\<close>

section \<open>The frame header\<close>

definition VIDEO_GCM_AAD :: buffer where
  "VIDEO_GCM_AAD = bytes_of_string ''eufy security''"

definition VIDEO_HEADER_LEN :: nat where "VIDEO_HEADER_LEN = 0x16"
definition ENVELOPE_OFFSET :: nat where "ENVELOPE_OFFSET = 0x16"
definition ENVELOPE_LEN :: nat where "ENVELOPE_LEN = 0x81"
definition GCM_TAG_OFFSET :: nat where "GCM_TAG_OFFSET = 0x97"
definition GCM_TAG_LEN :: nat where "GCM_TAG_LEN = 16"
definition GCM_NONCE_OFFSET :: nat where "GCM_NONCE_OFFSET = 0xa7"
definition GCM_NONCE_LEN :: nat where "GCM_NONCE_LEN = 12"
definition BODY_OFFSET :: nat where "BODY_OFFSET = 0xb3"

lemmas offset_defs = VIDEO_HEADER_LEN_def ENVELOPE_OFFSET_def ENVELOPE_LEN_def GCM_TAG_OFFSET_def
  GCM_TAG_LEN_def GCM_NONCE_OFFSET_def GCM_NONCE_LEN_def BODY_OFFSET_def

record video_header =
  payloadLength :: nat
  keyframe :: bool
  flags :: byte
  sequence :: nat
  width :: int
  height :: int
  timestamp :: nat

definition parseVideoFrameHeader :: "buffer \<Rightarrow> video_header option" where
  "parseVideoFrameHeader payload =
     (if length payload < VIDEO_HEADER_LEN then None
      else Some \<lparr>payloadLength = u32le_at payload 0x00, keyframe = (payload ! 0x04 AND 0x01 = 1),
        flags = payload ! 0x04, sequence = u16le_at payload 0x06,
        width = as_signed 16 (u16le_at payload 0x0a), height = as_signed 16 (u16le_at payload 0x0c),
        timestamp = u32le_at payload 0x0e\<rparr>)"

section \<open>The decoder\<close>

record decoder =
  eccPrivateKeyHex :: string
  mediaKey :: "buffer option"

record decoded_frame =
  decKeyframe :: bool
  h264 :: buffer
  decWidth :: int
  decHeight :: int

definition new_decoder :: "buffer \<Rightarrow> js_error + decoder" where
  "new_decoder eccPrivateKey =
     (if length eccPrivateKey \<noteq> 32 then Inl (UserError ''eccPrivateKey must be 32 bytes'')
      else Inr \<lparr>eccPrivateKeyHex = hex_encode eccPrivateKey, mediaKey = None\<rparr>)"

definition unwrapMediaKey :: "crypto \<Rightarrow> decoder \<Rightarrow> buffer \<Rightarrow> buffer option" where
  "unwrapMediaKey c d envelope =
     (case eciesUnwrap c envelope (eccPrivateKeyHex d) True True of
        Some key \<Rightarrow> if length key = 32 then Some key else None
      | None \<Rightarrow> None)"

text \<open>The part of \<open>decodeFrame\<close> below the key handling.\<close>

definition decode_body :: "gcm \<Rightarrow> decoder \<Rightarrow> video_header \<Rightarrow> buffer \<Rightarrow> decoded_frame option" where
  "decode_body gcm d header payload =
     (case mediaKey d of
        None \<Rightarrow> None
      | Some key \<Rightarrow>
          if length payload < BODY_OFFSET then None
          else map_option (\<lambda>plain. \<lparr>decKeyframe = keyframe header, h264 = plain,
                 decWidth = width header, decHeight = height header\<rparr>)
               (gcm key (slice GCM_NONCE_OFFSET (GCM_NONCE_OFFSET + GCM_NONCE_LEN) payload)
                 VIDEO_GCM_AAD (slice GCM_TAG_OFFSET (GCM_TAG_OFFSET + GCM_TAG_LEN) payload)
                 (drop BODY_OFFSET payload)))"

definition decodeFrame :: "crypto \<Rightarrow> gcm \<Rightarrow> decoder \<Rightarrow> buffer \<Rightarrow> decoder \<times> decoded_frame option" where
  "decodeFrame c gcm d payload =
     (case parseVideoFrameHeader payload of
        None \<Rightarrow> (d, None)
      | Some header \<Rightarrow>
          if keyframe header then
            if length payload < ENVELOPE_OFFSET + ENVELOPE_LEN then (d, None)
            else
              (case unwrapMediaKey c d (slice ENVELOPE_OFFSET (ENVELOPE_OFFSET + ENVELOPE_LEN) payload) of
                 None \<Rightarrow> (d, None)
               | Some key \<Rightarrow>
                   let d' = d\<lparr>mediaKey := Some key\<rparr> in (d', decode_body gcm d' header payload))
          else (d, decode_body gcm d header payload))"

fun decode_stream :: "crypto \<Rightarrow> gcm \<Rightarrow> decoder \<Rightarrow> buffer list \<Rightarrow> decoder \<times> decoded_frame option list" where
  "decode_stream c gcm d [] = (d, [])"
| "decode_stream c gcm d (p # ps) =
     (let (d1, r) = decodeFrame c gcm d p; (d2, rs) = decode_stream c gcm d1 ps in (d2, r # rs))"

section \<open>The assembler\<close>

definition STATION_CHUNK_BYTES :: nat where "STATION_CHUNK_BYTES = 64000"

record open_unit =
  ouHeader :: video_header
  ouChunks :: "buffer list"
  ouCarried :: nat

record assembler =
  openUnit :: "open_unit option"
  droppedUnits :: nat

record access_unit =
  unitKeyframe :: bool
  unitWidth :: int
  unitHeight :: int
  unitData :: buffer

record unit_drop =
  dropCarried :: nat
  dropChunks :: nat
  dropCount :: nat

definition new_assembler :: assembler where
  "new_assembler = \<lparr>openUnit = None, droppedUnits = 0\<rparr>"

definition sameUnit :: "video_header \<Rightarrow> video_header \<Rightarrow> bool" where
  "sameUnit opened nxt \<longleftrightarrow> timestamp nxt = timestamp opened \<and> sequence nxt = sequence opened"

definition beginsAccessUnit :: "buffer \<Rightarrow> bool" where
  "beginsAccessUnit body =
     (if length body < 4 \<or> body ! 0 \<noteq> 0 \<or> body ! 1 \<noteq> 0 then False
      else body ! 2 = 1 \<or> (body ! 2 = 0 \<and> body ! 3 = 1))"

definition unitOf :: "video_header \<Rightarrow> buffer \<Rightarrow> access_unit" where
  "unitOf header data =
     \<lparr>unitKeyframe = keyframe header, unitWidth = width header, unitHeight = height header, unitData = data\<rparr>"

text \<open>\<open>discard\<close>: the new state and the call of \<open>onDropped\<close>, if any.\<close>

definition discard :: "assembler \<Rightarrow> assembler \<times> unit_drop list" where
  "discard st =
     (case openUnit st of
        None \<Rightarrow> (st, [])
      | Some u \<Rightarrow>
          (st\<lparr>openUnit := None, droppedUnits := droppedUnits st + 1\<rparr>,
           [\<lparr>dropCarried = ouCarried u, dropChunks = length (ouChunks u),
             dropCount = droppedUnits st + 1\<rparr>]))"

text \<open>
  \<open>push\<close> once the header is parsed and the frame decoded: the new state, the units completed and the
  drops reported.
\<close>

definition assemble :: "assembler \<Rightarrow> video_header \<Rightarrow> buffer \<Rightarrow>
    assembler \<times> access_unit list \<times> unit_drop list" where
  "assemble st header body =
     (let full = (payloadLength header = STATION_CHUNK_BYTES);
          fresh = (let (st', drops) = discard st in
            if full then
              (st'\<lparr>openUnit := Some \<lparr>ouHeader = header, ouChunks = [body], ouCarried = length body\<rparr>\<rparr>, [], drops)
            else (st', [unitOf header body], drops))
      in case openUnit st of
           None \<Rightarrow> fresh
         | Some u \<Rightarrow>
             if sameUnit (ouHeader u) header \<and> \<not> beginsAccessUnit body then
               (let u' = u\<lparr>ouChunks := ouChunks u @ [body], ouCarried := ouCarried u + length body\<rparr>
                in if full then (st\<lparr>openUnit := Some u'\<rparr>, [], [])
                   else (st\<lparr>openUnit := None\<rparr>, [unitOf (ouHeader u') (concat (ouChunks u'))], []))
             else fresh)"

text \<open>
  \<open>push\<close> with the decoder it calls back, whose state \<open>'d\<close> is threaded: it runs only on a frame with a
  header, and on every such frame.
\<close>

definition assembler_push ::
  "('d \<Rightarrow> buffer \<Rightarrow> 'd \<times> buffer option) \<Rightarrow> assembler \<times> 'd \<Rightarrow> buffer \<Rightarrow>
    (assembler \<times> 'd) \<times> access_unit list \<times> unit_drop list" where
  "assembler_push decode s payload =
     (let (st, d) = s in
      case parseVideoFrameHeader payload of
        None \<Rightarrow> (let (st', drops) = discard st in ((st', d), [], drops))
      | Some header \<Rightarrow>
          (let (d', body) = decode d payload in
           case body of
             None \<Rightarrow> (let (st', drops) = discard st in ((st', d'), [], drops))
           | Some b \<Rightarrow>
               if b = [] then (let (st', drops) = discard st in ((st', d'), [], drops))
               else (let (st', units, drops) = assemble st header b in ((st', d'), units, drops))))"

fun assembler_run ::
  "('d \<Rightarrow> buffer \<Rightarrow> 'd \<times> buffer option) \<Rightarrow> assembler \<times> 'd \<Rightarrow> buffer list \<Rightarrow>
    (assembler \<times> 'd) \<times> access_unit list \<times> unit_drop list" where
  "assembler_run decode s [] = (s, [], [])"
| "assembler_run decode s (p # ps) =
     (let (s1, us1, ds1) = assembler_push decode s p;
          (s2, us2, ds2) = assembler_run decode s1 ps
      in (s2, us1 @ us2, ds1 @ ds2))"

section \<open>The decoder is keyed by authentic keyframes only\<close>

lemma frame_slices:
  assumes "length hdr = 22" "length env = 129" "length tag = 16" "length nonce = 12"
  shows "slice 0x16 (0x16 + 0x81) (hdr @ env @ tag @ nonce @ body) = env"
    "slice 0x97 (0x97 + 16) (hdr @ env @ tag @ nonce @ body) = tag"
    "slice 0xa7 (0xa7 + 12) (hdr @ env @ tag @ nonce @ body) = nonce"
    "drop 0xb3 (hdr @ env @ tag @ nonce @ body) = body"
  using assms by (simp_all add: slice_def)

text \<open>
  The sender's frame: the header, 129 bytes that are the envelope on a keyframe, the tag, the nonce and
  the body that \<open>seal\<close> makes of the plaintext under the media key.
\<close>

definition sent_frame ::
  "(buffer \<Rightarrow> buffer \<Rightarrow> buffer \<Rightarrow> buffer \<Rightarrow> buffer \<times> buffer) \<Rightarrow> buffer \<Rightarrow> buffer \<Rightarrow> buffer \<Rightarrow> buffer \<Rightarrow> buffer \<Rightarrow> buffer" where
  "sent_frame seal key hdr env nonce plain =
     (let (tag, body) = seal key nonce VIDEO_GCM_AAD plain in hdr @ env @ tag @ nonce @ body)"

lemma header_prefix:
  "length hdr = 22 \<Longrightarrow> parseVideoFrameHeader (hdr @ r) = parseVideoFrameHeader hdr"
  by (simp add: parseVideoFrameHeader_def offset_defs u32le_at_def u16le_at_def nth_append)

lemma header_some:
  "length hdr = 22 \<Longrightarrow> \<exists>h. parseVideoFrameHeader hdr = Some h \<and> keyframe h = (hdr ! 4 AND 1 = 1)"
  by (simp add: parseVideoFrameHeader_def offset_defs)

definition picture :: "buffer \<Rightarrow> buffer \<Rightarrow> decoded_frame option" where
  "picture hdr plain = map_option (\<lambda>h. \<lparr>decKeyframe = keyframe h, h264 = plain,
     decWidth = width h, decHeight = height h\<rparr>) (parseVideoFrameHeader hdr)"

lemma decode_body_sent:
  assumes "gcm_contract seal gcm" "mediaKey d = Some key"
    and "length hdr = 22" "length env = 129" "length nonce = 12"
    and "parseVideoFrameHeader hdr = Some h" "length key = 32"
  shows "decode_body gcm d h (sent_frame seal key hdr env nonce plain) = picture hdr plain"
proof -
  obtain tag body where s: "seal key nonce VIDEO_GCM_AAD plain = (tag, body)" by fastforce
  then have t: "length tag = 16" "gcm key nonce VIDEO_GCM_AAD tag body = Some plain"
    using assms(1,5,7) unfolding gcm_contract_def by (metis fst_conv, metis fst_conv snd_conv)
  show ?thesis
    using assms(2-6) frame_slices [OF assms(3,4) t(1) assms(5)] t
    by (simp add: decode_body_def sent_frame_def s offset_defs picture_def)
qed

lemma decode_delta:
  assumes "gcm_contract seal gcm" "mediaKey d = Some key"
    and "length hdr = 22" "length env = 129" "length nonce = 12" "hdr ! 4 AND 1 = 0" "length key = 32"
  shows "decodeFrame c gcm d (sent_frame seal key hdr env nonce plain) = (d, picture hdr plain)"
proof -
  obtain h where h: "parseVideoFrameHeader hdr = Some h" "\<not> keyframe h"
    using header_some [OF assms(3)] assms(6) by auto
  have p: "parseVideoFrameHeader (sent_frame seal key hdr env nonce plain) = Some h"
    using assms(3) h(1) by (simp add: sent_frame_def header_prefix case_prod_unfold Let_def)
  show ?thesis
    using h(2) decode_body_sent [OF assms(1-5) h(1) assms(7)] by (simp add: decodeFrame_def p)
qed

lemma decode_keyframe:
  assumes "gcm_contract seal gcm" "unwrapMediaKey c d env = Some key"
    and "length hdr = 22" "length env = 129" "length nonce = 12" "hdr ! 4 AND 1 = 1" "length key = 32"
  shows "decodeFrame c gcm d (sent_frame seal key hdr env nonce plain) =
    (d\<lparr>mediaKey := Some key\<rparr>, picture hdr plain)"
proof -
  obtain h where h: "parseVideoFrameHeader hdr = Some h" "keyframe h"
    using header_some [OF assms(3)] assms(6) by auto
  let ?f = "sent_frame seal key hdr env nonce plain"
  obtain tag body where s: "seal key nonce VIDEO_GCM_AAD plain = (tag, body)" by fastforce
  then have t: "length tag = 16"
    using assms(1,5,7) unfolding gcm_contract_def by (metis fst_conv)
  have p: "parseVideoFrameHeader ?f = Some h" "\<not> length ?f < 0x16 + 0x81"
    "slice 22 151 ?f = env"
    using assms(3,4) h(1) frame_slices(1) [OF assms(3,4) t assms(5)]
    by (simp_all add: sent_frame_def s header_prefix)
  have b: "decode_body gcm (d\<lparr>mediaKey := Some key\<rparr>) h ?f = picture hdr plain"
    by (rule decode_body_sent [OF assms(1) _ assms(3-5) h(1) assms(7)]) simp
  show ?thesis
    using h(2) b p(2) by (simp add: decodeFrame_def p(1,3) assms(2) offset_defs Let_def)
qed

text \<open>
  A keyframe that changes nothing and yields nothing: its envelope does not unwrap, or it unwraps to the
  key held and the body does not authenticate under that.
\<close>

definition bad_keyframe :: "crypto \<Rightarrow> gcm \<Rightarrow> decoder \<Rightarrow> buffer \<Rightarrow> buffer \<Rightarrow> bool" where
  "bad_keyframe c gcm d key p \<longleftrightarrow>
     length p < 0x97 \<and> (length p < 22 \<or> p ! 4 AND 1 = 1) \<or>
     p ! 4 AND 1 = 1 \<and> unwrapMediaKey c d (slice 0x16 0x97 p) = None \<or>
     0xb3 \<le> length p \<and> p ! 4 AND 1 = 1 \<and> unwrapMediaKey c d (slice 0x16 0x97 p) = Some key \<and>
       gcm key (slice 0xa7 0xb3 p) VIDEO_GCM_AAD (slice 0x97 0xa7 p) (drop 0xb3 p) = None"

lemma decode_bad: "mediaKey d = Some key \<Longrightarrow> bad_keyframe c gcm d key p \<Longrightarrow> decodeFrame c gcm d p = (d, None)"
  by (cases d) (auto simp: bad_keyframe_def decodeFrame_def decode_body_def parseVideoFrameHeader_def offset_defs Let_def)

lemma bad_keyframe_key: "bad_keyframe c gcm (d\<lparr>mediaKey := k\<rparr>) key p = bad_keyframe c gcm d key p"
  by (simp add: bad_keyframe_def unwrapMediaKey_def)

text \<open>
  A delta frame as \<open>Inr\<close> of its header, its unused envelope area, its nonce and its plaintext; anything
  else on the stream as \<open>Inl\<close> of its bytes.
\<close>

type_synonym sent = "buffer + (buffer \<times> buffer \<times> buffer \<times> buffer)"

fun sent_ok :: "crypto \<Rightarrow> gcm \<Rightarrow> decoder \<Rightarrow> buffer \<Rightarrow> sent \<Rightarrow> bool" where
  "sent_ok c gcm d key (Inl p) = bad_keyframe c gcm d key p"
| "sent_ok c gcm d key (Inr (hdr, env, nonce, plain)) =
     (length hdr = 22 \<and> length env = 129 \<and> length nonce = 12 \<and> hdr ! 4 AND 1 = 0)"

fun sent_bytes :: "(buffer \<Rightarrow> buffer \<Rightarrow> buffer \<Rightarrow> buffer \<Rightarrow> buffer \<times> buffer) \<Rightarrow> buffer \<Rightarrow> sent \<Rightarrow> buffer" where
  "sent_bytes seal key (Inl p) = p"
| "sent_bytes seal key (Inr (hdr, env, nonce, plain)) = sent_frame seal key hdr env nonce plain"

fun sent_picture :: "sent \<Rightarrow> decoded_frame option" where
  "sent_picture (Inl p) = None"
| "sent_picture (Inr (hdr, env, nonce, plain)) = picture hdr plain"

lemma decode_sent:
  assumes "gcm_contract seal gcm" "mediaKey d = Some key" "length key = 32" "sent_ok c gcm d key x"
  shows "decodeFrame c gcm d (sent_bytes seal key x) = (d, sent_picture x)"
  using assms(4) decode_delta [OF assms(1,2) _ _ _ _ assms(3)] decode_bad [OF assms(2), of c gcm]
  by (cases "(c, gcm, d, key, x)" rule: sent_ok.cases) auto

lemma decode_stream_sent:
  assumes "gcm_contract seal gcm" "mediaKey d = Some key" "length key = 32"
  shows "list_all (sent_ok c gcm d key) xs \<Longrightarrow>
    decode_stream c gcm d (map (sent_bytes seal key) xs) = (d, map sent_picture xs)"
  by (induction xs) (simp_all add: decode_sent [OF assms])

text \<open>
  C26. One authentic keyframe keys the stream, and what does not open leaves it keyed. With the primitives
  as documented, a keyframe whose envelope was sealed for the decoder, whatever key the decoder held before,
  decodes to its plaintext, and so does every delta frame sealed under the same key after it, however many
  keyframes come between whose envelope does not open, or opens to the key held and has a body that does
  not authenticate; each of those yields nothing and leaves the key in place. (An envelope that opens to
  another key replaces it, whatever the body.)
\<close>

theorem video_stream_decodes:
  assumes "\<And>k m. length (hmac_sha256 c k m) = 32"
    and "ecdh_shared c (hex_decode (eccPrivateKeyHex d)) ephPub = Some shared"
    and "cbc_blocks c cbc_enc"
    and "length ephPub = 33" "length iv = 16" "length key = 32"
    and "gcm_contract seal gcm"
    and "length hdr = 22" "length nonce = 12" "hdr ! 4 AND 1 = 1"
    and "list_all (sent_ok c gcm d key) xs"
  shows "decode_stream c gcm d
      (sent_frame seal key hdr (ecies_seal c cbc_enc shared ephPub iv key) nonce plain
         # map (sent_bytes seal key) xs) =
    (d\<lparr>mediaKey := Some key\<rparr>, picture hdr plain # map sent_picture xs)"
proof -
  have l: "32 \<le> length key" "length key < 48" using assms(6) by simp_all
  have u: "unwrapMediaKey c d (ecies_seal c cbc_enc shared ephPub iv key) = Some key"
    using ecies_open [of c, OF assms(1-5) l] assms(6) by (simp add: unwrapMediaKey_def)
  have e: "length (ecies_seal c cbc_enc shared ephPub iv key) = 129"
    using ecies_open_sealed(2) [of c, OF assms(1-5) l] .
  have k: "decodeFrame c gcm d (sent_frame seal key hdr (ecies_seal c cbc_enc shared ephPub iv key) nonce plain)
      = (d\<lparr>mediaKey := Some key\<rparr>, picture hdr plain)"
    by (rule decode_keyframe [OF assms(7) u assms(8) e assms(9,10,6)])
  have "sent_ok c gcm (d\<lparr>mediaKey := Some key\<rparr>) key x = sent_ok c gcm d key x" for x
    by (cases "(c, gcm, d, key, x)" rule: sent_ok.cases) (simp_all add: bad_keyframe_key)
  then have "decode_stream c gcm (d\<lparr>mediaKey := Some key\<rparr>) (map (sent_bytes seal key) xs)
      = (d\<lparr>mediaKey := Some key\<rparr>, map sent_picture xs)"
    using decode_stream_sent [OF assms(7), of "d\<lparr>mediaKey := Some key\<rparr>" key c xs] assms(6,11)
    by (simp add: list_all_iff)
  then show ?thesis by (simp add: k)
qed

definition sample_decoder :: decoder where
  "sample_decoder = \<lparr>eccPrivateKeyHex = '''', mediaKey = None\<rparr>"

definition sample_header :: "byte \<Rightarrow> buffer" where
  "sample_header fl = [3, 0, 0, 0, fl] @ replicate 17 0"

lemma video_stream_decodes_witness:
  "decode_stream sample_crypto (\<lambda>k n a t b. Some b) sample_decoder
      (sent_frame (\<lambda>k n a p. (replicate 16 0, p)) (replicate 32 4) (sample_header 1)
         (ecies_seal sample_crypto (\<lambda>k i x. map (\<lambda>b. b XOR 0x5a) x) (replicate 33 2) (replicate 33 2)
           (replicate 16 3) (replicate 32 4)) (replicate 12 0) [1, 2, 3]
       # map (sent_bytes (\<lambda>k n a p. (replicate 16 0, p)) (replicate 32 4))
           [Inl [1], Inr (sample_header 0, replicate 129 0, replicate 12 0, [7])]) =
    (sample_decoder\<lparr>mediaKey := Some (replicate 32 4)\<rparr>,
     picture (sample_header 1) [1, 2, 3] #
       map sent_picture [Inl [1], Inr (sample_header 0, replicate 129 0, replicate 12 0, [7])])"
proof -
  have prim: "\<And>k m. length (hmac_sha256 sample_crypto k m) = 32"
    "ecdh_shared sample_crypto (hex_decode (eccPrivateKeyHex sample_decoder)) (replicate 33 2) = Some (replicate 33 2)"
    "cbc_blocks sample_crypto (\<lambda>k i x. map (\<lambda>b. b XOR 0x5a) x)"
    by (simp_all add: cbc_blocks_def sample_crypto_def xor_twice sample_decoder_def)
  show ?thesis
    by (rule video_stream_decodes [OF prim])
      (simp_all add: gcm_contract_def sample_header_def bad_keyframe_def)
qed

section \<open>The assembler delivers complete units\<close>

text \<open>
  What a frame is to the assembler, whatever the encryption: its header and its decoded bytes. \<open>reads\<close>
  says that a decoder delivers these for a payload, in every state it may be in.
\<close>

definition reads :: "('d \<Rightarrow> buffer \<Rightarrow> 'd \<times> buffer option) \<Rightarrow> buffer \<Rightarrow> video_header \<times> buffer \<Rightarrow> bool" where
  "reads decode p f \<longleftrightarrow> parseVideoFrameHeader p = Some (fst f) \<and> snd f \<noteq> [] \<and>
     (\<forall>d. snd (decode d p) = Some (snd f))"

fun assemble_run :: "assembler \<Rightarrow> (video_header \<times> buffer) list \<Rightarrow>
    assembler \<times> access_unit list \<times> unit_drop list" where
  "assemble_run st [] = (st, [], [])"
| "assemble_run st ((h, b) # fs) =
     (let (s1, us1, ds1) = assemble st h b; (s2, us2, ds2) = assemble_run s1 fs
      in (s2, us1 @ us2, ds1 @ ds2))"

lemma assembler_run_frames:
  "list_all2 (reads decode) ps fs \<Longrightarrow>
    fst (fst (assembler_run decode (st, d) ps)) = fst (assemble_run st fs) \<and>
    snd (assembler_run decode (st, d) ps) = snd (assemble_run st fs)"
proof (induction arbitrary: st d rule: list_all2_induct)
  case Nil
  then show ?case by simp
next
  case (Cons p ps f fs)
  obtain h b where f: "f = (h, b)" by fastforce
  obtain d' where d': "decode d p = (d', Some b)"
    using Cons.hyps(1) by (metis f prod.collapse reads_def snd_conv)
  have r: "parseVideoFrameHeader p = Some h" "b \<noteq> []"
    using Cons.hyps(1) by (simp_all add: reads_def f)
  show ?case
    using Cons.IH [of "fst (assemble st h b)" d']
    by (simp add: f assembler_push_def r d' case_prod_unfold Let_def)
qed

lemma assemble_run_append:
  "assemble_run st (fs @ gs) =
    (let (s1, us1, ds1) = assemble_run st fs; (s2, us2, ds2) = assemble_run s1 gs
     in (s2, us1 @ us2, ds1 @ ds2))"
  by (induction fs arbitrary: st) (auto simp: case_prod_unfold Let_def)

text \<open>
  The frames of one access unit as a station cuts it: every frame but the last is full, the last is
  not; all repeat the first one's timestamp and sequence; the first begins with a start code and the
  others begin mid-NAL. \<open>cut_head\<close> is such a unit whose last frame, at least, never arrived.
\<close>

definition full_frame :: "video_header \<times> buffer \<Rightarrow> bool" where
  "full_frame f \<longleftrightarrow> payloadLength (fst f) = STATION_CHUNK_BYTES"

definition continues :: "video_header \<Rightarrow> video_header \<times> buffer \<Rightarrow> bool" where
  "continues h f \<longleftrightarrow> sameUnit h (fst f) \<and> \<not> beginsAccessUnit (snd f)"

datatype sent_unit =
    Whole "(video_header \<times> buffer) list" "video_header \<times> buffer"
  | Cut "(video_header \<times> buffer) list"

fun unit_frames :: "sent_unit \<Rightarrow> (video_header \<times> buffer) list" where
  "unit_frames (Whole fs l) = fs @ [l]"
| "unit_frames (Cut fs) = fs"

definition unit_ok :: "sent_unit \<Rightarrow> bool" where
  "unit_ok u \<longleftrightarrow>
     (case unit_frames u of
        [] \<Rightarrow> False
      | f # fs \<Rightarrow> beginsAccessUnit (snd f) \<and> list_all (continues (fst f)) fs) \<and>
     (case u of
        Whole fs l \<Rightarrow> list_all full_frame fs \<and> \<not> full_frame l
      | Cut fs \<Rightarrow> list_all full_frame fs)"

fun unit_result :: "sent_unit \<Rightarrow> access_unit list" where
  "unit_result (Whole fs l) = [unitOf (fst (hd (fs @ [l]))) (concat (map snd (fs @ [l])))]"
| "unit_result (Cut fs) = []"

fun is_cut :: "sent_unit \<Rightarrow> bool" where
  "is_cut (Cut fs) = True"
| "is_cut (Whole fs l) = False"

definition holding :: "video_header \<Rightarrow> buffer list \<Rightarrow> nat \<Rightarrow> assembler \<Rightarrow> assembler" where
  "holding h bs n st = st\<lparr>openUnit := Some \<lparr>ouHeader = h, ouChunks = bs, ouCarried = n\<rparr>\<rparr>"

lemma assemble_continue:
  "continues h (g, b) \<Longrightarrow> assemble (holding h bs n st) g b =
    (if payloadLength g = STATION_CHUNK_BYTES then (holding h (bs @ [b]) (n + length b) st, [], [])
     else (st\<lparr>openUnit := None\<rparr>, [unitOf h (concat (bs @ [b]))], []))"
  by (simp add: assemble_def holding_def continues_def Let_def)

lemma assemble_fulls:
  "list_all full_frame fs \<Longrightarrow> list_all (continues h) fs \<Longrightarrow>
    assemble_run (holding h bs n st) fs =
      (holding h (bs @ map snd fs) (n + sum_list (map (length \<circ> snd) fs)) st, [], [])"
proof (induction fs arbitrary: bs n)
  case (Cons f fs)
  then show ?case
    by (cases f) (simp add: assemble_continue full_frame_def add.assoc)
qed simp

text \<open>A unit that begins ends whatever was open: one drop if something was.\<close>

definition after_discard :: "assembler \<Rightarrow> assembler" where
  "after_discard st = fst (discard st)"

lemma after_discard_open: "openUnit (after_discard st) = None"
  by (cases "openUnit st") (simp_all add: after_discard_def discard_def)

lemma assemble_begin:
  "beginsAccessUnit b \<Longrightarrow> assemble st h b =
    (if payloadLength h = STATION_CHUNK_BYTES
     then (holding h [b] (length b) (after_discard st), [], snd (discard st))
     else (after_discard st, [unitOf h b], snd (discard st)))"
  by (cases "openUnit st")
    (simp_all add: assemble_def discard_def after_discard_def holding_def Let_def)

definition pending :: "assembler \<Rightarrow> nat" where
  "pending st = (case openUnit st of None \<Rightarrow> 0 | Some u \<Rightarrow> 1)"

lemma pending_simps [simp]:
  "pending (after_discard st) = 0" "pending (holding h bs n st) = 1"
  "droppedUnits (after_discard st) = droppedUnits st + pending st"
  "droppedUnits (holding h bs n st) = droppedUnits st"
  "length (snd (discard st)) = pending st"
  by (cases "openUnit st"; simp add: pending_def after_discard_def discard_def holding_def)+

lemma holding_closed: "openUnit st = None \<Longrightarrow> (holding h bs n st)\<lparr>openUnit := None\<rparr> = st"
  by (simp add: holding_def)

lemma unit_run:
  assumes "unit_ok u" "assemble_run st (unit_frames u) = (st', us, ds)"
  shows "us = unit_result u \<and> pending st' = (if is_cut u then 1 else 0) \<and>
    droppedUnits st' = droppedUnits st + pending st \<and> length ds = pending st"
proof -
  obtain h b fs where u: "unit_frames u = (h, b) # fs"
    using assms(1) by (cases "unit_frames u") (auto simp: unit_ok_def)
  have begins: "beginsAccessUnit b" and cont: "list_all (continues h) fs"
    using assms(1) u by (simp_all add: unit_ok_def)
  show ?thesis
  proof (cases u)
    case (Cut gs)
    then have full: "payloadLength h = STATION_CHUNK_BYTES" "list_all full_frame fs"
      using assms(1) u by (simp_all add: unit_ok_def full_frame_def)
    have "assemble_run st (unit_frames u) = (holding h ([b] @ map snd fs)
        (length b + sum_list (map (length \<circ> snd) fs)) (after_discard st), [], snd (discard st))"
      using assemble_fulls [OF full(2) cont, of "[b]" "length b" "after_discard st"]
      by (simp add: u assemble_begin [OF begins] full(1))
    then show ?thesis using assms(2) Cut by auto
  next
    case (Whole gs l)
    have "assemble_run st (unit_frames u) = (after_discard st, unit_result u, snd (discard st))"
    proof (cases gs)
      case Nil
      then have "l = (h, b)" "fs = []" "payloadLength h \<noteq> STATION_CHUNK_BYTES"
        using Whole u assms(1) by (auto simp: unit_ok_def full_frame_def)
      then show ?thesis
        by (simp add: Whole Nil assemble_begin [OF begins])
    next
      case (Cons g gs')
      then have g: "g = (h, b)" "fs = gs' @ [l]" using Whole u by simp_all
      have full: "payloadLength h = STATION_CHUNK_BYTES" "list_all full_frame gs'"
        using assms(1) Whole Cons g by (simp_all add: unit_ok_def full_frame_def)
      obtain lh lb where l: "l = (lh, lb)" by fastforce
      have last: "payloadLength lh \<noteq> STATION_CHUNK_BYTES" "continues h (lh, lb)"
        "list_all (continues h) gs'"
        using assms(1) Whole cont g l by (simp_all add: unit_ok_def full_frame_def)
      show ?thesis
        unfolding u
        using assemble_fulls [OF full(2) last(3), of "[b]" "length b" "after_discard st"]
        by (simp add: Whole Cons g l assemble_begin [OF begins] full(1) assemble_run_append
            assemble_continue [OF last(2)] last(1) after_discard_open holding_closed)
    qed
    then show ?thesis using assms(2) Whole by auto
  qed
qed

lemma units_run:
  "list_all unit_ok us \<Longrightarrow> assemble_run st (concat (map unit_frames us)) = (st', out, ds) \<Longrightarrow>
    out = concat (map unit_result us) \<and>
    droppedUnits st' + pending st' = droppedUnits st + pending st + length (filter is_cut us) \<and>
    length ds + droppedUnits st = droppedUnits st'"
proof (induction us arbitrary: st st' out ds)
  case (Cons u us)
  obtain s1 o1 d1 where r: "assemble_run st (unit_frames u) = (s1, o1, d1)" by (metis prod_cases3)
  obtain s2 o2 d2 where r2: "assemble_run s1 (concat (map unit_frames us)) = (s2, o2, d2)"
    by (metis prod_cases3)
  have e: "st' = s2" "out = o1 @ o2" "ds = d1 @ d2"
    using Cons.prems(2) by (simp_all add: assemble_run_append r r2)
  have ok: "unit_ok u" using Cons.prems(1) by simp
  show ?case
    using unit_run [OF ok r] Cons.IH [OF _ r2] Cons.prems(1) by (simp add: e)
qed simp

text \<open>
  C25. The assembler delivers exactly the complete units. For a stream of access units cut by a
  station, some of which lost one or more frames from their end, and any decoder that reads the frames,
  the units delivered are those that arrived whole, in order, each the concatenation of its frames
  under its first frame's header; every unit that lost its tail is dropped and reported once, or is
  still held back at the end of the stream, and its bytes appear nowhere.
\<close>

theorem assembler_delivers_complete:
  assumes "list_all unit_ok us"
    and "list_all2 (reads decode) ps (concat (map unit_frames us))"
    and "assembler_run decode (new_assembler, d) ps = ((st', d'), out, drops)"
  shows "out = concat (map unit_result us) \<and>
    droppedUnits st' + pending st' = length (filter is_cut us) \<and> length drops = droppedUnits st'"
proof -
  obtain s o' ds where r: "assemble_run new_assembler (concat (map unit_frames us)) = (s, o', ds)"
    by (metis prod_cases3)
  have "st' = s" "out = o'" "drops = ds"
    using assembler_run_frames [OF assms(2), of new_assembler d] assms(3) r by simp_all
  then show ?thesis
    using units_run [OF assms(1) r] by (simp add: new_assembler_def pending_def)
qed

definition sample_frame :: "nat \<Rightarrow> byte \<Rightarrow> buffer \<Rightarrow> buffer" where
  "sample_frame n ts body = u32le (int n) @ replicate 10 0 @ [ts] @ replicate 7 0 @ body"

definition plain_decode :: "unit \<Rightarrow> buffer \<Rightarrow> unit \<times> buffer option" where
  "plain_decode d p = (d, Some (drop 22 p))"

definition sample_vh :: "nat \<Rightarrow> nat \<Rightarrow> video_header" where
  "sample_vh n ts = \<lparr>payloadLength = n, keyframe = False, flags = 0, sequence = 0, width = 0,
     height = 0, timestamp = ts\<rparr>"

lemma sample_header_parse:
  "n < 4294967296 \<Longrightarrow> ts < 256 \<Longrightarrow>
    parseVideoFrameHeader (sample_frame n (of_nat ts) body) = Some (sample_vh n ts)"
proof -
  assume n: "n < 4294967296" and ts: "ts < 256"
  obtain a b c d where e: "u32le (int n) = [a, b, c, d]" by (simp add: u32le_def)
  have "u32le_at (u32le (int n) @ x) 0 = n" for x
    using le32.rd_exact [of "int n" "[]" x] n by simp
  then have v: "u32le_at ([a, b, c, d] @ x) 0 = n" for x unfolding e .
  have v0: "u32le_at (a # b # c # d # x) 0 = n" for x using v [of x] by simp
  have ts': "unat (of_nat ts :: byte) = ts" using ts by (simp add: unat_of_nat_byte)
  show ?thesis
    by (simp add: sample_frame_def e parseVideoFrameHeader_def offset_defs v0 numeral_eq_Suc)
      (simp add: sample_vh_def u16le_at_def u32le_at_def as_signed_def ts')
qed

lemma sample_reads:
  "n < 4294967296 \<Longrightarrow> ts < 256 \<Longrightarrow> body \<noteq> [] \<Longrightarrow>
    reads plain_decode (sample_frame n (of_nat ts) body) (sample_vh n ts, body)"
  by (simp add: reads_def sample_header_parse plain_decode_def)
    (simp add: sample_frame_def)

lemma assembler_delivers_complete_witness:
  "\<exists>st out drops.
    assembler_run plain_decode (new_assembler, ())
      [sample_frame 64000 (of_nat 1) [0, 0, 1, 9], sample_frame 9 (of_nat 2) [0, 0, 1, 7],
       sample_frame 64000 (of_nat 3) [0, 0, 1, 5], sample_frame 7 (of_nat 3) [8]] = ((st, ()), out, drops)
    \<and> map unitData out = [[0, 0, 1, 7], [0, 0, 1, 5, 8]] \<and> length drops + pending st = 1"
proof -
  let ?us = "[Cut [(sample_vh 64000 1, [0, 0, 1, 9])], Whole [] (sample_vh 9 2, [0, 0, 1, 7]),
      Whole [(sample_vh 64000 3, [0, 0, 1, 5])] (sample_vh 7 3, [8])]"
  let ?ps = "[sample_frame 64000 (of_nat 1) [0, 0, 1, 9], sample_frame 9 (of_nat 2) [0, 0, 1, 7],
       sample_frame 64000 (of_nat 3) [0, 0, 1, 5], sample_frame 7 (of_nat 3) [8]]"
  have ok: "list_all unit_ok ?us"
    by (simp add: unit_ok_def beginsAccessUnit_def continues_def sameUnit_def full_frame_def
        sample_vh_def STATION_CHUNK_BYTES_def)
  have rd: "list_all2 (reads plain_decode) ?ps (concat (map unit_frames ?us))"
    by (simp only: concat.simps list.map unit_frames.simps append.simps append_Nil2 list.rel_inject
        list.rel_intros(1) simp_thms)
      (intro conjI; rule sample_reads; simp)
  obtain st d out drops where r: "assembler_run plain_decode (new_assembler, ()) ?ps = ((st, d), out, drops)"
    by (metis prod_cases3 surj_pair)
  have "out = concat (map unit_result ?us)" "droppedUnits st + pending st = 1" "length drops = droppedUnits st"
    using assembler_delivers_complete [OF ok rd r] by simp_all
  then have "map unitData out = [[0, 0, 1, 7], [0, 0, 1, 5, 8]] \<and> length drops + pending st = 1"
    by (simp add: unitOf_def)
  with r show ?thesis by (metis old.unit.exhaust)
qed

text \<open>
  The contract stops at losses from the end of a unit: when a frame is lost from the middle of a unit of
  three or more, the frames around the gap still match, and the bytes on both sides are joined and
  delivered as one unit.
\<close>

lemma assembler_joins_over_gap:
  assumes "full_frame f1" "\<not> full_frame f3" "beginsAccessUnit (snd f1)" "continues (fst f1) f3"
  shows "snd (assemble_run new_assembler [f1, f3]) = ([unitOf (fst f1) (snd f1 @ snd f3)], [])"
proof -
  obtain h1 b1 h3 b3 where f: "f1 = (h1, b1)" "f3 = (h3, b3)" by fastforce
  have "assemble new_assembler h1 b1 = (holding h1 [b1] (length b1) new_assembler, [], [])"
    using assms(1,3)
    by (simp add: f assemble_begin full_frame_def after_discard_def discard_def new_assembler_def)
  moreover have "assemble (holding h1 [b1] (length b1) new_assembler) h3 b3 =
      (new_assembler\<lparr>openUnit := None\<rparr>, [unitOf h1 (b1 @ b3)], [])"
    using assms(2,4) by (simp add: f assemble_continue full_frame_def)
  ultimately show ?thesis by (simp add: f)
qed

section \<open>No byte is lost silently\<close>

text \<open>
  The assembler beside a ledger of the decoded bytes fed to it, delivered by it and reported as dropped.
\<close>

record ledger =
  fed :: nat
  delivered :: nat
  reported :: nat

definition decoded_bytes :: "('d \<Rightarrow> buffer \<Rightarrow> 'd \<times> buffer option) \<Rightarrow> 'd \<Rightarrow> buffer \<Rightarrow> nat" where
  "decoded_bytes decode d p =
     (if parseVideoFrameHeader p = None then 0
      else case snd (decode d p) of None \<Rightarrow> 0 | Some b \<Rightarrow> length b)"

definition ledger_step ::
  "('d \<Rightarrow> buffer \<Rightarrow> 'd \<times> buffer option) \<Rightarrow> (assembler \<times> 'd) \<times> ledger \<Rightarrow> buffer \<Rightarrow>
    (assembler \<times> 'd) \<times> ledger" where
  "ledger_step decode s p =
     (let (s1, us, ds) = assembler_push decode (fst s) p
      in (s1, \<lparr>fed = fed (snd s) + decoded_bytes decode (snd (fst s)) p,
               delivered = delivered (snd s) + sum_list (map (length \<circ> unitData) us),
               reported = reported (snd s) + sum_list (map dropCarried ds)\<rparr>))"

definition held :: "assembler \<Rightarrow> nat" where
  "held st = (case openUnit st of None \<Rightarrow> 0 | Some u \<Rightarrow> ouCarried u)"

definition carried_ok :: "assembler \<Rightarrow> bool" where
  "carried_ok st \<longleftrightarrow>
     (case openUnit st of None \<Rightarrow> True | Some u \<Rightarrow> ouCarried u = length (concat (ouChunks u)))"

definition balanced :: "(assembler \<times> 'd) \<times> ledger \<Rightarrow> bool" where
  "balanced s \<longleftrightarrow> carried_ok (fst (fst s)) \<and>
     fed (snd s) = delivered (snd s) + reported (snd s) + held (fst (fst s))"

lemma discard_balance:
  "discard st = (st', ds) \<Longrightarrow> carried_ok st' \<and> held st' = 0 \<and> sum_list (map dropCarried ds) = held st"
  by (cases "openUnit st") (auto simp: discard_def held_def carried_ok_def)

lemma discard_open: "discard st = (st', ds) \<Longrightarrow> openUnit st' = None"
  by (cases "openUnit st") (auto simp: discard_def)

lemma assemble_balance:
  assumes "carried_ok st" "assemble st h b = (st', us, ds)"
  shows "carried_ok st' \<and>
    held st + length b = sum_list (map (length \<circ> unitData) us) + sum_list (map dropCarried ds) + held st'"
proof -
  obtain sd dd where d: "discard st = (sd, dd)" by fastforce
  note db = discard_balance [OF d] and dop = discard_open [OF d]
  show ?thesis
  proof (cases "\<exists>u. openUnit st = Some u \<and> sameUnit (ouHeader u) h \<and> \<not> beginsAccessUnit b")
    case True
    then obtain u where u: "openUnit st = Some u" "sameUnit (ouHeader u) h" "\<not> beginsAccessUnit b"
      by blast
    show ?thesis
      using assms u
      by (cases "payloadLength h = STATION_CHUNK_BYTES")
        (auto simp: assemble_def held_def carried_ok_def Let_def unitOf_def)
  next
    case False
    then have "assemble st h b =
        (if payloadLength h = STATION_CHUNK_BYTES
         then (sd\<lparr>openUnit := Some \<lparr>ouHeader = h, ouChunks = [b], ouCarried = length b\<rparr>\<rparr>, [], dd)
         else (sd, [unitOf h b], dd))"
      by (cases "openUnit st") (auto simp: assemble_def d Let_def)
    then show ?thesis
      using assms(2) db dop
      by (auto simp: held_def carried_ok_def unitOf_def split: if_splits)
  qed
qed

lemma balanced_step: "balanced s \<Longrightarrow> balanced (ledger_step decode s p)"
proof -
  assume b: "balanced s"
  obtain st d l where s: "s = ((st, d), l)" by (metis surj_pair)
  obtain sd dd where dc: "discard st = (sd, dd)" by fastforce
  have ok: "carried_ok st" using b by (simp add: s balanced_def)
  show ?thesis
  proof (cases "parseVideoFrameHeader p")
    case None
    then show ?thesis using b discard_balance [OF dc]
      by (simp add: s balanced_def ledger_step_def assembler_push_def dc decoded_bytes_def)
  next
    case (Some h)
    obtain d' body where dec: "decode d p = (d', body)" by fastforce
    show ?thesis
    proof (cases "body = None \<or> body = Some []")
      case True
      then show ?thesis using b discard_balance [OF dc] Some
        by (auto simp: s balanced_def ledger_step_def assembler_push_def dc dec decoded_bytes_def)
    next
      case False
      then obtain x where x: "body = Some x" "x \<noteq> []" by (cases body) auto
      obtain st' us ds where a: "assemble st h x = (st', us, ds)" by (metis prod_cases3)
      show ?thesis using b assemble_balance [OF ok a] x Some
        by (simp add: s balanced_def ledger_step_def assembler_push_def a dec decoded_bytes_def)
    qed
  qed
qed

interpretation ledger: stepper "ledger_step decode" balanced for decode
  by unfold_locales (rule balanced_step)

text \<open>
  Every decoded byte is accounted for: after any payloads, good or bad, split or not, the bytes the
  decoder delivered to a fresh assembler are those of the units it handed on, those of the drops it
  reported, and those of the unit it is still filling.
\<close>

theorem assembler_accounts_for_bytes:
  "let ((st, d'), l) = foldl (ledger_step decode) ((new_assembler, d), \<lparr>fed = 0, delivered = 0, reported = 0\<rparr>) ps
   in fed l = delivered l + reported l + held st"
proof -
  have "balanced ((new_assembler, d), \<lparr>fed = 0, delivered = 0, reported = 0\<rparr>)"
    by (simp add: balanced_def new_assembler_def held_def carried_ok_def)
  from ledger.inv_run [OF this, of decode ps] show ?thesis
    by (simp add: balanced_def case_prod_unfold Let_def)
qed

end
