(* ===== verification/Annexb.thy ===== *)
theory Annexb
  imports Eufy_Prelude
begin

text \<open>
  \<open>src/transport/p2p/annexb.ts\<close>, the NAL half: the start-code scan, the split into NAL bodies, the
  codec sniff, and the parameter sets a stream announces and a late consumer is handed again.
\<close>

section \<open>The start-code scan\<close>

definition ANNEXB_START :: buffer where
  "ANNEXB_START = [0x00, 0x00, 0x00, 0x01]"

text \<open>What one round of \<open>nalStarts\<close> yields; a four-byte code yields its offset in this round and in the next.\<close>

definition nal_start_at :: "buffer \<Rightarrow> nat \<Rightarrow> nat list" where
  "nal_start_at buf i =
     (if buf ! i = 0 \<and> buf ! (i + 1) = 0 \<and> buf ! (i + 2) = 1 then [i + 3]
      else if i + 4 < length buf \<and> buf ! i = 0 \<and> buf ! (i + 1) = 0 \<and> buf ! (i + 2) = 0
        \<and> buf ! (i + 3) = 1 then [i + 4]
      else [])"

definition nalStarts :: "buffer \<Rightarrow> nat list" where
  "nalStarts buf = concat (map (nal_start_at buf) [0 ..< length buf - 3])"

definition startCodeBegin :: "buffer \<Rightarrow> nat \<Rightarrow> nat" where
  "startCodeBegin buf payloadOffset =
     (let threeByte = payloadOffset - 3
      in if 1 \<le> threeByte \<and> buf ! (threeByte - 1) = 0 then threeByte - 1 else threeByte)"

text \<open>
  The bytes from each offset to the next one's start code, or to the end; an end before its start is
  the empty \<open>subarray\<close>.
\<close>

fun nal_slices :: "buffer \<Rightarrow> nat list \<Rightarrow> buffer list" where
  "nal_slices buf [] = []"
| "nal_slices buf [p] = [slice p (length buf) buf]"
| "nal_slices buf (p # q # ps) = slice p (startCodeBegin buf q) buf # nal_slices buf (q # ps)"

definition splitAnnexbNals :: "buffer \<Rightarrow> buffer list" where
  "splitAnnexbNals buf = filter (\<lambda>nal. nal \<noteq> []) (nal_slices buf (nalStarts buf))"

datatype video_codec = H264 | H265 | AV1

definition hevc_type :: "byte \<Rightarrow> nat" where
  "hevc_type b = unat (drop_bit 1 b AND 0x3f)"

definition h264_type :: "byte \<Rightarrow> nat" where
  "h264_type b = unat (b AND 0x1f)"

fun sniff_loop :: "buffer \<Rightarrow> nat list \<Rightarrow> video_codec option" where
  "sniff_loop buf [] = None"
| "sniff_loop buf (p # ps) =
     (if p > 64 then None
      else if hevc_type (buf ! p) = 32 \<or> hevc_type (buf ! p) = 33 \<or> hevc_type (buf ! p) = 34 then Some H265
      else if h264_type (buf ! p) = 7 \<or> h264_type (buf ! p) = 8 then Some H264
      else sniff_loop buf ps)"

definition sniffAnnexbCodec :: "buffer \<Rightarrow> video_codec option" where
  "sniffAnnexbCodec buf = sniff_loop buf (nalStarts buf)"

section \<open>Parameter sets\<close>

record param_sets =
  codec :: video_codec
  sps :: "buffer list"
  pps :: "buffer list"
  vps :: "buffer list"

text \<open>One round of the loop of \<open>extractParamSets\<close>: where a NAL goes, if it is a parameter set.\<close>

definition classify :: "video_codec \<Rightarrow> param_sets \<Rightarrow> buffer \<Rightarrow> param_sets" where
  "classify c s nal =
     (if nal = [] then s
      else if c = H265 then
        (let t = hevc_type (nal ! 0)
         in if t = 32 then s\<lparr>vps := vps s @ [nal]\<rparr>
            else if t = 33 then s\<lparr>sps := sps s @ [nal]\<rparr>
            else if t = 34 then s\<lparr>pps := pps s @ [nal]\<rparr> else s)
      else
        (let t = h264_type (nal ! 0)
         in if t = 7 then s\<lparr>sps := sps s @ [nal]\<rparr>
            else if t = 8 then s\<lparr>pps := pps s @ [nal]\<rparr> else s))"

definition extractParamSets :: "buffer \<Rightarrow> param_sets option" where
  "extractParamSets buf =
     (case sniffAnnexbCodec buf of
        None \<Rightarrow> None
      | Some c \<Rightarrow>
          (let offsets = nalStarts buf in
           if offsets = [] then None
           else
             (let s = foldl (classify c) \<lparr>codec = c, sps = [], pps = [], vps = []\<rparr> (nal_slices buf offsets)
              in if sps s = [] \<and> pps s = [] then None else Some s)))"

definition updatedParamSets :: "buffer \<Rightarrow> param_sets option \<Rightarrow> param_sets option" where
  "updatedParamSets buf current =
     (case extractParamSets buf of
        None \<Rightarrow> current
      | Some announced \<Rightarrow>
          (case current of
             None \<Rightarrow> Some announced
           | Some cur \<Rightarrow>
               if codec cur \<noteq> codec announced then Some announced
               else Some \<lparr>codec = codec announced,
                 sps = (if sps announced \<noteq> [] then sps announced else sps cur),
                 pps = (if pps announced \<noteq> [] then pps announced else pps cur),
                 vps = (if vps announced \<noteq> [] then vps announced else vps cur)\<rparr>))"

definition prefixParamSets :: "buffer \<Rightarrow> param_sets \<Rightarrow> buffer" where
  "prefixParamSets annexb sets =
     (let ordered = vps sets @ sps sets @ pps sets
      in if ordered = [] then annexb
         else concat (map (\<lambda>nal. ANNEXB_START @ nal) ordered) @ annexb)"

fun idr_loop :: "video_codec \<Rightarrow> buffer \<Rightarrow> nat list \<Rightarrow> bool" where
  "idr_loop c buf [] = False"
| "idr_loop c buf (p # ps) =
     (if c = H265 then
        (if hevc_type (buf ! p) = 19 \<or> hevc_type (buf ! p) = 20 then True else idr_loop c buf ps)
      else if h264_type (buf ! p) = 5 then True else idr_loop c buf ps)"

definition hasIdr :: "buffer \<Rightarrow> video_codec \<Rightarrow> bool" where
  "hasIdr buf c = idr_loop c buf (nalStarts buf)"

section \<open>The scan on suffixes\<close>

fun starts :: "nat \<Rightarrow> buffer \<Rightarrow> nat list" where
  "starts k (a # b # c # d # r) =
     (if a = 0 \<and> b = 0 \<and> c = 1 then [k + 3]
      else if r \<noteq> [] \<and> a = 0 \<and> b = 0 \<and> c = 0 \<and> d = 1 then [k + 4] else []) @ starts (Suc k) (b # c # d # r)"
| "starts k _ = []"

lemma nal_start_at_skip:
  "nal_start_at (pre @ s) (length pre + i) = map ((+) (length pre)) (nal_start_at s i)"
  by (simp add: nal_start_at_def nth_append)

lemma nal_start_at_shift: "nal_start_at (x # s) (Suc i) = map Suc (nal_start_at s i)"
  using nal_start_at_skip [of "[x]" s i] by simp

lemma starts_shift: "starts (Suc k) s = map Suc (starts k s)"
  by (induction k s rule: starts.induct) simp_all

lemma nalStarts_starts: "nalStarts s = starts 0 s"
proof (induction s)
  case Nil
  then show ?case by (simp add: nalStarts_def)
next
  case (Cons x s)
  show ?case
  proof (cases "3 \<le> length s")
    case False
    then have "length s = 0 \<or> length s = 1 \<or> length s = 2" by linarith
    then show ?thesis by (auto simp: nalStarts_def length_Suc_conv numeral_2_eq_2)
  next
    case True
    then obtain b c d r where s: "s = b # c # d # r"
      by (auto simp: numeral_3_eq_3 Suc_le_length_iff)
    have "nalStarts (x # s) = nal_start_at (x # s) 0 @ concat (map (nal_start_at (x # s)) (map Suc [0 ..< length s - 3]))"
    proof -
      have "length (x # s) - 3 = Suc (length s - 3)" using True by simp
      then show ?thesis
        by (simp only: nalStarts_def map_Suc_upt upt_conv_Cons [OF zero_less_Suc] list.map concat.simps)
    qed
    also have "map (nal_start_at (x # s)) (map Suc [0 ..< length s - 3]) =
        map (map Suc) (map (nal_start_at s) [0 ..< length s - 3])"
      by (simp add: nal_start_at_shift)
    also have "concat \<dots> = map Suc (nalStarts s)"
      by (simp add: nalStarts_def map_concat)
    also have "map Suc (nalStarts s) = starts (Suc 0) s" by (simp only: Cons.IH starts_shift)
    also have "nal_start_at (x # s) 0 =
        (if x = 0 \<and> b = 0 \<and> c = 1 then [0 + 3]
         else if r \<noteq> [] \<and> x = 0 \<and> b = 0 \<and> c = 0 \<and> d = 1 then [0 + 4] else [])"
      by (simp add: nal_start_at_def s numeral_2_eq_2 numeral_3_eq_3)
    finally show ?thesis by (simp only: s starts.simps(1))
  qed
qed

section \<open>The split inverts the serialisation\<close>

text \<open>
  A NAL body as an encoder emits it: not empty, not ending in a zero byte (the stop bit sees to that),
  and free of the patterns emulation prevention removes.
\<close>

fun no_start :: "buffer \<Rightarrow> bool" where
  "no_start (a # b # c # r) = (\<not> (a = 0 \<and> b = 0 \<and> (c = 0 \<or> c = 1)) \<and> no_start (b # c # r))"
| "no_start _ = True"

definition clean_nal :: "buffer \<Rightarrow> bool" where
  "clean_nal n \<longleftrightarrow> n \<noteq> [] \<and> last n \<noteq> 0 \<and> no_start n"

text \<open>A NAL behind the four-byte start code or, the flag set, behind the three-byte one.\<close>

type_synonym sent_nal = "bool \<times> buffer"

definition start_code :: "bool \<Rightarrow> buffer" where
  "start_code short = (if short then [0, 0, 1] else ANNEXB_START)"

definition serialize :: "sent_nal list \<Rightarrow> buffer" where
  "serialize nals = concat (map (\<lambda>(short, n). start_code short @ n) nals)"

lemma serialize_simps [simp]:
  "serialize [] = []"
  "serialize ((s, n) # ns) = start_code s @ n @ serialize ns"
  "serialize (xs @ ys) = serialize xs @ serialize ys"
  by (simp_all add: serialize_def)

lemma three_more: "3 \<le> length z \<Longrightarrow> \<exists>b c d r. z = b # c # d # r"
  by (auto simp: numeral_3_eq_3 Suc_le_length_iff)

lemma starts_short: "length s < 4 \<Longrightarrow> starts k s = []"
  by (cases "(k, s)" rule: starts.cases) auto

text \<open>No start inside a clean body, nor across its end.\<close>

lemma starts_body:
  "n \<noteq> [] \<Longrightarrow> last n \<noteq> 0 \<Longrightarrow> no_start n \<Longrightarrow> starts k (n @ s) = starts (k + length n) s"
proof (induction n arbitrary: k)
  case (Cons x n)
  have head: "starts k (x # n @ s) = starts (Suc k) (n @ s)"
  proof (cases "length (n @ s) < 3")
    case True
    then show ?thesis by (simp add: starts_short)
  next
    case False
    then obtain b c d r where e: "n @ s = b # c # d # r"
      using three_more [of "n @ s"] by auto
    have "\<not> (x = 0 \<and> b = 0 \<and> (c = 0 \<or> c = 1))"
    proof (cases n)
      case Nil
      then show ?thesis using Cons.prems(2) by simp
    next
      case (Cons y n')
      with e Cons.prems show ?thesis by (cases n') auto
    qed
    then show ?thesis unfolding e by auto
  qed
  show ?case
  proof (cases "n = []")
    case True
    then show ?thesis using head by simp
  next
    case False
    have "no_start n" using Cons.prems(3) by (cases n; cases "tl n") auto
    then show ?thesis using head Cons.IH [of "Suc k"] Cons.prems(2) False by simp
  qed
qed simp

definition code_len :: "bool \<Rightarrow> nat" where
  "code_len short = (if short then 3 else 4)"

lemma length_start_code [simp]: "length (start_code short) = code_len short"
  by (simp add: start_code_def code_len_def ANNEXB_START_def)

definition code_starts :: "nat \<Rightarrow> bool \<Rightarrow> nat list" where
  "code_starts k short = (if short then [k + 3] else [k + 4, k + 4])"

lemma starts_code:
  assumes "n \<noteq> []"
  shows "starts k (start_code short @ n) = code_starts k short @ starts (k + code_len short) n"
proof -
  obtain x xs where n: "n = x # xs" using assms by (cases n) auto
  have one: "starts j (1 # s) = starts (Suc j) s" for j s
    using starts_body [of "[1]" j s] by simp
  have "starts j (0 # 1 # s) = starts (Suc (Suc j)) s" for j s
    using starts_body [of "[0, 1]" j s] by simp
  then show ?thesis
    using one by (simp add: n start_code_def ANNEXB_START_def code_starts_def code_len_def eval_nat_numeral)
qed

lemma starts_serialize:
  assumes "clean_nal n"
  shows "starts k (start_code short @ n @ s) =
    code_starts k short @ starts (k + code_len short + length n) s"
  using assms starts_body [of n "k + code_len short" s] starts_code [of "n @ s" k short]
  by (simp add: clean_nal_def)

text \<open>The offsets of a serialised unit behind any bytes.\<close>

fun offsets_of :: "nat \<Rightarrow> sent_nal list \<Rightarrow> nat list" where
  "offsets_of k [] = []"
| "offsets_of k ((short, n) # ns) = code_starts k short @ offsets_of (k + code_len short + length n) ns"

lemma starts_nals:
  "list_all (\<lambda>(short, n). clean_nal n) ns \<Longrightarrow> starts k (serialize ns) = offsets_of k ns"
  by (induction k ns rule: offsets_of.induct) (simp_all add: starts_serialize)

lemma code_begin:
  assumes "pre = [] \<or> last pre \<noteq> 0"
  shows "startCodeBegin (pre @ start_code short @ r) (length pre + code_len short) = length pre"
proof (cases "pre = []")
  case True
  then show ?thesis by (simp add: startCodeBegin_def start_code_def code_len_def ANNEXB_START_def)
next
  case False
  then have "pre ! (length pre - 1) \<noteq> 0" using assms by (simp add: last_conv_nth)
  then show ?thesis using False
    by (auto simp: startCodeBegin_def start_code_def code_len_def ANNEXB_START_def nth_append Let_def)
qed

lemma offsets_hd: "offsets_of k ((short, n) # ns) = (k + code_len short) # tl (offsets_of k ((short, n) # ns))"
  by (simp add: code_starts_def code_len_def)

definition next_end :: "buffer \<Rightarrow> nat list \<Rightarrow> nat" where
  "next_end buf ps = (case ps of [] \<Rightarrow> length buf | q # _ \<Rightarrow> startCodeBegin buf q)"

lemma nal_slices_Cons: "nal_slices buf (p # ps) = slice p (next_end buf ps) buf # nal_slices buf ps"
  by (cases ps) (simp_all add: next_end_def slice_def)

lemma slices_serialized:
  assumes "list_all (\<lambda>(short, n). clean_nal n) ns" "pre = [] \<or> last pre \<noteq> 0"
  shows "filter (\<lambda>nal. nal \<noteq> []) (nal_slices (pre @ serialize ns) (offsets_of (length pre) ns)) = map snd ns"
  using assms
proof (induction ns arbitrary: pre)
  case Nil
  then show ?case by simp
next
  case (Cons x ns)
  obtain short n where x: "x = (short, n)" by fastforce
  have n: "n \<noteq> []" "last n \<noteq> 0" using Cons.prems(1) by (simp_all add: x clean_nal_def)
  let ?pre = "pre @ start_code short @ n"
  let ?buf = "pre @ serialize (x # ns)"
  let ?p = "length pre + code_len short"
  have buf: "?buf = ?pre @ serialize ns" by (simp add: x)
  have rest: "offsets_of (length pre) (x # ns) = code_starts (length pre) short @ offsets_of (length ?pre) ns"
    by (simp add: x add.assoc)
  have ih: "filter (\<lambda>nal. nal \<noteq> []) (nal_slices ?buf (offsets_of (length ?pre) ns)) = map snd ns"
    unfolding buf by (rule Cons.IH) (use Cons.prems(1) n in \<open>simp_all add: x\<close>)
  have next_begin: "next_end ?buf (offsets_of (length ?pre) ns) = length ?pre"
  proof (cases ns)
    case Nil
    then show ?thesis by (simp add: next_end_def x)
  next
    case (Cons y ns')
    obtain s2 n2 where y: "y = (s2, n2)" by fastforce
    have "startCodeBegin (?pre @ start_code s2 @ n2 @ serialize ns') (length ?pre + code_len s2) = length ?pre"
      by (rule code_begin) (use n in simp)
    then have b: "startCodeBegin ?buf (length ?pre + code_len s2) = length ?pre"
      by (simp add: x Cons y)
    have "offsets_of (length ?pre) ns = (length ?pre + code_len s2) # tl (offsets_of (length ?pre) ns)"
      unfolding Cons y by (rule offsets_hd)
    then obtain qs where "offsets_of (length ?pre) ns = (length ?pre + code_len s2) # qs" by blast
    then show ?thesis by (simp only: next_end_def list.case b)
  qed
  have body: "slice ?p (length ?pre) ?buf = n" unfolding buf by (simp add: slice_def)
  have again: "slice ?p (startCodeBegin ?buf ?p) ?buf = []"
    using code_begin [OF Cons.prems(2), of short "n @ serialize ns"] by (simp add: x slice_def)
  show ?case
  proof (cases short)
    case True
    have "code_starts (length pre) short = [?p]"
      using True by (simp add: code_starts_def code_len_def)
    then have "filter (\<lambda>nal. nal \<noteq> []) (nal_slices ?buf (offsets_of (length pre) (x # ns))) =
        n # map snd ns"
      unfolding rest by (simp only: append.simps nal_slices_Cons next_begin body ih filter.simps n
          simp_thms if_True if_False)
    then show ?thesis by (simp add: x)
  next
    case False
    have "next_end ?buf (?p # offsets_of (length ?pre) ns) = startCodeBegin ?buf ?p"
      by (simp add: next_end_def)
    moreover have "code_starts (length pre) short = [?p, ?p]"
      using False by (simp add: code_starts_def code_len_def)
    ultimately have "filter (\<lambda>nal. nal \<noteq> []) (nal_slices ?buf (offsets_of (length pre) (x # ns))) =
        n # map snd ns"
      unfolding rest by (simp only: append.simps nal_slices_Cons next_begin body again ih filter.simps n
          simp_thms if_True if_False)
    then show ?thesis by (simp add: x)
  qed
qed

lemma split_serialized:
  "list_all (\<lambda>(short, n). clean_nal n) ns \<Longrightarrow> splitAnnexbNals (serialize ns) = map snd ns"
  using slices_serialized [of ns "[]"] starts_nals [of ns 0]
  by (simp add: splitAnnexbNals_def nalStarts_starts)

text \<open>
  Splitting inverts serialising: an access unit made of clean NAL bodies, each behind a three-byte
  or a four-byte start code, splits into exactly those bodies in order.
\<close>

theorem split_serialize:
  assumes "list_all (\<lambda>(short, n). clean_nal n) nals"
  shows "splitAnnexbNals (serialize nals) = map snd nals"
  using assms by (rule split_serialized)

lemma split_serialize_witness:
  "splitAnnexbNals (serialize [(False, [0x67, 0, 0, 3, 1]), (True, [0x68, 0x80]), (False, [0x65, 0, 9])]) =
    [[0x67, 0, 0, 3, 1], [0x68, 0x80], [0x65, 0, 9]]"
  using split_serialize [of "[(False, [0x67, 0, 0, 3, 1]), (True, [0x68, 0x80]), (False, [0x65, 0, 9])]"]
  by (simp add: clean_nal_def)

section \<open>Parameter sets in and out\<close>

lemma foldl_classify_filter:
  "foldl (classify c) s (filter (\<lambda>nal. nal \<noteq> []) ns) = foldl (classify c) s ns"
  by (induction ns arbitrary: s) (simp_all add: classify_def)

text \<open>The kinds a NAL type stands for under a codec.\<close>

definition is_vps :: "video_codec \<Rightarrow> buffer \<Rightarrow> bool" where
  "is_vps c n \<longleftrightarrow> n \<noteq> [] \<and> c = H265 \<and> hevc_type (n ! 0) = 32"

definition is_sps :: "video_codec \<Rightarrow> buffer \<Rightarrow> bool" where
  "is_sps c n \<longleftrightarrow> n \<noteq> [] \<and> (if c = H265 then hevc_type (n ! 0) = 33 else h264_type (n ! 0) = 7)"

definition is_pps :: "video_codec \<Rightarrow> buffer \<Rightarrow> bool" where
  "is_pps c n \<longleftrightarrow> n \<noteq> [] \<and> (if c = H265 then hevc_type (n ! 0) = 34 else h264_type (n ! 0) = 8)"

lemma foldl_classify:
  "foldl (classify c) s ns =
    s\<lparr>sps := sps s @ filter (is_sps c) ns, pps := pps s @ filter (is_pps c) ns,
      vps := vps s @ filter (is_vps c) ns\<rparr>"
proof (induction ns arbitrary: s)
  case (Cons n ns)
  have "classify c s n =
    s\<lparr>sps := sps s @ filter (is_sps c) [n], pps := pps s @ filter (is_pps c) [n],
      vps := vps s @ filter (is_vps c) [n]\<rparr>"
    by (auto simp: classify_def is_sps_def is_pps_def is_vps_def Let_def)
  then show ?case using Cons.IH by simp
qed simp

text \<open>
  The first NAL of a serialised unit starts at offset 3 or 4, inside the 64 bytes the sniff reads, and
  a type byte of one codec's parameter sets is never read as the other's.
\<close>

lemma h264_not_hevc:
  assumes "h264_type b = 7 \<or> h264_type b = 8"
  shows "hevc_type b \<notin> {32, 33, 34}"
proof -
  have h: "hevc_type b = unat b div 2 mod 64" and a: "h264_type b = unat b mod 32"
    by (simp_all only: hevc_type_def h264_type_def unat_byte_and unat_drop_bit_byte power_one_right)
  have m: "unat b div 2 mod 16 = unat b mod 32 div 2"
    using mod_mult2_eq [of "unat b" 2 16] by simp
  have "hevc_type b mod 16 = h264_type b div 2"
    unfolding h a m [symmetric] by (rule mod_mod_cancel) simp
  with assms have "hevc_type b mod 16 = 3 \<or> hevc_type b mod 16 = 4" by auto
  then show ?thesis by auto
qed

definition announces :: "video_codec \<Rightarrow> buffer \<Rightarrow> bool" where
  "announces c n \<longleftrightarrow> is_vps c n \<or> is_sps c n \<or> is_pps c n"

lemma sniff_first:
  assumes "announces c n" "c \<noteq> AV1" "clean_nal n"
  shows "sniffAnnexbCodec (serialize ((short, n) # ns)) = Some c"
proof -
  let ?buf = "serialize ((short, n) # ns)"
  have n: "n \<noteq> []" using assms(3) by (simp add: clean_nal_def)
  have b: "?buf ! code_len short = n ! 0"
    using n by (simp add: nth_append)
  have "nalStarts ?buf = code_starts 0 short @ starts (code_len short + length n) (serialize ns)"
    using starts_serialize [OF assms(3), of 0 short "serialize ns"] by (simp add: nalStarts_starts)
  then have "\<exists>ps. nalStarts ?buf = code_len short # ps"
    by (cases short) (simp_all add: code_starts_def code_len_def)
  then obtain ps where s: "nalStarts ?buf = code_len short # ps" by blast
  have le: "\<not> code_len short > 64" by (simp add: code_len_def)
  show ?thesis
    unfolding sniffAnnexbCodec_def s sniff_loop.simps b if_not_P [OF le]
  proof (cases "c = H265")
    case True
    then show "(if hevc_type (n ! 0) = 32 \<or> hevc_type (n ! 0) = 33 \<or> hevc_type (n ! 0) = 34 then Some H265
        else if h264_type (n ! 0) = 7 \<or> h264_type (n ! 0) = 8 then Some H264
        else sniff_loop ?buf ps) = Some c"
      using assms(1) by (auto simp: announces_def is_vps_def is_sps_def is_pps_def)
  next
    case False
    then have "c = H264" using assms(2) by (cases c) auto
    then show "(if hevc_type (n ! 0) = 32 \<or> hevc_type (n ! 0) = 33 \<or> hevc_type (n ! 0) = 34 then Some H265
        else if h264_type (n ! 0) = 7 \<or> h264_type (n ! 0) = 8 then Some H264
        else sniff_loop ?buf ps) = Some c"
      using assms(1) h264_not_hevc [of "n ! 0"]
      by (auto simp: announces_def is_vps_def is_sps_def is_pps_def)
  qed
qed

lemma extract_serialized:
  assumes "announces c n" "c \<noteq> AV1" "list_all (\<lambda>(short, n). clean_nal n) ((short, n) # ns)"
    and "\<exists>m \<in> set (n # map snd ns). is_sps c m \<or> is_pps c m"
  shows "extractParamSets (serialize ((short, n) # ns)) =
    Some \<lparr>codec = c, sps = filter (is_sps c) (n # map snd ns), pps = filter (is_pps c) (n # map snd ns),
      vps = filter (is_vps c) (n # map snd ns)\<rparr>"
proof -
  let ?buf = "serialize ((short, n) # ns)"
  let ?init = "\<lparr>codec = c, sps = [], pps = [], vps = []\<rparr>"
  have "foldl (classify c) ?init (nal_slices ?buf (nalStarts ?buf)) =
      foldl (classify c) ?init (splitAnnexbNals ?buf)"
    by (simp only: splitAnnexbNals_def foldl_classify_filter)
  also have "splitAnnexbNals ?buf = n # map snd ns"
    using split_serialized [OF assms(3)] by simp
  finally have f: "foldl (classify c) ?init (nal_slices ?buf (nalStarts ?buf)) =
      \<lparr>codec = c, sps = filter (is_sps c) (n # map snd ns), pps = filter (is_pps c) (n # map snd ns),
        vps = filter (is_vps c) (n # map snd ns)\<rparr>"
    by (simp only: foldl_classify) simp
  have ne: "nalStarts ?buf \<noteq> []"
    using split_serialized [OF assms(3)] by (auto simp: splitAnnexbNals_def)
  have "filter (is_sps c) (n # map snd ns) \<noteq> [] \<or> filter (is_pps c) (n # map snd ns) \<noteq> []"
    using assms(4) unfolding filter_empty_conv by blast
  then show ?thesis
    using assms(3) ne sniff_first [OF assms(1,2), of short ns]
    by (simp add: extractParamSets_def f Let_def del: filter.simps serialize_simps)
qed

text \<open>Parameter sets as a stream announces them: clean bodies of their own kind.\<close>

definition sets_ok :: "param_sets \<Rightarrow> bool" where
  "sets_ok s \<longleftrightarrow> codec s \<noteq> AV1 \<and> (sps s \<noteq> [] \<or> pps s \<noteq> []) \<and>
     list_all clean_nal (vps s @ sps s @ pps s) \<and> list_all (is_vps (codec s)) (vps s) \<and>
     list_all (is_sps (codec s)) (sps s) \<and> list_all (is_pps (codec s)) (pps s)"

lemma kinds_disjoint:
  "is_vps c n \<Longrightarrow> \<not> is_sps c n \<and> \<not> is_pps c n"
  "is_sps c n \<Longrightarrow> \<not> is_vps c n \<and> \<not> is_pps c n"
  "is_pps c n \<Longrightarrow> \<not> is_vps c n \<and> \<not> is_sps c n"
  by (auto simp: is_vps_def is_sps_def is_pps_def split: if_splits)

lemma filter_kinds:
  assumes "list_all P xs" "\<And>x. P x \<Longrightarrow> \<not> Q x"
  shows "filter P xs = xs" "filter Q xs = []"
  using assms by (induction xs) auto

lemma prefix_serialize:
  assumes "vps s @ sps s @ pps s \<noteq> []"
  shows "prefixParamSets (serialize ns) s = serialize (map (Pair False) (vps s @ sps s @ pps s) @ ns)"
proof -
  have "concat (map (\<lambda>nal. ANNEXB_START @ nal) ordered) = serialize (map (Pair False) ordered)" for ordered
    by (induction ordered) (simp_all add: start_code_def)
  then show ?thesis
    using assms by (simp only: prefixParamSets_def Let_def if_False serialize_simps(3))
qed

lemma filter_sets:
  assumes "sets_ok s"
  shows "filter (is_vps (codec s)) (vps s @ sps s @ pps s) = vps s"
    "filter (is_sps (codec s)) (vps s @ sps s @ pps s) = sps s"
    "filter (is_pps (codec s)) (vps s @ sps s @ pps s) = pps s"
proof -
  have v: "list_all (is_vps (codec s)) (vps s)" and p: "list_all (is_sps (codec s)) (sps s)"
    and q: "list_all (is_pps (codec s)) (pps s)" using assms by (simp_all add: sets_ok_def)
  have "filter (is_sps (codec s)) (vps s) = []" "filter (is_pps (codec s)) (vps s) = []"
    "filter (is_vps (codec s)) (vps s) = vps s"
    "filter (is_vps (codec s)) (sps s) = []" "filter (is_pps (codec s)) (sps s) = []"
    "filter (is_sps (codec s)) (sps s) = sps s"
    "filter (is_vps (codec s)) (pps s) = []" "filter (is_sps (codec s)) (pps s) = []"
    "filter (is_pps (codec s)) (pps s) = pps s"
    using kinds_disjoint
    by (blast intro: filter_kinds [OF v] filter_kinds [OF p] filter_kinds [OF q])+
  then show "filter (is_vps (codec s)) (vps s @ sps s @ pps s) = vps s"
    "filter (is_sps (codec s)) (vps s @ sps s @ pps s) = sps s"
    "filter (is_pps (codec s)) (vps s @ sps s @ pps s) = pps s"
    by simp_all
qed

text \<open>
  A consumer that joins late is handed back exactly what was announced: prefixing parameter sets to
  a unit that carries none and extracting again gives the sets, each kind complete and in order, and
  splitting the prefixed unit shows the sets ahead of the unit, VPS before SPS before PPS.
\<close>

theorem prefix_extract:
  assumes "sets_ok s" "list_all (\<lambda>(short, n). clean_nal n) ns"
    and "\<forall>n \<in> set (map snd ns). \<not> announces (codec s) n"
  shows "extractParamSets (prefixParamSets (serialize ns) s) = Some s \<and>
    splitAnnexbNals (prefixParamSets (serialize ns) s) = vps s @ sps s @ pps s @ map snd ns"
proof -
  let ?o = "vps s @ sps s @ pps s"
  let ?all = "map (Pair False) ?o @ ns"
  have ne: "?o \<noteq> []" using assms(1) by (auto simp: sets_ok_def)
  then obtain n rest where o: "?o = n # rest" by (cases ?o) auto
  have clean: "list_all (\<lambda>(short, n). clean_nal n) ?all"
    using assms(1,2) by (auto simp: sets_ok_def list_all_iff)
  have kinds: "\<forall>m \<in> set ?o. announces (codec s) m"
    using assms(1) by (auto simp: sets_ok_def announces_def list_all_iff)
  have avc: "codec s \<noteq> AV1" using assms(1) by (simp add: sets_ok_def)
  have none: "filter (is_vps (codec s)) (map snd ns) = []" "filter (is_sps (codec s)) (map snd ns) = []"
    "filter (is_pps (codec s)) (map snd ns) = []"
    using assms(3) by (auto simp: announces_def filter_empty_conv)
  have snds: "map snd ?all = ?o @ map snd ns" by (simp add: o_def)
  have all: "?all = (False, n) # map (Pair False) rest @ ns" using o by simp
  have "n # map snd (map (Pair False) rest @ ns) = ?o @ map snd ns" using o by (simp add: o_def)
  moreover have "\<exists>m \<in> set (?o @ map snd ns). is_sps (codec s) m \<or> is_pps (codec s) m"
  proof -
    have "sps s \<noteq> [] \<or> pps s \<noteq> []" using assms(1) by (simp add: sets_ok_def)
    then obtain m where "m \<in> set (sps s) \<or> m \<in> set (pps s)" by (metis last_in_set)
    then show ?thesis using assms(1) by (auto simp: sets_ok_def list_all_iff)
  qed
  moreover have "announces (codec s) n" using kinds o by simp
  ultimately have "extractParamSets (serialize ?all) = Some \<lparr>codec = codec s,
      sps = filter (is_sps (codec s)) (?o @ map snd ns),
      pps = filter (is_pps (codec s)) (?o @ map snd ns),
      vps = filter (is_vps (codec s)) (?o @ map snd ns)\<rparr>"
    using extract_serialized [of "codec s" n False "map (Pair False) rest @ ns"] avc clean
    unfolding all by (simp only: simp_thms)
  moreover have "filter (is_vps (codec s)) (?o @ map snd ns) = vps s"
    "filter (is_sps (codec s)) (?o @ map snd ns) = sps s"
    "filter (is_pps (codec s)) (?o @ map snd ns) = pps s"
    by (simp_all only: filter_append [of _ ?o] none append_Nil2 filter_sets [OF assms(1)])
  ultimately have "extractParamSets (serialize ?all) = Some s" by simp
  then show ?thesis
    using split_serialized [OF clean]
    unfolding prefix_serialize [OF ne] snds by (simp only: append_assoc simp_thms)
qed

lemma prefix_extract_witness:
  "extractParamSets (prefixParamSets (serialize [(False, [0x65, 0x88])])
      \<lparr>codec = H264, sps = [[0x67, 1]], pps = [[0x68, 2]], vps = []\<rparr>) =
    Some \<lparr>codec = H264, sps = [[0x67, 1]], pps = [[0x68, 2]], vps = []\<rparr>"
  using prefix_extract [of "\<lparr>codec = H264, sps = [[0x67, 1]], pps = [[0x68, 2]], vps = []\<rparr>"
      "[(False, [0x65, 0x88])]"]
  by (simp add: sets_ok_def clean_nal_def is_sps_def is_pps_def is_vps_def announces_def h264_type_def)

text \<open>The last non-empty announcement of a kind, over units oldest first.\<close>

definition last_set :: "(param_sets \<Rightarrow> buffer list) \<Rightarrow> param_sets list \<Rightarrow> buffer list" where
  "last_set kind as = 
     (let xs = filter (\<lambda>x. x \<noteq> []) (map kind as) in if xs = [] then [] else last xs)"

definition announced :: "buffer list \<Rightarrow> param_sets list" where
  "announced units = List.map_filter extractParamSets units"

lemma last_set_snoc:
  "last_set kind (as @ [a]) = (if kind a = [] then last_set kind as else kind a)"
  by (simp add: last_set_def Let_def)

lemma announced_snoc:
  "announced (us @ [u]) = announced us @ (case extractParamSets u of None \<Rightarrow> [] | Some a \<Rightarrow> [a])"
  by (auto simp: announced_def List.map_filter_def split: option.splits)

lemma fold_units_snoc:
  "foldl (\<lambda>cur u. updatedParamSets u cur) None (us @ [u]) =
    updatedParamSets u (foldl (\<lambda>cur u. updatedParamSets u cur) None us)"
  by simp

lemma fold_sets:
  assumes "list_all (\<lambda>a. codec a = c) (announced us)"
  shows "foldl (\<lambda>cur u. updatedParamSets u cur) None us =
    (if announced us = [] then None
     else Some \<lparr>codec = c, sps = last_set sps (announced us), pps = last_set pps (announced us),
       vps = last_set vps (announced us)\<rparr>)"
  using assms
proof (induction us rule: rev_induct)
  case Nil
  then show ?case by (simp add: announced_def List.map_filter_def)
next
  case (snoc u us)
  let ?st = "foldl (\<lambda>cur u. updatedParamSets u cur) None us"
  have c: "list_all (\<lambda>a. codec a = c) (announced us)" using snoc.prems by (simp add: announced_snoc)
  show ?case
  proof (cases "extractParamSets u")
    case None
    then show ?thesis
      using snoc.IH [OF c] unfolding fold_units_snoc by (simp add: updatedParamSets_def announced_snoc)
  next
    case (Some a)
    then have ca: "codec a = c" using snoc.prems by (simp add: announced_snoc)
    show ?thesis
    proof (cases "announced us = []")
      case True
      then have "?st = None" using snoc.IH [OF c] by simp
      then have "foldl (\<lambda>cur u. updatedParamSets u cur) None (us @ [u]) = Some a"
        unfolding fold_units_snoc by (simp add: updatedParamSets_def Some)
      then show ?thesis using True ca
        by (cases a) (simp add: announced_snoc Some last_set_def)
    next
      case False
      then have "?st = Some \<lparr>codec = c, sps = last_set sps (announced us), pps = last_set pps (announced us),
          vps = last_set vps (announced us)\<rparr>" using snoc.IH [OF c] by simp
      then have "foldl (\<lambda>cur u. updatedParamSets u cur) None (us @ [u]) =
          Some \<lparr>codec = c, sps = (if sps a \<noteq> [] then sps a else last_set sps (announced us)),
            pps = (if pps a \<noteq> [] then pps a else last_set pps (announced us)),
            vps = (if vps a \<noteq> [] then vps a else last_set vps (announced us))\<rparr>"
        unfolding fold_units_snoc by (simp add: updatedParamSets_def Some ca)
      then show ?thesis using False by (simp add: announced_snoc Some last_set_snoc)
    qed
  qed
qed

text \<open>
  The sets in force are the last of each kind: folding every unit of a stream of one codec keeps,
  for SPS, PPS and VPS separately, the most recent non-empty announcement, so an SPS announced alone
  does not drop the PPS in force, and a stream that announced nothing has no sets.
\<close>

theorem sets_in_force:
  assumes "list_all (\<lambda>a. codec a = c) (announced us)"
  shows "foldl (\<lambda>cur u. updatedParamSets u cur) None us =
    (if announced us = [] then None
     else Some \<lparr>codec = c, sps = last_set sps (announced us), pps = last_set pps (announced us),
       vps = last_set vps (announced us)\<rparr>)"
  using assms by (rule fold_sets)

lemma sets_in_force_witness:
  "foldl (\<lambda>cur u. updatedParamSets u cur) None
     [serialize [(False, [0x67, 1]), (False, [0x68, 2])], serialize [(False, [0x67, 3])]] =
   Some \<lparr>codec = H264, sps = [[0x67, 3]], pps = [[0x68, 2]], vps = []\<rparr>"
proof -
  have a: "extractParamSets (serialize [(False, [0x67, 1]), (False, [0x68, 2])]) =
      Some \<lparr>codec = H264, sps = [[0x67, 1]], pps = [[0x68, 2]], vps = []\<rparr>"
    by (subst extract_serialized [of H264])
      (simp_all add: announces_def clean_nal_def is_sps_def is_pps_def is_vps_def h264_type_def)
  have b: "extractParamSets (serialize [(False, [0x67, 3])]) =
      Some \<lparr>codec = H264, sps = [[0x67, 3]], pps = [], vps = []\<rparr>"
    by (subst extract_serialized [of H264])
      (simp_all add: announces_def clean_nal_def is_sps_def is_pps_def is_vps_def h264_type_def)
  have n: "announced [serialize [(False, [0x67, 1]), (False, [0x68, 2])], serialize [(False, [0x67, 3])]] =
      [\<lparr>codec = H264, sps = [[0x67, 1]], pps = [[0x68, 2]], vps = []\<rparr>,
       \<lparr>codec = H264, sps = [[0x67, 3]], pps = [], vps = []\<rparr>]"
    by (simp add: announced_def List.map_filter_def a b del: serialize_simps)
  show ?thesis
    by (subst sets_in_force [of H264]) (simp_all only: n, simp_all add: last_set_def)
qed

end
