(* ===== verification/Live_Consumer.thy ===== *)
theory Live_Consumer
  imports Annexb
begin

text \<open>
  \<open>src/transport/p2p/shared-live-source.ts\<close>, class \<open>ConsumerImpl\<close>: one consumer of a shared live
  source, its bounded queue, its resynchronisation at the next keyframe and its configuration
  announcements. The events the consumer emits are its log. The host's listeners are the \<open>sink\<close>: a
  function of the log, which may pause or detach the consumer from inside a delivery; a listener that
  calls \<open>resume\<close> from inside a delivery is outside the model.
\<close>

section \<open>Media, events, state\<close>

record live_frame =
  fKeyframe :: bool
  fWidth :: int
  fHeight :: int
  fCodec :: video_codec
  fData :: buffer

record live_config =
  cCodec :: video_codec
  cWidth :: int
  cHeight :: int

datatype audio_codec = AacLc | AacEld | G711a

record audio_frame =
  aCodec :: audio_codec
  aData :: buffer

datatype media = MVideo live_frame int live_config | MAudio audio_frame int

fun is_key :: "media \<Rightarrow> bool" where
  "is_key (MVideo f t c) = fKeyframe f"
| "is_key (MAudio a t) = False"

fun media_time :: "media \<Rightarrow> int" where
  "media_time (MVideo f t c) = t"
| "media_time (MAudio a t) = t"

datatype start_reason = WarmTimeout | SourceEnded | SourceError
datatype start_stage = AwaitingKeyframe | AudioOnly | AwaitingFirstFrame
datatype live_error = Upstream | StartFailure start_reason start_stage nat

datatype emission = EConfig live_config | EVideo live_frame | EAudio audio_frame | EMedia media
  | EError live_error | EStop | EBudget

datatype reaction = Keep | Pause | Detach

record consumer =
  cQueue :: "media list"
  cPaused :: bool
  cDetached :: bool
  cPrimed :: bool
  cAwaiting :: bool
  cConfig :: "live_config option"
  cPending :: "media option"
  cMicro :: "media option"
  cVideoListener :: bool
  cErrorListener :: bool
  cMax :: nat
  cSink :: "emission list \<Rightarrow> reaction"
  cLog :: "emission list"

definition new_consumer :: "nat \<Rightarrow> (emission list \<Rightarrow> reaction) \<Rightarrow> bool \<Rightarrow> consumer" where
  "new_consumer maxQueue sink errorListener =
     \<lparr>cQueue = [], cPaused = False, cDetached = False, cPrimed = False, cAwaiting = False, cConfig = None,
      cPending = None, cMicro = None, cVideoListener = False, cErrorListener = errorListener,
      cMax = maxQueue, cSink = sink, cLog = []\<rparr>"

definition sameConfig :: "live_config \<Rightarrow> live_config option \<Rightarrow> bool" where
  "sameConfig a b \<longleftrightarrow>
     (case b of None \<Rightarrow> False
      | Some c \<Rightarrow> cCodec a = cCodec c \<and> cWidth a = cWidth c \<and> cHeight a = cHeight c)"

section \<open>The operations\<close>

definition c_detach :: "consumer \<Rightarrow> consumer" where
  "c_detach c = (if cDetached c then c else c\<lparr>cDetached := True, cQueue := []\<rparr>)"

text \<open>Emitting, and what the host's listeners do in answer.\<close>

definition c_emit :: "emission list \<Rightarrow> consumer \<Rightarrow> consumer" where
  "c_emit es c =
     (let c1 = c\<lparr>cLog := cLog c @ es\<rparr>
      in case cSink c (cLog c1) of
           Keep \<Rightarrow> c1
         | Pause \<Rightarrow> c1\<lparr>cPaused := True\<rparr>
         | Detach \<Rightarrow> c_detach c1)"

definition c_flush :: "media \<Rightarrow> consumer \<Rightarrow> consumer" where
  "c_flush item c =
     (case item of
        MVideo f t cfg \<Rightarrow>
          (if sameConfig cfg (cConfig c) then c_emit [EVideo f, EMedia item] c
           else c_emit [EConfig cfg, EVideo f, EMedia item] (c\<lparr>cConfig := Some cfg\<rparr>))
      | MAudio a t \<Rightarrow> c_emit [EAudio a, EMedia item] c)"

definition dropBacklogPastBound :: "consumer \<Rightarrow> consumer" where
  "dropBacklogPastBound c =
     (if cMax c < length (cQueue c) then c\<lparr>cQueue := [], cAwaiting := True\<rparr> else c)"

definition c_accept :: "media \<Rightarrow> consumer \<Rightarrow> consumer" where
  "c_accept item c =
     (if \<not> cPaused c \<and> cQueue c = [] then c_flush item c
      else dropBacklogPastBound (c\<lparr>cQueue := cQueue c @ [item]\<rparr>))"

definition deliverVideo :: "media \<Rightarrow> consumer \<Rightarrow> consumer" where
  "deliverVideo item c =
     (if cDetached c then c
      else if cAwaiting c then
        (if \<not> is_key item then c else c_accept item (c\<lparr>cAwaiting := False\<rparr>))
      else c_accept item c)"

definition deliverAudio :: "audio_frame \<Rightarrow> int \<Rightarrow> consumer \<Rightarrow> consumer" where
  "deliverAudio frame timestampMs c =
     (if cDetached c \<or> cAwaiting c then c else c_accept (MAudio frame timestampMs) c)"

definition c_prime :: "media \<Rightarrow> consumer \<Rightarrow> consumer" where
  "c_prime item c = c\<lparr>cPrimed := True, cPending := Some item\<rparr>"

text \<open>
  The first video listener: the staged keyframe goes to a microtask, which delivers it after the
  listener is in place.
\<close>

definition c_subscribe :: "consumer \<Rightarrow> consumer" where
  "c_subscribe c =
     (if cVideoListener c then c
      else c\<lparr>cVideoListener := True, cMicro := (case cPending c of None \<Rightarrow> cMicro c | k \<Rightarrow> k),
             cPending := None\<rparr>)"

definition c_microtask :: "consumer \<Rightarrow> consumer" where
  "c_microtask c =
     (case cMicro c of None \<Rightarrow> c | Some k \<Rightarrow> deliverVideo k (c\<lparr>cMicro := None\<rparr>))"

definition c_pause :: "consumer \<Rightarrow> consumer" where
  "c_pause c = c\<lparr>cPaused := True\<rparr>"

definition retainUndelivered :: "media list \<Rightarrow> consumer \<Rightarrow> consumer" where
  "retainUndelivered undelivered c =
     dropBacklogPastBound
       (c\<lparr>cQueue := (if cQueue c \<noteq> [] then undelivered @ cQueue c else undelivered)\<rparr>)"

fun drain :: "media list \<Rightarrow> consumer \<Rightarrow> consumer" where
  "drain [] c = c"
| "drain (x # xs) c =
     (if cDetached c then c
      else if cPaused c then retainUndelivered (x # xs) c
      else drain xs (c_flush x c))"

definition c_resume :: "consumer \<Rightarrow> consumer" where
  "c_resume c = (if cDetached c then c else drain (cQueue c) (c\<lparr>cPaused := False, cQueue := []\<rparr>))"

definition c_fail :: "live_error \<Rightarrow> consumer \<Rightarrow> consumer" where
  "c_fail e c = (if \<not> cDetached c \<and> cErrorListener c then c_emit [EError e] c else c)"

definition c_end :: "consumer \<Rightarrow> consumer" where
  "c_end c = (if \<not> cDetached c then c_emit [EStop] c else c)"

definition c_budget :: "consumer \<Rightarrow> consumer" where
  "c_budget c = (if \<not> cDetached c then c_emit [EBudget] c else c)"

section \<open>What a consumer is handed\<close>

text \<open>Everything that can happen to one consumer.\<close>

datatype consumer_event = OfferVideo live_frame int live_config | OfferAudio audio_frame int
  | CPrime live_frame int live_config | CSubscribe | CMicrotask | CPause | CResume | CFail live_error | CEnd
  | CBudget | CDetach

fun c_step :: "consumer \<Rightarrow> consumer_event \<Rightarrow> consumer" where
  "c_step c (OfferVideo f t g) = deliverVideo (MVideo f t g) c"
| "c_step c (OfferAudio a t) = deliverAudio a t c"
| "c_step c (CPrime f t g) = c_prime (MVideo f t g) c"
| "c_step c CSubscribe = c_subscribe c"
| "c_step c CMicrotask = c_microtask c"
| "c_step c CPause = c_pause c"
| "c_step c CResume = c_resume c"
| "c_step c (CFail e) = c_fail e c"
| "c_step c CEnd = c_end c"
| "c_step c CBudget = c_budget c"
| "c_step c CDetach = c_detach c"

fun handed :: "emission list \<Rightarrow> media list" where
  "handed [] = []"
| "handed (EMedia m # es) = m # handed es"
| "handed (e # es) = handed es"

lemma handed_append [simp]: "handed (xs @ ys) = handed xs @ handed ys"
  by (induction xs rule: handed.induct) simp_all

text \<open>The media an event offers to a consumer that has not left.\<close>

fun offers :: "consumer \<Rightarrow> consumer_event \<Rightarrow> media list" where
  "offers c (OfferVideo f t g) = (if cDetached c then [] else [MVideo f t g])"
| "offers c (OfferAudio a t) = (if cDetached c then [] else [MAudio a t])"
| "offers c CMicrotask = (if cDetached c then [] else case cMicro c of None \<Rightarrow> [] | Some k \<Rightarrow> [k])"
| "offers c _ = []"

text \<open>
  \<open>resync offered kept gap\<close>: \<open>kept\<close> is \<open>offered\<close> with runs left out, each run that is followed by
  anything kept being followed by a keyframe; \<open>gap\<close> says a run is open at the end.
\<close>

inductive resync :: "media list \<Rightarrow> media list \<Rightarrow> bool \<Rightarrow> bool" where
  start: "resync [] [] False"
| keep: "resync xs ys False \<Longrightarrow> resync (xs @ [x]) (ys @ [x]) False"
| key: "resync xs ys g \<Longrightarrow> is_key k \<Longrightarrow> resync (xs @ [k]) (ys @ [k]) False"
| skip: "resync xs ys g \<Longrightarrow> resync (xs @ [x]) ys True"

lemma resync_cut_one: "resync xs zs g \<Longrightarrow> zs = ys @ [y] \<Longrightarrow> resync xs ys True"
proof (induction arbitrary: ys y rule: resync.induct)
  case start
  then show ?case by simp
next
  case (keep xs ys' x)
  then show ?case using resync.skip [OF keep.hyps] by auto
next
  case (key xs ys' g k)
  then show ?case using resync.skip [OF key.hyps(1)] by auto
next
  case (skip xs ys' g x)
  from skip.IH [OF skip.prems] show ?case by (rule resync.skip)
qed

lemma resync_cut: "resync xs (ys @ zs) g \<Longrightarrow> zs \<noteq> [] \<Longrightarrow> resync xs ys True"
proof (induction zs arbitrary: g rule: rev_induct)
  case (snoc z zs)
  from snoc.prems(1) have t: "resync xs (ys @ zs) True"
    using resync_cut_one [of xs "(ys @ zs) @ [z]"] by auto
  then show ?case using snoc.IH by (cases "zs = []") auto
qed simp

text \<open>
  The invariant of a consumer beside the media offered to it so far.
\<close>

definition consumer_inv :: "consumer \<times> media list \<Rightarrow> bool" where
  "consumer_inv s \<longleftrightarrow>
     (let (c, offered) = s in
      length (cQueue c) \<le> cMax c \<and>
      (if cDetached c then cQueue c = [] \<and> (\<exists>g. resync offered (handed (cLog c)) g)
       else (\<exists>g. resync offered (handed (cLog c) @ cQueue c) g \<and> (g \<longrightarrow> cAwaiting c)) \<and>
         (cAwaiting c \<longrightarrow> cQueue c = []) \<and> (\<not> cPaused c \<longrightarrow> cQueue c = [])))"

definition ghost_step :: "consumer \<times> media list \<Rightarrow> consumer_event \<Rightarrow> consumer \<times> media list" where
  "ghost_step s ev = (c_step (fst s) ev, snd s @ offers (fst s) ev)"

lemma detach_simps [simp]:
  "cQueue (c_detach c) = (if cDetached c then cQueue c else [])" "cDetached (c_detach c)"
  "cLog (c_detach c) = cLog c" "cMax (c_detach c) = cMax c" "cAwaiting (c_detach c) = cAwaiting c"
  "cConfig (c_detach c) = cConfig c"
  by (simp_all add: c_detach_def)

lemma emit_simps [simp]:
  "cLog (c_emit es c) = cLog c @ es" "cMax (c_emit es c) = cMax c" "cAwaiting (c_emit es c) = cAwaiting c"
  "cConfig (c_emit es c) = cConfig c" "cDetached c \<Longrightarrow> cDetached (c_emit es c)"
  by (simp_all add: c_emit_def Let_def split: reaction.split)

lemma emit_queue:
  "\<not> cDetached c \<Longrightarrow> cQueue (c_emit es c) = (if cDetached (c_emit es c) then [] else cQueue c)"
  "\<not> cDetached c \<Longrightarrow> \<not> cDetached (c_emit es c) \<Longrightarrow> cPaused c \<Longrightarrow> cPaused (c_emit es c)"
  by (auto simp: c_emit_def Let_def split: reaction.splits)

lemma flush_simps [simp]:
  "handed (cLog (c_flush m c)) = handed (cLog c) @ [m]" "cMax (c_flush m c) = cMax c"
  "cAwaiting (c_flush m c) = cAwaiting c"
  by (simp_all add: c_flush_def split: media.split)

lemma flush_queue: "\<not> cDetached c \<Longrightarrow> cQueue c = [] \<Longrightarrow> cQueue (c_flush m c) = []"
  by (simp add: c_flush_def emit_queue split: media.split)

text \<open>An attached consumer that is not resynchronising, offered one more item it may take.\<close>

lemma accept_inv:
  assumes "consumer_inv (c, off)" "\<not> cDetached c"
    and "resync (off @ [m]) (handed (cLog c) @ cQueue c @ [m]) False"
  shows "consumer_inv (c_accept m (c\<lparr>cAwaiting := False\<rparr>), off @ [m])"
proof -
  let ?c = "c\<lparr>cAwaiting := False\<rparr>"
  have q: "\<not> cPaused c \<longrightarrow> cQueue c = []"
    using assms(1,2) by (simp add: consumer_inv_def)
  show ?thesis
  proof (cases "cPaused c")
    case False
    then have e: "cQueue c = []" using q by simp
    then have f: "cQueue (c_flush m ?c) = []" using flush_queue [of ?c m] assms(2) by simp
    have "resync (off @ [m]) (handed (cLog (c_flush m ?c))) False" using assms(3) e by simp
    then show ?thesis using e f False by (auto simp: c_accept_def consumer_inv_def)
  next
    case True
    show ?thesis
    proof (cases "cMax c < length (cQueue c @ [m])")
      case over: True
      have "resync (off @ [m]) (handed (cLog c)) True"
        using resync_cut [OF assms(3)] by simp
      then show ?thesis using True over assms(2)
        by (auto simp: c_accept_def dropBacklogPastBound_def consumer_inv_def)
    next
      case False
      then show ?thesis using True assms(2,3)
        by (auto simp: c_accept_def dropBacklogPastBound_def consumer_inv_def)
    qed
  qed
qed

lemma offer_inv:
  assumes "consumer_inv (c, off)"
  shows "consumer_inv (deliverVideo m c, off @ (if cDetached c then [] else [m]))"
proof (cases "cDetached c")
  case True
  then show ?thesis using assms by (simp add: deliverVideo_def)
next
  case False
  then obtain g where g: "resync off (handed (cLog c) @ cQueue c) g" "g \<longrightarrow> cAwaiting c"
    and wq: "cAwaiting c \<longrightarrow> cQueue c = []" "length (cQueue c) \<le> cMax c"
    using assms by (auto simp: consumer_inv_def)
  show ?thesis
  proof (cases "cAwaiting c")
    case wait: True
    then have q: "cQueue c = []" using wq by simp
    show ?thesis
    proof (cases "is_key m")
      case True
      have "resync (off @ [m]) (handed (cLog c) @ cQueue c @ [m]) False"
        using resync.key [OF g(1) True] by simp
      from accept_inv [OF assms False this] show ?thesis
        using False wait True by (simp add: deliverVideo_def)
    next
      case nokey: False
      have "resync (off @ [m]) (handed (cLog c)) True" using resync.skip [OF g(1)] q by simp
      then show ?thesis
        using assms False wait nokey q by (auto simp: deliverVideo_def consumer_inv_def)
    qed
  next
    case nowait: False
    then have "resync off (handed (cLog c) @ cQueue c) False" using g by auto
    from resync.keep [OF this, of m]
    have "resync (off @ [m]) (handed (cLog c) @ cQueue c @ [m]) False" by simp
    note step = accept_inv [OF assms False this]
    have same: "c\<lparr>cAwaiting := False\<rparr> = c" using nowait by (cases c) simp
    show ?thesis using step [unfolded same] nowait False by (simp add: deliverVideo_def)
  qed
qed

text \<open>Audio takes the same route as a video item that is never a keyframe.\<close>

lemma audio_as_video: "deliverAudio a t c = deliverVideo (MAudio a t) c"
  by (simp add: deliverAudio_def deliverVideo_def)

lemma drain_inv:
  assumes "length xs \<le> cMax c" "cQueue c = []" "\<exists>g. resync off (handed (cLog c) @ xs) g \<and> (g \<longrightarrow> cAwaiting c)"
    and "cAwaiting c \<longrightarrow> xs = []"
  shows "consumer_inv (drain xs c, off)"
  using assms
proof (induction xs arbitrary: c)
  case Nil
  then show ?case by (cases "cDetached c") (auto simp: consumer_inv_def)
next
  case (Cons x xs)
  then have aw: "\<not> cAwaiting c" by simp
  then have r: "resync off (handed (cLog c) @ x # xs) False" using Cons.prems(3) by auto
  show ?case
  proof (cases "cDetached c")
    case True
    have "resync off (handed (cLog c)) True" using resync_cut [OF r] by simp
    then show ?thesis using True Cons.prems(2) by (auto simp: consumer_inv_def)
  next
    case attached: False
    show ?thesis
    proof (cases "cPaused c")
      case True
      then show ?thesis
        using attached r aw Cons.prems(1,2)
        by (auto simp: retainUndelivered_def dropBacklogPastBound_def consumer_inv_def)
    next
      case False
      have "consumer_inv (drain xs (c_flush x c), off)"
        using Cons.prems(1) r aw flush_queue [OF attached Cons.prems(2)] by (intro Cons.IH) auto
      then show ?thesis using attached False by simp
    qed
  qed
qed

lemma emit_inv:
  assumes "consumer_inv (c, off)" "handed es = []"
  shows "consumer_inv (c_emit es c, off)"
proof (cases "cDetached c")
  case True
  have "cQueue (c_emit es c) = cQueue c" using True by (simp add: c_emit_def Let_def split: reaction.split)
  then show ?thesis using True assms by (simp add: consumer_inv_def)
next
  case False
  then obtain g where g: "resync off (handed (cLog c) @ cQueue c) g" "g \<longrightarrow> cAwaiting c"
    using assms(1) by (auto simp: consumer_inv_def)
  have d: "\<exists>g. resync off (handed (cLog c)) g"
    using resync_cut [of off "handed (cLog c)" "cQueue c" g] g(1) by (cases "cQueue c = []") auto
  show ?thesis
    using assms False g d emit_queue [OF False, of es]
    by (cases "cDetached (c_emit es c)") (auto simp: consumer_inv_def)
qed

lemma detach_inv: "consumer_inv (c, off) \<Longrightarrow> consumer_inv (c_detach c, off)"
proof (cases "cDetached c")
  case True
  assume "consumer_inv (c, off)"
  then show ?thesis using True by (simp add: c_detach_def)
next
  case False
  assume i: "consumer_inv (c, off)"
  then obtain g where "resync off (handed (cLog c) @ cQueue c) g"
    using False by (auto simp: consumer_inv_def)
  then have "\<exists>g. resync off (handed (cLog c)) g"
    using resync_cut [of off "handed (cLog c)" "cQueue c" g] by (cases "cQueue c = []") auto
  then show ?thesis using False by (auto simp: consumer_inv_def c_detach_def)
qed

lemma micro_inv: "consumer_inv (c\<lparr>cMicro := k\<rparr>, off) = consumer_inv (c, off)"
  by (simp add: consumer_inv_def)

lemma ghost_inv: "consumer_inv s \<Longrightarrow> consumer_inv (ghost_step s ev)"
proof -
  assume i: "consumer_inv s"
  obtain c off where s: "s = (c, off)" by fastforce
  note i' = i [unfolded s]
  show ?thesis
  proof (cases ev)
    case (OfferVideo f t g)
    then show ?thesis using offer_inv [OF i', of "MVideo f t g"] by (simp add: s ghost_step_def)
  next
    case (OfferAudio a t)
    then show ?thesis using offer_inv [OF i', of "MAudio a t"]
      by (simp add: s ghost_step_def audio_as_video)
  next
    case (CPrime f t g)
    then show ?thesis using i' by (simp add: s ghost_step_def c_prime_def consumer_inv_def)
  next
    case CSubscribe
    then show ?thesis using i' by (simp add: s ghost_step_def c_subscribe_def consumer_inv_def)
  next
    case CMicrotask
    then show ?thesis using i' offer_inv [of "c\<lparr>cMicro := None\<rparr>" off]
      by (auto simp: s ghost_step_def c_microtask_def micro_inv split: option.split)
  next
    case CPause
    then show ?thesis using i' by (simp add: s ghost_step_def c_pause_def consumer_inv_def)
  next
    case CResume
    show ?thesis
    proof (cases "cDetached c")
      case True
      then show ?thesis using i' CResume by (simp add: s ghost_step_def c_resume_def)
    next
      case False
      then have "consumer_inv (drain (cQueue c) (c\<lparr>cPaused := False, cQueue := []\<rparr>), off)"
        using i' by (intro drain_inv) (auto simp: consumer_inv_def)
      then show ?thesis using False CResume by (simp add: s ghost_step_def c_resume_def)
    qed
  next
    case CDetach
    then show ?thesis using detach_inv [OF i'] by (simp add: s ghost_step_def)
  qed (use i' emit_inv [OF i'] in \<open>simp_all add: s ghost_step_def c_fail_def c_end_def c_budget_def\<close>)
qed

interpretation live_consumer: stepper ghost_step consumer_inv
  by unfold_locales (rule ghost_inv)

definition consumer_run :: "nat \<Rightarrow> (emission list \<Rightarrow> reaction) \<Rightarrow> bool \<Rightarrow> consumer_event list \<Rightarrow> consumer \<times> media list" where
  "consumer_run maxQueue sink errs evs = foldl ghost_step (new_consumer maxQueue sink errs, []) evs"

lemma consumer_run_inv: "consumer_inv (consumer_run maxQueue sink errs evs)"
  unfolding consumer_run_def
  by (rule live_consumer.inv_run) (auto simp: consumer_inv_def new_consumer_def intro: resync.start)

lemma run_max: "cMax (c_step c ev) = cMax c"
proof -
  have acc: "cMax (c_accept m c) = cMax c" for m c
    by (simp add: c_accept_def dropBacklogPastBound_def)
  have dl: "cMax (deliverVideo m c) = cMax c" for m c
    by (simp add: deliverVideo_def acc)
  have dr: "cMax (drain xs c) = cMax c" for xs c
    by (induction xs arbitrary: c) (simp_all add: retainUndelivered_def dropBacklogPastBound_def)
  show ?thesis
    by (cases ev) (simp_all add: dl dr audio_as_video c_prime_def c_subscribe_def c_microtask_def c_pause_def
        c_resume_def c_fail_def c_end_def c_budget_def split: option.split)
qed

lemma ghost_max: "cMax (fst (foldl ghost_step s evs)) = cMax (fst s)"
  by (induction evs arbitrary: s) (simp_all add: ghost_step_def run_max)

text \<open>
  C7. A slow consumer costs a bound, and loses media only up to a keyframe. Whatever the host's
  listeners do and in whatever order media, pauses and resumes come, the queue never holds more than
  \<open>maxQueue\<close> items, and the media handed to the listeners is the media offered, in order and without
  repetition, with runs left out only where the next item handed on is a keyframe.
\<close>

theorem consumer_bounded_resync:
  "case consumer_run maxQueue sink errs evs of (c, offered) \<Rightarrow>
     length (cQueue c) \<le> maxQueue \<and> (\<exists>gap. resync offered (handed (cLog c)) gap)"
proof -
  obtain c offered where r: "consumer_run maxQueue sink errs evs = (c, offered)" by fastforce
  have i: "consumer_inv (c, offered)" using consumer_run_inv [of maxQueue sink errs evs] r by simp
  have m: "cMax c = maxQueue"
    using ghost_max [of "(new_consumer maxQueue sink errs, [])" evs] r
    by (simp add: consumer_run_def new_consumer_def)
  have "\<exists>gap. resync offered (handed (cLog c)) gap"
  proof (cases "cDetached c")
    case True
    then show ?thesis using i by (simp add: consumer_inv_def)
  next
    case False
    then obtain g where "resync offered (handed (cLog c) @ cQueue c) g"
      using i by (auto simp: consumer_inv_def)
    then show ?thesis
      using resync_cut [of offered "handed (cLog c)" "cQueue c" g] by (cases "cQueue c = []") auto
  qed
  moreover have "length (cQueue c) \<le> maxQueue" using i m by (simp add: consumer_inv_def)
  ultimately show ?thesis by (simp add: r)
qed

section \<open>Configuration announcements\<close>

text \<open>
  A log read left to right with the configuration last announced: an announcement is a change, and
  video comes under the configuration it was coded with.
\<close>

fun announced_ok :: "live_config option \<Rightarrow> emission list \<Rightarrow> bool" where
  "announced_ok cur [] = True"
| "announced_ok cur (EConfig c # es) = (cur \<noteq> Some c \<and> announced_ok (Some c) es)"
| "announced_ok cur (EMedia (MVideo f t c) # es) = (cur = Some c \<and> announced_ok cur es)"
| "announced_ok cur (e # es) = announced_ok cur es"

fun last_config :: "live_config option \<Rightarrow> emission list \<Rightarrow> live_config option" where
  "last_config cur [] = cur"
| "last_config cur (EConfig c # es) = last_config (Some c) es"
| "last_config cur (e # es) = last_config cur es"

lemma announced_append:
  "announced_ok cur (xs @ ys) \<longleftrightarrow> announced_ok cur xs \<and> announced_ok (last_config cur xs) ys"
  by (induction cur xs rule: announced_ok.induct) auto

lemma last_config_append: "last_config cur (xs @ ys) = last_config (last_config cur xs) ys"
  by (induction cur xs rule: last_config.induct) auto

lemma sameConfig_eq: "sameConfig a b \<longleftrightarrow> b = Some a"
  by (cases b) (auto simp: sameConfig_def)

definition config_inv :: "consumer \<Rightarrow> bool" where
  "config_inv c \<longleftrightarrow> announced_ok None (cLog c) \<and> cConfig c = last_config None (cLog c)"

definition quiet :: "emission list \<Rightarrow> bool" where
  "quiet es \<longleftrightarrow> (\<forall>cur. announced_ok cur es \<and> last_config cur es = cur)"

lemma config_emit: "config_inv c \<Longrightarrow> quiet es \<Longrightarrow> config_inv (c_emit es c)"
  by (simp add: config_inv_def announced_append last_config_append quiet_def)

lemma config_flush: "config_inv c \<Longrightarrow> config_inv (c_flush m c)"
  by (cases m)
    (auto simp: config_inv_def c_flush_def sameConfig_eq announced_append last_config_append)

lemma config_update:
  "config_inv (c\<lparr>cQueue := q\<rparr>) = config_inv c" "config_inv (c\<lparr>cQueue := q, cAwaiting := a\<rparr>) = config_inv c"
  "config_inv (c\<lparr>cAwaiting := a\<rparr>) = config_inv c" "config_inv (c\<lparr>cMicro := m\<rparr>) = config_inv c"
  "config_inv (c\<lparr>cPaused := p\<rparr>) = config_inv c" "config_inv (c_detach c) = config_inv c"
  by (simp_all add: config_inv_def)

lemma config_accept: "config_inv c \<Longrightarrow> config_inv (c_accept m c)"
  by (simp add: c_accept_def dropBacklogPastBound_def config_update config_flush)

lemma config_deliver: "config_inv c \<Longrightarrow> config_inv (deliverVideo m c)"
  by (simp add: deliverVideo_def config_accept config_update)

lemma config_drain: "config_inv c \<Longrightarrow> config_inv (drain xs c)"
  by (induction xs arbitrary: c)
    (simp_all add: retainUndelivered_def dropBacklogPastBound_def config_flush config_update)

lemma config_step: "config_inv c \<Longrightarrow> config_inv (c_step c ev)"
proof (cases ev)
  case CMicrotask
  assume "config_inv c"
  then show ?thesis using config_deliver [of "c\<lparr>cMicro := None\<rparr>"] CMicrotask
    by (simp add: c_microtask_def config_update split: option.split)
next
  case CSubscribe
  assume "config_inv c"
  then show ?thesis using CSubscribe by (simp add: c_subscribe_def config_inv_def)
next
  case CResume
  assume "config_inv c"
  then show ?thesis using CResume by (simp add: c_resume_def config_drain config_update)
qed (simp_all add: config_deliver audio_as_video c_prime_def c_pause_def c_fail_def c_end_def c_budget_def
    config_emit quiet_def config_update, simp_all add: config_inv_def)

interpretation live_config: stepper c_step config_inv
  by unfold_locales (rule config_step)

text \<open>
  A consumer never holds video whose configuration it was not told: over any events and any
  listeners, every video item handed on is preceded by an announcement of the configuration it was
  coded under with none other in between, across primed joins and resynchronisations, and no
  announcement repeats the one before it.
\<close>

theorem config_announced:
  "announced_ok None (cLog (foldl c_step (new_consumer maxQueue sink errs) evs))"
proof -
  have "config_inv (new_consumer maxQueue sink errs)" by (simp add: config_inv_def new_consumer_def)
  from live_config.inv_run [OF this, of evs] show ?thesis by (simp add: config_inv_def)
qed

end
