(* ===== verification/Live_Ring.thy ===== *)
theory Live_Ring
  imports Live_Consumer
begin

text \<open>
  \<open>src/transport/p2p/shared-live-source.ts\<close>, the rolling prebuffer: \<open>pushRing\<close>, \<open>windowStart\<close>,
  \<open>bufferedMedia\<close> and \<open>ringBuffer\<close>. Times are milliseconds.
\<close>

section \<open>The operations\<close>

text \<open>\<open>durationMs\<close> of a whole number of milliseconds; \<open>None\<close> is an absent or non-finite duration.\<close>

definition durationMs :: "int option \<Rightarrow> int" where
  "durationMs ms = (case ms of None \<Rightarrow> 0 | Some m \<Rightarrow> if m > 0 then m else 0)"

fun window_loop :: "int \<Rightarrow> nat \<Rightarrow> nat option \<Rightarrow> media list \<Rightarrow> nat option" where
  "window_loop cutoff i start [] = start"
| "window_loop cutoff i start (x # xs) =
     (if \<not> is_key x then window_loop cutoff (i + 1) start xs
      else if media_time x > cutoff \<and> start \<noteq> None then start
      else window_loop cutoff (i + 1) (Some i) xs)"

definition windowStart :: "media list \<Rightarrow> int \<Rightarrow> nat" where
  "windowStart ring cutoff = (case window_loop cutoff 0 None ring of None \<Rightarrow> 0 | Some i \<Rightarrow> i)"

definition pushRing :: "int \<Rightarrow> media list \<Rightarrow> media \<Rightarrow> media list" where
  "pushRing preBufferMs ring item =
     (if preBufferMs \<le> 0 then ring
      else
        (let ring' = ring @ [item];
             start = windowStart ring' (media_time item - preBufferMs)
         in if start > 0 then drop start ring' else ring'))"

definition bufferedMedia :: "int \<Rightarrow> media list \<Rightarrow> int \<Rightarrow> int option \<Rightarrow> media list" where
  "bufferedMedia preBufferMs ring now ms =
     (let requested = min (durationMs ms) preBufferMs
      in if requested \<le> 0 \<or> ring = [] then []
         else
           (let start = windowStart ring (now - requested)
            in if is_key (ring ! start) then drop start ring else []))"

definition ringBuffer :: "int \<Rightarrow> media list \<Rightarrow> int \<Rightarrow> int option \<Rightarrow> live_frame list" where
  "ringBuffer preBufferMs ring now ms =
     List.map_filter (\<lambda>m. case m of MVideo f t c \<Rightarrow> Some f | MAudio a t \<Rightarrow> None)
       (bufferedMedia preBufferMs ring now ms)"

section \<open>The run a drain answers\<close>

text \<open>The loop on suffixes: the run from the candidate found so far, if any.\<close>

fun run_from :: "int \<Rightarrow> media list option \<Rightarrow> media list \<Rightarrow> media list option" where
  "run_from cutoff best [] = best"
| "run_from cutoff best (x # xs) =
     (if \<not> is_key x then run_from cutoff best xs
      else if media_time x > cutoff \<and> best \<noteq> None then best
      else run_from cutoff (Some (x # xs)) xs)"

lemma window_run:
  "ring = pre @ xs \<Longrightarrow> best = map_option (\<lambda>i. drop i ring) start \<Longrightarrow>
    run_from cutoff best xs = map_option (\<lambda>i. drop i ring) (window_loop cutoff (length pre) start xs)"
proof (induction xs arbitrary: pre best start)
  case (Cons x xs)
  have r: "ring = (pre @ [x]) @ xs" using Cons.prems(1) by simp
  from Cons.IH [OF r Cons.prems(2)] Cons.IH [OF r, of "Some (x # xs)" "Some (length pre)"] Cons.prems
  show ?case by auto
qed simp

lemma window_bounds:
  "window_loop cutoff i start xs = Some j \<Longrightarrow>
    start = Some j \<or> (i \<le> j \<and> j < i + length xs \<and> is_key (xs ! (j - i)))"
proof (induction xs arbitrary: i start)
  case (Cons x xs)
  have nth: "(x # xs) ! (j - i) = xs ! (j - (i + 1))" if "i + 1 \<le> j"
    using that by (simp add: nth_Cons')
  show ?case
  proof (cases "is_key x \<and> \<not> (media_time x > cutoff \<and> start \<noteq> None)")
    case True
    then show ?thesis
      using Cons.IH [of "i + 1" "Some i"] Cons.prems nth by auto
  next
    case False
    then show ?thesis
      using Cons.IH [of "i + 1" start] Cons.prems nth by (auto split: if_splits)
  qed
qed simp

lemma run_fresh: "run_from cutoff None ring = map_option (\<lambda>i. drop i ring) (window_loop cutoff 0 None ring)"
  using window_run [of ring "[]" ring None None cutoff] by simp

lemma no_run: "run_from cutoff None xs = None \<Longrightarrow> \<forall>x \<in> set xs. \<not> is_key x"
proof (induction xs)
  case (Cons x xs)
  have some: "run_from cutoff (Some s) ys \<noteq> None" for s ys
    by (induction ys arbitrary: s) auto
  from Cons some [of "x # xs" xs] show ?case by (auto split: if_splits)
qed simp

lemma buffered_run:
  assumes "0 < min (durationMs ms) preBufferMs"
  shows "bufferedMedia preBufferMs ring now ms =
    (case run_from (now - min (durationMs ms) preBufferMs) None ring of None \<Rightarrow> [] | Some s \<Rightarrow> s)"
proof (cases "ring = []")
  case True
  then show ?thesis by (simp add: bufferedMedia_def)
next
  case False
  let ?c = "now - min (durationMs ms) preBufferMs"
  have np: "(min (durationMs ms) preBufferMs \<le> 0) = False" using assms by (simp only: not_le [symmetric] simp_thms)
  show ?thesis
  proof (cases "window_loop ?c 0 None ring")
    case None
    then have "\<not> is_key (ring ! 0)" using no_run [of ?c ring] False by (auto simp: run_fresh)
    then show ?thesis
      using False None by (simp add: bufferedMedia_def windowStart_def run_fresh Let_def np)
  next
    case (Some i)
    then have "is_key (ring ! i)" using window_bounds [OF Some] by simp
    then show ?thesis
      using False Some by (simp add: bufferedMedia_def windowStart_def run_fresh Let_def np)
  qed
qed

lemma push_run:
  assumes "0 < preBufferMs"
  shows "pushRing preBufferMs ring x =
    (case run_from (media_time x - preBufferMs) None (ring @ [x]) of None \<Rightarrow> ring @ [x] | Some s \<Rightarrow> s)"
  using assms
  by (auto simp: pushRing_def windowStart_def run_fresh Let_def split: option.split)

text \<open>A later cutoff finds from the trimmed run what it finds from the whole.\<close>

lemma run_later:
  assumes "c1 \<le> c2" "run_from c1 b xs = Some s" "run_from c1 b xs \<noteq> b" "(b2 = None) = (b = None)"
  shows "run_from c2 b2 (xs @ ys) = run_from c2 None (s @ ys)"
  using assms(2-4)
proof (induction xs arbitrary: b b2)
  case (Cons x xs)
  show ?case
  proof (cases "is_key x \<and> \<not> (media_time x > c1 \<and> b \<noteq> None)")
    case False
    then show ?thesis using Cons.IH [of b b2] Cons.prems by (auto split: if_splits)
  next
    case True
    then have r: "run_from c1 (Some (x # xs)) xs = Some s" using Cons.prems(1) by auto
    have go: "run_from c2 b2 ((x # xs) @ ys) = run_from c2 (Some ((x # xs) @ ys)) (xs @ ys)"
      using True Cons.prems(3) assms(1) by auto
    show ?thesis
    proof (cases "run_from c1 (Some (x # xs)) xs = Some (x # xs)")
      case True
      with r have "s = x # xs" by simp
      then show ?thesis using go \<open>is_key x \<and> _\<close> by simp
    next
      case False
      then show ?thesis unfolding go by (intro Cons.IH [OF r]) simp_all
    qed
  qed
qed simp

lemma trimmed_run:
  assumes "c1 \<le> c2"
  shows "run_from c2 None ((case run_from c1 None xs of None \<Rightarrow> xs | Some s \<Rightarrow> s) @ ys) = run_from c2 None (xs @ ys)"
proof (cases "run_from c1 None xs")
  case (Some s)
  then show ?thesis using run_later [OF assms Some, of None ys] by simp
qed simp

lemma ring_history:
  assumes "0 < preBufferMs"
  shows "sorted (map media_time hist) \<Longrightarrow> (\<forall>m \<in> set hist. media_time m - preBufferMs \<le> c) \<Longrightarrow>
    run_from c None (foldl (pushRing preBufferMs) [] hist @ ys) = run_from c None (hist @ ys)"
proof (induction hist arbitrary: c ys rule: rev_induct)
  case (snoc x hist)
  let ?ring = "foldl (pushRing preBufferMs) [] hist"
  let ?cx = "media_time x - preBufferMs"
  have so: "sorted (map media_time hist)" and le: "\<forall>m \<in> set hist. media_time m \<le> media_time x"
    using snoc.prems(1) by (auto simp: sorted_append)
  have cx: "?cx \<le> c" using snoc.prems(2) by simp
  have "run_from c None (foldl (pushRing preBufferMs) [] (hist @ [x]) @ ys) =
      run_from c None ((?ring @ [x]) @ ys)"
    using trimmed_run [OF cx, of "?ring @ [x]" ys] by (simp add: push_run [OF assms])
  also have "\<dots> = run_from c None (hist @ [x] @ ys)"
    using snoc.IH [OF so, of c "x # ys"] snoc.prems(2) by simp
  finally show ?case by simp
qed simp

text \<open>
  C18. Retention never loses what a drain may ask for. For media that arrived in order of time, a drain
  of the trimmed ring at any later instant, for any duration, hands over exactly what a drain of the
  whole untrimmed history would: the trim drops only media no drain could have begun at or before.
\<close>

theorem ring_retains_window:
  assumes "sorted (map media_time hist)" "\<forall>m \<in> set hist. media_time m \<le> now"
  shows "bufferedMedia preBufferMs (foldl (pushRing preBufferMs) [] hist) now ms = bufferedMedia preBufferMs hist now ms"
proof (cases "0 < min (durationMs ms) preBufferMs")
  case True
  then have pos: "0 < preBufferMs" by simp
  have "\<forall>m \<in> set hist. media_time m - preBufferMs \<le> now - min (durationMs ms) preBufferMs"
    using assms(2) by fastforce
  from ring_history [OF pos assms(1) this, of "[]"] show ?thesis by (simp add: buffered_run [OF True])
next
  case False
  then have "(min (durationMs ms) preBufferMs \<le> 0) = True" by (simp only: not_less simp_thms)
  then show ?thesis by (simp add: bufferedMedia_def Let_def)
qed

definition sample_media :: "bool \<Rightarrow> int \<Rightarrow> media" where
  "sample_media k t = MVideo \<lparr>fKeyframe = k, fWidth = 1, fHeight = 1, fCodec = H264, fData = []\<rparr> t
     \<lparr>cCodec = H264, cWidth = 1, cHeight = 1\<rparr>"

lemma ring_retains_window_witness:
  "bufferedMedia 100 (foldl (pushRing 100) [] [sample_media True 0, sample_media True 50, sample_media False 200])
      220 (Some 150) = [sample_media True 50, sample_media False 200]"
  by (subst ring_retains_window)
    (simp_all add: sample_media_def bufferedMedia_def windowStart_def durationMs_def Let_def)

lemma run_spec_some:
  "sorted (map media_time xs) \<Longrightarrow> run_from cutoff (Some b) xs = Some s \<Longrightarrow>
    s = b \<and> (\<forall>m \<in> set xs. is_key m \<longrightarrow> cutoff < media_time m) \<or>
    (\<exists>pre k post. xs = pre @ k # post \<and> s = k # post \<and> is_key k \<and> media_time k \<le> cutoff \<and>
      (\<forall>m \<in> set post. is_key m \<longrightarrow> cutoff < media_time m))"
proof (induction xs arbitrary: b)
  case (Cons x xs)
  have so: "sorted (map media_time xs)" using Cons.prems(1) by simp
  show ?case
  proof (cases "is_key x")
    case False
    with Cons.prems(2) have "run_from cutoff (Some b) xs = Some s" by simp
    from Cons.IH [OF so this] show ?thesis
    proof
      assume "s = b \<and> (\<forall>m \<in> set xs. is_key m \<longrightarrow> cutoff < media_time m)"
      then show ?thesis using False by simp
    next
      assume "\<exists>pre k post. xs = pre @ k # post \<and> s = k # post \<and> is_key k \<and> media_time k \<le> cutoff \<and>
        (\<forall>m \<in> set post. is_key m \<longrightarrow> cutoff < media_time m)"
      then show ?thesis by (metis append_Cons)
    qed
  next
    case key: True
    show ?thesis
    proof (cases "cutoff < media_time x")
      case True
      then have "\<forall>m \<in> set (x # xs). cutoff < media_time m" using Cons.prems(1) by fastforce
      then show ?thesis using Cons.prems(2) key True by simp
    next
      case False
      with Cons.prems(2) key have "run_from cutoff (Some (x # xs)) xs = Some s" by simp
      from Cons.IH [OF so this] show ?thesis
      proof
        assume "s = x # xs \<and> (\<forall>m \<in> set xs. is_key m \<longrightarrow> cutoff < media_time m)"
        then show ?thesis using key False by (intro disjI2 exI [of _ "[]"] exI [of _ x] exI [of _ xs]) simp
      next
        assume "\<exists>pre k post. xs = pre @ k # post \<and> s = k # post \<and> is_key k \<and> media_time k \<le> cutoff \<and>
          (\<forall>m \<in> set post. is_key m \<longrightarrow> cutoff < media_time m)"
        then show ?thesis by (metis append_Cons)
      qed
    qed
  qed
qed simp

definition window_run_of :: "int \<Rightarrow> media list \<Rightarrow> media list \<Rightarrow> bool" where
  "window_run_of cutoff xs s \<longleftrightarrow>
     (\<exists>pre k post. xs = pre @ k # post \<and> s = k # post \<and> is_key k \<and>
       (if media_time k \<le> cutoff then \<forall>m \<in> set post. is_key m \<longrightarrow> cutoff < media_time m
        else \<forall>m \<in> set pre. \<not> is_key m))"

lemma run_spec:
  "sorted (map media_time xs) \<Longrightarrow> run_from cutoff None xs = Some s \<Longrightarrow> window_run_of cutoff xs s"
proof (induction xs)
  case (Cons x xs)
  have so: "sorted (map media_time xs)" using Cons.prems(1) by simp
  show ?case
  proof (cases "is_key x")
    case False
    with Cons have "window_run_of cutoff xs s" by simp
    then obtain pre k post where w: "xs = pre @ k # post" "s = k # post" "is_key k"
      "if media_time k \<le> cutoff then \<forall>m \<in> set post. is_key m \<longrightarrow> cutoff < media_time m
        else \<forall>m \<in> set pre. \<not> is_key m"
      unfolding window_run_of_def by blast
    show ?thesis
      unfolding window_run_of_def
      by (rule exI [of _ "x # pre"], rule exI [of _ k], rule exI [of _ post]) (use w False in auto)
  next
    case True
    with Cons.prems(2) have "run_from cutoff (Some (x # xs)) xs = Some s" by simp
    from run_spec_some [OF so this] show ?thesis
    proof
      assume "s = x # xs \<and> (\<forall>m \<in> set xs. is_key m \<longrightarrow> cutoff < media_time m)"
      then show ?thesis
        unfolding window_run_of_def
        by (intro exI [of _ "[]"] exI [of _ x] exI [of _ xs]) (use True in auto)
    next
      assume "\<exists>pre k post. xs = pre @ k # post \<and> s = k # post \<and> is_key k \<and> media_time k \<le> cutoff \<and>
        (\<forall>m \<in> set post. is_key m \<longrightarrow> cutoff < media_time m)"
      then obtain pre k post where w: "xs = pre @ k # post" "s = k # post" "is_key k" "media_time k \<le> cutoff"
        "\<forall>m \<in> set post. is_key m \<longrightarrow> cutoff < media_time m" by blast
      show ?thesis
        unfolding window_run_of_def
        by (rule exI [of _ "x # pre"], rule exI [of _ k], rule exI [of _ post]) (use w in auto)
    qed
  qed
qed simp

text \<open>
  A drain is decodable and covers the window: nothing is handed over only where nothing was asked
  for or no keyframe is held; otherwise the run is the rest of the ring from a keyframe, which is the
  last one at or before the window's start or, where none is that old, the oldest one held.
\<close>

theorem drain_decodable:
  assumes "sorted (map media_time ring)" "0 < durationMs ms" "0 < preBufferMs"
  shows "bufferedMedia preBufferMs ring now ms = [] \<and> list_all (\<lambda>m. \<not> is_key m) ring \<or>
    window_run_of (now - min (durationMs ms) preBufferMs) ring (bufferedMedia preBufferMs ring now ms)"
proof -
  have pos: "0 < min (durationMs ms) preBufferMs" using assms(2,3) by simp
  show ?thesis
  proof (cases "run_from (now - min (durationMs ms) preBufferMs) None ring")
    case None
    then show ?thesis using no_run [OF None] by (simp add: buffered_run [OF pos] list_all_iff)
  next
    case (Some s)
    then show ?thesis using run_spec [OF assms(1) Some] by (simp add: buffered_run [OF pos])
  qed
qed

lemma drain_decodable_witness:
  "window_run_of 70 [sample_media True 0, sample_media True 50, sample_media False 200]
     (bufferedMedia 150 [sample_media True 0, sample_media True 50, sample_media False 200] 220 (Some 150))"
  using drain_decodable [of "[sample_media True 0, sample_media True 50, sample_media False 200]" "Some 150" 150 220]
  by (simp add: sample_media_def durationMs_def)

end
