(* ===== verification/Sps_Geometry.thy ===== *)
theory Sps_Geometry
  imports Annexb "HOL-Library.State_Monad"
begin

text \<open>
  \<open>src/transport/p2p/annexb.ts\<close>, the geometry half: the bit reader over a parameter set, its
  exp-Golomb readers, and the H.264 and H.265 sequence parameter sets read up to the picture geometry.
  The reader is the state of a state monad. A number read from the bits is a \<open>nat\<close>; no value exceeds
  \<open>2 ^ 53\<close>, so the JavaScript numbers are exact.
\<close>

section \<open>The bit reader\<close>

definition MAX_CODED_DIMENSION :: int where "MAX_CODED_DIMENSION = 32768"

definition H264_CHROMA_PROFILES :: "nat list" where
  "H264_CHROMA_PROFILES = [100, 110, 122, 244, 44, 83, 86, 118, 128, 138, 139, 134, 135, 144]"

text \<open>\<open>CHROMA_SUBSAMPLING\<close>: width and height per \<open>chroma_format_idc\<close>.\<close>

definition CHROMA_SUBSAMPLING :: "nat \<Rightarrow> (nat \<times> nat) option" where
  "CHROMA_SUBSAMPLING idc =
     (if idc = 0 then Some (1, 1) else if idc = 1 then Some (2, 2) else if idc = 2 then Some (2, 1)
      else if idc = 3 then Some (1, 1) else None)"

record rbsp =
  rbytes :: buffer
  rbit :: nat
  failed :: bool

definition ends_00 :: "buffer \<Rightarrow> bool" where
  "ends_00 out \<longleftrightarrow> 2 \<le> length out \<and> out ! (length out - 1) = 0 \<and> out ! (length out - 2) = 0"

definition unescape_byte :: "buffer \<Rightarrow> byte \<Rightarrow> buffer" where
  "unescape_byte out b = (if b = 3 \<and> ends_00 out then out else out @ [b])"

definition new_reader :: "buffer \<Rightarrow> nat \<Rightarrow> rbsp" where
  "new_reader nal headerBytes =
     \<lparr>rbytes = foldl unescape_byte [] (drop headerBytes nal), rbit = 0, failed = False\<rparr>"

fun u_loop :: "nat \<Rightarrow> nat \<Rightarrow> rbsp \<Rightarrow> nat \<times> rbsp" where
  "u_loop 0 value r = (value, r)"
| "u_loop (Suc n) value r =
     (let index = rbit r div 8 in
      if length (rbytes r) \<le> index then (0, r\<lparr>failed := True\<rparr>)
      else u_loop n (value * 2 + unat (drop_bit (7 - rbit r mod 8) (rbytes r ! index) AND 1))
             (r\<lparr>rbit := rbit r + 1\<rparr>))"

function ue_loop :: "nat \<Rightarrow> rbsp \<Rightarrow> nat \<times> rbsp" where
  "ue_loop zeros r =
     (case u_loop 1 0 r of
        (b, r1) \<Rightarrow>
          if b = 0 then
            (if failed r1 \<or> zeros + 1 > 32 then (0, r1\<lparr>failed := True\<rparr>) else ue_loop (zeros + 1) r1)
          else if zeros = 0 then (0, r1)
          else (case u_loop zeros 0 r1 of (v, r2) \<Rightarrow> (2 ^ zeros - 1 + v, r2)))"
  by pat_completeness auto
termination by (relation "measure (\<lambda>(zeros, r). 33 - zeros)") auto

declare ue_loop.simps [simp del]

type_synonym 'a rd = "(rbsp, 'a) state"

definition u :: "nat \<Rightarrow> nat rd" where
  "u count = State (u_loop count 0)"

definition ue :: "nat rd" where
  "ue = State (ue_loop 0)"

definition se :: "int rd" where
  "se = do {
     coded \<leftarrow> ue;
     State_Monad.return (if coded mod 2 = 0 then - (int coded div 2) else (int coded + 1) div 2)
   }"

text \<open>JavaScript's \<open>%\<close> takes the sign of the dividend.\<close>

definition js_rem :: "int \<Rightarrow> int \<Rightarrow> int" where
  "js_rem a m = (if a < 0 then - ((- a) mod m) else a mod m)"

fun scaling_loop :: "nat \<Rightarrow> int \<Rightarrow> unit rd" where
  "scaling_loop 0 nxt = State_Monad.return ()"
| "scaling_loop (Suc n) nxt =
     (if nxt = 0 then State_Monad.return ()
      else do {
        d \<leftarrow> se;
        r \<leftarrow> State_Monad.get;
        if failed r then State_Monad.return () else scaling_loop n (js_rem (nxt + d + 256) 256)
      })"

definition scalingList :: "nat \<Rightarrow> unit rd" where
  "scalingList coefficients = scaling_loop coefficients 8"

section \<open>The geometry\<close>

record crop_window =
  cropLeft :: nat
  cropRight :: nat
  cropTop :: nat
  cropBottom :: nat

record geometry =
  gWidth :: int
  gHeight :: int
  codedWidth :: int
  codedHeight :: int
  crop :: crop_window

definition cropWindow :: "crop_window rd" where
  "cropWindow = do {
     f \<leftarrow> u 1;
     if f \<noteq> 1 then State_Monad.return \<lparr>cropLeft = 0, cropRight = 0, cropTop = 0, cropBottom = 0\<rparr>
     else do {
       l \<leftarrow> ue; r \<leftarrow> ue; t \<leftarrow> ue; b \<leftarrow> ue;
       State_Monad.return \<lparr>cropLeft = l, cropRight = r, cropTop = t, cropBottom = b\<rparr>
     }
   }"

text \<open>The answer both readers build: the coded size less the window scaled into luma samples.\<close>

definition windowed :: "nat \<Rightarrow> nat \<Rightarrow> nat \<times> nat \<Rightarrow> crop_window \<Rightarrow> geometry" where
  "windowed cw ch sub w =
     (let luma = \<lparr>cropLeft = fst sub * cropLeft w, cropRight = fst sub * cropRight w,
                  cropTop = snd sub * cropTop w, cropBottom = snd sub * cropBottom w\<rparr>
      in \<lparr>gWidth = int cw - int (cropLeft luma) - int (cropRight luma),
          gHeight = int ch - int (cropTop luma) - int (cropBottom luma),
          codedWidth = int cw, codedHeight = int ch, crop = luma\<rparr>)"

fun scaling_matrix :: "nat \<Rightarrow> nat \<Rightarrow> unit rd" where
  "scaling_matrix 0 i = State_Monad.return ()"
| "scaling_matrix (Suc n) i = do {
     f \<leftarrow> u 1;
     (if f = 1 then scalingList (if i < 6 then 16 else 64) else State_Monad.return ());
     scaling_matrix n (i + 1)
   }"

text \<open>The chroma fields: \<open>chromaFormatIdc\<close> and \<open>separateColourPlane\<close>.\<close>

definition h264_chroma :: "nat \<Rightarrow> (nat \<times> bool) rd" where
  "h264_chroma profileIdc =
     (if profileIdc \<in> set H264_CHROMA_PROFILES then do {
        idc \<leftarrow> ue;
        plane \<leftarrow> (if idc = 3 then do { f \<leftarrow> u 1; State_Monad.return (f = 1) } else State_Monad.return False);
        _ \<leftarrow> ue;
        _ \<leftarrow> ue;
        _ \<leftarrow> u 1;
        f \<leftarrow> u 1;
        (if f = 1 then scaling_matrix (if idc \<noteq> 3 then 8 else 12) 0 else State_Monad.return ());
        State_Monad.return (idc, plane)
      } else State_Monad.return (1, False))"

fun cycle_loop :: "nat \<Rightarrow> unit rd" where
  "cycle_loop 0 = State_Monad.return ()"
| "cycle_loop (Suc n) = do {
     r \<leftarrow> State_Monad.get;
     if failed r then State_Monad.return () else do { _ \<leftarrow> se; cycle_loop n }
   }"

definition h264_order_count :: "unit rd" where
  "h264_order_count = do {
     t \<leftarrow> ue;
     if t = 0 then do { _ \<leftarrow> ue; State_Monad.return () }
     else if t = 1 then do {
       _ \<leftarrow> u 1; _ \<leftarrow> se; _ \<leftarrow> se;
       cycle \<leftarrow> ue;
       cycle_loop cycle
     } else State_Monad.return ()
   }"

definition h264_read :: "geometry option rd" where
  "h264_read = do {
     profileIdc \<leftarrow> u 8;
     _ \<leftarrow> u 8;
     _ \<leftarrow> u 8;
     _ \<leftarrow> ue;
     chroma \<leftarrow> h264_chroma profileIdc;
     _ \<leftarrow> ue;
     h264_order_count;
     _ \<leftarrow> ue;
     _ \<leftarrow> u 1;
     w \<leftarrow> ue;
     h \<leftarrow> ue;
     m \<leftarrow> u 1;
     _ \<leftarrow> (if m \<noteq> 1 then u 1 else State_Monad.return 0);
     _ \<leftarrow> u 1;
     window \<leftarrow> cropWindow;
     r \<leftarrow> State_Monad.get;
     State_Monad.return
       (if failed r then None
        else case CHROMA_SUBSAMPLING (if snd chroma then 0 else fst chroma) of
            None \<Rightarrow> None
          | Some sub \<Rightarrow>
              (let fieldFactor = (if m = 1 then 1 else 2)
               in Some (windowed ((w + 1) * 16) (fieldFactor * (h + 1) * 16)
                    (fst sub, snd sub * fieldFactor) window)))
   }"

definition h264Geometry :: "buffer \<Rightarrow> geometry option" where
  "h264Geometry nal = fst (run_state h264_read (new_reader nal 1))"

fun flags_loop :: "nat \<Rightarrow> (bool \<times> bool) list rd" where
  "flags_loop 0 = State_Monad.return []"
| "flags_loop (Suc n) = do {
     p \<leftarrow> u 1;
     l \<leftarrow> u 1;
     rest \<leftarrow> flags_loop n;
     State_Monad.return ((p = 1, l = 1) # rest)
   }"

fun skip_pairs :: "nat \<Rightarrow> unit rd" where
  "skip_pairs 0 = State_Monad.return ()"
| "skip_pairs (Suc n) = do { _ \<leftarrow> u 2; skip_pairs n }"

fun sub_layers_loop :: "(bool \<times> bool) list \<Rightarrow> unit rd" where
  "sub_layers_loop [] = State_Monad.return ()"
| "sub_layers_loop ((p, l) # rest) = do {
     (if p then do { _ \<leftarrow> u 32; _ \<leftarrow> u 32; _ \<leftarrow> u 24; State_Monad.return () } else State_Monad.return ());
     (if l then do { _ \<leftarrow> u 8; State_Monad.return () } else State_Monad.return ());
     sub_layers_loop rest
   }"

definition h265_read :: "geometry option rd" where
  "h265_read = do {
     _ \<leftarrow> u 4;
     maxSubLayersMinus1 \<leftarrow> u 3;
     _ \<leftarrow> u 1;
     _ \<leftarrow> u 32;
     _ \<leftarrow> u 32;
     _ \<leftarrow> u 24;
     _ \<leftarrow> u 8;
     present \<leftarrow> flags_loop maxSubLayersMinus1;
     (if maxSubLayersMinus1 > 0 then skip_pairs (8 - maxSubLayersMinus1) else State_Monad.return ());
     sub_layers_loop present;
     _ \<leftarrow> ue;
     idc \<leftarrow> ue;
     _ \<leftarrow> (if idc = 3 then u 1 else State_Monad.return 0);
     w \<leftarrow> ue;
     h \<leftarrow> ue;
     window \<leftarrow> cropWindow;
     r \<leftarrow> State_Monad.get;
     State_Monad.return
       (if failed r then None
        else map_option (\<lambda>sub. windowed w h sub window) (CHROMA_SUBSAMPLING idc))
   }"

definition h265Geometry :: "buffer \<Rightarrow> geometry option" where
  "h265Geometry nal = fst (run_state h265_read (new_reader nal 2))"

definition codedGeometry :: "param_sets \<Rightarrow> geometry option" where
  "codedGeometry sets =
     (if sps sets = [] then None
      else
        (let nal = last (sps sets)
         in case (case codec sets of H264 \<Rightarrow> h264Geometry nal | H265 \<Rightarrow> h265Geometry nal | AV1 \<Rightarrow> None) of
              None \<Rightarrow> None
            | Some g \<Rightarrow>
                if 0 < gWidth g \<and> 0 < gHeight g \<and> gWidth g \<le> MAX_CODED_DIMENSION
                  \<and> gHeight g \<le> MAX_CODED_DIMENSION then Some g else None))"

section \<open>Bits\<close>

definition byte_bits :: "byte \<Rightarrow> bool list" where
  "byte_bits b = map (\<lambda>k. odd (unat b div 2 ^ (7 - k))) [0 ..< 8]"

definition bits_of :: "buffer \<Rightarrow> bool list" where
  "bits_of bs = concat (map byte_bits bs)"

definition remaining :: "rbsp \<Rightarrow> bool list" where
  "remaining r = drop (rbit r) (bits_of (rbytes r))"

lemma length_byte_bits [simp]: "length (byte_bits b) = 8"
  by (simp add: byte_bits_def)

lemma length_bits_of [simp]: "length (bits_of bs) = 8 * length bs"
  by (induction bs) (simp_all add: bits_of_def)

lemma nth_bits_of:
  "i div 8 < length bs \<Longrightarrow> bits_of bs ! i = odd (unat (bs ! (i div 8)) div 2 ^ (7 - i mod 8))"
proof (induction bs arbitrary: i)
  case (Cons b bs)
  show ?case
  proof (cases "i < 8")
    case True
    then show ?thesis by (simp add: bits_of_def nth_append byte_bits_def)
  next
    case False
    then obtain j where "i = 8 + j" by (metis le_Suc_ex not_less)
    then have d: "i div 8 = Suc ((i - 8) div 8)" "i mod 8 = (i - 8) mod 8" by simp_all
    have "bits_of (b # bs) ! i = bits_of bs ! (i - 8)"
      using False by (simp add: bits_of_def nth_append)
    then show ?thesis using Cons.IH [of "i - 8"] Cons.prems by (simp add: d)
  qed
qed simp

fun bits_value :: "nat \<Rightarrow> bool list \<Rightarrow> nat" where
  "bits_value v [] = v"
| "bits_value v (b # bs) = bits_value (v * 2 + of_bool b) bs"

lemma bit_read: "unat (drop_bit n (w :: byte) AND 1) = of_bool (odd (unat w div 2 ^ n))"
  unfolding unat_byte_and unat_drop_bit_byte by (simp add: mod2_eq_if)

lemma u_loop_bits:
  "remaining r = bs @ rest \<Longrightarrow> length bs = n \<Longrightarrow>
    u_loop n v r = (bits_value v bs, r\<lparr>rbit := rbit r + n\<rparr>)"
proof (induction n arbitrary: v r bs)
  case (Suc n)
  then obtain b bs' where bs: "bs = b # bs'" by (cases bs) auto
  have lt: "rbit r < 8 * length (rbytes r)"
  proof (rule ccontr)
    assume "\<not> ?thesis"
    then have "remaining r = []" by (simp add: remaining_def)
    with Suc.prems(1) bs show False by simp
  qed
  then have idx: "\<not> length (rbytes r) \<le> rbit r div 8" by auto
  have "remaining r = bits_of (rbytes r) ! rbit r # drop (Suc (rbit r)) (bits_of (rbytes r))"
    using lt by (simp add: remaining_def Cons_nth_drop_Suc)
  then have b: "b = bits_of (rbytes r) ! rbit r"
    and rest: "remaining (r\<lparr>rbit := rbit r + 1\<rparr>) = bs' @ rest"
    using Suc.prems(1) bs by (simp_all add: remaining_def)
  have v: "unat (drop_bit (7 - rbit r mod 8) (rbytes r ! (rbit r div 8)) AND 1) = of_bool b"
    unfolding bit_read b using idx by (simp add: nth_bits_of)
  have "u_loop (Suc n) v r = u_loop n (v * 2 + of_bool b) (r\<lparr>rbit := rbit r + 1\<rparr>)"
    unfolding u_loop.simps Let_def v using idx by simp
  then show ?case
    using Suc.IH [OF rest, of "v * 2 + of_bool b"] Suc.prems(2) by (simp add: bs)
qed simp

lemma remaining_advance:
  "remaining r = bs @ rest \<Longrightarrow> remaining (r\<lparr>rbit := rbit r + length bs\<rparr>) = rest"
  by (simp add: remaining_def drop_drop [symmetric] add.commute del: drop_drop)

section \<open>Readers and what they consume\<close>

text \<open>
  \<open>reads_bits m bs x\<close>: on any reader that has not failed and whose remaining bits start with \<open>bs\<close>, \<open>m\<close>
  answers \<open>x\<close>, consumes exactly \<open>bs\<close> and does not fail.
\<close>

definition reads_bits :: "'a rd \<Rightarrow> bool list \<Rightarrow> 'a \<Rightarrow> bool" where
  "reads_bits m bs x \<longleftrightarrow>
     (\<forall>r rest. remaining r = bs @ rest \<longrightarrow> \<not> failed r \<longrightarrow>
        (\<exists>r'. run_state m r = (x, r') \<and> remaining r' = rest \<and> \<not> failed r'))"

lemma reads_return: "reads_bits (State_Monad.return x) [] x"
  by (simp add: reads_bits_def)

lemma reads_bind:
  "reads_bits m bs x \<Longrightarrow> reads_bits (f x) cs y \<Longrightarrow> reads_bits (State_Monad.bind m f) (bs @ cs) y"
  unfolding reads_bits_def by (fastforce simp: case_prod_unfold)

lemma reads_bind_nil:
  "reads_bits m [] x \<Longrightarrow> reads_bits (f x) cs y \<Longrightarrow> reads_bits (State_Monad.bind m f) cs y"
  using reads_bind [of m "[]" x f cs y] by simp

lemma reads_last: "reads_bits m bs x \<Longrightarrow> reads_bits (State_Monad.bind m (\<lambda>x. State_Monad.return (f x))) bs (f x)"
  using reads_bind [of m bs x "\<lambda>x. State_Monad.return (f x)" "[]" "f x"] reads_return [of "f x"] by simp

lemma reads_u: "length bs = n \<Longrightarrow> reads_bits (u n) bs (bits_value 0 bs)"
  using u_loop_bits remaining_advance
  by (fastforce simp: reads_bits_def u_def)

lemma reads_u1: "reads_bits (u 1) [b] (of_bool b)"
  using reads_u [of "[b]" 1] by simp

section \<open>Writing numbers as bits\<close>

fun u_bits :: "nat \<Rightarrow> nat \<Rightarrow> bool list" where
  "u_bits 0 v = []"
| "u_bits (Suc n) v = odd (v div 2 ^ n) # u_bits n v"

lemma length_u_bits [simp]: "length (u_bits n v) = n"
  by (induction n) simp_all

lemma bits_value_u_bits: "bits_value a (u_bits n v) = a * 2 ^ n + v mod 2 ^ n"
proof (induction n arbitrary: a)
  case (Suc n)
  have "v mod 2 ^ Suc n = 2 ^ n * (v div 2 ^ n mod 2) + v mod 2 ^ n"
    using mod_mult2_eq [of v "2 ^ n" 2] by (simp add: mult.commute)
  then show ?case using Suc by (simp add: algebra_simps mod2_eq_if)
qed simp

lemma reads_u_bits: "v < 2 ^ n \<Longrightarrow> reads_bits (u n) (u_bits n v) v"
  using reads_u [of "u_bits n v" n] by (simp add: bits_value_u_bits)

fun flog2 :: "nat \<Rightarrow> nat" where
  "flog2 n = (if n < 2 then 0 else Suc (flog2 (n div 2)))"

declare flog2.simps [simp del]

lemma flog2_bounds: "1 \<le> n \<Longrightarrow> 2 ^ flog2 n \<le> n \<and> n < 2 ^ Suc (flog2 n)"
proof (induction n rule: flog2.induct)
  case (1 n)
  show ?case
  proof (cases "n < 2")
    case True
    then show ?thesis using "1.prems" by (simp add: flog2.simps)
  next
    case False
    with "1.IH" have "2 ^ flog2 (n div 2) \<le> n div 2" "n div 2 < 2 ^ Suc (flog2 (n div 2))" by simp_all
    moreover have "flog2 n = Suc (flog2 (n div 2))" using False by (subst flog2.simps) simp
    moreover have "2 * (n div 2) \<le> n" "n < 2 * (n div 2) + 2" by simp_all
    moreover have "2 * p \<le> n \<and> n < 2 * (2 * p)" if "p \<le> n div 2" "n div 2 < 2 * p" for p
      using that by linarith
    ultimately show ?thesis by (simp only: power_Suc)
  qed
qed

text \<open>The exp-Golomb code words of the standards (H.264 9.1, H.265 9.2).\<close>

definition ue_bits :: "nat \<Rightarrow> bool list" where
  "ue_bits n = (let k = flog2 (n + 1) in replicate k False @ True # u_bits k (n + 1))"

definition se_bits :: "int \<Rightarrow> bool list" where
  "se_bits v = ue_bits (if 0 < v then nat (2 * v - 1) else nat (- 2 * v))"

lemma ue_loop_zeros:
  "remaining r = replicate k False @ True # rest \<Longrightarrow> \<not> failed r \<Longrightarrow> zeros + k \<le> 32 \<Longrightarrow>
    ue_loop zeros r =
      (let r1 = r\<lparr>rbit := rbit r + k + 1\<rparr>; n = zeros + k in
       if n = 0 then (0, r1) else (case u_loop n 0 r1 of (v, r2) \<Rightarrow> (2 ^ n - 1 + v, r2)))"
proof (induction k arbitrary: zeros r)
  case 0
  then have "u_loop 1 0 r = (1, r\<lparr>rbit := rbit r + 1\<rparr>)"
    using u_loop_bits [of r "[True]" rest 1 0] by simp
  then show ?case by (subst ue_loop.simps) simp
next
  case (Suc k)
  then have one: "u_loop 1 0 r = (0, r\<lparr>rbit := rbit r + 1\<rparr>)"
    using u_loop_bits [of r "[False]" "replicate k False @ True # rest" 1 0] by simp
  have "remaining (r\<lparr>rbit := rbit r + 1\<rparr>) = replicate k False @ True # rest"
    using remaining_advance [of r "[False]"] Suc.prems(1) by simp
  from Suc.IH [OF this, of "zeros + 1"] Suc.prems(2,3)
  have "ue_loop (zeros + 1) (r\<lparr>rbit := rbit r + 1\<rparr>) =
      (let r1 = r\<lparr>rbit := rbit r + Suc k + 1\<rparr>; n = zeros + Suc k in
       if n = 0 then (0, r1) else (case u_loop n 0 r1 of (v, r2) \<Rightarrow> (2 ^ n - 1 + v, r2)))"
    by simp
  moreover have "ue_loop zeros r = ue_loop (zeros + 1) (r\<lparr>rbit := rbit r + 1\<rparr>)"
    using one Suc.prems(2,3) by (subst ue_loop.simps) simp
  ultimately show ?case by simp
qed

lemma reads_ue: "n < 2 ^ 32 \<Longrightarrow> reads_bits ue (ue_bits n) n"
proof -
  assume n: "n < 2 ^ 32"
  define k where "k = flog2 (n + 1)"
  have k: "2 ^ k \<le> n + 1" "n + 1 < 2 ^ Suc k" using flog2_bounds [of "n + 1"] by (simp_all add: k_def)
  have "k \<le> 32"
  proof (rule ccontr)
    assume "\<not> k \<le> 32"
    then have "(2 :: nat) ^ 33 \<le> 2 ^ k" by (intro power_increasing) simp_all
    with k(1) n show False by simp
  qed
  show ?thesis
    unfolding reads_bits_def
  proof (intro allI impI)
    fix r rest
    assume r: "remaining r = ue_bits n @ rest" "\<not> failed r"
    then have rem: "remaining r = replicate k False @ True # u_bits k (n + 1) @ rest"
      by (simp add: ue_bits_def k_def Let_def)
    let ?r1 = "r\<lparr>rbit := rbit r + k + 1\<rparr>"
    have rem1: "remaining ?r1 = u_bits k (n + 1) @ rest"
      using remaining_advance [of r "replicate k False @ [True]"] rem by simp
    have v: "u_loop k 0 ?r1 = ((n + 1) mod 2 ^ k, ?r1\<lparr>rbit := rbit ?r1 + k\<rparr>)"
      using u_loop_bits [OF rem1, of k 0] by (simp add: bits_value_u_bits)
    have rem2: "remaining (?r1\<lparr>rbit := rbit ?r1 + k\<rparr>) = rest"
      using remaining_advance [OF rem1] by simp
    have "(n + 1) mod 2 ^ k = n + 1 - 2 ^ k"
      using k by (subst mod_if, subst mod_if) auto
    then have val: "2 ^ k - 1 + (n + 1) mod 2 ^ k = n" using k(1) by simp
    have loop: "ue_loop 0 r = (n, ?r1\<lparr>rbit := rbit ?r1 + k\<rparr>)"
      using ue_loop_zeros [OF rem r(2), of 0] \<open>k \<le> 32\<close> v val k
      by (cases "k = 0") (simp_all add: Let_def)
    show "\<exists>r'. run_state ue r = (n, r') \<and> remaining r' = rest \<and> \<not> failed r'"
      using loop rem2 r(2) by (simp add: ue_def)
  qed
qed

lemma reads_se: "\<bar>v\<bar> < 2 ^ 31 \<Longrightarrow> reads_bits se (se_bits v) v"
proof -
  assume v: "\<bar>v\<bar> < 2 ^ 31"
  let ?n = "if 0 < v then nat (2 * v - 1) else nat (- 2 * v)"
  have "?n < 2 ^ 32" using v by auto
  then have r: "reads_bits ue (se_bits v) ?n" unfolding se_bits_def by (rule reads_ue)
  have "(if ?n mod 2 = 0 then - (int ?n div 2) else (int ?n + 1) div 2) = v"
    by (cases "0 < v") (auto simp: nat_mod_distrib even_nat_iff mod2_eq_if)
  with reads_last [OF r, of "\<lambda>coded. if coded mod 2 = 0 then - (int coded div 2) else (int coded + 1) div 2"]
  show ?thesis by (simp only: se_def)
qed

lemma reads_get:
  "(\<And>r. \<not> failed r \<Longrightarrow> g r = x) \<Longrightarrow>
    reads_bits (State_Monad.bind State_Monad.get (\<lambda>r. State_Monad.return (g r))) [] x"
  by (simp add: reads_bits_def State_Monad.get_def)

section \<open>Sequence parameter sets as the standards write them\<close>

fun crop_bits :: "crop_window option \<Rightarrow> bool list" where
  "crop_bits None = [False]"
| "crop_bits (Some w) = [True] @ ue_bits (cropLeft w) @ ue_bits (cropRight w) @ ue_bits (cropTop w)
     @ ue_bits (cropBottom w)"

definition no_crop :: crop_window where
  "no_crop = \<lparr>cropLeft = 0, cropRight = 0, cropTop = 0, cropBottom = 0\<rparr>"

fun crop_of :: "crop_window option \<Rightarrow> crop_window" where
  "crop_of None = no_crop"
| "crop_of (Some w) = w"

fun crop_ok :: "crop_window option \<Rightarrow> bool" where
  "crop_ok None = True"
| "crop_ok (Some w) = (cropLeft w < 2 ^ 32 \<and> cropRight w < 2 ^ 32 \<and> cropTop w < 2 ^ 32 \<and> cropBottom w < 2 ^ 32)"

lemma reads_crop: "crop_ok w \<Longrightarrow> reads_bits cropWindow (crop_bits w) (crop_of w)"
proof (cases w)
  case None
  have "reads_bits cropWindow ([False] @ []) no_crop"
    unfolding cropWindow_def by (rule reads_bind [OF reads_u1]) (simp add: reads_return no_crop_def)
  then show ?thesis by (simp add: None)
next
  case (Some x)
  assume "crop_ok w"
  then have ok: "cropLeft x < 2 ^ 32" "cropRight x < 2 ^ 32" "cropTop x < 2 ^ 32" "cropBottom x < 2 ^ 32"
    by (simp_all add: Some)
  have "reads_bits cropWindow ([True] @ ue_bits (cropLeft x) @ ue_bits (cropRight x) @ ue_bits (cropTop x)
     @ ue_bits (cropBottom x) @ []) x"
    unfolding cropWindow_def
    apply (rule reads_bind [OF reads_u1])
    apply (simp only: of_bool_eq simp_thms if_False)
    apply (rule reads_bind [OF reads_ue [OF ok(1)]] reads_bind [OF reads_ue [OF ok(2)]]
        reads_bind [OF reads_ue [OF ok(3)]] reads_bind [OF reads_ue [OF ok(4)]])+
    apply (cases x, simp add: reads_return)
    done
  then show ?thesis by (simp add: Some)
qed

datatype order_count =
    Order0 nat
  | Order1 bool int int "int list"
  | Order2

fun order_bits :: "order_count \<Rightarrow> bool list" where
  "order_bits (Order0 n) = ue_bits 0 @ ue_bits n"
| "order_bits (Order1 b x y zs) = ue_bits 1 @ [b] @ se_bits x @ se_bits y @ ue_bits (length zs)
     @ concat (map se_bits zs)"
| "order_bits Order2 = ue_bits 2"

fun order_ok :: "order_count \<Rightarrow> bool" where
  "order_ok (Order0 n) = (n < 2 ^ 32)"
| "order_ok (Order1 b x y zs) = (\<bar>x\<bar> < 2 ^ 31 \<and> \<bar>y\<bar> < 2 ^ 31 \<and> length zs < 2 ^ 32 \<and>
     list_all (\<lambda>z. \<bar>z\<bar> < 2 ^ 31) zs)"
| "order_ok Order2 = True"

lemma reads_get_bind:
  "(\<And>r. \<not> failed r \<Longrightarrow> f r = m) \<Longrightarrow> reads_bits m bs x \<Longrightarrow>
    reads_bits (State_Monad.bind State_Monad.get f) bs x"
  by (simp add: reads_bits_def State_Monad.get_def)

lemma reads_cycle:
  "list_all (\<lambda>z. \<bar>z\<bar> < 2 ^ 31) zs \<Longrightarrow> reads_bits (cycle_loop (length zs)) (concat (map se_bits zs)) ()"
proof (induction zs)
  case Nil
  then show ?case by (simp add: reads_return)
next
  case (Cons z zs)
  then have "reads_bits (do { _ \<leftarrow> se; cycle_loop (length zs) }) (se_bits z @ concat (map se_bits zs)) ()"
    by (intro reads_bind [OF reads_se]) simp_all
  then show ?case
    by (simp add: reads_get_bind [where m = "do { _ \<leftarrow> se; cycle_loop (length zs) }"])
qed

lemma reads_order: "order_ok p \<Longrightarrow> reads_bits h264_order_count (order_bits p) ()"
proof (cases p)
  case (Order0 n)
  assume "order_ok p"
  then have n: "n < 2 ^ 32" by (simp add: Order0)
  show ?thesis
    unfolding h264_order_count_def Order0 order_bits.simps
    by (rule reads_bind [OF reads_ue]) (use reads_last [OF reads_ue [OF n], of "\<lambda>_. ()"] in simp_all)
next
  case (Order1 b x y zs)
  assume "order_ok p"
  then have ok: "\<bar>x\<bar> < 2 ^ 31" "\<bar>y\<bar> < 2 ^ 31" "length zs < 2 ^ 32" "list_all (\<lambda>z. \<bar>z\<bar> < 2 ^ 31) zs"
    by (simp_all add: Order1)
  have "reads_bits (do { _ \<leftarrow> u 1; _ \<leftarrow> se; _ \<leftarrow> se; cycle \<leftarrow> ue; cycle_loop cycle })
      ([b] @ se_bits x @ se_bits y @ ue_bits (length zs) @ concat (map se_bits zs)) ()"
    by (rule reads_bind [OF reads_u1] reads_bind [OF reads_se [OF ok(1)]] reads_bind [OF reads_se [OF ok(2)]]
        reads_bind [OF reads_ue [OF ok(3)]] reads_cycle [OF ok(4)])+
  then show ?thesis
    unfolding h264_order_count_def Order1 order_bits.simps
    by (intro reads_bind [OF reads_ue]) simp_all
next
  case Order2
  show ?thesis
    unfolding h264_order_count_def Order2 order_bits.simps
    using reads_bind [OF reads_ue [of 2], of _ "[]" "()"] reads_return [of "()"] by simp
qed

record h264_syntax =
  hProfile :: nat
  hConstraints :: nat
  hLevel :: nat
  hId :: nat
  hChroma :: nat
  hPlane :: bool
  hDepthLuma :: nat
  hDepthChroma :: nat
  hBypass :: bool
  hFrameNum :: nat
  hOrder :: order_count
  hRefs :: nat
  hGaps :: bool
  hWidthMbs :: nat
  hHeightUnits :: nat
  hMbsOnly :: bool
  hAdaptive :: bool
  hDirect :: bool
  hCrop :: "crop_window option"

definition chroma_bits :: "h264_syntax \<Rightarrow> bool list" where
  "chroma_bits s =
     (if hProfile s \<in> set H264_CHROMA_PROFILES then
        ue_bits (hChroma s) @ (if hChroma s = 3 then [hPlane s] else []) @ ue_bits (hDepthLuma s)
        @ ue_bits (hDepthChroma s) @ [hBypass s] @ [False]
      else [])"

definition h264_bits :: "h264_syntax \<Rightarrow> bool list" where
  "h264_bits s =
     u_bits 8 (hProfile s) @ u_bits 8 (hConstraints s) @ u_bits 8 (hLevel s) @ ue_bits (hId s)
     @ chroma_bits s @ ue_bits (hFrameNum s) @ order_bits (hOrder s) @ ue_bits (hRefs s) @ [hGaps s]
     @ ue_bits (hWidthMbs s - 1) @ ue_bits (hHeightUnits s - 1) @ [hMbsOnly s]
     @ (if hMbsOnly s then [] else [hAdaptive s]) @ [hDirect s] @ crop_bits (hCrop s) @ []"

text \<open>
  The syntax elements in their ranges. The chroma profiles carry no scaling matrix here: its flag is
  written as absent.
\<close>

definition h264_ok :: "h264_syntax \<Rightarrow> bool" where
  "h264_ok s \<longleftrightarrow> hProfile s < 256 \<and> hConstraints s < 256 \<and> hLevel s < 256 \<and> hId s < 2 ^ 32 \<and>
     hChroma s \<le> 3 \<and> hDepthLuma s < 2 ^ 32 \<and> hDepthChroma s < 2 ^ 32 \<and> hFrameNum s < 2 ^ 32 \<and>
     order_ok (hOrder s) \<and> hRefs s < 2 ^ 32 \<and> 1 \<le> hWidthMbs s \<and> hWidthMbs s \<le> 2 ^ 32 \<and>
     1 \<le> hHeightUnits s \<and> hHeightUnits s \<le> 2 ^ 32 \<and> crop_ok (hCrop s)"

definition h264_sub :: "h264_syntax \<Rightarrow> nat \<times> nat" where
  "h264_sub s =
     (if hProfile s \<in> set H264_CHROMA_PROFILES then
        (if hChroma s = 1 then (2, 2) else if hChroma s = 2 then (2, 1) else (1, 1))
      else (2, 2))"

text \<open>What the standard says the picture is (H.264 7.4.2.1.1).\<close>

definition h264_picture :: "h264_syntax \<Rightarrow> geometry" where
  "h264_picture s =
     (let f = (if hMbsOnly s then 1 else 2)
      in windowed (16 * hWidthMbs s) (16 * f * hHeightUnits s) (fst (h264_sub s), snd (h264_sub s) * f)
           (crop_of (hCrop s)))"

lemma reads_chroma:
  assumes "h264_ok s"
  shows "reads_bits (h264_chroma (hProfile s)) (chroma_bits s)
    (if hProfile s \<in> set H264_CHROMA_PROFILES then (hChroma s, hChroma s = 3 \<and> hPlane s) else (1, False))"
proof (cases "hProfile s \<in> set H264_CHROMA_PROFILES")
  case False
  then show ?thesis by (simp add: h264_chroma_def chroma_bits_def reads_return)
next
  case True
  have c: "hChroma s < 2 ^ 32" and d: "hDepthLuma s < 2 ^ 32" "hDepthChroma s < 2 ^ 32"
    using assms by (simp_all add: h264_ok_def)
  have plane: "reads_bits (if hChroma s = 3 then do { f \<leftarrow> u 1; State_Monad.return (f = 1) }
      else State_Monad.return False) (if hChroma s = 3 then [hPlane s] else []) (hChroma s = 3 \<and> hPlane s)"
  proof (cases "hChroma s = 3")
    case True
    show ?thesis using reads_last [OF reads_u1 [of "hPlane s"], of "\<lambda>f. f = 1"] True
      by (cases "hPlane s") simp_all
  next
    case False
    then show ?thesis by (simp add: reads_return)
  qed
  have none: "reads_bits (if of_bool False = (1 :: nat) then scaling_matrix n 0 else State_Monad.return ()) [] ()" for n
    by (simp add: reads_return)
  have "reads_bits (h264_chroma (hProfile s)) (ue_bits (hChroma s) @ (if hChroma s = 3 then [hPlane s] else [])
      @ ue_bits (hDepthLuma s) @ ue_bits (hDepthChroma s) @ [hBypass s] @ [False] @ [] @ [])
      (hChroma s, hChroma s = 3 \<and> hPlane s)"
    unfolding h264_chroma_def if_P [OF True]
    by (rule reads_bind [OF reads_ue [OF c]] reads_bind [OF plane] reads_bind [OF reads_ue [OF d(1)]]
        reads_bind [OF reads_ue [OF d(2)]] reads_bind [OF reads_u1] reads_bind [OF none] reads_return)+
  then show ?thesis using True by (simp add: chroma_bits_def)
qed

lemma reads_h264:
  assumes "h264_ok s" "hPlane s \<longrightarrow> hChroma s = 3"
  shows "reads_bits h264_read (h264_bits s) (Some (h264_picture s))"
proof -
  have b: "hProfile s < 2 ^ 8" "hConstraints s < 2 ^ 8" "hLevel s < 2 ^ 8" "hId s < 2 ^ 32"
    "hFrameNum s < 2 ^ 32" "hRefs s < 2 ^ 32" "hWidthMbs s - 1 < 2 ^ 32" "hHeightUnits s - 1 < 2 ^ 32"
    and o: "order_ok (hOrder s)" and w: "crop_ok (hCrop s)"
    and pos: "hWidthMbs s - 1 + 1 = hWidthMbs s" "hHeightUnits s - 1 + 1 = hHeightUnits s"
    using assms(1) by (auto simp: h264_ok_def)
  let ?m = "of_bool (hMbsOnly s) :: nat"
  let ?chroma = "if hProfile s \<in> set H264_CHROMA_PROFILES then (hChroma s, hChroma s = 3 \<and> hPlane s) else (1, False)"
  have adaptive: "reads_bits (if ?m \<noteq> 1 then u 1 else State_Monad.return 0)
      (if hMbsOnly s then [] else [hAdaptive s]) (if hMbsOnly s then 0 else of_bool (hAdaptive s))"
    using reads_u1 [of "hAdaptive s"] reads_return [of 0] by (cases "hMbsOnly s") simp_all
  have sub: "CHROMA_SUBSAMPLING (if snd ?chroma then 0 else fst ?chroma) = Some (h264_sub s)"
    using assms(1) by (auto simp: CHROMA_SUBSAMPLING_def h264_sub_def h264_ok_def)
  have picture: "(let fieldFactor = (if ?m = 1 then 1 else 2)
       in Some (windowed ((hWidthMbs s - 1 + 1) * 16) (fieldFactor * (hHeightUnits s - 1 + 1) * 16)
            (fst (h264_sub s), snd (h264_sub s) * fieldFactor) (crop_of (hCrop s)))) = Some (h264_picture s)"
    unfolding pos by (simp add: h264_picture_def Let_def mult.commute mult.left_commute)
  show ?thesis
    unfolding h264_read_def h264_bits_def
    apply (rule reads_bind [OF reads_u_bits [OF b(1)]] reads_bind [OF reads_u_bits [OF b(2)]]
        reads_bind [OF reads_u_bits [OF b(3)]] reads_bind [OF reads_ue [OF b(4)]]
        reads_bind [OF reads_chroma [OF assms(1)]] reads_bind [OF reads_ue [OF b(5)]]
        reads_bind [OF reads_order [OF o]] reads_bind [OF reads_ue [OF b(6)]] reads_bind [OF reads_u1 [of "hGaps s"]]
        reads_bind [OF reads_ue [OF b(7)]] reads_bind [OF reads_ue [OF b(8)]]
        reads_bind [OF reads_u1 [of "hMbsOnly s"]] reads_bind [OF adaptive]
        reads_bind [OF reads_u1 [of "hDirect s"]] reads_bind [OF reads_crop [OF w]])+
    apply (rule reads_get)
    apply (simp only: if_False sub option.case picture)
    done
qed

section \<open>Emulation prevention\<close>

text \<open>The writer's side (H.264 7.4.1): a \<open>3\<close> ahead of a byte up to 3 that follows two zeros.\<close>

fun escape :: "nat \<Rightarrow> buffer \<Rightarrow> buffer" where
  "escape z [] = []"
| "escape z (b # bs) =
     (if 2 \<le> z \<and> unat b \<le> 3 then 3 # b # escape (if b = 0 then 1 else 0) bs
      else b # escape (if b = 0 then z + 1 else 0) bs)"

fun no_003 :: "buffer \<Rightarrow> bool" where
  "no_003 (a # b # c # r) = (\<not> (a = 0 \<and> b = 0 \<and> c = 3) \<and> no_003 (b # c # r))"
| "no_003 _ = True"

lemma no_003_tail: "no_003 (x @ y) \<Longrightarrow> no_003 y"
proof (induction x)
  case (Cons a x)
  have "no_003 (x @ y)" using Cons.prems by (cases "x @ y"; cases "tl (x @ y)") auto
  then show ?case by (rule Cons.IH)
qed simp

lemma ends_00_split: "ends_00 out \<longleftrightarrow> (\<exists>pre. out = pre @ [0, 0])"
proof
  assume e: "ends_00 out"
  then obtain pre a b where "out = pre @ [a, b]"
    unfolding ends_00_def by (metis append_butlast_last_id append_assoc append_Cons append_Nil
        length_0_conv length_Cons length_append_singleton less_eq_nat.simps(1) not_less_eq_eq numeral_2_eq_2)
  with e show "\<exists>pre. out = pre @ [0, 0]" by (simp add: ends_00_def nth_append)
qed (auto simp: ends_00_def nth_append)

lemma unescape_plain: "no_003 (out @ b # rest) \<Longrightarrow> unescape_byte out b = out @ [b]"
  using no_003_tail [of _ "0 # 0 # b # rest"] by (fastforce simp: unescape_byte_def ends_00_split)

lemma unescape_escape_gen:
  assumes "no_003 (out @ bs)" "2 \<le> z \<Longrightarrow> ends_00 out" "z = 1 \<Longrightarrow> out \<noteq> [] \<and> last out = 0"
  shows "foldl unescape_byte out (escape z bs) = out @ bs"
  using assms
proof (induction bs arbitrary: z out)
  case (Cons b bs)
  have app: "unescape_byte out b = out @ [b]" by (rule unescape_plain [OF Cons.prems(1)])
  have keep: "no_003 ((out @ [b]) @ bs)" using Cons.prems(1) by simp
  show ?case
  proof (cases "2 \<le> z \<and> unat b \<le> 3")
    case True
    then have "unescape_byte out 3 = out" using Cons.prems(2) by (simp add: unescape_byte_def)
    moreover have "foldl unescape_byte (out @ [b]) (escape (if b = 0 then 1 else 0) bs) = (out @ [b]) @ bs"
      by (rule Cons.IH [OF keep]) (simp_all split: if_splits)
    ultimately show ?thesis using True app by simp
  next
    case False
    have "foldl unescape_byte (out @ [b]) (escape (if b = 0 then z + 1 else 0) bs) = (out @ [b]) @ bs"
    proof (rule Cons.IH [OF keep])
      assume "2 \<le> (if b = 0 then z + 1 else 0)"
      then have b0: "b = 0" and z: "1 \<le> z" by (simp_all split: if_splits)
      show "ends_00 (out @ [b])"
      proof (cases "z = 1")
        case True
        then obtain pre where "out = pre @ [0]" using Cons.prems(3) by (metis append_butlast_last_id)
        then show ?thesis by (auto simp: ends_00_split b0)
      next
        case False
        then obtain pre where "out = pre @ [0, 0]" using Cons.prems(2) z by (auto simp: ends_00_split)
        then have "out @ [b] = (pre @ [0]) @ [0, 0]" by (simp add: b0)
        then show ?thesis unfolding ends_00_split by blast
      qed
    qed (simp_all split: if_splits)
    moreover have "escape z (b # bs) = b # escape (if b = 0 then z + 1 else 0) bs"
      using False by (simp only: escape.simps if_False)
    ultimately show ?thesis using app by simp
  qed
qed simp

lemma unescape_escape: "no_003 bs \<Longrightarrow> foldl unescape_byte [] (escape 0 bs) = bs"
  using unescape_escape_gen [of "[]" bs 0] by simp

text \<open>
  Where the payload itself has a \<open>3\<close> after two zeros the reader drops one byte too many: it looks at
  the last two bytes it kept, and those are still zero after the emulation-prevention byte, so the
  payload's own \<open>3\<close> is taken for another one.
\<close>

lemma unescape_drops_payload:
  "escape 0 [0, 0, 3, 9] = [0, 0, 3, 3, 9] \<and> foldl unescape_byte [] (escape 0 [0, 0, 3, 9]) = [0, 0, 9]"
  by (simp add: unescape_byte_def ends_00_def)

section \<open>The geometry read is the geometry written\<close>

lemma read_fresh:
  assumes "reads_bits m bs x" "no_003 rb" "bits_of rb = bs @ rest"
  shows "fst (run_state m (new_reader (hdr @ escape 0 rb) (length hdr))) = x"
proof -
  have "remaining (new_reader (hdr @ escape 0 rb) (length hdr)) = bs @ rest"
    using assms(2,3) by (simp add: remaining_def new_reader_def unescape_escape)
  moreover have "\<not> failed (new_reader (hdr @ escape 0 rb) (length hdr))"
    by (simp add: new_reader_def)
  ultimately show ?thesis using assms(1) unfolding reads_bits_def by fastforce
qed

definition plausible :: "geometry \<Rightarrow> bool" where
  "plausible g \<longleftrightarrow> 0 < gWidth g \<and> gWidth g \<le> 32768 \<and> 0 < gHeight g \<and> gHeight g \<le> 32768"

text \<open>
  C29. The H.264 geometry is the one the encoder declared: for a sequence parameter set in the standard's
  syntax, of any profile, picture-order-count type, macroblock size, field coding and crop, without scaling
  matrices and with no 00 00 03 in its payload, serialised with emulation prevention behind its NAL header as
  the last SPS of the sets, the answer is the picture the standard derives from those fields, unless that is
  empty or beyond 32768, which is refused. A payload with 00 00 03 is left out because the code reads it wrongly
  (\<open>unescape_drops_payload\<close>).
\<close>

theorem h264_geometry_roundtrip:
  assumes "h264_ok s" "hPlane s \<longrightarrow> hChroma s = 3"
    and "bits_of rb = h264_bits s @ rest" "no_003 rb"
    and "codec sets = H264" "sps sets = earlier @ [hdr # escape 0 rb]"
  shows "codedGeometry sets = (if plausible (h264_picture s) then Some (h264_picture s) else None)"
proof -
  have "h264Geometry (hdr # escape 0 rb) = Some (h264_picture s)"
    using read_fresh [OF reads_h264 [OF assms(1,2)] assms(4,3), of "[hdr]"]
    by (simp add: h264Geometry_def)
  then show ?thesis
    using assms(5,6) by (simp add: codedGeometry_def plausible_def MAX_CODED_DIMENSION_def)
qed

definition sample_syntax :: h264_syntax where
  "sample_syntax =
     \<lparr>hProfile = 66, hConstraints = 0, hLevel = 40, hId = 0, hChroma = 0, hPlane = False,
      hDepthLuma = 0, hDepthChroma = 0, hBypass = False, hFrameNum = 0, hOrder = Order2, hRefs = 1,
      hGaps = False, hWidthMbs = 120, hHeightUnits = 68, hMbsOnly = True, hAdaptive = False,
      hDirect = True, hCrop = Some \<lparr>cropLeft = 0, cropRight = 0, cropTop = 0, cropBottom = 4\<rparr>\<rparr>"

lemma u_bits_numeral:
  "u_bits (numeral n) v = odd (v div 2 ^ pred_numeral n) # u_bits (pred_numeral n) v"
  by (simp add: numeral_eq_Suc)

lemma sample_bits:
  "bits_of [0x42, 0x0, 0x28, 0xda, 0x1, 0xe0, 0x8, 0x9f, 0x96] =
    h264_bits sample_syntax @ [True, False]"
  by (simp add: bits_of_def byte_bits_def h264_bits_def sample_syntax_def chroma_bits_def
      H264_CHROMA_PROFILES_def ue_bits_def flog2.simps upt_conv_Cons u_bits_numeral Let_def)

lemma h264_geometry_roundtrip_witness:
  "codedGeometry \<lparr>codec = H264,
      sps = [[0x67], 0x67 # escape 0 [0x42, 0, 0x28, 0xda, 0x01, 0xe0, 0x08, 0x9f, 0x96]],
      pps = [], vps = []\<rparr> =
    Some \<lparr>gWidth = 1920, gHeight = 1080, codedWidth = 1920, codedHeight = 1088,
      crop = \<lparr>cropLeft = 0, cropRight = 0, cropTop = 0, cropBottom = 8\<rparr>\<rparr>"
proof -
  have p: "h264_picture sample_syntax =
      \<lparr>gWidth = 1920, gHeight = 1080, codedWidth = 1920, codedHeight = 1088,
       crop = \<lparr>cropLeft = 0, cropRight = 0, cropTop = 0, cropBottom = 8\<rparr>\<rparr>"
    by (simp add: h264_picture_def sample_syntax_def windowed_def h264_sub_def H264_CHROMA_PROFILES_def Let_def)
  have "h264_ok sample_syntax" "hPlane sample_syntax \<longrightarrow> hChroma sample_syntax = 3"
    by (simp_all add: h264_ok_def sample_syntax_def)
  from h264_geometry_roundtrip [OF this sample_bits, where earlier = "[[0x67]]" and hdr = "0x67"
      and sets = "\<lparr>codec = H264,
        sps = [[0x67], 0x67 # escape 0 [0x42, 0, 0x28, 0xda, 0x01, 0xe0, 0x08, 0x9f, 0x96]], pps = [], vps = []\<rparr>"]
  show ?thesis by (simp add: p plausible_def)
qed

section \<open>H.265\<close>

text \<open>A sub-layer: its 88 profile bits and its 8 level bits, where signalled.\<close>

type_synonym sub_layer = "bool list option \<times> bool list option"

record h265_syntax =
  vHead :: nat
  vNesting :: bool
  vGeneral :: "bool list"
  vLayers :: "sub_layer list"
  vReserved :: "bool list"
  vId :: nat
  vChroma :: nat
  vPlane :: bool
  vWidth :: nat
  vHeight :: nat
  vWindow :: "crop_window option"

fun layer_flags :: "sub_layer list \<Rightarrow> bool list" where
  "layer_flags [] = []"
| "layer_flags ((p, l) # rest) = [p \<noteq> None] @ [l \<noteq> None] @ layer_flags rest"

fun layer_bits :: "sub_layer list \<Rightarrow> bool list" where
  "layer_bits [] = []"
| "layer_bits ((p, l) # rest) =
     (case p of None \<Rightarrow> [] | Some bs \<Rightarrow> bs) @ (case l of None \<Rightarrow> [] | Some bs \<Rightarrow> bs) @ layer_bits rest"

definition layer_ok :: "sub_layer \<Rightarrow> bool" where
  "layer_ok s \<longleftrightarrow> (case fst s of None \<Rightarrow> True | Some bs \<Rightarrow> length bs = 88) \<and>
     (case snd s of None \<Rightarrow> True | Some bs \<Rightarrow> length bs = 8)"

definition layer_present :: "sub_layer \<Rightarrow> bool \<times> bool" where
  "layer_present s = (fst s \<noteq> None, snd s \<noteq> None)"

definition h265_bits :: "h265_syntax \<Rightarrow> bool list" where
  "h265_bits s =
     u_bits 4 (vHead s) @ u_bits 3 (length (vLayers s)) @ [vNesting s] @ take 32 (vGeneral s)
     @ take 32 (drop 32 (vGeneral s)) @ take 24 (drop 64 (vGeneral s)) @ drop 88 (vGeneral s)
     @ layer_flags (vLayers s) @ (if vLayers s = [] then [] else vReserved s) @ layer_bits (vLayers s)
     @ ue_bits (vId s) @ ue_bits (vChroma s) @ (if vChroma s = 3 then [vPlane s] else [])
     @ ue_bits (vWidth s) @ ue_bits (vHeight s) @ crop_bits (vWindow s) @ []"

definition h265_ok :: "h265_syntax \<Rightarrow> bool" where
  "h265_ok s \<longleftrightarrow> vHead s < 16 \<and> length (vGeneral s) = 96 \<and> length (vLayers s) < 8 \<and>
     list_all layer_ok (vLayers s) \<and> length (vReserved s) = 2 * (8 - length (vLayers s)) \<and>
     vId s < 2 ^ 32 \<and> vChroma s \<le> 3 \<and> vWidth s < 2 ^ 32 \<and> vHeight s < 2 ^ 32 \<and> crop_ok (vWindow s)"

definition h265_picture :: "h265_syntax \<Rightarrow> geometry" where
  "h265_picture s = windowed (vWidth s) (vHeight s)
     (if vChroma s = 1 then (2, 2) else if vChroma s = 2 then (2, 1) else (1, 1)) (crop_of (vWindow s))"

lemma reads_flag: "reads_bits (u 1) [b] (if b then 1 else 0)"
  using reads_u1 [of b] by (simp add: of_bool_def)

lemma reads_flags: "reads_bits (flags_loop (length ls)) (layer_flags ls) (map layer_present ls)"
proof (induction ls)
  case Nil
  then show ?case by (simp add: reads_return)
next
  case (Cons l ls)
  obtain p q where l: "l = (p, q)" by fastforce
  have "reads_bits (flags_loop (length (l # ls))) ([p \<noteq> None] @ [q \<noteq> None] @ layer_flags ls @ [])
      (((if p \<noteq> None then 1 else 0 :: nat) = 1, (if q \<noteq> None then 1 else 0 :: nat) = 1) # map layer_present ls)"
    unfolding list.size add_Suc_right add_0_right flags_loop.simps
    by (rule reads_bind [OF reads_flag] reads_bind [OF Cons.IH] reads_return)+
  moreover have "layer_present l = ((if p \<noteq> None then 1 else 0 :: nat) = 1, (if q \<noteq> None then 1 else 0 :: nat) = 1)"
    by (simp add: layer_present_def l)
  ultimately show ?case by (simp only: l list.map layer_flags.simps append_Nil2)
qed

lemma reads_pairs: "length bs = 2 * n \<Longrightarrow> reads_bits (skip_pairs n) bs ()"
proof (induction n arbitrary: bs)
  case (Suc n)
  have "reads_bits (skip_pairs (Suc n)) (take 2 bs @ drop 2 bs) ()"
    unfolding skip_pairs.simps
    by (rule reads_bind [OF reads_u]) (simp_all add: Suc.prems Suc.IH)
  then show ?case by simp
qed (simp add: reads_return)

lemma reads_layers: "list_all layer_ok ls \<Longrightarrow> reads_bits (sub_layers_loop (map layer_present ls)) (layer_bits ls) ()"
proof (induction ls)
  case Nil
  then show ?case by (simp add: reads_return)
next
  case (Cons l ls)
  obtain p q where l: "l = (p, q)" by fastforce
  have ih: "reads_bits (sub_layers_loop (map layer_present ls)) (layer_bits ls) ()"
    using Cons by simp
  have p: "reads_bits (if p \<noteq> None then do { _ \<leftarrow> u 32; _ \<leftarrow> u 32; _ \<leftarrow> u 24; State_Monad.return () }
      else State_Monad.return ()) (case p of None \<Rightarrow> [] | Some bs \<Rightarrow> bs) ()"
  proof (cases p)
    case None
    then show ?thesis by (simp add: reads_return)
  next
    case (Some bs)
    then have n: "length bs = 88" using Cons.prems by (simp add: l layer_ok_def)
    have k: "length (take 32 bs) = 32" "length (take 32 (drop 32 bs)) = 32" "length (drop 64 bs) = 24"
      by (simp_all add: n)
    have "reads_bits (do { _ \<leftarrow> u 32; _ \<leftarrow> u 32; _ \<leftarrow> u 24; State_Monad.return () })
        (take 32 bs @ take 32 (drop 32 bs) @ drop 64 bs @ []) ()"
      by (rule reads_bind [OF reads_u [OF k(1)]] reads_bind [OF reads_u [OF k(2)]]
          reads_bind [OF reads_u [OF k(3)]] reads_return)+
    moreover have "take 32 bs @ take 32 (drop 32 bs) @ drop 64 bs = bs"
      using append_take_drop_id [of 32 bs] append_take_drop_id [of 32 "drop 32 bs"] by simp
    ultimately show ?thesis by (simp add: Some)
  qed
  have q: "reads_bits (if q \<noteq> None then do { _ \<leftarrow> u 8; State_Monad.return () }
      else State_Monad.return ()) (case q of None \<Rightarrow> [] | Some bs \<Rightarrow> bs) ()"
  proof (cases q)
    case None
    then show ?thesis by (simp add: reads_return)
  next
    case (Some bs)
    then have n: "length bs = 8" using Cons.prems by (simp add: l layer_ok_def)
    show ?thesis using reads_last [OF reads_u [OF n], of "\<lambda>_. ()"] by (simp add: Some)
  qed
  show ?case
    unfolding l list.map layer_present_def fst_conv snd_conv sub_layers_loop.simps layer_bits.simps
    by (rule reads_bind [OF p] reads_bind [OF q] ih [unfolded layer_present_def])+
qed

lemma reads_h265:
  assumes "h265_ok s"
  shows "reads_bits h265_read (h265_bits s) (Some (h265_picture s))"
proof -
  let ?g = "vGeneral s" and ?n = "length (vLayers s)"
  have b: "vHead s < 2 ^ 4" "?n < 2 ^ 3" "vId s < 2 ^ 32" "vChroma s < 2 ^ 32" "vWidth s < 2 ^ 32"
    "vHeight s < 2 ^ 32" and w: "crop_ok (vWindow s)" and ls: "list_all layer_ok (vLayers s)"
    using assms by (simp_all add: h265_ok_def)
  have g: "length (take 32 ?g) = 32" "length (take 32 (drop 32 ?g)) = 32"
    "length (take 24 (drop 64 ?g)) = 24" "length (drop 88 ?g) = 8"
    using assms by (simp_all add: h265_ok_def)
  have pairs: "reads_bits (if ?n > 0 then skip_pairs (8 - ?n) else State_Monad.return ())
      (if vLayers s = [] then [] else vReserved s) ()"
    using reads_pairs [of "vReserved s" "8 - ?n"] reads_return [of "()"] assms
    by (simp add: h265_ok_def)
  have plane: "reads_bits (if vChroma s = 3 then u 1 else State_Monad.return 0)
      (if vChroma s = 3 then [vPlane s] else []) (if vChroma s = 3 then of_bool (vPlane s) else 0)"
    using reads_u1 [of "vPlane s"] reads_return [of "0 :: nat"] by simp
  have picture: "map_option (\<lambda>sub. windowed (vWidth s) (vHeight s) sub (crop_of (vWindow s)))
      (CHROMA_SUBSAMPLING (vChroma s)) = Some (h265_picture s)"
    using assms by (auto simp: CHROMA_SUBSAMPLING_def h265_picture_def h265_ok_def)
  show ?thesis
    unfolding h265_read_def h265_bits_def
    apply (rule reads_bind [OF reads_u_bits [OF b(1)]] reads_bind [OF reads_u_bits [OF b(2)]]
        reads_bind [OF reads_u1 [of "vNesting s"]] reads_bind [OF reads_u [OF g(1)]]
        reads_bind [OF reads_u [OF g(2)]] reads_bind [OF reads_u [OF g(3)]] reads_bind [OF reads_u [OF g(4)]]
        reads_bind [OF reads_flags] reads_bind [OF pairs] reads_bind [OF reads_layers [OF ls]]
        reads_bind [OF reads_ue [OF b(3)]] reads_bind [OF reads_ue [OF b(4)]] reads_bind [OF plane]
        reads_bind [OF reads_ue [OF b(5)]] reads_bind [OF reads_ue [OF b(6)]] reads_bind [OF reads_crop [OF w]])+
    apply (rule reads_get)
    apply (simp only: if_False picture)
    done
qed

text \<open>
  The H.265 geometry is the one the encoder declared: for any sequence parameter set in the
  standard's syntax, with any number of sub-layers, each with or without its profile and level records,
  the reader reaches the luma dimensions and the conformance window and answers the picture they give,
  unless that is empty or beyond 32768.
\<close>

theorem h265_geometry_roundtrip:
  assumes "h265_ok s" "bits_of rb = h265_bits s @ rest" "no_003 rb"
    and "codec sets = H265" "sps sets = earlier @ [[h0, h1] @ escape 0 rb]"
  shows "codedGeometry sets = (if plausible (h265_picture s) then Some (h265_picture s) else None)"
proof -
  have "h265Geometry ([h0, h1] @ escape 0 rb) = Some (h265_picture s)"
    using read_fresh [OF reads_h265 [OF assms(1)] assms(3,2), of "[h0, h1]"]
    by (simp add: h265Geometry_def numeral_2_eq_2)
  then show ?thesis
    using assms(4,5) by (simp add: codedGeometry_def plausible_def MAX_CODED_DIMENSION_def)
qed

definition answers :: "'a rd \<Rightarrow> ('a \<Rightarrow> bool) \<Rightarrow> bool" where
  "answers m P \<longleftrightarrow> (\<forall>r. P (fst (run_state m r)))"

lemma answers_bind: "(\<And>x. answers (f x) P) \<Longrightarrow> answers (State_Monad.bind m f) P"
  by (simp add: answers_def case_prod_unfold)

lemma answers_return: "P x \<Longrightarrow> answers (State_Monad.return x) P"
  by (simp add: answers_def)

definition is_windowed :: "geometry \<Rightarrow> bool" where
  "is_windowed g \<longleftrightarrow> (\<exists>cw ch sub w. g = windowed cw ch sub w)"

lemma is_windowed_windowed [simp]: "is_windowed (windowed cw ch sub w)"
  unfolding is_windowed_def by blast

lemma answers_h264: "answers h264_read (\<lambda>x. \<forall>g. x = Some g \<longrightarrow> is_windowed g)"
  unfolding h264_read_def
  by (rule answers_bind answers_return)+ (auto simp: Let_def split: if_splits option.splits)

lemma answers_h265: "answers h265_read (\<lambda>x. \<forall>g. x = Some g \<longrightarrow> is_windowed g)"
  unfolding h265_read_def
  by (rule answers_bind answers_return)+ auto

text \<open>
  Whatever the bytes of the parameter sets are, an answer is a picture a decoder can be sized for:
  both display dimensions lie between 1 and 32768, the coded size is the display size plus the crop
  window, hence never smaller than it, and AV1 has no answer.
\<close>

theorem geometry_plausible:
  assumes "codedGeometry sets = Some g"
  shows "plausible g \<and> codec sets \<noteq> AV1 \<and>
    codedWidth g = gWidth g + int (cropLeft (crop g)) + int (cropRight (crop g)) \<and>
    codedHeight g = gHeight g + int (cropTop (crop g)) + int (cropBottom (crop g))"
proof -
  have w: "is_windowed g"
    if "h264Geometry nal = Some g \<or> h265Geometry nal = Some g" for nal
    using that answers_h264 answers_h265
    by (fastforce simp: h264Geometry_def h265Geometry_def answers_def)
  have "plausible g" "codec sets \<noteq> AV1" "h264Geometry (last (sps sets)) = Some g \<or> h265Geometry (last (sps sets)) = Some g"
    using assms
    by (cases "codec sets"; auto simp: codedGeometry_def plausible_def MAX_CODED_DIMENSION_def Let_def
        split: option.splits if_splits)+
  with w [of "last (sps sets)"] show ?thesis
    by (auto simp: is_windowed_def windowed_def Let_def)
qed

definition sample_syntax5 :: h265_syntax where
  "sample_syntax5 =
     \<lparr>vHead = 0, vNesting = True, vGeneral = replicate 96 True, vLayers = [],
      vReserved = replicate 16 False, vId = 0, vChroma = 1, vPlane = False, vWidth = 1920, vHeight = 1088,
      vWindow = Some \<lparr>cropLeft = 0, cropRight = 0, cropTop = 0, cropBottom = 4\<rparr>\<rparr>"

definition sample_rbsp5 :: buffer where
  "sample_rbsp5 = [0x1, 0xff, 0xff, 0xff, 0xff, 0xff, 0xff, 0xff, 0xff, 0xff, 0xff, 0xff, 0xff, 0xa0, 0x3, 0xc0, 0x80, 0x11, 0x7, 0xcb]"

lemma replicate_num: "replicate (numeral n) x = x # replicate (pred_numeral n) x"
  by (simp add: numeral_eq_Suc)

lemma sample_bits5: "bits_of sample_rbsp5 = h265_bits sample_syntax5 @ [True]"
  by (simp add: sample_rbsp5_def bits_of_def byte_bits_def h265_bits_def sample_syntax5_def ue_bits_def
      flog2.simps upt_conv_Cons u_bits_numeral Let_def replicate_num)

lemma h265_geometry_roundtrip_witness:
  "codedGeometry \<lparr>codec = H265, sps = [[0x42, 1] @ escape 0 sample_rbsp5], pps = [], vps = []\<rparr> =
    Some \<lparr>gWidth = 1920, gHeight = 1080, codedWidth = 1920, codedHeight = 1088,
      crop = \<lparr>cropLeft = 0, cropRight = 0, cropTop = 0, cropBottom = 8\<rparr>\<rparr>"
proof -
  have p: "h265_picture sample_syntax5 =
      \<lparr>gWidth = 1920, gHeight = 1080, codedWidth = 1920, codedHeight = 1088,
       crop = \<lparr>cropLeft = 0, cropRight = 0, cropTop = 0, cropBottom = 8\<rparr>\<rparr>"
    by (simp add: h265_picture_def sample_syntax5_def windowed_def Let_def)
  have "h265_ok sample_syntax5" by (simp add: h265_ok_def sample_syntax5_def)
  moreover have "no_003 sample_rbsp5" by (simp add: sample_rbsp5_def)
  ultimately show ?thesis
    using h265_geometry_roundtrip [OF _ sample_bits5, where earlier = "[]" and ?h0.0 = "0x42" and ?h1.0 = 1
        and sets = "\<lparr>codec = H265, sps = [[0x42, 1] @ escape 0 sample_rbsp5], pps = [], vps = []\<rparr>"]
    by (simp add: p plausible_def)
qed

lemma geometry_plausible_witness:
  "\<exists>g. codedGeometry \<lparr>codec = H265, sps = [[0x42, 1] @ escape 0 sample_rbsp5], pps = [], vps = []\<rparr> = Some g
    \<and> plausible g \<and> codedHeight g = gHeight g + int (cropTop (crop g)) + int (cropBottom (crop g))"
proof -
  have p: "plausible (h265_picture sample_syntax5)"
    by (simp add: h265_picture_def sample_syntax5_def windowed_def Let_def plausible_def)
  have "h265_ok sample_syntax5" by (simp add: h265_ok_def sample_syntax5_def)
  moreover have "no_003 sample_rbsp5" by (simp add: sample_rbsp5_def)
  ultimately have "h265Geometry ([0x42, 1] @ escape 0 sample_rbsp5) = Some (h265_picture sample_syntax5)"
    using read_fresh [OF reads_h265 [of sample_syntax5] _ sample_bits5, of "[0x42, 1]"]
    by (simp add: h265Geometry_def numeral_2_eq_2)
  then have "codedGeometry \<lparr>codec = H265, sps = [[0x42, 1] @ escape 0 sample_rbsp5], pps = [], vps = []\<rparr> =
      Some (h265_picture sample_syntax5)"
    using p by (simp add: codedGeometry_def plausible_def MAX_CODED_DIMENSION_def)
  with geometry_plausible [OF this] show ?thesis by blast
qed

end
