(* ===== verification/Live_Source.thy ===== *)
theory Live_Source
  imports Live_Ring Sps_Geometry
begin

text \<open>
  \<open>src/transport/p2p/shared-live-source.ts\<close>, class \<open>SharedLiveSource\<close>: one upstream pull fanned out to
  its consumers, with its lifecycle, its warm-up and reuse watches, its linger and its battery budget.
  A timer is the flag that it is pending; its firing is an event, as is everything the upstream, the
  host and the owner do. What the source asks of its owner is the list of effects. A stream that was
  stopped emits nothing more. Listeners of a consumer may detach it, and do not throw: where one does, the code
  tears down as here, in a \<open>finally\<close>, and lets the exception through.
\<close>

section \<open>State\<close>

datatype live_state = Idle | Warming | Live | Lingering | Stopped

datatype effect = OnActive | OnIdle | OnStartFailed | OnSessionUnreachable | StreamOpened | StreamStopped
  | Nudge bool

record live_options =
  oMaxQueue :: nat
  oPreBufferMs :: int
  oBattery :: bool
  oHasNudge :: bool
  oReplaces :: bool

record source =
  sStream :: bool
  sConsumers :: "(nat \<times> consumer) list"
  sLeft :: "(nat \<times> consumer) list"
  sNextId :: nat
  sLinger :: bool
  sState :: live_state
  sDisposed :: bool
  sGotKey :: bool
  sGotVideo :: bool
  sGotAudio :: bool
  sLastKeyframe :: "media option"
  sLastParamSets :: "param_sets option"
  sDeclared :: "geometry option"
  sConfiguredFrom :: "param_sets option"
  sRing :: "media list"
  sRetry :: bool
  sAsked :: bool
  sReuseWatch :: bool
  sFruitless :: nat
  sDeadline :: bool
  sAttempts :: nat
  sBudget :: bool
  sGrace :: bool
  sOwnerDisposes :: bool
  sEffects :: "effect list"

definition new_source :: source where
  "new_source =
     \<lparr>sStream = False, sConsumers = [], sLeft = [], sNextId = 0, sLinger = False, sState = Idle,
      sDisposed = False, sGotKey = False, sGotVideo = False, sGotAudio = False, sLastKeyframe = None,
      sLastParamSets = None, sDeclared = None, sConfiguredFrom = None, sRing = [], sRetry = False,
      sAsked = False, sReuseWatch = False, sFruitless = 0, sDeadline = False, sAttempts = 0,
      sBudget = False, sGrace = False, sOwnerDisposes = False, sEffects = []\<rparr>"

definition effect :: "effect \<Rightarrow> source \<Rightarrow> source" where
  "effect e s = s\<lparr>sEffects := sEffects s @ [e]\<rparr>"

section \<open>Watches, budget, teardown\<close>

definition clearWarmWatch :: "source \<Rightarrow> source" where
  "clearWarmWatch s = s\<lparr>sRetry := False, sDeadline := False\<rparr>"

definition clearBudget :: "source \<Rightarrow> source" where
  "clearBudget s = s\<lparr>sBudget := False, sGrace := False\<rparr>"

definition armBudget :: "source \<Rightarrow> source" where
  "armBudget s = (clearBudget s)\<lparr>sBudget := True\<rparr>"

definition armWarmWatch :: "source \<Rightarrow> source" where
  "armWarmWatch s = s\<lparr>sDeadline := True, sRetry := True\<rparr>"

definition settleReuseWatch :: "source \<Rightarrow> source" where
  "settleReuseWatch s =
     (if \<not> sReuseWatch s then s
      else clearWarmWatch (s\<lparr>sReuseWatch := False,
             sState := (if sState s = Warming then Live else sState s)\<rparr>))"

text \<open>Stopping the stream emits its \<open>stop\<close>, which finds no stream and does nothing.\<close>

definition teardown :: "live_state \<Rightarrow> bool \<Rightarrow> source \<Rightarrow> source" where
  "teardown st report s =
     (let startFailed = (sStream s \<and> \<not> sGotKey s);
          s1 = (clearBudget (clearWarmWatch (s\<lparr>sStream := False\<rparr>)))\<lparr>sLinger := False\<rparr>;
          s2 = (if sStream s then effect StreamStopped s1 else s1);
          s3 = s2\<lparr>sLastKeyframe := None, sLastParamSets := None, sDeclared := None,
                 sConfiguredFrom := None, sRing := [], sState := st\<rparr>
      in if startFailed \<and> report then effect OnStartFailed s3 else s3)"

section \<open>Leaving and fanning out\<close>

definition arm :: "source \<Rightarrow> source" where
  "arm s = s\<lparr>sState := Lingering, sLinger := True\<rparr>"

text \<open>
  The owner is told at once, before the linger timer is armed, and what it does may come back to the source:
  where the station's close waited for this consumer, the owner disposes of the source within the call.
  \<open>sOwnerDisposes\<close> is whether it will; the registry, which is that owner, sets it from the state of its
  manager. What \<open>dispose\<close> does of a source without consumers is \<open>disposed_idle\<close>.
\<close>

definition disposed_idle :: "source \<Rightarrow> source" where
  "disposed_idle s = teardown Stopped False (s\<lparr>sDisposed := True\<rparr>)"

definition onDetach :: "nat \<Rightarrow> consumer \<Rightarrow> source \<Rightarrow> source" where
  "onDetach i c s =
     (let s1 = s\<lparr>sConsumers := filter (\<lambda>p. fst p \<noteq> i) (sConsumers s), sLeft := sLeft s @ [(i, c)]\<rparr>
      in if sConsumers s1 = [] \<and> \<not> sDisposed s1 then
           (let s2 = effect OnIdle s1 in arm (if sOwnerDisposes s2 then disposed_idle s2 else s2))
         else s1)"

text \<open>
  One consumer is reached with \<open>f\<close>; where its listeners detach it, the source hears of it there and
  then. A consumer no longer attached is not reached.
\<close>

definition visit :: "(consumer \<Rightarrow> consumer) \<Rightarrow> source \<Rightarrow> nat \<Rightarrow> source" where
  "visit f s i =
     (case map_of (sConsumers s) i of
        None \<Rightarrow> s
      | Some c \<Rightarrow>
          (let c' = f c in
           if cDetached c' then onDetach i c' s
           else s\<lparr>sConsumers := map (\<lambda>p. if fst p = i then (i, c') else p) (sConsumers s)\<rparr>))"

definition each_consumer :: "(consumer \<Rightarrow> consumer) \<Rightarrow> source \<Rightarrow> source" where
  "each_consumer f s = foldl (visit f) s (map fst (sConsumers s))"

definition startFailure :: "start_reason \<Rightarrow> source \<Rightarrow> live_error" where
  "startFailure reason s =
     StartFailure reason
       (if sGotVideo s then AwaitingKeyframe else if sGotAudio s then AudioOnly else AwaitingFirstFrame)
       (sAttempts s)"

section \<open>Warming\<close>

definition openStream :: "source \<Rightarrow> source" where
  "openStream s = effect StreamOpened (s\<lparr>sStream := True\<rparr>)"

definition warm :: "source \<Rightarrow> source" where
  "warm s =
     armWarmWatch (openStream
       (s\<lparr>sState := Warming, sAsked := False, sReuseWatch := False, sFruitless := 0, sGotKey := False,
          sGotVideo := False, sGotAudio := False, sAttempts := 1\<rparr>))"

definition watchReusedStream :: "live_options \<Rightarrow> source \<Rightarrow> source" where
  "watchReusedStream opts s =
     (if sDeadline s \<or> sRetry s then s
      else
        (let s1 = armWarmWatch (s\<lparr>sGotKey := False, sGotVideo := False, sGotAudio := False,
                    sFruitless := 0, sReuseWatch := True, sAttempts := 0\<rparr>)
         in if sStream s1 \<and> oHasNudge opts then effect (Nudge False) (s1\<lparr>sAttempts := sAttempts s1 + 1\<rparr>)
            else s1))"

definition onStartUnacknowledged :: "live_options \<Rightarrow> source \<Rightarrow> source" where
  "onStartUnacknowledged opts s =
     (if sDisposed s \<or> sAsked s then s
      else if sGotVideo s \<or> sGotAudio s \<or> sGotKey s then s
      else if \<not> oReplaces opts then s
      else effect OnSessionUnreachable (s\<lparr>sAsked := True, sRetry := False\<rparr>))"

definition rewarm :: "source \<Rightarrow> source" where
  "rewarm s =
     (if sDisposed s \<or> \<not> sAsked s \<or> sState s \<noteq> Warming then s
      else
        (let s1 = (if sStream s then effect StreamStopped (s\<lparr>sStream := False\<rparr>) else s);
             s2 = openStream (s1\<lparr>sFruitless := 0\<rparr>)
         in s2\<lparr>sAttempts := sAttempts s2 + 1, sRetry := True\<rparr>))"

definition reissueStart :: "live_options \<Rightarrow> source \<Rightarrow> source" where
  "reissueStart opts s =
     (if \<not> sStream s \<or> \<not> oHasNudge opts then s
      else
        (let arrived = (sGotVideo s \<or> sGotAudio s);
             fruitless = (if arrived then 0 else sFruitless s + 1)
         in effect (Nudge (\<not> arrived \<and> fruitless > 1))
              (s\<lparr>sAttempts := sAttempts s + 1, sFruitless := fruitless\<rparr>)))"

definition attachConsumer ::
  "live_options \<Rightarrow> bool \<Rightarrow> (emission list \<Rightarrow> reaction) \<Rightarrow> bool \<Rightarrow> source \<Rightarrow> js_error + source" where
  "attachConsumer opts prime sink errorListener s =
     (if sDisposed s then Inl (UserError ''SharedLiveSource is disposed'')
      else
        (let i = sNextId s;
             wasEmpty = (sConsumers s = []);
             s1 = s\<lparr>sConsumers := sConsumers s @ [(i, new_consumer (oMaxQueue opts) sink errorListener)],
                    sNextId := i + 1\<rparr>;
             s2 = (if wasEmpty then effect OnActive s1 else s1);
             s3 = (if sLinger s2 then
                     s2\<lparr>sLinger := False,
                        sState := (if sState s2 = Lingering then
                                     (if sLastKeyframe s2 \<noteq> None then Live else Warming) else sState s2)\<rparr>
                   else s2);
             s4 = (if \<not> sStream s3 then warm s3 else watchReusedStream opts s3)
         in Inr (case sLastKeyframe s4 of
                   None \<Rightarrow> s4
                 | Some k \<Rightarrow> if prime then visit (c_prime k) s4 i else s4)))"

text \<open>\<open>attachWithPrebuffer\<close>: the joining consumer is not primed, and the drain is taken at once.\<close>

definition attachWithPrebuffer ::
  "live_options \<Rightarrow> (emission list \<Rightarrow> reaction) \<Rightarrow> bool \<Rightarrow> int \<Rightarrow> int option \<Rightarrow> source \<Rightarrow>
    js_error + source \<times> media list" where
  "attachWithPrebuffer opts sink errorListener now ms s =
     res_bind (attachConsumer opts False sink errorListener s) (\<lambda>s'.
       Inr (s', bufferedMedia (oPreBufferMs opts) (sRing s') now ms))"

section \<open>Upstream\<close>

text \<open>\<open>configOf\<close>, with the geometry cache it refreshes.\<close>

definition refresh_geometry :: "source \<Rightarrow> source" where
  "refresh_geometry s =
     (if sLastParamSets s \<noteq> sConfiguredFrom s then
        s\<lparr>sConfiguredFrom := sLastParamSets s,
          sDeclared := (case sLastParamSets s of None \<Rightarrow> None | Some ps \<Rightarrow> codedGeometry ps)\<rparr>
      else s)"

definition configOf :: "live_frame \<Rightarrow> source \<Rightarrow> live_config" where
  "configOf frame s =
     (case (sDeclared s, sLastParamSets s) of
        (Some g, Some ps) \<Rightarrow> \<lparr>cCodec = codec ps, cWidth = gWidth g, cHeight = gHeight g\<rparr>
      | _ \<Rightarrow> \<lparr>cCodec = fCodec frame, cWidth = fWidth frame, cHeight = fHeight frame\<rparr>)"

definition onVideo :: "live_options \<Rightarrow> live_frame \<Rightarrow> int \<Rightarrow> source \<Rightarrow> source" where
  "onVideo opts frame now s =
     (let s1 = settleReuseWatch (s\<lparr>sGotVideo := True, sFruitless := 0\<rparr>);
          s2 = refresh_geometry (s1\<lparr>sLastParamSets := updatedParamSets (fData frame) (sLastParamSets s1)\<rparr>);
          item = MVideo frame now (configOf frame s2);
          s3 = (if fKeyframe frame then
                  (let wasWarming = (sRetry s2 \<or> sDeadline s2);
                       k = s2\<lparr>sLastKeyframe := Some item, sGotKey := True,
                             sState := (if sState s2 = Warming then Live else sState s2)\<rparr>
                   in if wasWarming then
                        (if oBattery opts then armBudget (clearWarmWatch k) else clearWarmWatch k)
                      else k)
                else s2);
          s4 = s3\<lparr>sRing := pushRing (oPreBufferMs opts) (sRing s3) item\<rparr>
      in each_consumer (deliverVideo item) s4)"

definition onAudio :: "live_options \<Rightarrow> audio_frame \<Rightarrow> int \<Rightarrow> source \<Rightarrow> source" where
  "onAudio opts frame now s =
     (let s1 = settleReuseWatch (s\<lparr>sGotAudio := True, sFruitless := 0\<rparr>);
          s2 = s1\<lparr>sRing := pushRing (oPreBufferMs opts) (sRing s1) (MAudio frame now)\<rparr>
      in each_consumer (deliverAudio frame now) s2)"

definition onUpstreamEnd :: "source \<Rightarrow> source" where
  "onUpstreamEnd s =
     (if sDisposed s \<or> \<not> sStream s then s
      else
        (let s1 = (if \<not> sGotKey s then each_consumer (c_fail (startFailure SourceEnded s)) s else s)
         in teardown Stopped True (each_consumer c_end s1)))"

definition onUpstreamError :: "source \<Rightarrow> source" where
  "onUpstreamError s =
     (if sDisposed s then s
      else
        (let err = (if sGotKey s then Upstream else startFailure SourceError s)
         in teardown Stopped True (each_consumer (c_fail err) s)))"

definition onWarmTimeout :: "source \<Rightarrow> source" where
  "onWarmTimeout s =
     (if sDisposed s \<or> \<not> sStream s then s
      else teardown Stopped True (each_consumer (c_fail (startFailure WarmTimeout s)) s))"

definition onBudgetExpire :: "source \<Rightarrow> source" where
  "onBudgetExpire s =
     (if sDisposed s \<or> \<not> sStream s then s else each_consumer c_budget (s\<lparr>sGrace := True\<rparr>))"

definition extendBudget :: "source \<Rightarrow> source" where
  "extendBudget s = (if sDisposed s \<or> \<not> sStream s then s else (clearBudget s)\<lparr>sBudget := True\<rparr>)"

definition dispose :: "source \<Rightarrow> source" where
  "dispose s =
     (if sDisposed s then s
      else
        (let held = (sConsumers s \<noteq> []);
             s1 = each_consumer c_end (s\<lparr>sDisposed := True\<rparr>);
             s2 = teardown Stopped False (s1\<lparr>sConsumers := []\<rparr>)
         in if held then effect OnIdle s2 else s2))"

section \<open>The state machine\<close>

datatype host_call = HPause | HResume | HSubscribe | HMicrotask | HDetach

fun host_event :: "host_call \<Rightarrow> consumer_event" where
  "host_event HPause = CPause"
| "host_event HResume = CResume"
| "host_event HSubscribe = CSubscribe"
| "host_event HMicrotask = CMicrotask"
| "host_event HDetach = CDetach"

datatype live_event =
    Attach bool "emission list \<Rightarrow> reaction" bool
  | Host nat host_call
  | UpVideo live_frame int
  | UpAudio audio_frame int
  | UpStop
  | UpError
  | UpUnacknowledged
  | Rewarm
  | LingerFires
  | DeadlineFires
  | RetryFires
  | BudgetFires
  | GraceFires
  | Extend
  | Dispose
  | OwnerWill bool

text \<open>
  A timer's event counts only while it is pending, and the timer is no longer pending when its handler
  runs (the retry, an interval, stays). The upstream's events count only while there is a stream. The owner
  makes up its mind, whether a last detach would have it dispose of the source, at any time.
\<close>

fun live_step :: "live_options \<Rightarrow> source \<Rightarrow> live_event \<Rightarrow> source" where
  "live_step opts s (Attach prime sink errs) =
     (case attachConsumer opts prime sink errs s of Inl e \<Rightarrow> s | Inr s' \<Rightarrow> s')"
| "live_step opts s (Host i call) = visit (\<lambda>c. c_step c (host_event call)) s i"
| "live_step opts s (UpVideo f now) = (if sStream s then onVideo opts f now s else s)"
| "live_step opts s (UpAudio f now) = (if sStream s then onAudio opts f now s else s)"
| "live_step opts s UpStop = (if sStream s then onUpstreamEnd s else s)"
| "live_step opts s UpError = (if sStream s then onUpstreamError s else s)"
| "live_step opts s UpUnacknowledged = (if sStream s then onStartUnacknowledged opts s else s)"
| "live_step opts s Rewarm = rewarm s"
| "live_step opts s LingerFires = (if sLinger s then teardown Stopped True (s\<lparr>sLinger := False\<rparr>) else s)"
| "live_step opts s DeadlineFires = (if sDeadline s then onWarmTimeout (s\<lparr>sDeadline := False\<rparr>) else s)"
| "live_step opts s RetryFires = (if sRetry s then reissueStart opts s else s)"
| "live_step opts s BudgetFires = (if sBudget s then onBudgetExpire (s\<lparr>sBudget := False\<rparr>) else s)"
| "live_step opts s GraceFires =
     (if sGrace s then teardown Stopped True (each_consumer c_end (s\<lparr>sGrace := False\<rparr>)) else s)"
| "live_step opts s Extend = extendBudget s"
| "live_step opts s Dispose = dispose s"
| "live_step opts s (OwnerWill b) = s\<lparr>sOwnerDisposes := b\<rparr>"

section \<open>The lifecycle invariant\<close>

definition cons_ok :: "source \<Rightarrow> bool" where
  "cons_ok s \<longleftrightarrow> distinct (map fst (sConsumers s)) \<and>
     (\<forall>p \<in> set (sConsumers s). fst p < sNextId s \<and> \<not> cDetached (snd p))"

text \<open>The owner is told of the first consumer and of the last, alternately.\<close>

definition user_balance :: "source \<Rightarrow> bool" where
  "user_balance s \<longleftrightarrow> count_list (sEffects s) OnActive =
     count_list (sEffects s) OnIdle + (if sConsumers s = [] then 0 else 1)"

text \<open>
  The lifecycle over the fields it speaks of: disposed, no consumers, stream, retry, deadline, budget,
  grace, state, linger, a keyframe held, a reuse watch.
\<close>

definition life_fields ::
  "bool \<Rightarrow> bool \<Rightarrow> bool \<Rightarrow> bool \<Rightarrow> bool \<Rightarrow> bool \<Rightarrow> bool \<Rightarrow> live_state \<Rightarrow> bool \<Rightarrow> bool \<Rightarrow> bool \<Rightarrow> bool" where
  "life_fields disp alone strm retry deadline budget grace st linger keyed reuse \<longleftrightarrow>
     (disp \<longrightarrow> \<not> strm \<and> alone \<and> (st = Stopped \<or> st = Lingering)) \<and>
     (retry \<or> deadline \<or> budget \<or> grace \<longrightarrow> strm) \<and>
     (st = Warming \<longrightarrow> strm \<and> deadline) \<and>
     (st = Live \<longrightarrow> strm) \<and>
     (st = Idle \<or> st = Stopped \<longrightarrow> \<not> strm) \<and>
     (linger \<longleftrightarrow> st = Lingering) \<and>
     (linger \<longrightarrow> alone) \<and>
     (strm \<and> \<not> keyed \<longrightarrow> deadline \<and> \<not> reuse) \<and>
     (\<not> strm \<longrightarrow> \<not> keyed)"

definition life_ok :: "source \<Rightarrow> bool" where
  "life_ok s \<longleftrightarrow> life_fields (sDisposed s) (sConsumers s = []) (sStream s) (sRetry s) (sDeadline s)
     (sBudget s) (sGrace s) (sState s) (sLinger s) (sLastKeyframe s \<noteq> None) (sReuseWatch s)"

definition live_inv :: "source \<Rightarrow> bool" where
  "live_inv s \<longleftrightarrow> cons_ok s \<and> user_balance s \<and> life_ok s"

lemmas inv_defs = live_inv_def cons_ok_def user_balance_def life_ok_def life_fields_def

lemma count_snoc: "count_list (xs @ [y]) x = count_list xs x + (if x = y then 1 else 0)"
  by (induction xs) simp_all

lemma disposed_idle_fields [simp]:
  "sConsumers (disposed_idle s) = sConsumers s" "sLeft (disposed_idle s) = sLeft s" "sNextId (disposed_idle s) = sNextId s"
  "sOwnerDisposes (disposed_idle s) = sOwnerDisposes s" "sDisposed (disposed_idle s)" "\<not> sStream (disposed_idle s)"
  "\<not> sRetry (disposed_idle s)" "\<not> sDeadline (disposed_idle s)" "\<not> sBudget (disposed_idle s)" "\<not> sGrace (disposed_idle s)"
  "sLastKeyframe (disposed_idle s) = None" "sReuseWatch (disposed_idle s) = sReuseWatch s"
  "sEffects (disposed_idle s) = sEffects s @ (if sStream s then [StreamStopped] else [])"
  by (simp_all add: disposed_idle_def teardown_def clearBudget_def clearWarmWatch_def effect_def Let_def)

text \<open>What the call of the owner does is the source's own \<open>dispose\<close>.\<close>

lemma disposed_idle_is: "sConsumers s = [] \<Longrightarrow> \<not> sDisposed s \<Longrightarrow> disposed_idle s = dispose s"
  by (cases s) (simp add: disposed_idle_def dispose_def each_consumer_def)

text \<open>What reaching consumers cannot touch, as long as the owner disposes of nothing.\<close>

definition owner_calm :: "source \<Rightarrow> bool" where
  "owner_calm s \<longleftrightarrow> sDisposed s \<or> \<not> sOwnerDisposes s"

definition same_upstream :: "source \<Rightarrow> source \<Rightarrow> bool" where
  "same_upstream s t \<longleftrightarrow> sStream t = sStream s \<and> sDisposed t = sDisposed s \<and> sNextId t = sNextId s \<and>
     sGotKey t = sGotKey s \<and> sGotVideo t = sGotVideo s \<and> sGotAudio t = sGotAudio s \<and>
     sAttempts t = sAttempts s \<and> sLastKeyframe t = sLastKeyframe s \<and> sRetry t = sRetry s \<and>
     sDeadline t = sDeadline s \<and> sReuseWatch t = sReuseWatch s \<and> sBudget t = sBudget s \<and>
     sGrace t = sGrace s \<and> sOwnerDisposes t = sOwnerDisposes s \<and>
     (sDisposed s \<longrightarrow> sEffects t = sEffects s \<and> sState t = sState s \<and> sLinger t = sLinger s)"

lemma visit_same: "owner_calm s \<Longrightarrow> same_upstream s (visit f s i)"
  by (auto simp: owner_calm_def same_upstream_def visit_def onDetach_def arm_def effect_def Let_def split: option.split)

lemma same_refl: "same_upstream s s"
  by (simp add: same_upstream_def)

lemma same_trans: "same_upstream s t \<Longrightarrow> same_upstream t v \<Longrightarrow> same_upstream s v"
  unfolding same_upstream_def by (elim conjE) (intro conjI impI; simp)

lemma same_calm: "same_upstream s t \<Longrightarrow> owner_calm s \<Longrightarrow> owner_calm t"
  by (simp add: same_upstream_def owner_calm_def)

lemma visits_same: "owner_calm s \<Longrightarrow> same_upstream s (foldl (visit f) s is)"
proof (induction "is" arbitrary: s)
  case Nil
  show ?case by (simp add: same_refl)
next
  case (Cons i "is")
  show ?case unfolding foldl.simps
    by (rule same_trans [OF visit_same [OF Cons.prems] Cons.IH [OF same_calm [OF visit_same [OF Cons.prems] Cons.prems]]])
qed

lemma each_same: "owner_calm s \<Longrightarrow> same_upstream s (each_consumer f s)"
  by (simp add: each_consumer_def visits_same)

lemma each_fields:
  assumes "owner_calm s"
  shows "sStream (each_consumer f s) = sStream s" "sGotKey (each_consumer f s) = sGotKey s"
    "sDisposed (each_consumer f s) = sDisposed s" "sDeadline (each_consumer f s) = sDeadline s"
    "sRetry (each_consumer f s) = sRetry s" "sOwnerDisposes (each_consumer f s) = sOwnerDisposes s"
  using each_same [OF assms, of f] unfolding same_upstream_def by simp_all

text \<open>In any case a disposed source stays so, and whom the owner means to dispose of does not change.\<close>

lemma visit_disposed: "sDisposed s \<Longrightarrow> sDisposed (visit f s i)"
  using visit_same [of s f i] by (simp add: owner_calm_def same_upstream_def)

lemma each_disposed: "sDisposed s \<Longrightarrow> sDisposed (each_consumer f s)"
proof -
  have "sDisposed s \<Longrightarrow> sDisposed (foldl (visit f) s is)" for "is"
    by (induction "is" arbitrary: s) (simp_all add: visit_disposed)
  then show "sDisposed s \<Longrightarrow> ?thesis" by (simp add: each_consumer_def)
qed

lemma visit_consumers:
  "cons_ok s \<Longrightarrow> cons_ok (visit f s i)"
proof -
  assume ok: "cons_ok s"
  have fsts: "map fst (map (\<lambda>p. if fst p = i then (i, c') else p) xs) = map fst xs" for c' and xs :: "(nat \<times> consumer) list"
    by (induction xs) auto
  show ?thesis
  proof (cases "map_of (sConsumers s) i")
    case None
    then show ?thesis using ok by (simp add: visit_def)
  next
    case (Some c)
    show ?thesis
    proof (cases "cDetached (f c)")
      case True
      then show ?thesis using ok Some
        by (auto simp: visit_def onDetach_def arm_def effect_def cons_ok_def Let_def distinct_map
            intro: inj_on_subset)
    next
      case False
      have "distinct (map fst (map (\<lambda>p. if fst p = i then (i, f c) else p) (sConsumers s)))"
        unfolding fsts using ok by (simp add: cons_ok_def)
      then show ?thesis using ok Some False map_of_SomeD [OF Some]
        by (auto simp: visit_def cons_ok_def Let_def)
    qed
  qed
qed

lemma visit_balance: "user_balance s \<Longrightarrow> \<not> sDisposed s \<Longrightarrow> user_balance (visit f s i)"
proof (cases "map_of (sConsumers s) i")
  case None
  assume "user_balance s"
  then show ?thesis using None by (simp add: visit_def)
next
  case (Some c)
  assume b: "user_balance s" "\<not> sDisposed s"
  have ne: "sConsumers s \<noteq> []" using Some by auto
  show ?thesis
    using b ne Some
    by (auto simp: visit_def onDetach_def arm_def effect_def user_balance_def count_snoc Let_def)
qed

lemma life_fields_attached:
  assumes "life_fields d False st r dl b g s l k v"
  shows "\<not> d" "\<not> l" "life_fields False True st r dl b g Lingering True k v"
  using assms unfolding life_fields_def by blast+

lemma life_fields_disposed: "life_fields True True False False False False False Lingering True False v"
  by (simp add: life_fields_def)

lemma visit_life: "life_ok s \<Longrightarrow> life_ok (visit f s i)"
proof (cases "map_of (sConsumers s) i")
  case None
  assume "life_ok s"
  then show ?thesis using None by (simp add: visit_def)
next
  case (Some c)
  assume l: "life_ok s"
  have ne: "(sConsumers s = []) = False" using Some by auto
  have l': "life_fields (sDisposed s) False (sStream s) (sRetry s) (sDeadline s) (sBudget s) (sGrace s)
      (sState s) (sLinger s) (sLastKeyframe s \<noteq> None) (sReuseWatch s)"
    using l unfolding life_ok_def ne .
  note d = life_fields_attached(1) [OF l'] and gone = life_fields_attached(3) [OF l']
  have ne': "(map (\<lambda>p. if fst p = i then (i, f c) else p) (sConsumers s) = []) = False" using ne by simp
  show ?thesis
  proof (cases "cDetached (f c)")
    case False
    then show ?thesis using l' ne' by (simp add: visit_def Some life_ok_def)
  next
    case True
    then show ?thesis using l' gone d life_fields_disposed
      by (cases "filter (\<lambda>p. fst p \<noteq> i) (sConsumers s) = []"; cases "sOwnerDisposes s")
        (simp_all add: visit_def Some onDetach_def arm_def effect_def life_ok_def Let_def)
  qed
qed

lemma visit_inv: "live_inv s \<Longrightarrow> live_inv (visit f s i)"
proof (cases "sDisposed s")
  case True
  assume i: "live_inv s"
  then have "sConsumers s = []" using True by (simp add: inv_defs)
  then show ?thesis using i by (simp add: visit_def)
next
  case False
  assume "live_inv s"
  then show ?thesis using False
    by (simp add: live_inv_def visit_consumers visit_balance visit_life)
qed

lemma each_inv: "live_inv s \<Longrightarrow> live_inv (each_consumer f s)"
  unfolding each_consumer_def
proof -
  have "live_inv s \<Longrightarrow> live_inv (foldl (visit f) s is)" for "is"
    by (induction "is" arbitrary: s) (simp_all add: visit_inv)
  then show "live_inv s \<Longrightarrow> live_inv (foldl (visit f) s (map fst (sConsumers s)))" .
qed

lemma teardown_inv:
  assumes "cons_ok s" "user_balance s" "sDisposed s \<longrightarrow> sConsumers s = []"
  shows "live_inv (teardown Stopped r s)"
  using assms
  by (auto simp: inv_defs teardown_def clearBudget_def clearWarmWatch_def effect_def count_snoc Let_def)

lemma teardown_live: "live_inv s \<Longrightarrow> live_inv (teardown Stopped r s)"
  by (rule teardown_inv) (simp_all add: inv_defs)

lemma life_settle:
  "life_fields d e True r dl b g s l k True \<Longrightarrow>
    life_fields d e True False False b g (if s = Warming then Live else s) l k False"
  unfolding life_fields_def by (cases "s = Warming") simp_all

lemma life_key:
  "life_fields d e True r dl b g s l k v \<Longrightarrow>
    life_fields d e True False False b' g' (if s = Warming then Live else s) l True v"
  unfolding life_fields_def by (cases "s = Warming") simp_all

lemma life_warm:
  "life_fields d e False r dl b g s l k v \<Longrightarrow> \<not> d \<Longrightarrow> life_fields False False True True True b g Warming False k False"
  unfolding life_fields_def by simp

lemma life_join:
  "life_fields d e True r dl b g s l k v \<Longrightarrow> \<not> d \<Longrightarrow>
    life_fields False False True (dl \<or> r \<longrightarrow> r) (dl \<or> r \<longrightarrow> dl) b g
      (if l then if s = Lingering then if k then Live else Warming else s else s) False k (dl \<or> r \<longrightarrow> v)"
  unfolding life_fields_def by (cases l; cases k; cases dl; cases r; cases v; simp)

lemma life_timers:
  assumes "life_fields d e True r dl b g s l k v"
  shows "life_fields d e True r' dl b' g' s l k v"
  using assms unfolding life_fields_def by simp

lemma life_stream:
  assumes "life_fields d e st r dl b g s l k v"
  shows "s = Warming \<Longrightarrow> st" "dl \<Longrightarrow> st" "b \<Longrightarrow> st" "g \<Longrightarrow> st" "r \<Longrightarrow> st" "d \<Longrightarrow> \<not> st" "d \<Longrightarrow> e"
  using assms unfolding life_fields_def by blast+

text \<open>The parts of the invariant that only the consumers and the owner's effects decide.\<close>

definition users_ok :: "source \<Rightarrow> bool" where
  "users_ok s \<longleftrightarrow> cons_ok s \<and> user_balance s \<and> (sDisposed s \<longrightarrow> sConsumers s = [])"

lemma live_inv_split: "live_inv s \<longleftrightarrow> users_ok s \<and> life_ok s"
proof -
  have "life_ok s \<Longrightarrow> sDisposed s \<Longrightarrow> sConsumers s = []" unfolding life_ok_def life_fields_def by blast
  then show ?thesis unfolding live_inv_def users_ok_def by blast
qed

lemma users_cong:
  "sConsumers t = sConsumers s \<Longrightarrow> sNextId t = sNextId s \<Longrightarrow> sDisposed t = sDisposed s \<Longrightarrow>
    count_list (sEffects t) OnActive = count_list (sEffects s) OnActive \<Longrightarrow>
    count_list (sEffects t) OnIdle = count_list (sEffects s) OnIdle \<Longrightarrow> users_ok t = users_ok s"
  by (simp add: users_ok_def cons_ok_def user_balance_def)

lemma visit_users: "users_ok s \<Longrightarrow> users_ok (visit f s i)"
proof (cases "map_of (sConsumers s) i")
  case (Some c)
  assume u: "users_ok s"
  then have nd: "\<not> sDisposed s" using Some by (auto simp: users_ok_def)
  have "sDisposed (visit f s i) \<longrightarrow> sConsumers (visit f s i) = []"
    using nd by (auto simp: visit_def Some onDetach_def arm_def effect_def Let_def)
  then show ?thesis using u nd by (simp add: users_ok_def visit_consumers visit_balance)
qed (simp add: visit_def)

lemma each_users: "users_ok s \<Longrightarrow> users_ok (each_consumer f s)"
proof -
  have "users_ok s \<Longrightarrow> users_ok (foldl (visit f) s is)" for "is"
    by (induction "is" arbitrary: s) (simp_all add: visit_users)
  then show "users_ok s \<Longrightarrow> ?thesis" by (simp add: each_consumer_def)
qed

lemma teardown_users: "users_ok s \<Longrightarrow> live_inv (teardown Stopped r s)"
  by (rule teardown_inv) (simp_all add: users_ok_def)

lemma settle_life:
  assumes "life_ok s" "sStream s"
  shows "life_ok (settleReuseWatch s)"
  using assms life_settle [of "sDisposed s" "sConsumers s = []" "sRetry s" "sDeadline s" "sBudget s" "sGrace s"
      "sState s" "sLinger s" "sLastKeyframe s \<noteq> None"]
  by (cases "sReuseWatch s") (simp_all add: life_ok_def settleReuseWatch_def clearWarmWatch_def)

lemma settle_keeps [simp]:
  "sStream (settleReuseWatch s) = sStream s" "sConsumers (settleReuseWatch s) = sConsumers s"
  "sNextId (settleReuseWatch s) = sNextId s" "sEffects (settleReuseWatch s) = sEffects s"
  "sDisposed (settleReuseWatch s) = sDisposed s"
  by (simp_all add: settleReuseWatch_def clearWarmWatch_def)

lemma refresh_keeps [simp]:
  "sStream (refresh_geometry s) = sStream s" "sConsumers (refresh_geometry s) = sConsumers s"
  "sNextId (refresh_geometry s) = sNextId s" "sEffects (refresh_geometry s) = sEffects s"
  "sDisposed (refresh_geometry s) = sDisposed s"
  "life_ok (refresh_geometry s) = life_ok s"
  by (simp_all add: refresh_geometry_def life_ok_def)

lemma onVideo_inv:
  assumes "live_inv s" "sStream s"
  shows "live_inv (onVideo opts f now s)"
proof -
  let ?a = "settleReuseWatch (s\<lparr>sGotVideo := True, sFruitless := 0\<rparr>)"
  let ?s2 = "refresh_geometry (?a\<lparr>sLastParamSets := updatedParamSets (fData f) (sLastParamSets ?a)\<rparr>)"
  let ?item = "MVideo f now (configOf f ?s2)"
  have "life_ok (s\<lparr>sGotVideo := True, sFruitless := 0\<rparr>)"
    using assms(1) by (simp add: live_inv_def life_ok_def)
  then have "life_ok ?a" by (rule settle_life) (simp add: assms(2))
  then have "life_ok (?a\<lparr>sLastParamSets := ps\<rparr>)" for ps by (simp add: life_ok_def)
  then have l2: "life_ok ?s2" by (simp only: refresh_keeps)
  have str: "sStream ?s2" by (simp add: assms(2))
  have u2: "users_ok t" if "sConsumers t = sConsumers s" "sNextId t = sNextId s" "sEffects t = sEffects s" "sDisposed t = sDisposed s" for t
    using assms(1) users_cong [of t s] that by (simp add: live_inv_split)
  define s3 where "s3 = (if fKeyframe f then
                  (let wasWarming = (sRetry ?s2 \<or> sDeadline ?s2);
                       k = ?s2\<lparr>sLastKeyframe := Some ?item, sGotKey := True,
                             sState := (if sState ?s2 = Warming then Live else sState ?s2)\<rparr>
                   in if wasWarming then
                        (if oBattery opts then armBudget (clearWarmWatch k) else clearWarmWatch k)
                      else k)
                else ?s2)"
  have k: "life_fields (sDisposed ?s2) (sConsumers ?s2 = []) True False False b g
      (if sState ?s2 = Warming then Live else sState ?s2) (sLinger ?s2) True (sReuseWatch ?s2)" for b g
    using life_key [of "sDisposed ?s2" "sConsumers ?s2 = []" "sRetry ?s2" "sDeadline ?s2" "sBudget ?s2" "sGrace ?s2"
        "sState ?s2" "sLinger ?s2" "sLastKeyframe ?s2 \<noteq> None" "sReuseWatch ?s2" b g] l2 str
    by (simp add: life_ok_def)
  have l3: "life_ok s3"
    using l2 k str
    by (cases "fKeyframe f"; cases "sRetry ?s2 \<or> sDeadline ?s2"; cases "oBattery opts")
      (simp_all add: s3_def life_ok_def armBudget_def clearBudget_def clearWarmWatch_def Let_def)
  have keep: "sConsumers s3 = sConsumers s" "sNextId s3 = sNextId s" "sEffects s3 = sEffects s" "sDisposed s3 = sDisposed s"
    by (simp_all add: s3_def armBudget_def clearBudget_def clearWarmWatch_def Let_def)
  have "live_inv (s3\<lparr>sRing := r\<rparr>)" for r
    using l3 u2 [of "s3\<lparr>sRing := r\<rparr>"] keep by (simp add: live_inv_split life_ok_def)
  then show ?thesis
    unfolding onVideo_def Let_def s3_def [unfolded Let_def] by (intro each_inv)
qed

lemma onAudio_inv:
  assumes "live_inv s" "sStream s"
  shows "live_inv (onAudio opts f now s)"
proof -
  let ?a = "settleReuseWatch (s\<lparr>sGotAudio := True, sFruitless := 0\<rparr>)"
  have "life_ok (s\<lparr>sGotAudio := True, sFruitless := 0\<rparr>)"
    using assms(1) by (simp add: live_inv_def life_ok_def)
  then have l: "life_ok ?a" by (rule settle_life) (simp add: assms(2))
  have "live_inv (?a\<lparr>sRing := r\<rparr>)" for r
    using l assms(1) users_cong [of "?a\<lparr>sRing := r\<rparr>" s] by (simp add: live_inv_split life_ok_def)
  then show ?thesis unfolding onAudio_def Let_def by (intro each_inv)
qed

lemma attach_inv:
  assumes "live_inv s" "attachConsumer opts prime sink errs s = Inr s'"
  shows "live_inv s'"
proof -
  have nd: "\<not> sDisposed s" using assms(2) by (auto simp: attachConsumer_def)
  let ?c = "new_consumer (oMaxQueue opts) sink errs"
  define s1 where "s1 = s\<lparr>sConsumers := sConsumers s @ [(sNextId s, ?c)], sNextId := sNextId s + 1\<rparr>"
  define s2 where "s2 = (if sConsumers s = [] then effect OnActive s1 else s1)"
  define s3 where "s3 = (if sLinger s2 then
                     s2\<lparr>sLinger := False,
                        sState := (if sState s2 = Lingering then
                                     (if sLastKeyframe s2 \<noteq> None then Live else Warming) else sState s2)\<rparr>
                   else s2)"
  define s4 where "s4 = (if \<not> sStream s3 then warm s3 else watchReusedStream opts s3)"
  have l: "life_fields (sDisposed s) (sConsumers s = []) (sStream s) (sRetry s) (sDeadline s)
     (sBudget s) (sGrace s) (sState s) (sLinger s) (sLastKeyframe s \<noteq> None) (sReuseWatch s)"
    using assms(1) by (simp add: live_inv_def life_ok_def)
  have f2: "sStream s2 = sStream s" "sRetry s2 = sRetry s" "sDeadline s2 = sDeadline s" "sBudget s2 = sBudget s"
    "sGrace s2 = sGrace s" "sState s2 = sState s" "sLinger s2 = sLinger s" "sLastKeyframe s2 = sLastKeyframe s"
    "sReuseWatch s2 = sReuseWatch s" "sDisposed s2 = sDisposed s" "sConsumers s2 = sConsumers s @ [(sNextId s, ?c)]"
    by (simp_all add: s2_def s1_def effect_def)
  have f3: "sStream s3 = sStream s" "sRetry s3 = sRetry s" "sDeadline s3 = sDeadline s" "sBudget s3 = sBudget s"
    "sGrace s3 = sGrace s" "sLinger s3 = False" "sLastKeyframe s3 = sLastKeyframe s"
    "sReuseWatch s3 = sReuseWatch s" "sDisposed s3 = False" "sConsumers s3 = sConsumers s @ [(sNextId s, ?c)]"
    "sState s3 = (if sLinger s then if sState s = Lingering then if sLastKeyframe s \<noteq> None then Live else Warming
       else sState s else sState s)"
    using f2 nd by (simp_all add: s3_def)
  have u2: "users_ok s2"
    using assms(1) nd
    by (auto simp: live_inv_def users_ok_def cons_ok_def user_balance_def s2_def s1_def effect_def count_snoc
        new_consumer_def)
  then have u3: "users_ok s3" using users_cong [of s3 s2] by (simp add: s3_def)
  have u4: "users_ok s4"
    using u3 users_cong [of s4 s3]
    by (simp add: s4_def warm_def openStream_def armWarmWatch_def watchReusedStream_def effect_def count_snoc Let_def)
  have l4: "life_ok s4"
  proof (cases "sStream s")
    case False
    then show ?thesis
      using life_warm [of "sDisposed s" "sConsumers s = []" "sRetry s" "sDeadline s" "sBudget s" "sGrace s" "sState s"
          "sLinger s" "sLastKeyframe s \<noteq> None" "sReuseWatch s"] l nd f3
      by (simp add: s4_def life_ok_def warm_def openStream_def armWarmWatch_def effect_def)
  next
    case True
    let ?st = "if sLinger s then if sState s = Lingering then if sLastKeyframe s \<noteq> None then Live else Warming
       else sState s else sState s"
    have j: "life_fields False False True (sDeadline s \<or> sRetry s \<longrightarrow> sRetry s) (sDeadline s \<or> sRetry s \<longrightarrow> sDeadline s)
        (sBudget s) (sGrace s) ?st False (sLastKeyframe s \<noteq> None) (sDeadline s \<or> sRetry s \<longrightarrow> sReuseWatch s)"
      using life_join [OF l [unfolded eqTrueI [OF True]] nd] .
    show ?thesis
    proof (cases "sDeadline s \<or> sRetry s")
      case pending: True
      have e: "(sDeadline s \<or> sRetry s \<longrightarrow> p) = p" for p using pending by simp
      have "s4 = s3" using True pending f3 by (auto simp: s4_def watchReusedStream_def)
      then show ?thesis using j True unfolding life_ok_def e by (simp add: f3)
    next
      case free: False
      have e: "(sDeadline s \<or> sRetry s \<longrightarrow> p) = True" for p using free by simp
      have r: "sDisposed s4 = False" "(sConsumers s4 = []) = False" "sStream s4 = True" "sRetry s4 = True"
        "sDeadline s4 = True" "sBudget s4 = sBudget s" "sGrace s4 = sGrace s" "sState s4 = ?st" "sLinger s4 = False"
        "sLastKeyframe s4 = sLastKeyframe s" "sReuseWatch s4 = True"
        using True free f3
        by (simp_all add: s4_def watchReusedStream_def armWarmWatch_def effect_def Let_def)
      show ?thesis using j unfolding life_ok_def r e .
    qed
  qed
  have "live_inv s4" using u4 l4 by (simp add: live_inv_split)
  moreover have "attachConsumer opts prime sink errs s = Inr (case sLastKeyframe s4 of None \<Rightarrow> s4
      | Some k \<Rightarrow> if prime then visit (c_prime k) s4 (sNextId s) else s4)"
    unfolding attachConsumer_def Let_def s4_def s3_def s2_def s1_def if_not_P [OF nd] by (rule refl)
  then have "s' = (case sLastKeyframe s4 of None \<Rightarrow> s4
      | Some k \<Rightarrow> if prime then visit (c_prime k) s4 (sNextId s) else s4)"
    using assms(2) by (simp only: sum.inject)
  ultimately show ?thesis by (auto intro: visit_inv split: option.split)
qed

lemma dispose_inv:
  assumes "live_inv s"
  shows "live_inv (dispose s)"
proof (cases "sDisposed s")
  case True
  then show ?thesis using assms by (simp add: dispose_def)
next
  case False
  let ?d = "s\<lparr>sDisposed := True\<rparr>"
  let ?e = "each_consumer c_end ?d"
  have same: "same_upstream ?d ?e" unfolding each_consumer_def by (rule visits_same) (simp add: owner_calm_def)
  have eff: "sEffects ?e = sEffects s" "sDisposed ?e" "sStream ?e = sStream s"
    using same by (simp_all add: same_upstream_def)
  have bal: "count_list (sEffects s) OnActive = count_list (sEffects s) OnIdle + (if sConsumers s = [] then 0 else 1)"
    using assms by (simp add: live_inv_def user_balance_def)
  show ?thesis
    using False bal eff
    by (auto simp: dispose_def Let_def inv_defs teardown_def clearBudget_def clearWarmWatch_def effect_def count_snoc)
qed

lemma step_inv: "live_inv s \<Longrightarrow> live_inv (live_step opts s ev)"
proof -
  assume i: "live_inv s"
  then have u: "users_ok s" and l: "life_fields (sDisposed s) (sConsumers s = []) (sStream s) (sRetry s)
     (sDeadline s) (sBudget s) (sGrace s) (sState s) (sLinger s) (sLastKeyframe s \<noteq> None) (sReuseWatch s)"
    by (simp_all add: live_inv_split life_ok_def)
  note st = life_stream [OF l]
  show ?thesis
  proof (cases ev)
    case (Attach prime sink errs)
    then show ?thesis using attach_inv [OF i] i by (simp split: sum.split)
  next
    case (Host n call)
    then show ?thesis using visit_inv [OF i] by simp
  next
    case (UpVideo f now)
    then show ?thesis using onVideo_inv [OF i] i by simp
  next
    case (UpAudio f now)
    then show ?thesis using onAudio_inv [OF i] i by simp
  next
    case UpStop
    then show ?thesis using i each_inv teardown_live by (simp add: onUpstreamEnd_def Let_def)
  next
    case UpError
    then show ?thesis using i each_inv teardown_live by (simp add: onUpstreamError_def Let_def)
  next
    case UpUnacknowledged
    have "live_inv (effect OnSessionUnreachable (s\<lparr>sAsked := True, sRetry := False\<rparr>))" if "sStream s"
    proof -
      have "users_ok (effect OnSessionUnreachable (s\<lparr>sAsked := True, sRetry := False\<rparr>)) = users_ok s"
        by (rule users_cong) (simp_all add: effect_def count_snoc)
      then show ?thesis
        using u life_timers [OF l [unfolded eqTrueI [OF that]], of False] that
        by (simp add: live_inv_split life_ok_def effect_def)
    qed
    then show ?thesis using UpUnacknowledged i by (simp add: onStartUnacknowledged_def)
  next
    case Rewarm
    show ?thesis
    proof (cases "sDisposed s \<or> \<not> sAsked s \<or> sState s \<noteq> Warming")
      case True
      then show ?thesis using Rewarm i by (simp add: rewarm_def)
    next
      case False
      then have str: "sStream s" using st(1) by simp
      have "users_ok (rewarm s) = users_ok s"
        by (rule users_cong) (simp_all add: rewarm_def openStream_def effect_def count_snoc Let_def)
      moreover have "life_ok (rewarm s)"
        using False str life_timers [OF l [unfolded eqTrueI [OF str]], of True]
        by (simp add: rewarm_def openStream_def effect_def life_ok_def Let_def)
      ultimately show ?thesis using Rewarm u by (simp add: live_inv_split)
    qed
  next
    case LingerFires
    have "live_inv (teardown Stopped True (s\<lparr>sLinger := False\<rparr>))" if "sLinger s"
      by (rule teardown_users) (use u that users_cong [of "s\<lparr>sLinger := False\<rparr>" s] in auto)
    then show ?thesis using LingerFires i by simp
  next
    case DeadlineFires
    have "live_inv (onWarmTimeout (s\<lparr>sDeadline := False\<rparr>))" if "sDeadline s"
    proof -
      have str: "sStream s" and nd: "\<not> sDisposed s" using st(2,6) that by auto
      have "users_ok (s\<lparr>sDeadline := False\<rparr>)" using u users_cong [of "s\<lparr>sDeadline := False\<rparr>" s] by simp
      then show ?thesis
        using str nd each_users [of "s\<lparr>sDeadline := False\<rparr>"] teardown_users
        by (simp add: onWarmTimeout_def)
    qed
    then show ?thesis using DeadlineFires i by simp
  next
    case RetryFires
    have "live_inv (reissueStart opts s)"
    proof -
      have "users_ok (reissueStart opts s) = users_ok s"
        by (rule users_cong) (simp_all add: reissueStart_def effect_def count_snoc Let_def)
      moreover have "life_ok (reissueStart opts s)"
        using i by (cases "sStream s") (simp_all add: live_inv_def reissueStart_def effect_def life_ok_def Let_def)
      ultimately show ?thesis using u by (simp add: live_inv_split)
    qed
    then show ?thesis using RetryFires i by simp
  next
    case BudgetFires
    have "live_inv (onBudgetExpire (s\<lparr>sBudget := False\<rparr>))" if "sBudget s"
    proof -
      have str: "sStream s" and nd: "\<not> sDisposed s" using st(3,6) that by auto
      have "life_ok (s\<lparr>sBudget := False, sGrace := True\<rparr>)"
        using life_timers [OF l [unfolded eqTrueI [OF str]], of "sRetry s" False True] str by (simp add: life_ok_def)
      then have "live_inv (s\<lparr>sBudget := False, sGrace := True\<rparr>)"
        using u users_cong [of "s\<lparr>sBudget := False, sGrace := True\<rparr>" s] by (simp add: live_inv_split)
      from each_inv [OF this] show ?thesis using str nd by (simp add: onBudgetExpire_def)
    qed
    then show ?thesis using BudgetFires i by simp
  next
    case GraceFires
    have "live_inv (teardown Stopped True (each_consumer c_end (s\<lparr>sGrace := False\<rparr>)))" if "sGrace s"
    proof -
      have nd: "\<not> sDisposed s" using st(4,6) that by auto
      have "users_ok (s\<lparr>sGrace := False\<rparr>)" using u users_cong [of "s\<lparr>sGrace := False\<rparr>" s] by simp
      then show ?thesis using nd each_users [of "s\<lparr>sGrace := False\<rparr>"] teardown_users by simp
    qed
    then show ?thesis using GraceFires i by simp
  next
    case Extend
    have "live_inv (extendBudget s)"
    proof (cases "sStream s")
      case True
      have "users_ok (extendBudget s) = users_ok s"
        by (rule users_cong) (simp_all add: extendBudget_def clearBudget_def)
      moreover have "\<not> sDisposed s" using True st(6) by blast
      ultimately have "life_ok (extendBudget s)" "users_ok (extendBudget s) = users_ok s"
        using i life_timers [OF l [unfolded eqTrueI [OF True]], of "sRetry s" True False]
        by (simp_all add: live_inv_def extendBudget_def clearBudget_def life_ok_def True)
      then show ?thesis using u by (simp add: live_inv_split)
    next
      case False
      then show ?thesis using i by (simp add: extendBudget_def)
    qed
    then show ?thesis using Extend by simp
  next
    case Dispose
    then show ?thesis using dispose_inv [OF i] by simp
  next
    case (OwnerWill b)
    then show ?thesis using i by (simp add: live_inv_def cons_ok_def user_balance_def life_ok_def)
  qed
qed

interpretation live_source: stepper "live_step opts" live_inv for opts
  by unfold_locales (rule step_inv)

definition live_run :: "live_options \<Rightarrow> live_event list \<Rightarrow> source" where
  "live_run opts evs = foldl (live_step opts) new_source evs"

lemma live_run_inv: "live_inv (live_run opts evs)"
  unfolding live_run_def
  by (rule live_source.inv_run)
    (simp add: new_source_def live_inv_def cons_ok_def user_balance_def life_ok_def life_fields_def)


text \<open>
  C17. The owner's session user is released exactly as often as it was taken: over any events,
  disposal included, the calls of \<open>onActive\<close> exceed those of \<open>onIdle\<close> by one while a consumer is
  attached and not at all otherwise.
\<close>

theorem owner_balance:
  "count_list (sEffects (live_run opts evs)) OnActive =
    count_list (sEffects (live_run opts evs)) OnIdle + (if sConsumers (live_run opts evs) = [] then 0 else 1)"
  using live_run_inv [of opts evs] by (simp add: live_inv_def user_balance_def)

section \<open>A start that never delivers\<close>

lemma visit_here:
  "distinct (map fst (sConsumers s)) \<Longrightarrow> (i, c) \<in> set (sConsumers s) \<Longrightarrow>
    (i, f c) \<in> set (sConsumers (visit f s i)) \<union> set (sLeft (visit f s i))"
  by (auto simp: visit_def onDetach_def arm_def effect_def Let_def map_of_is_SomeI image_iff
      intro!: bexI [of _ "(i, c)"])

lemma visit_elsewhere:
  "j \<noteq> i \<Longrightarrow> (i, c) \<in> set (sConsumers s) \<Longrightarrow> (i, c) \<in> set (sConsumers (visit f s j))"
  by (auto simp: visit_def onDetach_def arm_def effect_def Let_def image_iff filter_empty_conv split: option.split
      intro!: bexI [of _ "(i, c)"])

lemma visit_left: "set (sLeft s) \<subseteq> set (sLeft (visit f s j))"
  by (auto simp: visit_def onDetach_def arm_def effect_def Let_def split: option.split)

lemma visits_reach:
  "cons_ok s \<Longrightarrow> (i, c) \<in> set (sConsumers s) \<Longrightarrow> distinct is \<Longrightarrow>
    (if i \<in> set is then (i, f c) \<in> set (sConsumers (foldl (visit f) s is)) \<union> set (sLeft (foldl (visit f) s is))
     else (i, c) \<in> set (sConsumers (foldl (visit f) s is)))"
proof (induction "is" arbitrary: s)
  case (Cons j "is")
  have left: "set (sLeft t) \<subseteq> set (sLeft (foldl (visit f) t is))" for t
  proof (induction "is" arbitrary: t)
    case (Cons k ks)
    then show ?case using visit_left [of t f k] Cons [of "visit f t k"] by auto
  qed simp
  have keep: "(i, x) \<in> set (sConsumers t) \<Longrightarrow> i \<notin> set is \<Longrightarrow> (i, x) \<in> set (sConsumers (foldl (visit f) t is))" for t x
  proof (induction "is" arbitrary: t)
    case (Cons k ks)
    then show ?case using visit_elsewhere [of k i x t f] by auto
  qed simp
  show ?case
  proof (cases "j = i")
    case True
    have "(i, f c) \<in> set (sConsumers (visit f s i)) \<union> set (sLeft (visit f s i))"
      using visit_here [of s i c f] Cons.prems(1,2) by (simp add: cons_ok_def)
    then show ?thesis
      using True Cons.prems(3) left [of "visit f s i"] keep [of "f c" "visit f s i"] by auto
  next
    case False
    have "(i, c) \<in> set (sConsumers (visit f s j))"
      by (rule visit_elsewhere) (use False Cons.prems(2) in auto)
    then show ?thesis
      using Cons.IH [of "visit f s j"] visit_consumers [OF Cons.prems(1), of f j] False Cons.prems(3)
      by (auto split: if_splits)
  qed
qed simp

lemma each_reach:
  assumes "cons_ok s" "(i, c) \<in> set (sConsumers s)"
  shows "(i, f c) \<in> set (sConsumers (each_consumer f s)) \<union> set (sLeft (each_consumer f s))"
proof -
  have "i \<in> set (map fst (sConsumers s))" using assms(2) by force
  then show ?thesis
    using visits_reach [OF assms, of "map fst (sConsumers s)" f] assms(1)
    by (simp add: each_consumer_def cons_ok_def)
qed

lemma teardown_keeps:
  "sConsumers (teardown st r s) = sConsumers s" "sLeft (teardown st r s) = sLeft s"
  "sState (teardown st r s) = st" "\<not> sStream (teardown st r s)"
  by (simp_all add: teardown_def clearBudget_def clearWarmWatch_def effect_def Let_def)

text \<open>
  \<open>live()\<close> never waits on a dead start in silence: in any reachable warming state the deadline is
  pending, and when it fires every attached consumer with an error listener is handed, once, a start
  failure that names the timeout, the stage reached and the starts sent; the source is then stopped
  without a stream, and its owner is told of the failed start if no keyframe came, unless it disposed of
  the source when the last consumer left over the error.
\<close>

theorem warm_deadline_reports:
  assumes "s = live_run opts evs" "sState s = Warming"
    and "(i, c) \<in> set (sConsumers s)" "cErrorListener c"
  shows "sDeadline s \<and>
    (\<exists>c' stage. (i, c') \<in> set (sConsumers (live_step opts s DeadlineFires)) \<union> set (sLeft (live_step opts s DeadlineFires))
       \<and> cLog c' = cLog c @ [EError (StartFailure WarmTimeout stage (sAttempts s))]) \<and>
    sState (live_step opts s DeadlineFires) = Stopped \<and> \<not> sStream (live_step opts s DeadlineFires) \<and>
    (\<not> sGotKey s \<and> \<not> sOwnerDisposes s \<longrightarrow> last (sEffects (live_step opts s DeadlineFires)) = OnStartFailed)"
proof -
  have inv: "live_inv s" using live_run_inv assms(1) by simp
  then have dl: "sDeadline s" and str: "sStream s" and nd: "\<not> sDisposed s"
    using assms(2) by (auto simp: live_inv_def life_ok_def life_fields_def)
  let ?d = "s\<lparr>sDeadline := False\<rparr>"
  let ?e = "startFailure WarmTimeout ?d"
  let ?n = "each_consumer (c_fail ?e) ?d"
  have step: "live_step opts s DeadlineFires = teardown Stopped True ?n"
    using dl str nd by (simp add: onWarmTimeout_def)
  have "cons_ok ?d" using inv by (simp add: live_inv_def cons_ok_def)
  then have r: "(i, c_fail ?e c) \<in> set (sConsumers ?n) \<union> set (sLeft ?n)"
    using each_reach [of ?d i c "c_fail ?e"] assms(3) by simp
  have "\<not> cDetached c" using inv assms(3) by (auto simp: live_inv_def cons_ok_def)
  then have log: "cLog (c_fail ?e c) = cLog c @ [EError ?e]" using assms(4) by (simp add: c_fail_def)
  have "last (sEffects (teardown Stopped True ?n)) = OnStartFailed" if "\<not> sGotKey s" "\<not> sOwnerDisposes s"
  proof -
    have "owner_calm ?d" using that(2) by (simp add: owner_calm_def)
    from each_fields(1,2) [OF this, of "c_fail ?e"] show ?thesis using str that(1) by (simp add: teardown_def effect_def Let_def)
  qed
  then show ?thesis
    using dl r log unfolding step teardown_keeps
    by (auto simp: startFailure_def teardown_keeps)
qed

definition sample_options :: live_options where
  "sample_options = \<lparr>oMaxQueue = 2, oPreBufferMs = 0, oBattery = False, oHasNudge = True, oReplaces = False\<rparr>"

lemma warm_deadline_reports_witness:
  "\<exists>c'. (0, c') \<in> set (sConsumers (live_step sample_options
         (live_run sample_options [Attach True (\<lambda>l. Keep) True]) DeadlineFires))
       \<union> set (sLeft (live_step sample_options (live_run sample_options [Attach True (\<lambda>l. Keep) True]) DeadlineFires))
     \<and> (\<exists>stage n. cLog c' = [EError (StartFailure WarmTimeout stage n)])"
proof -
  let ?s = "live_run sample_options [Attach True (\<lambda>l. Keep) True]"
  let ?c = "new_consumer 2 (\<lambda>l. Keep) True"
  have "sState ?s = Warming \<and> (0, ?c) \<in> set (sConsumers ?s) \<and> cErrorListener ?c \<and> cLog ?c = []"
    by (simp add: live_run_def attachConsumer_def new_source_def effect_def warm_def openStream_def
        armWarmWatch_def sample_options_def new_consumer_def Let_def)
  then show ?thesis
    using warm_deadline_reports [of ?s sample_options "[Attach True (\<lambda>l. Keep) True]" 0 ?c] by fastforce
qed

section \<open>A failed start that did not fail\<close>

definition sample_frame :: "bool \<Rightarrow> live_frame" where
  "sample_frame k = \<lparr>fKeyframe = k, fWidth = 1, fHeight = 1, fCodec = H264, fData = []\<rparr>"

text \<open>
  Joining a stream that is being served resets what the source counts as delivered, the keyframe
  included; a delta frame then settles the watch without setting it again. If the upstream ends before
  the next keyframe, consumers that had been playing are handed a start failure and the owner is told
  that the stream never delivered a keyframe, which it did.
\<close>

lemma served_stream_reported_failed:
  "OnStartFailed \<in> set (sEffects (live_run sample_options
     [Attach True (\<lambda>l. Keep) True, UpVideo (sample_frame True) 0, Attach True (\<lambda>l. Keep) True,
      UpVideo (sample_frame False) 40, UpStop]))"
proof -
  let ?join = "Attach True (\<lambda>l. Keep) True"
  note calm = owner_calm_def each_fields sample_frame_def settleReuseWatch_def clearWarmWatch_def refresh_geometry_def
    armBudget_def clearBudget_def sample_options_def
  have video: "sGotKey (onVideo sample_options (sample_frame k) now s) = (k \<or> sGotKey s)"
    "sStream (onVideo sample_options (sample_frame k) now s) = sStream s"
    "sDisposed (onVideo sample_options (sample_frame k) now s) = sDisposed s"
    "sOwnerDisposes (onVideo sample_options (sample_frame k) now s) = sOwnerDisposes s"
    "k \<Longrightarrow> \<not> sDeadline (onVideo sample_options (sample_frame k) now s)"
    "k \<Longrightarrow> \<not> sRetry (onVideo sample_options (sample_frame k) now s)"
    if "\<not> sOwnerDisposes s" for k now s
    using that by (auto simp: onVideo_def Let_def calm)
  have join: "\<not> sGotKey (live_step sample_options s ?join) \<and> sStream (live_step sample_options s ?join)
      \<and> \<not> sDisposed (live_step sample_options s ?join) \<and> \<not> sOwnerDisposes (live_step sample_options s ?join)"
    if "\<not> sDisposed s" "sStream s" "\<not> sDeadline s" "\<not> sRetry s" "\<not> sOwnerDisposes s" for s
    using that visit_same
    by (auto simp: attachConsumer_def watchReusedStream_def armWarmWatch_def effect_def same_upstream_def owner_calm_def Let_def
        split: option.split)
  define s1 where "s1 = live_step sample_options new_source ?join"
  define s2 where "s2 = onVideo sample_options (sample_frame True) 0 s1"
  define s3 where "s3 = live_step sample_options s2 ?join"
  define s4 where "s4 = onVideo sample_options (sample_frame False) 40 s3"
  have s1: "sStream s1" "\<not> sDisposed s1" "\<not> sOwnerDisposes s1"
    by (simp_all add: s1_def attachConsumer_def new_source_def effect_def warm_def openStream_def armWarmWatch_def Let_def)
  have s2: "sStream s2" "\<not> sDisposed s2" "\<not> sOwnerDisposes s2" "\<not> sDeadline s2" "\<not> sRetry s2"
    using video [OF s1(3), of True 0] s1 unfolding s2_def by simp_all
  have s3: "\<not> sGotKey s3" "sStream s3" "\<not> sDisposed s3" "\<not> sOwnerDisposes s3"
    using join [OF s2(2,1,4,5,3)] unfolding s3_def by simp_all
  have s4: "\<not> sGotKey s4" "sStream s4" "\<not> sDisposed s4" "\<not> sOwnerDisposes s4"
    using video [OF s3(4), of False 40] s3 unfolding s4_def by simp_all
  have "OnStartFailed \<in> set (sEffects (onUpstreamEnd s4))"
    using s4 by (simp add: onUpstreamEnd_def teardown_def effect_def each_fields owner_calm_def Let_def)
  moreover have "live_run sample_options [?join, UpVideo (sample_frame True) 0, ?join, UpVideo (sample_frame False) 40, UpStop]
      = onUpstreamEnd s4"
    using s1(1) s3(2) s4(2) by (simp add: live_run_def s1_def s2_def s3_def s4_def del: live_step.simps(1))
  ultimately show ?thesis by simp
qed

section \<open>A source disposed of while its last consumer leaves\<close>

text \<open>
  The call that tells the owner of the last consumer may have it dispose of the source; the linger is armed
  all the same, on a source that is gone for good, and its state says lingering until the timer fires.
\<close>

lemma disposed_source_lingers:
  "let s = live_run sample_options [OwnerWill True, Attach True (\<lambda>l. Keep) True, Host 0 HDetach]
   in sDisposed s \<and> sState s = Lingering \<and> sLinger s \<and> \<not> sStream s"
  by (simp add: live_run_def attachConsumer_def new_source_def effect_def warm_def openStream_def armWarmWatch_def
      new_consumer_def visit_def onDetach_def arm_def c_detach_def Let_def)

end
