(* ===== verification/P2p_Reassembly.thy ===== *)
theory P2p_Reassembly
  imports P2p_Codec "HOL-Library.Sublist"
begin

text \<open>
  The inbound half of \<open>src/transport/p2p/p2p-session.ts\<close>: \<open>onData\<close>, which acknowledges each DATA
  datagram, drops retransmissions, and rebuilds the logical frames whose payload spans datagrams,
  sequenced independently per data type; with \<open>resetInboundSequencing\<close> and \<open>ackTypeHeader\<close>.
\<close>

section \<open>State\<close>

definition SEQUENCE_LOOKBACK :: int where "SEQUENCE_LOOKBACK = 0x8000"
definition STALE_RETRANSMIT_DEPTH :: int where "STALE_RETRANSMIT_DEPTH = 1024"
definition MAX_TRACED_DATAGRAM_GAPS :: nat where "MAX_TRACED_DATAGRAM_GAPS = 8"
definition P2P_DATA_HEADER_BYTES :: nat where "P2P_DATA_HEADER_BYTES = 16"

record inbound =
  pendingByDataType :: "byte \<Rightarrow> (p2p_header \<times> buffer) option"
  lastSeqByType :: "byte \<Rightarrow> int option"
  tracedDatagramGaps :: nat

definition resetInboundSequencing :: "inbound \<Rightarrow> inbound" where
  "resetInboundSequencing st =
     st\<lparr>lastSeqByType := (\<lambda>_. None), pendingByDataType := (\<lambda>_. None), tracedDatagramGaps := 0\<rparr>"

definition ackTypeHeader :: "byte \<Rightarrow> buffer" where
  "ackTypeHeader dataType =
     (if dataType = 1 then data_type_header DT_VIDEO
      else if dataType = 2 then data_type_header DT_CONTROL
      else if dataType = 3 then data_type_header DT_BINARY
      else data_type_header DT_DATA)"

definition read_u16be :: "buffer \<Rightarrow> nat \<Rightarrow> js_error + nat" where
  "read_u16be b i = (if i + 2 \<le> length b then Inr (u16be_at b i) else Inl RangeError)"

section \<open>One datagram\<close>

text \<open>
  The \<open>while\<close> of \<open>onData\<close>: whole frames at the front of \<open>body\<close>, and the frame left unfinished, if
  any. The parser cannot raise behind its length guard.
\<close>

function frames_loop :: "buffer \<Rightarrow> (p2p_header \<times> buffer) list \<times> (p2p_header \<times> buffer) option" where
  "frames_loop body =
     (if P2P_DATA_HEADER_BYTES \<le> length body \<and> slice 0 4 body = MAGIC_WORD then
        (case parseDataFrameHeader body of
           Inl e \<Rightarrow> ([], None)
         | Inr header \<Rightarrow>
             (let payload = drop P2P_DATA_HEADER_BYTES body in
              if length payload < bytesToRead header then ([], Some (header, payload))
              else
                (let (fs, p) = frames_loop (drop (P2P_DATA_HEADER_BYTES + bytesToRead header) body)
                 in ((header, take (bytesToRead header) payload) # fs, p))))
      else ([], None))"
  by pat_completeness auto
termination frames_loop
  by (relation "measure length") (auto simp: P2P_DATA_HEADER_BYTES_def)

declare frames_loop.simps [simp del]

text \<open>The bytes of one datagram behind what its data type has pending.\<close>

definition reassemble ::
  "(p2p_header \<times> buffer) option \<Rightarrow> buffer \<Rightarrow>
    (p2p_header \<times> buffer) list \<times> (p2p_header \<times> buffer) option" where
  "reassemble pending chunk =
     (case pending of
        None \<Rightarrow> frames_loop chunk
      | Some (carryHeader, buf) \<Rightarrow>
          (let body = buf @ chunk in
           if length body < bytesToRead carryHeader then ([], Some (carryHeader, body))
           else
             (let (fs, p) = frames_loop (drop (bytesToRead carryHeader) body)
              in ((carryHeader, take (bytesToRead carryHeader) body) # fs, p))))"

datatype gap_trace = DatagramGap byte | SequenceRestart byte

text \<open>
  \<open>onData\<close>: the state, the acknowledgement sent, the frames handed to \<open>handleFrame\<close> with their data
  type, and the traces. A datagram too short for its sequence number raises before anything is sent.
\<close>

definition onData ::
  "inbound \<Rightarrow> buffer \<Rightarrow>
    js_error + inbound \<times> buffer \<times> (p2p_header \<times> buffer \<times> byte) list \<times> gap_trace list" where
  "onData st msg =
     res_bind (read_u16be (slice 6 8 msg) 0) (\<lambda>seqNo.
     let dataType = msg ! 5 in
     res_bind (buildAckPayload (ackTypeHeader dataType) (int seqNo)) (\<lambda>ack.
     let prevSeq = lastSeqByType st dataType;
         advance = (case prevSeq of None \<Rightarrow> 1 | Some p \<Rightarrow> (int seqNo - p) mod 0x10000)
     in if advance = 0 then Inr (st, ack, [], [])
        else
          (let restarted = (advance > SEQUENCE_LOOKBACK \<and> 0x10000 - advance > STALE_RETRANSMIT_DEPTH)
           in if advance > SEQUENCE_LOOKBACK \<and> \<not> restarted then Inr (st, ack, [], [])
              else
                (let st1 = st\<lparr>lastSeqByType := (lastSeqByType st)(dataType := Some (int seqNo))\<rparr>;
                     lost = ((advance > 1 \<or> restarted) \<and> pendingByDataType st1 dataType \<noteq> None);
                     trace = (if lost \<and> tracedDatagramGaps st1 < MAX_TRACED_DATAGRAM_GAPS
                              then [if restarted then SequenceRestart dataType else DatagramGap dataType]
                              else []);
                     st2 = (if lost then st1\<lparr>tracedDatagramGaps := tracedDatagramGaps st1 + 1\<rparr> else st1);
                     pending = (if lost then None else pendingByDataType st2 dataType);
                     (fs, p) = reassemble pending (drop 8 msg)
                 in Inr (st2\<lparr>pendingByDataType := (pendingByDataType st2)(dataType := p)\<rparr>, ack,
                         map (\<lambda>(h, b). (h, b, dataType)) fs, trace)))))"

section \<open>What a station sends\<close>

text \<open>
  A logical frame on the wire: sixteen header bytes and the payload they announce. The stream of one
  data type is its frames end to end, cut into datagram bodies at any place that is not inside a header.
\<close>

type_synonym wire_frame = "buffer \<times> buffer"

definition wire_ok :: "wire_frame \<Rightarrow> bool" where
  "wire_ok f \<longleftrightarrow> length (fst f) = 16 \<and> slice 0 4 (fst f) = MAGIC_WORD \<and>
     (case parseDataFrameHeader (fst f) of Inl _ \<Rightarrow> False | Inr h \<Rightarrow> bytesToRead h = length (snd f))"

definition header_of :: "wire_frame \<Rightarrow> p2p_header" where
  "header_of f = (case parseDataFrameHeader (fst f) of Inr h \<Rightarrow> h
     | Inl _ \<Rightarrow> \<lparr>commandId = 0, bytesToRead = 0, channel = 0, signCode = 0, frameType = 0\<rparr>)"

definition received :: "wire_frame \<Rightarrow> p2p_header \<times> buffer" where
  "received f = (header_of f, snd f)"

fun stream_of :: "wire_frame list \<Rightarrow> buffer" where
  "stream_of [] = []"
| "stream_of (f # fs) = fst f @ snd f @ stream_of fs"

fun clean_cut :: "wire_frame list \<Rightarrow> nat \<Rightarrow> bool" where
  "clean_cut [] k \<longleftrightarrow> True"
| "clean_cut (f # fs) k \<longleftrightarrow>
     k = 0 \<or> 16 \<le> k \<and> (k < 16 + length (snd f) \<or> clean_cut fs (k - (16 + length (snd f))))"

text \<open>Where a cut leaves the receiver: the frame it is inside of, and how many frames are behind it.\<close>

fun inside :: "wire_frame list \<Rightarrow> nat \<Rightarrow> (p2p_header \<times> buffer) option" where
  "inside [] k = None"
| "inside (f # fs) k =
     (if k = 0 then None
      else if k < 16 + length (snd f) then Some (header_of f, take (k - 16) (snd f))
      else inside fs (k - (16 + length (snd f))))"

fun completed :: "wire_frame list \<Rightarrow> nat \<Rightarrow> nat" where
  "completed [] k = 0"
| "completed (f # fs) k =
     (if k < 16 + length (snd f) then 0 else Suc (completed fs (k - (16 + length (snd f)))))"

section \<open>One datagram of a stream\<close>

lemma wire_okD:
  assumes "wire_ok f"
  shows "length (fst f) = 16" "slice 0 4 (fst f) = MAGIC_WORD"
    "parseDataFrameHeader (fst f) = Inr (header_of f)" "bytesToRead (header_of f) = length (snd f)"
  using assms by (auto simp: wire_ok_def header_of_def split: sum.splits)

lemma parse_header_prefix:
  "length h = 16 \<Longrightarrow> parseDataFrameHeader (h @ r) = parseDataFrameHeader h"
  by (simp add: parseDataFrameHeader_def slice_def read_u8_def nth_append)

lemma magic_prefix: "length h = 16 \<Longrightarrow> slice 0 4 (h @ r) = slice 0 4 h"
  by (simp add: slice_def)

lemma frames_loop_short: "length b < 16 \<Longrightarrow> frames_loop b = ([], None)"
  by (subst frames_loop.simps) (simp add: P2P_DATA_HEADER_BYTES_def)

lemma frames_loop_frame:
  assumes "wire_ok f"
  shows "frames_loop (fst f @ r) =
    (if length r < length (snd f) then ([], Some (header_of f, r))
     else (let (fs, p) = frames_loop (drop (length (snd f)) r)
           in ((header_of f, take (length (snd f)) r) # fs, p)))"
  by (subst frames_loop.simps)
    (simp add: P2P_DATA_HEADER_BYTES_def wire_okD [OF assms] parse_header_prefix magic_prefix)

lemma inside_0 [simp]: "inside fs 0 = None"
  by (cases fs) simp_all

lemma completed_0: "list_all wire_ok fs \<Longrightarrow> completed fs 0 = 0"
  by (cases fs) simp_all

text \<open>
  The step: from a clean cut to a clean cut, exactly the frames that end in between are handed on and
  the receiver is left where the second cut says.
\<close>

lemma slice_stream_skip:
  "length h = n \<Longrightarrow> n + length p \<le> k \<Longrightarrow> k \<le> k' \<Longrightarrow>
    slice k k' (h @ p @ r) = slice (k - (n + length p)) (k' - (n + length p)) r"
  by (simp add: slice_def)

lemma carry_short:
  "buf @ chunk = t \<Longrightarrow> length t < bytesToRead h \<Longrightarrow> reassemble (Some (h, buf)) chunk = ([], Some (h, t))"
  by (auto simp: reassemble_def)

lemma slice_empty [simp]: "slice a a xs = []"
  by (simp add: slice_def)

lemma carry_whole:
  "buf @ chunk = t \<Longrightarrow> \<not> length t < bytesToRead h \<Longrightarrow>
    reassemble (Some (h, buf)) chunk =
      (let (fs, p) = frames_loop (drop (bytesToRead h) t) in ((h, take (bytesToRead h) t) # fs, p))"
  by (auto simp: reassemble_def)

lemma reassemble_step:
  assumes "list_all wire_ok fs" "clean_cut fs k" "clean_cut fs k'" "k \<le> k'"
  shows "reassemble (inside fs k) (slice k k' (stream_of fs)) =
    (map received (slice (completed fs k) (completed fs k') fs), inside fs k')"
  using assms
proof (induction fs arbitrary: k k')
  case Nil
  show ?case by (simp add: reassemble_def frames_loop_short slice_def)
next
  case (Cons f fs)
  let ?n = "16 + length (snd f)"
  from Cons.prems(1) have ok: "wire_ok f" and oks: "list_all wire_ok fs" by simp_all
  note w = wire_okD [OF ok]
  have rest: "frames_loop (take (k' - ?n) (stream_of fs)) =
      (map received (take (completed fs (k' - ?n)) fs), inside fs (k' - ?n))" if "?n \<le> k'"
    using Cons.IH [of 0 "k' - ?n"] Cons.prems(3) that oks
    by (cases fs) (auto simp: reassemble_def slice_def)
  consider (later) "?n \<le> k" | (start) "k = 0" | (mid) "16 \<le> k" "k < ?n"
    using Cons.prems(2) by fastforce
  then show ?case
  proof cases
    case later
    then have "clean_cut fs (k - ?n)" "clean_cut fs (k' - ?n)" using Cons.prems by auto
    from Cons.IH [OF oks this] later Cons.prems(4) w(1) show ?thesis
      by (simp add: slice_stream_skip slice_def)
  next
    case start
    then show ?thesis
    proof (cases "k' = 0")
      case True
      then show ?thesis using start by (simp add: reassemble_def frames_loop_short slice_def)
    next
      case False
      then have "16 \<le> k'" using Cons.prems(3) by auto
      then have c: "slice 0 k' (stream_of (f # fs)) = fst f @ take (k' - 16) (snd f @ stream_of fs)"
        using w(1) by (simp add: slice_def)
      show ?thesis
      proof (cases "k' < ?n")
        case True
        with \<open>16 \<le> k'\<close> have "k' - 16 < length (snd f)" by simp
        then show ?thesis using start False True c
          by (simp add: reassemble_def frames_loop_frame [OF ok] slice_def [of 0 0] del: stream_of.simps)
      next
        case nx: False
        then have "drop (length (snd f)) (take (k' - 16) (snd f @ stream_of fs)) = take (k' - ?n) (stream_of fs)"
          by (simp add: drop_take)
        then show ?thesis using start False nx c rest
          by (simp add: reassemble_def frames_loop_frame [OF ok] slice_def [of 0 "Suc _"] received_def Let_def
              del: stream_of.simps)
      qed
    qed
  next
    case mid
    have c: "slice k k' (stream_of (f # fs)) = slice (k - 16) (k' - 16) (snd f @ stream_of fs)"
      using mid(1) w(1) by (simp add: slice_def)
    have b: "take (k - 16) (snd f) @ slice (k - 16) (k' - 16) (snd f @ stream_of fs) =
        take (k' - 16) (snd f @ stream_of fs)"
    proof -
      have "take (k - 16) (snd f) = take (k - 16) (take (k' - 16) (snd f @ stream_of fs))"
        using mid Cons.prems(4) by (simp add: take_append)
      moreover have "slice (k - 16) (k' - 16) (snd f @ stream_of fs) = drop (k - 16) (take (k' - 16) (snd f @ stream_of fs))"
        by (simp only: slice_def drop_take)
      ultimately show ?thesis by (metis append_take_drop_id)
    qed
    show ?thesis
    proof (cases "k' < ?n")
      case True
      then have t: "take (k' - 16) (snd f @ stream_of fs) = take (k' - 16) (snd f)" by simp
      have "length (take (k' - 16) (snd f @ stream_of fs)) < bytesToRead (header_of f)"
        using True mid Cons.prems(4) unfolding w(4) t by simp
      from carry_short [OF b this] show ?thesis unfolding c t
        using mid True Cons.prems(4) by simp
    next
      case False
      then have d: "take (length (snd f)) (take (k' - 16) (snd f @ stream_of fs)) = snd f"
        "drop (length (snd f)) (take (k' - 16) (snd f @ stream_of fs)) = take (k' - ?n) (stream_of fs)"
        by (simp_all add: drop_take min_def)
      have "\<not> length (take (k' - 16) (snd f @ stream_of fs)) < bytesToRead (header_of f)"
        using False unfolding w(4) by simp
      from carry_whole [OF b this] show ?thesis unfolding c w(4) d
        using mid False rest by (simp add: received_def slice_def [of 0 "Suc _"])
    qed
  qed
qed

section \<open>A run of datagrams\<close>

record station_stream =
  stFirst :: nat
  stFrames :: "wire_frame list"
  stBodies :: "buffer list"

definition offset :: "buffer list \<Rightarrow> nat \<Rightarrow> nat" where
  "offset bodies j = length (concat (take j bodies))"

text \<open>
  What a station sends on one data type. A datagram that continues a frame does not begin with the magic
  word: nothing else tells it from one that begins a frame once what came before it is lost.
\<close>

definition stream_ok :: "station_stream \<Rightarrow> bool" where
  "stream_ok s \<longleftrightarrow> list_all wire_ok (stFrames s) \<and> concat (stBodies s) = stream_of (stFrames s) \<and>
     (\<forall>j \<le> length (stBodies s). clean_cut (stFrames s) (offset (stBodies s) j)) \<and>
     (\<forall>j < length (stBodies s). inside (stFrames s) (offset (stBodies s) j) \<noteq> None \<longrightarrow>
        slice 0 4 (stBodies s ! j) \<noteq> MAGIC_WORD)"

definition seq_of :: "station_stream \<Rightarrow> nat \<Rightarrow> int" where
  "seq_of s j = int (stFirst s + j) mod 0x10000"

definition data_datagram :: "byte \<Rightarrow> int \<Rightarrow> buffer \<Rightarrow> buffer" where
  "data_datagram dt sq body =
     response_bytes RESP_DATA @ u16be (int (length body) + 4) @ [0xd1, dt] @ u16be sq @ body"

definition datagram_of :: "(byte \<Rightarrow> station_stream) \<Rightarrow> byte \<times> nat \<Rightarrow> buffer" where
  "datagram_of S dj = data_datagram (fst dj) (seq_of (S (fst dj)) (snd dj)) (stBodies (S (fst dj)) ! snd dj)"

text \<open>Datagrams arriving one after the other: the state, the acknowledgements, the frames handed on.\<close>

fun receive ::
  "inbound \<Rightarrow> buffer list \<Rightarrow> js_error + inbound \<times> buffer list \<times> (p2p_header \<times> buffer \<times> byte) list" where
  "receive st [] = Inr (st, [], [])"
| "receive st (m # ms) =
     res_bind (onData st m) (\<lambda>(st1, ack, fs, tr).
     res_bind (receive st1 ms) (\<lambda>(st2, acks, gs). Inr (st2, ack # acks, fs @ gs)))"

definition indices :: "byte \<Rightarrow> (byte \<times> nat) list \<Rightarrow> nat list" where
  "indices d ds = map snd (filter (\<lambda>p. fst p = d) ds)"

definition frames_of :: "byte \<Rightarrow> (p2p_header \<times> buffer \<times> byte) list \<Rightarrow> (p2p_header \<times> buffer) list" where
  "frames_of d fs = map (\<lambda>(h, b, _). (h, b)) (filter (\<lambda>(_, _, d'). d' = d) fs)"

text \<open>
  The arrivals the numbering can carry: at most half the space ahead of the highest so far, or a repeat
  at most the retransmission depth behind it.
\<close>

fun near :: "nat option \<Rightarrow> nat \<Rightarrow> bool" where
  "near None j \<longleftrightarrow> True"
| "near (Some i) j \<longleftrightarrow> (if j \<le> i then i - j \<le> 1024 else j - i \<le> 32768)"

fun mark :: "nat option \<Rightarrow> nat \<Rightarrow> nat" where
  "mark None j = j"
| "mark (Some i) j = max i j"

fun in_window :: "nat option \<Rightarrow> nat list \<Rightarrow> bool" where
  "in_window h [] \<longleftrightarrow> True"
| "in_window h (j # js) \<longleftrightarrow> near h j \<and> in_window (Some (mark h j)) js"

text \<open>Nothing is skipped: each arrival is the next one or a repeat.\<close>

fun gapless :: "nat \<Rightarrow> nat list \<Rightarrow> bool" where
  "gapless n [] \<longleftrightarrow> True"
| "gapless n (j # js) \<longleftrightarrow> (if j < n then gapless n js else j = n \<and> gapless (Suc n) js)"

subsection \<open>One channel of the state\<close>

definition channel_step ::
  "int option \<times> (p2p_header \<times> buffer) option \<Rightarrow> int \<Rightarrow> buffer \<Rightarrow>
    (int option \<times> (p2p_header \<times> buffer) option) \<times> (p2p_header \<times> buffer) list" where
  "channel_step lp sq body =
     (let adv = (case fst lp of None \<Rightarrow> 1 | Some p \<Rightarrow> (sq - p) mod 0x10000)
      in if adv = 0 \<or> adv > 0x8000 \<and> 0x10000 - adv \<le> 1024 then (lp, [])
         else (let (fs, p) = reassemble (if adv > 1 then None else snd lp) body in ((Some sq, p), fs)))"

definition channel_of :: "inbound \<Rightarrow> byte \<Rightarrow> int option \<times> (p2p_header \<times> buffer) option" where
  "channel_of st d = (lastSeqByType st d, pendingByDataType st d)"

lemma datagram_parts:
  "slice 6 8 (data_datagram dt sq body) = u16be sq" "data_datagram dt sq body ! 5 = dt"
  "drop 8 (data_datagram dt sq body) = body"
  by (simp_all add: data_datagram_def slice_def u16be_def)

lemma onData_channel:
  assumes "0 \<le> sq" "sq < 65536"
  obtains st' tr where
    "onData st (data_datagram dt sq body) =
       Inr (st', ackTypeHeader dt @ u16be 1 @ u16be sq,
            map (\<lambda>(h, b). (h, b, dt)) (snd (channel_step (channel_of st dt) sq body)), tr)"
    "\<And>d. channel_of st' d = (if d = dt then fst (channel_step (channel_of st dt) sq body) else channel_of st d)"
proof -
  have r: "read_u16be (u16be sq) 0 = Inr (nat sq)"
    using int_u16be [of sq "[]"] assms by (simp add: read_u16be_def)
  have ack: "buildAckPayload (ackTypeHeader dt) sq = Inr (ackTypeHeader dt @ u16be 1 @ u16be sq)"
    using assms by (simp add: buildAckPayload_def write_u16be_def)
  define adv where "adv = (case lastSeqByType st dt of None \<Rightarrow> 1 | Some p \<Rightarrow> (sq - p) mod 0x10000)"
  have nn: "int (nat sq) = sq" using assms by simp
  note od = onData_def datagram_parts r res_bind_simps Let_def nn ack
    adv_def [symmetric]
  show ?thesis
  proof (cases "adv = 0 \<or> adv > 0x8000 \<and> 0x10000 - adv \<le> 1024")
    case True
    then have "onData st (data_datagram dt sq body) = Inr (st, ackTypeHeader dt @ u16be 1 @ u16be sq, [], [])"
      unfolding od SEQUENCE_LOOKBACK_def STALE_RETRANSMIT_DEPTH_def by (elim disjE conjE) simp_all
    moreover have "channel_step (channel_of st dt) sq body = (channel_of st dt, [])"
      using True by (simp add: channel_step_def channel_of_def adv_def [symmetric])
    ultimately show ?thesis using that [of st "[]"] by simp
  next
    case False
    obtain fs p where re: "reassemble (if adv > 1 then None else pendingByDataType st dt) body = (fs, p)"
      by fastforce
    let ?restarted = "adv > 0x8000 \<and> 0x10000 - adv > 1024"
    let ?lost = "(adv > 1 \<or> ?restarted) \<and> pendingByDataType st dt \<noteq> None"
    have pend: "(if ?lost then None else pendingByDataType st dt) =
        (if adv > 1 then None else pendingByDataType st dt)" by (cases "pendingByDataType st dt") auto
    have c: "channel_step (channel_of st dt) sq body = ((Some sq, p), fs)"
      unfolding channel_step_def channel_of_def fst_conv snd_conv adv_def [symmetric] Let_def re prod.case
      using False by (rule if_not_P)
    let ?st = "st\<lparr>lastSeqByType := (lastSeqByType st)(dt := Some sq)\<rparr>"
    let ?st2 = "if ?lost then ?st\<lparr>tracedDatagramGaps := tracedDatagramGaps ?st + 1\<rparr> else ?st"
    have keep: "pendingByDataType ?st = pendingByDataType st" "pendingByDataType ?st2 = pendingByDataType st"
      "lastSeqByType ?st2 = (lastSeqByType st)(dt := Some sq)" by simp_all
    have na: "(adv = 0) = False" and nb: "(adv > 0x8000 \<and> \<not> ?restarted) = False" using False by auto
    have "\<exists>tr. onData st (data_datagram dt sq body) =
        Inr (?st2\<lparr>pendingByDataType := (pendingByDataType st)(dt := p)\<rparr>,
          ackTypeHeader dt @ u16be 1 @ u16be sq, map (\<lambda>(h, b). (h, b, dt)) fs, tr)"
      unfolding od SEQUENCE_LOOKBACK_def STALE_RETRANSMIT_DEPTH_def keep pend re prod.case na nb if_False
      by simp
    then obtain tr where o: "onData st (data_datagram dt sq body) =
        Inr (?st2\<lparr>pendingByDataType := (pendingByDataType st)(dt := p)\<rparr>,
          ackTypeHeader dt @ u16be 1 @ u16be sq, map (\<lambda>(h, b). (h, b, dt)) fs, tr)" by blast
    show ?thesis
      by (rule that [of "?st2\<lparr>pendingByDataType := (pendingByDataType st)(dt := p)\<rparr>" tr])
        (use o c keep(3) in \<open>simp_all add: channel_of_def\<close>)
  qed
qed

lemma onData_channel_ex:
  assumes "0 \<le> sq" "sq < 65536"
  shows "\<exists>st' tr. onData st (data_datagram dt sq body) =
      Inr (st', ackTypeHeader dt @ u16be 1 @ u16be sq,
           map (\<lambda>(h, b). (h, b, dt)) (snd (channel_step (channel_of st dt) sq body)), tr) \<and>
    (\<forall>d. channel_of st' d = (if d = dt then fst (channel_step (channel_of st dt) sq body) else channel_of st d))"
  by (rule onData_channel [OF assms, of st dt body]) (intro exI conjI allI)

subsection \<open>What a channel holds after a run\<close>

lemma completed_mono:
  "list_all wire_ok fs \<Longrightarrow> k \<le> k' \<Longrightarrow> completed fs k \<le> completed fs k'"
  by (induction fs arbitrary: k k') auto

lemma completed_all: "list_all wire_ok fs \<Longrightarrow> completed fs (length (stream_of fs)) = length fs"
  by (induction fs) (auto simp: wire_okD(1))

lemma offset_Suc: "j < length bodies \<Longrightarrow> offset bodies (Suc j) = offset bodies j + length (bodies ! j)"
  by (simp add: offset_def take_Suc_conv_app_nth)

lemma offset_mono: "i \<le> j \<Longrightarrow> offset bodies i \<le> offset bodies j"
proof -
  assume "i \<le> j"
  then have "take j bodies = take i bodies @ take (j - i) (drop i bodies)" by (metis le_add_diff_inverse take_add)
  then show ?thesis by (simp add: offset_def)
qed

lemma body_slice:
  assumes "j < length bodies"
  shows "bodies ! j = slice (offset bodies j) (offset bodies (Suc j)) (concat bodies)"
proof -
  have "concat bodies = concat (take j bodies) @ bodies ! j @ concat (drop (Suc j) bodies)"
    using id_take_nth_drop [OF assms] by (metis concat.simps(2) concat_append)
  then show ?thesis using assms by (simp add: slice_def offset_def take_Suc_conv_app_nth)
qed

definition done_by :: "station_stream \<Rightarrow> nat \<Rightarrow> nat" where
  "done_by s j = completed (stFrames s) (offset (stBodies s) j)"

definition left_at :: "station_stream \<Rightarrow> nat \<Rightarrow> (p2p_header \<times> buffer) option" where
  "left_at s j = inside (stFrames s) (offset (stBodies s) j)"

text \<open>
  A datagram met by a receiver that is either where the stream says or holds nothing: it is left again
  in one of the two, and what it hands on is what ends there, or nothing.
\<close>

lemma reassemble_body:
  assumes "stream_ok s" "j < length (stBodies s)" "p = None \<or> p = left_at s j"
  obtains fs p' where "reassemble p (stBodies s ! j) = (fs, p')" "p' = None \<or> p' = left_at s (Suc j)"
    "fs = [] \<or> fs = map received (slice (done_by s j) (done_by s (Suc j)) (stFrames s))"
    "p = left_at s j \<Longrightarrow> p' = left_at s (Suc j) \<and>
       fs = map received (slice (done_by s j) (done_by s (Suc j)) (stFrames s))"
proof (cases "p = left_at s j")
  case True
  have "reassemble (left_at s j) (stBodies s ! j) =
      (map received (slice (done_by s j) (done_by s (Suc j)) (stFrames s)), left_at s (Suc j))"
    unfolding left_at_def done_by_def body_slice [OF assms(2)]
    using assms(1,2) reassemble_step [of "stFrames s" "offset (stBodies s) j" "offset (stBodies s) (Suc j)"]
    by (simp add: stream_ok_def offset_mono)
  then show ?thesis using that [of "map received (slice (done_by s j) (done_by s (Suc j)) (stFrames s))"
        "left_at s (Suc j)"] True by simp
next
  case False
  then have "p = None" "left_at s j \<noteq> None" using assms(3) by auto
  then have "slice 0 4 (stBodies s ! j) \<noteq> MAGIC_WORD"
    using assms(1,2) by (simp add: stream_ok_def left_at_def)
  then have "reassemble p (stBodies s ! j) = ([], None)"
    using \<open>p = None\<close> by (simp add: reassemble_def frames_loop.simps [of "stBodies s ! j"])
  then show ?thesis using that [of "[]" None] False by simp
qed

text \<open>
  \<open>exact\<close> is that nothing was skipped; then the channel holds and has handed on all there is, otherwise
  a subsequence of it and either the frame in progress or nothing.
\<close>

definition channel_inv ::
  "station_stream \<Rightarrow> bool \<Rightarrow> nat option \<Rightarrow> int option \<times> (p2p_header \<times> buffer) option \<Rightarrow>
    (p2p_header \<times> buffer) list \<Rightarrow> bool" where
  "channel_inv s exact h lp out \<longleftrightarrow>
     (case h of
        None \<Rightarrow> lp = (None, None) \<and> out = []
      | Some i \<Rightarrow> i < length (stBodies s) \<and> fst lp = Some (seq_of s i) \<and>
          (snd lp = None \<or> snd lp = left_at s (Suc i)) \<and>
          subseq out (map received (take (done_by s (Suc i)) (stFrames s))) \<and>
          (exact \<longrightarrow> snd lp = left_at s (Suc i) \<and>
             out = map received (take (done_by s (Suc i)) (stFrames s))))"

lemma seq_ahead: "i < j \<Longrightarrow> j - i \<le> 32768 \<Longrightarrow> (seq_of s j - seq_of s i) mod 65536 = int (j - i)"
  by (simp add: seq_of_def mod_diff_eq algebra_simps)

lemma seq_behind:
  "j \<le> i \<Longrightarrow> i - j \<le> 1024 \<Longrightarrow>
    (seq_of s j - seq_of s i) mod 65536 = (if i = j then 0 else 65536 - int (i - j))"
proof -
  assume a: "j \<le> i" "i - j \<le> 1024"
  have "(seq_of s j - seq_of s i) mod 65536 = (int j - int i) mod 65536"
    by (simp add: seq_of_def mod_diff_eq algebra_simps)
  also have "\<dots> = (65536 - int (i - j)) mod 65536"
    using a(1) mod_add_self1 [of 65536 "int j - int i"] by (simp add: of_nat_diff)
  also have "\<dots> = (if i = j then 0 else 65536 - int (i - j))"
  proof (cases "i = j")
    case False
    then have "0 \<le> 65536 - int (i - j)" "65536 - int (i - j) < 65536" using a by linarith+
    then show ?thesis using False by (simp only: mod_pos_pos_trivial if_False)
  qed simp
  finally show ?thesis .
qed

fun next_of :: "nat option \<Rightarrow> nat" where
  "next_of None = 0"
| "next_of (Some i) = Suc i"

lemma channel_inv_step:
  assumes ok: "stream_ok s" and inv: "channel_inv s ex h lp out" and j: "j < length (stBodies s)"
    and nr: "near h j"
  shows "channel_inv s (ex \<and> j \<le> next_of h) (Some (mark h j))
    (fst (channel_step lp (seq_of s j) (stBodies s ! j)))
    (out @ snd (channel_step lp (seq_of s j) (stBodies s ! j)))"
proof (cases "\<exists>i. h = Some i \<and> j \<le> i")
  case True
  then obtain i where h: "h = Some i" "j \<le> i" by blast
  have "channel_step lp (seq_of s j) (stBodies s ! j) = (lp, [])"
    using inv h nr seq_behind [of j i s] by (auto simp: channel_step_def channel_inv_def)
  moreover have "mark h j = i" using h by simp
  ultimately show ?thesis using inv h by (auto simp: channel_inv_def)
next
  case new: False
  have m: "mark h j = j" using new by (cases h) auto
  define k where "k = next_of h"
  have kj: "k \<le> j" using new by (cases h) (auto simp: k_def)
  define adv where "adv = (case fst lp of None \<Rightarrow> 1 | Some p \<Rightarrow> (seq_of s j - p) mod 0x10000)"
  have adv: "adv = (case h of None \<Rightarrow> 1 | Some i \<Rightarrow> int (j - i))"
    using new inv nr seq_ahead [of _ j s]
    by (cases h) (auto simp: adv_def channel_inv_def not_le)
  have fresh: "\<not> (adv = 0 \<or> adv > 0x8000 \<and> 0x10000 - adv \<le> 1024)"
    using new nr unfolding adv by (cases h) auto
  let ?p = "if adv > 1 then None else snd lp"
  have k0: "left_at s 0 = None" by (simp add: left_at_def offset_def)
  have p: "?p = None \<or> ?p = left_at s j"
    proof (cases h)
      case None
      then show ?thesis using inv by (simp add: channel_inv_def)
    next
      case (Some i)
      then have "adv \<le> 1 \<Longrightarrow> j = Suc i" using new unfolding adv by simp
      then show ?thesis using inv Some by (cases "adv > 1") (auto simp: channel_inv_def)
    qed
  have exact: "?p = left_at s j" if "ex \<and> j \<le> k"
    proof (cases h)
      case None
      then have "j = 0" using that by (simp add: k_def)
      then show ?thesis using inv None k0 by (simp add: channel_inv_def)
    next
      case (Some i)
      then have "j = Suc i" using that kj by (simp add: k_def)
      moreover have "adv = 1" using Some \<open>j = Suc i\<close> unfolding adv by simp
      ultimately show ?thesis using inv Some that by (simp add: channel_inv_def)
    qed
  obtain fs p' where re: "reassemble ?p (stBodies s ! j) = (fs, p')"
    and p': "p' = None \<or> p' = left_at s (Suc j)"
    and fs: "fs = [] \<or> fs = map received (slice (done_by s j) (done_by s (Suc j)) (stFrames s))"
    and ex': "?p = left_at s j \<Longrightarrow> p' = left_at s (Suc j) \<and>
       fs = map received (slice (done_by s j) (done_by s (Suc j)) (stFrames s))"
    using reassemble_body [OF ok j p] by blast
  have step: "channel_step lp (seq_of s j) (stBodies s ! j) = ((Some (seq_of s j), p'), fs)"
    unfolding channel_step_def Let_def adv_def [symmetric] re prod.case using fresh by (rule if_not_P)
  have w: "list_all wire_ok (stFrames s)" using ok by (simp add: stream_ok_def)
  have le: "done_by s j \<le> done_by s (Suc j)" "done_by s k \<le> done_by s j"
    unfolding done_by_def using kj by (auto intro!: completed_mono [OF w] offset_mono)
  have glue: "take a xs @ slice a b xs = take b xs" if "a \<le> b" for a b and xs :: "wire_frame list"
    using take_add [of a "b - a" xs] that by (simp add: slice_def)
  have d0: "done_by s 0 = 0" using w by (simp add: done_by_def offset_def completed_0)
  have sub: "subseq out (map received (take (done_by s k) (stFrames s)))"
    using inv by (cases h) (auto simp: channel_inv_def k_def)
  have "subseq out (map received (take (done_by s j) (stFrames s)))"
    using sub glue [OF le(2), of "stFrames s"] by (metis map_append subseq_rev_drop_many)
  moreover have "subseq fs (map received (slice (done_by s j) (done_by s (Suc j)) (stFrames s)))"
    using fs by auto
  ultimately have "subseq (out @ fs) (map received (take (done_by s (Suc j)) (stFrames s)))"
    using glue [OF le(1), of "stFrames s"] by (metis list_emb_append_mono map_append)
  moreover have "out @ fs = map received (take (done_by s (Suc j)) (stFrames s))" if "ex \<and> j \<le> k"
  proof -
    have "out = map received (take (done_by s j) (stFrames s))"
      using that kj inv d0 by (cases h) (auto simp: channel_inv_def k_def)
    then show ?thesis using ex' [OF exact [OF that]] glue [OF le(1), of "stFrames s"]
      by (simp flip: map_append)
  qed
  ultimately show ?thesis
    unfolding m step using j p' ex' exact by (auto simp: channel_inv_def k_def)
qed

lemma frames_of_simps:
  "frames_of d (xs @ ys) = frames_of d xs @ frames_of d ys"
  "frames_of d (map (\<lambda>(h, b). (h, b, d')) fs) = (if d = d' then fs else [])"
  by (induction fs) (auto simp: frames_of_def)

lemma indices_Cons: "indices d ((d', j) # ds) = (if d = d' then j # indices d ds else indices d ds)"
  by (simp add: indices_def)

lemma next_mark: "near h j \<Longrightarrow> next_of (Some (mark h j)) = (if j < next_of h then next_of h else Suc j)"
  by (cases h) auto

lemma gapless_Cons:
  "near h j \<Longrightarrow> gapless (next_of h) (j # js) \<longleftrightarrow> j \<le> next_of h \<and> gapless (next_of (Some (mark h j))) js"
  unfolding next_mark by (auto simp: gapless.simps)

definition ack_of :: "(byte \<Rightarrow> station_stream) \<Rightarrow> byte \<times> nat \<Rightarrow> buffer" where
  "ack_of S dj = ackTypeHeader (fst dj) @ u16be 1 @ u16be (seq_of (S (fst dj)) (snd dj))"

lemma receive_run:
  assumes "\<forall>d. stream_ok (S d)" "\<forall>(d, j) \<in> set ds. j < length (stBodies (S d))"
    and "\<forall>d. in_window (h d) (indices d ds)"
    and "\<forall>d. channel_inv (S d) (ex d) (h d) (channel_of st d) (out d)"
  shows "\<exists>st' fs. receive st (map (datagram_of S) ds) = Inr (st', map (ack_of S) ds, fs) \<and>
    (\<forall>d. channel_inv (S d) (ex d \<and> gapless (next_of (h d)) (indices d ds))
      (foldl (\<lambda>m j. Some (mark m j)) (h d) (indices d ds)) (channel_of st' d) (out d @ frames_of d fs))"
  using assms(2-)
proof (induction ds arbitrary: st h ex out)
  case Nil
  then show ?case by (simp add: indices_def frames_of_def)
next
  case (Cons dj ds)
  obtain d j where dj: "dj = (d, j)" by fastforce
  let ?s = "S d"
  have j: "j < length (stBodies ?s)" and nr: "near (h d) j"
    using Cons.prems(1) spec [OF Cons.prems(2), of d] by (auto simp: dj indices_Cons)
  have b: "0 \<le> seq_of ?s j" "seq_of ?s j < 65536" by (simp_all add: seq_of_def)
  let ?c = "channel_step (channel_of st d) (seq_of ?s j) (stBodies ?s ! j)"
  obtain st1 tr where o: "onData st (data_datagram d (seq_of ?s j) (stBodies ?s ! j)) =
       Inr (st1, ackTypeHeader d @ u16be 1 @ u16be (seq_of ?s j), map (\<lambda>(h, b). (h, b, d)) (snd ?c), tr)"
    and c1: "\<And>e. channel_of st1 e = (if e = d then fst ?c else channel_of st e)"
    using onData_channel_ex [OF b, of st d "stBodies ?s ! j"] by (elim exE conjE) (rule that, assumption, erule spec)
  let ?h = "h(d := Some (mark (h d) j))" and ?ex = "ex(d := ex d \<and> j \<le> next_of (h d))"
    and ?out = "out(d := out d @ snd ?c)"
  have iw: "\<forall>e. in_window (?h e) (indices e ds)"
    using Cons.prems(2) by (auto simp: dj indices_Cons split: if_splits)
  have inv: "\<forall>e. channel_inv (S e) (?ex e) (?h e) (channel_of st1 e) (?out e)"
    using channel_inv_step [OF _ _ j nr, of "ex d" "channel_of st d" "out d"] assms(1) Cons.prems(3)
    by (simp add: c1)
  from Cons.prems(1) have mem: "\<forall>(d, j) \<in> set ds. j < length (stBodies (S d))" by simp
  from Cons.IH [OF mem iw inv] obtain st' fs where
    r: "receive st1 (map (datagram_of S) ds) = Inr (st', map (ack_of S) ds, fs)"
    and i: "\<And>e. channel_inv (S e) (?ex e \<and> gapless (next_of (?h e)) (indices e ds))
      (foldl (\<lambda>m j. Some (mark m j)) (?h e) (indices e ds)) (channel_of st' e) (?out e @ frames_of e fs)"
    by blast
  have "channel_inv (S e) (ex e \<and> gapless (next_of (h e)) (indices e (dj # ds)))
      (foldl (\<lambda>m j. Some (mark m j)) (h e) (indices e (dj # ds))) (channel_of st' e)
      (out e @ frames_of e (map (\<lambda>(h, b). (h, b, d)) (snd ?c) @ fs))" for e
  proof (cases "e = d")
    case True
    then show ?thesis using i [of d] gapless_Cons [OF nr, of "indices d ds"]
      by (simp only: dj indices_Cons frames_of_simps fun_upd_same simp_thms if_True foldl.simps append_assoc conj_assoc)
  next
    case False
    then show ?thesis using i [of e] by (simp add: dj indices_Cons frames_of_simps)
  qed
  moreover have "receive st (map (datagram_of S) (dj # ds)) =
      Inr (st', map (ack_of S) (dj # ds), map (\<lambda>(h, b). (h, b, d)) (snd ?c) @ fs)"
    using o r by (simp add: dj datagram_of_def [of S "(d, j)"] ack_of_def [of S "(d, j)"])
  ultimately show ?case by blast
qed

lemma run_marks:
  "h \<noteq> None \<or> js \<noteq> [] \<Longrightarrow> \<exists>i. foldl (\<lambda>m j. Some (mark m j)) h js = Some i \<and> (\<forall>j \<in> set js. j \<le> i)"
proof (induction js arbitrary: h)
  case Nil
  then show ?case by auto
next
  case (Cons j js)
  have top: "\<exists>i \<ge> m. foldl (\<lambda>m j. Some (mark m j)) (Some m) js = Some i" for m
    by (induction js arbitrary: m) (auto, metis max.boundedE)
  from Cons.IH [of "Some (mark h j)"] obtain i where
    i: "foldl (\<lambda>m j. Some (mark m j)) (Some (mark h j)) js = Some i" "\<forall>j \<in> set js. j \<le> i" by auto
  then have "j \<le> i" using top [of "mark h j"] by (cases h) auto
  then show ?case using i by simp
qed

lemma subseq_taken: "subseq (take n xs) xs"
  using subseq_rev_drop_many [of "take n xs" "take n xs" "drop n xs"] by simp

text \<open>
  C1. A frame is handed on whole, in order and at most once, whatever the network does within the
  numbering. The stations number each data type's datagrams from anywhere and wrap, cut the stream of frames
  anywhere but inside a header, and begin no continuation with the magic word; the arrivals are of all data
  types interleaved, repeated or behind by up to the retransmission depth, ahead by up to half the numbering,
  with any of them lost. Then every datagram is acknowledged, and the frames handed on for a data type are a
  subsequence of the ones sent on it, header and payload intact. They are all of the ones sent where every
  datagram of the type arrived and none came before one it follows (repeats may): nothing is held back for a
  datagram that was overtaken, which arrives late and is dropped, and the frame it belongs to is lost
  (\<open>overtaken_frame_lost\<close>).
\<close>

theorem reassembly_exactly_once:
  assumes "\<forall>d. stream_ok (S d)" "\<forall>(d, j) \<in> set ds. j < length (stBodies (S d))"
    and "\<forall>d. in_window None (indices d ds)"
  shows "\<exists>st' fs. receive (resetInboundSequencing st) (map (datagram_of S) ds) = Inr (st', map (ack_of S) ds, fs) \<and>
    (\<forall>d. subseq (frames_of d fs) (map received (stFrames (S d))) \<and>
      (gapless 0 (indices d ds) \<and> set (indices d ds) = {..<length (stBodies (S d))} \<longrightarrow>
        frames_of d fs = map received (stFrames (S d))))"
proof -
  have "\<forall>d. channel_inv (S d) True None (channel_of (resetInboundSequencing st) d) []"
    by (simp add: channel_inv_def channel_of_def resetInboundSequencing_def)
  from receive_run [OF assms, of "\<lambda>_. True" "resetInboundSequencing st" "\<lambda>_. []", OF this]
  obtain st' fs where
    r: "receive (resetInboundSequencing st) (map (datagram_of S) ds) = Inr (st', map (ack_of S) ds, fs)"
    and i: "\<And>d. channel_inv (S d) (gapless 0 (indices d ds))
      (foldl (\<lambda>m j. Some (mark m j)) None (indices d ds)) (channel_of st' d) (frames_of d fs)" by auto
  have "subseq (frames_of d fs) (map received (stFrames (S d)))" for d
    using i [of d] subseq_order.trans [OF _ subseq_taken]
    by (cases "foldl (\<lambda>m j. Some (mark m j)) None (indices d ds)")
      (auto simp: channel_inv_def simp flip: take_map)
  moreover have "frames_of d fs = map received (stFrames (S d))"
    if g: "gapless 0 (indices d ds)" and all: "set (indices d ds) = {..<length (stBodies (S d))}" for d
  proof -
    have ok: "stream_ok (S d)" using assms(1) by blast
    note w = ok [unfolded stream_ok_def, THEN conjunct1]
    show ?thesis
    proof (cases "stBodies (S d) = []")
      case True
      then have "stream_of (stFrames (S d)) = []" using ok by (simp add: stream_ok_def)
      then have "stFrames (S d) = []" using w by (cases "stFrames (S d)") (auto dest: wire_okD(1))
      moreover have "indices d ds = []" using all True by simp
      ultimately show ?thesis using i [of d] by (simp add: channel_inv_def)
    next
      case False
      let ?n = "length (stBodies (S d))"
      have last: "?n - 1 \<in> set (indices d ds)" unfolding all using False by simp
      then have ne: "indices d ds \<noteq> []" by (cases "indices d ds") simp_all
      obtain m where m: "foldl (\<lambda>m j. Some (mark m j)) None (indices d ds) = Some m"
        "\<forall>j \<in> set (indices d ds). j \<le> m" using run_marks [OF disjI2, OF ne, of None] by (elim exE conjE) (rule that)
      have "?n - 1 \<le> m" using m(2) last by blast
      moreover have "m < ?n" using i [of d] m(1) by (simp add: channel_inv_def)
      ultimately have "Suc m = ?n" by simp
      then have "done_by (S d) (Suc m) = length (stFrames (S d))"
        using ok completed_all [OF w] by (simp add: done_by_def offset_def stream_ok_def)
      then show ?thesis using i [of d] m(1) g by (simp add: channel_inv_def)
    qed
  qed
  ultimately have "\<forall>d. subseq (frames_of d fs) (map received (stFrames (S d))) \<and>
      (gapless 0 (indices d ds) \<and> set (indices d ds) = {..<length (stBodies (S d))} \<longrightarrow>
        frames_of d fs = map received (stFrames (S d)))" by simp
  with r show ?thesis by (intro exI [of _ st'] exI [of _ fs] conjI)
qed

text \<open>A notification in two datagrams around the wrap of the numbering, the first of them repeated.\<close>

definition sample_wire :: wire_frame where
  "sample_wire = (MAGIC_WORD @ [0x47, 0x05] @ [3, 0, 0, 0] @ [1, 0, 255, 1, 0, 0], [10, 11, 12])"

definition sample_station :: "byte \<Rightarrow> station_stream" where
  "sample_station d =
     (if d = 0 then \<lparr>stFirst = 65535, stFrames = [sample_wire], stBodies = [fst sample_wire @ [10, 11], [12]]\<rparr>
      else \<lparr>stFirst = 0, stFrames = [], stBodies = []\<rparr>)"

lemma sample_wire_ok: "wire_ok sample_wire"
  by (simp add: wire_ok_def sample_wire_def MAGIC_WORD_def bytes_of_string_def slice_def
      parseDataFrameHeader_def read_u16le_def read_u32le_def read_u8_def u16le_at_def u32le_at_def)

lemma sample_station_ok: "stream_ok (sample_station d)"
proof (cases "d = 0")
  case True
  have e: "(\<forall>j \<le> Suc (Suc 0). P j) \<longleftrightarrow> P 0 \<and> P 1 \<and> P 2" "(\<forall>j < Suc (Suc 0). P j) \<longleftrightarrow> P 0 \<and> P 1" for P :: "nat \<Rightarrow> bool"
    by (auto simp: le_Suc_eq less_Suc_eq numeral_2_eq_2)
  have l: "length (fst sample_wire) = 16" "length (snd sample_wire) = 3" "snd sample_wire = [10, 11, 12]"
    by (simp_all add: sample_wire_def MAGIC_WORD_def bytes_of_string_def)
  then show ?thesis
    using True sample_wire_ok
    by (simp add: stream_ok_def sample_station_def e offset_def slice_def take_Cons' MAGIC_WORD_def bytes_of_string_def)
next
  case False
  then show ?thesis by (simp add: stream_ok_def sample_station_def)
qed

lemma reassembly_exactly_once_witness:
  "\<exists>st' fs. receive (resetInboundSequencing \<lparr>pendingByDataType = \<lambda>_. None, lastSeqByType = \<lambda>_. None,
        tracedDatagramGaps = 0\<rparr>) (map (datagram_of sample_station) [(0, 0), (0, 0), (0, 1)]) =
      Inr (st', map (ack_of sample_station) [(0, 0), (0, 0), (0, 1)], fs) \<and>
    frames_of 0 fs = [received sample_wire]"
proof -
  have "\<forall>(d, j) \<in> set [(0 :: byte, 0), (0, 0), (0, 1)]. j < length (stBodies (sample_station d))"
    by (simp add: sample_station_def)
  moreover have "\<forall>d. in_window None (indices d [(0, 0), (0, 0), (0, 1)])"
    by (simp add: indices_def)
  moreover have "gapless 0 (indices 0 [(0, 0), (0, 0), (0, 1)])"
    "set (indices (0 :: byte) [(0, 0), (0, 0), (0, 1)]) = {..<length (stBodies (sample_station 0))}"
    "stFrames (sample_station 0) = [sample_wire]"
    by (auto simp: indices_def sample_station_def)
  ultimately show ?thesis
    using reassembly_exactly_once [of sample_station "[(0, 0), (0, 0), (0, 1)]"] sample_station_ok
    by fastforce
qed

text \<open>The two datagrams the other way round: both are acknowledged, and no frame comes of them.\<close>

lemma overtaken_frame_lost:
  "\<exists>st'. receive (resetInboundSequencing st) (map (datagram_of sample_station) [(0, 1), (0, 0)]) =
     Inr (st', map (ack_of sample_station) [(0, 1), (0, 0)], [])"
proof -
  let ?st = "resetInboundSequencing st"
  have s: "seq_of (sample_station 0) 1 = 0" "seq_of (sample_station 0) 0 = 65535"
    "stBodies (sample_station 0) ! 1 = [12]" by (simp_all add: seq_of_def sample_station_def)
  have "channel_of ?st 0 = (None, None)" by (simp add: channel_of_def resetInboundSequencing_def)
  then have c1: "channel_step (channel_of ?st 0) 0 [12] = ((Some 0, None), [])"
    by (simp add: channel_step_def reassemble_def frames_loop.simps P2P_DATA_HEADER_BYTES_def)
  obtain st1 tr where o1: "onData ?st (data_datagram 0 0 [12]) = Inr (st1, ackTypeHeader 0 @ u16be 1 @ u16be 0, [], tr)"
    and k: "channel_of st1 0 = (Some 0, None)"
    by (rule onData_channel [of 0 ?st 0 "[12]"]) (use c1 in auto)
  let ?b = "stBodies (sample_station 0) ! 0"
  have c2: "channel_step (channel_of st1 0) 65535 ?b = ((Some 0, None), [])" by (simp add: channel_step_def k)
  obtain st2 tr2 where o2: "onData st1 (data_datagram 0 65535 ?b) = Inr (st2, ackTypeHeader 0 @ u16be 1 @ u16be 65535, [], tr2)"
    by (rule onData_channel [of 65535 st1 0 ?b]) (use c2 in auto)
  show ?thesis using o1 o2 by (simp add: datagram_of_def ack_of_def s [unfolded One_nat_def])
qed

end
