(* ===== verification/Json.thy ===== *)
theory Json
  imports Js_String
begin

text \<open>
  \<open>JSON.stringify\<close> and \<open>JSON.parse\<close>, as the transports use them: the control payloads a session sends
  are stringified objects and the notifications it receives are parsed ones. Numbers are integers, as a
  double holds them; a literal with a fraction or an exponent is kept as it is written.
\<close>

section \<open>Values\<close>

datatype json = JNull | JBool bool | JInt int | JFloat string | JStr string
  | JArr "json list" | JObj "(string \<times> json) list"

text \<open>A property of an object: the last one of that name counts; anything else has none.\<close>

definition json_get :: "string \<Rightarrow> json \<Rightarrow> json option" where
  "json_get k j = (case j of JObj kvs \<Rightarrow> map_of (rev kvs) k | _ \<Rightarrow> None)"

definition show_int :: "int \<Rightarrow> string" where
  "show_int n = (if n < 0 then CHR ''-'' # dec_string (nat (- n)) else dec_string (nat n))"

section \<open>Stringify\<close>

definition hex_char :: "nat \<Rightarrow> char" where
  "hex_char n = char_of (if n < 10 then 48 + n else 87 + n)"

definition escape_char :: "char \<Rightarrow> string" where
  "escape_char c =
     (if c = CHR 0x22 then [CHR 0x5C, CHR 0x22]
      else if c = CHR 0x5C then [CHR 0x5C, CHR 0x5C]
      else if c = CHR 0x08 then [CHR 0x5C, CHR ''b'']
      else if c = CHR 0x0C then [CHR 0x5C, CHR ''f'']
      else if c = CHR 0x0A then [CHR 0x5C, CHR ''n'']
      else if c = CHR 0x0D then [CHR 0x5C, CHR ''r'']
      else if c = CHR 0x09 then [CHR 0x5C, CHR ''t'']
      else if of_char c < (32 :: nat)
      then [CHR 0x5C, CHR ''u'', CHR ''0'', CHR ''0'', hex_char (of_char c div 16), hex_char (of_char c mod 16)]
      else [c])"

definition quote_string :: "string \<Rightarrow> string" where
  "quote_string s = CHR 0x22 # concat (map escape_char s) @ [CHR 0x22]"

fun json_stringify :: "json \<Rightarrow> string" where
  "json_stringify JNull = ''null''"
| "json_stringify (JBool b) = (if b then ''true'' else ''false'')"
| "json_stringify (JInt n) = show_int n"
| "json_stringify (JFloat s) = s"
| "json_stringify (JStr s) = quote_string s"
| "json_stringify (JArr js) = CHR ''['' # join_with (CHR '','') (map json_stringify js) @ '']''"
| "json_stringify (JObj kvs) =
     CHR ''{'' # join_with (CHR '','') (map (\<lambda>(k, v). quote_string k @ CHR '':'' # json_stringify v) kvs) @ ''}''"

section \<open>Parse\<close>

definition json_space :: "char \<Rightarrow> bool" where
  "json_space c \<longleftrightarrow> c = CHR '' '' \<or> c = CHR 0x09 \<or> c = CHR 0x0A \<or> c = CHR 0x0D"

definition skip_ws :: "string \<Rightarrow> string" where
  "skip_ws s = dropWhile json_space s"

definition hex4 :: "string \<Rightarrow> nat option" where
  "hex4 s =
     (if length s = 4 \<and> list_all (\<lambda>c. hex_value c \<noteq> None) s
      then Some (foldl (\<lambda>n c. 16 * n + the (hex_value c)) 0 s) else None)"

definition utf8 :: "nat \<Rightarrow> string" where
  "utf8 n =
     map char_of
       (if n < 0x80 then [n]
        else if n < 0x800 then [0xC0 + n div 64, 0x80 + n mod 64]
        else if 0xD800 \<le> n \<and> n < 0xE000 then [0xEF, 0xBF, 0xBD]
        else if n < 0x10000 then [0xE0 + n div 4096, 0x80 + n div 64 mod 64, 0x80 + n mod 64]
        else [0xF0 + n div 262144, 0x80 + n div 4096 mod 64, 0x80 + n div 64 mod 64, 0x80 + n mod 64])"

definition simple_escape :: "char \<Rightarrow> char option" where
  "simple_escape c =
     (if c = CHR 0x22 \<or> c = CHR 0x5C \<or> c = CHR ''/'' then Some c
      else if c = CHR ''b'' then Some (CHR 0x08) else if c = CHR ''f'' then Some (CHR 0x0C)
      else if c = CHR ''n'' then Some (CHR 0x0A) else if c = CHR ''r'' then Some (CHR 0x0D)
      else if c = CHR ''t'' then Some (CHR 0x09) else None)"

text \<open>The characters of a string literal up to its closing quote, and the text behind it.\<close>

definition prepend :: "string \<Rightarrow> (string \<times> string) option \<Rightarrow> (string \<times> string) option" where
  "prepend w r = map_option (\<lambda>(s, t). (w @ s, t)) r"

function parse_chars :: "string \<Rightarrow> (string \<times> string) option" where
  "parse_chars s =
     (if s = [] then None
      else if hd s = CHR 0x22 then Some ([], tl s)
      else if hd s = CHR 0x5C then
        (if length s < 2 then None
         else if s ! 1 = CHR ''u'' then
           (case hex4 (slice 2 6 s) of
              None \<Rightarrow> None
            | Some n \<Rightarrow>
                (case (if 0xD800 \<le> n \<and> n < 0xDC00 \<and> slice 6 8 s = [CHR 0x5C, CHR ''u'']
                       then hex4 (slice 8 12 s) else None) of
                   Some m \<Rightarrow>
                     if 0xDC00 \<le> m \<and> m < 0xE000
                     then prepend (utf8 (0x10000 + 0x400 * (n - 0xD800) + (m - 0xDC00))) (parse_chars (drop 12 s))
                     else prepend (utf8 n) (parse_chars (drop 6 s))
                 | None \<Rightarrow> prepend (utf8 n) (parse_chars (drop 6 s))))
         else (case simple_escape (s ! 1) of
                 None \<Rightarrow> None
               | Some c \<Rightarrow> prepend [c] (parse_chars (drop 2 s))))
      else if of_char (hd s) < (32 :: nat) then None
      else prepend [hd s] (parse_chars (tl s)))"
  by pat_completeness auto
termination parse_chars
  by (relation "measure length") auto

declare parse_chars.simps [simp del]

text \<open>A number: an integer part, then perhaps a fraction and an exponent.\<close>

definition digits_of :: "string \<Rightarrow> string \<times> string" where
  "digits_of s = (takeWhile (\<lambda>c. digit_value c \<noteq> None) s, dropWhile (\<lambda>c. digit_value c \<noteq> None) s)"

definition parse_fraction :: "string \<Rightarrow> (string \<times> string) option" where
  "parse_fraction s =
     (if s \<noteq> [] \<and> hd s = CHR ''.'' then
        (let (ds, t) = digits_of (tl s) in if ds = [] then None else Some (CHR ''.'' # ds, t))
      else Some ([], s))"

definition parse_exponent :: "string \<Rightarrow> (string \<times> string) option" where
  "parse_exponent s =
     (if s \<noteq> [] \<and> (hd s = CHR ''e'' \<or> hd s = CHR ''E'') then
        (let u = tl s;
             sign = (if u \<noteq> [] \<and> (hd u = CHR ''+'' \<or> hd u = CHR ''-'') then [hd u] else []);
             (ds, t) = digits_of (drop (length sign) u)
         in if ds = [] then None else Some (hd s # sign @ ds, t))
      else Some ([], s))"

definition parse_number :: "string \<Rightarrow> (json \<times> string) option" where
  "parse_number s =
     (let neg = (s \<noteq> [] \<and> hd s = CHR ''-'');
          (ds, t) = digits_of (if neg then tl s else s)
      in if ds = [] \<or> (hd ds = CHR ''0'' \<and> length ds > 1) then None
         else
           (case parse_fraction t of
              None \<Rightarrow> None
            | Some (f, t1) \<Rightarrow>
                (case parse_exponent t1 of
                   None \<Rightarrow> None
                 | Some (e, t2) \<Rightarrow>
                     if f = [] \<and> e = [] then
                       Some (JInt (js_int (if neg then - int (digits_value ds) else int (digits_value ds))), t2)
                     else Some (JFloat ((if neg then ''-'' else []) @ ds @ f @ e), t2))))"

definition literal :: "string \<Rightarrow> json \<Rightarrow> string \<Rightarrow> (json \<times> string) option" where
  "literal w j s = (if take (length w) s = w then Some (j, drop (length w) s) else None)"

text \<open>
  Values, behind white space. The fuel bounds the nesting and the number of items: no character of the
  text costs more than three calls, so three times its length is enough (\<open>parse_stringify\<close>).
\<close>

fun parse_value :: "nat \<Rightarrow> string \<Rightarrow> (json \<times> string) option"
  and parse_items :: "nat \<Rightarrow> string \<Rightarrow> (json list \<times> string) option"
  and parse_members :: "nat \<Rightarrow> string \<Rightarrow> ((string \<times> json) list \<times> string) option"
  and parse_member :: "nat \<Rightarrow> string \<Rightarrow> ((string \<times> json) \<times> string) option" where
  "parse_value 0 s = None"
| "parse_value (Suc n) s =
     (let t = skip_ws s in
      if t = [] then None
      else if hd t = CHR 0x22 then map_option (\<lambda>(w, r). (JStr w, r)) (parse_chars (tl t))
      else if hd t = CHR ''['' then
        (let u = skip_ws (tl t) in
         if u \<noteq> [] \<and> hd u = CHR '']'' then Some (JArr [], tl u)
         else map_option (\<lambda>(js, r). (JArr js, r)) (parse_items n u))
      else if hd t = CHR ''{'' then
        (let u = skip_ws (tl t) in
         if u \<noteq> [] \<and> hd u = CHR ''}'' then Some (JObj [], tl u)
         else map_option (\<lambda>(kvs, r). (JObj kvs, r)) (parse_members n u))
      else if hd t = CHR ''t'' then literal ''true'' (JBool True) t
      else if hd t = CHR ''f'' then literal ''false'' (JBool False) t
      else if hd t = CHR ''n'' then literal ''null'' JNull t
      else parse_number t)"
| "parse_items 0 s = None"
| "parse_items (Suc n) s =
     (case parse_value n s of
        None \<Rightarrow> None
      | Some (j, r) \<Rightarrow>
          (let u = skip_ws r in
           if u \<noteq> [] \<and> hd u = CHR '']'' then Some ([j], tl u)
           else if u \<noteq> [] \<and> hd u = CHR '','' then map_option (\<lambda>(js, v). (j # js, v)) (parse_items n (tl u))
           else None))"
| "parse_members 0 s = None"
| "parse_members (Suc n) s =
     (case parse_member n s of
        None \<Rightarrow> None
      | Some (kv, r) \<Rightarrow>
          (let u = skip_ws r in
           if u \<noteq> [] \<and> hd u = CHR ''}'' then Some ([kv], tl u)
           else if u \<noteq> [] \<and> hd u = CHR '','' then map_option (\<lambda>(kvs, v). (kv # kvs, v)) (parse_members n (tl u))
           else None))"
| "parse_member 0 s = None"
| "parse_member (Suc n) s =
     (let t = skip_ws s in
      if t = [] \<or> hd t \<noteq> CHR 0x22 then None
      else
        (case parse_chars (tl t) of
           None \<Rightarrow> None
         | Some (k, r) \<Rightarrow>
             (let u = skip_ws r in
              if u = [] \<or> hd u \<noteq> CHR '':'' then None
              else map_option (\<lambda>(v, w). ((k, v), w)) (parse_value n (tl u)))))"

definition json_parse :: "string \<Rightarrow> json option" where
  "json_parse s =
     (case parse_value (3 * length s + 3) s of
        None \<Rightarrow> None
      | Some (j, r) \<Rightarrow> if skip_ws r = [] then Some j else None)"

section \<open>Parsing what was stringified\<close>

text \<open>Values whose numbers a double holds exactly and prints without a fraction.\<close>

fun plain_json :: "json \<Rightarrow> bool" where
  "plain_json JNull \<longleftrightarrow> True"
| "plain_json (JBool b) \<longleftrightarrow> True"
| "plain_json (JInt n) \<longleftrightarrow> \<bar>n\<bar> < 2 ^ 53"
| "plain_json (JFloat s) \<longleftrightarrow> False"
| "plain_json (JStr s) \<longleftrightarrow> True"
| "plain_json (JArr js) \<longleftrightarrow> list_all plain_json js"
| "plain_json (JObj kvs) \<longleftrightarrow> list_all (\<lambda>(k, v). plain_json v) kvs"

lemma parse_chars_escape: "parse_chars (escape_char c @ s) = prepend [c] (parse_chars s)"
proof -
  have h: "hex4 [CHR ''0'', CHR ''0'', hex_char (n div 16), hex_char (n mod 16)] = Some n"
    and u: "utf8 n = [char_of n]" if "n < 32" for n
  proof -
    have "hex_char k = hex_digit k" if "k < 16" for k using that by (simp add: hex_char_def hex_digit_def)
    then have "hex_value (hex_char (n div 16)) = Some (n div 16)" "hex_value (hex_char (n mod 16)) = Some (n mod 16)"
      using that by (simp_all add: hex_value_digit)
    then show "hex4 [CHR ''0'', CHR ''0'', hex_char (n div 16), hex_char (n mod 16)] = Some n"
      by (simp add: hex4_def) (simp add: hex_value_def Let_def)
    show "utf8 n = [char_of n]" using that by (simp add: utf8_def)
  qed
  show ?thesis
  proof (cases "c \<in> {CHR 0x22, CHR 0x5C, CHR 0x08, CHR 0x0C, CHR 0x0A, CHR 0x0D, CHR 0x09}")
    case True
    then show ?thesis
      by (auto simp: escape_char_def simple_escape_def parse_chars.simps [of "CHR 0x5C # _"])
  next
    case False
    show ?thesis
    proof (cases "of_char c < (32 :: nat)")
      case True
      with False have e: "escape_char c @ s =
          CHR 0x5C # CHR ''u'' # CHR ''0'' # CHR ''0'' # hex_char (of_char c div 16) # hex_char (of_char c mod 16) # s"
        by (simp add: escape_char_def)
      show ?thesis unfolding e
        by (subst parse_chars.simps) (use True in \<open>simp add: h u slice_def\<close>)
    next
      case small: False
      then show ?thesis using False
        by (simp add: escape_char_def parse_chars.simps [of "c # s"])
    qed
  qed
qed

lemma parse_chars_quote: "parse_chars (concat (map escape_char w) @ CHR 0x22 # s) = Some (w, s)"
proof (induction w)
  case Nil
  show ?case by (simp add: parse_chars.simps [of "CHR 0x22 # s"])
next
  case (Cons c w)
  then show ?case by (simp add: parse_chars_escape prepend_def)
qed

lemma digits_of_dec:
  "s = [] \<or> digit_value (hd s) = None \<Longrightarrow> digits_of (dec_string n @ s) = (dec_string n, s)"
  using dec_string_spec [of n]
  by (cases s) (auto simp: digits_of_def is_digits_def list_all_iff takeWhile_append dropWhile_append)

lemma dec_string_head: "n \<noteq> 0 \<Longrightarrow> hd (dec_string n) \<noteq> CHR ''0''"
proof (induction n rule: dec_string.induct)
  case (1 n)
  show ?case
  proof (cases "n < 10")
    case True
    then have "dec_string n = [digit_char n]" by (subst dec_string.simps) simp
    then show ?thesis using "1.prems" True by (auto simp: digit_char_def dest: arg_cong [of _ _ "of_char :: char \<Rightarrow> nat"])
  next
    case False
    have d: "dec_string n = dec_string (n div 10) @ [digit_char (n mod 10)]"
      using False by (subst dec_string.simps) simp
    have "dec_string (n div 10) \<noteq> []" using dec_string_spec [of "n div 10"] by (auto simp: is_digits_def)
    then show ?thesis using "1.IH" [OF False] False by (simp add: d)
  qed
qed

definition delimited :: "string \<Rightarrow> bool" where
  "delimited s \<longleftrightarrow> s = [] \<or> hd s = CHR '','' \<or> hd s = CHR '']'' \<or> hd s = CHR ''}''"

lemma delimitedD:
  "delimited s \<Longrightarrow> s = [] \<or> digit_value (hd s) = None"
  "delimited s \<Longrightarrow> parse_fraction s = Some ([], s)"
  "delimited s \<Longrightarrow> parse_exponent s = Some ([], s)"
  by (auto simp: delimited_def digit_value_def parse_fraction_def parse_exponent_def)

lemma parse_number_dec:
  assumes "delimited s" "n < 2 ^ 53"
  shows "parse_number (dec_string n @ s) = Some (JInt (int n), s)"
    "parse_number (CHR ''-'' # dec_string n @ s) = Some (JInt (- int n), s)"
proof -
  have sp: "dec_string n \<noteq> []" "digits_value (dec_string n) = n" "hd (dec_string n) \<noteq> CHR ''-''"
    using dec_string_spec [of n] dec_string_no [of "CHR ''-''" n]
    by (auto simp: is_digits_def digit_value_def dest: hd_in_set)
  have z: "\<not> (hd (dec_string n) = CHR ''0'' \<and> length (dec_string n) > 1)"
    using dec_string_head [of n] by (cases "n = 0") (auto simp: dec_string.simps [of 0])
  have j: "js_int (int n) = int n" "js_int (- int n) = - int n"
    by (rule js_int_exact; use assms(2) in simp)+
  note d = digits_of_dec [OF delimitedD(1) [OF assms(1)], of n]
  show "parse_number (dec_string n @ s) = Some (JInt (int n), s)"
    "parse_number (CHR ''-'' # dec_string n @ s) = Some (JInt (- int n), s)"
    using sp z delimitedD(2,3) [OF assms(1)] by (simp_all add: parse_number_def d j)
qed

lemma show_int_text: "\<exists>c cs. show_int n = c # cs \<and> (digit_value c \<noteq> None \<or> c = CHR ''-'')"
proof -
  have "\<exists>c cs. dec_string k = c # cs \<and> digit_value c \<noteq> None" for k
    using dec_string_spec [of k] by (cases "dec_string k") (auto simp: is_digits_def)
  from this [of "nat n"] show ?thesis by (cases "n < 0") (auto simp: show_int_def)
qed

lemma parse_show_int:
  assumes "\<bar>n\<bar> < 2 ^ 53" "delimited s" "0 < k"
  shows "parse_value k (show_int n @ s) = Some (JInt n, s)"
proof -
  obtain m where k: "k = Suc m" using assms(3) by (cases k) auto
  obtain c cs where c: "show_int n = c # cs" "digit_value c \<noteq> None \<or> c = CHR ''-''"
    using show_int_text [of n] by blast
  then have "\<not> json_space c" "c \<notin> {CHR 0x22, CHR ''['', CHR ''{'', CHR ''t'', CHR ''f'', CHR ''n''}"
    by (auto simp: json_space_def digit_value_def)
  then have "parse_value k (show_int n @ s) = parse_number (show_int n @ s)"
    by (simp add: k c(1) skip_ws_def)
  also have "\<dots> = Some (JInt n, s)"
    using assms(1) parse_number_dec [OF assms(2), of "nat \<bar>n\<bar>"] by (auto simp: show_int_def)
  finally show ?thesis .
qed

lemma stringify_head:
  "plain_json j \<Longrightarrow> \<exists>c cs. json_stringify j = c # cs \<and> \<not> json_space c \<and> c \<noteq> CHR '']'' \<and> c \<noteq> CHR ''}''"
proof (cases j)
  case (JInt n)
  then show ?thesis using show_int_text [of n] by (auto simp: json_space_def digit_value_def)
qed (auto simp: json_space_def quote_string_def)

lemma skip_ws_text: "\<not> json_space c \<Longrightarrow> skip_ws (c # s) = c # s"
  by (simp add: skip_ws_def)

definition item_text :: "string \<times> json \<Rightarrow> string" where
  "item_text kv = quote_string (fst kv) @ CHR '':'' # json_stringify (snd kv)"

lemma member_texts: "map (\<lambda>(k, v). quote_string k @ CHR '':'' # json_stringify v) kvs = map item_text kvs"
  by (auto simp: item_text_def)

lemma join_Cons: "join_with d (w # ws) = w @ (if ws = [] then [] else d # join_with d ws)"
  by (cases ws) simp_all

lemma parse_items_texts:
  assumes "\<And>j n s. j \<in> set js \<Longrightarrow> delimited s \<Longrightarrow> 3 * length (json_stringify j) \<le> n \<Longrightarrow>
      parse_value n (json_stringify j @ s) = Some (j, s)"
    and "js \<noteq> []" "3 * length (join_with (CHR '','') (map json_stringify js)) + 1 \<le> n"
  shows "parse_items n (join_with (CHR '','') (map json_stringify js) @ CHR '']'' # s) = Some (js, s)"
  using assms
proof (induction js arbitrary: n)
  case (Cons j js)
  then obtain m where n: "n = Suc m" by (cases n) auto
  have v: "delimited r \<Longrightarrow> parse_value m (json_stringify j @ r) = Some (j, r)" for r
    using Cons.prems(1) [of j r m] Cons.prems(3) by (simp add: n join_Cons split: if_splits)
  show ?case
  proof (cases "js = []")
    case True
    then show ?thesis using v [of "CHR '']'' # s"]
      by (simp add: n delimited_def skip_ws_text json_space_def)
  next
    case False
    have "parse_items m (join_with (CHR '','') (map json_stringify js) @ CHR '']'' # s) = Some (js, s)"
      using Cons.prems False by (intro Cons.IH) (auto simp: n join_Cons)
    then show ?thesis using v [of "CHR '','' # join_with (CHR '','') (map json_stringify js) @ CHR '']'' # s"] False
      by (simp add: n delimited_def skip_ws_text json_space_def join_Cons)
  qed
qed simp

lemma parse_member_text:
  assumes "\<And>n s. delimited s \<Longrightarrow> 3 * length (json_stringify (snd kv)) \<le> n \<Longrightarrow>
      parse_value n (json_stringify (snd kv) @ s) = Some (snd kv, s)"
    and "3 * length (item_text kv) \<le> n" "delimited s"
  shows "parse_member n (item_text kv @ s) = Some (kv, s)"
proof -
  obtain m where n: "n = Suc m" "3 * length (json_stringify (snd kv)) \<le> m"
    using assms(2) by (cases n) (auto simp: item_text_def quote_string_def)
  show ?thesis
    using assms(1) [OF assms(3) n(2)]
    by (simp add: n(1) item_text_def quote_string_def skip_ws_text json_space_def parse_chars_quote)
qed

lemma parse_members_texts:
  assumes "\<And>kv n s. kv \<in> set kvs \<Longrightarrow> delimited s \<Longrightarrow> 3 * length (json_stringify (snd kv)) \<le> n \<Longrightarrow>
      parse_value n (json_stringify (snd kv) @ s) = Some (snd kv, s)"
    and "kvs \<noteq> []" "3 * length (join_with (CHR '','') (map item_text kvs)) + 1 \<le> n"
  shows "parse_members n (join_with (CHR '','') (map item_text kvs) @ CHR ''}'' # s) = Some (kvs, s)"
  using assms
proof (induction kvs arbitrary: n)
  case (Cons kv kvs)
  then obtain m where n: "n = Suc m" by (cases n) auto
  have v: "delimited r \<Longrightarrow> parse_member m (item_text kv @ r) = Some (kv, r)" for r
    using Cons.prems(3) by (intro parse_member_text Cons.prems(1)) (auto simp: n join_Cons split: if_splits)
  show ?case
  proof (cases "kvs = []")
    case True
    then show ?thesis using v [of "CHR ''}'' # s"]
      by (simp add: n delimited_def skip_ws_text json_space_def)
  next
    case False
    have "parse_members m (join_with (CHR '','') (map item_text kvs) @ CHR ''}'' # s) = Some (kvs, s)"
      using Cons.prems False by (intro Cons.IH) (auto simp: n join_Cons)
    then show ?thesis using v [of "CHR '','' # join_with (CHR '','') (map item_text kvs) @ CHR ''}'' # s"] False
      by (simp add: n delimited_def skip_ws_text json_space_def join_Cons)
  qed
qed simp

lemma join_head:
  "ws \<noteq> [] \<Longrightarrow> hd ws = c # cs \<Longrightarrow> \<exists>t. join_with d ws = c # t"
  by (cases ws) (auto simp: join_Cons)

lemma parse_value_stringify:
  "plain_json j \<Longrightarrow> delimited s \<Longrightarrow> 3 * length (json_stringify j) \<le> n \<Longrightarrow>
    parse_value n (json_stringify j @ s) = Some (j, s)"
proof (induction j arbitrary: n s)
  case (JArr js)
  then obtain m where n: "n = Suc m" "3 * length (join_with (CHR '','') (map json_stringify js)) + 1 \<le> m"
    by (cases n) auto
  show ?case
  proof (cases js)
    case Nil
    then show ?thesis by (simp add: n(1) skip_ws_text json_space_def)
  next
    case (Cons j js')
    with JArr.prems(1) stringify_head [of j] obtain c t where
      c: "join_with (CHR '','') (map json_stringify js) = c # t" "\<not> json_space c" "c \<noteq> CHR '']''"
      by (auto simp: join_Cons)
    have "parse_items m (join_with (CHR '','') (map json_stringify js) @ CHR '']'' # s) = Some (js, s)"
      by (rule parse_items_texts) (use JArr Cons n(2) in \<open>auto simp: list_all_iff\<close>)
    then show ?thesis using c by (simp add: n(1) skip_ws_text json_space_def [of "CHR ''[''"])
  qed
next
  case (JObj kvs)
  then obtain m where n: "n = Suc m" "3 * length (join_with (CHR '','') (map item_text kvs)) + 1 \<le> m"
    by (cases n) (auto simp: member_texts)
  show ?case
  proof (cases kvs)
    case Nil
    then show ?thesis by (simp add: n(1) skip_ws_text json_space_def)
  next
    case (Cons kv kvs')
    then obtain t where c: "join_with (CHR '','') (map item_text kvs) = CHR 0x22 # t"
      by (auto simp: join_Cons item_text_def quote_string_def)
    have v: "parse_value k (json_stringify (snd kv) @ r) = Some (snd kv, r)"
      if "kv \<in> set kvs" "delimited r" "3 * length (json_stringify (snd kv)) \<le> k" for kv k r
      by (rule JObj.IH [OF that(1)]) (use JObj.prems(1) that in \<open>auto simp: list_all_iff snds.simps\<close>)
    have "parse_members m (join_with (CHR '','') (map item_text kvs) @ CHR ''}'' # s) = Some (kvs, s)"
      by (rule parse_members_texts) (use v Cons n(2) in auto)
    then show ?thesis using c by (simp add: n(1) skip_ws_text json_space_def member_texts)
  qed
next
  case (JStr w)
  then obtain m where "n = Suc m" by (cases n) (auto simp: quote_string_def)
  then show ?case by (simp add: quote_string_def skip_ws_text json_space_def parse_chars_quote)
next
  case (JInt i)
  then show ?case using show_int_text [of i] by (auto intro!: parse_show_int)
next
  case (JBool b)
  then obtain m where "n = Suc m" by (cases n) (auto split: if_splits)
  then show ?case by (cases b) (simp_all add: skip_ws_text json_space_def literal_def)
next
  case JNull
  then obtain m where "n = Suc m" by (cases n) auto
  then show ?case by (simp add: skip_ws_text json_space_def literal_def)
qed simp

text \<open>Parsing undoes stringifying.\<close>

lemma parse_stringify: "plain_json j \<Longrightarrow> json_parse (json_stringify j) = Some j"
  using parse_value_stringify [of j "[]" "3 * length (json_stringify j) + 3"]
  by (simp add: json_parse_def delimited_def skip_ws_def)

end
