(* ===== verification/Throwing_Act.thy ===== *)
theory Throwing_Act
  imports Eufy_Prelude
begin

text \<open>
  Operations of a stateful class, as the session's senders and the fMP4 muxer have them: each may throw, and
  keeps what it changed before it did. The locale \<open>act_relation\<close> lifts what every part of an operation keeps to
  the operation.
\<close>

section \<open>Operations that may throw after they have changed the state\<close>

type_synonym ('s, 'a) act = "'s \<Rightarrow> (js_error + 'a) \<times> 's"

definition act_return :: "'a \<Rightarrow> ('s, 'a) act" where
  "act_return x s = (Inr x, s)"

definition act_bind :: "('s, 'a) act \<Rightarrow> ('a \<Rightarrow> ('s, 'b) act) \<Rightarrow> ('s, 'b) act" where
  "act_bind m f s = (case m s of (Inl e, s') \<Rightarrow> (Inl e, s') | (Inr x, s') \<Rightarrow> f x s')"

definition act_lift :: "js_error + 'a \<Rightarrow> ('s, 'a) act" where
  "act_lift r s = (r, s)"

definition act_modify :: "('s \<Rightarrow> 's) \<Rightarrow> ('s, unit) act" where
  "act_modify f s = (Inr (), f s)"

definition act_read :: "('s \<Rightarrow> ('s, 'a) act) \<Rightarrow> ('s, 'a) act" where
  "act_read f s = f s s"

lemma act_simps [simp]:
  "act_return x s = (Inr x, s)"
  "act_lift (Inr x) s = (Inr x, s)"
  "act_lift (Inl e) s = (Inl e, s)"
  "act_modify f s = (Inr (), f s)"
  "act_read g s = g s s"
  by (simp_all add: act_return_def act_lift_def act_modify_def act_read_def)

text \<open>
  A relation between the states before and after that every part of an operation keeps is kept by the
  operation, whether it throws or not.
\<close>

locale act_relation =
  fixes R :: "'s \<Rightarrow> 's \<Rightarrow> bool"
  assumes R_refl: "R s s"
    and R_trans: "R s t \<Longrightarrow> R t v \<Longrightarrow> R s v"
begin

definition keeps :: "('s, 'a) act \<Rightarrow> bool" where
  "keeps m \<longleftrightarrow> (\<forall>s. R s (snd (m s)))"

lemma keepsD: "keeps m \<Longrightarrow> R s (snd (m s))"
  by (simp add: keeps_def)

lemma keeps_return: "keeps (act_return x)"
  by (simp add: keeps_def R_refl)

lemma keeps_lift: "keeps (act_lift r)"
  by (simp add: keeps_def act_lift_def R_refl)

lemma keeps_modify: "(\<And>s. R s (f s)) \<Longrightarrow> keeps (act_modify f)"
  by (simp add: keeps_def)

lemma keeps_read: "(\<And>s. keeps (g s)) \<Longrightarrow> keeps (act_read g)"
  by (simp add: keeps_def)

lemma keeps_bind:
  assumes "keeps m" "\<And>x. keeps (f x)"
  shows "keeps (act_bind m f)"
  unfolding keeps_def
proof
  fix s
  obtain r s1 where m: "m s = (r, s1)" by fastforce
  have 1: "R s s1" using keepsD [OF assms(1), of s] by (simp add: m)
  show "R s (snd (act_bind m f s))"
  proof (cases r)
    case (Inl e)
    then show ?thesis using 1 by (simp add: act_bind_def m)
  next
    case (Inr x)
    then show ?thesis using R_trans [OF 1 keepsD [OF assms(2), of s1 x]] by (simp add: act_bind_def m)
  qed
qed

lemma keeps_if: "(b \<Longrightarrow> keeps m) \<Longrightarrow> (\<not> b \<Longrightarrow> keeps m') \<Longrightarrow> keeps (if b then m else m')"
  by simp

lemma keeps_option: "keeps m \<Longrightarrow> (\<And>x. keeps (f x)) \<Longrightarrow> keeps (case z of None \<Rightarrow> m | Some x \<Rightarrow> f x)"
  by (simp split: option.split)

lemma keeps_pair: "(\<And>a b. keeps (f a b)) \<Longrightarrow> keeps (case z of (a, b) \<Rightarrow> f a b)"
  by (simp split: prod.split)

lemmas keeps_intros = keeps_return keeps_lift keeps_read keeps_bind keeps_if keeps_option keeps_pair

end

end
