(* ===== verification/P2p_Session.thy ===== *)
theory P2p_Session
  imports P2p_Reassembly Json Throwing_Act
begin

text \<open>
  The outbound half of \<open>src/transport/p2p/p2p-session.ts\<close>: the state of a \<open>P2PSession\<close>, the level-2
  cipher, every command sender, and the two acknowledged channels (own-session live starts and talkback
  audio) with their retransmission. \<open>Date.now()\<close> is an argument, \<open>node:crypto\<close> and the random bytes
  are the environment, and what goes out on the socket or to the listeners is logged in \<open>sessOut\<close>.
\<close>

section \<open>State\<close>

definition LOCAL_LOOKUP_PORT :: nat where "LOCAL_LOOKUP_PORT = 32108"
definition PATH_SILENCE_MS :: int where "PATH_SILENCE_MS = 5000 * 3"
definition STATION_CHANNEL :: int where "STATION_CHANNEL = 255"
definition CMD_GATEWAYINFO :: int where "CMD_GATEWAYINFO = 1100"
definition CMD_START_REALTIME_MEDIA :: int where "CMD_START_REALTIME_MEDIA = 1003"
definition CMD_STOP_REALTIME_MEDIA :: int where "CMD_STOP_REALTIME_MEDIA = 1004"
definition CMD_CONTROL_PAYLOAD :: int where "CMD_CONTROL_PAYLOAD = 1700"
definition CMD_START_LIVE :: int where "CMD_START_LIVE = 1000"
definition CMD_STREAM_KEEPALIVE :: int where "CMD_STREAM_KEEPALIVE = 1139"
definition START_LIVE_FRAME_TYPE_L1 :: int where "START_LIVE_FRAME_TYPE_L1 = 11"
definition START_LIVE_FRAME_TYPE_L2 :: int where "START_LIVE_FRAME_TYPE_L2 = 10"
definition CMD_VIDEO_FRAME :: int where "CMD_VIDEO_FRAME = 1300"
definition CMD_AUDIO_FRAME :: int where "CMD_AUDIO_FRAME = 1301"
definition CMD_START_TALKBACK :: int where "CMD_START_TALKBACK = 1005"
definition CMD_STOP_TALKBACK :: int where "CMD_STOP_TALKBACK = 1006"
definition CMD_START_SPEAK :: int where "CMD_START_SPEAK = 1001"
definition CMD_END_SPEAK :: int where "CMD_END_SPEAK = 1002"
definition AUDIO_RETRANSMIT_MS :: int where "AUDIO_RETRANSMIT_MS = 700"
definition AUDIO_MAX_SENDS :: nat where "AUDIO_MAX_SENDS = 2"
definition LIVE_START_RETRANSMIT_MS :: int where "LIVE_START_RETRANSMIT_MS = 150"
definition LIVE_START_ACK_DEADLINE_MS :: int where "LIVE_START_ACK_DEADLINE_MS = 3000"
definition CMD_SET_PAYLOAD :: int where "CMD_SET_PAYLOAD = 1350"
definition CMD_NOTIFY_PAYLOAD :: int where "CMD_NOTIFY_PAYLOAD = 1351"
definition CMD_CAMERA_INFO :: int where "CMD_CAMERA_INFO = 1103"
definition CMD_DATABASE_IMAGE :: int where "CMD_DATABASE_IMAGE = 1308"
definition CMD_DATABASE :: int where "CMD_DATABASE = 1306"
definition DB_FULL_TABLE :: int where "DB_FULL_TABLE = 10000"
definition GCM_AAD :: buffer where "GCM_AAD = bytes_of_string ''eufy security''"

record retained =
  rtData :: buffer
  rtFirstSentAt :: int
  rtSentAt :: int
  rtSends :: nat

datatype start_level = L1 | L2

datatype wait_outcome = WaitKey | WaitTerminal | WaitClosed | WaitTimeout

datatype session_out =
    Datagram address buffer
  | LiveStartUnacknowledged int
  | AudioGap int
  | Level2Ready nat
  | EmitError
  | EmitConnect
  | EmitClose
  | WaitSettled nat wait_outcome
  | FrameData p2p_header byte buffer buffer "json option" "(string \<times> string) list"
  | DbChunk string
  | RtspUrl nat string
  | ImageData json buffer
  | CommandResult int nat

text \<open>What a session is built with, and the primitives it calls.\<close>

record session_env =
  envCrypto :: crypto
  envGcm :: gcm
  envSeal :: "buffer \<Rightarrow> buffer \<Rightarrow> buffer \<Rightarrow> buffer \<Rightarrow> buffer \<times> buffer"
  envRandom :: "nat \<Rightarrow> buffer"
  envRsaPair :: "buffer \<times> string"
  envRsaOpen :: "buffer \<Rightarrow> buffer \<Rightarrow> buffer option"
  cfgStationSn :: string
  cfgP2pDid :: string
  cfgCloudAddresses :: "address list"
  cfgDskKey :: "string option"
  cfgLocalAddress :: "string option"
  cfgNoBroadcast :: bool
  cfgResolver :: bool

record session =
  sessSocket :: bool
  sessConnected :: bool
  sessConnecting :: bool
  sessClosed :: bool
  sessAddress :: "address option"
  sessSeq :: int
  sessVideoSeq :: int
  sessAudio :: "(int \<times> unit \<times> retained) list"
  sessAudioStalled :: bool
  sessAudioTimer :: bool
  sessPongData :: "buffer option"
  sessPongAt :: "int option"
  sessStaleTraced :: bool
  sessLookupTimer :: bool
  sessHeartbeat :: bool
  sessConnectTimer :: bool
  sessSelf :: "address option"
  sessInbound :: inbound
  sessLevel2Key :: "buffer option"
  sessLevel2Seq :: int
  sessRsa :: "(buffer \<times> string) option"
  sessNegotiating :: bool
  sessJobs :: "(nat \<times> buffer) list"
  sessPending :: bool
  sessWaiters :: "nat list"
  sessReprompted :: bool
  sessConnectedAt :: "int option"
  sessGeneration :: nat
  sessLiveStarted :: "int \<Rightarrow> start_level option"
  sessStarts :: "(int \<times> int \<times> retained) list"
  sessStartTimer :: bool
  sessDraws :: nat
  sessOut :: "session_out list"

definition new_session :: "session_env \<Rightarrow> session" where
  "new_session env =
     \<lparr>sessSocket = False, sessConnected = False, sessConnecting = False, sessClosed = False,
      sessAddress = None, sessSeq = 0, sessVideoSeq = 0, sessAudio = [], sessAudioStalled = False,
      sessAudioTimer = False, sessPongData = None, sessPongAt = None, sessStaleTraced = False,
      sessLookupTimer = False, sessHeartbeat = False, sessConnectTimer = False, sessSelf = None,
      sessInbound = \<lparr>pendingByDataType = \<lambda>_. None, lastSeqByType = \<lambda>_. None, tracedDatagramGaps = 0\<rparr>,
      sessLevel2Key = None, sessLevel2Seq = 0, sessRsa = None, sessNegotiating = False, sessJobs = [],
      sessPending = cfgResolver env, sessWaiters = [], sessReprompted = False, sessConnectedAt = None,
      sessGeneration = 0, sessLiveStarted = (\<lambda>_. None), sessStarts = [], sessStartTimer = False,
      sessDraws = 0, sessOut = []\<rparr>"

definition level1Key :: "session_env \<Rightarrow> buffer" where
  "level1Key env = bytes_of_string (p2pCommandEncryptionKey (cfgStationSn env) (cfgP2pDid env))"

definition emit :: "session_out \<Rightarrow> (session, unit) act" where
  "emit x = act_modify (\<lambda>s. s\<lparr>sessOut := sessOut s @ [x]\<rparr>)"

definition s_send :: "address \<Rightarrow> request_type \<Rightarrow> buffer \<Rightarrow> (session, unit) act" where
  "s_send addr ty payload =
     act_read (\<lambda>s. if \<not> sessSocket s then act_return ()
                   else act_bind (act_lift (frameMessage (request_bytes ty) payload)) (\<lambda>packet. emit (Datagram addr packet)))"

definition next_seq :: "(session, unit) act" where
  "next_seq = act_modify (\<lambda>s. s\<lparr>sessSeq := (sessSeq s + 1) mod 0x10000\<rparr>)"

text \<open>
  What every control sender does with its payload: frame it under the next sequence number, step the
  number, send. Framing that raises leaves the number alone.
\<close>

definition put_command :: "address \<Rightarrow> int \<Rightarrow> js_error + buffer \<Rightarrow> (session, unit) act" where
  "put_command addr commandType payload =
     act_read (\<lambda>s.
       act_bind (act_lift (buildCommandHeader (sessSeq s) commandType (data_type_header DT_DATA))) (\<lambda>header.
       act_bind (act_lift payload) (\<lambda>body.
       act_bind next_seq (\<lambda>_. s_send addr REQ_DATA (header @ body)))))"

definition sendCommand :: "int \<Rightarrow> int \<Rightarrow> (session, unit) act" where
  "sendCommand commandType ch =
     act_read (\<lambda>s. case sessAddress s of
       None \<Rightarrow> act_return ()
     | Some addr \<Rightarrow> put_command addr commandType (Inr (buildVoidCommandPayload ch)))"

section \<open>The level-2 cipher\<close>

definition encryptLevel2 :: "session_env \<Rightarrow> buffer \<Rightarrow> (session, buffer option) act" where
  "encryptLevel2 env plaintext s =
     (case sessLevel2Key s of
        None \<Rightarrow> (Inr None, s)
      | Some key \<Rightarrow>
          (let nonce = envRandom env (sessDraws s);
               (tag, ct) = envSeal env key nonce GCM_AAD plaintext;
               sub = [word_of_int (sessLevel2Seq s), 0x03, 0x02, 0x01]
           in (Inr (Some (tag @ nonce @ sub @ ct)),
               s\<lparr>sessLevel2Seq := (sessLevel2Seq s + 1) mod 0x100, sessDraws := sessDraws s + 1\<rparr>)))"

definition decryptLevel2 :: "session_env \<Rightarrow> session \<Rightarrow> buffer \<Rightarrow> nat \<Rightarrow> buffer option" where
  "decryptLevel2 env s payload sign =
     (let ctOffset = (if sign = 8 then 32 else 28) in
      case sessLevel2Key s of
        None \<Rightarrow> None
      | Some key \<Rightarrow>
          if length payload < ctOffset then None
          else envGcm env key (slice 16 28 payload) GCM_AAD (slice 0 16 payload) (drop ctOffset payload))"

definition rsaModulus :: "session_env \<Rightarrow> (session, string) act" where
  "rsaModulus env s =
     (case sessRsa s of
        Some p \<Rightarrow> (Inr (snd p), s)
      | None \<Rightarrow> (Inr (snd (envRsaPair env)), s\<lparr>sessRsa := Some (envRsaPair env)\<rparr>))"

definition rsaUnwrapKey :: "session_env \<Rightarrow> session \<Rightarrow> buffer \<Rightarrow> buffer option" where
  "rsaUnwrapKey env s wrapped =
     (case sessRsa s of None \<Rightarrow> None | Some p \<Rightarrow> envRsaOpen env (fst p) wrapped)"

text \<open>
  A video frame of a RSA-keyed stream: under a key, 128 bytes of AES-ECB and a clear tail; otherwise
  clear. The outer \<open>None\<close> of the result is a frame that is skipped.
\<close>

definition decodeVideoFrame :: "session_env \<Rightarrow> session \<Rightarrow> buffer \<Rightarrow> nat \<Rightarrow> buffer option" where
  "decodeVideoFrame env s data sign =
     (if length data < 22 then None
      else
        (let videoDataLength = u32le_at data 0 in
         if sign > 0 \<and> videoDataLength \<ge> 128 then
           (if sessRsa s = None \<or> length data < 150 then None
            else
              (case rsaUnwrapKey env s (slice 22 150 data) of
                 None \<Rightarrow> None
               | Some aesKey \<Rightarrow>
                   if length aesKey \<ge> 16 then
                     (let enc = slice 151 (151 + 128) data;
                          tail = slice (151 + 128) (151 + videoDataLength) data;
                          klen = (if length aesKey \<ge> 32 then 32 else 16)
                      in map_option (\<lambda>plain. plain @ tail)
                           (aes_ecb_decrypt (envCrypto env) (take klen aesKey) enc))
                   else Some (slice 151 (151 + videoDataLength) data)))
         else Some (slice 22 (22 + videoDataLength) data)))"

section \<open>Command senders\<close>

definition sendStringPayloadCommand :: "session_env \<Rightarrow> int \<Rightarrow> string \<Rightarrow> int \<Rightarrow> (session, unit) act" where
  "sendStringPayloadCommand env commandType value ch =
     act_read (\<lambda>s. case sessAddress s of
       None \<Rightarrow> act_lift (Inl (UserError ''not connected''))
     | Some addr \<Rightarrow>
         put_command addr commandType (buildStringCommandPayload (envCrypto env) value ch (Some (level1Key env)) 1))"

definition sendIntStringCommand ::
  "session_env \<Rightarrow> int \<Rightarrow> int \<Rightarrow> int \<Rightarrow> string \<Rightarrow> int \<Rightarrow> (session, unit) act" where
  "sendIntStringCommand env commandType value valueSub strValue ch =
     act_read (\<lambda>s. case sessAddress s of
       None \<Rightarrow> act_lift (Inl (UserError ''not connected''))
     | Some addr \<Rightarrow>
         put_command addr commandType
           (buildIntStringCommandPayload (envCrypto env) value valueSub strValue ch (Some (level1Key env)) 1))"

text \<open>
  The level-2 senders answer whether they sent: without an address or a key they do not. The body is
  encrypted, and the cipher's counter stepped, before the frame is built.
\<close>

definition sendRawLevel2Bytes :: "session_env \<Rightarrow> buffer \<Rightarrow> int \<Rightarrow> int \<Rightarrow> int \<Rightarrow> (session, bool) act" where
  "sendRawLevel2Bytes env payload ch outerCmd sign =
     act_read (\<lambda>s. case sessAddress s of
       None \<Rightarrow> act_return False
     | Some addr \<Rightarrow>
         if sessLevel2Key s = None then act_return False
         else
           act_bind (encryptLevel2 env payload) (\<lambda>enc. case enc of
             None \<Rightarrow> act_return False
           | Some body \<Rightarrow>
               act_bind (put_command addr outerCmd (buildRawCommandPayload body ch sign (0x08, 0x00) 0))
                 (\<lambda>_. act_return True)))"

definition sendRawLevel2 :: "session_env \<Rightarrow> string \<Rightarrow> int \<Rightarrow> int \<Rightarrow> (session, bool) act" where
  "sendRawLevel2 env text ch outerCmd = sendRawLevel2Bytes env (bytes_of_string text) ch outerCmd 8"

definition control_json :: "int \<Rightarrow> int \<Rightarrow> string \<Rightarrow> json \<Rightarrow> int \<Rightarrow> json" where
  "control_json cmd ch accountId payload mValue3 =
     JObj [(''account_id'', JStr accountId), (''cmd'', JInt cmd), (''mChannel'', JInt ch),
           (''mValue3'', JInt mValue3), (''payload'', payload)]"

definition sendControlLevel2 ::
  "session_env \<Rightarrow> int \<Rightarrow> int \<Rightarrow> string \<Rightarrow> json \<Rightarrow> int \<Rightarrow> (session, bool) act" where
  "sendControlLevel2 env cmd ch accountId payload mValue3 =
     sendRawLevel2Bytes env (bytes_of_string (json_stringify (control_json cmd ch accountId payload mValue3)))
       ch CMD_SET_PAYLOAD 8"

section \<open>The HomeBase media path\<close>

definition media_inner :: "string \<Rightarrow> string \<Rightarrow> json" where
  "media_inner accountId key =
     JObj [(''ClientOS'', JStr ''Android''), (''accountId'', JStr accountId), (''camera_type'', JInt 0),
           (''entrytype'', JInt 0), (''key'', JStr key), (''streamtype'', JInt 1)]"

text \<open>Both callers give an empty payload, so a start's is the inner envelope alone.\<close>

definition sendMediaPayloadLevel2 :: "session_env \<Rightarrow> int \<Rightarrow> int \<Rightarrow> string \<Rightarrow> (session, unit) act" where
  "sendMediaPayloadLevel2 env subCmd ch accountId =
     act_read (\<lambda>s. case sessAddress s of
       None \<Rightarrow> act_return ()
     | Some addr \<Rightarrow>
         if sessLevel2Key s = None then act_return ()
         else
           act_bind (if subCmd = CMD_START_REALTIME_MEDIA
                     then act_bind (rsaModulus env) (\<lambda>key. act_return (media_inner accountId key))
                     else act_return (JObj [])) (\<lambda>inner.
           act_bind (encryptLevel2 env (bytes_of_string (json_stringify (control_json subCmd ch accountId inner subCmd))))
             (\<lambda>enc. case enc of
                None \<Rightarrow> act_return ()
              | Some body \<Rightarrow>
                  act_read (\<lambda>s'.
                    let streamId = (if ch = STATION_CHANNEL \<or> ch = 0 then 0 else 0x0a + sessLevel2Seq s' mod 0x80)
                    in put_command addr CMD_SET_PAYLOAD (buildRawCommandPayload body ch 8 (0x08, 0x00) streamId)))))"

section \<open>Retained datagrams\<close>

text \<open>A JavaScript \<open>Map\<close>: a key set again keeps its place.\<close>

fun map_set :: "'k \<Rightarrow> 'v \<Rightarrow> ('k \<times> 'v) list \<Rightarrow> ('k \<times> 'v) list" where
  "map_set k v [] = [(k, v)]"
| "map_set k v (p # ps) = (if fst p = k then (k, v) # ps else p # map_set k v ps)"

definition map_delete :: "'k \<Rightarrow> ('k \<times> 'v) list \<Rightarrow> ('k \<times> 'v) list" where
  "map_delete k ps = filter (\<lambda>p. fst p \<noteq> k) ps"

datatype policy = AudioPolicy | LiveStartPolicy

fun retransmitMs :: "policy \<Rightarrow> int" where
  "retransmitMs AudioPolicy = AUDIO_RETRANSMIT_MS"
| "retransmitMs LiveStartPolicy = LIVE_START_RETRANSMIT_MS"

fun spent :: "policy \<Rightarrow> int \<Rightarrow> retained \<Rightarrow> bool" where
  "spent AudioPolicy now r \<longleftrightarrow> rtSends r \<ge> AUDIO_MAX_SENDS"
| "spent LiveStartPolicy now r \<longleftrightarrow> now - rtFirstSentAt r \<ge> LIVE_START_ACK_DEADLINE_MS"

definition fresh :: "policy \<Rightarrow> int \<Rightarrow> retained \<Rightarrow> bool" where
  "fresh p now r \<longleftrightarrow> now - rtSentAt r < retransmitMs p"

lemma retransmit_positive: "0 < retransmitMs p"
  by (cases p) (simp_all add: AUDIO_RETRANSMIT_MS_def LIVE_START_RETRANSMIT_MS_def)

text \<open>
  The sweep of \<open>retransmitUnacked\<close>, over the entries in the order of the map. A resent entry is deleted
  and set again, which puts it at the end, where the walk meets it once more and finds it fresh. The
  result is the map and what was done, in order.
\<close>

datatype 'a sweep_action = Abandon int 'a | Resend retained

function sweep ::
  "policy \<Rightarrow> int \<Rightarrow> (int \<times> 'a \<times> retained) list \<Rightarrow> (int \<times> 'a \<times> retained) list \<Rightarrow>
    (int \<times> 'a \<times> retained) list \<times> 'a sweep_action list" where
  "sweep p now kept [] = (kept, [])"
| "sweep p now kept ((sequence, x, r) # todo) =
     (if fresh p now r then sweep p now (kept @ [(sequence, x, r)]) todo
      else if spent p now r then
        (case sweep p now kept todo of (k, acts) \<Rightarrow> (k, Abandon sequence x # acts))
      else
        (let r' = r\<lparr>rtSends := rtSends r + 1, rtSentAt := now\<rparr> in
         case sweep p now kept (todo @ [(sequence, x, r')]) of (k, acts) \<Rightarrow> (k, Resend r' # acts)))"
  by pat_completeness auto
termination sweep
  by (relation "measure (\<lambda>(p, now, kept, todo). \<Sum>e \<leftarrow> todo. if fresh p now (snd (snd e)) then 1 else 2)")
    (auto simp: fresh_def retransmit_positive)

section \<open>Own-session live starts\<close>

definition startLiveJson :: "int \<Rightarrow> string \<Rightarrow> int \<Rightarrow> string \<Rightarrow> json" where
  "startLiveJson ch accountId now modulus =
     JObj [(''commandType'', JInt CMD_START_LIVE),
       (''data'', JObj
         [(''cmd'', JInt CMD_START_LIVE), (''account_id'', JStr accountId), (''accountId'', JStr accountId),
          (''mValueStrSub'', JStr accountId), (''mChannel'', JInt ch), (''mValue3'', JInt 0),
          (''mValue5'', JInt 0), (''msg_id'', JInt 1), (''camera_type'', JInt 0), (''entrytype'', JInt 0),
          (''extValue'', JInt CMD_START_LIVE), (''ivalue'', JInt 1), (''restore'', JInt 0),
          (''streamtype'', JInt 2), (''video_type'', JInt 12), (''timestamp'', JInt now),
          (''transaction'', JStr (show_int now)), (''encryptkey'', JStr modulus)])]"

definition armLiveStartRetransmit :: "(session, unit) act" where
  "armLiveStartRetransmit = act_modify (\<lambda>s. s\<lparr>sessStartTimer := True\<rparr>)"

definition clearLiveStartRetransmit :: "(session, unit) act" where
  "clearLiveStartRetransmit = act_modify (\<lambda>s. s\<lparr>sessStartTimer := False\<rparr>)"

text \<open>
  The start as it is framed: under the level-2 key with its frame type, else under the level-1 key. A
  start of the same channel still retained is replaced.
\<close>

definition start_body :: "session_env \<Rightarrow> buffer \<Rightarrow> (session, (buffer \<times> int \<times> int \<times> int) option) act" where
  "start_body env plain =
     act_read (\<lambda>s.
       if sessLevel2Key s \<noteq> None then
         act_bind (encryptLevel2 env plain) (\<lambda>enc.
           act_return (map_option (\<lambda>body. (body, 8, 0x08, START_LIVE_FRAME_TYPE_L2)) enc))
       else
         act_bind (act_lift (encryptP2PData (envCrypto env) (paddingP2PData plain 16) (level1Key env)))
           (\<lambda>body. act_return (Some (body, 1, 0x01, START_LIVE_FRAME_TYPE_L1))))"

definition retain_start :: "int \<Rightarrow> int \<Rightarrow> retained \<Rightarrow> session \<Rightarrow> session" where
  "retain_start q ch r s =
     s\<lparr>sessSeq := (sessSeq s + 1) mod 0x10000,
       sessStarts := map_set q (ch, r) (filter (\<lambda>e. fst (snd e) \<noteq> ch) (sessStarts s)),
       sessStartTimer := True\<rparr>"

definition sendStartLiveOwnSession :: "session_env \<Rightarrow> int \<Rightarrow> string \<Rightarrow> int \<Rightarrow> (session, unit) act" where
  "sendStartLiveOwnSession env ch accountId now =
     act_read (\<lambda>s. case sessAddress s of
       None \<Rightarrow> act_return ()
     | Some addr \<Rightarrow>
         act_bind (rsaModulus env) (\<lambda>modulus.
         act_bind (start_body env (bytes_of_string (json_stringify (startLiveJson ch accountId now modulus)))) (\<lambda>enc.
         case enc of
           None \<Rightarrow> act_return ()
         | Some (body, sign, magic, frameTy) \<Rightarrow>
             act_read (\<lambda>s1.
             act_bind (act_lift (buildCommandHeader (sessSeq s1) CMD_CONTROL_PAYLOAD (data_type_header DT_DATA))) (\<lambda>header.
             act_bind (act_lift (buildRawCommandPayload body ch sign (magic, 0x00) frameTy)) (\<lambda>payload.
             let data = header @ payload in
             act_bind (act_modify (retain_start (sessSeq s1) ch
                 \<lparr>rtData = data, rtFirstSentAt = now, rtSentAt = now, rtSends = 1\<rparr>)) (\<lambda>_.
             s_send addr REQ_DATA data)))))))"

text \<open>
  \<open>startLiveMedia\<close>, own-session: a keepalive where the channel counts as started under the level the
  session now has, a start otherwise. A forced start yields to one still awaiting its acknowledgement.
\<close>

definition startLiveMedia :: "session_env \<Rightarrow> int \<Rightarrow> string \<Rightarrow> bool \<Rightarrow> bool \<Rightarrow> int \<Rightarrow> (session, unit) act" where
  "startLiveMedia env ch accountId attached force now =
     (if attached then
        act_bind (act_modify (\<lambda>s. s\<lparr>sessInbound := (sessInbound s)\<lparr>tracedDatagramGaps := 0\<rparr>\<rparr>))
          (\<lambda>_. sendMediaPayloadLevel2 env CMD_START_REALTIME_MEDIA ch accountId)
      else
        act_read (\<lambda>s.
          let want = (if sessLevel2Key s = None then L1 else L2) in
          if force \<and> (\<exists>e \<in> set (sessStarts s). fst (snd e) = ch) then act_return ()
          else
            act_bind (act_modify (\<lambda>s. if force then s\<lparr>sessLiveStarted := (sessLiveStarted s)(ch := None)\<rparr> else s)) (\<lambda>_.
            act_read (\<lambda>s1.
              if sessLiveStarted s1 ch = Some want then sendCommand CMD_STREAM_KEEPALIVE ch
              else
                act_bind (act_modify (\<lambda>s. s\<lparr>sessInbound := (sessInbound s)\<lparr>tracedDatagramGaps := 0\<rparr>\<rparr>)) (\<lambda>_.
                act_bind (sendStartLiveOwnSession env ch accountId now) (\<lambda>_.
                act_modify (\<lambda>s. s\<lparr>sessLiveStarted := (sessLiveStarted s)(ch := Some want)\<rparr>)))))))"

definition stopLiveMedia :: "session_env \<Rightarrow> int \<Rightarrow> string \<Rightarrow> (session, unit) act" where
  "stopLiveMedia env ch accountId =
     act_bind (act_modify (\<lambda>s.
       let starts = filter (\<lambda>e. fst (snd e) \<noteq> ch) (sessStarts s)
       in s\<lparr>sessLiveStarted := (sessLiveStarted s)(ch := None), sessStarts := starts,
            sessStartTimer := (if starts = [] then False else sessStartTimer s)\<rparr>)) (\<lambda>_.
     act_read (\<lambda>s.
       if sessLevel2Key s \<noteq> None then sendMediaPayloadLevel2 env CMD_STOP_REALTIME_MEDIA ch accountId
       else sendCommand CMD_STOP_REALTIME_MEDIA ch))"

text \<open>What a sweep did, carried out in order.\<close>

fun perform ::
  "address \<Rightarrow> (int \<Rightarrow> 'a \<Rightarrow> (session, unit) act) \<Rightarrow> 'a sweep_action list \<Rightarrow> (session, unit) act" where
  "perform addr onAbandoned [] = act_return ()"
| "perform addr onAbandoned (Abandon q x # acts) =
     act_bind (onAbandoned q x) (\<lambda>_. perform addr onAbandoned acts)"
| "perform addr onAbandoned (Resend r # acts) =
     act_bind (s_send addr REQ_DATA (rtData r)) (\<lambda>_. perform addr onAbandoned acts)"

definition abandonStart :: "int \<Rightarrow> int \<Rightarrow> (session, unit) act" where
  "abandonStart q ch =
     act_bind (act_modify (\<lambda>s. s\<lparr>sessLiveStarted := (sessLiveStarted s)(ch := None)\<rparr>))
       (\<lambda>_. emit (LiveStartUnacknowledged ch))"

text \<open>A tick of the live-start interval; it stops once nothing is outstanding.\<close>

definition liveStartTick :: "int \<Rightarrow> (session, unit) act" where
  "liveStartTick now =
     act_read (\<lambda>s. case sessAddress s of
       None \<Rightarrow> clearLiveStartRetransmit
     | Some addr \<Rightarrow>
         (case sweep LiveStartPolicy now [] (sessStarts s) of (kept, acts) \<Rightarrow>
            act_bind (act_modify (\<lambda>s. s\<lparr>sessStarts := kept\<rparr>)) (\<lambda>_.
            act_bind (perform addr abandonStart acts) (\<lambda>_.
            if kept = [] then clearLiveStartRetransmit else act_return ()))))"

section \<open>Talkback\<close>

definition sendTalkbackControl :: "session_env \<Rightarrow> int \<Rightarrow> bool \<Rightarrow> bool \<Rightarrow> int \<Rightarrow> (session, bool) act" where
  "sendTalkbackControl env ch attached start now =
     act_read (\<lambda>s. if sessAddress s = None then act_return False
       else if attached then
         sendRawLevel2Bytes env (u32le ch) ch (if start then CMD_START_TALKBACK else CMD_STOP_TALKBACK) 8
       else
         (let text = json_stringify (JObj
            [(''commandType'', JInt (if start then CMD_START_SPEAK else CMD_END_SPEAK)),
             (''data'', JObj [(''transaction'', JStr (show_int now))])])
          in if sessLevel2Key s \<noteq> None then sendRawLevel2 env text ch CMD_CONTROL_PAYLOAD
             else act_bind (sendStringPayloadCommand env CMD_CONTROL_PAYLOAD text ch) (\<lambda>_. act_return True)))"

definition startTalkback :: "session_env \<Rightarrow> int \<Rightarrow> bool \<Rightarrow> int \<Rightarrow> (session, bool) act" where
  "startTalkback env ch attached now = sendTalkbackControl env ch attached True now"

definition stopTalkback :: "session_env \<Rightarrow> int \<Rightarrow> bool \<Rightarrow> int \<Rightarrow> (session, bool) act" where
  "stopTalkback env ch attached now = sendTalkbackControl env ch attached False now"

definition sendAudioFrame :: "int \<Rightarrow> buffer \<Rightarrow> int \<Rightarrow> (session, unit) act" where
  "sendAudioFrame ch frame now =
     act_read (\<lambda>s. case sessAddress s of
       None \<Rightarrow> act_return ()
     | Some addr \<Rightarrow>
         (let header = u32le (int (length frame)) @ u32le ch @ replicate 8 0; q = sessVideoSeq s in
          act_bind (act_lift (buildCommandHeader q CMD_AUDIO_FRAME (data_type_header DT_VIDEO))) (\<lambda>head.
          act_bind (act_lift (buildRawCommandPayload (header @ frame) ch 0 (0x01, 0x00) 0)) (\<lambda>body.
          let data = head @ body in
          act_bind (act_modify (\<lambda>s. s\<lparr>sessVideoSeq := (sessVideoSeq s + 1) mod 0x10000,
              sessAudio := map_set q ((), \<lparr>rtData = data, rtFirstSentAt = now, rtSentAt = now, rtSends = 1\<rparr>) (sessAudio s),
              sessAudioTimer := True\<rparr>)) (\<lambda>_.
          s_send addr REQ_DATA data)))))"

definition audioInFlight :: "session \<Rightarrow> nat" where
  "audioInFlight s = length (sessAudio s)"

definition abandonAudio :: "int \<Rightarrow> unit \<Rightarrow> (session, unit) act" where
  "abandonAudio q x =
     act_read (\<lambda>s. if sessAudioStalled s then act_return ()
       else act_bind (act_modify (\<lambda>s. s\<lparr>sessAudioStalled := True\<rparr>)) (\<lambda>_. emit (AudioGap q)))"

definition audioTick :: "int \<Rightarrow> (session, unit) act" where
  "audioTick now =
     act_read (\<lambda>s. case sessAddress s of
       None \<Rightarrow> act_modify (\<lambda>s. s\<lparr>sessAudioTimer := False\<rparr>)
     | Some addr \<Rightarrow>
         (case sweep AudioPolicy now [] (sessAudio s) of (kept, acts) \<Rightarrow>
            act_bind (act_modify (\<lambda>s. s\<lparr>sessAudio := kept\<rparr>)) (\<lambda>_.
            act_bind (perform addr abandonAudio acts) (\<lambda>_.
            if kept = [] then act_modify (\<lambda>s. s\<lparr>sessAudioTimer := False\<rparr>) else act_return ()))))"

section \<open>Acknowledgements\<close>

definition acked_sequences :: "buffer \<Rightarrow> int list" where
  "acked_sequences msg =
     map (\<lambda>i. int (u16be_at msg (8 + 2 * i)))
       (takeWhile (\<lambda>i. 10 + 2 * i \<le> length msg) [0..<u16be_at msg 6])"

definition onAck :: "buffer \<Rightarrow> session \<Rightarrow> session" where
  "onAck msg s =
     (if length msg < 8 \<or> msg ! 4 \<noteq> 0xd1 then s
      else if msg ! 5 = 0 then
        (let starts = foldl (\<lambda>m q. map_delete q m) (sessStarts s) (acked_sequences msg)
         in s\<lparr>sessStarts := starts, sessStartTimer := (if starts = [] then False else sessStartTimer s)\<rparr>)
      else if msg ! 5 \<noteq> 1 then s
      else
        s\<lparr>sessAudio := foldl (\<lambda>m q. map_delete q m) (sessAudio s) (acked_sequences msg),
          sessAudioStalled := (if u16be_at msg 6 > 0 then False else sessAudioStalled s)\<rparr>)"

section \<open>Requests\<close>

text \<open>The level-1 requests share their tail: a string payload under the control wrapper.\<close>

definition request_level1 :: "session_env \<Rightarrow> int \<Rightarrow> json \<Rightarrow> int \<Rightarrow> (session, unit) act" where
  "request_level1 env outer value ch =
     act_read (\<lambda>s. case sessAddress s of
       None \<Rightarrow> act_lift (Inl (UserError ''not connected''))
     | Some addr \<Rightarrow>
         put_command addr outer
           (buildStringCommandPayload (envCrypto env) (json_stringify value) ch (Some (level1Key env)) 1))"

definition requestImage :: "session_env \<Rightarrow> string \<Rightarrow> string \<Rightarrow> int \<Rightarrow> (session, unit) act" where
  "requestImage env filePath accountId ch =
     request_level1 env CMD_SET_PAYLOAD
       (JObj [(''account_id'', JStr accountId), (''cmd'', JInt CMD_DATABASE_IMAGE), (''mChannel'', JInt ch),
         (''payload'', JArr [JObj [(''file'', JStr filePath)]]), (''transaction'', JStr filePath)]) ch"

definition queryDatabase ::
  "session_env \<Rightarrow> string \<Rightarrow> string \<Rightarrow> int \<Rightarrow> json option \<Rightarrow> int \<Rightarrow> int \<Rightarrow> (session, unit) act" where
  "queryDatabase env table accountId ch query innerCmd now =
     (let inner = [(''cmd'', JInt innerCmd)]
            @ (if table \<noteq> [] then [(''table'', JStr table)] else [])
            @ (case query of None \<Rightarrow> [] | Some j \<Rightarrow> [(''payload'', j)])
            @ [(''transaction'', JStr (show_int now))]
      in request_level1 env CMD_SET_PAYLOAD
           (JObj [(''account_id'', JStr accountId), (''cmd'', JInt CMD_DATABASE), (''mChannel'', JInt ch),
             (''mValue3'', JInt 0), (''payload'', JObj inner)]) ch)"

definition fullTableQuery :: "int \<Rightarrow> json" where
  "fullTableQuery count =
     JObj [(''count'', JInt count), (''start_date'', JStr []), (''end_date'', JStr []),
       (''start_id'', JInt 0), (''end_id'', JInt 1), (''flag'', JInt 0), (''need_ai'', JInt 1),
       (''res_unzip'', JInt 1), (''update_time'', JStr ''0''), (''start_time'', JStr ''0''),
       (''alarm_id'', JStr [])]"

definition requestFaces :: "session_env \<Rightarrow> string \<Rightarrow> int \<Rightarrow> int \<Rightarrow> (session, unit) act" where
  "requestFaces env accountId ch now =
     queryDatabase env ''person_basic_info'' accountId ch (Some (fullTableQuery 2000)) DB_FULL_TABLE now"

definition requestFaceFeatures :: "session_env \<Rightarrow> string \<Rightarrow> int \<Rightarrow> int \<Rightarrow> (session, unit) act" where
  "requestFaceFeatures env accountId ch now =
     queryDatabase env ''face_feature_info'' accountId ch (Some (fullTableQuery 2000)) DB_FULL_TABLE now"

text \<open>\<open>omitPayload\<close> is a payload of \<open>None\<close>; \<open>rawValue\<close> replaces the whole object.\<close>

definition sendSetPayload ::
  "session_env \<Rightarrow> int \<Rightarrow> json option \<Rightarrow> string \<Rightarrow> int \<Rightarrow> int option \<Rightarrow> json option \<Rightarrow> (session, unit) act" where
  "sendSetPayload env subCmd payload accountId ch wrapCmd rawValue =
     request_level1 env (case wrapCmd of None \<Rightarrow> CMD_SET_PAYLOAD | Some w \<Rightarrow> w)
       (case rawValue of
          Some v \<Rightarrow> v
        | None \<Rightarrow> JObj ([(''account_id'', JStr accountId), (''cmd'', JInt subCmd), (''mChannel'', JInt ch),
              (''mValue3'', JInt 0)] @ (case payload of None \<Rightarrow> [] | Some p \<Rightarrow> [(''payload'', p)]))) ch"

definition requestLocalFaces :: "session_env \<Rightarrow> bool \<Rightarrow> string \<Rightarrow> int \<Rightarrow> (session, unit) act" where
  "requestLocalFaces env candidate accountId ch =
     sendSetPayload env (if candidate then 1195 else 1194) (Some (JObj [])) accountId ch None None"

section \<open>The level-2 cipher opens what it sealed\<close>

lemma level2_open:
  assumes "gcm_contract (envSeal env) (envGcm env)" "length (envRandom env (sessDraws s)) = 12"
    and "encryptLevel2 env p s = (Inr (Some body), s')"
  shows "decryptLevel2 env s body 8 = Some p" "sessLevel2Key s \<noteq> None"
    "s' = s\<lparr>sessLevel2Seq := (sessLevel2Seq s + 1) mod 0x100, sessDraws := sessDraws s + 1\<rparr>"
proof -
  obtain key where k: "sessLevel2Key s = Some key"
    using assms(3) by (auto simp: encryptLevel2_def split: option.splits)
  obtain tag ct where t: "envSeal env key (envRandom env (sessDraws s)) GCM_AAD p = (tag, ct)" by fastforce
  have l: "length tag = 16" and g: "envGcm env key (envRandom env (sessDraws s)) GCM_AAD tag ct = Some p"
    using assms(1) t unfolding gcm_contract_def by (metis fst_conv, metis fst_conv snd_conv)
  have b: "body = tag @ envRandom env (sessDraws s) @ [word_of_int (sessLevel2Seq s), 0x03, 0x02, 0x01] @ ct"
    and s': "s' = s\<lparr>sessLevel2Seq := (sessLevel2Seq s + 1) mod 0x100, sessDraws := sessDraws s + 1\<rparr>"
    using assms(3) by (auto simp: encryptLevel2_def k t)
  show "decryptLevel2 env s body 8 = Some p"
    using l g assms(2) by (simp add: decryptLevel2_def k b slice_def)
  show "sessLevel2Key s \<noteq> None" by (simp add: k)
  show "s' = s\<lparr>sessLevel2Seq := (sessLevel2Seq s + 1) mod 0x100, sessDraws := sessDraws s + 1\<rparr>" by (rule s')
qed

section \<open>What a sender leaves alone\<close>

text \<open>
  The state without what sending steps: the sequence numbers, the cipher's counters, the key pair, the
  trace budget, the heartbeat payload and the log.
\<close>

definition core :: "session \<Rightarrow> session" where
  "core s = s\<lparr>sessSeq := 0, sessVideoSeq := 0, sessLevel2Seq := 0, sessDraws := 0, sessRsa := None,
     sessInbound := \<lparr>pendingByDataType = \<lambda>_. None, lastSeqByType = \<lambda>_. None, tracedDatagramGaps = 0\<rparr>,
     sessPongData := None, sessPongAt := None, sessStaleTraced := False, sessSelf := None, sessOut := []\<rparr>"

definition is_datagram :: "session_out \<Rightarrow> bool" where
  "is_datagram e = (case e of Datagram a b \<Rightarrow> True | _ \<Rightarrow> False)"

definition sent_only :: "session \<Rightarrow> session \<Rightarrow> bool" where
  "sent_only s s' \<longleftrightarrow> core s' = core s \<and> (\<exists>ds. sessOut s' = sessOut s @ ds \<and> list_all is_datagram ds)"

lemma core_fields:
  "core s' = core s \<Longrightarrow> sessClosed s' = sessClosed s \<and> sessAddress s' = sessAddress s \<and>
     sessLevel2Key s' = sessLevel2Key s \<and> sessPending s' = sessPending s \<and>
     sessNegotiating s' = sessNegotiating s \<and> sessJobs s' = sessJobs s \<and> sessWaiters s' = sessWaiters s \<and>
     sessGeneration s' = sessGeneration s \<and> sessStarts s' = sessStarts s \<and> sessStartTimer s' = sessStartTimer s \<and>
     sessAudio s' = sessAudio s \<and> sessAudioTimer s' = sessAudioTimer s \<and>
     sessAudioStalled s' = sessAudioStalled s \<and> sessLiveStarted s' = sessLiveStarted s \<and>
     sessConnected s' = sessConnected s \<and> sessConnecting s' = sessConnecting s"
  by (cases s; cases s') (simp add: core_def)

interpretation sending: act_relation sent_only
proof
  show "sent_only s s" for s by (simp add: sent_only_def)
  show "sent_only s v" if "sent_only s t" "sent_only t v" for s t v
    using that by (auto simp: sent_only_def)
qed

lemma sent_emit: "is_datagram x \<Longrightarrow> sending.keeps (emit x)"
  unfolding emit_def by (rule sending.keeps_modify) (simp add: sent_only_def core_def)

lemma sent_send: "sending.keeps (s_send a ty p)"
  unfolding s_send_def by (intro sending.keeps_intros sent_emit) (simp add: is_datagram_def)

lemma sent_next: "sending.keeps next_seq"
  unfolding next_seq_def by (rule sending.keeps_modify) (simp add: sent_only_def core_def)

lemma sent_put: "sending.keeps (put_command a ct p)"
  unfolding put_command_def by (intro sending.keeps_intros sent_send sent_next)

lemma sent_command: "sending.keeps (sendCommand ct ch)"
  unfolding sendCommand_def by (intro sending.keeps_intros sent_put)

lemma sent_encrypt: "sending.keeps (encryptLevel2 env p)"
  by (auto simp: sending.keeps_def encryptLevel2_def sent_only_def core_def Let_def split: option.split prod.split)

lemma sent_modulus: "sending.keeps (rsaModulus env)"
  by (auto simp: sending.keeps_def rsaModulus_def sent_only_def core_def split: option.split)

lemma sent_string: "sending.keeps (sendStringPayloadCommand env ct v ch)"
  unfolding sendStringPayloadCommand_def by (intro sending.keeps_intros sent_put)

lemma sent_raw2: "sending.keeps (sendRawLevel2Bytes env p ch oc sc)"
  unfolding sendRawLevel2Bytes_def by (intro sending.keeps_intros sent_put sent_encrypt)

lemma sent_control: "sending.keeps (sendControlLevel2 env cmd ch acc p mv)"
  unfolding sendControlLevel2_def by (rule sent_raw2)

lemma sent_media: "sending.keeps (sendMediaPayloadLevel2 env c ch acc)"
  unfolding sendMediaPayloadLevel2_def Let_def
  by (intro sending.keeps_intros sent_put sent_encrypt sent_modulus)

lemma sent_talkback: "sending.keeps (sendTalkbackControl env ch att start now)"
  unfolding sendTalkbackControl_def Let_def sendRawLevel2_def
  by (intro sending.keeps_intros sent_raw2 sent_string)

lemma sent_body: "sending.keeps (start_body env p)"
  unfolding start_body_def by (intro sending.keeps_intros sent_encrypt)

lemma sent_gaps:
  "sending.keeps (act_modify (\<lambda>s. s\<lparr>sessInbound := (sessInbound s)\<lparr>tracedDatagramGaps := 0\<rparr>\<rparr>))"
  by (rule sending.keeps_modify) (simp add: sent_only_def core_def)

end
