(* ===== verification/P2p_Lifecycle.thy ===== *)
theory P2p_Lifecycle
  imports P2p_Session
begin

text \<open>
  The rest of \<open>src/transport/p2p/p2p-session.ts\<close>: connecting, the lookup and hole-punch handshake, the
  routing of inbound datagrams, the decryption and interpretation of a frame, the level-2 negotiation
  with its waiters, and closing. What completes later (a bound socket, a cipher key looked up in the
  cloud, an elapsed grace, a tick) is an event of its own.
\<close>

section \<open>Level-2 negotiation\<close>

definition act_if :: "bool \<Rightarrow> ('s, unit) act \<Rightarrow> ('s, unit) act" where
  "act_if b m = (if b then m else act_return ())"

definition settleLevel2 :: "wait_outcome \<Rightarrow> session \<Rightarrow> session" where
  "settleLevel2 reason s =
     (let outcome = (if sessLevel2Key s \<noteq> None then WaitKey else reason)
      in s\<lparr>sessPending := False, sessWaiters := [],
           sessOut := sessOut s @ map (\<lambda>w. WaitSettled w outcome) (sessWaiters s)\<rparr>)"

definition setLevel2Key :: "buffer \<Rightarrow> (session, unit) act" where
  "setLevel2Key key =
     (if length key \<noteq> 32 then act_lift (Inl (UserError ''level-2 key must be 32 bytes''))
      else act_modify (\<lambda>s. settleLevel2 WaitTerminal (s\<lparr>sessLevel2Key := Some key\<rparr>)))"

definition hasLevel2Key :: "session \<Rightarrow> bool" where
  "hasLevel2Key s \<longleftrightarrow> sessLevel2Key s \<noteq> None"

text \<open>
  \<open>awaitLevel2Key\<close>, whose promise \<open>w\<close> is settled at once or parked among the waiters. It resolves to
  true for \<open>WaitKey\<close> and to false otherwise.
\<close>

definition awaitLevel2Key :: "nat \<Rightarrow> int \<Rightarrow> bool \<Rightarrow> int \<Rightarrow> session \<Rightarrow> session" where
  "awaitLevel2Key w graceMs fromSession now s =
     (if sessClosed s then s\<lparr>sessOut := sessOut s @ [WaitSettled w WaitClosed]\<rparr>
      else if sessLevel2Key s \<noteq> None then s\<lparr>sessOut := sessOut s @ [WaitSettled w WaitKey]\<rparr>
      else if \<not> sessPending s then s\<lparr>sessOut := sessOut s @ [WaitSettled w WaitTerminal]\<rparr>
      else
        (let since = (if \<not> fromSession then now else case sessConnectedAt s of None \<Rightarrow> now | Some t \<Rightarrow> t);
             remaining = graceMs - (now - since)
         in if remaining \<le> 0 then s\<lparr>sessOut := sessOut s @ [WaitSettled w WaitTimeout]\<rparr>
            else s\<lparr>sessWaiters := sessWaiters s @ [w]\<rparr>))"

definition waitDeadline :: "nat \<Rightarrow> session \<Rightarrow> session" where
  "waitDeadline w s =
     (if w \<in> set (sessWaiters s)
      then s\<lparr>sessWaiters := remove1 w (sessWaiters s), sessOut := sessOut s @ [WaitSettled w WaitTimeout]\<rparr>
      else s)"

definition repromptLevel2Key :: "session_env \<Rightarrow> (session, bool) act" where
  "repromptLevel2Key env =
     act_read (\<lambda>s.
       if sessClosed s \<or> sessLevel2Key s \<noteq> None \<or> sessReprompted s then act_return False
       else if \<not> cfgResolver env \<or> sessAddress s = None then act_return False
       else
         act_bind (act_modify (\<lambda>s. s\<lparr>sessReprompted := True, sessPending := True\<rparr>)) (\<lambda>_.
         act_bind (sendCommand CMD_GATEWAYINFO STATION_CHANNEL) (\<lambda>_. act_return True)))"

text \<open>
  \<open>negotiateLevel2Key\<close> up to its \<open>await\<close>: the lookup of the cipher's private key is outstanding, under
  the generation of the connection that asked.
\<close>

definition negotiateLevel2Key :: "buffer \<Rightarrow> session \<Rightarrow> session" where
  "negotiateLevel2Key gwPayload s =
     s\<lparr>sessNegotiating := True, sessJobs := sessJobs s @ [(sessGeneration s, gwPayload)]\<rparr>"

datatype resolver_answer = ResolverThrows | NoPrivateKey | PrivateKey string

definition negotiation_failed :: "session \<Rightarrow> session" where
  "negotiation_failed s = (settleLevel2 WaitTerminal s)\<lparr>sessOut := sessOut (settleLevel2 WaitTerminal s) @ [EmitError]\<rparr>"

definition resolverAnswers :: "session_env \<Rightarrow> nat \<Rightarrow> resolver_answer \<Rightarrow> session \<Rightarrow> session" where
  "resolverAnswers env i answer s =
     (if i \<ge> length (sessJobs s) then s
      else
        (let (generation, gwPayload) = sessJobs s ! i;
             s1 = s\<lparr>sessJobs := take i (sessJobs s) @ drop (Suc i) (sessJobs s)\<rparr>
         in if sessClosed s1 \<or> generation \<noteq> sessGeneration s1 then s1
            else
              (case answer of
                 ResolverThrows \<Rightarrow> negotiation_failed s1
               | NoPrivateKey \<Rightarrow> settleLevel2 WaitTerminal s1
               | PrivateKey eccPrivHex \<Rightarrow>
                   if eccPrivHex = [] then settleLevel2 WaitTerminal s1
                   else
                     (case deriveLevel2KeyFromGatewayInfo (envCrypto env) gwPayload eccPrivHex of
                        None \<Rightarrow> negotiation_failed s1
                      | Some key \<Rightarrow>
                          (case act_bind (setLevel2Key key) (\<lambda>_. emit (Level2Ready (gatewayInfoCipherId gwPayload))) s1 of
                             (Inl e, s2) \<Rightarrow> negotiation_failed s2
                           | (Inr _, s2) \<Rightarrow> s2)))))"

section \<open>A frame\<close>

definition isMedia :: "p2p_header \<Rightarrow> bool" where
  "isMedia h \<longleftrightarrow> int (commandId h) = CMD_VIDEO_FRAME \<or> int (commandId h) = CMD_AUDIO_FRAME"

definition frame_plain :: "session_env \<Rightarrow> session \<Rightarrow> p2p_header \<Rightarrow> buffer \<Rightarrow> buffer" where
  "frame_plain env s h payload =
     (if isMedia h then payload
      else if (signCode h = 2 \<or> signCode h = 8) \<and> sessLevel2Key s \<noteq> None then
        (case decryptLevel2 env s payload (signCode h) of Some d \<Rightarrow> d | None \<Rightarrow> payload)
      else if signCode h > 0 \<and> length payload > 0 \<and> length payload mod 16 = 0 then
        (case decryptP2PData (envCrypto env) payload (level1Key env) of Inr d \<Rightarrow> d | Inl _ \<Rightarrow> payload)
      else payload)"

text \<open>
  \<open>String(v)\<close> of a parsed value; a fraction as it is written. An object with a member called \<open>toString\<close>
  has no way to a string: what shadows the method is data, and \<open>valueOf\<close> answers the object itself.
\<close>

fun js_string :: "json \<Rightarrow> js_error + string" where
  "js_string JNull = Inr ''null''"
| "js_string (JBool b) = Inr (if b then ''true'' else ''false'')"
| "js_string (JInt n) = Inr (show_int n)"
| "js_string (JFloat w) = Inr w"
| "js_string (JStr w) = Inr w"
| "js_string (JArr js) =
     res_bind (foldr (\<lambda>r rest. res_bind r (\<lambda>w. res_bind rest (\<lambda>ws. Inr (w # ws))))
        (map (\<lambda>j. if j = JNull then Inr [] else js_string j) js) (Inr []))
       (\<lambda>ws. Inr (join_with (CHR '','') ws))"
| "js_string (JObj kvs) = (if ''toString'' \<in> set (map fst kvs) then Inl TypeError else Inr ''[object Object]'')"

definition param_entry :: "json \<Rightarrow> js_error + (string \<times> string) option" where
  "param_entry entry =
     (case (json_get ''param_type'' entry, json_get ''param_value'' entry) of
        (Some ty, Some v) \<Rightarrow>
          if v = JNull then Inr None
          else
            (case ty of
               JInt n \<Rightarrow> res_bind (js_string v) (\<lambda>w. Inr (Some (show_int n, w)))
             | JFloat t \<Rightarrow> res_bind (js_string v) (\<lambda>w. Inr (Some (t, w)))
             | _ \<Rightarrow> Inr None)
      | _ \<Rightarrow> Inr None)"

fun reported_entries :: "json list \<Rightarrow> (string \<times> string) list \<Rightarrow> js_error + (string \<times> string) list" where
  "reported_entries [] m = Inr m"
| "reported_entries (e # es) m =
     res_bind (param_entry e) (\<lambda>r. reported_entries es (case r of None \<Rightarrow> m | Some (k, v) \<Rightarrow> map_set k v m))"

definition paramReport :: "json option \<Rightarrow> js_error + (string \<times> string) list" where
  "paramReport payload =
     (case payload of
        None \<Rightarrow> Inr []
      | Some p \<Rightarrow>
          (case json_get ''params'' p of
             Some (JArr list) \<Rightarrow> reported_entries list []
           | _ \<Rightarrow> Inr []))"

definition starts_with :: "string \<Rightarrow> string \<Rightarrow> bool" where
  "starts_with w s \<longleftrightarrow> take (length w) s = w"

definition CMD_NAS_SWITCH :: int where "CMD_NAS_SWITCH = 1145"

text \<open>
  What \<open>handleFrame\<close> emits for a frame. A payload that is text and begins an object is parsed; a text
  that is not JSON leaves \<open>json\<close> unset. A reported map without entries is no report; a report with a value
  that has no string throws out of \<open>handleFrame\<close>, past the parsing and before the rest is emitted.
\<close>

definition frame_json :: "buffer \<Rightarrow> json option" where
  "frame_json data =
     (if starts_with ''{'' (readNullTerminatedString data) then json_parse (readNullTerminatedString data) else None)"

definition frame_params :: "p2p_header \<Rightarrow> json option \<Rightarrow> js_error + (string \<times> string) list" where
  "frame_params h parsed =
     (if int (commandId h) = CMD_NOTIFY_PAYLOAD
      then paramReport (case parsed of None \<Rightarrow> None | Some j \<Rightarrow> json_get ''payload'' j)
      else if int (commandId h) = CMD_CAMERA_INFO then paramReport parsed else Inr [])"

text \<open>\<open>toString("latin1")\<close>: every byte is the character of its value.\<close>

definition latin1_text :: "buffer \<Rightarrow> string" where
  "latin1_text b = concat (map (\<lambda>x. utf8 (unat x)) b)"

definition db_chunk :: "session_env \<Rightarrow> p2p_header \<Rightarrow> buffer \<Rightarrow> session_out list" where
  "db_chunk env h payload =
     (let n = length payload - length payload mod 16 in
      if int (commandId h) = CMD_DATABASE \<and> signCode h > 0 \<and> n \<ge> 16 then
        (case decryptP2PData (envCrypto env) (take n payload) (level1Key env) of
           Inr d \<Rightarrow> [DbChunk (latin1_text d)] | Inl _ \<Rightarrow> [])
      else [])"

definition image_reply :: "p2p_header \<Rightarrow> json option \<Rightarrow> session_out list" where
  "image_reply h parsed =
     (if int (commandId h) \<noteq> CMD_DATABASE_IMAGE then []
      else
        (case parsed of
           None \<Rightarrow> []
         | Some j \<Rightarrow>
             (case json_get ''content'' j of
                Some (JStr content) \<Rightarrow>
                  [ImageData (case json_get ''file'' j of None \<Rightarrow> JStr [] | Some f \<Rightarrow> if f = JNull then JStr [] else f)
                     (b64_decode content)]
              | _ \<Rightarrow> [])))"

definition frame_events :: "session_env \<Rightarrow> p2p_header \<Rightarrow> buffer \<Rightarrow> byte \<Rightarrow> buffer \<Rightarrow> session_out list" where
  "frame_events env h payload dataType data =
     (let text = readNullTerminatedString data; parsed = frame_json data in
      db_chunk env h payload
      @ (case frame_params h parsed of
           Inl e \<Rightarrow> []
         | Inr params \<Rightarrow>
             (if int (commandId h) = CMD_NAS_SWITCH \<and> starts_with ''rtsp://'' text then [RtspUrl (channel h) text] else [])
             @ image_reply h parsed
             @ (if \<not> isMedia h \<and> parsed = None \<and> length data = 4
                then [CommandResult (as_signed 32 (u32le_at data 0)) (channel h)] else [])
             @ [FrameData h dataType data payload parsed params]))"

definition frame_handled :: "session_env \<Rightarrow> p2p_header \<Rightarrow> buffer \<Rightarrow> byte \<Rightarrow> session \<Rightarrow> session" where
  "frame_handled env h payload dataType s =
     (let data = frame_plain env s h payload;
          s1 = (if int (commandId h) = CMD_GATEWAYINFO \<and> signCode h = 1 \<and> sessLevel2Key s = None
                   \<and> \<not> sessNegotiating s \<and> cfgResolver env
                then negotiateLevel2Key data s else s)
      in s1\<lparr>sessOut := sessOut s1 @ frame_events env h payload dataType data\<rparr>)"

definition handleFrame :: "session_env \<Rightarrow> p2p_header \<Rightarrow> buffer \<Rightarrow> byte \<Rightarrow> (session, unit) act" where
  "handleFrame env h payload dataType s =
     (res_bind (frame_params h (frame_json (frame_plain env s h payload))) (\<lambda>_. Inr ()),
      frame_handled env h payload dataType s)"

lemma frame_handled_form:
  "\<exists>neg jobs. frame_handled env h p dt s =
     s\<lparr>sessNegotiating := neg, sessJobs := jobs, sessOut := sessOut s @ frame_events env h p dt (frame_plain env s h p)\<rparr>"
proof -
  have same: "\<exists>neg jobs. s\<lparr>sessOut := es\<rparr> = s\<lparr>sessNegotiating := neg, sessJobs := jobs, sessOut := es\<rparr>" for es
    by (rule exI [of _ "sessNegotiating s"], rule exI [of _ "sessJobs s"]) simp
  have job: "\<exists>neg jobs. (negotiateLevel2Key d s)\<lparr>sessOut := es\<rparr> = s\<lparr>sessNegotiating := neg, sessJobs := jobs, sessOut := es\<rparr>" for d es
    by (rule exI [of _ True], rule exI [of _ "sessJobs s @ [(sessGeneration s, d)]"]) (simp add: negotiateLevel2Key_def)
  have out: "sessOut (negotiateLevel2Key d s) = sessOut s" for d by (simp add: negotiateLevel2Key_def)
  show ?thesis
    unfolding frame_handled_def Let_def if_distrib [of sessOut] out if_cancel
    by (rule if_split [THEN iffD2]) (intro conjI impI job same)
qed

section \<open>The path\<close>

definition pathSilentMs :: "session \<Rightarrow> int \<Rightarrow> int option" where
  "pathSilentMs s now = map_option (\<lambda>t. now - t) (sessPongAt s)"

definition pathAnswering :: "int \<Rightarrow> session \<Rightarrow> bool \<times> session" where
  "pathAnswering now s =
     (case pathSilentMs s now of
        None \<Rightarrow> (True, s)
      | Some silent \<Rightarrow>
          if silent < PATH_SILENCE_MS then (True, s)
          else (False, s\<lparr>sessStaleTraced := True\<rparr>))"

section \<open>Connecting\<close>

fun send_all :: "address list \<Rightarrow> request_type \<Rightarrow> buffer \<Rightarrow> (session, unit) act" where
  "send_all [] ty payload = act_return ()"
| "send_all (a # as) ty payload = act_bind (s_send a ty payload) (\<lambda>_. send_all as ty payload)"

definition cloud_lookup :: "session_env \<Rightarrow> session \<Rightarrow> js_error + (request_type \<times> buffer)" where
  "cloud_lookup env s =
     (case (cfgDskKey env, sessSelf s) of
        (Some dsk, Some a) \<Rightarrow>
          res_bind (buildLookupWithKeyPayload (cfgP2pDid env) (host a) (int (port a)) dsk) (\<lambda>p. Inr (LOOKUP_WITH_KEY, p))
      | (Some dsk, None) \<Rightarrow> res_bind (buildLookupWithKeyPayload2 (cfgP2pDid env) dsk) (\<lambda>p. Inr (LOOKUP_WITH_KEY2, p))
      | (None, _) \<Rightarrow> Inl TypeError)"

definition sendLookups :: "session_env \<Rightarrow> (session, unit) act" where
  "sendLookups env =
     act_read (\<lambda>s. if sessConnected s \<or> \<not> sessSocket s then act_return ()
       else
         act_bind (act_if (\<not> cfgNoBroadcast env)
           (s_send \<lparr>host = ''255.255.255.255'', port = LOCAL_LOOKUP_PORT\<rparr> LOCAL_LOOKUP buildLocalLookupPayload)) (\<lambda>_.
         act_bind (case cfgLocalAddress env of
             None \<Rightarrow> act_return ()
           | Some h \<Rightarrow> act_if (h \<noteq> []) (s_send \<lparr>host = h, port = LOCAL_LOOKUP_PORT\<rparr> LOCAL_LOOKUP buildLocalLookupPayload)) (\<lambda>_.
         act_if (cfgDskKey env \<noteq> None \<and> cfgDskKey env \<noteq> Some [] \<and> cfgCloudAddresses env \<noteq> [])
           (act_bind (act_lift (cloud_lookup env s)) (\<lambda>(ty, payload). send_all (cfgCloudAddresses env) ty payload)))))"

text \<open>\<open>connect\<close> up to the bind of its socket, and from there on.\<close>

definition s_connect :: "session_env \<Rightarrow> session \<Rightarrow> session" where
  "s_connect env s =
     (if sessConnecting s \<or> sessConnected s then s
      else
        (let s1 = s\<lparr>sessConnecting := True, sessClosed := False, sessGeneration := sessGeneration s + 1,
                    sessInbound := resetInboundSequencing (sessInbound s)\<rparr>;
             s2 = (if sessLevel2Key s1 = None
                   then s1\<lparr>sessPending := cfgResolver env, sessNegotiating := False, sessReprompted := False\<rparr>
                   else s1)
         in s2\<lparr>sessSocket := True\<rparr>))"

definition socketBound :: "session_env \<Rightarrow> (session, unit) act" where
  "socketBound env =
     act_read (\<lambda>s. if \<not> sessSocket s then act_lift (Inl (UserError ''ERR_SOCKET_DGRAM_NOT_RUNNING''))
       else act_bind (sendLookups env) (\<lambda>_. act_modify (\<lambda>s. s\<lparr>sessLookupTimer := True, sessConnectTimer := True\<rparr>)))"

definition localIpDetected :: "string \<Rightarrow> nat \<Rightarrow> session \<Rightarrow> session" where
  "localIpDetected h boundPort s =
     (if h \<noteq> [] \<and> \<not> sessClosed s then s\<lparr>sessSelf := Some \<lparr>host = h, port = boundPort\<rparr>\<rparr> else s)"

definition beginCheckCam :: "session_env \<Rightarrow> address \<Rightarrow> (session, unit) act" where
  "beginCheckCam env addr =
     act_bind (act_lift (buildCheckCamPayload (cfgP2pDid env))) (\<lambda>payload.
     act_bind (s_send addr CHECK_CAM payload) (\<lambda>_.
     send_all
       (map (\<lambda>p. \<lparr>host = host addr, port = nat p\<rparr>)
         (filter (\<lambda>p. p \<noteq> int (port addr) \<and> p > 0) [int (port addr) - 3 .. int (port addr) + 3]))
       CHECK_CAM payload))"

definition pong_payload :: "session \<Rightarrow> buffer" where
  "pong_payload s = (case sessPongData s of None \<Rightarrow> [] | Some d \<Rightarrow> d)"

definition onConnected :: "address \<Rightarrow> int \<Rightarrow> (session, unit) act" where
  "onConnected addr now =
     act_read (\<lambda>s. if sessConnected s then act_return ()
       else
         act_bind (act_modify (\<lambda>s. s\<lparr>sessConnected := True, sessConnectedAt := Some now, sessConnecting := False,
             sessAddress := Some addr, sessLookupTimer := False, sessConnectTimer := False\<rparr>)) (\<lambda>_.
         act_bind (sendCommand CMD_GATEWAYINFO STATION_CHANNEL) (\<lambda>_.
         act_bind (act_read (\<lambda>s. s_send addr REQ_PING (pong_payload s))) (\<lambda>_.
         act_bind (act_modify (\<lambda>s. s\<lparr>sessHeartbeat := True\<rparr>)) (\<lambda>_. emit EmitConnect)))))"

definition heartbeatTick :: "(session, unit) act" where
  "heartbeatTick =
     act_read (\<lambda>s. case sessAddress s of None \<Rightarrow> act_return () | Some a \<Rightarrow> s_send a REQ_PING (pong_payload s))"

section \<open>Inbound datagrams\<close>

fun handle_all :: "session_env \<Rightarrow> (p2p_header \<times> buffer \<times> byte) list \<Rightarrow> (session, unit) act" where
  "handle_all env [] = act_return ()"
| "handle_all env ((h, b, dt) # fs) = act_bind (handleFrame env h b dt) (\<lambda>_. handle_all env fs)"

text \<open>
  While the frames of a datagram are handled, nothing is pending for its data type: what the datagram leaves
  unfinished is put there at the end, which a throwing frame does not reach.
\<close>

definition sessionData :: "session_env \<Rightarrow> buffer \<Rightarrow> address \<Rightarrow> (session, unit) act" where
  "sessionData env msg addr =
     act_read (\<lambda>s.
       act_bind (act_lift (onData (sessInbound s) msg)) (\<lambda>(inb, ack, frames, traces).
       act_bind (s_send addr REQ_ACK ack) (\<lambda>_.
       act_bind (act_modify (\<lambda>s. s\<lparr>sessInbound := (if frames = [] then inb
         else inb\<lparr>pendingByDataType := (pendingByDataType inb)(msg ! 5 := None)\<rparr>)\<rparr>)) (\<lambda>_.
       act_bind (handle_all env frames) (\<lambda>_.
       act_modify (\<lambda>s. s\<lparr>sessInbound := inb\<rparr>))))))"

definition onMessage :: "session_env \<Rightarrow> buffer \<Rightarrow> address \<Rightarrow> int \<Rightarrow> (session, unit) act" where
  "onMessage env msg rinfo now =
     act_read (\<lambda>s.
       if hasHeader msg (response_bytes LOCAL_LOOKUP_RESP) then
         act_if (\<not> sessConnected s) (beginCheckCam env rinfo)
       else if hasHeader msg (response_bytes LOOKUP_ADDR) \<or> hasHeader msg (response_bytes LOOKUP_ADDR2) then
         act_if (\<not> sessConnected s)
           (act_bind (act_lift (parseLookupAddr msg)) (\<lambda>addr.
            act_if (host addr \<noteq> ''0.0.0.0'') (beginCheckCam env addr)))
       else if hasHeader msg (response_bytes CAM_ID) \<or> hasHeader msg (response_bytes TURN_SERVER_CAM_ID) then
         onConnected rinfo now
       else if hasHeader msg (response_bytes RESP_PONG) then
         act_modify (\<lambda>s. s\<lparr>sessPongData := (if length msg > 4 then Some (drop 4 msg) else None),
             sessPongAt := Some now, sessStaleTraced := False\<rparr>)
       else if hasHeader msg (response_bytes RESP_PING) then s_send rinfo REQ_PONG []
       else if hasHeader msg (response_bytes RESP_ACK) then act_modify (onAck msg)
       else if hasHeader msg (response_bytes RESP_DATA) then act_if (sessConnected s) (sessionData env msg rinfo)
       else act_return ())"

section \<open>Closing\<close>

text \<open>
  \<open>close\<close> awaits the socket's own \<open>close\<close>, which Node emits before the event loop goes on: nothing but code of
  the same turn comes between, and that is not modelled.
\<close>

definition s_close :: "(session, unit) act" where
  "s_close =
     act_read (\<lambda>s. if sessClosed s then act_return ()
       else
         act_bind (act_modify (\<lambda>s.
           (settleLevel2 WaitClosed
             (s\<lparr>sessClosed := True, sessGeneration := sessGeneration s + 1, sessLevel2Key := None, sessLevel2Seq := 0\<rparr>))
           \<lparr>sessConnected := False, sessConnecting := False, sessLookupTimer := False, sessHeartbeat := False,
            sessConnectTimer := False, sessAudioTimer := False, sessAudio := [], sessAudioStalled := False,
            sessStartTimer := False, sessStarts := [], sessInbound := resetInboundSequencing (sessInbound s)\<rparr>)) (\<lambda>_.
         act_bind (act_read (\<lambda>s. case sessAddress s of None \<Rightarrow> act_return () | Some a \<Rightarrow> s_send a REQ_END [])) (\<lambda>_.
         act_bind (act_modify (\<lambda>s. s\<lparr>sessSocket := False\<rparr>)) (\<lambda>_. emit EmitClose))))"

definition connectTimeout :: "(session, unit) act" where
  "connectTimeout =
     act_read (\<lambda>s. if sessConnected s then act_return () else act_bind (emit EmitError) (\<lambda>_. s_close))"

section \<open>A session's life\<close>

datatype session_event =
    Connect
  | SocketBound
  | LocalIp string nat
  | LookupTick
  | ConnectTimeout
  | HeartbeatTick
  | Inbound buffer address int
  | ResolverAnswer nat resolver_answer
  | Await nat int bool int
  | WaitDeadline nat
  | Reprompt
  | StartLive int string bool bool int
  | StopLive int string
  | LiveStartTick int
  | Audio int buffer int
  | AudioTick int
  | Talkback int bool bool int
  | Control int int string json int
  | StringCommand int string int
  | Close

text \<open>
  One event. An operation that throws leaves what it had changed; a tick comes only from its interval.
\<close>

fun session_step :: "session_env \<Rightarrow> session \<Rightarrow> session_event \<Rightarrow> session" where
  "session_step env s Connect = s_connect env s"
| "session_step env s SocketBound = snd (socketBound env s)"
| "session_step env s (LocalIp h p) = localIpDetected h p s"
| "session_step env s LookupTick = (if sessLookupTimer s then snd (sendLookups env s) else s)"
| "session_step env s ConnectTimeout = (if sessConnectTimer s then snd (connectTimeout (s\<lparr>sessConnectTimer := False\<rparr>)) else s)"
| "session_step env s HeartbeatTick = (if sessHeartbeat s then snd (heartbeatTick s) else s)"
| "session_step env s (Inbound msg a now) = (if sessSocket s then snd (onMessage env msg a now s) else s)"
| "session_step env s (ResolverAnswer i r) = resolverAnswers env i r s"
| "session_step env s (Await w graceMs fromSession now) = awaitLevel2Key w graceMs fromSession now s"
| "session_step env s (WaitDeadline w) = waitDeadline w s"
| "session_step env s Reprompt = snd (repromptLevel2Key env s)"
| "session_step env s (StartLive ch acc attached force now) = snd (startLiveMedia env ch acc attached force now s)"
| "session_step env s (StopLive ch acc) = snd (stopLiveMedia env ch acc s)"
| "session_step env s (LiveStartTick now) = (if sessStartTimer s then snd (liveStartTick now s) else s)"
| "session_step env s (Audio ch frame now) = snd (sendAudioFrame ch frame now s)"
| "session_step env s (AudioTick now) = (if sessAudioTimer s then snd (audioTick now s) else s)"
| "session_step env s (Talkback ch attached start now) = snd (sendTalkbackControl env ch attached start now s)"
| "session_step env s (Control cmd ch acc payload mv) = snd (sendControlLevel2 env cmd ch acc payload mv s)"
| "session_step env s (StringCommand cmd v ch) = snd (sendStringPayloadCommand env cmd v ch s)"
| "session_step env s Close = snd (s_close s)"

definition session_run :: "session_env \<Rightarrow> session_event list \<Rightarrow> session" where
  "session_run env evs = foldl (session_step env) (new_session env) evs"

section \<open>A sample session\<close>

text \<open>A first session: looked up, found, asked to start.\<close>

definition sample_env :: session_env where
  "sample_env = \<lparr>envCrypto = sample_crypto\<lparr>aes_ecb_encrypt := \<lambda>k x. Some [7]\<rparr>, envGcm = (\<lambda>k n a t b. Some b),
     envSeal = (\<lambda>k n a p. (replicate 16 0, p)), envRandom = (\<lambda>i. replicate 12 (of_nat i)),
     envRsaPair = ([1], ''AB''), envRsaOpen = (\<lambda>k w. Some w), cfgStationSn = ''T8030'', cfgP2pDid = ''ABCDEF-123456-GHIJK'',
     cfgCloudAddresses = [], cfgDskKey = None, cfgLocalAddress = None, cfgNoBroadcast = False, cfgResolver = True\<rparr>"

definition station_address :: address where
  "station_address = \<lparr>host = ''10.0.0.2'', port = 32100\<rparr>"

definition sample_connected :: session where
  "sample_connected = session_run sample_env [Connect, SocketBound, Inbound (response_bytes CAM_ID) station_address 0]"

lemmas session_evals = session_run_def new_session_def s_connect_def socketBound_def sendLookups_def act_if_def s_send_def
  emit_def act_bind_def onMessage_def onConnected_def hasHeader_def frameMessage_def write_u16be_def
  resetInboundSequencing_def sendCommand_def put_command_def buildCommandHeader_def buildVoidCommandPayload_def
  write_u16le_def next_seq_def pong_payload_def MAGIC_WORD_def bytes_of_string_def CMD_GATEWAYINFO_def
  buildLocalLookupPayload_def

lemma sample_connected_fields:
  "sessAddress sample_connected = Some station_address" "sessSocket sample_connected" "sessConnected sample_connected"
  "sessSeq sample_connected = 1" "sessLevel2Key sample_connected = None" "sessStarts sample_connected = []"
  "sessLiveStarted sample_connected ch = None" "sessRsa sample_connected = None" "sessPending sample_connected" 
  "sessClosed sample_connected = False" "sessReprompted sample_connected = False" "sessGeneration sample_connected = 1"
  "sessJobs sample_connected = []" "sessWaiters sample_connected = []" "sessNegotiating sample_connected = False"
  "sessInbound sample_connected = resetInboundSequencing \<lparr>pendingByDataType = \<lambda>_. None, lastSeqByType = \<lambda>_. None,
        tracedDatagramGaps = 0\<rparr>"
  unfolding sample_connected_def
  by (simp_all add: session_evals sample_env_def)

definition sample_started :: session where
  "sample_started = session_step sample_env sample_connected (StartLive 0 ''u'' False False 1000)"

lemma sample_started_run: "sample_started = session_run sample_env
    [Connect, SocketBound, Inbound (response_bytes CAM_ID) station_address 0, StartLive 0 ''u'' False False 1000]"
  by (simp add: sample_started_def sample_connected_def session_run_def)

lemma sample_started_starts:
  "\<exists>d. sessStarts sample_started = [(1, 0, \<lparr>rtData = d, rtFirstSentAt = 1000, rtSentAt = 1000, rtSends = 1\<rparr>)] \<and>
    length d < 65536"
proof -
  have c: "aes_ecb_encrypt (envCrypto sample_env) k x = Some [7]" for k x by (simp add: sample_env_def)
  show ?thesis
  unfolding sample_started_def
  by (simp add: startLiveMedia_def Let_def sample_connected_fields sendStartLiveOwnSession_def act_bind_def rsaModulus_def
      start_body_def encryptP2PData_def c or_throw_def buildCommandHeader_def buildRawCommandPayload_def write_u16be_def
      write_u16le_def retain_start_def CMD_CONTROL_PAYLOAD_def s_send_def emit_def MAGIC_WORD_def bytes_of_string_def
      frameMessage_def data_type_header.simps)
qed

end
