(* ===== verification/P2p_Live_Start.thy ===== *)
theory P2p_Live_Start
  imports P2p_Lifecycle "HOL-Library.Multiset"
begin

text \<open>
  What the acknowledged channels of a \<open>P2PSession\<close> guarantee: a start or an audio frame that is retained
  is always watched by its interval, a start is repeated until acknowledged or reported, and repeating
  audio at most doubles it.
\<close>

section \<open>Retained datagrams are watched\<close>

definition watched :: "session \<Rightarrow> bool" where
  "watched s \<longleftrightarrow>
     (sessStarts s \<noteq> [] \<longrightarrow> sessStartTimer s \<and> sessAddress s \<noteq> None) \<and>
     (sessAudio s \<noteq> [] \<longrightarrow> sessAudioTimer s \<and> sessAddress s \<noteq> None) \<and>
     distinct (map (\<lambda>e. fst (snd e)) (sessStarts s)) \<and>
     (\<forall>e \<in> set (sessAudio s). rtSends (snd (snd e)) \<in> {1, 2})"

text \<open>The same while an operation runs that has found the address \<open>a\<close>.\<close>

definition watched_at :: "address \<Rightarrow> session \<Rightarrow> session \<Rightarrow> bool" where
  "watched_at a s s' \<longleftrightarrow> (sessAddress s = Some a \<and> watched s \<longrightarrow> sessAddress s' = Some a \<and> watched s')"

interpretation at_address: act_relation "watched_at a" for a
  by unfold_locales (auto simp: watched_at_def)

definition keep_watched :: "session \<Rightarrow> session \<Rightarrow> bool" where
  "keep_watched s s' \<longleftrightarrow> (watched s \<longrightarrow> watched s')"

interpretation watching: act_relation keep_watched
  by unfold_locales (auto simp: keep_watched_def)

lemma sent_watched: "sent_only s s' \<Longrightarrow> watched s' = watched s \<and> sessAddress s' = sessAddress s"
  using core_fields [of s' s] by (auto simp: sent_only_def watched_def)

lemma sent_at: "sending.keeps m \<Longrightarrow> at_address.keeps a m"
  unfolding sending.keeps_def at_address.keeps_def watched_at_def by (metis sent_watched)

lemma sent_keep: "sending.keeps m \<Longrightarrow> watching.keeps m"
  unfolding sending.keeps_def watching.keeps_def keep_watched_def by (metis sent_watched)

lemma at_keep: "(\<And>a. sessAddress s = Some a \<Longrightarrow> at_address.keeps a (m :: (session, 'a) act)) \<Longrightarrow> sessAddress s \<noteq> None \<Longrightarrow>
    keep_watched s (snd (m s))"
  unfolding at_address.keeps_def watched_at_def keep_watched_def by blast

lemma set_map_set: "set (map_set k v m) \<subseteq> insert (k, v) (set m)"
  by (induction m) auto

lemma map_set_channels:
  "ch \<notin> set (map (\<lambda>e. fst (snd e)) m) \<Longrightarrow> distinct (map (\<lambda>e. fst (snd e)) m) \<Longrightarrow>
    distinct (map (\<lambda>e. fst (snd e)) (map_set q (ch, r) m))"
proof (induction m)
  case (Cons p m)
  have "fst (snd p) \<notin> set (map (\<lambda>e. fst (snd e)) (map_set q (ch, r) m))"
    using Cons.prems set_map_set [of q "(ch, r)" m] by fastforce
  then show ?case using Cons by auto
qed simp

lemma watched_retain:
  assumes "sessAddress s \<noteq> None" "watched s"
  shows "watched (retain_start q ch r s)"
proof -
  have "distinct (map (\<lambda>e. fst (snd e)) (filter (\<lambda>e. fst (snd e) \<noteq> ch) (sessStarts s)))"
    using assms(2) by (auto simp: watched_def distinct_map intro: inj_on_subset)
  then show ?thesis using assms
    by (auto simp: watched_def retain_start_def intro!: map_set_channels)
qed

lemma at_start: "at_address.keeps a (sendStartLiveOwnSession env ch acc now)"
  unfolding at_address.keeps_def
proof
  fix s
  show "watched_at a s (snd (sendStartLiveOwnSession env ch acc now s))"
  proof (cases "sessAddress s = Some a")
    case True
    have "at_address.keeps a
        (act_bind (rsaModulus env) (\<lambda>modulus.
         act_bind (start_body env (bytes_of_string (json_stringify (startLiveJson ch acc now modulus)))) (\<lambda>enc.
         case enc of
           None \<Rightarrow> act_return ()
         | Some (body, sign, magic, frameTy) \<Rightarrow>
             act_read (\<lambda>s1.
             act_bind (act_lift (buildCommandHeader (sessSeq s1) CMD_CONTROL_PAYLOAD (data_type_header DT_DATA))) (\<lambda>header.
             act_bind (act_lift (buildRawCommandPayload body ch sign (magic, 0x00) frameTy)) (\<lambda>payload.
             let data = header @ payload in
             act_bind (act_modify (retain_start (sessSeq s1) ch
                 \<lparr>rtData = data, rtFirstSentAt = now, rtSentAt = now, rtSends = 1\<rparr>)) (\<lambda>_.
             s_send a REQ_DATA data)))))))"
      unfolding Let_def
      by (intro at_address.keeps_intros sent_at [OF sent_modulus] sent_at [OF sent_body] sent_at [OF sent_send]
          at_address.keeps_modify)
        (auto simp: watched_at_def watched_retain, simp add: retain_start_def)
    from at_address.keepsD [OF this, of s] show ?thesis
      unfolding sendStartLiveOwnSession_def act_read_def True option.case .
  next
    case False
    then show ?thesis by (simp add: watched_at_def)
  qed
qed

lemma keep_start: "watching.keeps (sendStartLiveOwnSession env ch acc now)"
  unfolding watching.keeps_def
proof
  fix s
  show "keep_watched s (snd (sendStartLiveOwnSession env ch acc now s))"
  proof (cases "sessAddress s")
    case None
    then show ?thesis by (simp add: sendStartLiveOwnSession_def keep_watched_def)
  next
    case (Some a)
    then show ?thesis using at_keep [of s "sendStartLiveOwnSession env ch acc now"] at_start by simp
  qed
qed

lemma keep_live: "watching.keeps (startLiveMedia env ch acc attached force now)"
  unfolding startLiveMedia_def Let_def
  by (intro watching.keeps_intros sent_keep [OF sent_media] sent_keep [OF sent_command] keep_start
      sent_keep [OF sent_gaps] watching.keeps_modify)
    (simp_all add: keep_watched_def watched_def)

lemma keep_stop: "watching.keeps (stopLiveMedia env ch acc)"
  unfolding stopLiveMedia_def Let_def
  by (intro watching.keeps_intros sent_keep [OF sent_media] sent_keep [OF sent_command] watching.keeps_modify)
    (auto simp: keep_watched_def watched_def distinct_map intro: inj_on_subset)

lemma at_audio_entry:
  "sessAddress s = Some a \<Longrightarrow> watched s \<Longrightarrow>
    watched (s\<lparr>sessVideoSeq := v, sessAudio := map_set q ((), \<lparr>rtData = d, rtFirstSentAt = now, rtSentAt = now, rtSends = 1\<rparr>)
      (sessAudio s), sessAudioTimer := True\<rparr>)"
  using set_map_set [of q "((), \<lparr>rtData = d, rtFirstSentAt = now, rtSentAt = now, rtSends = 1\<rparr>)" "sessAudio s"]
  by (auto simp: watched_def)

lemma keep_audio: "watching.keeps (sendAudioFrame ch frame now)"
  unfolding watching.keeps_def
proof
  fix s
  show "keep_watched s (snd (sendAudioFrame ch frame now s))"
  proof (cases "sessAddress s")
    case None
    then show ?thesis by (simp add: sendAudioFrame_def keep_watched_def)
  next
    case (Some a)
    have "at_address.keeps a
       (act_bind (act_lift (buildCommandHeader q CMD_AUDIO_FRAME (data_type_header DT_VIDEO))) (\<lambda>head.
          act_bind (act_lift (buildRawCommandPayload (header @ frame) ch 0 (0x01, 0x00) 0)) (\<lambda>body.
          let data = head @ body in
          act_bind (act_modify (\<lambda>s. s\<lparr>sessVideoSeq := (sessVideoSeq s + 1) mod 0x10000,
              sessAudio := map_set q ((), \<lparr>rtData = data, rtFirstSentAt = now, rtSentAt = now, rtSends = 1\<rparr>) (sessAudio s),
              sessAudioTimer := True\<rparr>)) (\<lambda>_.
          s_send a REQ_DATA data))))" for q header
      unfolding Let_def
      by (intro at_address.keeps_intros sent_at [OF sent_send] at_address.keeps_modify)
        (auto simp: watched_at_def at_audio_entry [unfolded One_nat_def])
    from at_address.keepsD [OF this, of s] Some show ?thesis
      unfolding sendAudioFrame_def act_read_def Some option.case Let_def keep_watched_def watched_at_def by blast
  qed
qed

section \<open>The sweep\<close>

fun abandoned :: "'a sweep_action list \<Rightarrow> 'a list" where
  "abandoned [] = []"
| "abandoned (Abandon q x # acts) = x # abandoned acts"
| "abandoned (Resend r # acts) = abandoned acts"

text \<open>What the sweep keeps and what it abandons are together what there was.\<close>

lemma sweep_tags:
  "mset (map (\<lambda>e. fst (snd e)) (fst (sweep p now kept todo))) + mset (abandoned (snd (sweep p now kept todo))) =
    mset (map (\<lambda>e. fst (snd e)) kept) + mset (map (\<lambda>e. fst (snd e)) todo)"
proof (induction p now kept todo rule: sweep.induct)
  case (2 p now kept q x r todo)
  show ?case
    using 2 by (auto simp: Let_def split: prod.splits)
qed simp

lemma distinct_mset_append: "mset xs + mset ys = mset zs \<Longrightarrow> distinct zs \<Longrightarrow> distinct xs \<and> set xs \<inter> set ys = {}"
  by (metis distinct_append mset_append mset_eq_imp_distinct_iff)

lemma sweep_distinct:
  assumes "distinct (map (\<lambda>e. fst (snd e)) m)"
  shows "distinct (map (\<lambda>e. fst (snd e)) (fst (sweep p now [] m)))"
    "set (map (\<lambda>e. fst (snd e)) (fst (sweep p now [] m))) \<inter> set (abandoned (snd (sweep p now [] m))) = {}"
proof -
  have "mset (map (\<lambda>e. fst (snd e)) (fst (sweep p now [] m))) + mset (abandoned (snd (sweep p now [] m))) =
      mset (map (\<lambda>e. fst (snd e)) m)"
    using sweep_tags [of p now "[]" m] by simp
  from distinct_mset_append [OF this assms]
  show "distinct (map (\<lambda>e. fst (snd e)) (fst (sweep p now [] m)))"
    "set (map (\<lambda>e. fst (snd e)) (fst (sweep p now [] m))) \<inter> set (abandoned (snd (sweep p now [] m))) = {}"
    by blast+
qed

lemma sweep_sends:
  "\<forall>e \<in> set kept \<union> set todo. rtSends (snd (snd e)) \<in> {1, 2} \<Longrightarrow>
    \<forall>e \<in> set (fst (sweep AudioPolicy now kept todo)). rtSends (snd (snd e)) \<in> {1, 2}"
proof (induction AudioPolicy now kept todo rule: sweep.induct)
  case (2 now kept q x r todo)
  then show ?case
    by (auto simp: Let_def AUDIO_MAX_SENDS_def split: prod.splits) fastforce
qed simp

lemma keep_ext:
  "(\<And>s. sessStarts (f s) = sessStarts s \<and> sessStartTimer (f s) = sessStartTimer s \<and> sessAudio (f s) = sessAudio s \<and>
      sessAudioTimer (f s) = sessAudioTimer s \<and> sessAddress (f s) = sessAddress s) \<Longrightarrow> keep_watched s (f s)"
  by (simp add: keep_watched_def watched_def)

lemma keep_emit: "watching.keeps (emit e)"
  unfolding emit_def by (intro watching.keeps_modify keep_ext) simp

lemma keep_perform:
  "(\<And>q x. watching.keeps (f q x)) \<Longrightarrow> watching.keeps (perform a f acts)"
proof (induction a f acts rule: perform.induct)
  case (1 addr f)
  show ?case unfolding perform.simps by (rule watching.keeps_return)
next
  case (2 addr f q x acts)
  then show ?case by (simp add: watching.keeps_bind)
next
  case (3 addr f r acts)
  then show ?case by (simp add: watching.keeps_bind sent_keep [OF sent_send])
qed

lemma keep_abandonStart: "watching.keeps (abandonStart q ch)"
  unfolding abandonStart_def
  by (intro watching.keeps_bind keep_emit watching.keeps_modify keep_ext) simp

lemma keep_abandonAudio: "watching.keeps (abandonAudio q x)"
  unfolding abandonAudio_def
  by (intro watching.keeps_intros keep_emit watching.keeps_modify keep_ext) simp

text \<open>Once the sweep has stored what is left, which may be nothing, the rest of a tick keeps the watch.\<close>

lemma act_bind_modify: "act_bind (act_modify f) g s = g () (f s)"
  by (simp add: act_bind_def act_modify_def)

text \<open>The second half of a tick: the emptied interval stops.\<close>

lemma tick_end:
  assumes "watching.keeps (m :: (session, unit) act)" "\<And>s. sessStarts (snd (m s)) = sessStarts s" "watched s"
  shows "watched (snd (act_bind m (\<lambda>_. if sessStarts s = [] then clearLiveStartRetransmit else act_return ()) s))"
proof -
  obtain r s1 where m: "m s = (r, s1)" by fastforce
  have w: "watched s1" using assms(1,3) m unfolding watching.keeps_def keep_watched_def by (metis snd_conv)
  have "sessStarts s1 = sessStarts s" using assms(2) [of s] m by simp
  then show ?thesis using w
    by (cases r) (auto simp: act_bind_def m clearLiveStartRetransmit_def watched_def)
qed

definition same_starts :: "session \<Rightarrow> session \<Rightarrow> bool" where
  "same_starts s s' \<longleftrightarrow> sessStarts s' = sessStarts s"

interpretation starts: act_relation same_starts
  by unfold_locales (auto simp: same_starts_def)

lemma starts_send: "starts.keeps (s_send a ty p)"
  using sent_send core_fields unfolding sending.keeps_def starts.keeps_def sent_only_def same_starts_def by metis

lemma starts_perform: "starts.keeps (perform a abandonStart acts)"
proof (induction a "abandonStart" acts rule: perform.induct)
  case (2 addr q x acts)
  then show ?case
    by (auto simp: abandonStart_def emit_def same_starts_def intro!: starts.keeps_bind starts.keeps_modify)
qed (auto simp: starts.keeps_return intro: starts.keeps_bind starts_send)

lemma keep_startTick: "keep_watched s (snd (liveStartTick now s))"
proof (cases "sessAddress s")
  case None
  then show ?thesis by (simp add: liveStartTick_def clearLiveStartRetransmit_def keep_watched_def watched_def)
next
  case (Some a)
  show ?thesis
    unfolding keep_watched_def
  proof
    assume w: "watched s"
    obtain kept acts where sw: "sweep LiveStartPolicy now [] (sessStarts s) = (kept, acts)" by fastforce
    let ?s = "s\<lparr>sessStarts := kept\<rparr>"
    have "distinct (map (\<lambda>e. fst (snd e)) kept)"
      using sweep_distinct [of "sessStarts s" LiveStartPolicy now] w sw by (simp add: watched_def)
    moreover have "sessStarts s = [] \<Longrightarrow> kept = []" using sw by simp
    ultimately have w1: "watched ?s" using w by (auto simp: watched_def Some)
    have "\<And>s. sessStarts (snd (perform a abandonStart acts s)) = sessStarts s"
      using starts_perform [of a acts] by (simp add: starts.keeps_def same_starts_def)
    from tick_end [OF keep_perform [OF keep_abandonStart] this w1]
    show "watched (snd (liveStartTick now s))"
      by (simp add: liveStartTick_def Some sw act_bind_modify)
  qed
qed

definition same_audio :: "session \<Rightarrow> session \<Rightarrow> bool" where
  "same_audio s s' \<longleftrightarrow> sessAudio s' = sessAudio s"

interpretation audio: act_relation same_audio
  by unfold_locales (auto simp: same_audio_def)

lemma audio_send: "audio.keeps (s_send a ty p)"
  using sent_send core_fields unfolding sending.keeps_def audio.keeps_def sent_only_def same_audio_def by metis

lemma audio_perform: "audio.keeps (perform a abandonAudio acts)"
proof (induction a "abandonAudio" acts rule: perform.induct)
  case (2 addr q x acts)
  have "audio.keeps (abandonAudio q x)"
    unfolding abandonAudio_def emit_def
    by (intro audio.keeps_intros audio.keeps_modify) (simp_all add: same_audio_def)
  then show ?case using 2 by (auto intro: audio.keeps_bind)
next
  case (1 addr)
  show ?case unfolding perform.simps by (rule audio.keeps_return)
qed (auto intro: audio.keeps_bind audio_send)

lemma keep_audioTick: "keep_watched s (snd (audioTick now s))"
proof (cases "sessAddress s")
  case None
  then show ?thesis by (simp add: audioTick_def keep_watched_def watched_def)
next
  case (Some a)
  show ?thesis
    unfolding keep_watched_def
  proof
    assume w: "watched s"
    obtain kept acts where sw: "sweep AudioPolicy now [] (sessAudio s) = (kept, acts)" by fastforce
    let ?s = "s\<lparr>sessAudio := kept\<rparr>"
    have "\<forall>e \<in> set kept. rtSends (snd (snd e)) \<in> {1, 2}"
      using sweep_sends [of "[]" "sessAudio s" now] w sw by (simp add: watched_def)
    moreover have "sessAudio s = [] \<Longrightarrow> kept = []" using sw by simp
    ultimately have w1: "watched ?s" using w by (auto simp: watched_def Some)
    obtain r s1 where m: "perform a abandonAudio acts ?s = (r, s1)" by fastforce
    have "watched s1" "sessAudio s1 = kept"
      using watching.keepsD [OF keep_perform [of abandonAudio a acts], OF keep_abandonAudio, of ?s] w1
        audio.keepsD [OF audio_perform [of a acts], of ?s] m
      by (simp_all add: keep_watched_def same_audio_def)
    then show "watched (snd (audioTick now s))"
      by (cases r) (auto simp: audioTick_def Some sw act_bind_modify act_bind_def m watched_def)
  qed
qed

lemma map_deletes: "foldl (\<lambda>m q. map_delete q m) m qs = filter (\<lambda>e. fst e \<notin> set qs) m"
  by (induction qs arbitrary: m) (auto simp: map_delete_def intro: filter_cong)

lemma keep_ack: "keep_watched s (onAck msg s)"
  by (auto simp: keep_watched_def watched_def onAck_def Let_def map_deletes distinct_map intro: inj_on_subset)

lemma keep_handle: "watching.keeps (handle_all env fs)"
proof (induction fs)
  case Nil
  show ?case unfolding handle_all.simps by (rule watching.keeps_return)
next
  case (Cons f fs)
  obtain h b dt where f: "f = (h, b, dt)" by (cases f) auto
  have "watching.keeps (handleFrame env h b dt)"
    unfolding watching.keeps_def
  proof
    fix s
    obtain neg jobs where "frame_handled env h b dt s = s\<lparr>sessNegotiating := neg, sessJobs := jobs,
        sessOut := sessOut s @ frame_events env h b dt (frame_plain env s h b)\<rparr>"
      using frame_handled_form by blast
    then show "keep_watched s (snd (handleFrame env h b dt s))" by (simp add: handleFrame_def) (rule keep_ext, simp_all)
  qed
  then show ?case using Cons.IH by (simp add: f watching.keeps_bind)
qed

lemma keep_data: "watching.keeps (sessionData env msg a)"
  unfolding sessionData_def
  by (intro watching.keeps_intros sent_keep [OF sent_send] watching.keeps_modify keep_ext keep_handle) simp_all

lemma keep_act_if: "watching.keeps m \<Longrightarrow> watching.keeps (act_if b m)"
  by (auto simp: act_if_def intro: watching.keeps_return)

lemma keep_send_all: "watching.keeps (send_all as ty p)"
proof (induction "as")
  case Nil
  show ?case unfolding send_all.simps by (rule watching.keeps_return)
qed (auto intro: watching.keeps_bind sent_keep [OF sent_send])

lemma keep_lookups: "watching.keeps (sendLookups env)"
  unfolding sendLookups_def
  by (intro watching.keeps_intros keep_act_if sent_keep [OF sent_send] keep_send_all)

lemma keep_checkCam: "watching.keeps (beginCheckCam env a)"
  unfolding beginCheckCam_def by (intro watching.keeps_intros sent_keep [OF sent_send] keep_send_all)

lemma keep_connected: "watching.keeps (onConnected a now)"
  unfolding onConnected_def
  by (intro watching.keeps_intros sent_keep [OF sent_send] sent_keep [OF sent_command] keep_emit watching.keeps_modify)
    (auto simp: keep_watched_def watched_def)

lemma keep_message: "watching.keeps (onMessage env msg a now)"
  unfolding onMessage_def
  by (intro watching.keeps_intros keep_act_if keep_checkCam keep_connected keep_data sent_keep [OF sent_send]
      watching.keeps_modify keep_ack keep_ext) simp_all

lemma settle_fields [simp]:
  "sessStarts (settleLevel2 r s) = sessStarts s" "sessStartTimer (settleLevel2 r s) = sessStartTimer s"
  "sessAudio (settleLevel2 r s) = sessAudio s" "sessAudioTimer (settleLevel2 r s) = sessAudioTimer s"
  "sessAddress (settleLevel2 r s) = sessAddress s" "sessJobs (settleLevel2 r s) = sessJobs s"
  "sessGeneration (settleLevel2 r s) = sessGeneration s" "sessClosed (settleLevel2 r s) = sessClosed s"
  "sessLevel2Key (settleLevel2 r s) = sessLevel2Key s" "sessNegotiating (settleLevel2 r s) = sessNegotiating s"
  "sessWaiters (settleLevel2 r s) = []" "sessPending (settleLevel2 r s) = False"
  by (simp_all add: settleLevel2_def Let_def)

lemma keep_close: "watching.keeps s_close"
  unfolding s_close_def
  by (intro watching.keeps_intros sent_keep [OF sent_send] keep_emit watching.keeps_modify)
    (simp_all add: keep_watched_def watched_def)

lemma keep_resolver: "keep_watched s (resolverAnswers env i r s)"
  by (auto simp: keep_watched_def watched_def resolverAnswers_def negotiation_failed_def setLevel2Key_def emit_def
      act_bind_def Let_def split: resolver_answer.splits option.splits prod.splits sum.splits if_splits)

lemma watched_step: "watched s \<Longrightarrow> watched (session_step env s e)"
proof (cases e)
  case (Inbound msg a now)
  then show "watched s \<Longrightarrow> ?thesis" using watching.keepsD [OF keep_message] by (simp add: keep_watched_def)
next
  case (ResolverAnswer i r)
  then show "watched s \<Longrightarrow> ?thesis" using keep_resolver [of s env i r] by (simp add: keep_watched_def)
next
  case SocketBound
  have "watching.keeps (socketBound env)"
    unfolding socketBound_def
    by (intro watching.keeps_intros keep_lookups watching.keeps_modify keep_ext) simp
  then show "watched s \<Longrightarrow> ?thesis" using SocketBound watching.keepsD by (auto simp: keep_watched_def)
next
  case ConnectTimeout
  have "watching.keeps connectTimeout"
    unfolding connectTimeout_def by (intro watching.keeps_intros keep_emit keep_close)
  then have "keep_watched s (snd (connectTimeout (s\<lparr>sessConnectTimer := False\<rparr>)))"
    using watching.keepsD [of connectTimeout "s\<lparr>sessConnectTimer := False\<rparr>"]
    by (simp add: keep_watched_def watched_def)
  then show "watched s \<Longrightarrow> ?thesis" using ConnectTimeout by (simp add: keep_watched_def)
next
  case HeartbeatTick
  have "watching.keeps heartbeatTick"
    unfolding heartbeatTick_def by (intro watching.keeps_intros sent_keep [OF sent_send])
  then show "watched s \<Longrightarrow> ?thesis" using HeartbeatTick watching.keepsD by (auto simp: keep_watched_def)
next
  case Reprompt
  have "watching.keeps (repromptLevel2Key env)"
    unfolding repromptLevel2Key_def
    by (intro watching.keeps_intros sent_keep [OF sent_command] watching.keeps_modify keep_ext) simp
  then show "watched s \<Longrightarrow> ?thesis" using Reprompt watching.keepsD by (auto simp: keep_watched_def)
next
  case LookupTick
  then show "watched s \<Longrightarrow> ?thesis" using watching.keepsD [OF keep_lookups] by (simp add: keep_watched_def)
next
  case (StartLive ch acc attached force now)
  then show "watched s \<Longrightarrow> ?thesis" using watching.keepsD [OF keep_live] by (simp add: keep_watched_def)
next
  case (StopLive ch acc)
  then show "watched s \<Longrightarrow> ?thesis" using watching.keepsD [OF keep_stop] by (simp add: keep_watched_def)
next
  case (LiveStartTick now)
  then show "watched s \<Longrightarrow> ?thesis" using keep_startTick by (simp add: keep_watched_def)
next
  case (Audio ch frame now)
  then show "watched s \<Longrightarrow> ?thesis" using watching.keepsD [OF keep_audio] by (simp add: keep_watched_def)
next
  case (AudioTick now)
  then show "watched s \<Longrightarrow> ?thesis" using keep_audioTick by (simp add: keep_watched_def)
next
  case (Talkback ch attached start now)
  then show "watched s \<Longrightarrow> ?thesis" using watching.keepsD [OF sent_keep [OF sent_talkback]] by (simp add: keep_watched_def)
next
  case (Control cmd ch acc payload mv)
  then show "watched s \<Longrightarrow> ?thesis" using watching.keepsD [OF sent_keep [OF sent_control]] by (simp add: keep_watched_def)
next
  case (StringCommand cmd v ch)
  then show "watched s \<Longrightarrow> ?thesis" using watching.keepsD [OF sent_keep [OF sent_string]] by (simp add: keep_watched_def)
next
  case Close
  then show "watched s \<Longrightarrow> ?thesis" using watching.keepsD [OF keep_close] by (simp add: keep_watched_def)
next
  case Connect
  then show "watched s \<Longrightarrow> ?thesis" by (simp add: watched_def s_connect_def Let_def)
next
  case (LocalIp h p)
  then show "watched s \<Longrightarrow> ?thesis" by (simp add: watched_def localIpDetected_def)
next
  case (Await w g f now)
  then show "watched s \<Longrightarrow> ?thesis" by (simp add: watched_def awaitLevel2Key_def Let_def)
next
  case (WaitDeadline w)
  then show "watched s \<Longrightarrow> ?thesis" by (simp add: watched_def waitDeadline_def)
qed

interpretation watched_run: stepper "session_step env" watched for env
  by unfold_locales (rule watched_step)

lemma run_watched: "watched (session_run env evs)"
  unfolding session_run_def by (rule watched_run.inv_run) (simp add: watched_def new_session_def)

section \<open>A start is repeated or reported\<close>

lemma sweep_keeps: "set kept \<subseteq> set (fst (sweep p now kept todo))"
  by (induction p now kept todo rule: sweep.induct) (auto simp: Let_def split: prod.splits)

text \<open>What happens to one entry of the map.\<close>

definition swept :: "policy \<Rightarrow> int \<Rightarrow> int \<times> 'a \<times> retained \<Rightarrow> (int \<times> 'a \<times> retained) list \<times> 'a sweep_action list \<Rightarrow> bool" where
  "swept p now e res \<longleftrightarrow>
     (case e of (q, x, r) \<Rightarrow>
        if fresh p now r then e \<in> set (fst res)
        else if spent p now r then Abandon q x \<in> set (snd res)
        else (q, x, r\<lparr>rtSends := rtSends r + 1, rtSentAt := now\<rparr>) \<in> set (fst res) \<and>
             Resend (r\<lparr>rtSends := rtSends r + 1, rtSentAt := now\<rparr>) \<in> set (snd res))"

lemma fresh_now: "fresh p now (r\<lparr>rtSends := n, rtSentAt := now\<rparr>)"
  using retransmit_positive [of p] by (simp add: fresh_def)

lemma swept_weaken: "swept p now e (kept, acts) \<Longrightarrow> swept p now e (kept, a # acts)"
  by (auto simp: swept_def split: prod.splits if_splits)

lemma sweep_swept: "e \<in> set todo \<Longrightarrow> swept p now e (sweep p now kept todo)"
proof (induction p now kept todo arbitrary: e rule: sweep.induct)
  case (2 p now kept q x r todo)
  show ?case
  proof (cases "fresh p now r")
    case True
    then have here: "swept p now (q, x, r) (sweep p now kept ((q, x, r) # todo))"
      using sweep_keeps [of "kept @ [(q, x, r)]" p now todo] by (simp add: swept_def)
    then show ?thesis using "2.IH"(1) [OF True, of e] "2.prems" True by (cases "e = (q, x, r)") simp_all
  next
    case nf: False
    show ?thesis
    proof (cases "spent p now r")
      case True
      obtain k acts where s: "sweep p now kept todo = (k, acts)" by fastforce
      show ?thesis
      proof (cases "e = (q, x, r)")
        case here: True
        then show ?thesis using nf True s by (simp add: swept_def)
      next
        case there: False
        then have "swept p now e (k, acts)" using "2.IH"(2) [OF nf True, of e] "2.prems" s by simp
        then show ?thesis using nf True s swept_weaken [of p now e k acts] by simp
      qed
    next
      case False
      let ?r = "r\<lparr>rtSends := rtSends r + 1, rtSentAt := now\<rparr>"
      obtain k acts where s: "sweep p now kept (todo @ [(q, x, ?r)]) = (k, acts)" by fastforce
      have ih: "f \<in> set (todo @ [(q, x, ?r)]) \<Longrightarrow> swept p now f (k, acts)" for f
        using "2.IH"(3) [OF nf False] s "2.prems" by simp
      have "(q, x, ?r) \<in> set k" using ih [of "(q, x, ?r)"] fresh_now [where p = p and now = now and r = r and n = "rtSends r + 1"]
        by (simp add: swept_def)
      then show ?thesis
      proof (cases "e = (q, x, r)")
        case True
        then show ?thesis using \<open>(q, x, ?r) \<in> set k\<close> nf False s by (simp add: swept_def Let_def)
      next
        case there: False
        then have "swept p now e (k, acts)" using ih [of e] "2.prems" by simp
        then show ?thesis using nf False s swept_weaken [of p now e k acts] by (simp add: Let_def)
      qed
    qed
  qed
qed simp

lemma sweep_data:
  "\<forall>e \<in> set kept \<union> set todo. length (rtData (snd (snd e))) < n \<Longrightarrow>
    Resend r \<in> set (snd (sweep p now kept todo)) \<Longrightarrow> length (rtData r) < n"
proof (induction p now kept todo rule: sweep.induct)
  case (2 p now kept q x r' todo)
  then show ?case by (auto simp: Let_def split: prod.splits if_splits)
qed simp

definition data_packet :: "retained \<Rightarrow> buffer" where
  "data_packet r = request_bytes REQ_DATA @ u16be (int (length (rtData r))) @ rtData r"

fun action_out :: "bool \<Rightarrow> address \<Rightarrow> int sweep_action \<Rightarrow> session_out list" where
  "action_out sock a (Abandon q ch) = [LiveStartUnacknowledged ch]"
| "action_out sock a (Resend r) = (if sock then [Datagram a (data_packet r)] else [])"

lemma perform_starts:
  assumes "\<forall>r. Resend r \<in> set acts \<longrightarrow> length (rtData r) < 65536"
  shows "perform a abandonStart acts s =
    (Inr (), s\<lparr>sessLiveStarted := (\<lambda>ch. if ch \<in> set (abandoned acts) then None else sessLiveStarted s ch),
       sessOut := sessOut s @ concat (map (action_out (sessSocket s) a) acts)\<rparr>)"
  using assms
proof (induction acts arbitrary: s)
  case (Cons act acts)
  then have IH: "\<And>s. perform a abandonStart acts s =
      (Inr (), s\<lparr>sessLiveStarted := (\<lambda>ch. if ch \<in> set (abandoned acts) then None else sessLiveStarted s ch),
         sessOut := sessOut s @ concat (map (action_out (sessSocket s) a) acts)\<rparr>)" by simp
  show ?case
  proof (cases act)
    case (Abandon q ch)
    have "abandonStart q ch s = (Inr (), s\<lparr>sessLiveStarted := (sessLiveStarted s)(ch := None),
        sessOut := sessOut s @ [LiveStartUnacknowledged ch]\<rparr>)"
      by (simp add: abandonStart_def emit_def act_bind_def)
    then show ?thesis
      by (simp add: Abandon act_bind_def IH fun_upd_def cong: if_cong) (simp add: fun_eq_iff)
  next
    case (Resend r)
    have "length (rtData r) < 65536" using Cons.prems Resend by simp
    then have "s_send a REQ_DATA (rtData r) s =
        (Inr (), s\<lparr>sessOut := sessOut s @ action_out (sessSocket s) a act\<rparr>)"
      by (auto simp: s_send_def emit_def act_bind_def frameMessage_def write_u16be_def Resend data_packet_def)
    then show ?thesis by (simp add: Resend act_bind_def IH cong: if_cong)
  qed
qed simp

text \<open>A tick of the interval, in full: what is left of the map, and what went out.\<close>

lemma start_tick_form:
  assumes "sessAddress s = Some a" "\<forall>e \<in> set (sessStarts s). length (rtData (snd (snd e))) < 65536"
    and "sweep LiveStartPolicy now [] (sessStarts s) = (kept, acts)"
  shows "sessStarts (snd (liveStartTick now s)) = kept"
    "sessOut (snd (liveStartTick now s)) = sessOut s @ concat (map (action_out (sessSocket s) a) acts)"
    "sessLiveStarted (snd (liveStartTick now s)) =
      (\<lambda>ch. if ch \<in> set (abandoned acts) then None else sessLiveStarted s ch)"
proof -
  have data: "\<forall>r. Resend r \<in> set acts \<longrightarrow> length (rtData r) < 65536"
    using sweep_data [of "[]" "sessStarts s" 65536 _ LiveStartPolicy now] assms(2,3) by simp
  show "sessStarts (snd (liveStartTick now s)) = kept"
    "sessOut (snd (liveStartTick now s)) = sessOut s @ concat (map (action_out (sessSocket s) a) acts)"
    "sessLiveStarted (snd (liveStartTick now s)) =
      (\<lambda>ch. if ch \<in> set (abandoned acts) then None else sessLiveStarted s ch)"
    by (simp_all add: liveStartTick_def assms(1,3) act_bind_def perform_starts [OF data] clearLiveStartRetransmit_def
        cong: if_cong)
qed

lemma abandon_in: "Abandon q x \<in> set acts \<Longrightarrow> x \<in> set (abandoned acts)"
  by (induction acts rule: abandoned.induct) auto

lemma abandon_out: "Abandon q ch \<in> set acts \<Longrightarrow>
    LiveStartUnacknowledged ch \<in> set (concat (map (action_out sock a) acts))"
  by (induction acts) auto

lemma resend_out: "Resend r \<in> set acts \<Longrightarrow> sock \<Longrightarrow>
    Datagram a (data_packet r) \<in> set (concat (map (action_out sock a) acts))"
  by (induction acts) auto

text \<open>What an event added to the log.\<close>

definition added :: "session_env \<Rightarrow> session \<Rightarrow> session_event \<Rightarrow> session_out list" where
  "added env s e = drop (length (sessOut s)) (sessOut (session_step env s e))"

text \<open>
  C9. A live start is repeated until it is acknowledged, or reported. In any session that can come
  about, a start that is still retained is watched: its interval is running and the station's address is
  known. A tick of the interval leaves it while it is fresh, drops it and reports its channel once its
  deadline has passed (the channel then counts as not started, so the next request starts it anew), and
  otherwise sends it again, unchanged, and retains it.
\<close>

theorem live_start_repeated_or_reported:
  assumes "s = session_run env evs"
    and "(q, ch, r) \<in> set (sessStarts s)"
    and "\<forall>e \<in> set (sessStarts s). length (rtData (snd (snd e))) < 65536"
  shows "sessStartTimer s \<and>
    (\<exists>a. sessAddress s = Some a \<and>
      (let s' = session_step env s (LiveStartTick now);
           r' = r\<lparr>rtSends := rtSends r + 1, rtSentAt := now\<rparr>
       in if fresh LiveStartPolicy now r then (q, ch, r) \<in> set (sessStarts s')
          else if spent LiveStartPolicy now r
          then LiveStartUnacknowledged ch \<in> set (added env s (LiveStartTick now)) \<and>
               sessLiveStarted s' ch = None \<and> ch \<notin> set (map (\<lambda>e. fst (snd e)) (sessStarts s'))
          else (q, ch, r') \<in> set (sessStarts s') \<and>
               (sessSocket s \<longrightarrow> Datagram a (data_packet r') \<in> set (added env s (LiveStartTick now)))))"
proof -
  have w: "watched s" by (simp add: assms(1) run_watched)
  then obtain a where a: "sessAddress s = Some a" and timer: "sessStartTimer s"
    and d: "distinct (map (\<lambda>e. fst (snd e)) (sessStarts s))"
    using assms(2) by (auto simp: watched_def)
  obtain kept acts where k: "sweep LiveStartPolicy now [] (sessStarts s) = (kept, acts)" by fastforce
  have apart: "set (map (\<lambda>e. fst (snd e)) kept) \<inter> set (abandoned acts) = {}"
    using sweep_distinct(2) [OF d, of LiveStartPolicy now] by (simp only: k prod.sel)
  have sw: "swept LiveStartPolicy now (q, ch, r) (kept, acts)"
    using sweep_swept [OF assms(2), of LiveStartPolicy now "[]"] by (simp only: k)
  have step: "session_step env s (LiveStartTick now) = snd (liveStartTick now s)" using timer by simp
  have new: "added env s (LiveStartTick now) = concat (map (action_out (sessSocket s) a) acts)"
    by (simp only: added_def step start_tick_form(2) [OF a assms(3) k]) simp
  show ?thesis
    unfolding step Let_def start_tick_form(1,3) [OF a assms(3) k] new
    using sw timer a apart abandon_in [of q ch acts] abandon_out [of q ch acts "sessSocket s" a]
      resend_out [of "r\<lparr>rtSends := rtSends r + 1, rtSentAt := now\<rparr>" acts "sessSocket s" a]
    by (simp add: swept_def split: if_splits) blast+
qed

lemma live_start_repeated_or_reported_witness:
  "LiveStartUnacknowledged 0 \<in> set (added sample_env sample_started (LiveStartTick 4000))"
proof -
  obtain d where s: "sessStarts sample_started = [(1, 0, \<lparr>rtData = d, rtFirstSentAt = 1000, rtSentAt = 1000, rtSends = 1\<rparr>)]"
    and d: "length d < 65536"
    using sample_started_starts by blast
  show ?thesis
    using live_start_repeated_or_reported [OF sample_started_run, of 1 0 _ 4000] s d
    by (simp add: Let_def fresh_def LIVE_START_RETRANSMIT_MS_def LIVE_START_ACK_DEADLINE_MS_def)
qed

end
