(* ===== verification/P2p_Level2.thy ===== *)
theory P2p_Level2
  imports P2p_Live_Start
begin

text \<open>
  What the level-2 negotiation of a \<open>P2PSession\<close> guarantees: every promise of \<open>awaitLevel2Key\<close> settles
  once, the key comes from a gateway reply of the present connection, a connection negotiates once, and a
  control command sent under the key reaches a station that holds it.
\<close>

section \<open>The negotiation, and what leaves it alone\<close>

definition settled :: "session_out list \<Rightarrow> nat list" where
  "settled es = List.map_filter (\<lambda>x. case x of WaitSettled w r \<Rightarrow> Some w | _ \<Rightarrow> None) es"

lemma settled_append [simp]: "settled (xs @ ys) = settled xs @ settled ys"
  by (induction xs) (auto simp: settled_def map_filter_simps split: option.split)

lemma settled_simps [simp]:
  "settled [] = []" "settled (WaitSettled w r # es) = w # settled es"
  "settled (Datagram a b # es) = settled es" "settled (LiveStartUnacknowledged ch # es) = settled es"
  "settled (AudioGap q # es) = settled es" "settled (Level2Ready n # es) = settled es"
  "settled (EmitError # es) = settled es" "settled (EmitConnect # es) = settled es"
  "settled (EmitClose # es) = settled es" "settled (FrameData h dt d p j ps # es) = settled es"
  "settled (DbChunk t # es) = settled es" "settled (RtspUrl n t # es) = settled es"
  "settled (ImageData jo d # es) = settled es" "settled (CommandResult c n # es) = settled es"
  by (simp_all add: settled_def map_filter_simps)

lemma settled_waits [simp]: "settled (map (\<lambda>w. WaitSettled w r) ws) = ws"
  by (induction ws) auto

lemma settled_datagrams: "list_all is_datagram ds \<Longrightarrow> settled ds = []"
  by (induction ds) (auto simp: is_datagram_def split: session_out.splits)

text \<open>The part of the state the negotiation owns, with the promises settled so far.\<close>

record nego =
  ngKey :: "buffer option"
  ngBegun :: bool
  ngJobs :: "(nat \<times> buffer) list"
  ngGen :: nat
  ngPending :: bool
  ngWaiting :: "nat list"
  ngClosed :: bool
  ngAsked :: bool
  ngSettled :: "nat list"

definition negotiation :: "session \<Rightarrow> nego" where
  "negotiation s = \<lparr>ngKey = sessLevel2Key s, ngBegun = sessNegotiating s, ngJobs = sessJobs s, ngGen = sessGeneration s,
     ngPending = sessPending s, ngWaiting = sessWaiters s, ngClosed = sessClosed s, ngAsked = sessReprompted s,
     ngSettled = settled (sessOut s)\<rparr>"

definition same_l2 :: "session \<Rightarrow> session \<Rightarrow> bool" where
  "same_l2 s s' \<longleftrightarrow> negotiation s' = negotiation s"

interpretation apart: act_relation same_l2
  by unfold_locales (auto simp: same_l2_def)

lemma sent_apart: "sending.keeps m \<Longrightarrow> apart.keeps m"
proof -
  have "sent_only s s' \<Longrightarrow> same_l2 s s'" for s s' :: session
    by (cases s; cases s') (auto simp: sent_only_def core_def same_l2_def negotiation_def settled_datagrams)
  then show "sending.keeps m \<Longrightarrow> apart.keeps m"
    unfolding sending.keeps_def apart.keeps_def by blast
qed

lemma apart_ext: "negotiation (f s) = negotiation s \<Longrightarrow> same_l2 s (f s)"
  by (simp add: same_l2_def)

lemma apart_emit: "settled [e] = [] \<Longrightarrow> apart.keeps (emit e)"
  unfolding emit_def by (intro apart.keeps_modify apart_ext) (simp add: negotiation_def)

lemma apart_start: "apart.keeps (sendStartLiveOwnSession env ch acc now)"
  unfolding sendStartLiveOwnSession_def Let_def
  by (intro apart.keeps_intros sent_apart [OF sent_modulus] sent_apart [OF sent_body] sent_apart [OF sent_send]
      apart.keeps_modify apart_ext)
    (simp add: negotiation_def retain_start_def)

lemma apart_live: "apart.keeps (startLiveMedia env ch acc attached force now)"
  unfolding startLiveMedia_def Let_def
  by (intro apart.keeps_intros sent_apart [OF sent_media] sent_apart [OF sent_command] apart_start
      sent_apart [OF sent_gaps] apart.keeps_modify apart_ext)
    (simp_all add: negotiation_def)

lemma apart_stop: "apart.keeps (stopLiveMedia env ch acc)"
  unfolding stopLiveMedia_def
  by (intro apart.keeps_intros sent_apart [OF sent_media] sent_apart [OF sent_command] apart.keeps_modify apart_ext)
    (simp add: negotiation_def Let_def)

lemma apart_perform:
  "(\<And>q x. apart.keeps (f q x)) \<Longrightarrow> apart.keeps (perform a f acts)"
proof (induction a f acts rule: perform.induct)
  case (1 addr f)
  show ?case unfolding perform.simps by (rule apart.keeps_return)
qed (auto intro!: apart.keeps_bind sent_apart [OF sent_send])

lemma apart_abandonStart: "apart.keeps (abandonStart q ch)"
  unfolding abandonStart_def
  by (intro apart.keeps_bind apart_emit apart.keeps_modify apart_ext) (simp_all add: negotiation_def)

lemma apart_abandonAudio: "apart.keeps (abandonAudio q x)"
  unfolding abandonAudio_def
  by (intro apart.keeps_intros apart_emit apart.keeps_modify apart_ext) (simp_all add: negotiation_def)

lemma apart_startTick: "apart.keeps (liveStartTick now)"
  unfolding liveStartTick_def clearLiveStartRetransmit_def
  by (intro apart.keeps_intros apart_perform apart_abandonStart apart.keeps_modify apart_ext)
    (simp_all add: negotiation_def)

lemma apart_audioTick: "apart.keeps (audioTick now)"
  unfolding audioTick_def
  by (intro apart.keeps_intros apart_perform apart_abandonAudio apart.keeps_modify apart_ext)
    (simp_all add: negotiation_def)

lemma apart_audio: "apart.keeps (sendAudioFrame ch frame now)"
  unfolding sendAudioFrame_def Let_def
  by (intro apart.keeps_intros sent_apart [OF sent_send] apart.keeps_modify apart_ext) (simp add: negotiation_def)

lemma apart_if: "apart.keeps m \<Longrightarrow> apart.keeps (act_if b m)"
  by (auto simp: act_if_def intro: apart.keeps_return)

lemma apart_send_all: "apart.keeps (send_all as ty p)"
proof (induction "as")
  case Nil
  show ?case unfolding send_all.simps by (rule apart.keeps_return)
qed (auto intro: apart.keeps_bind sent_apart [OF sent_send])

lemma apart_lookups: "apart.keeps (sendLookups env)"
  unfolding sendLookups_def
  by (intro apart.keeps_intros apart_if sent_apart [OF sent_send] apart_send_all)

lemma apart_checkCam: "apart.keeps (beginCheckCam env a)"
  unfolding beginCheckCam_def by (intro apart.keeps_intros sent_apart [OF sent_send] apart_send_all)

lemma apart_connected: "apart.keeps (onConnected a now)"
  unfolding onConnected_def
  by (intro apart.keeps_intros sent_apart [OF sent_send] sent_apart [OF sent_command] apart_emit apart.keeps_modify apart_ext)
    (simp_all add: negotiation_def)

lemma apart_bound: "apart.keeps (socketBound env)"
  unfolding socketBound_def
  by (intro apart.keeps_intros apart_lookups apart.keeps_modify apart_ext) (simp add: negotiation_def)

lemma apart_heartbeat: "apart.keeps heartbeatTick"
  unfolding heartbeatTick_def by (intro apart.keeps_intros sent_apart [OF sent_send])

section \<open>A received frame may open one negotiation\<close>

text \<open>
  An inbound datagram leaves the negotiation alone, or, where none was begun on this connection and no
  key is held, begins one on the present generation.
\<close>

definition begun :: "buffer \<Rightarrow> nego \<Rightarrow> nego" where
  "begun gw n = n\<lparr>ngBegun := True, ngJobs := ngJobs n @ [(ngGen n, gw)]\<rparr>"

definition may_begin :: "nego \<Rightarrow> bool" where
  "may_begin n \<longleftrightarrow> ngKey n = None \<and> \<not> ngBegun n"

definition may_open :: "session \<Rightarrow> session \<Rightarrow> bool" where
  "may_open s s' \<longleftrightarrow> negotiation s' = negotiation s \<or>
     (may_begin (negotiation s) \<and> (\<exists>gw. negotiation s' = begun gw (negotiation s)))"

lemma begun_begins [simp]: "\<not> may_begin (begun gw n)"
  by (simp add: begun_def may_begin_def)

interpretation hearing: act_relation may_open
proof
  show "may_open s s" for s by (simp add: may_open_def)
  show "may_open s v" if "may_open s t" "may_open t v" for s t v
    using that begun_begins unfolding may_open_def by metis
qed

lemma apart_opening: "apart.keeps m \<Longrightarrow> hearing.keeps m"
  by (auto simp: apart.keeps_def hearing.keeps_def same_l2_def may_open_def)

lemma settled_frame: "settled (frame_events env h p dt d) = []"
  by (auto simp: frame_events_def db_chunk_def image_reply_def Let_def split: sum.split option.split json.split)

lemma opening_handle: "may_open s (frame_handled env h p dt s)"
proof -
  have 1: "negotiation (s\<lparr>sessOut := sessOut s @ frame_events env h p dt d\<rparr>) = negotiation s" for d
    by (simp add: negotiation_def settled_frame)
  have 2: "negotiation ((negotiateLevel2Key gw s)\<lparr>sessOut := sessOut (negotiateLevel2Key gw s) @ frame_events env h p dt d\<rparr>) =
      begun gw (negotiation s)" for gw d
    by (simp add: negotiation_def settled_frame negotiateLevel2Key_def begun_def)
  have 3: "sessLevel2Key s = None \<Longrightarrow> \<not> sessNegotiating s \<Longrightarrow> may_begin (negotiation s)"
    by (simp add: negotiation_def may_begin_def)
  show ?thesis
    unfolding frame_handled_def Let_def may_open_def by (cases "int (commandId h) = CMD_GATEWAYINFO \<and> signCode h = 1 \<and> sessLevel2Key s = None
                   \<and> \<not> sessNegotiating s \<and> cfgResolver env") (use 1 2 3 in \<open>simp_all only: simp_thms if_True if_False, blast\<close>)
qed

lemma opening_handle_all: "hearing.keeps (handle_all env fs)"
proof (induction fs)
  case Nil
  show ?case unfolding handle_all.simps by (rule hearing.keeps_return)
next
  case (Cons f fs)
  obtain h b dt where f: "f = (h, b, dt)" by (cases f) auto
  have "hearing.keeps (handleFrame env h b dt)"
    by (simp add: hearing.keeps_def handleFrame_def opening_handle)
  then show ?case using Cons.IH by (simp add: f hearing.keeps_bind)
qed

lemma opening_data: "hearing.keeps (sessionData env msg a)"
proof -
  have "may_open s (s\<lparr>sessInbound := i\<rparr>)" for i s
    by (simp add: may_open_def negotiation_def)
  then show ?thesis
    unfolding sessionData_def
    by (intro hearing.keeps_intros apart_opening [OF sent_apart [OF sent_send]] hearing.keeps_modify opening_handle_all)
qed

lemma opening_if: "hearing.keeps m \<Longrightarrow> hearing.keeps (act_if b m)"
  by (auto simp: act_if_def intro: hearing.keeps_return)

lemma apart_ack: "same_l2 s (onAck msg s)"
  by (simp add: same_l2_def negotiation_def onAck_def Let_def)

lemma opening_message: "hearing.keeps (onMessage env msg a now)"
proof -
  have ack: "apart.keeps (act_modify (onAck msg))" by (rule apart.keeps_modify) (rule apart_ack)
  have pong: "apart.keeps (act_modify (\<lambda>s. s\<lparr>sessPongData := d, sessPongAt := Some now, sessStaleTraced := False\<rparr>))" for d
    by (intro apart.keeps_modify apart_ext) (simp add: negotiation_def)
  show ?thesis
    unfolding onMessage_def
    by (intro hearing.keeps_intros opening_if opening_data apart_opening [OF apart_checkCam]
        apart_opening [OF apart_connected] apart_opening [OF sent_apart [OF sent_send]]
        apart_opening [OF ack] apart_opening [OF pong])
qed

section \<open>The negotiation as a machine\<close>

definition settle_all :: "nego \<Rightarrow> nego" where
  "settle_all n = n\<lparr>ngPending := False, ngWaiting := [], ngSettled := ngSettled n @ ngWaiting n\<rparr>"

definition current_job :: "nego \<Rightarrow> nat \<Rightarrow> bool" where
  "current_job n i \<longleftrightarrow> i < length (ngJobs n) \<and> fst (ngJobs n ! i) = ngGen n \<and> \<not> ngClosed n"

definition drop_job :: "nat \<Rightarrow> nego \<Rightarrow> nego" where
  "drop_job i n = n\<lparr>ngJobs := take i (ngJobs n) @ drop (Suc i) (ngJobs n)\<rparr>"

text \<open>
  The steps of the negotiation, labelled with the promise asked for or with a call of \<open>connect\<close>:
  \<open>resolver\<close> says that one is configured, \<open>derive\<close> takes a gateway reply and a private key to the
  level-2 key.
\<close>

datatype nego_label = Silent | Promise nat | Opens

inductive nego_step ::
  "bool \<Rightarrow> (buffer \<Rightarrow> string \<Rightarrow> buffer option) \<Rightarrow> nego \<Rightarrow> nego_label \<Rightarrow> nego \<Rightarrow> bool" for resolver derive where
  Stay: "nego_step resolver derive n Silent n"
| Begin: "may_begin n \<Longrightarrow> nego_step resolver derive n Silent (begun gw n)"
| Stale: "nego_step resolver derive n Silent (drop_job i n)"
| Fail: "current_job n i \<Longrightarrow> nego_step resolver derive n Silent (settle_all (drop_job i n))"
| Succeed: "current_job n i \<Longrightarrow> derive (snd (ngJobs n ! i)) hex = Some key \<Longrightarrow> length key = 32 \<Longrightarrow>
    nego_step resolver derive n Silent (settle_all ((drop_job i n)\<lparr>ngKey := Some key\<rparr>))"
| Answer: "nego_step resolver derive n (Promise w) (n\<lparr>ngSettled := ngSettled n @ [w]\<rparr>)"
| Park: "ngPending n \<Longrightarrow> ngKey n = None \<Longrightarrow> \<not> ngClosed n \<Longrightarrow>
    nego_step resolver derive n (Promise w) (n\<lparr>ngWaiting := ngWaiting n @ [w]\<rparr>)"
| Expire: "w \<in> set (ngWaiting n) \<Longrightarrow>
    nego_step resolver derive n Silent (n\<lparr>ngWaiting := remove1 w (ngWaiting n), ngSettled := ngSettled n @ [w]\<rparr>)"
| Ask: "resolver \<Longrightarrow> ngKey n = None \<Longrightarrow> \<not> ngClosed n \<Longrightarrow> \<not> ngAsked n \<Longrightarrow>
    nego_step resolver derive n Silent (n\<lparr>ngAsked := True, ngPending := True\<rparr>)"
| Shut: "\<not> ngClosed n \<Longrightarrow> nego_step resolver derive n Silent (settle_all (n\<lparr>ngClosed := True, ngGen := ngGen n + 1, ngKey := None\<rparr>))"
| Connected: "nego_step resolver derive n Opens n"
| Reopen: "nego_step resolver derive n Opens
    (if ngKey n = None
     then n\<lparr>ngClosed := False, ngGen := ngGen n + 1, ngPending := resolver, ngBegun := False, ngAsked := False\<rparr>
     else n\<lparr>ngClosed := False, ngGen := ngGen n + 1\<rparr>)"

inductive_cases nego_stepE: "nego_step resolver derive n l n'"

fun event_label :: "session_event \<Rightarrow> nego_label" where
  "event_label (Await w graceMs fromSession now) = Promise w"
| "event_label Connect = Opens"
| "event_label e = Silent"

abbreviation session_nego :: "session_env \<Rightarrow> nego \<Rightarrow> nego_label \<Rightarrow> nego \<Rightarrow> bool" where
  "session_nego env \<equiv> nego_step (cfgResolver env) (deriveLevel2KeyFromGatewayInfo (envCrypto env))"

lemma apart_nego: "apart.keeps m \<Longrightarrow> session_nego env (negotiation s) Silent (negotiation (snd (m s)))"
  using apart.keepsD [of m s] by (simp add: same_l2_def nego_step.Stay)

lemma negotiation_settle: "sessLevel2Key s = k \<Longrightarrow> negotiation (settleLevel2 r s) = settle_all (negotiation s)"
  by (simp add: settleLevel2_def negotiation_def settle_all_def)

lemma nego_open: "may_open s s' \<Longrightarrow> session_nego env (negotiation s) Silent (negotiation s')"
  by (auto simp: may_open_def intro: nego_step.Stay nego_step.Begin)

lemma nego_await: "session_nego env (negotiation s) (Promise w) (negotiation (awaitLevel2Key w g fs now s))"
proof -
  have a: "session_nego env (negotiation s) (Promise w) (negotiation (s\<lparr>sessOut := sessOut s @ [WaitSettled w r]\<rparr>))" for r
    using nego_step.Answer [of _ _ "negotiation s" w] by (simp add: negotiation_def)
  have p: "sessPending s \<Longrightarrow> sessLevel2Key s = None \<Longrightarrow> \<not> sessClosed s \<Longrightarrow>
      session_nego env (negotiation s) (Promise w) (negotiation (s\<lparr>sessWaiters := sessWaiters s @ [w]\<rparr>))"
    using nego_step.Park [of "negotiation s" _ _ w] by (simp add: negotiation_def)
  show ?thesis unfolding awaitLevel2Key_def Let_def using a p by (simp split: if_split)
qed

lemma nego_deadline: "session_nego env (negotiation s) Silent (negotiation (waitDeadline w s))"
  using nego_step.Expire [of w "negotiation s"] nego_step.Stay
  by (auto simp: waitDeadline_def negotiation_def)

lemma nego_connect: "session_nego env (negotiation s) Opens (negotiation (s_connect env s))"
  using nego_step.Reopen [of _ _ "negotiation s"] nego_step.Connected
  by (auto simp: s_connect_def Let_def negotiation_def split: if_splits)

lemma apart_after: "apart.keeps m \<Longrightarrow> negotiation (snd (m s)) = negotiation s"
  using apart.keepsD [of m s] by (simp add: same_l2_def)

lemma nego_reprompt: "session_nego env (negotiation s) Silent (negotiation (snd (repromptLevel2Key env s)))"
proof (cases "sessClosed s \<or> sessLevel2Key s \<noteq> None \<or> sessReprompted s \<or> \<not> cfgResolver env \<or> sessAddress s = None")
  case True
  then have "snd (repromptLevel2Key env s) = s" by (auto simp: repromptLevel2Key_def)
  then show ?thesis by (simp add: nego_step.Stay)
next
  case False
  let ?s = "s\<lparr>sessReprompted := True, sessPending := True\<rparr>"
  have k: "apart.keeps (act_bind (sendCommand CMD_GATEWAYINFO STATION_CHANNEL) (\<lambda>_. act_return True))"
    by (intro apart.keeps_intros sent_apart [OF sent_command])
  have "snd (repromptLevel2Key env s) =
      snd (act_bind (sendCommand CMD_GATEWAYINFO STATION_CHANNEL) (\<lambda>_. act_return True) ?s)"
    using False by (auto simp: repromptLevel2Key_def act_bind_modify)
  then have "negotiation (snd (repromptLevel2Key env s)) = negotiation ?s" using apart_after [OF k] by simp
  moreover have "session_nego env (negotiation s) Silent (negotiation ?s)"
    using nego_step.Ask [of "cfgResolver env" "negotiation s"] False by (simp add: negotiation_def)
  ultimately show ?thesis by simp
qed

lemma nego_close: "session_nego env (negotiation s) Silent (negotiation (snd (s_close s)))"
proof (cases "sessClosed s")
  case True
  then show ?thesis by (simp add: s_close_def nego_step.Stay)
next
  case False
  let ?c = "settleLevel2 WaitClosed (s\<lparr>sessClosed := True, sessGeneration := sessGeneration s + 1, sessLevel2Key := None, sessLevel2Seq := 0\<rparr>)"
  let ?s = "?c\<lparr>sessConnected := False, sessConnecting := False, sessLookupTimer := False, sessHeartbeat := False,
            sessConnectTimer := False, sessAudioTimer := False, sessAudio := [], sessAudioStalled := False,
            sessStartTimer := False, sessStarts := [], sessInbound := resetInboundSequencing (sessInbound s)\<rparr>"
  let ?m = "act_bind (act_read (\<lambda>s. case sessAddress s of None \<Rightarrow> act_return () | Some a \<Rightarrow> s_send a REQ_END [])) (\<lambda>_.
         act_bind (act_modify (\<lambda>s. s\<lparr>sessSocket := False\<rparr>)) (\<lambda>_. emit EmitClose))"
  have k: "apart.keeps ?m"
    by (intro apart.keeps_intros sent_apart [OF sent_send] apart_emit apart.keeps_modify apart_ext)
      (simp_all add: negotiation_def)
  have "snd (s_close s) = snd (?m ?s)"
    using False unfolding s_close_def act_read_def act_bind_modify
    by (simp only: if_False)
  then have "negotiation (snd (s_close s)) = negotiation ?s" using apart_after [OF k] by simp
  moreover have "negotiation ?s = settle_all ((negotiation s)\<lparr>ngClosed := True, ngGen := ngGen (negotiation s) + 1, ngKey := None\<rparr>)"
    by (simp add: negotiation_def settleLevel2_def settle_all_def)
  moreover have "session_nego env (negotiation s) Silent (settle_all ((negotiation s)\<lparr>ngClosed := True, ngGen := ngGen (negotiation s) + 1, ngKey := None\<rparr>))"
    by (rule nego_step.Shut) (simp add: negotiation_def False)
  ultimately show ?thesis by simp
qed

lemma nego_timeout: "session_nego env (negotiation s) Silent (negotiation (snd (connectTimeout s)))"
proof (cases "sessConnected s")
  case True
  then show ?thesis by (simp add: connectTimeout_def nego_step.Stay)
next
  case False
  have "negotiation (s\<lparr>sessOut := sessOut s @ [EmitError]\<rparr>) = negotiation s" by (simp add: negotiation_def)
  moreover have "snd (connectTimeout s) = snd (s_close (s\<lparr>sessOut := sessOut s @ [EmitError]\<rparr>))"
    using False by (simp add: connectTimeout_def act_bind_def emit_def)
  ultimately show ?thesis using nego_close [of env "s\<lparr>sessOut := sessOut s @ [EmitError]\<rparr>"] by simp
qed

lemma nego_resolver: "session_nego env (negotiation s) Silent (negotiation (resolverAnswers env i r s))"
proof (cases "i < length (sessJobs s)")
  case False
  then show ?thesis by (simp add: resolverAnswers_def nego_step.Stay)
next
  case True
  obtain g gw where j: "sessJobs s ! i = (g, gw)" by fastforce
  define t where "t = s\<lparr>sessJobs := take i (sessJobs s) @ drop (Suc i) (sessJobs s)\<rparr>"
  have t: "negotiation t = drop_job i (negotiation s)" by (simp add: t_def negotiation_def drop_job_def)
  have same: "sessClosed t = sessClosed s" "sessGeneration t = sessGeneration s" by (simp_all add: t_def)
  show ?thesis
  proof (cases "sessClosed s \<or> g \<noteq> sessGeneration s")
    case stale: True
    then have "resolverAnswers env i r s = t" using True by (simp add: resolverAnswers_def j Let_def t_def)
    then show ?thesis by (simp add: t nego_step.Stale)
  next
    case False
    then have cur: "current_job (negotiation s) i" using True by (simp add: current_job_def negotiation_def j)
    have failed: "session_nego env (negotiation s) Silent (negotiation (settleLevel2 WaitTerminal t))"
      "session_nego env (negotiation s) Silent (negotiation (negotiation_failed t))"
      using nego_step.Fail [OF cur, of "cfgResolver env" "deriveLevel2KeyFromGatewayInfo (envCrypto env)"]
      by (simp_all add: negotiation_settle t negotiation_failed_def)
        (simp_all add: negotiation_def settleLevel2_def settle_all_def drop_job_def t_def)
    have keyed: "session_nego env (negotiation s) Silent
        (negotiation ((settleLevel2 WaitTerminal (t\<lparr>sessLevel2Key := Some key\<rparr>))\<lparr>sessOut := sessOut (settleLevel2 WaitTerminal (t\<lparr>sessLevel2Key := Some key\<rparr>)) @ [Level2Ready c]\<rparr>))"
      if "deriveLevel2KeyFromGatewayInfo (envCrypto env) gw hex = Some key" "length key = 32" for hex key c
      using nego_step.Succeed [OF cur, of "deriveLevel2KeyFromGatewayInfo (envCrypto env)" hex key "cfgResolver env"] that
      by (simp add: negotiation_def settleLevel2_def settle_all_def drop_job_def t_def j)
    have "resolverAnswers env i r s = (case r of
                 ResolverThrows \<Rightarrow> negotiation_failed t
               | NoPrivateKey \<Rightarrow> settleLevel2 WaitTerminal t
               | PrivateKey eccPrivHex \<Rightarrow>
                   if eccPrivHex = [] then settleLevel2 WaitTerminal t
                   else
                     (case deriveLevel2KeyFromGatewayInfo (envCrypto env) gw eccPrivHex of
                        None \<Rightarrow> negotiation_failed t
                      | Some key \<Rightarrow>
                          (case act_bind (setLevel2Key key) (\<lambda>_. emit (Level2Ready (gatewayInfoCipherId gw))) t of
                             (Inl e, s2) \<Rightarrow> negotiation_failed s2
                           | (Inr _, s2) \<Rightarrow> s2)))"
      using True False by (simp only: resolverAnswers_def j Let_def prod.case t_def [symmetric] same) (simp add: same)
    then show ?thesis using failed keyed
      by (cases r) (simp_all add: setLevel2Key_def emit_def act_bind_def split: option.split)
  qed
qed

lemma session_nego_step:
  "session_nego env (negotiation s) (event_label e) (negotiation (session_step env s e))"
proof (cases e)
  case Connect
  then show ?thesis using nego_connect by simp
next
  case SocketBound
  then show ?thesis using apart_nego [OF apart_bound] by simp
next
  case (LocalIp h p)
  have "negotiation (localIpDetected h p s) = negotiation s" by (simp add: localIpDetected_def negotiation_def)
  then show ?thesis using LocalIp by (simp add: nego_step.Stay)
next
  case LookupTick
  then show ?thesis using apart_nego [OF apart_lookups] by (simp add: nego_step.Stay)
next
  case ConnectTimeout
  have "negotiation (s\<lparr>sessConnectTimer := False\<rparr>) = negotiation s" by (simp add: negotiation_def)
  then show ?thesis using ConnectTimeout nego_timeout [of env "s\<lparr>sessConnectTimer := False\<rparr>"] by (simp add: nego_step.Stay)
next
  case HeartbeatTick
  then show ?thesis using apart_nego [OF apart_heartbeat] by (simp add: nego_step.Stay)
next
  case (Inbound msg a now)
  then show ?thesis using nego_open [OF hearing.keepsD [OF opening_message]] by (simp add: nego_step.Stay)
next
  case (ResolverAnswer i r)
  then show ?thesis using nego_resolver by simp
next
  case (Await w g fs now)
  then show ?thesis using nego_await by simp
next
  case (WaitDeadline w)
  then show ?thesis using nego_deadline by simp
next
  case Reprompt
  then show ?thesis using nego_reprompt by simp
next
  case (StartLive ch acc att force now)
  then show ?thesis using apart_nego [OF apart_live] by simp
next
  case (StopLive ch acc)
  then show ?thesis using apart_nego [OF apart_stop] by simp
next
  case (LiveStartTick now)
  then show ?thesis using apart_nego [OF apart_startTick] by (simp add: nego_step.Stay)
next
  case (Audio ch frame now)
  then show ?thesis using apart_nego [OF apart_audio] by simp
next
  case (AudioTick now)
  then show ?thesis using apart_nego [OF apart_audioTick] by (simp add: nego_step.Stay)
next
  case (Talkback ch att start now)
  then show ?thesis using apart_nego [OF sent_apart [OF sent_talkback]] by simp
next
  case (Control cmd ch acc p mv)
  then show ?thesis using apart_nego [OF sent_apart [OF sent_control]] by simp
next
  case (StringCommand cmd v ch)
  then show ?thesis using apart_nego [OF sent_apart [OF sent_string]] by simp
next
  case Close
  then show ?thesis using nego_close by simp
qed

section \<open>The machine's invariant\<close>

definition nego_inv :: "bool \<Rightarrow> nego \<Rightarrow> bool" where
  "nego_inv resolver n \<longleftrightarrow>
     (ngWaiting n \<noteq> [] \<longrightarrow> ngPending n \<and> ngKey n = None \<and> \<not> ngClosed n) \<and>
     (ngPending n \<longrightarrow> resolver) \<and> (ngClosed n \<longrightarrow> ngKey n = None) \<and>
     (\<forall>j \<in> set (ngJobs n). fst j \<le> ngGen n)"

lemma drop_job_set: "set (ngJobs (drop_job i n)) \<subseteq> set (ngJobs n)"
  by (auto simp: drop_job_def dest: in_set_takeD in_set_dropD)

lemma drop_job_simps [simp]:
  "ngKey (drop_job i n) = ngKey n" "ngBegun (drop_job i n) = ngBegun n" "ngGen (drop_job i n) = ngGen n"
  "ngPending (drop_job i n) = ngPending n" "ngWaiting (drop_job i n) = ngWaiting n"
  "ngClosed (drop_job i n) = ngClosed n" "ngAsked (drop_job i n) = ngAsked n" "ngSettled (drop_job i n) = ngSettled n"
  by (simp_all add: drop_job_def)

lemma nego_inv_step: "nego_step resolver derive n l n' \<Longrightarrow> nego_inv resolver n \<Longrightarrow> nego_inv resolver n'"
proof (induction rule: nego_step.induct)
  case (Expire w n)
  then show ?case by (auto simp: nego_inv_def)
next
  case (Reopen n)
  then show ?case by (auto simp: nego_inv_def intro: le_SucI)
qed (use drop_job_set in \<open>fastforce simp: nego_inv_def begun_def may_begin_def settle_all_def current_job_def\<close>)+

text \<open>How often a promise has settled and how often it still waits.\<close>

definition promises :: "nego \<Rightarrow> nat multiset" where
  "promises n = mset (ngSettled n) + mset (ngWaiting n)"

lemma promises_step:
  "nego_step resolver derive n l n' \<Longrightarrow>
    promises n' = (case l of Promise w \<Rightarrow> add_mset w (promises n) | _ \<Rightarrow> promises n)"
  by (induction rule: nego_step.induct) (auto simp: promises_def begun_def settle_all_def)


lemma session_promises:
  "promises (negotiation (session_step env s e)) =
    (case event_label e of Promise w \<Rightarrow> add_mset w (promises (negotiation s)) | _ \<Rightarrow> promises (negotiation s))"
  by (rule promises_step [OF session_nego_step])

interpretation nego_invariant: stepper "session_step env" "\<lambda>s. nego_inv (cfgResolver env) (negotiation s)" for env
  by unfold_locales (rule nego_inv_step [OF session_nego_step])

lemma run_nego_inv: "nego_inv (cfgResolver env) (negotiation (session_run env evs))"
  unfolding session_run_def
  by (rule nego_invariant.inv_run) (simp add: new_session_def negotiation_def nego_inv_def)

section \<open>What the negotiation promises\<close>

inductive nego_run ::
  "bool \<Rightarrow> (buffer \<Rightarrow> string \<Rightarrow> buffer option) \<Rightarrow> nego \<Rightarrow> nego_label list \<Rightarrow> nego \<Rightarrow> bool" for resolver derive where
  Start: "nego_run resolver derive n [] n"
| Next: "nego_run resolver derive n ls n' \<Longrightarrow> nego_step resolver derive n' l n'' \<Longrightarrow>
    nego_run resolver derive n (ls @ [l]) n''"

text \<open>
  C10. The negotiation refines its machine: whatever happens to a session, in whatever order (datagrams
  of any content, ticks, sent commands, answers of the resolver, closing and reconnecting), the part of
  its state that the negotiation owns has come from the machine's first state by one step of the machine
  for each event, labelled with the promise it asks for or the connect it is.
\<close>

theorem negotiation_refines:
  "nego_run (cfgResolver env) (deriveLevel2KeyFromGatewayInfo (envCrypto env))
     \<lparr>ngKey = None, ngBegun = False, ngJobs = [], ngGen = 0, ngPending = cfgResolver env, ngWaiting = [],
      ngClosed = False, ngAsked = False, ngSettled = []\<rparr>
     (map event_label evs) (negotiation (session_run env evs))"
proof (induction evs rule: rev_induct)
  case Nil
  show ?case by (simp add: session_run_def new_session_def negotiation_def nego_run.Start)
next
  case (snoc e evs)
  then show ?case
    using nego_run.Next [OF snoc.IH session_nego_step [of env "session_run env evs" e]]
    by (simp add: session_run_def)
qed

fun awaited :: "session_event list \<Rightarrow> nat list" where
  "awaited [] = []"
| "awaited (Await w graceMs fromSession now # evs) = w # awaited evs"
| "awaited (_ # evs) = awaited evs"

lemma awaited_snoc: "awaited (evs @ [e]) = awaited evs @ (case event_label e of Promise w \<Rightarrow> [w] | _ \<Rightarrow> [])"
  by (induction evs rule: awaited.induct) (cases e; simp)+

text \<open>
  C11. Every promise of \<open>awaitLevel2Key\<close> is settled at most once, and none is lost: at any time the
  promises settled and those still waiting are together, with their multiplicity, the ones asked for. A
  promise waits only on an open session that holds no key, has a resolver and is marked as pending. (The mark
  is not the hope of a key: a reprompt sets it again after the one negotiation of the connection has ended
  without one, \<open>reprompted_wait_hopeless\<close>; what waits then, its deadline ends.)
\<close>

theorem waits_settled_once:
  "mset (settled (sessOut (session_run env evs))) + mset (sessWaiters (session_run env evs)) =
     mset (awaited evs) \<and>
   (sessWaiters (session_run env evs) = [] \<or>
     sessPending (session_run env evs) \<and> sessLevel2Key (session_run env evs) = None \<and>
     \<not> sessClosed (session_run env evs) \<and> cfgResolver env)"
proof -
  have "promises (negotiation (session_run env evs)) = mset (awaited evs)"
  proof (induction evs rule: rev_induct)
    case Nil
    show ?case by (simp add: session_run_def new_session_def negotiation_def promises_def)
  next
    case (snoc e evs)
    then show ?case using session_promises [of env "session_run env evs" e]
      by (simp add: session_run_def awaited_snoc split: nego_label.splits)
  qed
  then show ?thesis using run_nego_inv [of env evs] by (auto simp: promises_def negotiation_def nego_inv_def)
qed

lemma nego_key_step:
  "nego_step resolver derive n l n' \<Longrightarrow> ngKey n' = Some k \<Longrightarrow> ngKey n \<noteq> Some k \<Longrightarrow>
    \<exists>i hex. current_job n i \<and> derive (snd (ngJobs n ! i)) hex = Some k \<and> length k = 32 \<and> n' = settle_all ((drop_job i n)\<lparr>ngKey := Some k\<rparr>)"
  by (induction rule: nego_step.induct) (auto simp: begun_def settle_all_def split: if_splits)

lemma current_job_in: "current_job n i \<Longrightarrow> (ngGen n, snd (ngJobs n ! i)) \<in> set (ngJobs n) \<and> \<not> ngClosed n"
  by (metis current_job_def nth_mem prod.collapse)

text \<open>
  C15. A level-2 key comes from this connection only. The step that installs a key answers a lookup for a
  gateway reply received on the present connection generation of an open session: a lookup that a close or
  a reconnect has overtaken installs nothing. The key is the one derived from that reply, has 32 bytes,
  and from then on nobody waits.
\<close>

theorem key_from_current_connection:
  assumes "sessLevel2Key s \<noteq> Some k" "sessLevel2Key (session_step env s e) = Some k"
  shows "length k = 32 \<and> \<not> sessClosed s \<and> sessWaiters (session_step env s e) = [] \<and>
    (\<exists>gw hex. (sessGeneration s, gw) \<in> set (sessJobs s) \<and>
       deriveLevel2KeyFromGatewayInfo (envCrypto env) gw hex = Some k)"
proof -
  obtain i hex where i: "current_job (negotiation s) i"
    "deriveLevel2KeyFromGatewayInfo (envCrypto env) (snd (ngJobs (negotiation s) ! i)) hex = Some k" "length k = 32"
    "negotiation (session_step env s e) = settle_all ((drop_job i (negotiation s))\<lparr>ngKey := Some k\<rparr>)"
    using nego_key_step [OF session_nego_step [of env s e], of k] assms by (auto simp: negotiation_def)
  have "(sessGeneration s, snd (sessJobs s ! i)) \<in> set (sessJobs s)" "\<not> sessClosed s"
    using current_job_in [OF i(1)] by (simp_all add: negotiation_def)
  moreover have "ngWaiting (negotiation (session_step env s e)) = []" by (simp add: i(4) settle_all_def)
  ultimately show ?thesis using i(2,3) by (auto simp: negotiation_def)
qed

text \<open>A negotiation of this connection has been begun, and no lookup of it is outstanding.\<close>

definition concluded :: "nego \<Rightarrow> bool" where
  "concluded n \<longleftrightarrow> ngKey n = None \<and> ngBegun n \<and> (\<forall>j \<in> set (ngJobs n). fst j \<noteq> ngGen n)"

lemma concluded_step:
  "nego_step resolver derive n l n' \<Longrightarrow> l \<noteq> Opens \<Longrightarrow> nego_inv resolver n \<Longrightarrow> concluded n \<Longrightarrow>
    concluded n' \<and> set (ngJobs n') \<subseteq> set (ngJobs n)"
proof (induction rule: nego_step.induct)
  case (Fail n i)
  then show ?case using current_job_in [of n i] by (force simp: concluded_def)
next
  case (Succeed n i hex key)
  then show ?case using current_job_in [of n i] by (force simp: concluded_def)
next
  case (Stale n i)
  then show ?case using drop_job_set [of i n] by (auto simp: concluded_def)
next
  case (Shut n)
  then show ?case by (fastforce simp: concluded_def nego_inv_def settle_all_def)
qed (auto simp: concluded_def may_begin_def begun_def)

lemma concluded_run:
  assumes "Connect \<notin> set evs" "concluded (negotiation s)" "nego_inv (cfgResolver env) (negotiation s)"
  shows "concluded (negotiation (foldl (session_step env) s evs)) \<and>
    set (ngJobs (negotiation (foldl (session_step env) s evs))) \<subseteq> set (ngJobs (negotiation s))"
  using assms
proof (induction evs arbitrary: s)
  case (Cons e evs)
  have "event_label e \<noteq> Opens" using Cons.prems(1) by (cases e) auto
  from concluded_step [OF session_nego_step this Cons.prems(3,2)]
    nego_inv_step [OF session_nego_step Cons.prems(3)] Cons.IH [of "session_step env s e"] Cons.prems(1)
  show ?case by fastforce
qed simp

text \<open>
  A connection negotiates once. When the negotiation of a connection has been begun and has ended
  without a key (the resolver knew no private key or failed, or nothing could be derived), no lookup is
  begun and no key is installed any more until \<open>connect\<close> is called again: not by any datagram, and not by
  \<open>repromptLevel2Key\<close> with the gateway reply it provokes.
\<close>

theorem one_negotiation_per_connection:
  assumes "sessLevel2Key (session_run env evs) = None" "sessNegotiating (session_run env evs)"
    and "\<forall>gw. (sessGeneration (session_run env evs), gw) \<notin> set (sessJobs (session_run env evs))"
    and "Connect \<notin> set later"
  shows "sessLevel2Key (session_run env (evs @ later)) = None \<and>
    set (sessJobs (session_run env (evs @ later))) \<subseteq> set (sessJobs (session_run env evs))"
proof -
  have "concluded (negotiation (session_run env evs))"
    using assms(1-3) by (auto simp: concluded_def negotiation_def)
  from concluded_run [OF assms(4) this run_nego_inv]
  show ?thesis by (auto simp: session_run_def concluded_def negotiation_def)
qed

text \<open>A gateway reply whose cipher has no private key.\<close>

definition gateway_header :: p2p_header where
  "gateway_header = \<lparr>commandId = 1100, bytesToRead = 1, channel = 255, signCode = 1, frameType = 0\<rparr>"
definition gateway_frame :: buffer where
  "gateway_frame = MAGIC_WORD @ u16le 1100 @ u32le 1 @ [1, 0, 255, 1, 0, 0] @ [9]"
definition gateway_reply :: buffer where
  "gateway_reply = response_bytes RESP_DATA @ u16be 21 @ [0xd1, 0, 0, 0] @ gateway_frame"

lemmas byte_evals = MAGIC_WORD_def bytes_of_string_def Let_def u16be_def u16le_def u32le_def
   slice_def read_u16be_def read_u16le_def read_u32le_def read_u8_def u16be_at_def u16le_at_def u32le_at_def

lemma gateway_loop: "frames_loop gateway_frame = ([(gateway_header, [9])], None)"
  by (subst frames_loop.simps)
    (simp add: gateway_frame_def gateway_header_def byte_evals P2P_DATA_HEADER_BYTES_def parseDataFrameHeader_def frames_loop_short)

lemma gateway_data: "\<exists>st tr. onData (resetInboundSequencing \<lparr>pendingByDataType = \<lambda>_. None, lastSeqByType = \<lambda>_. None,
        tracedDatagramGaps = 0\<rparr>) gateway_reply = Inr (st, [0xd1, 0, 0, 1, 0, 0], [(gateway_header, [9], 0)], tr)"
  using gateway_loop
  by (simp add: onData_def gateway_reply_def slice_def read_u16be_def u16be_at_def u16be_def reassemble_def 
   resetInboundSequencing_def buildAckPayload_def ackTypeHeader_def write_u16be_def SEQUENCE_LOOKBACK_def STALE_RETRANSMIT_DEPTH_def)

definition refused :: "session_event list" where
  "refused = [Connect, SocketBound, Inbound (response_bytes CAM_ID) station_address 0,
     Inbound gateway_reply station_address 5, ResolverAnswer 0 NoPrivateKey]"

lemma gateway_received:
  "\<exists>inb out. session_step sample_env sample_connected (Inbound gateway_reply station_address 5) =
     sample_connected\<lparr>sessInbound := inb, sessNegotiating := True, sessJobs := [(1, [9])], sessOut := out\<rparr>"
proof -
  have h: "2 \<le> length gateway_reply" "gateway_reply ! 0 = 0xf1" "gateway_reply ! Suc 0 = 0xd0"
    by (simp_all add: gateway_reply_def)
  have m: "snd (onMessage sample_env gateway_reply a now s) =
      (if sessConnected s then snd (sessionData sample_env gateway_reply a s) else s)" for a now s
    by (simp add: onMessage_def hasHeader_def h act_if_def)
  obtain st tr where d: "onData (resetInboundSequencing \<lparr>pendingByDataType = \<lambda>_. None, lastSeqByType = \<lambda>_. None,
        tracedDatagramGaps = 0\<rparr>) gateway_reply = Inr (st, [0xd1, 0, 0, 1, 0, 0], [(gateway_header, [9], 0)], tr)"
    using gateway_data by blast
  have r: "cfgResolver sample_env" by (simp add: sample_env_def)
  have f: "frame_plain sample_env s gateway_header [9] = [9]" if "sessLevel2Key s = None" for s
    by (simp add: frame_plain_def gateway_header_def isMedia_def CMD_VIDEO_FRAME_def CMD_AUDIO_FRAME_def)
  have g: "int (commandId gateway_header) = CMD_GATEWAYINFO" "signCode gateway_header = 1"
    by (simp_all add: gateway_header_def CMD_GATEWAYINFO_def)
  have a: "s_send x REQ_ACK [0xd1, 0, 0, 1, 0, 0] sample_connected = (Inr (), sample_connected\<lparr>sessOut := sessOut sample_connected @
      [Datagram x (request_bytes REQ_ACK @ u16be 6 @ [0xd1, 0, 0, 1, 0, 0])]\<rparr>)" for x
    by (simp add: s_send_def sample_connected_fields act_bind_def frameMessage_def write_u16be_def emit_def)
  have n: "frame_handled sample_env gateway_header [9] 0 s = s\<lparr>sessNegotiating := True, sessJobs := sessJobs s @ [(sessGeneration s, [9])],
      sessOut := sessOut s @ frame_events sample_env gateway_header [9] 0 [9]\<rparr>"
    if "sessLevel2Key s = None" "\<not> sessNegotiating s" for s
    using that by (simp add: frame_handled_def Let_def f g r negotiateLevel2Key_def)
  have o: "fst (handleFrame sample_env gateway_header [9] 0 s) = Inr ()" for s
    by (simp add: handleFrame_def frame_params_def gateway_header_def CMD_NOTIFY_PAYLOAD_def CMD_CAMERA_INFO_def CMD_GATEWAYINFO_def)
  have h: "handleFrame sample_env gateway_header [9] 0 s = (Inr (), frame_handled sample_env gateway_header [9] 0 s)" for s
    using o [of s] by (simp add: handleFrame_def)
  have "snd (sessionData sample_env gateway_reply station_address sample_connected) =
    (frame_handled sample_env gateway_header [9] 0
      (sample_connected\<lparr>sessOut := sessOut sample_connected @
      [Datagram station_address (request_bytes REQ_ACK @ u16be 6 @ [0xd1, 0, 0, 1, 0, 0])],
      sessInbound := st\<lparr>pendingByDataType := (pendingByDataType st)(gateway_reply ! 5 := None)\<rparr>\<rparr>))\<lparr>sessInbound := st\<rparr>"
    by (simp only: sessionData_def act_read_def sample_connected_fields d)
      (simp add: act_bind_def a h del: request_bytes.simps)
  also have "\<dots> = sample_connected\<lparr>sessInbound := st, sessNegotiating := True, sessJobs := [(1, [9])], sessOut := 
      (sessOut sample_connected @ [Datagram station_address (request_bytes REQ_ACK @ u16be 6 @ [0xd1, 0, 0, 1, 0, 0])])
       @ frame_events sample_env gateway_header [9] 0 [9]\<rparr>"
    by (simp add: n sample_connected_fields)
  finally show ?thesis
    by (intro exI) (simp only: session_step.simps sample_connected_fields if_True m)
qed

lemma refused_state: "sessLevel2Key (session_run sample_env refused) = None \<and> sessNegotiating (session_run sample_env refused) \<and>
    sessJobs (session_run sample_env refused) = []"
proof -
  obtain inb es where g: "session_step sample_env sample_connected (Inbound gateway_reply station_address 5) =
     sample_connected\<lparr>sessInbound := inb, sessNegotiating := True, sessJobs := [(1, [9])], sessOut := es\<rparr>"
    using gateway_received by blast
  have "session_run sample_env refused = session_step sample_env
      (session_step sample_env sample_connected (Inbound gateway_reply station_address 5)) (ResolverAnswer 0 NoPrivateKey)"
    by (simp only: refused_def sample_connected_def session_run_def foldl.simps)
  then show ?thesis
    unfolding g by (simp add: resolverAnswers_def settleLevel2_def sample_connected_fields)
qed

lemma one_negotiation_per_connection_witness:
  "sessLevel2Key (session_run sample_env (refused @ [Reprompt, Inbound gateway_reply station_address 20])) = None \<and>
   sessJobs (session_run sample_env (refused @ [Reprompt, Inbound gateway_reply station_address 20])) = []"
  using one_negotiation_per_connection [of sample_env refused "[Reprompt, Inbound gateway_reply station_address 20]"]
    refused_state by simp

text \<open>
  After the reprompt a call waits again, though no datagram can bring this connection a key any more.
\<close>

lemma reprompted_wait_hopeless:
  "sessWaiters (session_run sample_env (refused @ [Reprompt, Await 7 1000 False 20])) = [7] \<and>
   (Connect \<notin> set later \<longrightarrow>
      sessLevel2Key (session_run sample_env (refused @ [Reprompt, Await 7 1000 False 20] @ later)) = None)"
proof
  obtain inb es where g: "session_step sample_env sample_connected (Inbound gateway_reply station_address 5) =
     sample_connected\<lparr>sessInbound := inb, sessNegotiating := True, sessJobs := [(1, [9])], sessOut := es\<rparr>"
    using gateway_received by blast
  have r: "session_run sample_env refused = session_step sample_env
      (session_step sample_env sample_connected (Inbound gateway_reply station_address 5)) (ResolverAnswer 0 NoPrivateKey)"
    by (simp only: refused_def sample_connected_def session_run_def foldl.simps)
  define t where "t = session_run sample_env refused"
  have f: "\<not> sessClosed t" "sessLevel2Key t = None" "\<not> sessReprompted t" "sessAddress t = Some station_address" "sessWaiters t = []"
    "sessSocket t"
    unfolding t_def r g by (simp_all add: resolverAnswers_def settleLevel2_def sample_connected_fields)
  have "cfgResolver sample_env" by (simp add: sample_env_def)
  moreover have "sendCommand CMD_GATEWAYINFO STATION_CHANNEL s = (r', s') \<Longrightarrow> sessWaiters s' = sessWaiters s \<and>
      sessPending s' = sessPending s \<and> sessClosed s' = sessClosed s \<and> sessLevel2Key s' = sessLevel2Key s" for s r' s'
    using apart.keepsD [OF sent_apart [OF sent_command [of CMD_GATEWAYINFO STATION_CHANNEL]], of s]
    by (auto simp: same_l2_def negotiation_def)
  moreover obtain r' s' where c: "sendCommand CMD_GATEWAYINFO STATION_CHANNEL
      (t\<lparr>sessReprompted := True, sessPending := True\<rparr>) = (r', s')" by fastforce
  ultimately have "sessWaiters s' = [] \<and> sessPending s' \<and> \<not> sessClosed s' \<and> sessLevel2Key s' = None"
    using f by simp
  moreover have "snd (repromptLevel2Key sample_env t) = s'"
    using f \<open>cfgResolver sample_env\<close> by (cases r') (simp_all add: repromptLevel2Key_def act_bind_def c)
  ultimately have "sessWaiters (snd (repromptLevel2Key sample_env t)) = [] \<and> sessPending (snd (repromptLevel2Key sample_env t)) \<and>
      \<not> sessClosed (snd (repromptLevel2Key sample_env t)) \<and> sessLevel2Key (snd (repromptLevel2Key sample_env t)) = None"
    by simp
  then show "sessWaiters (session_run sample_env (refused @ [Reprompt, Await 7 1000 False 20])) = [7]"
    by (simp add: session_run_def awaitLevel2Key_def flip: t_def [unfolded session_run_def])
  show "Connect \<notin> set later \<longrightarrow>
      sessLevel2Key (session_run sample_env (refused @ [Reprompt, Await 7 1000 False 20] @ later)) = None"
    using one_negotiation_per_connection [of sample_env refused "[Reprompt, Await 7 1000 False 20] @ later"]
      refused_state by simp
qed

text \<open>A gateway reply from which the sample primitives derive a key.\<close>

lemma sample_derive: "deriveLevel2KeyFromGatewayInfo (envCrypto sample_env) (replicate 133 0) ''00'' = Some (replicate 32 0x5a)"
  unfolding deriveLevel2KeyFromGatewayInfo_def eciesUnwrap_def Let_def
  by (simp add: sample_env_def sample_crypto_def slice_def)

lemma key_from_current_connection_witness:
  "\<exists>gw hex. (0, gw) \<in> set (sessJobs ((new_session sample_env)\<lparr>sessJobs := [(0, replicate 133 0)]\<rparr>)) \<and>
     deriveLevel2KeyFromGatewayInfo (envCrypto sample_env) gw hex = Some (replicate 32 0x5a)"
proof -
  let ?s = "(new_session sample_env)\<lparr>sessJobs := [(0, replicate 133 0)]\<rparr>"
  have "sessLevel2Key ?s \<noteq> Some (replicate 32 0x5a)" by (simp add: new_session_def)
  moreover have "sessLevel2Key (session_step sample_env ?s (ResolverAnswer 0 (PrivateKey ''00''))) = Some (replicate 32 0x5a)"
    unfolding session_step.simps resolverAnswers_def
    by (simp add: new_session_def Let_def sample_derive setLevel2Key_def act_bind_def emit_def settleLevel2_def)
  moreover have "sessGeneration ?s = 0" by (simp add: new_session_def)
  ultimately show ?thesis using key_from_current_connection [of ?s "replicate 32 0x5a" sample_env] by metis
qed

section \<open>A control command under the key\<close>

lemma put_command_sends:
  assumes "put_command a cmd (Inr body) s = (Inr (), s')" "sessSocket s"
  shows "\<exists>hdr pre. buildCommandHeader (sessSeq s) cmd (data_type_header DT_DATA) = Inr hdr \<and> length pre = 4 \<and>
    sessOut s' = sessOut s @ [Datagram a (pre @ hdr @ body)] \<and> sessSeq s' = (sessSeq s + 1) mod 0x10000"
proof (cases "buildCommandHeader (sessSeq s) cmd (data_type_header DT_DATA)")
  case (Inl e)
  then show ?thesis using assms by (simp add: put_command_def act_bind_def)
next
  case (Inr hdr)
  have "length (request_bytes REQ_DATA @ u16be (int (length (hdr @ body)))) = 4" by simp
  then show ?thesis
    using assms Inr
    by (auto simp: put_command_def act_bind_def next_seq_def s_send_def emit_def frameMessage_def write_u16be_def
        simp del: request_bytes.simps split: if_splits intro!: exI [of _ "request_bytes REQ_DATA @ u16be (int (length (hdr @ body)))"])
qed

lemma plain_control:
  "\<bar>cmd\<bar> < 2 ^ 53 \<Longrightarrow> \<bar>ch\<bar> < 2 ^ 53 \<Longrightarrow> \<bar>mv\<bar> < 2 ^ 53 \<Longrightarrow> plain_json p \<Longrightarrow> plain_json (control_json cmd ch acc p mv)"
  by (simp add: control_json_def)

text \<open>
  C12. A control command sent under the level-2 key arrives. Where the cipher opens what it sealed and
  the random source gives twelve bytes, a session that has its socket and its key and whose send returns
  puts exactly one datagram on the wire, to the station's address; read the way an inbound datagram is
  read, it is a frame of the set-payload command on the channel, marked as level-2, whose body decrypts
  under the same key and parses to the JSON envelope with the command, the account and the payload. The
  sequence number has moved on.
\<close>

theorem control_reaches_station:
  assumes "gcm_contract (envSeal env) (envGcm env)" "length (envRandom env (sessDraws s)) = 12"
    and "sessSocket s" "sessAddress s = Some a" "sessLevel2Key s \<noteq> None"
    and "0 \<le> ch" "ch < 256" "\<bar>cmd\<bar> < 2 ^ 53" "\<bar>mv\<bar> < 2 ^ 53" "plain_json p"
    and "sendControlLevel2 env cmd ch acc p mv s = (Inr sent, s')"
  shows "sent \<and> sessSeq s' = (sessSeq s + 1) mod 0x10000 \<and>
    (\<exists>msg h d. sessOut s' = sessOut s @ [Datagram a msg] \<and>
       parseDataFrameHeader (drop 8 msg) = Inr h \<and>
       int (commandId h) = CMD_SET_PAYLOAD \<and> channel h = nat ch \<and> signCode h = 8 \<and> bytesToRead h = length (drop 24 msg) \<and>
       decryptLevel2 env s (drop 24 msg) (signCode h) = Some d \<and>
       json_parse (string_of_bytes d) = Some (control_json cmd ch acc p mv))"
proof -
  let ?text = "bytes_of_string (json_stringify (control_json cmd ch acc p mv))"
  obtain key where k: "sessLevel2Key s = Some key" using assms(5) by blast
  obtain tag ct where t: "envSeal env key (envRandom env (sessDraws s)) GCM_AAD ?text = (tag, ct)" by fastforce
  obtain body s1 where e: "encryptLevel2 env ?text s = (Inr (Some body), s1)"
    by (simp add: encryptLevel2_def Let_def k t)
  note o = level2_open [OF assms(1,2) e]
  have run: "act_bind (put_command a CMD_SET_PAYLOAD (buildRawCommandPayload body ch 8 (0x08, 0x00) 0)) (\<lambda>_. act_return True) s1 =
      (Inr sent, s')"
    using assms(4,11) e k by (simp add: sendControlLevel2_def sendRawLevel2Bytes_def act_bind_def [of "encryptLevel2 _ _"])
  then obtain pay where pay: "buildRawCommandPayload body ch 8 (0x08, 0x00) 0 = Inr pay"
    by (cases "buildRawCommandPayload body ch 8 (0x08, 0x00) 0")
      (auto simp: put_command_def act_bind_def act_lift_def split: prod.splits sum.splits)
  from run have put: "put_command a CMD_SET_PAYLOAD (Inr pay) s1 = (Inr (), s')" and sent: sent
    by (auto simp: act_bind_def pay split: prod.splits sum.splits)
  have "sessSocket s1" "sessOut s1 = sessOut s" "sessSeq s1 = sessSeq s" using o(3) assms(3) by simp_all
  from put_command_sends [OF put this(1)] this
  obtain hdr pre where h: "buildCommandHeader (sessSeq s) CMD_SET_PAYLOAD (data_type_header DT_DATA) = Inr hdr" "length pre = 4"
    "sessOut s' = sessOut s @ [Datagram a (pre @ hdr @ pay)]" "sessSeq s' = (sessSeq s + 1) mod 0x10000" by auto
  have d8: "drop 8 (pre @ hdr @ pay) = drop 4 (hdr @ pay)" using h(2) by simp
  have "drop 24 (pre @ hdr @ pay) = drop 16 (drop 8 (pre @ hdr @ pay))" by (simp only: drop_drop) simp
  then have d24: "drop 24 (pre @ hdr @ pay) = drop 16 (drop 4 (hdr @ pay))" by (simp only: d8)
  note r = command_frame_reads [OF h(1) _ pay assms(6,7), simplified]
  have j: "json_parse (string_of_bytes ?text) = Some (control_json cmd ch acc p mv)"
    using parse_stringify [OF plain_control [of cmd ch mv p acc]] assms(6-10) by simp
  show ?thesis
    using sent h(3,4) r o(1) j d8 d24 by (intro conjI exI [of _ "pre @ hdr @ pay"]) (auto simp: CMD_SET_PAYLOAD_def)
qed

definition sample_keyed :: session where
  "sample_keyed = sample_connected\<lparr>sessLevel2Key := Some (replicate 32 1)\<rparr>"

lemma sample_control_length: "length (json_stringify (control_json 1035 0 ''u'' (JObj [(''on'', JBool True)]) 0)) < 1000"
  by code_simp

lemma sample_control_returns:
  "\<exists>s'. sendControlLevel2 sample_env 1035 0 ''u'' (JObj [(''on'', JBool True)]) 0 sample_keyed = (Inr True, s')"
proof -
  define t where "t = json_stringify (control_json 1035 0 ''u'' (JObj [(''on'', JBool True)]) 0)"
  have l: "length t < 1000" using sample_control_length by (simp add: t_def)
  have e: "envSeal sample_env k n a p = (replicate 16 0, p)" "envRandom sample_env i = replicate 12 (of_nat i)" for k n a p i
    by (simp_all add: sample_env_def)
  have "\<exists>s'. sendRawLevel2Bytes sample_env (bytes_of_string t) 0 CMD_SET_PAYLOAD 8 sample_keyed = (Inr True, s')"
    using l by (simp add: sample_keyed_def sample_connected_fields sendRawLevel2Bytes_def encryptLevel2_def Let_def e
        act_bind_def put_command_def buildCommandHeader_def buildRawCommandPayload_def write_u16be_def write_u16le_def
        CMD_SET_PAYLOAD_def next_seq_def s_send_def frameMessage_def emit_def MAGIC_WORD_def)
  then show ?thesis by (simp add: sendControlLevel2_def t_def)
qed

lemma control_reaches_station_witness:
  "\<exists>s' msg. sendControlLevel2 sample_env 1035 0 ''u'' (JObj [(''on'', JBool True)]) 0 sample_keyed = (Inr True, s') \<and>
     sessOut s' = sessOut sample_keyed @ [Datagram station_address msg]"
proof -
  obtain s' where "sendControlLevel2 sample_env 1035 0 ''u'' (JObj [(''on'', JBool True)]) 0 sample_keyed = (Inr True, s')"
    using sample_control_returns by blast
  moreover have "gcm_contract (envSeal sample_env) (envGcm sample_env)" "length (envRandom sample_env i) = 12" for i
    by (simp_all add: gcm_contract_def sample_env_def)
  moreover have "sessSocket sample_keyed" "sessAddress sample_keyed = Some station_address" "sessLevel2Key sample_keyed \<noteq> None"
    by (simp_all add: sample_keyed_def sample_connected_fields)
  moreover have "plain_json (JObj [(''on'', JBool True)])" by simp
  ultimately show ?thesis
    using control_reaches_station [of sample_env sample_keyed station_address 0 1035 0 "JObj [(''on'', JBool True)]" "''u''" True s']
    by fastforce
qed

section \<open>Datagrams that are too short\<close>

lemma u16be_at_lt: "u16be_at b i < 65536"
proof -
  have "unat (b ! i) < 256" "unat (b ! (i + 1)) < 256" by simp_all
  then show ?thesis unfolding u16be_at_def by linarith
qed

lemma sequence_read:
  "length msg < 8 \<Longrightarrow> read_u16be (slice 6 8 msg) 0 = Inl RangeError"
  "8 \<le> length msg \<Longrightarrow> \<exists>q < 65536. read_u16be (slice 6 8 msg) 0 = Inr q"
proof -
  assume "length msg < 8"
  then have "length (slice 6 8 msg) < 2" by (simp add: slice_def)
  then show "read_u16be (slice 6 8 msg) 0 = Inl RangeError" by (simp add: read_u16be_def)
next
  assume "8 \<le> length msg"
  then have "length (slice 6 8 msg) = 2" by (simp add: slice_def)
  then show "\<exists>q < 65536. read_u16be (slice 6 8 msg) 0 = Inr q"
    using u16be_at_lt by (simp add: read_u16be_def)
qed

lemma onData_short: "length msg < 8 \<Longrightarrow> onData st msg = Inl RangeError"
  by (simp only: onData_def sequence_read(1) res_bind_simps)

text \<open>A result that acknowledges with \<open>ack\<close>.\<close>

definition accepts :: "buffer \<Rightarrow> js_error + inbound \<times> buffer \<times> (p2p_header \<times> buffer \<times> byte) list \<times> gap_trace list \<Rightarrow> bool" where
  "accepts ack r \<longleftrightarrow> (\<exists>st' fs tr. r = Inr (st', ack, fs, tr))"

lemma accepts_intros:
  "accepts ack (Inr (st, ack, fs, tr))"
  "(b \<Longrightarrow> accepts ack r) \<Longrightarrow> (\<not> b \<Longrightarrow> accepts ack r') \<Longrightarrow> accepts ack (if b then r else r')"
  "(\<And>x. accepts ack (f x)) \<Longrightarrow> accepts ack (let x = y in f x)"
  "(\<And>x y. accepts ack (g x y)) \<Longrightarrow> accepts ack (case z of (x, y) \<Rightarrow> g x y)"
  by (simp_all add: accepts_def split: prod.split)

lemma onData_long:
  assumes "8 \<le> length msg"
  shows "\<exists>st' ack fs tr. onData st msg = Inr (st', ack, fs, tr) \<and> length ack = 6"
proof -
  obtain q where q: "read_u16be (slice 6 8 msg) 0 = Inr q" "q < 65536"
    using sequence_read(2) [OF assms] by blast
  let ?ack = "ackTypeHeader (msg ! 5) @ u16be 1 @ u16be (int q)"
  have a: "buildAckPayload (ackTypeHeader (msg ! 5)) (int q) = Inr ?ack"
    using q(2) by (simp add: buildAckPayload_def write_u16be_def)
  have "accepts ?ack (onData st msg)"
    unfolding onData_def q res_bind_simps
    by (subst Let_def) (unfold a res_bind_simps, intro accepts_intros)
  moreover have "length ?ack = 6" by (simp add: ackTypeHeader_def)
  ultimately show ?thesis unfolding accepts_def by blast
qed

text \<open>
  The one thing of a complete frame that throws out of the handler: a parameter report, in a notification or
  as the root of a camera's own report, with a value that has no string.
\<close>

fun stringless :: "json \<Rightarrow> bool" where
  "stringless (JObj kvs) \<longleftrightarrow> ''toString'' \<in> set (map fst kvs)"
| "stringless (JArr js) \<longleftrightarrow> list_ex stringless js"
| "stringless j \<longleftrightarrow> False"

definition stringless_entry :: "json \<Rightarrow> bool" where
  "stringless_entry e \<longleftrightarrow>
     (case (json_get ''param_type'' e, json_get ''param_value'' e) of
        (Some (JInt n), Some v) \<Rightarrow> stringless v | (Some (JFloat w), Some v) \<Rightarrow> stringless v | _ \<Rightarrow> False)"

definition stringless_report :: "json option \<Rightarrow> bool" where
  "stringless_report payload \<longleftrightarrow>
     (case Option.bind payload (json_get ''params'') of Some (JArr es) \<Rightarrow> list_ex stringless_entry es | _ \<Rightarrow> False)"

definition stringless_frame :: "session_env \<Rightarrow> session \<Rightarrow> p2p_header \<times> buffer \<times> byte \<Rightarrow> bool" where
  "stringless_frame env s f \<longleftrightarrow>
     (case f of (h, b, dt) \<Rightarrow>
        let parsed = frame_json (frame_plain env s h b) in
        int (commandId h) = CMD_NOTIFY_PAYLOAD \<and> stringless_report (Option.bind parsed (json_get ''payload'')) \<or>
        int (commandId h) \<noteq> CMD_NOTIFY_PAYLOAD \<and> int (commandId h) = CMD_CAMERA_INFO \<and> stringless_report parsed)"

text \<open>The frames a DATA datagram completes.\<close>

definition completed_frames :: "session \<Rightarrow> buffer \<Rightarrow> (p2p_header \<times> buffer \<times> byte) list" where
  "completed_frames s msg = (case onData (sessInbound s) msg of Inr (st, ack, fs, tr) \<Rightarrow> fs | Inl e \<Rightarrow> [])"

lemma foldr_results:
  "\<forall>r \<in> set rs. r = Inl TypeError \<or> (\<exists>w. r = Inr w) \<Longrightarrow>
    if Inl TypeError \<in> set rs
    then foldr (\<lambda>r rest. res_bind r (\<lambda>w. res_bind rest (\<lambda>ws. Inr (w # ws)))) rs (Inr []) = Inl TypeError
    else \<exists>ws. foldr (\<lambda>r rest. res_bind r (\<lambda>w. res_bind rest (\<lambda>ws. Inr (w # ws)))) rs (Inr []) = Inr ws"
proof (induction rs)
  case (Cons r rs)
  then show ?case by (cases r) (auto split: if_splits)
qed simp

lemma js_string_outcome: "if stringless j then js_string j = Inl TypeError else \<exists>w. js_string j = Inr w"
proof (induction j)
  case (JArr js)
  define f where "f = (\<lambda>j. if j = JNull then Inr [] else js_string j)"
  have f: "if stringless j then f j = Inl TypeError else \<exists>w. f j = Inr w" if "j \<in> set js" for j
    using JArr.IH [OF that] by (cases "j = JNull") (simp_all add: f_def)
  have ok: "\<forall>r \<in> set (map f js). r = Inl TypeError \<or> (\<exists>w. r = Inr w)"
  proof
    fix r assume "r \<in> set (map f js)"
    then obtain j where "j \<in> set js" "r = f j" by auto
    then show "r = Inl TypeError \<or> (\<exists>w. r = Inr w)" using f [of j] by (cases "stringless j") auto
  qed
  have mem: "Inl TypeError \<in> set (map f js) \<longleftrightarrow> list_ex stringless js"
  proof
    assume "Inl TypeError \<in> set (map f js)"
    then obtain j where "j \<in> set js" "f j = Inl TypeError" by auto
    then show "list_ex stringless js" using f [of j] by (cases "stringless j") (auto simp: list_ex_iff)
  next
    assume "list_ex stringless js"
    then obtain j where j: "j \<in> set js" "stringless j" by (auto simp: list_ex_iff)
    then have "f j = Inl TypeError" using f [of j] by simp
    then show "Inl TypeError \<in> set (map f js)" using j(1) by (metis image_eqI set_map)
  qed
  show ?case
    using foldr_results [OF ok] unfolding mem js_string.simps stringless.simps f_def [symmetric]
    by (cases "list_ex stringless js") auto
qed auto

lemma param_entry_outcome:
  "if stringless_entry e then param_entry e = Inl TypeError else \<exists>r. param_entry e = Inr r"
  using js_string_outcome [of "the (json_get ''param_value'' e)"]
  by (auto simp: stringless_entry_def param_entry_def split: option.splits json.splits if_splits)

lemma param_entries_outcome:
  "if list_ex stringless_entry es then reported_entries es m = Inl TypeError else \<exists>r. reported_entries es m = Inr r"
proof (induction es arbitrary: m)
  case (Cons e es)
  then show ?case using param_entry_outcome [of e] by (cases "stringless_entry e") (auto split: if_splits)
qed simp

lemma paramReport_outcome: "if stringless_report p then paramReport p = Inl TypeError else \<exists>r. paramReport p = Inr r"
  using param_entries_outcome by (auto simp: stringless_report_def paramReport_def split: option.splits json.splits)

lemma handleFrame_outcome:
  "fst (handleFrame env h b dt s) = (if stringless_frame env s (h, b, dt) then Inl TypeError else Inr ())"
proof -
  let ?p = "frame_json (frame_plain env s h b)"
  have e: "(case ?p of None \<Rightarrow> None | Some j \<Rightarrow> json_get ''payload'' j) = Option.bind ?p (json_get ''payload'')"
    by (cases ?p) simp_all
  show ?thesis
    using paramReport_outcome [of "Option.bind ?p (json_get ''payload'')"] paramReport_outcome [of ?p]
    by (auto simp: handleFrame_def stringless_frame_def frame_params_def e Let_def split: if_splits)
qed

lemma plain_same_key: "sessLevel2Key t = sessLevel2Key s \<Longrightarrow> stringless_frame env t f = stringless_frame env s f"
  by (simp add: stringless_frame_def frame_plain_def decryptLevel2_def split: prod.split)

lemma handle_all_outcome:
  "fst (handle_all env fs s) = (if \<exists>f \<in> set fs. stringless_frame env s f then Inl TypeError else Inr ())"
proof (induction fs arbitrary: s)
  case (Cons f fs)
  obtain h b dt where f: "f = (h, b, dt)" by (cases f) auto
  let ?t = "snd (handleFrame env h b dt s)"
  obtain neg jobs where "?t = s\<lparr>sessNegotiating := neg, sessJobs := jobs,
      sessOut := sessOut s @ frame_events env h b dt (frame_plain env s h b)\<rparr>"
    using frame_handled_form [of env h b dt s] by (auto simp: handleFrame_def)
  then have k: "sessLevel2Key ?t = sessLevel2Key s" by simp
  show ?case
    using Cons.IH [of ?t] handleFrame_outcome [of env h b dt s] plain_same_key [OF k]
    by (cases "handleFrame env h b dt s") (auto simp: f act_bind_def)
qed simp

text \<open>
  C30. What a DATA datagram of any content does to the handler. On a connected session one that is shorter
  than eight bytes throws \<open>RangeError\<close> out of the socket's message handler, before anything is acknowledged or
  changed; one that completes a parameter report with a value that has no string (an object with a member
  called \<open>toString\<close>, or an array that holds one) throws \<open>TypeError\<close>; and every other is taken without throwing.
  A session that is not connected ignores them all.
\<close>

theorem data_datagram_outcome:
  assumes "hasHeader msg (response_bytes RESP_DATA)"
  shows "\<exists>s'. onMessage env msg a now s =
    (if \<not> sessConnected s then (Inr (), s)
     else if length msg < 8 then (Inl RangeError, s)
     else if \<exists>f \<in> set (completed_frames s msg). stringless_frame env s f then (Inl TypeError, s')
     else (Inr (), s'))"
proof -
  have m: "onMessage env msg a now s = act_if (sessConnected s) (sessionData env msg a) s"
    using assms by (simp add: onMessage_def hasHeader_def)
  show ?thesis
  proof (cases "length msg < 8")
    case True
    have "sessionData env msg a s = (Inl RangeError, s)"
      by (simp add: sessionData_def act_bind_def onData_short [OF True])
    then show ?thesis using True by (simp add: m act_if_def)
  next
    case False
    then obtain st' ack fs tr where d: "onData (sessInbound s) msg = Inr (st', ack, fs, tr)" "length ack = 6"
      using onData_long [of msg "sessInbound s"] by auto
    have "\<exists>s1. s_send a REQ_ACK ack s = (Inr (), s1) \<and> sessLevel2Key s1 = sessLevel2Key s"
      by (simp add: s_send_def frameMessage_def write_u16be_def d(2) emit_def act_bind_def)
    then obtain s1 where s1: "s_send a REQ_ACK ack s = (Inr (), s1)" "sessLevel2Key s1 = sessLevel2Key s"
      by blast
    define s2 where "s2 = s1\<lparr>sessInbound := (if fs = [] then st'
         else st'\<lparr>pendingByDataType := (pendingByDataType st')(msg ! 5 := None)\<rparr>)\<rparr>"
    have k: "sessLevel2Key s2 = sessLevel2Key s" using s1(2) by (simp add: s2_def)
    have "fst (sessionData env msg a s) = fst (handle_all env fs s2)"
      by (cases "handle_all env fs s2") (auto simp: sessionData_def act_bind_def d(1) s1(1) s2_def split: sum.split)
    then have "fst (sessionData env msg a s) =
        (if \<exists>f \<in> set (completed_frames s msg). stringless_frame env s f then Inl TypeError else Inr ())"
      by (simp add: handle_all_outcome plain_same_key [OF k] completed_frames_def d(1))
    then show ?thesis using False
      by (cases "sessionData env msg a s") (auto simp: m act_if_def)
  qed
qed

text \<open>So a camera's report throws where a value hides its \<open>toString\<close>.\<close>

lemma report_throws:
  "paramReport (Some (JObj [(''params'', JArr [JObj [(''param_type'', JInt 1101),
     (''param_value'', JObj [(''toString'', JInt 1)])]])])) = Inl TypeError"
  by (simp add: paramReport_def json_get_def param_entry_def)

lemma data_datagram_outcome_witness:
  "onMessage sample_env [0xf1, 0xd0, 0, 0] station_address 5 sample_connected = (Inl RangeError, sample_connected)"
  using data_datagram_outcome [of "[0xf1, 0xd0, 0, 0]" sample_env station_address 5 sample_connected]
  by (simp add: hasHeader_def sample_connected_fields)

end
