(* ===== verification/Session_Manager.thy ===== *)
theory Session_Manager
  imports Eufy_Prelude "HOL-Library.Multiset"
begin

text \<open>
  \<open>src/transport/p2p/session-manager.ts\<close>: the registry of P2P sessions by station, which decides when a
  session is open. Lifecycle entries are objects with an identity, because an open that is awaited and a
  hold that counts down refer to the entry they began on, which by then may have been replaced: entries live in a
  store, and the registry maps serials to them. Sessions, factories, timers and callers are numbers; a
  promise that settles is an entry of the log.
\<close>

section \<open>State\<close>

definition BATTERY_IDLE_MS :: int where "BATTERY_IDLE_MS = 300000"
definition COMMAND_KEEPALIVE_MS :: int where "COMMAND_KEEPALIVE_MS = 15000"
definition PREWARM_MS :: int where "PREWARM_MS = 28000"

datatype power_tier = Wired | Battery

text \<open>An entry. The idle timer remembers its serial and window; a pending reset, its callers.\<close>

record session_entry =
  enSession :: "nat option"
  enRetained :: nat
  enHolds :: "nat list"
  enReset :: "nat list option"
  enIdle :: "(string \<times> int) option"
  enConnecting :: "nat option"

datatype manager_out =
    AutoClosed string
  | SessionClose nat
  | Acquired nat nat
  | AcquireFailed nat
  | AcquireSuperseded nat
  | ReleaseRefused string
  | Settled nat bool
  | AllSettled nat nat

text \<open>
  A factory that runs: its serial, its entry, the manager's generation when it began, the caller that began
  it and those that joined. A timer of a hold: its entry, serial and window. A close that is awaited: its
  entry and the callers of the very call, beside those of a pending reset, which the entry keeps. A
  \<open>closeAll\<close>: its caller, the entries whose close it awaits and the failures so far.
\<close>

record opening_entry =
  opSerial :: string
  opEntry :: nat
  opGeneration :: nat
  opCaller :: nat
  opJoined :: "nat list"

record manager =
  mgEntries :: "(string \<times> nat) list"
  mgStore :: "nat \<Rightarrow> session_entry"
  mgNext :: nat
  mgGeneration :: nat
  mgTimers :: "(nat \<times> nat \<times> string \<times> int) list"
  mgNextTimer :: nat
  mgOpens :: "(nat \<times> opening_entry) list"
  mgSuperseded :: "(nat \<times> opening_entry) list"
  mgNextOpen :: nat
  mgClosing :: "(nat \<times> nat list) list"
  mgAlls :: "(nat \<times> nat list \<times> nat) list"
  mgTier :: "string \<Rightarrow> power_tier"
  mgLog :: "manager_out list"

record manager_opts =
  optBatteryIdleMs :: "int option"
  optCommandKeepAliveMs :: "int option"

definition new_entry :: session_entry where
  "new_entry = \<lparr>enSession = None, enRetained = 0, enHolds = [], enReset = None, enIdle = None, enConnecting = None\<rparr>"

definition new_manager :: "(string \<Rightarrow> power_tier) \<Rightarrow> manager" where
  "new_manager tier =
     \<lparr>mgEntries = [], mgStore = \<lambda>_. new_entry, mgNext = 0, mgGeneration = 0, mgTimers = [], mgNextTimer = 0,
      mgOpens = [], mgSuperseded = [], mgNextOpen = 0, mgClosing = [], mgAlls = [], mgTier = tier, mgLog = []\<rparr>"

definition sm_log :: "manager_out \<Rightarrow> manager \<Rightarrow> manager" where
  "sm_log x m = m\<lparr>mgLog := mgLog m @ [x]\<rparr>"

definition at_entry :: "nat \<Rightarrow> (session_entry \<Rightarrow> session_entry) \<Rightarrow> manager \<Rightarrow> manager" where
  "at_entry e f m = m\<lparr>mgStore := (mgStore m)(e := f (mgStore m e))\<rparr>"

section \<open>The registry\<close>

definition sm_get :: "string \<Rightarrow> manager \<Rightarrow> nat option" where
  "sm_get sn m = (case map_of (mgEntries m) sn of None \<Rightarrow> None | Some e \<Rightarrow> enSession (mgStore m e))"

definition sm_liveSessions :: "manager \<Rightarrow> (string \<times> nat) list" where
  "sm_liveSessions m =
     List.map_filter (\<lambda>(sn, e). map_option (Pair sn) (enSession (mgStore m e))) (mgEntries m)"

definition sm_keys :: "manager \<Rightarrow> string list" where
  "sm_keys m = map fst (filter (\<lambda>(sn, e). enSession (mgStore m e) \<noteq> None) (mgEntries m))"

text \<open>\<open>entry\<close>: the entry of a serial, made when there is none.\<close>

definition sm_entry :: "string \<Rightarrow> manager \<Rightarrow> nat \<times> manager" where
  "sm_entry sn m =
     (case map_of (mgEntries m) sn of
        Some e \<Rightarrow> (e, m)
      | None \<Rightarrow> (mgNext m, m\<lparr>mgEntries := mgEntries m @ [(sn, mgNext m)], mgNext := mgNext m + 1,
                              mgStore := (mgStore m)(mgNext m := new_entry)\<rparr>))"

definition sm_register :: "string \<Rightarrow> nat \<Rightarrow> manager \<Rightarrow> manager" where
  "sm_register sn sess m = (let (e, m1) = sm_entry sn m in at_entry e (\<lambda>x. x\<lparr>enSession := Some sess\<rparr>) m1)"

text \<open>
  \<open>discard\<close>: the entry leaves the registry, and its idle timer and its holds die with it.
\<close>

definition sm_discard :: "string \<Rightarrow> manager \<Rightarrow> (nat \<times> manager) option" where
  "sm_discard sn m =
     map_option (\<lambda>e. (e, (at_entry e (\<lambda>x. x\<lparr>enIdle := None, enHolds := []\<rparr>) m)
         \<lparr>mgTimers := filter (\<lambda>(t, _). t \<notin> set (enHolds (mgStore m e))) (mgTimers m),
          mgEntries := filter (\<lambda>(k, _). k \<noteq> sn) (mgEntries m)\<rparr>))
       (map_of (mgEntries m) sn)"

definition reset_callers :: "session_entry \<Rightarrow> nat list" where
  "reset_callers x = (case enReset x of None \<Rightarrow> [] | Some cs \<Rightarrow> cs)"

definition settle :: "nat list \<Rightarrow> bool \<Rightarrow> manager \<Rightarrow> manager" where
  "settle cs ok m = m\<lparr>mgLog := mgLog m @ map (\<lambda>c. Settled c ok) cs\<rparr>"

definition sm_settleReset :: "nat \<Rightarrow> bool \<Rightarrow> manager \<Rightarrow> manager" where
  "sm_settleReset e ok m = at_entry e (\<lambda>x. x\<lparr>enReset := None\<rparr>) (settle (reset_callers (mgStore m e)) ok m)"

text \<open>\<open>closeEntry\<close> up to its \<open>await\<close>, for the callers \<open>cs\<close>, and from there on.\<close>

definition sm_closeEntry :: "nat \<Rightarrow> nat list \<Rightarrow> manager \<Rightarrow> manager" where
  "sm_closeEntry e cs m =
     (let m1 = (case enSession (mgStore m e) of None \<Rightarrow> m | Some s \<Rightarrow> sm_log (SessionClose s) m)
      in m1\<lparr>mgClosing := mgClosing m1 @ [(e, cs)]\<rparr>)"

definition close_alls :: "nat \<Rightarrow> bool \<Rightarrow> manager \<Rightarrow> manager" where
  "close_alls e ok m =
     (let alls = map (\<lambda>(c, es, n). if e \<in> set es then (c, remove1 e es, if ok then n else n + 1) else (c, es, n)) (mgAlls m)
      in m\<lparr>mgAlls := filter (\<lambda>(c, es, n). es \<noteq> []) alls,
           mgLog := mgLog m @ List.map_filter (\<lambda>(c, es, n). if es = [] then Some (AllSettled c n) else None) alls\<rparr>)"

definition sm_entryClosed :: "nat \<Rightarrow> bool \<Rightarrow> manager \<Rightarrow> manager" where
  "sm_entryClosed e ok m =
     (case map_of (mgClosing m) e of
        None \<Rightarrow> m
      | Some cs \<Rightarrow>
          (let done_ok = (ok \<or> enSession (mgStore m e) = None)
           in close_alls e done_ok (settle cs done_ok (sm_settleReset e done_ok
                (m\<lparr>mgClosing := filter (\<lambda>(k, _). k \<noteq> e) (mgClosing m)\<rparr>)))))"

definition sm_autoClose :: "string \<Rightarrow> nat list \<Rightarrow> manager \<Rightarrow> manager" where
  "sm_autoClose sn cs m =
     (case sm_discard sn m of
        None \<Rightarrow> settle cs True m
      | Some (e, m1) \<Rightarrow>
          sm_closeEntry e cs (if enSession (mgStore m1 e) \<noteq> None then sm_log (AutoClosed sn) m1 else m1))"

definition sm_remove :: "string \<Rightarrow> manager \<Rightarrow> manager" where
  "sm_remove sn m = (case sm_discard sn m of None \<Rightarrow> m | Some (e, m1) \<Rightarrow> sm_settleReset e True m1)"

definition sm_close :: "string \<Rightarrow> nat \<Rightarrow> manager \<Rightarrow> manager" where
  "sm_close sn c m = (case sm_discard sn m of None \<Rightarrow> settle [c] True m | Some (e, m1) \<Rightarrow> sm_closeEntry e [c] m1)"

definition sm_resetWhenUnused :: "string \<Rightarrow> nat \<Rightarrow> manager \<Rightarrow> manager" where
  "sm_resetWhenUnused sn c m =
     (case map_of (mgEntries m) sn of
        None \<Rightarrow> settle [c] True m
      | Some e \<Rightarrow>
          if enRetained (mgStore m e) \<le> length (enHolds (mgStore m e)) then sm_autoClose sn [c] m
          else at_entry e (\<lambda>x. x\<lparr>enReset := Some (reset_callers x @ [c])\<rparr>) m)"

text \<open>\<open>closeAll\<close>: every entry is discarded first, then each is closed.\<close>

fun discard_all :: "string list \<Rightarrow> manager \<Rightarrow> nat list \<times> manager" where
  "discard_all [] m = ([], m)"
| "discard_all (sn # sns) m =
     (case sm_discard sn m of
        None \<Rightarrow> discard_all sns m
      | Some (e, m1) \<Rightarrow> (case discard_all sns m1 of (es, m2) \<Rightarrow> (e # es, m2)))"

definition sm_closeAll :: "nat \<Rightarrow> manager \<Rightarrow> manager" where
  "sm_closeAll c m =
     (let (es, m1) = discard_all (map fst (mgEntries m)) (m\<lparr>mgGeneration := mgGeneration m + 1\<rparr>);
          m2 = foldl (\<lambda>m e. sm_closeEntry e [] m) m1 es
      in if es = [] then sm_log (AllSettled c 0) m2 else m2\<lparr>mgAlls := mgAlls m2 @ [(c, es, 0)]\<rparr>)"

section \<open>Opening\<close>

text \<open>
  \<open>acquire\<close> up to its \<open>await\<close>. A caller that finds an open in flight is given the factory's own promise.
\<close>

definition sm_acquire :: "string \<Rightarrow> nat \<Rightarrow> manager \<Rightarrow> manager" where
  "sm_acquire sn c m =
     (let (e, m1) = sm_entry sn m in
      case enConnecting (mgStore m1 e) of
        Some i \<Rightarrow>
          m1\<lparr>mgOpens := map (\<lambda>(k, p). (k, if k = i then p\<lparr>opJoined := opJoined p @ [c]\<rparr> else p)) (mgOpens m1)\<rparr>
      | None \<Rightarrow>
          (case enSession (mgStore m1 e) of
             Some s \<Rightarrow> sm_log (Acquired c s) m1
           | None \<Rightarrow>
               (at_entry e (\<lambda>x. x\<lparr>enConnecting := Some (mgNextOpen m1)\<rparr>) m1)
               \<lparr>mgNextOpen := mgNextOpen m1 + 1,
                mgOpens := mgOpens m1 @ [(mgNextOpen m1, \<lparr>opSerial = sn, opEntry = e, opGeneration = mgGeneration m1,
                             opCaller = c, opJoined = []\<rparr>)]\<rparr>))"

text \<open>The factory registers the session it built on the entry it was called for.\<close>

definition sm_factoryRegisters :: "nat \<Rightarrow> nat \<Rightarrow> manager \<Rightarrow> manager" where
  "sm_factoryRegisters i sess m =
     (case map_of (mgOpens m) i of
        None \<Rightarrow> m
      | Some p \<Rightarrow> at_entry (opEntry p) (\<lambda>x. x\<lparr>enSession := Some sess\<rparr>) m)"

text \<open>The \<open>finally\<close> of an open.\<close>

definition open_over :: "nat \<Rightarrow> opening_entry \<Rightarrow> manager \<Rightarrow> manager" where
  "open_over i p m =
     at_entry (opEntry p) (\<lambda>x. if enConnecting x = Some i then x\<lparr>enConnecting := None\<rparr> else x) m"

definition superseded :: "opening_entry \<Rightarrow> manager \<Rightarrow> bool" where
  "superseded p m \<longleftrightarrow> opGeneration p \<noteq> mgGeneration m \<or> map_of (mgEntries m) (opSerial p) \<noteq> Some (opEntry p)"

definition sm_factoryDone :: "nat \<Rightarrow> nat \<Rightarrow> manager \<Rightarrow> manager" where
  "sm_factoryDone i sess m =
     (case map_of (mgOpens m) i of
        None \<Rightarrow> m
      | Some p \<Rightarrow>
          (let m1 = m\<lparr>mgOpens := filter (\<lambda>(k, _). k \<noteq> i) (mgOpens m),
                      mgLog := mgLog m @ map (\<lambda>c. Acquired c sess) (opJoined p)\<rparr>
           in if superseded p m
              then (sm_log (SessionClose sess) m1)\<lparr>mgSuperseded := mgSuperseded m1 @ [(i, p)]\<rparr>
              else
                (let m2 = at_entry (opEntry p) (\<lambda>x. if enSession x = None then x\<lparr>enSession := Some sess\<rparr> else x) m1
                 in open_over i p (sm_log (Acquired (opCaller p) (the (enSession (mgStore m2 (opEntry p))))) m2))))"

definition sm_factoryFails :: "nat \<Rightarrow> manager \<Rightarrow> manager" where
  "sm_factoryFails i m =
     (case map_of (mgOpens m) i of
        None \<Rightarrow> m
      | Some p \<Rightarrow> open_over i p
          (m\<lparr>mgOpens := filter (\<lambda>(k, _). k \<noteq> i) (mgOpens m),
             mgLog := mgLog m @ map AcquireFailed (opJoined p) @ [AcquireFailed (opCaller p)]\<rparr>))"

text \<open>The session of a superseded open has closed, or failed to.\<close>

definition sm_supersededClosed :: "nat \<Rightarrow> bool \<Rightarrow> manager \<Rightarrow> manager" where
  "sm_supersededClosed i ok m =
     (case map_of (mgSuperseded m) i of
        None \<Rightarrow> m
      | Some p \<Rightarrow> open_over i p
          (sm_log (if ok then AcquireSuperseded (opCaller p) else AcquireFailed (opCaller p))
             (m\<lparr>mgSuperseded := filter (\<lambda>(k, _). k \<noteq> i) (mgSuperseded m)\<rparr>)))"

section \<open>Reasons to stay connected\<close>

definition sm_retain :: "string \<Rightarrow> manager \<Rightarrow> manager" where
  "sm_retain sn m =
     (let (e, m1) = sm_entry sn m in at_entry e (\<lambda>x. x\<lparr>enRetained := enRetained x + 1, enIdle := None\<rparr>) m1)"

definition sm_armIdle :: "manager_opts \<Rightarrow> string \<Rightarrow> nat \<Rightarrow> manager \<Rightarrow> manager" where
  "sm_armIdle opts sn e m =
     (let idleMs = (case optBatteryIdleMs opts of None \<Rightarrow> BATTERY_IDLE_MS | Some n \<Rightarrow> n)
      in at_entry e (\<lambda>x. x\<lparr>enIdle := (if mgTier m sn \<noteq> Battery then None else Some (sn, idleMs))\<rparr>) m)"

text \<open>A release that nothing earned is refused; the last reason to go arms the idle timer.\<close>

definition sm_release :: "manager_opts \<Rightarrow> string \<Rightarrow> manager \<Rightarrow> manager" where
  "sm_release opts sn m =
     (case map_of (mgEntries m) sn of
        None \<Rightarrow> m
      | Some e \<Rightarrow>
          if enRetained (mgStore m e) = 0 then sm_log (ReleaseRefused sn) m
          else
            (let m1 = at_entry e (\<lambda>x. x\<lparr>enRetained := enRetained x - 1\<rparr>) m; x = mgStore m1 e
             in if enReset x \<noteq> None \<and> enRetained x \<le> length (enHolds x) then sm_autoClose sn [] m1
                else if enRetained x = 0 then sm_armIdle opts sn e m1 else m1))"

definition sm_hold :: "string \<Rightarrow> int \<Rightarrow> manager \<Rightarrow> manager" where
  "sm_hold sn ms m =
     (let (e, m0) = sm_entry sn m; m1 = sm_retain sn m0
      in (at_entry e (\<lambda>x. x\<lparr>enHolds := enHolds x @ [mgNextTimer m1]\<rparr>) m1)
         \<lparr>mgTimers := mgTimers m1 @ [(mgNextTimer m1, e, sn, ms)], mgNextTimer := mgNextTimer m1 + 1\<rparr>)"

definition sm_bumpCommand :: "manager_opts \<Rightarrow> string \<Rightarrow> manager \<Rightarrow> manager" where
  "sm_bumpCommand opts sn m =
     sm_hold sn (case optCommandKeepAliveMs opts of None \<Rightarrow> COMMAND_KEEPALIVE_MS | Some n \<Rightarrow> n) m"

text \<open>A hold runs out; an idle window elapses.\<close>

definition sm_holdExpires :: "manager_opts \<Rightarrow> nat \<Rightarrow> manager \<Rightarrow> manager" where
  "sm_holdExpires opts t m =
     (case map_of (mgTimers m) t of
        None \<Rightarrow> m
      | Some (e, sn, ms) \<Rightarrow>
          sm_release opts sn
            ((at_entry e (\<lambda>x. x\<lparr>enHolds := remove1 t (enHolds x)\<rparr>) m)\<lparr>mgTimers := filter (\<lambda>(k, _). k \<noteq> t) (mgTimers m)\<rparr>))"

definition sm_onIdle :: "string \<Rightarrow> manager \<Rightarrow> manager" where
  "sm_onIdle sn m =
     (case map_of (mgEntries m) sn of
        None \<Rightarrow> m
      | Some e \<Rightarrow> if enRetained (mgStore m e) > 0 then m else sm_autoClose sn [] m)"

definition sm_idleFires :: "nat \<Rightarrow> manager \<Rightarrow> manager" where
  "sm_idleFires e m =
     (case enIdle (mgStore m e) of
        None \<Rightarrow> m
      | Some (sn, ms) \<Rightarrow> sm_onIdle sn (at_entry e (\<lambda>x. x\<lparr>enIdle := None\<rparr>) m))"

section \<open>The manager's life\<close>

datatype manager_event =
    Register string nat
  | Acquire string nat
  | FactoryRegisters nat nat
  | FactoryDone nat nat
  | FactoryFails nat
  | SupersededClosed nat bool
  | Retain string
  | Release string
  | Hold string int
  | BumpCommand string
  | HoldExpires nat
  | IdleFires nat
  | Remove string
  | CloseStation string nat
  | ResetWhenUnused string nat
  | CloseAll nat
  | EntryClosed nat bool
  | Tier string power_tier

fun manager_step :: "manager_opts \<Rightarrow> manager \<Rightarrow> manager_event \<Rightarrow> manager" where
  "manager_step opts m (Register sn s) = sm_register sn s m"
| "manager_step opts m (Acquire sn c) = sm_acquire sn c m"
| "manager_step opts m (FactoryRegisters i s) = sm_factoryRegisters i s m"
| "manager_step opts m (FactoryDone i s) = sm_factoryDone i s m"
| "manager_step opts m (FactoryFails i) = sm_factoryFails i m"
| "manager_step opts m (SupersededClosed i ok) = sm_supersededClosed i ok m"
| "manager_step opts m (Retain sn) = sm_retain sn m"
| "manager_step opts m (Release sn) = sm_release opts sn m"
| "manager_step opts m (Hold sn ms) = sm_hold sn ms m"
| "manager_step opts m (BumpCommand sn) = sm_bumpCommand opts sn m"
| "manager_step opts m (HoldExpires t) = sm_holdExpires opts t m"
| "manager_step opts m (IdleFires e) = sm_idleFires e m"
| "manager_step opts m (Remove sn) = sm_remove sn m"
| "manager_step opts m (CloseStation sn c) = sm_close sn c m"
| "manager_step opts m (ResetWhenUnused sn c) = sm_resetWhenUnused sn c m"
| "manager_step opts m (CloseAll c) = sm_closeAll c m"
| "manager_step opts m (EntryClosed e ok) = sm_entryClosed e ok m"
| "manager_step opts m (Tier sn t) = m\<lparr>mgTier := (mgTier m)(sn := t)\<rparr>"

definition manager_run :: "manager_opts \<Rightarrow> (string \<Rightarrow> power_tier) \<Rightarrow> manager_event list \<Rightarrow> manager" where
  "manager_run opts tier evs = foldl (manager_step opts) (new_manager tier) evs"

section \<open>What is always true of the registry\<close>

definition registered :: "manager \<Rightarrow> nat \<Rightarrow> bool" where
  "registered m e \<longleftrightarrow> e \<in> snd ` set (mgEntries m)"

lemma registered_simps [simp]:
  "registered (m\<lparr>mgStore := st\<rparr>) = registered m" "registered (m\<lparr>mgTimers := ts\<rparr>) = registered m"
  "registered (m\<lparr>mgNextTimer := n\<rparr>) = registered m" "registered (m\<lparr>mgClosing := cs\<rparr>) = registered m"
  "registered (m\<lparr>mgLog := es\<rparr>) = registered m" "registered (at_entry e f m) = registered m"
  by (simp_all add: registered_def at_entry_def fun_eq_iff)

text \<open>One entry: its holds are the running timers that refer to it.\<close>

definition entry_ok :: "manager \<Rightarrow> nat \<Rightarrow> bool" where
  "entry_ok m e \<longleftrightarrow>
     set (enHolds (mgStore m e)) = {t. \<exists>sn ms. (t, e, sn, ms) \<in> set (mgTimers m)} \<and>
     distinct (enHolds (mgStore m e)) \<and>
     (\<forall>sn ms. enIdle (mgStore m e) = Some (sn, ms) \<longrightarrow> (sn, e) \<in> set (mgEntries m) \<and> enRetained (mgStore m e) = 0) \<and>
     (enReset (mgStore m e) \<noteq> None \<longrightarrow>
       (if registered m e then length (enHolds (mgStore m e)) < enRetained (mgStore m e) else e \<in> fst ` set (mgClosing m)))"

definition registry_ok :: "manager \<Rightarrow> bool" where
  "registry_ok m \<longleftrightarrow>
     distinct (map fst (mgEntries m)) \<and> distinct (map snd (mgEntries m)) \<and>
     (\<forall>e. registered m e \<longrightarrow> e < mgNext m) \<and>
     distinct (map fst (mgTimers m)) \<and>
     (\<forall>(t, e, sn, ms) \<in> set (mgTimers m). t < mgNextTimer m \<and> (sn, e) \<in> set (mgEntries m)) \<and>
     distinct (map fst (mgClosing m)) \<and>
     (\<forall>e \<in> fst ` set (mgClosing m). e < mgNext m \<and> \<not> registered m e)"

definition manager_ok :: "manager \<Rightarrow> bool" where
  "manager_ok m \<longleftrightarrow> registry_ok m \<and> (\<forall>e. entry_ok m e)"

lemma manager_okD: "manager_ok m \<Longrightarrow> registry_ok m" "manager_ok m \<Longrightarrow> entry_ok m e"
  by (simp_all add: manager_ok_def)

lemma entry_of_serial: "registry_ok m \<Longrightarrow> map_of (mgEntries m) sn = Some e \<longleftrightarrow> (sn, e) \<in> set (mgEntries m)"
  by (simp add: registry_ok_def)

lemma entry_unique: "registry_ok m \<Longrightarrow> (sn, e) \<in> set (mgEntries m) \<Longrightarrow> (sn', e) \<in> set (mgEntries m) \<Longrightarrow> sn' = sn"
proof -
  assume "registry_ok m" and a: "(sn, e) \<in> set (mgEntries m)" "(sn', e) \<in> set (mgEntries m)"
  then have "inj_on snd (set (mgEntries m))" by (simp add: registry_ok_def distinct_map)
  from inj_onD [OF this _ a] show "sn' = sn" by simp
qed

lemma registry_timer:
  assumes "registry_ok m" "(t, e, sn, ms) \<in> set (mgTimers m)"
  shows "t < mgNextTimer m \<and> (sn, e) \<in> set (mgEntries m)"
proof -
  have "\<forall>(t, e, sn, ms) \<in> set (mgTimers m). t < mgNextTimer m \<and> (sn, e) \<in> set (mgEntries m)"
    using assms(1) unfolding registry_ok_def by (elim conjE)
  from bspec [OF this assms(2)] show ?thesis by simp
qed

lemma serial_unique:
  "registry_ok m \<Longrightarrow> (sn, e) \<in> set (mgEntries m) \<Longrightarrow> (k, e') \<in> set (mgEntries m) \<Longrightarrow> k = sn \<longleftrightarrow> e' = e"
  using entry_unique [of m sn e k] eq_key_imp_eq_value [of "mgEntries m" sn e e'] by (auto simp: registry_ok_def)

lemma ok_new: "manager_ok (new_manager tier)"
  by (simp add: manager_ok_def registry_ok_def entry_ok_def registered_def new_manager_def new_entry_def)

text \<open>A change of the log alone, and one entry changed in place.\<close>

lemma ok_ext:
  "mgEntries m' = mgEntries m \<Longrightarrow> mgStore m' = mgStore m \<Longrightarrow> mgNext m' = mgNext m \<Longrightarrow> mgTimers m' = mgTimers m \<Longrightarrow>
    mgNextTimer m' = mgNextTimer m \<Longrightarrow> mgClosing m' = mgClosing m \<Longrightarrow> manager_ok m' = manager_ok m"
  by (simp add: manager_ok_def registry_ok_def entry_ok_def registered_def)

lemma ok_at:
  assumes "manager_ok m"
    and "enHolds (f (mgStore m e)) = enHolds (mgStore m e)"
    and "\<And>sn ms. enIdle (f (mgStore m e)) = Some (sn, ms) \<Longrightarrow> (sn, e) \<in> set (mgEntries m) \<and> enRetained (f (mgStore m e)) = 0"
    and "enReset (f (mgStore m e)) \<noteq> None \<Longrightarrow>
      if registered m e then length (enHolds (mgStore m e)) < enRetained (f (mgStore m e)) else e \<in> fst ` set (mgClosing m)"
  shows "manager_ok (at_entry e f m)"
  using assms by (auto simp: manager_ok_def registry_ok_def entry_ok_def registered_def at_entry_def)

lemma ok_entry:
  assumes "manager_ok m" "sm_entry sn m = (e, m1)"
  shows "manager_ok m1" "(sn, e) \<in> set (mgEntries m1)" "set (mgEntries m) \<subseteq> set (mgEntries m1)"
    "mgLog m1 = mgLog m" "mgClosing m1 = mgClosing m"
proof -
  have r: "registry_ok m" using assms(1) by (rule manager_okD)
  have ok: "\<forall>e. entry_ok m e" using assms(1) by (simp add: manager_ok_def)
  show "manager_ok m1"
  proof (cases "map_of (mgEntries m) sn")
    case (Some e')
    then show ?thesis using assms by (simp add: sm_entry_def)
  next
    case None
    then have m1: "m1 = m\<lparr>mgEntries := mgEntries m @ [(sn, mgNext m)], mgNext := mgNext m + 1,
        mgStore := (mgStore m)(mgNext m := new_entry)\<rparr>"
      using assms(2) by (auto simp: sm_entry_def)
    have fresh: "\<not> registered m (mgNext m)" "mgNext m \<notin> fst ` set (mgClosing m)"
      using r by (auto simp: registry_ok_def)
    have sn: "sn \<notin> fst ` set (mgEntries m)" using None by (simp add: map_of_eq_None_iff)
    have "registry_ok m1"
      using r fresh sn by (auto simp: registry_ok_def m1 registered_def less_Suc_eq)
    moreover have "entry_ok m1 e'" for e'
    proof (cases "e' = mgNext m")
      case True
      have "(t, mgNext m, s, ms) \<notin> set (mgTimers m)" for t s ms
        using r fresh(1) by (fastforce simp: registry_ok_def registered_def)
      then show ?thesis using True by (simp add: entry_ok_def m1 new_entry_def)
    next
      case False
      then show ?thesis using ok by (auto simp: entry_ok_def m1 registered_def)
    qed
    ultimately show ?thesis by (simp add: manager_ok_def)
  qed
  show "(sn, e) \<in> set (mgEntries m1)" "set (mgEntries m) \<subseteq> set (mgEntries m1)" "mgLog m1 = mgLog m" "mgClosing m1 = mgClosing m"
    using assms(2) by (auto simp: sm_entry_def map_of_SomeD split: option.splits)
qed

text \<open>The registry between the discarding of the entries \<open>E\<close> and the settling of their closes.\<close>

definition stranded :: "manager \<Rightarrow> nat \<Rightarrow> bool" where
  "stranded m e \<longleftrightarrow> \<not> registered m e \<and> e < mgNext m \<and> e \<notin> fst ` set (mgClosing m) \<and>
     enHolds (mgStore m e) = [] \<and> enIdle (mgStore m e) = None \<and> (\<forall>t sn ms. (t, e, sn, ms) \<notin> set (mgTimers m))"

definition between :: "manager \<Rightarrow> nat set \<Rightarrow> bool" where
  "between m E \<longleftrightarrow> registry_ok m \<and> (\<forall>e. e \<notin> E \<longrightarrow> entry_ok m e) \<and>
     (\<forall>e \<in> E. stranded m e)"

lemma between_none: "between m {} = manager_ok m"
  by (simp add: between_def manager_ok_def)

lemma between_ext:
  "mgEntries m' = mgEntries m \<Longrightarrow> mgStore m' = mgStore m \<Longrightarrow> mgNext m' = mgNext m \<Longrightarrow> mgTimers m' = mgTimers m \<Longrightarrow>
    mgNextTimer m' = mgNextTimer m \<Longrightarrow> mgClosing m' = mgClosing m \<Longrightarrow> between m' E = between m E"
  by (simp add: between_def registry_ok_def entry_ok_def registered_def stranded_def)

lemma discard_some:
  "sm_discard sn m = Some (e, m1) \<longleftrightarrow> map_of (mgEntries m) sn = Some e \<and>
     m1 = m\<lparr>mgStore := (mgStore m)(e := (mgStore m e)\<lparr>enIdle := None, enHolds := []\<rparr>),
       mgTimers := filter (\<lambda>(t, _). t \<notin> set (enHolds (mgStore m e))) (mgTimers m),
       mgEntries := filter (\<lambda>(k, _). k \<noteq> sn) (mgEntries m)\<rparr>"
  by (auto simp: sm_discard_def at_entry_def)

lemma registered_filter:
  "registry_ok m \<Longrightarrow> (sn, e) \<in> set (mgEntries m) \<Longrightarrow>
    e' \<in> snd ` set (filter (\<lambda>(k, _). k \<noteq> sn) (mgEntries m)) \<longleftrightarrow> registered m e' \<and> e' \<noteq> e"
proof -
  assume r: "registry_ok m" and e: "(sn, e) \<in> set (mgEntries m)"
  have "(k, e') \<in> set (mgEntries m) \<Longrightarrow> k \<noteq> sn \<longleftrightarrow> e' \<noteq> e" for k
    using serial_unique [OF r e] by auto
  then show ?thesis by (force simp: registered_def)
qed

lemma between_discard:
  assumes "between m E" "sm_discard sn m = Some (e, m1)"
  shows "between m1 (insert e E)" "e \<notin> E"
proof -
  have r: "registry_ok m" using assms(1) by (simp add: between_def)
  have e: "(sn, e) \<in> set (mgEntries m)" and m1: "m1 = m\<lparr>mgStore := (mgStore m)(e := (mgStore m e)\<lparr>enIdle := None, enHolds := []\<rparr>),
       mgTimers := filter (\<lambda>(t, _). t \<notin> set (enHolds (mgStore m e))) (mgTimers m),
       mgEntries := filter (\<lambda>(k, _). k \<noteq> sn) (mgEntries m)\<rparr>"
    using assms(2) by (auto simp: discard_some map_of_SomeD)
  then have reg: "registered m e" by (force simp: registered_def)
  then show eE: "e \<notin> E" using assms(1) by (auto simp: between_def stranded_def)
  have ok: "e' \<notin> E \<Longrightarrow> entry_ok m e'" for e' using assms(1) by (simp add: between_def)
  have holds: "set (enHolds (mgStore m e)) = {t. \<exists>sn ms. (t, e, sn, ms) \<in> set (mgTimers m)}"
    using ok [OF eE] by (simp add: entry_ok_def)
  have timers: "(t, e', s, ms) \<in> set (mgTimers m1) \<longleftrightarrow> (t, e', s, ms) \<in> set (mgTimers m) \<and> e' \<noteq> e" for t e' s ms
  proof -
    have inj: "(t, x) \<in> set (mgTimers m) \<Longrightarrow> (t, y) \<in> set (mgTimers m) \<Longrightarrow> x = y" for x y
      using r by (auto simp: registry_ok_def dest: eq_key_imp_eq_value)
    have "(t, e', s, ms) \<in> set (mgTimers m) \<Longrightarrow> t \<notin> set (enHolds (mgStore m e)) \<longleftrightarrow> e' \<noteq> e"
      using inj [of "(e', s, ms)"] by (auto simp: holds)
    then show ?thesis by (auto simp: m1)
  qed
  have reg1: "registered m1 e' \<longleftrightarrow> registered m e' \<and> e' \<noteq> e" for e'
    using registered_filter [OF r e, of e'] by (simp add: registered_def m1)
  have entries: "set (mgEntries m1) = {p \<in> set (mgEntries m). fst p \<noteq> sn}" by (auto simp: m1)
  have serial: "(k, e') \<in> set (mgEntries m) \<Longrightarrow> k = sn \<longleftrightarrow> e' = e" for k e'
    using serial_unique [OF r e] by auto
  have "registry_ok m1"
    unfolding registry_ok_def
  proof (intro conjI)
    show "distinct (map fst (mgEntries m1))" "distinct (map snd (mgEntries m1))" "distinct (map fst (mgTimers m1))"
      using r by (simp_all add: m1 registry_ok_def distinct_map_filter)
    have same: "mgClosing m1 = mgClosing m" "mgNext m1 = mgNext m" by (simp_all add: m1)
    show "\<forall>e. registered m1 e \<longrightarrow> e < mgNext m1" "distinct (map fst (mgClosing m1))"
      "\<forall>e \<in> fst ` set (mgClosing m1). e < mgNext m1 \<and> \<not> registered m1 e"
      subgoal using r by (simp add: registry_ok_def reg1 same)
      subgoal using r by (simp only: registry_ok_def same)
      subgoal using r by (simp only: registry_ok_def reg1 same) simp
      done
    show "\<forall>(t, e, s, ms) \<in> set (mgTimers m1). t < mgNextTimer m1 \<and> (s, e) \<in> set (mgEntries m1)"
    proof (clarify)
      fix t e' s ms
      assume "(t, e', s, ms) \<in> set (mgTimers m1)"
      then have "(t, e', s, ms) \<in> set (mgTimers m)" "e' \<noteq> e" by (simp_all add: timers)
      then show "t < mgNextTimer m1 \<and> (s, e') \<in> set (mgEntries m1)"
        using registry_timer [OF r, of t e' s ms] serial [of s e'] by (simp add: entries) (simp add: m1)
    qed
  qed
  moreover have eo: "entry_ok m1 e'" if "e' \<notin> insert e E" for e'
  proof -
    have "mgStore m1 e' = mgStore m e'" "mgClosing m1 = mgClosing m" using that by (simp_all add: m1)
    then show ?thesis
      using ok [of e'] that serial [of _ e'] unfolding entry_ok_def timers reg1 entries by auto
  qed
  moreover have disc: "stranded m1 e'"
    if "e' \<in> insert e E" for e'
  proof (cases "e' = e")
    case True
    have "mgClosing m1 = mgClosing m" "mgNext m1 = mgNext m" "enHolds (mgStore m1 e) = []" "enIdle (mgStore m1 e) = None"
      by (simp_all add: m1)
    then show ?thesis using True r reg unfolding stranded_def timers reg1 registry_ok_def by auto
  next
    case False
    then have "mgClosing m1 = mgClosing m" "mgNext m1 = mgNext m" "mgStore m1 e' = mgStore m e'" by (simp_all add: m1)
    then show ?thesis using False that assms(1) unfolding stranded_def timers reg1 between_def by auto
  qed
  ultimately show "between m1 (insert e E)" unfolding between_def using eo disc by simp
qed

text \<open>Closing or settling a discarded entry completes its departure.\<close>

lemma between_closeEntry:
  assumes "between m (insert e E)" "e \<notin> E"
  shows "between (sm_closeEntry e cs m) E"
proof -
  define m0 where "m0 = (case enSession (mgStore m e) of None \<Rightarrow> m | Some s \<Rightarrow> sm_log (SessionClose s) m)"
  have b: "between m0 (insert e E)" using assms(1) between_ext [of m0 m "insert e E"]
    by (simp add: m0_def sm_log_def split: option.splits)
  let ?m = "m0\<lparr>mgClosing := mgClosing m0 @ [(e, cs)]\<rparr>"
  have st: "stranded m0 e" and rk: "registry_ok m0" using b by (simp_all add: between_def)
  have reg: "registered ?m = registered m0" by (simp add: registered_def fun_eq_iff)
  have "registry_ok ?m" using rk st by (simp add: registry_ok_def stranded_def reg)
  moreover have "entry_ok ?m e'" if "e' \<notin> E" for e'
  proof (cases "e' = e")
    case True
    then show ?thesis using st by (auto simp: stranded_def entry_ok_def registered_def)
  next
    case False
    then have "entry_ok m0 e'" using b that by (simp add: between_def)
    then show ?thesis by (auto simp: entry_ok_def registered_def)
  qed
  moreover have "stranded ?m e'" if "e' \<in> E" for e'
    using b that assms(2) by (auto simp: between_def stranded_def registered_def)
  moreover have "sm_closeEntry e cs m = ?m" by (simp add: sm_closeEntry_def m0_def Let_def)
  ultimately show ?thesis by (simp add: between_def)
qed

lemma ok_closeEntry: "between m {e} \<Longrightarrow> manager_ok (sm_closeEntry e cs m)"
  using between_closeEntry [of m e "{}"] by (simp add: between_none)

lemma ok_settleReset:
  assumes "between m {e}"
  shows "manager_ok (sm_settleReset e ok m)"
proof -
  let ?m = "sm_settleReset e ok m"
  have same: "mgEntries ?m = mgEntries m" "mgNext ?m = mgNext m" "mgTimers ?m = mgTimers m"
    "mgNextTimer ?m = mgNextTimer m" "mgClosing ?m = mgClosing m"
    "mgStore ?m = (mgStore m)(e := (mgStore m e)\<lparr>enReset := None\<rparr>)"
    by (simp_all add: sm_settleReset_def settle_def at_entry_def)
  have "registry_ok ?m" using assms by (simp add: between_def registry_ok_def registered_def same)
  moreover have "entry_ok ?m e'" for e'
  proof (cases "e' = e")
    case True
    then show ?thesis using assms by (simp add: between_def stranded_def entry_ok_def same)
  next
    case False
    then have "entry_ok m e'" using assms by (simp add: between_def)
    then show ?thesis using False by (simp add: entry_ok_def registered_def same)
  qed
  ultimately show ?thesis by (simp add: manager_ok_def)
qed

lemma ok_discard: "manager_ok m \<Longrightarrow> sm_discard sn m = Some (e, m1) \<Longrightarrow> between m1 {e}"
  using between_discard(1) [of m "{}" sn e m1] by (simp add: between_none)

lemma ok_settle: "manager_ok (settle cs ok m) = manager_ok m"
  by (rule ok_ext) (simp_all add: settle_def)

lemma ok_log: "manager_ok (sm_log x m) = manager_ok m"
  by (rule ok_ext) (simp_all add: sm_log_def)

lemma ok_alls: "manager_ok (m\<lparr>mgAlls := x\<rparr>) = manager_ok m"
  by (rule ok_ext) simp_all

lemma ok_autoClose: "manager_ok m \<Longrightarrow> manager_ok (sm_autoClose sn cs m)"
proof (cases "sm_discard sn m")
  case (Some p)
  moreover obtain e m1 where "p = (e, m1)" by fastforce
  moreover assume "manager_ok m"
  ultimately have "between m1 {e}" using ok_discard by simp
  then have "between (sm_log (AutoClosed sn) m1) {e}" by (subst between_ext) (simp_all add: sm_log_def)
  then show ?thesis using \<open>between m1 {e}\<close> Some \<open>p = (e, m1)\<close> by (simp add: sm_autoClose_def ok_closeEntry)
qed (simp add: sm_autoClose_def ok_settle)

lemma ok_remove: "manager_ok m \<Longrightarrow> manager_ok (sm_remove sn m)"
  by (auto simp: sm_remove_def ok_settleReset dest: ok_discard split: option.split)

lemma ok_close: "manager_ok m \<Longrightarrow> manager_ok (sm_close sn c m)"
  by (auto simp: sm_close_def ok_settle ok_closeEntry dest: ok_discard split: option.split)

lemma ok_reset: "manager_ok m \<Longrightarrow> manager_ok (sm_resetWhenUnused sn c m)"
proof -
  assume ok: "manager_ok m"
  have "manager_ok (at_entry e (\<lambda>x. x\<lparr>enReset := Some (reset_callers x @ [c])\<rparr>) m)"
    if "map_of (mgEntries m) sn = Some e" "\<not> enRetained (mgStore m e) \<le> length (enHolds (mgStore m e))" for e
  proof (rule ok_at [OF ok])
    have "registered m e" using map_of_SomeD [OF that(1)] by (force simp: registered_def)
    then show "if registered m e
        then length (enHolds (mgStore m e)) < enRetained ((mgStore m e)\<lparr>enReset := Some (reset_callers (mgStore m e) @ [c])\<rparr>)
        else e \<in> fst ` set (mgClosing m)"
      using that(2) by simp
  qed (use manager_okD(2) [OF ok, of e] in \<open>simp_all add: entry_ok_def\<close>)
  then show ?thesis using ok by (simp add: sm_resetWhenUnused_def ok_settle ok_autoClose split: option.split)
qed

lemma ok_entryClosed:
  assumes "manager_ok m"
  shows "manager_ok (sm_entryClosed e ok m)"
proof (cases "map_of (mgClosing m) e")
  case None
  then show ?thesis using assms by (simp add: sm_entryClosed_def)
next
  case (Some cs)
  let ?m = "m\<lparr>mgClosing := filter (\<lambda>(k, _). k \<noteq> e) (mgClosing m)\<rparr>"
  have rk: "registry_ok m" using assms by (rule manager_okD)
  have e: "e \<in> fst ` set (mgClosing m)" using map_of_SomeD [OF Some] by force
  then have nr: "\<not> registered m e" "e < mgNext m" using rk by (auto simp: registry_ok_def)
  have no: "(t, e, sn, ms) \<notin> set (mgTimers m)" for t sn ms
    using nr registry_timer [OF rk, of t e sn ms] by (force simp: registered_def)
  have ek: "entry_ok m e" using assms by (rule manager_okD)
  have "registry_ok ?m" using rk by (auto simp: registry_ok_def registered_def distinct_map_filter)
  moreover have "entry_ok ?m e'" if "e' \<noteq> e" for e'
  proof -
    have "e' \<in> fst ` set (mgClosing ?m) \<longleftrightarrow> e' \<in> fst ` set (mgClosing m)" using that by force
    then show ?thesis using manager_okD(2) [OF assms, of e'] by (simp add: entry_ok_def registered_def)
  qed
  moreover have "stranded ?m e"
  proof -
    have "enIdle (mgStore m e) = None" using ek nr by (cases "enIdle (mgStore m e)") (force simp: entry_ok_def registered_def)+
    then show ?thesis using ek nr no by (auto simp: stranded_def entry_ok_def registered_def)
  qed
  ultimately have b: "between ?m {e}" by (simp add: between_def)
  define ok' where "ok' = (ok \<or> enSession (mgStore m e) = None)"
  have "manager_ok (close_alls e ok' (settle cs ok' (sm_settleReset e ok' ?m))) =
      manager_ok (sm_settleReset e ok' ?m)"
    by (subst ok_ext [where m = "sm_settleReset e ok' ?m"]) (simp_all add: close_alls_def Let_def settle_def)
  then show ?thesis using ok_settleReset [OF b] Some by (simp add: sm_entryClosed_def ok'_def Let_def)
qed

lemma between_discard_all:
  "between m E \<Longrightarrow> discard_all sns m = (es, m1) \<Longrightarrow> between m1 (set es \<union> E) \<and> distinct es \<and> set es \<inter> E = {}"
proof (induction sns m arbitrary: E es m1 rule: discard_all.induct)
  case (2 sn sns m)
  show ?case
  proof (cases "sm_discard sn m")
    case None
    then show ?thesis using 2 by simp
  next
    case (Some p)
    obtain e m2 where p: "p = (e, m2)" by fastforce
    obtain fs m3 where d: "discard_all sns m2 = (fs, m3)" by fastforce
    note b = between_discard [OF "2.prems"(1) Some [unfolded p]]
    from "2.IH"(2) [OF Some p [symmetric] b(1) d] b(2) "2.prems"(2) Some p d show ?thesis
      by (auto simp: Un_insert_right insert_commute)
  qed
qed simp

lemma ok_closeAll:
  assumes "manager_ok m"
  shows "manager_ok (sm_closeAll c m)"
proof -
  let ?m = "m\<lparr>mgGeneration := mgGeneration m + 1\<rparr>"
  obtain es m1 where d: "discard_all (map fst (mgEntries m)) ?m = (es, m1)" by fastforce
  have "manager_ok ?m" by (subst ok_ext [where m = m]) (simp_all add: assms)
  then have b: "between m1 (set es)" "distinct es"
    using between_discard_all [of ?m "{}", OF _ d] by (simp_all add: between_none)
  have "between m' (set es) \<Longrightarrow> distinct es \<Longrightarrow> manager_ok (foldl (\<lambda>m e. sm_closeEntry e [] m) m' es)" for m' es
  proof (induction es arbitrary: m')
    case Nil
    then show ?case by (simp add: between_none)
  next
    case (Cons e es)
    then show ?case using between_closeEntry [of m' e "set es" "[]"] by simp
  qed
  from this [OF b] show ?thesis
    unfolding sm_closeAll_def Let_def d prod.case by (simp add: ok_log ok_alls) auto
qed

text \<open>Changes of an entry that leave its holds, and do not lower its count under a reset.\<close>

lemma ok_keep:
  assumes "manager_ok m"
    and "enHolds (f (mgStore m e)) = enHolds (mgStore m e)" "enReset (f (mgStore m e)) = enReset (mgStore m e)"
    and "enIdle (f (mgStore m e)) = None \<or>
      enIdle (f (mgStore m e)) = enIdle (mgStore m e) \<and> enRetained (f (mgStore m e)) = enRetained (mgStore m e)"
    and "enRetained (mgStore m e) \<le> enRetained (f (mgStore m e))"
  shows "manager_ok (at_entry e f m)"
proof (rule ok_at [where f = f and e = e and m = m, OF assms(1,2)])
  show "if registered m e then length (enHolds (mgStore m e)) < enRetained (f (mgStore m e)) else e \<in> fst ` set (mgClosing m)"
    if "enReset (f (mgStore m e)) \<noteq> None"
    using that assms(3,5) manager_okD(2) [OF assms(1), of e] by (auto simp: entry_ok_def)
  show "(sn, e) \<in> set (mgEntries m) \<and> enRetained (f (mgStore m e)) = 0" if "enIdle (f (mgStore m e)) = Some (sn, ms)" for sn ms
  proof -
    have "enIdle (mgStore m e) = Some (sn, ms)" "enRetained (f (mgStore m e)) = enRetained (mgStore m e)"
      using that assms(4) by auto
    then show ?thesis using manager_okD(2) [OF assms(1), of e] by (simp add: entry_ok_def)
  qed
qed

lemma ok_opens: "manager_ok (m\<lparr>mgOpens := x\<rparr>) = manager_ok m" "manager_ok (m\<lparr>mgNextOpen := n\<rparr>) = manager_ok m"
  "manager_ok (m\<lparr>mgSuperseded := x\<rparr>) = manager_ok m" "manager_ok (m\<lparr>mgLog := es\<rparr>) = manager_ok m"
  "manager_ok (m\<lparr>mgTier := t\<rparr>) = manager_ok m"
  by (rule ok_ext; simp)+

lemma ok_register: "manager_ok m \<Longrightarrow> manager_ok (sm_register sn s m)"
  by (auto simp: sm_register_def Let_def intro!: ok_keep dest: ok_entry(1) split: prod.split)

lemma ok_over: "manager_ok m \<Longrightarrow> manager_ok (open_over i p m)"
  unfolding open_over_def by (rule ok_keep) auto

lemma ok_acquire:
  assumes "manager_ok m"
  shows "manager_ok (sm_acquire sn c m)"
proof -
  obtain e m1 where e: "sm_entry sn m = (e, m1)" by fastforce
  have m1: "manager_ok m1" using ok_entry(1) [OF assms e] .
  have "manager_ok (at_entry e (\<lambda>x. x\<lparr>enConnecting := Some i\<rparr>) m1)" for i using m1 by (rule ok_keep) auto
  then show ?thesis using m1
    by (simp add: sm_acquire_def e ok_opens ok_log split: option.split)
qed

lemma ok_fill:
  "manager_ok m \<Longrightarrow> manager_ok (at_entry e (\<lambda>x. if enSession x = None then x\<lparr>enSession := Some s\<rparr> else x) m)"
  by (rule ok_keep) auto

lemma ok_factory: "manager_ok m \<Longrightarrow> manager_ok (sm_factoryRegisters i s m)"
  "manager_ok m \<Longrightarrow> manager_ok (sm_factoryDone i s m)" "manager_ok m \<Longrightarrow> manager_ok (sm_factoryFails i m)"
  "manager_ok m \<Longrightarrow> manager_ok (sm_supersededClosed i ok m)"
  unfolding sm_factoryRegisters_def sm_factoryDone_def sm_factoryFails_def sm_supersededClosed_def Let_def
  by (auto simp: ok_opens ok_log intro!: ok_over ok_fill intro: ok_keep split: option.split)

lemma ok_retain: "manager_ok m \<Longrightarrow> manager_ok (sm_retain sn m)"
  by (auto simp: sm_retain_def Let_def intro!: ok_keep dest: ok_entry(1) split: prod.split)

lemma ok_release:
  assumes "manager_ok m"
  shows "manager_ok (sm_release opts sn m)"
proof (cases "map_of (mgEntries m) sn")
  case None
  then show ?thesis using assms by (simp add: sm_release_def)
next
  case (Some e)
  show ?thesis
  proof (cases "enRetained (mgStore m e) = 0")
    case True
    then show ?thesis using assms Some by (simp add: sm_release_def ok_log)
  next
    case False
    have sn: "(sn, e) \<in> set (mgEntries m)" using Some by (rule map_of_SomeD)
    then have reg: "registered m e" by (force simp: registered_def)
    have idle: "enIdle (mgStore m e) = None"
      using manager_okD(2) [OF assms, of e] False by (cases "enIdle (mgStore m e)") (auto simp: entry_ok_def)
    let ?x = "mgStore m e" and ?m = "at_entry e (\<lambda>x. x\<lparr>enRetained := enRetained x - 1\<rparr>) m"
    show ?thesis
    proof (cases "enReset ?x \<noteq> None \<and> enRetained ?x - 1 \<le> length (enHolds ?x)")
      case due: True
      txt \<open>the reset falls due: the entry goes at once\<close>
      have "sm_release opts sn m = sm_autoClose sn [] ?m"
        using Some False due by (simp add: sm_release_def at_entry_def Let_def)
      moreover have "\<exists>m1. sm_discard sn ?m = Some (e, m1) \<and> between m1 {e}"
      proof -
        obtain m1 where d: "sm_discard sn m = Some (e, m1)" using Some by (simp add: sm_discard_def)
        have d': "sm_discard sn ?m = Some (e, at_entry e (\<lambda>x. x\<lparr>enRetained := enRetained x - 1\<rparr>) m1)"
          using d by (auto simp: discard_some at_entry_def fun_eq_iff intro!: manager.equality session_entry.equality)
        have "between (at_entry e (\<lambda>x. x\<lparr>enRetained := enRetained x - 1\<rparr>) m1) {e}"
          using ok_discard [OF assms d]
          by (auto simp: between_def stranded_def registry_ok_def entry_ok_def registered_def at_entry_def)
        then show ?thesis using d' by blast
      qed
      ultimately show ?thesis
        by (auto simp: sm_autoClose_def between_ext [of "sm_log (AutoClosed sn) _"] sm_log_def intro!: ok_closeEntry)
          (subst between_ext, simp_all)
    next
      case False
      have "manager_ok ?m"
        by (rule ok_at) (use assms manager_okD(2) [OF assms, of e] False reg idle in \<open>auto simp: entry_ok_def\<close>)
      moreover have "manager_ok (sm_armIdle opts sn e ?m)" if "enRetained ?x - 1 = 0"
        unfolding sm_armIdle_def Let_def
      proof (rule ok_at [OF \<open>manager_ok ?m\<close>])
        show "if registered ?m e
          then length (enHolds (mgStore ?m e)) < enRetained ((mgStore ?m e)\<lparr>enIdle := i\<rparr>) else e \<in> fst ` set (mgClosing ?m)"
          if "enReset ((mgStore ?m e)\<lparr>enIdle := i\<rparr>) \<noteq> None" for i
          using manager_okD(2) [OF \<open>manager_ok ?m\<close>, of e] that by (simp add: entry_ok_def)
      qed (use that sn in \<open>simp_all add: at_entry_def split: if_splits\<close>)
      moreover have "sm_release opts sn m = (if enRetained ?x - 1 = 0 then sm_armIdle opts sn e ?m else ?m)"
        using Some \<open>enRetained ?x \<noteq> 0\<close> False by (auto simp: sm_release_def at_entry_def Let_def)
      ultimately show ?thesis by simp
    qed
  qed
qed

lemma timers_apart:
  "registry_ok m \<Longrightarrow> (mgNextTimer m, e, sn, ms) \<notin> set (mgTimers m)"
  using registry_timer [of m "mgNextTimer m" e sn ms] by auto

lemma ok_hold:
  assumes "manager_ok m"
  shows "manager_ok (sm_hold sn ms m)"
proof -
  obtain e m0 where e: "sm_entry sn m = (e, m0)" by fastforce
  note m0 = ok_entry [OF assms e]
  have rk: "registry_ok m0" and ek: "entry_ok m0 e'" for e' using m0(1) by (simp_all add: manager_ok_def)
  have "sm_entry sn m0 = (e, m0)" using entry_of_serial [OF rk, THEN iffD2, OF m0(2)] by (simp add: sm_entry_def)
  then have h: "sm_hold sn ms m = m0\<lparr>mgStore := (mgStore m0)(e := (mgStore m0 e)\<lparr>enRetained := enRetained (mgStore m0 e) + 1,
      enIdle := None, enHolds := enHolds (mgStore m0 e) @ [mgNextTimer m0]\<rparr>),
      mgTimers := mgTimers m0 @ [(mgNextTimer m0, e, sn, ms)], mgNextTimer := mgNextTimer m0 + 1\<rparr>" (is "_ = ?m")
    by (simp add: sm_hold_def e sm_retain_def at_entry_def)
  have reg: "registered ?m = registered m0" by (simp add: registered_def fun_eq_iff)
  have "mgNextTimer m0 \<notin> fst ` set (mgTimers m0)" using timers_apart [OF rk] by force
  then have "registry_ok ?m"
    using rk m0(2) unfolding registry_ok_def reg by (auto simp: less_Suc_eq)
  moreover have "entry_ok ?m e'" for e'
  proof (cases "e' = e")
    case True
    have "mgNextTimer m0 \<notin> set (enHolds (mgStore m0 e))"
      using ek [of e] timers_apart [OF rk] by (auto simp: entry_ok_def)
    then show ?thesis using ek [of e] True by (auto simp: entry_ok_def split: if_splits)
  next
    case False
    then show ?thesis using ek [of e'] by (auto simp: entry_ok_def)
  qed
  ultimately show ?thesis by (simp add: h manager_ok_def)
qed

text \<open>A hold that ran out has left its entry; its release is still to come.\<close>

definition hold_gone :: "nat \<Rightarrow> nat \<Rightarrow> manager \<Rightarrow> manager" where
  "hold_gone t e m = (at_entry e (\<lambda>x. x\<lparr>enHolds := remove1 t (enHolds x)\<rparr>) m)
     \<lparr>mgTimers := filter (\<lambda>(k, _). k \<noteq> t) (mgTimers m)\<rparr>"

lemma ok_holdGone:
  assumes "manager_ok m" "(t, e, sn, ms) \<in> set (mgTimers m)"
  shows "manager_ok (hold_gone t e m)"
proof -
  let ?m = "hold_gone t e m"
  have rk: "registry_ok m" and ek: "entry_ok m e'" for e' using assms(1) by (simp_all add: manager_ok_def)
  have only: "(t, e', sn', ms') \<in> set (mgTimers m) \<Longrightarrow> e' = e" for e' sn' ms'
    using rk assms(2) eq_key_imp_eq_value [of "mgTimers m" t "(e, sn, ms)" "(e', sn', ms')"] by (simp add: registry_ok_def)
  have reg: "registered ?m = registered m" by (simp add: hold_gone_def)
  have "registry_ok ?m"
    using rk unfolding registry_ok_def reg by (auto simp: hold_gone_def at_entry_def distinct_map_filter)
  moreover have "entry_ok ?m e'" for e'
  proof (cases "e' = e")
    case True
    have "length (remove1 t (enHolds (mgStore m e))) \<le> length (enHolds (mgStore m e))" by (simp add: length_remove1)
    then show ?thesis using ek [of e] True by (auto simp: entry_ok_def hold_gone_def at_entry_def split: if_splits)
  next
    case False
    then have "(t', e', s, k) \<in> set (mgTimers ?m) \<longleftrightarrow> (t', e', s, k) \<in> set (mgTimers m)" for t' s k
      using only [of e' s k] by (auto simp: hold_gone_def)
    then show ?thesis using ek [of e'] False by (auto simp: entry_ok_def hold_gone_def at_entry_def)
  qed
  ultimately show ?thesis by (simp add: manager_ok_def)
qed

lemma holdExpires_releases:
  "map_of (mgTimers m) t = Some (e, sn, ms) \<Longrightarrow> sm_holdExpires opts t m = sm_release opts sn (hold_gone t e m)"
  by (simp add: sm_holdExpires_def hold_gone_def)

lemma ok_holdExpires:
  assumes "manager_ok m"
  shows "manager_ok (sm_holdExpires opts t m)"
proof (cases "map_of (mgTimers m) t")
  case None
  then show ?thesis using assms by (simp add: sm_holdExpires_def)
next
  case (Some p)
  obtain e sn ms where p: "p = (e, sn, ms)" by (cases p) auto
  show ?thesis
    using ok_release [OF ok_holdGone [OF assms, of t e sn ms]] map_of_SomeD [OF Some] Some
    by (simp add: p holdExpires_releases)
qed

lemma ok_idleFires: "manager_ok m \<Longrightarrow> manager_ok (sm_idleFires e m)"
proof -
  assume "manager_ok m"
  then have "manager_ok (at_entry e (\<lambda>x. x\<lparr>enIdle := None\<rparr>) m)" by (rule ok_keep) auto
  then show ?thesis using \<open>manager_ok m\<close>
    by (auto simp: sm_idleFires_def sm_onIdle_def ok_autoClose split: option.split)
qed

lemma ok_step: "manager_ok m \<Longrightarrow> manager_ok (manager_step opts m ev)"
  by (cases ev)
    (simp_all add: ok_register ok_acquire ok_factory ok_retain ok_release ok_hold sm_bumpCommand_def ok_holdExpires
      ok_idleFires ok_remove ok_close ok_reset ok_closeAll ok_entryClosed ok_opens)

interpretation manager: stepper "manager_step opts" manager_ok for opts
  by unfold_locales (rule ok_step)

lemma run_ok: "manager_ok (manager_run opts tier evs)"
  unfolding manager_run_def by (rule manager.inv_run) (rule ok_new)

section \<open>What a hold releases\<close>

lemma entry_store: "mgStore (at_entry e f m) e' = (if e' = e then f (mgStore m e) else mgStore m e')"
  "mgEntries (at_entry e f m) = mgEntries m" "mgLog (at_entry e f m) = mgLog m"
  by (simp_all add: at_entry_def)

lemma autoClose_apart:
  "e' \<noteq> e \<Longrightarrow> map_of (mgEntries m) sn = Some e \<Longrightarrow> mgStore (sm_autoClose sn cs m) e' = mgStore m e'"
  "k \<noteq> sn \<Longrightarrow> map_of (mgEntries (sm_autoClose sn cs m)) k = map_of (mgEntries m) k"
proof -
  have f: "k \<noteq> sn \<Longrightarrow> map_of (filter (\<lambda>(j, _). j \<noteq> sn) es) k = map_of es k" for es :: "(string \<times> nat) list"
    by (induction es) auto
  show "e' \<noteq> e \<Longrightarrow> map_of (mgEntries m) sn = Some e \<Longrightarrow> mgStore (sm_autoClose sn cs m) e' = mgStore m e'"
    by (auto simp: sm_autoClose_def sm_discard_def sm_closeEntry_def Let_def sm_log_def settle_def entry_store split: option.split)
  show "k \<noteq> sn \<Longrightarrow> map_of (mgEntries (sm_autoClose sn cs m)) k = map_of (mgEntries m) k"
    by (auto simp: sm_autoClose_def sm_discard_def sm_closeEntry_def Let_def sm_log_def settle_def entry_store f split: option.split)
qed

lemma release_apart:
  "e' \<noteq> e \<Longrightarrow> map_of (mgEntries m) sn = Some e \<Longrightarrow> mgStore (sm_release opts sn m) e' = mgStore m e'"
  "k \<noteq> sn \<Longrightarrow> map_of (mgEntries (sm_release opts sn m)) k = map_of (mgEntries m) k"
  by (auto simp: sm_release_def Let_def sm_log_def autoClose_apart entry_store sm_armIdle_def split: option.split)

text \<open>
  A hold releases the entry it was taken on. In any state of the manager, a hold that still counts
  down belongs to the entry that its serial has now (an entry that was discarded owns no timer), and
  when it runs out nothing but that entry changes: no other entry, and no other serial. So a hold never
  releases what the successor of its entry, or another station, retained.
\<close>

theorem hold_lands_on_its_entry:
  assumes "m = manager_run opts tier evs" "map_of (mgTimers m) t = Some (e, sn, ms)"
  shows "map_of (mgEntries m) sn = Some e \<and> t \<in> set (enHolds (mgStore m e)) \<and>
    (\<forall>e'. mgStore (manager_step opts m (HoldExpires t)) e' = mgStore m e' \<or> e' = e) \<and>
    (\<forall>k. map_of (mgEntries (manager_step opts m (HoldExpires t))) k = map_of (mgEntries m) k \<or> k = sn)"
proof -
  have ok: "manager_ok m" using run_ok by (simp add: assms(1))
  have t: "(t, e, sn, ms) \<in> set (mgTimers m)" using assms(2) by (rule map_of_SomeD)
  then have sn: "map_of (mgEntries m) sn = Some e"
    using registry_timer [OF manager_okD(1) [OF ok] t] entry_of_serial [OF manager_okD(1) [OF ok]] by simp
  have held: "t \<in> set (enHolds (mgStore m e))" using manager_okD(2) [OF ok, of e] t by (auto simp: entry_ok_def)
  let ?m = "hold_gone t e m"
  have step: "manager_step opts m (HoldExpires t) = sm_release opts sn ?m" by (simp add: holdExpires_releases assms(2))
  have "e' \<noteq> e \<Longrightarrow> mgStore (sm_release opts sn ?m) e' = mgStore m e'" for e'
    using release_apart(1) [of e' e ?m sn opts] sn by (simp add: hold_gone_def entry_store)
  moreover have "k \<noteq> sn \<Longrightarrow> map_of (mgEntries (sm_release opts sn ?m)) k = map_of (mgEntries m) k" for k
    using release_apart(2) [of k sn opts ?m] by (simp add: hold_gone_def entry_store)
  ultimately show ?thesis unfolding step using sn held by blast
qed

definition sample_opts :: manager_opts where
  "sample_opts = \<lparr>optBatteryIdleMs = None, optCommandKeepAliveMs = None\<rparr>"

text \<open>A command's hold, taken anew after the station was closed.\<close>

lemma hold_lands_on_its_entry_witness:
  "map_of (mgEntries (manager_run sample_opts (\<lambda>_. Battery) [BumpCommand ''S'', CloseStation ''S'' 0, BumpCommand ''S''])) ''S'' = Some 1"
  using hold_lands_on_its_entry [OF refl, of sample_opts "\<lambda>_. Battery"
      "[BumpCommand ''S'', CloseStation ''S'' 0, BumpCommand ''S'']" 1 1 "''S''" 15000]
  by (simp add: manager_run_def sm_bumpCommand_def sm_hold_def sm_entry_def sm_retain_def new_manager_def at_entry_def
      sample_opts_def COMMAND_KEEPALIVE_MS_def sm_close_def sm_discard_def sm_closeEntry_def new_entry_def)

section \<open>Closing unasked\<close>

definition quiet :: "manager \<Rightarrow> manager \<Rightarrow> bool" where
  "quiet m m' \<longleftrightarrow> (\<exists>xs. mgLog m' = mgLog m @ xs \<and> (\<forall>sn. AutoClosed sn \<notin> set xs))"

lemma quiet_refl: "quiet m m"
  by (simp add: quiet_def)

lemma quiet_trans [trans]: "quiet m m' \<Longrightarrow> quiet m' m'' \<Longrightarrow> quiet m m''"
  by (auto simp: quiet_def)

lemma quiet_same: "mgLog m' = mgLog m \<Longrightarrow> quiet m m'"
  by (simp add: quiet_def)

lemma quiet_log: "(\<And>sn. x \<noteq> AutoClosed sn) \<Longrightarrow> quiet m (sm_log x m)"
  by (auto simp: quiet_def sm_log_def)

lemma entry_log: "sm_entry sn m = (e, m1) \<Longrightarrow> mgLog m1 = mgLog m"
  by (auto simp: sm_entry_def split: option.splits)

lemma discard_log: "sm_discard sn m = Some (e, m1) \<Longrightarrow> mgLog m1 = mgLog m"
  by (auto simp: discard_some)

lemma quiet_closeEntry: "quiet m (sm_closeEntry e cs m)"
  by (auto simp: sm_closeEntry_def Let_def quiet_def sm_log_def split: option.split)

lemma quiet_settle: "quiet m (settle cs ok m)" "quiet m (sm_settleReset e ok m)"
  by (auto simp: quiet_def settle_def sm_settleReset_def at_entry_def)

lemma alls_quiet:
  "AutoClosed sn \<notin> set (List.map_filter (\<lambda>(c, es, n). if es = [] then Some (AllSettled c n) else None) l)"
  by (induction l) (auto simp: map_filter_simps split: option.split if_splits)

lemma quiet_alls: "quiet m (close_alls e ok m)"
  by (simp add: quiet_def close_alls_def Let_def alls_quiet)

lemma discard_all_log: "mgLog (snd (discard_all sns m)) = mgLog m"
  by (induction sns m rule: discard_all.induct) (auto split: option.split prod.split dest: discard_log)

lemma quiet_folds: "quiet m (foldl (\<lambda>m e. sm_closeEntry e [] m) m es)"
  by (induction es arbitrary: m) (auto intro: quiet_refl quiet_trans [OF quiet_closeEntry])

lemma hold_log: "mgLog (sm_hold sn ms m) = mgLog m"
  by (auto simp: sm_hold_def sm_retain_def Let_def at_entry_def dest!: entry_log split: prod.split)

text \<open>Where the log shows a close that nobody asked for, the station's entry had a session.\<close>

lemma autoClose_log:
  "\<exists>xs. mgLog (sm_autoClose sn cs m) = mgLog m @ xs \<and>
    (\<forall>k. AutoClosed k \<in> set xs \<longrightarrow> k = sn \<and> (\<exists>e. map_of (mgEntries m) sn = Some e \<and> enSession (mgStore m e) \<noteq> None))"
proof (cases "sm_discard sn m")
  case None
  then show ?thesis by (auto simp: sm_autoClose_def settle_def)
next
  case (Some p)
  obtain e m1 where p: "p = (e, m1)" by fastforce
  have d: "map_of (mgEntries m) sn = Some e" "enSession (mgStore m1 e) = enSession (mgStore m e)" "mgLog m1 = mgLog m"
    using Some p by (auto simp: discard_some)
  show ?thesis
    using d quiet_closeEntry [of m1 e cs] quiet_closeEntry [of "sm_log (AutoClosed sn) m1" e cs]
    by (auto simp: sm_autoClose_def Some p quiet_def sm_log_def)
qed

lemma quiet_step:
  assumes "\<forall>sn. ev \<noteq> Release sn" "\<forall>t. ev \<noteq> HoldExpires t" "\<forall>e. ev \<noteq> IdleFires e" "\<forall>sn c. ev \<noteq> ResetWhenUnused sn c"
  shows "quiet m (manager_step opts m ev)"
proof (cases ev)
  case (Acquire sn c)
  then show ?thesis
    by (auto simp: sm_acquire_def Let_def quiet_def sm_log_def at_entry_def dest: entry_log split: prod.split option.split)
next
  case (CloseAll c)
  obtain es m1 where d: "discard_all (map fst (mgEntries m)) (m\<lparr>mgGeneration := mgGeneration m + 1\<rparr>) = (es, m1)" by fastforce
  have "mgLog m1 = mgLog m"
    using discard_all_log [of "map fst (mgEntries m)" "m\<lparr>mgGeneration := mgGeneration m + 1\<rparr>"] d by simp
  then have q: "quiet m (foldl (\<lambda>m e. sm_closeEntry e [] m) m1 es)"
    using quiet_folds [of m1 es] by (simp add: quiet_def)
  then show ?thesis unfolding CloseAll manager_step.simps sm_closeAll_def Let_def d prod.case
    by (auto simp: quiet_def sm_log_def)
next
  case (CloseStation sn c)
  then show ?thesis
    by (auto simp: sm_close_def quiet_settle quiet_refl split: option.split
        dest!: discard_log intro: quiet_trans [OF quiet_same quiet_closeEntry])
next
  case (Remove sn)
  then show ?thesis
    by (auto simp: sm_remove_def quiet_settle quiet_refl split: option.split
        dest!: discard_log intro: quiet_trans [OF quiet_same quiet_settle(2)])
next
  case (EntryClosed e ok)
  have "quiet m (close_alls e b (settle cs b (sm_settleReset e b (m\<lparr>mgClosing := x\<rparr>))))" for b cs x
    by (rule quiet_trans [OF _ quiet_alls], rule quiet_trans [OF _ quiet_settle(1)],
        rule quiet_trans [OF _ quiet_settle(2)], rule quiet_same) simp
  then show ?thesis using EntryClosed by (simp add: sm_entryClosed_def Let_def quiet_refl split: option.split)
qed (use assms in \<open>auto simp: sm_register_def sm_factoryRegisters_def sm_factoryDone_def sm_factoryFails_def
    sm_supersededClosed_def open_over_def sm_retain_def hold_log sm_bumpCommand_def Let_def quiet_def sm_log_def
    at_entry_def dest: entry_log split: prod.splits option.splits\<close>)

definition logged :: "manager_opts \<Rightarrow> manager \<Rightarrow> manager_event \<Rightarrow> manager_out list" where
  "logged opts m ev = drop (length (mgLog m)) (mgLog (manager_step opts m ev))"

lemma release_log:
  "\<exists>xs. mgLog (sm_release opts sn m) = mgLog m @ xs \<and>
    (\<forall>k. AutoClosed k \<in> set xs \<longrightarrow> k = sn \<and> (\<exists>e. map_of (mgEntries m) sn = Some e \<and> enSession (mgStore m e) \<noteq> None \<and>
      0 < enRetained (mgStore m e) \<and> enReset (mgStore m e) \<noteq> None \<and> enRetained (mgStore m e) \<le> Suc (length (enHolds (mgStore m e)))))"
proof (cases "map_of (mgEntries m) sn")
  case None
  then show ?thesis by (simp add: sm_release_def)
next
  case (Some e)
  let ?m = "at_entry e (\<lambda>x. x\<lparr>enRetained := enRetained x - 1\<rparr>) m" and ?x = "mgStore m e"
  show ?thesis
  proof (cases "0 < enRetained ?x \<and> enReset ?x \<noteq> None \<and> enRetained ?x - 1 \<le> length (enHolds ?x)")
    case True
    then have r: "sm_release opts sn m = sm_autoClose sn [] ?m" by (simp add: sm_release_def Some Let_def entry_store)
    show ?thesis using autoClose_log [of sn "[]" ?m] True by (auto simp: r entry_store Some)
  next
    case False
    then have "mgLog (sm_release opts sn m) = mgLog m @ [] \<or> mgLog (sm_release opts sn m) = mgLog m @ [ReleaseRefused sn]"
      by (auto simp: sm_release_def Some Let_def sm_log_def sm_armIdle_def at_entry_def)
    then show ?thesis by auto
  qed
qed

lemma waiting_viewer:
  assumes "manager_ok m" "map_of (mgEntries m) sn = Some e" "enReset (mgStore m e) \<noteq> None"
  shows "length (enHolds (mgStore m e)) < enRetained (mgStore m e)"
proof -
  have "registered m e" using map_of_SomeD [OF assms(2)] by (force simp: registered_def)
  then show ?thesis using manager_okD(2) [OF assms(1), of e] assms(3) by (simp add: entry_ok_def)
qed

text \<open>
  C14. The manager closes a station on its own initiative only when no viewer is left. A step that announces
  such a close is the idle timer of the station's entry, which retains nothing; the release of the last
  viewer under a pending reset, which leaves only holds; or a reset that finds only holds. A hold that
  runs out never closes anything by itself. In each case the entry had a session.
\<close>

theorem auto_close_needs_no_viewer:
  assumes "m = manager_run opts tier evs" "AutoClosed sn \<in> set (logged opts m ev)"
  shows "\<exists>e. map_of (mgEntries m) sn = Some e \<and> enSession (mgStore m e) \<noteq> None \<and>
    (ev = IdleFires e \<and> enRetained (mgStore m e) = 0 \<or>
     ev = Release sn \<and> enReset (mgStore m e) \<noteq> None \<and> enRetained (mgStore m e) - 1 = length (enHolds (mgStore m e)) \<or>
     (\<exists>c. ev = ResetWhenUnused sn c) \<and> enRetained (mgStore m e) \<le> length (enHolds (mgStore m e)))"
proof -
  have ok: "manager_ok m" using run_ok by (simp add: assms(1))
  have loud: "\<not> quiet m (manager_step opts m ev)"
    using assms(2) by (auto simp: quiet_def logged_def)
  then consider k where "ev = Release k" | t where "ev = HoldExpires t" | e where "ev = IdleFires e" |
      k c where "ev = ResetWhenUnused k c"
    using quiet_step [of ev m opts] by blast
  then show ?thesis
  proof cases
    case 1
    from release_log [of opts k m] obtain e where e: "k = sn" "map_of (mgEntries m) sn = Some e"
      "enSession (mgStore m e) \<noteq> None" "enReset (mgStore m e) \<noteq> None" "enRetained (mgStore m e) \<le> Suc (length (enHolds (mgStore m e)))"
      using assms(2) by (auto simp: logged_def 1)
    then show ?thesis using waiting_viewer [OF ok e(2,4)] 1 by auto
  next
    case (2 t)
    obtain e k ms where t: "map_of (mgTimers m) t = Some (e, k, ms)"
      using loud 2 by (cases "map_of (mgTimers m) t") (auto simp: sm_holdExpires_def quiet_refl)
    have tm: "(t, e, k, ms) \<in> set (mgTimers m)" using t by (rule map_of_SomeD)
    have held: "t \<in> set (enHolds (mgStore m e))" using manager_okD(2) [OF ok, of e] tm by (auto simp: entry_ok_def)
    have k: "map_of (mgEntries m) k = Some e"
      using registry_timer [OF manager_okD(1) [OF ok] tm] entry_of_serial [OF manager_okD(1) [OF ok]] by simp
    from release_log [of opts k "hold_gone t e m"]
    have "enReset (mgStore m e) \<noteq> None \<and> enRetained (mgStore m e) \<le> Suc (length (remove1 t (enHolds (mgStore m e))))"
      using assms(2) k t by (auto simp: logged_def 2 holdExpires_releases hold_gone_def at_entry_def)
    moreover have "Suc (length (remove1 t (enHolds (mgStore m e)))) = length (enHolds (mgStore m e))"
      using held length_pos_if_in_set [OF held] by (simp add: length_remove1)
    ultimately show ?thesis using waiting_viewer [OF ok k] by simp
  next
    case (3 e)
    obtain k ms where i: "enIdle (mgStore m e) = Some (k, ms)"
      using loud 3 by (cases "enIdle (mgStore m e)") (auto simp: sm_idleFires_def quiet_refl)
    then have e: "(k, e) \<in> set (mgEntries m)" "enRetained (mgStore m e) = 0"
      using manager_okD(2) [OF ok, of e] by (auto simp: entry_ok_def)
    then have k: "map_of (mgEntries m) k = Some e" using entry_of_serial [OF manager_okD(1) [OF ok]] by simp
    let ?m = "at_entry e (\<lambda>x. x\<lparr>enIdle := None\<rparr>) m"
    have "manager_step opts m ev = sm_autoClose k [] ?m"
      using e k by (simp add: 3 sm_idleFires_def i sm_onIdle_def entry_store)
    then show ?thesis
      using autoClose_log [of k "[]" ?m] assms(2) k e by (auto simp: logged_def 3 at_entry_def)
  next
    case (4 k c)
    obtain e where e: "map_of (mgEntries m) k = Some e" "enRetained (mgStore m e) \<le> length (enHolds (mgStore m e))"
      using loud quiet_settle(1) [of m "[c]" True]
      by (cases "map_of (mgEntries m) k") (auto simp: 4 sm_resetWhenUnused_def quiet_def at_entry_def split: if_splits)
    then show ?thesis
      using autoClose_log [of k "[c]" m] assms(2) by (auto simp: logged_def 4 sm_resetWhenUnused_def)
  qed
qed

lemma auto_close_needs_no_viewer_witness:
  "\<exists>e. map_of (mgEntries (manager_run sample_opts (\<lambda>_. Battery) [Register ''S'' 7, Retain ''S'', Release ''S''])) ''S'' = Some e"
  using auto_close_needs_no_viewer [OF refl, of "''S''" sample_opts "\<lambda>_. Battery" "[Register ''S'' 7, Retain ''S'', Release ''S'']" "IdleFires 0"]
  by (auto simp: logged_def manager_run_def sm_register_def sm_entry_def sm_retain_def sm_release_def new_manager_def at_entry_def
      new_entry_def sm_armIdle_def sm_idleFires_def sm_onIdle_def sm_autoClose_def sm_discard_def sm_closeEntry_def
      sm_log_def BATTERY_IDLE_MS_def sample_opts_def)

section \<open>Callers of a close are told of it\<close>

definition settled_callers :: "manager_out list \<Rightarrow> nat list" where
  "settled_callers es = List.map_filter (\<lambda>x. case x of Settled c ok \<Rightarrow> Some c | _ \<Rightarrow> None) es"

lemma settled_callers_simps [simp]:
  "settled_callers [] = []" "settled_callers (xs @ ys) = settled_callers xs @ settled_callers ys"
  "settled_callers (map (\<lambda>c. Settled c ok) cs) = cs"
  by (induction xs) (simp_all add: settled_callers_def map_filter_simps split: option.split, induction cs, simp_all add: map_filter_simps)

lemma settled_callers_one: "settled_callers [x] = (case x of Settled c ok \<Rightarrow> [c] | _ \<Rightarrow> [])"
  by (simp add: settled_callers_def map_filter_simps split: manager_out.split)

text \<open>The callers that wait: for a close in progress, and for a reset that viewers keep off.\<close>

definition waiting_callers :: "manager \<Rightarrow> nat multiset" where
  "waiting_callers m = mset (concat (map snd (mgClosing m))) + (\<Sum>e < mgNext m. mset (reset_callers (mgStore m e)))"

definition callers :: "manager \<Rightarrow> nat multiset" where
  "callers m = mset (settled_callers (mgLog m)) + waiting_callers m"

lemma callers_ext:
  "settled_callers (mgLog m') = settled_callers (mgLog m) \<Longrightarrow> mgClosing m' = mgClosing m \<Longrightarrow> mgNext m' = mgNext m \<Longrightarrow>
    (\<And>e. reset_callers (mgStore m' e) = reset_callers (mgStore m e)) \<Longrightarrow> callers m' = callers m"
  by (simp add: callers_def waiting_callers_def)

lemma callers_log: "settled_callers [x] = [] \<Longrightarrow> callers (sm_log x m) = callers m"
  by (rule callers_ext) (simp_all add: sm_log_def)

lemma callers_at: "reset_callers (f (mgStore m e)) = reset_callers (mgStore m e) \<Longrightarrow> callers (at_entry e f m) = callers m"
  by (rule callers_ext) (simp_all add: at_entry_def)

lemma callers_settle: "callers (settle cs ok m) = callers m + mset cs"
  by (simp add: callers_def waiting_callers_def settle_def)

lemma callers_closeEntry: "callers (sm_closeEntry e cs m) = callers m + mset cs"
  by (simp add: callers_def waiting_callers_def sm_closeEntry_def Let_def sm_log_def settled_callers_one split: option.split)

lemma sum_upd:
  "e < (n :: nat) \<Longrightarrow> (\<Sum>k < n. f ((g(e := y)) k)) + f (g e) = (\<Sum>k < n. f (g k)) + (f y :: 'a multiset)"
proof -
  assume e: "e < n"
  have "(\<Sum>k < n. f ((g(e := y)) k)) = f y + (\<Sum>k \<in> {..<n} - {e}. f (g k))"
    using e by (subst sum.remove [of _ e]) (auto intro: sum.cong)
  moreover have "(\<Sum>k < n. f (g k)) = f (g e) + (\<Sum>k \<in> {..<n} - {e}. f (g k))"
    using e by (subst sum.remove [of _ e]) auto
  ultimately show ?thesis by simp
qed

lemma callers_settleReset: "e < mgNext m \<Longrightarrow> callers (sm_settleReset e ok m) = callers m"
  using sum_upd [of e "mgNext m" "\<lambda>x. mset (reset_callers x)" "mgStore m" "(mgStore m e)\<lparr>enReset := None\<rparr>"]
  by (simp add: callers_def waiting_callers_def sm_settleReset_def settle_def at_entry_def reset_callers_def ac_simps)

lemma callers_entry: "sm_entry sn m = (e, m1) \<Longrightarrow> callers m1 = callers m"
  by (auto simp: sm_entry_def callers_def waiting_callers_def reset_callers_def new_entry_def split: option.splits)

lemma callers_discard: "sm_discard sn m = Some (e, m1) \<Longrightarrow> callers m1 = callers m"
  by (auto simp: discard_some reset_callers_def intro!: callers_ext)

lemma callers_autoClose: "callers (sm_autoClose sn cs m) = callers m + mset cs"
  by (auto simp: sm_autoClose_def callers_settle callers_closeEntry callers_log settled_callers_one dest: callers_discard
      split: option.split)

lemma callers_release: "callers (sm_release opts sn m) = callers m"
  by (auto simp: sm_release_def Let_def callers_log settled_callers_one callers_autoClose callers_at sm_armIdle_def
      reset_callers_def split: option.split)

fun asks :: "manager_event \<Rightarrow> nat list" where
  "asks (CloseStation sn c) = [c]"
| "asks (ResetWhenUnused sn c) = [c]"
| "asks ev = []"

lemma discard_below: "manager_ok m \<Longrightarrow> sm_discard sn m = Some (e, m1) \<Longrightarrow> e < mgNext m1"
  using ok_discard [of m sn e m1] by (simp add: between_def stranded_def)

lemma callers_reset:
  assumes "manager_ok m"
  shows "callers (sm_resetWhenUnused sn c m) = add_mset c (callers m)"
proof -
  have "callers (at_entry e (\<lambda>x. x\<lparr>enReset := Some (reset_callers x @ [c])\<rparr>) m) = add_mset c (callers m)"
    if "map_of (mgEntries m) sn = Some e" for e
  proof -
    have "registered m e" using map_of_SomeD [OF that] by (force simp: registered_def)
    then have "e < mgNext m" using manager_okD(1) [OF assms] by (simp add: registry_ok_def)
    from sum_upd [OF this, of "\<lambda>x. mset (reset_callers x)" "mgStore m"
        "(mgStore m e)\<lparr>enReset := Some (reset_callers (mgStore m e) @ [c])\<rparr>"]
    show ?thesis by (simp add: callers_def waiting_callers_def at_entry_def reset_callers_def)
  qed
  then show ?thesis by (simp add: sm_resetWhenUnused_def callers_settle callers_autoClose split: option.split)
qed

lemma callers_alls: "callers (close_alls e ok m) = callers m"
proof -
  have "settled_callers (List.map_filter (\<lambda>(c, es, n). if es = [] then Some (AllSettled c n) else None) l) = []" for l
    by (induction l) (auto simp: map_filter_simps settled_callers_def split: option.split if_splits)
  then show ?thesis by (intro callers_ext) (simp_all add: close_alls_def Let_def)
qed

lemma concat_remove:
  "distinct (map fst l) \<Longrightarrow> map_of l e = Some cs \<Longrightarrow>
    mset (concat (map snd l)) = mset cs + mset (concat (map snd (filter (\<lambda>(k, _). k \<noteq> e) l)))"
proof (induction l)
  case (Cons p l)
  show ?case
  proof (cases "fst p = e")
    case True
    have "filter (\<lambda>(k, _). k \<noteq> e) l = l"
    proof (intro filter_True ballI)
      fix x
      assume "x \<in> set l"
      then have "fst x \<in> fst ` set l" by simp
      then show "case x of (k, _) \<Rightarrow> k \<noteq> e" using Cons.prems(1) True by (cases x) (force simp: image_iff)
    qed
    then show ?thesis using Cons.prems True by (cases p) simp
  next
    case False
    then show ?thesis using Cons by (cases p) (simp add: ac_simps)
  qed
qed simp

lemma callers_entryClosed:
  assumes "manager_ok m"
  shows "callers (sm_entryClosed e ok m) = callers m"
proof (cases "map_of (mgClosing m) e")
  case None
  then show ?thesis by (simp add: sm_entryClosed_def)
next
  case (Some cs)
  let ?m = "m\<lparr>mgClosing := filter (\<lambda>(k, _). k \<noteq> e) (mgClosing m)\<rparr>"
  have rk: "registry_ok m" using assms by (rule manager_okD)
  have "e \<in> fst ` set (mgClosing m)" using map_of_SomeD [OF Some] by force
  then have "e < mgNext ?m" using rk by (auto simp: registry_ok_def)
  moreover have "callers m = callers ?m + mset cs"
    using concat_remove [OF _ Some] rk by (simp add: callers_def waiting_callers_def registry_ok_def ac_simps)
  ultimately show ?thesis
    by (simp add: sm_entryClosed_def Some Let_def callers_alls callers_settle callers_settleReset)
qed

lemma callers_discard_all: "callers (snd (discard_all sns m)) = callers m"
  by (induction sns m rule: discard_all.induct) (auto split: option.split prod.split dest: callers_discard)

lemma callers_folds: "callers (foldl (\<lambda>m e. sm_closeEntry e [] m) m es) = callers m"
  by (induction es arbitrary: m) (simp_all add: callers_closeEntry)

lemma callers_closeAll: "callers (sm_closeAll c m) = callers m"
proof -
  let ?m = "m\<lparr>mgGeneration := mgGeneration m + 1\<rparr>"
  obtain es m1 where d: "discard_all (map fst (mgEntries m)) ?m = (es, m1)" by fastforce
  have "callers m1 = callers ?m" using callers_discard_all [of "map fst (mgEntries m)" ?m] d by simp
  also have "\<dots> = callers m" by (rule callers_ext) simp_all
  finally have m1: "callers m1 = callers m" .
  have "callers (m'\<lparr>mgAlls := x\<rparr>) = callers m'" for m' x by (rule callers_ext) simp_all
  then show ?thesis unfolding sm_closeAll_def Let_def d prod.case
    using m1 callers_folds [of m1 es] by (simp add: callers_log settled_callers_one split: if_split)
qed

lemma callers_opens: "callers (m\<lparr>mgOpens := x\<rparr>) = callers m" "callers (m\<lparr>mgNextOpen := n\<rparr>) = callers m"
  "callers (m\<lparr>mgSuperseded := y\<rparr>) = callers m" "callers (m\<lparr>mgTier := t\<rparr>) = callers m"
  "callers (m\<lparr>mgTimers := ts, mgNextTimer := n\<rparr>) = callers m" "callers (m\<lparr>mgTimers := ts\<rparr>) = callers m"
  by (rule callers_ext; simp)+

lemma callers_told:
  "settled_callers (map (\<lambda>c. Acquired c s) cs) = []" "settled_callers (map AcquireFailed cs) = []"
  by (induction cs) (simp_all add: settled_callers_def map_filter_simps)

lemma callers_opened: "settled_callers xs = [] \<Longrightarrow> callers (m\<lparr>mgOpens := os, mgLog := mgLog m @ xs\<rparr>) = callers m"
  by (rule callers_ext) simp_all

lemma callers_over: "callers (open_over i p m) = callers m"
  unfolding open_over_def by (rule callers_at) (simp add: reset_callers_def)

lemma callers_factory:
  "callers (sm_factoryRegisters i s m) = callers m" "callers (sm_factoryDone i s m) = callers m"
  "callers (sm_factoryFails i m) = callers m" "callers (sm_supersededClosed i ok m) = callers m"
  unfolding sm_factoryRegisters_def sm_factoryDone_def sm_factoryFails_def sm_supersededClosed_def Let_def
  by (auto simp: callers_over callers_log settled_callers_one callers_opens callers_opened callers_told reset_callers_def
      callers_at split: option.split)

lemma callers_hold: "callers (sm_hold sn ms m) = callers m"
proof -
  obtain e m0 where e: "sm_entry sn m = (e, m0)" by fastforce
  obtain e' m1 where r: "sm_entry sn m0 = (e', m1)" by fastforce
  show ?thesis
    by (simp add: sm_hold_def sm_retain_def e r Let_def callers_opens callers_at reset_callers_def
        callers_entry [OF e] callers_entry [OF r])
qed

lemma callers_step:
  assumes "manager_ok m"
  shows "callers (manager_step opts m ev) = callers m + mset (asks ev)"
proof (cases ev)
  case (Register sn s)
  then show ?thesis
    by (auto simp: sm_register_def Let_def callers_at reset_callers_def dest: callers_entry split: prod.split)
next
  case (Acquire sn c)
  then show ?thesis
    by (auto simp: sm_acquire_def Let_def callers_opens callers_log settled_callers_one callers_at reset_callers_def
        dest: callers_entry split: prod.split option.split)
next
  case (Retain sn)
  then show ?thesis
    by (auto simp: sm_retain_def Let_def callers_at reset_callers_def dest: callers_entry split: prod.split)
next
  case (HoldExpires t)
  then show ?thesis
    by (auto simp: sm_holdExpires_def callers_release callers_opens callers_at reset_callers_def split: option.split)
next
  case (IdleFires e)
  then show ?thesis
    by (auto simp: sm_idleFires_def sm_onIdle_def callers_autoClose callers_at reset_callers_def split: option.split)
next
  case (Remove sn)
  then show ?thesis
    by (auto simp: sm_remove_def split: option.split dest: callers_discard)
      (simp add: callers_settleReset discard_below [OF assms] callers_discard)
next
  case (CloseStation sn c)
  then show ?thesis
    by (auto simp: sm_close_def callers_settle callers_closeEntry split: option.split dest: callers_discard)
qed (simp_all add: callers_factory callers_release callers_hold sm_bumpCommand_def callers_reset [OF assms] callers_closeAll
    callers_entryClosed [OF assms] callers_opens)

text \<open>
  C13. Nobody who asks for a close or a reset is forgotten, or told twice: at any time the callers told of
  an outcome and those still waiting are together, with multiplicity, the ones that asked. A caller waits
  only for a close in progress, or for a reset on a registered entry that at least one viewer, beside its
  holds, keeps open.
\<close>

theorem reset_callers_settle_once:
  assumes "m = manager_run opts tier evs"
  shows "mset (settled_callers (mgLog m)) + waiting_callers m = mset (concat (map asks evs)) \<and>
    (\<forall>e. reset_callers (mgStore m e) = [] \<or> e \<in> fst ` set (mgClosing m) \<or>
       registered m e \<and> length (enHolds (mgStore m e)) < enRetained (mgStore m e))"
proof
  have "callers (manager_run opts tier evs) = mset (concat (map asks evs))"
  proof (induction evs rule: rev_induct)
    case Nil
    show ?case
      by (simp add: manager_run_def new_manager_def callers_def waiting_callers_def reset_callers_def new_entry_def)
  next
    case (snoc ev evs)
    then show ?case using callers_step [OF run_ok [of opts tier evs], of opts ev] by (simp add: manager_run_def)
  qed
  then show "mset (settled_callers (mgLog m)) + waiting_callers m = mset (concat (map asks evs))"
    by (simp add: assms callers_def)
  show "\<forall>e. reset_callers (mgStore m e) = [] \<or> e \<in> fst ` set (mgClosing m) \<or>
       registered m e \<and> length (enHolds (mgStore m e)) < enRetained (mgStore m e)"
  proof
    fix e
    show "reset_callers (mgStore m e) = [] \<or> e \<in> fst ` set (mgClosing m) \<or>
       registered m e \<and> length (enHolds (mgStore m e)) < enRetained (mgStore m e)"
      using manager_okD(2) [OF run_ok [of opts tier evs], of e]
      by (cases "registered m e"; cases "enReset (mgStore m e)") (simp_all add: entry_ok_def assms reset_callers_def)
  qed
qed

lemma reset_callers_settle_once_witness:
  "mset (settled_callers (mgLog (manager_run sample_opts (\<lambda>_. Wired) [Retain ''S'', ResetWhenUnused ''S'' 4]))) +
     waiting_callers (manager_run sample_opts (\<lambda>_. Wired) [Retain ''S'', ResetWhenUnused ''S'' 4]) = {#4#}"
  using reset_callers_settle_once [OF refl, of sample_opts "\<lambda>_. Wired" "[Retain ''S'', ResetWhenUnused ''S'' 4]"] by simp

section \<open>How an open ends\<close>

text \<open>
  An open ends by the entry it began on. When the factory answers and its entry is still the
  station's, in the same generation, the caller is given the session the registry holds from then on. When
  the entry was closed or replaced meanwhile, the session is closed, the registry is left as it is, and
  the caller is given the superseded error once that close is over. A caller that joined the open is given
  the factory's session in either case, a superseded and closing one included.
\<close>

theorem open_ends:
  assumes "map_of (mgOpens m) i = Some p"
  shows "if superseded p m
    then logged opts m (FactoryDone i s) = map (\<lambda>c. Acquired c s) (opJoined p) @ [SessionClose s] \<and>
      (\<forall>sn. sm_get sn (manager_step opts m (FactoryDone i s)) = sm_get sn m) \<and>
      (i \<notin> fst ` set (mgSuperseded m) \<longrightarrow>
        logged opts (manager_step opts m (FactoryDone i s)) (SupersededClosed i True) = [AcquireSuperseded (opCaller p)])
    else (\<exists>s'. sm_get (opSerial p) (manager_step opts m (FactoryDone i s)) = Some s' \<and>
      (s' = s \<or> sm_get (opSerial p) m = Some s') \<and>
      logged opts m (FactoryDone i s) = map (\<lambda>c. Acquired c s) (opJoined p) @ [Acquired (opCaller p) s'])"
proof (cases "superseded p m")
  case True
  have "i \<notin> fst ` set (mgSuperseded m) \<Longrightarrow> map_of (mgSuperseded m @ [(i, p)]) i = Some p"
    by (simp add: map_add_def map_of_eq_None_iff split: option.split)
      (metis map_of_eq_None_iff option.distinct(1))
  then show ?thesis using True assms
    by (auto simp: logged_def sm_factoryDone_def Let_def sm_log_def sm_get_def sm_supersededClosed_def open_over_def
        at_entry_def split: option.split)
next
  case False
  then have e: "map_of (mgEntries m) (opSerial p) = Some (opEntry p)" by (simp add: superseded_def)
  show ?thesis using False assms e
    by (cases "enSession (mgStore m (opEntry p))")
      (auto simp: logged_def sm_factoryDone_def Let_def sm_log_def sm_get_def open_over_def at_entry_def)
qed


text \<open>Two callers, a close while the factory runs: only the first is told.\<close>

definition overtaken :: "manager_event list" where
  "overtaken = [Acquire ''S'' 0, Acquire ''S'' 1, CloseStation ''S'' 9]"

lemma overtaken_open:
  "map_of (mgOpens (manager_run sample_opts tier overtaken)) 0 =
     Some \<lparr>opSerial = ''S'', opEntry = 0, opGeneration = 0, opCaller = 0, opJoined = [1]\<rparr>"
  "mgEntries (manager_run sample_opts tier overtaken) = []" "mgSuperseded (manager_run sample_opts tier overtaken) = []"
  by (simp_all add: overtaken_def manager_run_def sm_acquire_def sm_entry_def new_manager_def new_entry_def at_entry_def
      sm_close_def sm_discard_def sm_closeEntry_def)

lemma open_ends_witness:
  "logged sample_opts (manager_run sample_opts (\<lambda>_. Wired) overtaken) (FactoryDone 0 5) = [Acquired 1 5, SessionClose 5]"
  using open_ends [OF overtaken_open(1) [of "\<lambda>_. Wired"], of sample_opts 5] by (simp add: superseded_def overtaken_open)

text \<open>
  A session replaced under a viewer: its entry's count goes with the entry. The viewer that retained once
  and never released is not counted on the replacement, so when the hold of the command that reopened it runs
  out, a battery station's idle window starts under the viewer.
\<close>

lemma replacement_forgets_viewer:
  "enIdle (mgStore (manager_run sample_opts (\<lambda>_. Battery)
     [Register ''S'' 5, Retain ''S'', CloseStation ''S'' 0, Register ''S'' 6, BumpCommand ''S'', HoldExpires 0]) 1) =
   Some (''S'', BATTERY_IDLE_MS)"
  by (simp add: manager_run_def sm_register_def sm_entry_def new_manager_def new_entry_def at_entry_def sm_retain_def
      sm_close_def sm_discard_def sm_closeEntry_def sm_log_def sm_bumpCommand_def sm_hold_def sm_holdExpires_def
      sm_release_def sm_armIdle_def sample_opts_def)

end
