(* ===== verification/Ff09.thy ===== *)
theory Ff09
  imports P2p_Codec
begin

text \<open>
  The \<open>ff09\<close> frames of \<open>src/transport/ff09.ts\<close>, by which locks and garage doors are driven over
  both transports: the builders (actuate, settings query, settings write, single toggle), the opener of
  a reply, the parser of its settings, and the read-modify-write of the auto-lock settings.

  The clock (\<open>Math.floor(Date.now() / 1000)\<close>), the random nonce (\<open>Math.floor(Math.random() * 100)\<close>) and
  AES-128-CBC of \<open>node:crypto\<close> with its PKCS#7 padding on are the environment. Account ids, serials
  and short ids are ASCII; a user name, which need not be, is the list of its UTF-16 code units.
\<close>

section \<open>The environment\<close>

record ff09_env =
  envNow :: int
  envNonce :: int
  cbcEncrypt :: "buffer \<Rightarrow> buffer \<Rightarrow> buffer \<Rightarrow> buffer"
  cbcDecrypt :: "buffer \<Rightarrow> buffer \<Rightarrow> buffer \<Rightarrow> buffer option"

text \<open>
  What the frames rely on: under a 16-byte key and a 16-byte IV a ciphertext decrypts to its
  plaintext, and PKCS#7 makes it the next whole number of blocks.
\<close>

definition cbc_contract :: "ff09_env \<Rightarrow> bool" where
  "cbc_contract env \<longleftrightarrow>
     (\<forall>key iv p. length key = 16 \<longrightarrow> length iv = 16 \<longrightarrow>
        cbcDecrypt env key iv (cbcEncrypt env key iv p) = Some p \<and>
        length (cbcEncrypt env key iv p) = 16 * (length p div 16 + 1))"

section \<open>Commands\<close>

definition LOCK_API_ON_OFF_LOCK :: int where "LOCK_API_ON_OFF_LOCK = 6018"
definition LOCK_API_GET_SETTINGS :: int where "LOCK_API_GET_SETTINGS = 6016"
definition LOCK_API_SET_SETTINGS :: int where "LOCK_API_SET_SETTINGS = 6015"
definition LOCK_CODE_ON_OFF_LOCK :: int where "LOCK_CODE_ON_OFF_LOCK = 35"
definition LOCK_CODE_GET_SETTINGS :: int where "LOCK_CODE_GET_SETTINGS = 53"
definition LOCK_CODE_SET_SETTINGS :: int where "LOCK_CODE_SET_SETTINGS = 52"

lemmas lock_codes =
  LOCK_API_ON_OFF_LOCK_def LOCK_API_GET_SETTINGS_def LOCK_API_SET_SETTINGS_def
  LOCK_CODE_ON_OFF_LOCK_def LOCK_CODE_GET_SETTINGS_def LOCK_CODE_SET_SETTINGS_def

record ff09_frame =
  frPayload :: string
  frTime :: int
  frSeqNum :: int
  frApiCommand :: int

text \<open>The members of the \<open>TRANSFER_PAYLOAD\<close> object, by name.\<close>

datatype payload_value = PvNumber int | PvText string

definition ff09TransferPayload :: "ff09_frame \<Rightarrow> (string \<times> payload_value) list" where
  "ff09TransferPayload frame =
     [(''apiCommand'', PvNumber (frApiCommand frame)), (''lock_payload'', PvText (frPayload frame)),
      (''seq_num'', PvNumber (frSeqNum frame)), (''time'', PvNumber (frTime frame))]"

section \<open>Fields and padding\<close>

fun writeTlv_from :: "nat \<Rightarrow> buffer list \<Rightarrow> js_error + buffer" where
  "writeTlv_from sep [] = Inr []"
| "writeTlv_from sep (f # fs) =
     (if length f > 0xff then Inl (UserError ''TLV field too long'')
      else res_bind (writeTlv_from (sep + 1) fs)
        (\<lambda>rest. Inr ([of_nat sep, of_nat (length f)] @ f @ rest)))"

definition writeTlv :: "buffer list \<Rightarrow> js_error + buffer" where
  "writeTlv fs = writeTlv_from 0xa1 fs"

definition zeroPadToBlock :: "buffer \<Rightarrow> buffer" where
  "zeroPadToBlock data =
     (let sz = (if length data < 16 then 16 else ceil_to 16 (length data))
      in data @ replicate (sz - length data) 0)"

interpretation ff09_pad: zero_padder zeroPadToBlock 16
  by (rule zero_padder_by_ceil) (simp_all add: zeroPadToBlock_def Let_def)

definition xor_bytes :: "buffer \<Rightarrow> byte" where
  "xor_bytes b = fold (XOR) b 0"

text \<open>\<open>n >>> 0\<close> and \<open>(a | b) >>> 0\<close>.\<close>

definition to_uint32 :: "int \<Rightarrow> int" where
  "to_uint32 n = take_bit 32 n"

definition ff09_key :: "string \<Rightarrow> int \<Rightarrow> buffer" where
  "ff09_key adminUserId keyTime = bytes_of_string (slice_last 12 adminUserId) @ u32be keyTime"

definition ff09_iv :: "string \<Rightarrow> buffer" where
  "ff09_iv deviceSn = take 16 (bytes_of_string deviceSn @ replicate 16 0)"

definition assembleFf09Frame ::
  "ff09_env \<Rightarrow> int \<Rightarrow> int \<Rightarrow> buffer \<Rightarrow> string \<Rightarrow> string \<Rightarrow> int \<Rightarrow> int \<Rightarrow> ff09_frame" where
  "assembleFf09Frame env commandCode apiCommand plain_bytes adminUserId deviceSn keyTime seqNum =
     (let ct = cbcEncrypt env (ff09_key adminUserId keyTime) (ff09_iv deviceSn) plain_bytes;
          body = [0x03, 0x00, 0x02] @ u16be (0x4000 OR commandCode) @ ct;
          sz = 2 + 2 + length body + 1;
          preXor = [0xff, 0x09] @ u16le (int sz) @ body;
          frame = preXor @ [xor_bytes preXor]
      in \<lparr>frPayload = hex_encode frame, frTime = keyTime, frSeqNum = seqNum, frApiCommand = apiCommand\<rparr>)"

section \<open>Identity and stamps\<close>

record ff09_stamp =
  stUnixTime :: "int option"
  stNonce :: "int option"
  stSeqNum :: "int option"

definition ff09_resolved :: "ff09_env \<Rightarrow> ff09_stamp \<Rightarrow> int \<times> int \<times> int" where
  "ff09_resolved env st =
     (let unixTime = to_uint32 (case stUnixTime st of Some t \<Rightarrow> t | None \<Rightarrow> envNow env);
          nonce = (case stNonce st of Some n \<Rightarrow> n | None \<Rightarrow> envNonce env);
          keyTime = to_uint32 (unixTime OR nonce);
          seqNum = to_uint32 (case stSeqNum st of Some s \<Rightarrow> s | None \<Rightarrow> unixTime)
      in (unixTime, keyTime, seqNum))"

definition ff09_identity :: "string \<Rightarrow> string \<Rightarrow> js_error + unit" where
  "ff09_identity adminUserId deviceSn =
     (if adminUserId = [] then Inl (UserError ''adminUserId is required'')
      else if deviceSn = [] then Inl (UserError ''deviceSn is required'')
      else if length adminUserId < 12 then Inl (UserError ''adminUserId too short'')
      else if length deviceSn > 16 then Inl (UserError ''deviceSn too long'')
      else Inr ())"

definition resolveFf09Identity ::
  "ff09_env \<Rightarrow> string \<Rightarrow> string \<Rightarrow> ff09_stamp \<Rightarrow> js_error + int \<times> int \<times> int" where
  "resolveFf09Identity env adminUserId deviceSn st =
     res_bind (ff09_identity adminUserId deviceSn) (\<lambda>_. Inr (ff09_resolved env st))"

section \<open>The builders\<close>

record ff09_frame_input = ff09_stamp +
  fiEngage :: bool
  fiAdminUserId :: string
  fiUsername :: "16 word list option"
  fiShortUserId :: "string option"
  fiOmitUserFields :: bool
  fiDeviceSn :: string

definition falsy :: "'a list option \<Rightarrow> bool" where
  "falsy x \<longleftrightarrow> x = None \<or> x = Some []"

text \<open>\<open>Buffer.from(s, "ascii")\<close>: the low byte of each code unit.\<close>

definition ascii_bytes :: "16 word list \<Rightarrow> buffer" where
  "ascii_bytes s = map ucast s"

definition buildFf09Frame :: "ff09_env \<Rightarrow> ff09_frame_input \<Rightarrow> js_error + ff09_frame" where
  "buildFf09Frame env i =
     (let adminUserId = fiAdminUserId i; deviceSn = fiDeviceSn i in
      res_bind (ff09_identity adminUserId deviceSn) (\<lambda>_.
        if \<not> fiOmitUserFields i \<and> (falsy (fiUsername i) \<or> falsy (fiShortUserId i))
        then Inl (UserError ''username + shortUserId are required'')
        else if \<not> fiOmitUserFields i \<and>
             \<not> (is_hex (the (fiShortUserId i)) \<and> even (length (the (fiShortUserId i))))
        then Inl (UserError ''shortUserId must be an even-length hex string'')
        else
          (case ff09_resolved env (ff09_stamp.truncate i) of (unixTime, keyTime, seqNum) \<Rightarrow>
             let tlvFields = [u32le unixTime, bytes_of_string adminUserId, [if fiEngage i then 0 else 1]]
                   @ (if fiOmitUserFields i then []
                      else [ascii_bytes (the (fiUsername i)), hex_decode (the (fiShortUserId i))])
             in res_bind (writeTlv tlvFields) (\<lambda>tlv.
                  Inr (assembleFf09Frame env LOCK_CODE_ON_OFF_LOCK LOCK_API_ON_OFF_LOCK
                         (zeroPadToBlock tlv) adminUserId deviceSn keyTime seqNum)))))"

definition buildFf09QueryFrame ::
  "ff09_env \<Rightarrow> string \<Rightarrow> string \<Rightarrow> ff09_stamp \<Rightarrow> js_error + ff09_frame" where
  "buildFf09QueryFrame env adminUserId deviceSn st =
     res_bind (resolveFf09Identity env adminUserId deviceSn st)
       (\<lambda>(unixTime, keyTime, seqNum).
         res_bind (writeTlv [u32le unixTime, bytes_of_string adminUserId]) (\<lambda>tlv.
           Inr (assembleFf09Frame env LOCK_CODE_GET_SETTINGS LOCK_API_GET_SETTINGS
                  (zeroPadToBlock tlv) adminUserId deviceSn keyTime seqNum)))"

record ff09_settings_input = ff09_stamp +
  siAdminUserId :: string
  siDeviceSn :: string
  siEnabled :: bool
  siDelay :: int
  siA7 :: int
  siA8 :: int

definition settings_fields :: "ff09_settings_input \<Rightarrow> int \<Rightarrow> buffer list" where
  "settings_fields i unixTime =
     [u32le unixTime, bytes_of_string (siAdminUserId i), [0x00], [if siEnabled i then 1 else 0],
      u16le (siDelay i), [0x00], u16le (siA7 i), u16le (siA8 i), [0x00]]"

definition buildFf09SettingsFrame :: "ff09_env \<Rightarrow> ff09_settings_input \<Rightarrow> js_error + ff09_frame" where
  "buildFf09SettingsFrame env i =
     res_bind (resolveFf09Identity env (siAdminUserId i) (siDeviceSn i) (ff09_stamp.truncate i))
       (\<lambda>(unixTime, keyTime, seqNum).
         res_bind (writeTlv (settings_fields i unixTime)) (\<lambda>tlv.
           Inr (assembleFf09Frame env LOCK_CODE_SET_SETTINGS LOCK_API_SET_SETTINGS
                  (zeroPadToBlock tlv) (siAdminUserId i) (siDeviceSn i) keyTime seqNum)))"

definition buildFf09SettingToggleFrame ::
  "ff09_env \<Rightarrow> string \<Rightarrow> string \<Rightarrow> int \<Rightarrow> bool \<Rightarrow> ff09_stamp \<Rightarrow> js_error + ff09_frame" where
  "buildFf09SettingToggleFrame env adminUserId deviceSn settingId v st =
     res_bind (resolveFf09Identity env adminUserId deviceSn st)
       (\<lambda>(unixTime, keyTime, seqNum).
         res_bind (writeTlv [u32le unixTime, bytes_of_string adminUserId, [word_of_int settingId],
                             [if v then 1 else 0]]) (\<lambda>tlv.
           Inr (assembleFf09Frame env LOCK_CODE_SET_SETTINGS LOCK_API_SET_SETTINGS
                  (zeroPadToBlock tlv) adminUserId deviceSn keyTime seqNum)))"

section \<open>Opening a reply\<close>

definition decryptFf09Frame :: "ff09_env \<Rightarrow> string \<Rightarrow> int \<Rightarrow> string \<Rightarrow> string \<Rightarrow> js_error + buffer" where
  "decryptFf09Frame env lockPayload keyTime adminUserId deviceSn =
     (if adminUserId = [] then Inl (UserError ''adminUserId is required'')
      else if deviceSn = [] then Inl (UserError ''deviceSn is required'')
      else if length adminUserId < 12 then Inl (UserError ''adminUserId too short'')
      else
        (let buf = hex_decode lockPayload in
         if length buf < 10 \<or> buf ! 0 \<noteq> 0xff \<or> buf ! 1 \<noteq> 0x09 then Inl (UserError ''missing ff09 magic'')
         else if u16le_at buf 2 \<noteq> length buf then Inl (UserError ''size mismatch'')
         else if xor_bytes (slice 0 (length buf - 1) buf) \<noteq> buf ! (length buf - 1)
           then Inl (UserError ''XOR checksum'')
         else
           (case cbcDecrypt env (ff09_key adminUserId (to_uint32 keyTime)) (ff09_iv deviceSn)
                   (slice 9 (length buf - 1) buf) of
              Some p \<Rightarrow> Inr p
            | None \<Rightarrow> Inl (UserError ''decrypt''))))"

record ff09_settings =
  fsStatus :: byte
  fsFields :: "byte \<rightharpoonup> buffer"

function ff09_fields :: "buffer \<Rightarrow> nat \<Rightarrow> (byte \<rightharpoonup> buffer) \<Rightarrow> (byte \<rightharpoonup> buffer)" where
  "ff09_fields b i fs =
     (if i + 2 \<le> length b then
        (let sep = b ! i in
         if sep = 0 then fs
         else
           (let len = unat (b ! (i + 1)) in
            if i + 2 + len > length b then fs
            else ff09_fields b (i + 2 + len) (fs(sep \<mapsto> slice (i + 2) (i + 2 + len) b))))
      else fs)"
  by pat_completeness auto
termination ff09_fields by (relation "measure (\<lambda>(b, i, _). length b - i)") auto

declare ff09_fields.simps [simp del]

definition parseFf09SettingsResponse :: "buffer \<Rightarrow> js_error + ff09_settings" where
  "parseFf09SettingsResponse b =
     (if length b < 1 then Inl (UserError ''settings response too short'')
      else Inr \<lparr>fsStatus = b ! 0, fsFields = ff09_fields b 1 Map.empty\<rparr>)"

definition readFf09U16LE :: "buffer option \<Rightarrow> js_error + nat" where
  "readFf09U16LE field =
     (case field of
        Some f \<Rightarrow> if length f < 2 then Inl (UserError ''missing/short field'') else Inr (u16le_at f 0)
      | None \<Rightarrow> Inl (UserError ''missing/short field''))"

definition readFf09U8 :: "buffer option \<Rightarrow> js_error + byte" where
  "readFf09U8 field =
     (case field of
        Some f \<Rightarrow> if length f < 1 then Inl (UserError ''missing field'') else Inr (f ! 0)
      | None \<Rightarrow> Inl (UserError ''missing field''))"

definition readFf09HourMinute :: "buffer option \<Rightarrow> js_error + byte \<times> byte" where
  "readFf09HourMinute field =
     (case field of
        Some f \<Rightarrow> if length f < 2 then Inl (UserError ''missing/short field'') else Inr (f ! 0, f ! 1)
      | None \<Rightarrow> Inl (UserError ''missing/short field''))"

record auto_lock_snapshot =
  alEnabled :: bool
  alDelaySeconds :: nat
  alIsSchedule :: bool
  alScheduleStart :: "byte \<times> byte"
  alScheduleEnd :: "byte \<times> byte"

definition decodeFf09AutoLockSnapshot :: "ff09_settings \<Rightarrow> js_error + auto_lock_snapshot" where
  "decodeFf09AutoLockSnapshot parsed =
     res_bind (readFf09U8 (fsFields parsed 0xa1)) (\<lambda>enabled.
     res_bind (readFf09U16LE (fsFields parsed 0xa2)) (\<lambda>delay.
     res_bind (readFf09U8 (fsFields parsed 0xa3)) (\<lambda>sched.
     res_bind (readFf09HourMinute (fsFields parsed 0xa4)) (\<lambda>start.
     res_bind (readFf09HourMinute (fsFields parsed 0xa5)) (\<lambda>end_time.
       Inr \<lparr>alEnabled = (enabled \<noteq> 0), alDelaySeconds = delay, alIsSchedule = (sched \<noteq> 0),
            alScheduleStart = start, alScheduleEnd = end_time\<rparr>)))))"

definition buildFf09AutolockSetFrame ::
  "ff09_env \<Rightarrow> string \<Rightarrow> int \<Rightarrow> string \<Rightarrow> string \<Rightarrow> bool \<Rightarrow> int option \<Rightarrow> js_error + ff09_frame" where
  "buildFf09AutolockSetFrame env lockPayload keyTime adminUserId deviceSn enabled delaySeconds =
     res_bind (decryptFf09Frame env lockPayload keyTime adminUserId deviceSn) (\<lambda>b.
     res_bind (parseFf09SettingsResponse b) (\<lambda>parsed.
     res_bind (readFf09U16LE (fsFields parsed 0xa2)) (\<lambda>currentDelay.
     res_bind (readFf09U16LE (fsFields parsed 0xa4)) (\<lambda>currentA7.
     res_bind (readFf09U16LE (fsFields parsed 0xa5)) (\<lambda>currentA8.
       buildFf09SettingsFrame env
         \<lparr>stUnixTime = None, stNonce = None, stSeqNum = None,
          siAdminUserId = adminUserId, siDeviceSn = deviceSn, siEnabled = enabled,
          siDelay = (case delaySeconds of Some d \<Rightarrow> d | None \<Rightarrow> int currentDelay),
          siA7 = int currentA7, siA8 = int currentA8\<rparr>)))))"

section \<open>Matching a reply to its query\<close>

text \<open>
  \<open>parseInt(s, 16)\<close>: spaces, a sign, an optional \<open>0x\<close>, the leading run of hex digits; the value is
  rounded to a double. A JSON number is an integer here; \<open>Infinity\<close> (a run past 2 to the 1024) and
  NaN are both \<open>None\<close> behind \<open>Number.isFinite\<close>.
\<close>

definition hex_run_value :: "string \<Rightarrow> nat" where
  "hex_run_value s = foldl (\<lambda>n c. 16 * n + (case hex_value c of Some d \<Rightarrow> d | None \<Rightarrow> 0)) 0 s"

definition parse_int16 :: "string \<Rightarrow> int option" where
  "parse_int16 s =
     (let t = dropWhile is_space s;
          neg = (t \<noteq> [] \<and> hd t = CHR ''-'');
          u = (if t \<noteq> [] \<and> (hd t = CHR ''-'' \<or> hd t = CHR ''+'') then tl t else t);
          v = (if take 2 u = ''0x'' \<or> take 2 u = ''0X'' then drop 2 u else u);
          ds = takeWhile (\<lambda>c. hex_value c \<noteq> None) v
      in if ds = [] then None
         else Some (js_int (if neg then - int (hex_run_value ds) else int (hex_run_value ds))))"

datatype raw_time = TimeNumber int | TimeText string

definition ff09ReplyKeyTime :: "raw_time \<Rightarrow> int option" where
  "ff09ReplyKeyTime rawTime =
     (case rawTime of
        TimeNumber n \<Rightarrow> Some (to_uint32 n)
      | TimeText s \<Rightarrow>
          (case parse_int16 s of
             Some n \<Rightarrow> if \<bar>n\<bar> < 2 ^ 1024 then Some n else None
           | None \<Rightarrow> None))"

section \<open>What is written is read back\<close>

text \<open>The fields a reader should find: the \<open>k\<close>-th written one under the tag \<open>sep + k\<close>.\<close>

definition tagged :: "nat \<Rightarrow> buffer list \<Rightarrow> (byte \<rightharpoonup> buffer) \<Rightarrow> (byte \<rightharpoonup> buffer)" where
  "tagged sep fs m =
     (\<lambda>t. if sep \<le> unat t \<and> unat t < sep + length fs then Some (fs ! (unat t - sep)) else m t)"

lemma tagged_Nil [simp]: "tagged sep [] m = m"
  by (auto simp: tagged_def fun_eq_iff)

lemma tagged_Cons:
  assumes "sep + length (f # fs) \<le> 256"
  shows "tagged sep (f # fs) m = tagged (Suc sep) fs (m(of_nat sep \<mapsto> f))"
proof
  fix t :: byte
  have s: "unat (of_nat sep :: byte) = sep" using assms by (simp add: unat_of_nat_byte)
  show "tagged sep (f # fs) m t = tagged (Suc sep) fs (m(of_nat sep \<mapsto> f)) t"
  proof (cases "unat t = sep")
    case True
    then have "t = of_nat sep" using s by (simp add: word_unat_eq_iff)
    with True show ?thesis by (simp add: tagged_def)
  next
    case False
    then have "t \<noteq> of_nat sep" using s by auto
    with False show ?thesis by (auto simp: tagged_def nth_Cons')
  qed
qed

lemma writeTlv_from_Cons:
  assumes "writeTlv_from sep (f # fs) = Inr tlv"
  obtains rest where "length f \<le> 255" "writeTlv_from (Suc sep) fs = Inr rest"
    and "tlv = [of_nat sep, of_nat (length f)] @ f @ rest"
  using assms by (auto simp: res_bind_Inr_conv split: if_splits intro: that)

lemma ff09_fields_end: "ff09_fields (pre @ replicate k 0) (length pre) m = m"
  by (subst ff09_fields.simps) (auto simp: nth_append Let_def)

lemma ff09_fields_field:
  assumes "0 < sep" "sep < 256" "length f \<le> 255"
  shows "ff09_fields (pre @ [of_nat sep, of_nat (length f)] @ f @ rest) (length pre) m
       = ff09_fields ((pre @ [of_nat sep, of_nat (length f)] @ f) @ rest)
           (length (pre @ [of_nat sep, of_nat (length f)] @ f)) (m(of_nat sep \<mapsto> f))"
proof -
  let ?b = "pre @ [of_nat sep, of_nat (length f)] @ f @ rest"
  have u: "unat (of_nat (length f) :: byte) = length f"
    using assms by (simp add: unat_of_nat_byte)
  have z: "(of_nat sep :: byte) \<noteq> 0"
    using assms by (metis mod_less neq0_conv unat_0 unat_of_nat_byte)
  have n: "?b ! length pre = of_nat sep" "?b ! (length pre + 1) = of_nat (length f)"
    by (simp_all add: nth_append)
  have sl: "slice (length pre + 2) (length pre + 2 + length f) ?b = f"
    by (simp add: slice_def)
  have e: "ff09_fields ?b (length pre) m = ff09_fields ?b (length pre + 2 + length f) (m(of_nat sep \<mapsto> f))"
    by (subst ff09_fields.simps) (simp only: n Let_def u sl z, simp)
  show ?thesis unfolding e by simp
qed

lemma ff09_fields_tlv:
  assumes "writeTlv_from sep fs = Inr tlv" "0 < sep" "sep + length fs \<le> 256"
  shows "ff09_fields (pre @ tlv @ replicate k 0) (length pre) m = tagged sep fs m"
  using assms
proof (induction fs arbitrary: sep tlv pre m)
  case Nil
  then show ?case by (simp add: ff09_fields_end)
next
  case (Cons f fs)
  from Cons.prems(1) obtain rest where r: "length f \<le> 255" "writeTlv_from (Suc sep) fs = Inr rest"
    and t: "tlv = [of_nat sep, of_nat (length f)] @ f @ rest" by (rule writeTlv_from_Cons)
  have "ff09_fields (pre @ tlv @ replicate k 0) (length pre) m
      = tagged (Suc sep) fs (m(of_nat sep \<mapsto> f))"
    using Cons.IH [OF r(2), of "pre @ [of_nat sep, of_nat (length f)] @ f"]
      ff09_fields_field [OF Cons.prems(2) _ r(1), of pre "rest @ replicate k 0" m] Cons.prems
    by (simp add: t)
  then show ?case using Cons.prems by (simp add: tagged_Cons)
qed

lemma length_writeTlv_from:
  "writeTlv_from sep fs = Inr tlv \<Longrightarrow> length tlv \<le> 257 * length fs"
proof (induction fs arbitrary: sep tlv)
  case (Cons f fs)
  from Cons.prems obtain rest where "length f \<le> 255" "writeTlv_from (Suc sep) fs = Inr rest"
    "tlv = [of_nat sep, of_nat (length f)] @ f @ rest" by (rule writeTlv_from_Cons)
  with Cons.IH show ?case by fastforce
qed simp

lemma parse_padded_tlv:
  assumes "writeTlv fs = Inr tlv" "length fs \<le> 95"
  shows "parseFf09SettingsResponse (status # zeroPadToBlock tlv)
       = Inr \<lparr>fsStatus = status, fsFields = tagged 0xa1 fs Map.empty\<rparr>"
proof -
  obtain k where "zeroPadToBlock tlv = tlv @ replicate k 0" using ff09_pad.pad_decomp by blast
  then show ?thesis
    using ff09_fields_tlv [of 161 fs tlv "[status]" k Map.empty] assms
    by (simp add: parseFf09SettingsResponse_def writeTlv_def)
qed

section \<open>The outer frame\<close>

lemma xor_fold: "fold (XOR) b (x :: byte) = x XOR xor_bytes b"
proof (induction b arbitrary: x)
  case (Cons a b)
  show ?case unfolding xor_bytes_def fold.simps o_apply Cons.IH [of "a XOR x"] Cons.IH [of "a XOR 0"]
    by (simp add: ac_simps)
qed (simp add: xor_bytes_def)

lemma xor_bytes_Cons [simp]: "xor_bytes (a # b) = a XOR xor_bytes b"
  using xor_fold [of b a] by (simp add: xor_bytes_def)

lemma xor_bytes_append: "xor_bytes (a @ b) = xor_bytes a XOR xor_bytes b"
  by (induction a) (simp_all add: ac_simps, simp add: xor_bytes_def)

lemma length_ff09_key: "12 \<le> length adm \<Longrightarrow> length (ff09_key adm t) = 16"
  by (simp add: ff09_key_def slice_last_def)

lemma length_ff09_iv [simp]: "length (ff09_iv sn) = 16"
  by (simp add: ff09_iv_def)

lemma to_uint32_idem [simp]: "to_uint32 (to_uint32 n) = to_uint32 n"
  by (simp add: to_uint32_def)


text \<open>A frame up to its checksum, and what the opener of a reply asks of the bytes it is handed.\<close>

definition pre_xor :: "int \<Rightarrow> buffer \<Rightarrow> buffer" where
  "pre_xor code ct =
     [0xff, 0x09] @ u16le (int (10 + length ct)) @ [0x03, 0x00, 0x02] @ u16be (0x4000 OR code) @ ct"

definition well_framed :: "buffer \<Rightarrow> bool" where
  "well_framed buf \<longleftrightarrow> 10 \<le> length buf \<and> buf ! 0 = 0xff \<and> buf ! 1 = 0x09 \<and>
     u16le_at buf 2 = length buf \<and> xor_bytes buf = 0"

lemma length_pre_xor [simp]: "length (pre_xor code ct) = 9 + length ct"
  by (simp add: pre_xor_def)

lemma drop_pre_xor [simp]: "drop 9 (pre_xor code ct) = ct"
  by (simp add: pre_xor_def u16le_def u16be_def)

lemma assemble_payload:
  "frPayload (assembleFf09Frame env code api p adm sn kt seq) =
     hex_encode (pre_xor code ct @ [xor_bytes (pre_xor code ct)])"
  if "ct = cbcEncrypt env (ff09_key adm kt) (ff09_iv sn) p"
proof -
  have a: "2 + 2 + length ([3, 0, 2] @ u16be (16384 OR code) @ ct) + 1 = 10 + length ct" by simp
  show ?thesis
    unfolding assembleFf09Frame_def Let_def that [symmetric] a
    by (simp only: pre_xor_def append_assoc simp_thms ff09_frame.simps)
qed

lemma well_framed_pre_xor:
  assumes "length ct \<le> 60000"
  shows "well_framed (pre_xor code ct @ [xor_bytes (pre_xor code ct)])"
proof -
  have b: "xor_bytes (pre_xor code ct @ [xor_bytes (pre_xor code ct)]) = 0"
    by (simp add: xor_bytes_append)  (simp add: xor_bytes_def)
  have "u16le_at ([0xff, 0x09] @ u16le (int (10 + length ct)) @ r) (length [0xff :: byte, 0x09] + 0) = 10 + length ct" for r
    unfolding u16le_at_skip int_u16le using assms by simp
  then have "u16le_at (pre_xor code ct @ [xor_bytes (pre_xor code ct)]) 2 = 10 + length ct"
    by (simp add: pre_xor_def numeral_2_eq_2)
  with b show ?thesis
    by (simp add: well_framed_def nth_append) (simp add: pre_xor_def)
qed

lemma xor_last:
  assumes "b \<noteq> []"
  shows "xor_bytes (slice 0 (length b - 1) b) = b ! (length b - 1) \<longleftrightarrow> xor_bytes b = 0"
proof -
  have s: "slice 0 (length b - 1) b = butlast b" "b ! (length b - 1) = last b"
    using assms by (simp_all add: slice_def butlast_conv_take last_conv_nth)
  have "xor_bytes (butlast b @ [last b]) = xor_bytes (butlast b) XOR last b"
    unfolding xor_bytes_append by (simp add: xor_bytes_def)
  then have "xor_bytes b = xor_bytes (slice 0 (length b - 1) b) XOR b ! (length b - 1)"
    using assms s by simp
  then show ?thesis by (metis xor.right_neutral xor_self_eq bit.xor_left_self)
qed

lemma decrypt_well_framed:
  assumes "12 \<le> length adm" "sn \<noteq> []" "well_framed buf"
  shows "decryptFf09Frame env (hex_encode buf) kt adm sn =
     (case cbcDecrypt env (ff09_key adm (to_uint32 kt)) (ff09_iv sn) (slice 9 (length buf - 1) buf) of
        Some p \<Rightarrow> Inr p | None \<Rightarrow> Inl (UserError ''decrypt''))"
proof -
  have "buf \<noteq> []" using assms(3) by (auto simp: well_framed_def)
  with assms xor_last [of buf] show ?thesis
    by (auto simp: decryptFf09Frame_def hex_roundtrip well_framed_def Let_def)
qed

lemma decrypt_ill_framed:
  assumes "\<not> well_framed buf"
  shows "\<exists>e. decryptFf09Frame env (hex_encode buf) kt adm sn = Inl (UserError e)"
proof (cases "length buf < 10")
  case False
  then have "buf \<noteq> []" by auto
  with assms False xor_last [of buf] show ?thesis
    by (auto simp: decryptFf09Frame_def hex_roundtrip well_framed_def Let_def)
qed (simp add: decryptFf09Frame_def hex_roundtrip)


section \<open>Every frame a builder returns\<close>

text \<open>
  The frames of the module with the identity they are for and the fields they carry: \<open>buildFf09Frame\<close>,
  \<open>buildFf09QueryFrame\<close>, \<open>buildFf09SettingsFrame\<close> and \<open>buildFf09SettingToggleFrame\<close>.
\<close>

inductive ff09_built :: "ff09_env \<Rightarrow> string \<Rightarrow> string \<Rightarrow> buffer list \<Rightarrow> ff09_frame \<Rightarrow> bool"
  for env where
  actuate: "buildFf09Frame env i = Inr fr \<Longrightarrow>
    fs = [u32le (fst (ff09_resolved env (ff09_stamp.truncate i))), bytes_of_string (fiAdminUserId i),
          [if fiEngage i then 0 else 1]]
       @ (if fiOmitUserFields i then []
          else [ascii_bytes (the (fiUsername i)), hex_decode (the (fiShortUserId i))]) \<Longrightarrow>
    ff09_built env (fiAdminUserId i) (fiDeviceSn i) fs fr"
| query: "buildFf09QueryFrame env adm sn st = Inr fr \<Longrightarrow>
    ff09_built env adm sn [u32le (fst (ff09_resolved env st)), bytes_of_string adm] fr"
| settings: "buildFf09SettingsFrame env si = Inr fr \<Longrightarrow>
    ff09_built env (siAdminUserId si) (siDeviceSn si)
      (settings_fields si (fst (ff09_resolved env (ff09_stamp.truncate si)))) fr"
| toggle: "buildFf09SettingToggleFrame env adm sn settingId v st = Inr fr \<Longrightarrow>
    ff09_built env adm sn [u32le (fst (ff09_resolved env st)), bytes_of_string adm,
      [word_of_int settingId], [if v then 1 else 0]] fr"

definition ff09_assembled :: "ff09_env \<Rightarrow> string \<Rightarrow> string \<Rightarrow> buffer list \<Rightarrow> ff09_frame \<Rightarrow> bool" where
  "ff09_assembled env adm sn fs fr \<longleftrightarrow>
     12 \<le> length adm \<and> sn \<noteq> [] \<and> length sn \<le> 16 \<and> length fs \<le> 9 \<and>
     (\<exists>code api tlv kt seqNum. writeTlv fs = Inr tlv \<and> to_uint32 kt = kt \<and> to_uint32 seqNum = seqNum \<and>
        (code, api) \<in> {(LOCK_CODE_ON_OFF_LOCK, LOCK_API_ON_OFF_LOCK),
          (LOCK_CODE_GET_SETTINGS, LOCK_API_GET_SETTINGS), (LOCK_CODE_SET_SETTINGS, LOCK_API_SET_SETTINGS)} \<and>
        fr = assembleFf09Frame env code api (zeroPadToBlock tlv) adm sn kt seqNum)"

lemma ff09_identity_Inr:
  "ff09_identity adm sn = Inr u \<longleftrightarrow> 12 \<le> length adm \<and> sn \<noteq> [] \<and> length sn \<le> 16"
  by (auto simp: ff09_identity_def)

lemma ff09_resolved_uint:
  "ff09_resolved env st = (ut, kt, sq) \<Longrightarrow> to_uint32 kt = kt \<and> to_uint32 sq = sq"
  by (auto simp: ff09_resolved_def Let_def)

lemma ff09_assembledI:
  assumes "ff09_identity adm sn = Inr ()" "length fs \<le> 9" "writeTlv fs = Inr tlv"
    and "ff09_resolved env st = (ut, kt, sq)"
    and "(code, api) \<in> {(LOCK_CODE_ON_OFF_LOCK, LOCK_API_ON_OFF_LOCK),
          (LOCK_CODE_GET_SETTINGS, LOCK_API_GET_SETTINGS), (LOCK_CODE_SET_SETTINGS, LOCK_API_SET_SETTINGS)}"
  shows "ff09_assembled env adm sn fs (assembleFf09Frame env code api (zeroPadToBlock tlv) adm sn kt sq)"
  using assms ff09_resolved_uint [OF assms(4)]
  unfolding ff09_assembled_def ff09_identity_Inr by blast

lemma built_assembled:
  assumes "ff09_built env adm sn fs fr"
  shows "ff09_assembled env adm sn fs fr"
  using assms
proof (cases rule: ff09_built.cases)
  case (actuate i)
  obtain ut kt sq where r: "ff09_resolved env (ff09_stamp.truncate i) = (ut, kt, sq)"
    by (rule prod_cases3)
  from actuate(3) obtain tlv where "ff09_identity adm sn = Inr ()" "writeTlv fs = Inr tlv"
    and "fr = assembleFf09Frame env LOCK_CODE_ON_OFF_LOCK LOCK_API_ON_OFF_LOCK (zeroPadToBlock tlv) adm sn kt sq"
    using actuate(1,2,4) r
    by (auto simp: buildFf09Frame_def Let_def res_bind_Inr_conv split: if_splits)
  with r show ?thesis using actuate(4) by (auto intro!: ff09_assembledI)
next
  case (query st)
  then show ?thesis
    by (auto simp: buildFf09QueryFrame_def resolveFf09Identity_def res_bind_Inr_conv
        intro!: ff09_assembledI split: prod.splits)
next
  case (settings si)
  then show ?thesis
    by (auto simp: buildFf09SettingsFrame_def resolveFf09Identity_def res_bind_Inr_conv settings_fields_def
        intro!: ff09_assembledI split: prod.splits)
next
  case (toggle settingId v st)
  then show ?thesis
    by (auto simp: buildFf09SettingToggleFrame_def resolveFf09Identity_def res_bind_Inr_conv
        intro!: ff09_assembledI split: prod.splits)
qed

lemma assembled_length:
  assumes "writeTlv fs = Inr tlv" "length fs \<le> 9"
  shows "length (zeroPadToBlock tlv) \<le> 5000"
proof -
  have "length tlv \<le> 257 * 9"
    using length_writeTlv_from [of 161 fs tlv] assms by (simp add: writeTlv_def)
  moreover have "length (zeroPadToBlock tlv) < length tlv + 16 \<or> length (zeroPadToBlock tlv) = 16"
    by (rule ff09_pad.pad_tight)
  ultimately show ?thesis by linarith
qed

lemma assemble_well_framed:
  assumes c: "cbc_contract env" and adm: "12 \<le> length adm" and p: "length p \<le> 5000"
    and ct: "ct = cbcEncrypt env (ff09_key adm kt) (ff09_iv sn) p"
  shows "well_framed (pre_xor code ct @ [xor_bytes (pre_xor code ct)])"
proof (rule well_framed_pre_xor)
  have "length ct = 16 * (length p div 16 + 1)"
    using c adm by (simp add: ct cbc_contract_def length_ff09_key)
  then show "length ct \<le> 60000" using p by simp
qed

lemma assemble_opens:
  assumes c: "cbc_contract env" and i: "12 \<le> length adm" "sn \<noteq> []"
    and p: "length p \<le> 5000" and k: "to_uint32 kt = kt"
  shows "decryptFf09Frame env (frPayload (assembleFf09Frame env code api p adm sn kt sq)) kt adm sn = Inr p"
proof -
  let ?ct = "cbcEncrypt env (ff09_key adm kt) (ff09_iv sn) p"
  have "slice 9 (9 + length ?ct) (pre_xor code ?ct @ [xor_bytes (pre_xor code ?ct)]) = ?ct"
    by (simp add: slice_def)
  moreover have "cbcDecrypt env (ff09_key adm kt) (ff09_iv sn) ?ct = Some p"
    using c i by (simp add: cbc_contract_def length_ff09_key)
  ultimately show ?thesis
    unfolding assemble_payload [OF refl] decrypt_well_framed [OF i assemble_well_framed [OF c i(1) p refl]]
    by (simp add: k)
qed

lemma assembled_wire:
  assumes c: "cbc_contract env" and a: "ff09_assembled env adm sn fs fr"
  obtains buf where "frPayload fr = hex_encode buf" "well_framed buf"
proof -
  from a obtain code api tlv kt sq where t: "writeTlv fs = Inr tlv"
    and fr: "fr = assembleFf09Frame env code api (zeroPadToBlock tlv) adm sn kt sq"
    and ids: "12 \<le> length adm" "length fs \<le> 9"
    unfolding ff09_assembled_def by blast
  have "frPayload fr = hex_encode (pre_xor code (cbcEncrypt env (ff09_key adm kt) (ff09_iv sn) (zeroPadToBlock tlv))
      @ [xor_bytes (pre_xor code (cbcEncrypt env (ff09_key adm kt) (ff09_iv sn) (zeroPadToBlock tlv)))])"
    unfolding fr by (rule assemble_payload) simp
  then show thesis
    using assemble_well_framed [OF c ids(1) assembled_length [OF t ids(2)] refl] by (rule that)
qed

lemma assembled_opens:
  assumes c: "cbc_contract env" and a: "ff09_assembled env adm sn fs fr"
  obtains tlv where "decryptFf09Frame env (frPayload fr) (frTime fr) adm sn = Inr (zeroPadToBlock tlv)"
    and "writeTlv fs = Inr tlv"
proof -
  from a obtain code api tlv kt sq where t: "writeTlv fs = Inr tlv" and k: "to_uint32 kt = kt"
    and fr: "fr = assembleFf09Frame env code api (zeroPadToBlock tlv) adm sn kt sq"
    and ids: "12 \<le> length adm" "sn \<noteq> []" "length fs \<le> 9"
    unfolding ff09_assembled_def by blast
  have "frTime fr = kt" by (simp add: fr assembleFf09Frame_def Let_def)
  then have "decryptFf09Frame env (frPayload fr) (frTime fr) adm sn = Inr (zeroPadToBlock tlv)"
    using assemble_opens [OF c ids(1,2) assembled_length [OF t ids(3)] k] by (simp add: fr)
  then show thesis using t by (rule that)
qed

section \<open>Damage, and the fields of the settings\<close>

lemma xor_byte_cancel:
  "(x :: byte) XOR (a XOR y) = x XOR (b XOR y) \<Longrightarrow> a = b"
  by (drule arg_cong [where f = "\<lambda>z. (x XOR z) XOR y"]) (simp add: xor.assoc [symmetric], simp add: xor.assoc)

lemma xor_bytes_update:
  assumes "i < length buf" "b \<noteq> buf ! i" "xor_bytes buf = 0"
  shows "xor_bytes (buf[i := b]) \<noteq> 0"
proof
  assume z: "xor_bytes (buf[i := b]) = 0"
  have n: "xor_bytes [] = 0" by (simp add: xor_bytes_def)
  have "xor_bytes (take i buf @ b # drop (Suc i) buf) = 0"
    using z assms(1) by (simp add: upd_conv_take_nth_drop)
  moreover have "xor_bytes (take i buf @ buf ! i # drop (Suc i) buf) = 0"
    using assms(1,3) by (simp add: id_take_nth_drop [symmetric])
  ultimately have "xor_bytes (take i buf) XOR (b XOR xor_bytes (drop (Suc i) buf))
      = xor_bytes (take i buf) XOR (buf ! i XOR xor_bytes (drop (Suc i) buf))"
    by (simp add: xor_bytes_append)
  then have "b = buf ! i" by (blast dest: xor_byte_cancel)
  with assms(2) show False ..
qed

lemma u16le_u16le_at:
  assumes "2 \<le> length f"
  shows "u16le (int (u16le_at f 0)) = take 2 f"
proof -
  from assms obtain a b r where f: "f = a # b # r" by (metis Suc_le_length_iff numeral_2_eq_2)
  have m: "int (unat a) mod 256 = int (unat a)"
    using unat_byte_lt [of a] by (intro mod_pos_pos_trivial) linarith+
  have "word_of_int (int (unat a) + 256 * int (unat b)) = a"
    by (rule word_unat_eq_iff [THEN iffD2]) (simp only: unat_word_of_int_byte mod_mult_self2 m nat_int)
  moreover have "int (unat a) div 256 = 0"
    using unat_byte_lt [of a] by (intro div_pos_pos_trivial) linarith+
  then have "(int (unat a) + 256 * int (unat b)) div 256 = int (unat b)" by simp
  ultimately show ?thesis by (simp add: f u16le_def u16le_at_def drop_bit_8_div)
qed

lemma read_written_u16: "readFf09U16LE (Some (u16le d)) = Inr (nat (d mod 65536))"
  using int_u16le [of d "[]"] by (simp add: readFf09U16LE_def)

lemma readFf09U16LE_take:
  assumes "readFf09U16LE field = Inr n"
  shows "map_option (take 2) field = Some (u16le (int n))"
  using assms by (auto simp: readFf09U16LE_def u16le_u16le_at split: option.splits if_splits)

definition autolock_input ::
  "string \<Rightarrow> string \<Rightarrow> bool \<Rightarrow> int option \<Rightarrow> nat \<Rightarrow> nat \<Rightarrow> nat \<Rightarrow> ff09_settings_input" where
  "autolock_input adm sn enabled delay cd c7 c8 =
     \<lparr>stUnixTime = None, stNonce = None, stSeqNum = None, siAdminUserId = adm, siDeviceSn = sn,
      siEnabled = enabled, siDelay = (case delay of Some d \<Rightarrow> d | None \<Rightarrow> int cd),
      siA7 = int c7, siA8 = int c8\<rparr>"

lemma settings_fields_tags:
  "length (settings_fields i ut) = 9"
  "tagged 0xa1 (settings_fields i ut) m 0xa4 = Some [if siEnabled i then 1 else 0]"
  "tagged 0xa1 (settings_fields i ut) m 0xa5 = Some (u16le (siDelay i))"
  "tagged 0xa1 (settings_fields i ut) m 0xa6 = Some [0]"
  "tagged 0xa1 (settings_fields i ut) m 0xa7 = Some (u16le (siA7 i))"
  "tagged 0xa1 (settings_fields i ut) m 0xa8 = Some (u16le (siA8 i))"
  by (simp_all add: settings_fields_def tagged_def)


text \<open>
  PKCS#7 padding without a cipher is enough to show that the contract can be met.
\<close>

definition padding_only :: ff09_env where
  "padding_only = \<lparr>envNow = 1700000000, envNonce = 7,
     cbcEncrypt = (\<lambda>key iv p. p @ replicate (16 - length p mod 16) (of_nat (16 - length p mod 16))),
     cbcDecrypt = (\<lambda>key iv c. if c = [] then None else Some (take (length c - unat (last c)) c))\<rparr>"

lemma padding_only_contract: "cbc_contract padding_only"
proof -
  have u: "unat (of_nat (16 - n mod 16) :: byte) = 16 - n mod 16" for n
    unfolding unat_of_nat_byte by simp
  have "n + (16 - n mod 16) = 16 * (n div 16 + 1)" for n :: nat
  proof -
    have "n + (16 - n mod 16) = 16 * (n div 16) + (n mod 16 + (16 - n mod 16))"
      by (metis add.assoc mult_div_mod_eq)
    then show ?thesis by simp
  qed
  with u show ?thesis by (simp add: cbc_contract_def padding_only_def del: of_nat_diff)
qed

section \<open>Properties\<close>

text \<open>
  C36. Every frame a builder returns opens: under the account id and the serial it was built with and
  the time it carries, \<open>decryptFf09Frame\<close> yields a plaintext whose fields, read by the parser of
  replies behind any status byte, are exactly the written ones under the tags 0xa1, 0xa2, and so on,
  whatever the lengths and with or without padding.
\<close>

theorem ff09_frame_opened:
  assumes "cbc_contract env" "ff09_built env adm sn fs fr"
  shows "\<exists>p. decryptFf09Frame env (frPayload fr) (frTime fr) adm sn = Inr p \<and>
    parseFf09SettingsResponse (status # p) =
      Inr \<lparr>fsStatus = status, fsFields = tagged 0xa1 fs Map.empty\<rparr>"
proof -
  have a: "ff09_assembled env adm sn fs fr" using assms(2) by (rule built_assembled)
  from assembled_opens [OF assms(1) a] obtain tlv
    where "decryptFf09Frame env (frPayload fr) (frTime fr) adm sn = Inr (zeroPadToBlock tlv)"
      and "writeTlv fs = Inr tlv" .
  then show ?thesis using parse_padded_tlv [of fs tlv status] a by (auto simp: ff09_assembled_def)
qed

text \<open>
  C37. A frame damaged on the way is refused with a thrown error before anything is decrypted, whatever
  time and identity the reader has: after a change of any one byte, magic, size, header, ciphertext or
  checksum, and after the loss of any number of bytes at its end.
\<close>

theorem ff09_damage_detected:
  assumes "cbc_contract env" "ff09_built env adm sn fs fr"
    and "buf = hex_decode (frPayload fr)"
    and "damaged = buf[i := b] \<and> i < length buf \<and> b \<noteq> buf ! i \<or> damaged = take i buf \<and> i < length buf"
  shows "\<exists>e. decryptFf09Frame env (hex_encode damaged) kt adm' sn' = Inl (UserError e)"
proof -
  have "ff09_assembled env adm sn fs fr" using assms(2) by (rule built_assembled)
  from assms(1) this obtain bytes where "frPayload fr = hex_encode bytes" "well_framed bytes"
    by (rule assembled_wire)
  then have w: "well_framed buf" unfolding assms(3) by (simp only: hex_roundtrip)
  from assms(4) have "\<not> well_framed damaged"
  proof
    assume "damaged = buf[i := b] \<and> i < length buf \<and> b \<noteq> buf ! i"
    then show ?thesis using w xor_bytes_update [of i buf b] by (simp add: well_framed_def)
  next
    assume t: "damaged = take i buf \<and> i < length buf"
    show ?thesis
    proof
      assume d: "well_framed damaged"
      then have "10 \<le> i" using t by (simp add: well_framed_def)
      then have "u16le_at damaged 2 = u16le_at buf 2" using t by (simp add: u16le_at_def)
      then show False using d w t by (simp add: well_framed_def)
    qed
  qed
  then show ?thesis by (rule decrypt_ill_framed)
qed

text \<open>
  C35. The read-modify-write of the auto-lock settings, from the reply to the query to what the lock
  will read out of the frame: where it returns a frame, the reply opened and parsed, and the frame
  opens to the wanted enable byte, the wanted delay or else the one in the reply, and the first two bytes
  of the reply's schedule start and end. Two things are not as the docs of the write say, which promise
  all but enable and delay back as they were: the schedule flag, tag 0xa6, is written as zero whatever the
  reply holds, so a schedule that is on goes off; and a wanted delay arrives modulo 65536.
\<close>

theorem autolock_set_preserves:
  assumes "cbc_contract env"
    and "buildFf09AutolockSetFrame env payload kt adm sn enabled delay = Inr fr"
  shows "\<exists>b reply p new.
    decryptFf09Frame env payload kt adm sn = Inr b \<and> parseFf09SettingsResponse b = Inr reply \<and>
    decryptFf09Frame env (frPayload fr) (frTime fr) adm sn = Inr p \<and>
    parseFf09SettingsResponse (status # p) = Inr new \<and>
    fsFields new 0xa4 = Some [if enabled then 1 else 0] \<and>
    fsFields new 0xa5 = (case delay of Some d \<Rightarrow> Some (u16le d)
                                     | None \<Rightarrow> map_option (take 2) (fsFields reply 0xa2)) \<and>
    (\<forall>d. delay = Some d \<longrightarrow> readFf09U16LE (fsFields new 0xa5) = Inr (nat (d mod 65536))) \<and>
    fsFields new 0xa6 = Some [0] \<and>
    fsFields new 0xa7 = map_option (take 2) (fsFields reply 0xa4) \<and>
    fsFields new 0xa8 = map_option (take 2) (fsFields reply 0xa5)"
proof -
  from assms(2) obtain b reply cd c7 c8 where r: "decryptFf09Frame env payload kt adm sn = Inr b"
    "parseFf09SettingsResponse b = Inr reply" "readFf09U16LE (fsFields reply 0xa2) = Inr cd"
    "readFf09U16LE (fsFields reply 0xa4) = Inr c7" "readFf09U16LE (fsFields reply 0xa5) = Inr c8"
    and bf: "buildFf09SettingsFrame env (autolock_input adm sn enabled delay cd c7 c8) = Inr fr"
    unfolding buildFf09AutolockSetFrame_def res_bind_Inr_conv autolock_input_def by blast
  have bt: "ff09_built env adm sn (settings_fields (autolock_input adm sn enabled delay cd c7 c8)
       (fst (ff09_resolved env (ff09_stamp.truncate (autolock_input adm sn enabled delay cd c7 c8))))) fr"
    using ff09_built.settings [OF bf] by (simp add: autolock_input_def)
  from assembled_opens [OF assms(1) built_assembled [OF bt]] obtain tlv
    where o: "decryptFf09Frame env (frPayload fr) (frTime fr) adm sn = Inr (zeroPadToBlock tlv)"
      and t: "writeTlv (settings_fields (autolock_input adm sn enabled delay cd c7 c8)
       (fst (ff09_resolved env (ff09_stamp.truncate (autolock_input adm sn enabled delay cd c7 c8))))) = Inr tlv" .
  show ?thesis
    by (intro exI conjI, rule r(1), rule r(2), rule o, rule parse_padded_tlv [OF t])
      (simp_all add: settings_fields_tags readFf09U16LE_take [OF r(3)] readFf09U16LE_take [OF r(4)]
        readFf09U16LE_take [OF r(5)] autolock_input_def read_written_u16 split: option.split)
qed

section \<open>Instances\<close>

definition sample_stamp :: ff09_stamp where
  "sample_stamp = \<lparr>stUnixTime = Some 1700000000, stNonce = Some 7, stSeqNum = None\<rparr>"

definition sample_admin :: string where "sample_admin = ''0123456789abcdef0123''"
definition sample_lock :: string where "sample_lock = ''T8531A1234567890''"

lemma sample_query:
  "\<exists>fr. buildFf09QueryFrame padding_only sample_admin sample_lock sample_stamp = Inr fr"
  by (simp add: buildFf09QueryFrame_def resolveFf09Identity_def ff09_identity_def writeTlv_def
      sample_admin_def sample_lock_def split: prod.split)

theorem ff09_frame_opened_witness:
  "\<exists>fr p. buildFf09QueryFrame padding_only sample_admin sample_lock sample_stamp = Inr fr \<and>
     decryptFf09Frame padding_only (frPayload fr) (frTime fr) sample_admin sample_lock = Inr p \<and>
     parseFf09SettingsResponse (0 # p) = Inr \<lparr>fsStatus = 0, fsFields =
       tagged 0xa1 [u32le (fst (ff09_resolved padding_only sample_stamp)), bytes_of_string sample_admin]
         Map.empty\<rparr>"
proof -
  obtain fr where fr: "buildFf09QueryFrame padding_only sample_admin sample_lock sample_stamp = Inr fr"
    using sample_query ..
  from ff09_frame_opened [OF padding_only_contract ff09_built.query [OF fr], of 0] fr
  show ?thesis by blast
qed

theorem ff09_damage_detected_witness:
  "\<exists>fr e. buildFf09QueryFrame padding_only sample_admin sample_lock sample_stamp = Inr fr \<and>
     decryptFf09Frame padding_only (hex_encode (take 0 (hex_decode (frPayload fr)))) (frTime fr)
       sample_admin sample_lock = Inl (UserError e)"
proof -
  obtain fr where fr: "buildFf09QueryFrame padding_only sample_admin sample_lock sample_stamp = Inr fr"
    using sample_query ..
  from padding_only_contract built_assembled [OF ff09_built.query [OF fr]] obtain buf
    where "frPayload fr = hex_encode buf" "well_framed buf" by (rule assembled_wire)
  then have "0 < length (hex_decode (frPayload fr))"
    by (auto simp: hex_roundtrip well_framed_def)
  with ff09_damage_detected [OF padding_only_contract ff09_built.query [OF fr] refl,
      of "take 0 (hex_decode (frPayload fr))" 0] fr
  show ?thesis by blast
qed

text \<open>A reply as a lock sends it: the status, then enable, delay, schedule flag, start and end.\<close>

definition sample_settings :: "buffer list" where
  "sample_settings = [[0], [90, 0], [1], [22, 30], [6, 45]]"

definition sample_reply :: string where
  "sample_reply = frPayload (assembleFf09Frame padding_only 0x835 0
     (0 # projr (writeTlv sample_settings)) sample_admin sample_lock 1700000007 0)"

lemma sample_reply_opened:
  "decryptFf09Frame padding_only sample_reply 1700000007 sample_admin sample_lock
     = Inr (0 # projr (writeTlv sample_settings))"
  unfolding sample_reply_def
  by (rule assemble_opens [OF padding_only_contract])
    (simp_all add: sample_admin_def sample_lock_def sample_settings_def writeTlv_def to_uint32_def)

lemma sample_reply_parsed:
  "parseFf09SettingsResponse (0 # projr (writeTlv sample_settings))
     = Inr \<lparr>fsStatus = 0, fsFields = tagged 0xa1 sample_settings Map.empty\<rparr>"
  using ff09_fields_tlv [of 161 sample_settings _ "[0]" 0 Map.empty]
  by (simp add: parseFf09SettingsResponse_def sample_settings_def writeTlv_def)

lemma sample_reply_read:
  "\<exists>fr. buildFf09AutolockSetFrame padding_only sample_reply 1700000007 sample_admin sample_lock True None = Inr fr"
  unfolding buildFf09AutolockSetFrame_def sample_reply_opened res_bind_simps sample_reply_parsed
  by (simp add: tagged_def sample_settings_def readFf09U16LE_def buildFf09SettingsFrame_def
      resolveFf09Identity_def ff09_identity_def sample_admin_def sample_lock_def settings_fields_def
      writeTlv_def split: prod.split)

theorem autolock_set_preserves_witness:
  "\<exists>fr p new.
     buildFf09AutolockSetFrame padding_only sample_reply 1700000007 sample_admin sample_lock True None = Inr fr \<and>
     decryptFf09Frame padding_only (frPayload fr) (frTime fr) sample_admin sample_lock = Inr p \<and>
     parseFf09SettingsResponse (0 # p) = Inr new \<and> fsFields new 0xa4 = Some [1] \<and>
     fsFields new 0xa5 = Some [90, 0] \<and> fsFields new 0xa7 = Some [22, 30] \<and> fsFields new 0xa8 = Some [6, 45]"
proof -
  obtain fr where fr: "buildFf09AutolockSetFrame padding_only sample_reply 1700000007
      sample_admin sample_lock True None = Inr fr"
    using sample_reply_read ..
  have vals: "fsFields reply 0xa2 = Some [90, 0]" "fsFields reply 0xa4 = Some [22, 30]"
      "fsFields reply 0xa5 = Some [6, 45]"
    if "decryptFf09Frame padding_only sample_reply 1700000007 sample_admin sample_lock = Inr b"
      "parseFf09SettingsResponse b = Inr reply" for b reply
    using that sample_reply_opened sample_reply_parsed by (auto simp: tagged_def sample_settings_def)
  from autolock_set_preserves [OF padding_only_contract fr, of 0] obtain b reply p new
    where d: "decryptFf09Frame padding_only sample_reply 1700000007 sample_admin sample_lock = Inr b"
        "parseFf09SettingsResponse b = Inr reply"
      and "decryptFf09Frame padding_only (frPayload fr) (frTime fr) sample_admin sample_lock = Inr p"
      "parseFf09SettingsResponse (0 # p) = Inr new" "fsFields new 0xa4 = Some [1]"
      "fsFields new 0xa5 = map_option (take 2) (fsFields reply 0xa2)"
      "fsFields new 0xa7 = map_option (take 2) (fsFields reply 0xa4)"
      "fsFields new 0xa8 = map_option (take 2) (fsFields reply 0xa5)"
    by auto
  with fr vals [OF d] show ?thesis by auto
qed

text \<open>A delay above 65535 seconds is not refused: its low 16 bits are what the lock is told.\<close>

lemma autolock_delay_wraps: "u16le (65536 + 90) = u16le 90"
  by (simp add: u16le_def drop_bit_8_div)

text \<open>
  C38. What a builder returns is well typed for its envelope: the payload is an even run of hex digits,
  the time and the sequence number are unsigned 32-bit, and the api command is one of the three the
  module pairs with an opcode.
\<close>

theorem ff09_frame_typed:
  assumes "ff09_built env adm sn fs fr"
  shows "is_hex (frPayload fr) \<and> even (length (frPayload fr)) \<and>
    0 \<le> frTime fr \<and> frTime fr < 2 ^ 32 \<and> 0 \<le> frSeqNum fr \<and> frSeqNum fr < 2 ^ 32 \<and>
    frApiCommand fr \<in> {6015, 6016, 6018}"
proof -
  have u: "0 \<le> n \<and> n < 2 ^ 32" if "to_uint32 n = n" for n
    using that take_bit_nonnegative [of 32 n] take_bit_int_less_exp [of 32 n] by (simp add: to_uint32_def)
  from built_assembled [OF assms] obtain code api tlv kt sq
    where k: "to_uint32 kt = kt" "to_uint32 sq = sq"
    and c: "(code, api) \<in> {(LOCK_CODE_ON_OFF_LOCK, LOCK_API_ON_OFF_LOCK),
          (LOCK_CODE_GET_SETTINGS, LOCK_API_GET_SETTINGS), (LOCK_CODE_SET_SETTINGS, LOCK_API_SET_SETTINGS)}"
    and fr: "fr = assembleFf09Frame env code api (zeroPadToBlock tlv) adm sn kt sq"
    unfolding ff09_assembled_def by blast
  have "\<exists>b. frPayload fr = hex_encode b"
    unfolding fr assemble_payload [OF refl] by blast
  moreover have "frTime fr = kt" "frSeqNum fr = sq" "frApiCommand fr = api"
    by (simp_all add: fr assembleFf09Frame_def Let_def)
  ultimately show ?thesis using u [OF k(1)] u [OF k(2)] c hex_encode_clean by (auto simp: lock_codes)
qed

theorem ff09_frame_typed_witness:
  "\<exists>fr. buildFf09QueryFrame padding_only sample_admin sample_lock sample_stamp = Inr fr \<and>
     even (length (frPayload fr)) \<and> frTime fr < 2 ^ 32"
proof -
  obtain fr where fr: "buildFf09QueryFrame padding_only sample_admin sample_lock sample_stamp = Inr fr"
    using sample_query ..
  from ff09_frame_typed [OF ff09_built.query [OF fr]] fr show ?thesis by blast
qed

end
