(* ===== verification/Js_Text.thy ===== *)
theory Js_Text
  imports Json
begin

text \<open>
  Text and number conversions of JavaScript that inbound messages go through: \<open>Buffer.toString("utf8")\<close>
  with its replacement characters, \<open>Number(s)\<close> of a string as far as integers are concerned, and
  \<open>jsonObject\<close> of \<open>src/core/util.ts\<close>. White space around a number is the ASCII kind.
\<close>

section \<open>UTF-8\<close>

text \<open>
  The continuation bytes behind a lead byte: the first within its bounds, the rest within 80..BF. What is
  not one stays for the next character.
\<close>

fun conts :: "nat \<Rightarrow> nat \<Rightarrow> nat \<Rightarrow> buffer \<Rightarrow> buffer \<times> buffer" where
  "conts 0 lo hi bs = ([], bs)"
| "conts (Suc n) lo hi [] = ([], [])"
| "conts (Suc n) lo hi (b # bs) =
     (if lo \<le> unat b \<and> unat b \<le> hi
      then (case conts n 0x80 0xBF bs of (a, r) \<Rightarrow> (b # a, r))
      else ([], b # bs))"

text \<open>How many continuation bytes a lead byte asks for, and the bounds of the first.\<close>

definition lead :: "byte \<Rightarrow> (nat \<times> nat \<times> nat) option" where
  "lead b =
     (let n = unat b in
      if n < 0x80 then Some (0, 0x80, 0xBF)
      else if 0xC2 \<le> n \<and> n \<le> 0xDF then Some (1, 0x80, 0xBF)
      else if n = 0xE0 then Some (2, 0xA0, 0xBF)
      else if n = 0xED then Some (2, 0x80, 0x9F)
      else if 0xE1 \<le> n \<and> n \<le> 0xEF then Some (2, 0x80, 0xBF)
      else if n = 0xF0 then Some (3, 0x90, 0xBF)
      else if 0xF1 \<le> n \<and> n \<le> 0xF3 then Some (3, 0x80, 0xBF)
      else if n = 0xF4 then Some (3, 0x80, 0x8F)
      else None)"

definition REPLACEMENT :: buffer where
  "REPLACEMENT = [0xEF, 0xBF, 0xBD]"

lemma conts_length: "length (snd (conts n lo hi bs)) \<le> length bs"
  by (induction n lo hi bs rule: conts.induct) (auto split: prod.splits)

function utf8_bytes :: "buffer \<Rightarrow> buffer" where
  "utf8_bytes [] = []"
| "utf8_bytes (b # bs) =
     (case lead b of
        None \<Rightarrow> REPLACEMENT @ utf8_bytes bs
      | Some (n, lo, hi) \<Rightarrow>
          (let c = conts n lo hi bs in
           (if length (fst c) = n then b # fst c else REPLACEMENT) @ utf8_bytes (snd c)))"
  by pat_completeness auto
termination utf8_bytes
  by (relation "measure length") (auto simp: le_imp_less_Suc conts_length)

text \<open>\<open>buf.toString("utf8")\<close>, as the bytes of the string it yields.\<close>

definition utf8_text :: "buffer \<Rightarrow> string" where
  "utf8_text b = string_of_bytes (utf8_bytes b)"

lemma utf8_bytes_ascii: "\<forall>b \<in> set bs. unat b < 0x80 \<Longrightarrow> utf8_bytes bs = bs"
  by (induction bs) (auto simp: lead_def Let_def)

lemma utf8_text_ascii: "\<forall>b \<in> set bs. unat b < 0x80 \<Longrightarrow> utf8_text bs = string_of_bytes bs"
  by (simp add: utf8_text_def utf8_bytes_ascii)

section \<open>Numbers in strings\<close>

text \<open>What a test on a number can tell apart: the integer it is, a fraction, infinity, not a number.\<close>

datatype js_num = NumInt int | NumFrac | NumInf | NumNaN

definition div_round :: "nat \<Rightarrow> nat \<Rightarrow> nat" where
  "div_round n d =
     (let q = n div d; r = n mod d in if 2 * r > d \<or> (2 * r = d \<and> odd q) then q + 1 else q)"

text \<open>How often \<open>d / den\<close> is doubled to reach 53 bits; a double has at most 1074 binary places.\<close>

fun up_shift :: "nat \<Rightarrow> nat \<Rightarrow> nat \<Rightarrow> nat" where
  "up_shift 0 d den = 0"
| "up_shift (Suc fuel) d den = (if d div den \<ge> 2 ^ 52 then 0 else Suc (up_shift fuel (2 * d) den))"

text \<open>The double nearest to \<open>d * 10 ^ e\<close>, an integer or not.\<close>

definition nearest_double :: "nat \<Rightarrow> int \<Rightarrow> js_num" where
  "nearest_double d e =
     (if d = 0 then NumInt 0
      else if 0 \<le> e then
        (let n = js_nat (d * 10 ^ nat e) in if n \<ge> 2 ^ 1024 then NumInf else NumInt (int n))
      else
        (let den = 10 ^ nat (- e); bits = bit_len (d div den) in
         if bits > 53 then
           (let n = div_round d (den * 2 ^ (bits - 53)) * 2 ^ (bits - 53)
            in if n \<ge> 2 ^ 1024 then NumInf else NumInt (int n))
         else
           (let k = up_shift 1074 d den; q = div_round (d * 2 ^ k) den
            in if q mod 2 ^ k = 0 then NumInt (int (q div 2 ^ k)) else NumFrac)))"

fun js_neg :: "js_num \<Rightarrow> js_num" where
  "js_neg (NumInt n) = NumInt (- n)"
| "js_neg x = x"

text \<open>An unsigned decimal literal that fills the whole string: digits, a fraction, an exponent.\<close>

definition decimal_text :: "string \<Rightarrow> js_num" where
  "decimal_text s =
     (let (ds, t) = digits_of s;
          dot = (t \<noteq> [] \<and> hd t = CHR ''.'');
          (fs, u) = (if dot then digits_of (tl t) else ([], t));
          ex = (u \<noteq> [] \<and> (hd u = CHR ''e'' \<or> hd u = CHR ''E''));
          v = (if ex then tl u else u);
          neg = (ex \<and> v \<noteq> [] \<and> hd v = CHR ''-'');
          w = (if ex \<and> v \<noteq> [] \<and> (hd v = CHR ''-'' \<or> hd v = CHR ''+'') then tl v else v);
          (es, rest) = (if ex then digits_of w else ([], w));
          e = (if neg then - int (digits_value es) else int (digits_value es))
      in if (ds = [] \<and> fs = []) \<or> (ex \<and> es = []) \<or> rest \<noteq> [] then NumNaN
         else nearest_double (digits_value (ds @ fs)) (e - int (length fs)))"

definition radix_value :: "nat \<Rightarrow> string \<Rightarrow> js_num" where
  "radix_value base s =
     (if s = [] \<or> \<not> list_all (\<lambda>c. case hex_value c of Some d \<Rightarrow> d < base | None \<Rightarrow> False) s then NumNaN
      else nearest_double (foldl (\<lambda>n c. base * n + (case hex_value c of Some d \<Rightarrow> d | None \<Rightarrow> 0)) 0 s) 0)"

definition trim_space :: "string \<Rightarrow> string" where
  "trim_space s = rev (dropWhile is_space (rev (dropWhile is_space s)))"

text \<open>\<open>Number(s)\<close>\<close>

definition js_number_text :: "string \<Rightarrow> js_num" where
  "js_number_text s =
     (let t = trim_space s in
      if t = [] then NumInt 0
      else if take 2 t = ''0x'' \<or> take 2 t = ''0X'' then radix_value 16 (drop 2 t)
      else if take 2 t = ''0o'' \<or> take 2 t = ''0O'' then radix_value 8 (drop 2 t)
      else if take 2 t = ''0b'' \<or> take 2 t = ''0B'' then radix_value 2 (drop 2 t)
      else
        (let neg = (hd t = CHR ''-''); u = (if hd t = CHR ''-'' \<or> hd t = CHR ''+'' then tl t else t);
             v = (if u = ''Infinity'' then NumInf else decimal_text u)
         in if neg then js_neg v else v))"

lemma trim_space_digits: "is_digits s \<Longrightarrow> trim_space s = s"
proof -
  assume d: "is_digits s"
  then have n: "s \<noteq> []" "\<forall>c \<in> set s. \<not> is_space c"
    by (auto simp: is_digits_def list_all_iff is_space_def digit_value_def Let_def)
  then have "dropWhile is_space s = s" "dropWhile is_space (rev s) = rev s"
    using last_in_set [of s] by (auto simp: dropWhile_eq_self_iff hd_rev)
  then show ?thesis by (simp add: trim_space_def)
qed

lemma js_number_digits:
  assumes d: "is_digits s" and v: "digits_value s < 2 ^ 53"
  shows "js_number_text s = NumInt (int (digits_value s))"
proof -
  obtain c cs where s: "s = c # cs" using d by (cases s) (auto simp: is_digits_def)
  have c: "digit_value c \<noteq> None" using d s by (simp add: is_digits_def)
  have dig: "\<forall>x \<in> set s. digit_value x \<noteq> None" using d by (simp add: is_digits_def list_all_iff)
  have h: "hd s \<noteq> CHR ''-''" "hd s \<noteq> CHR ''+''" "s \<noteq> ''Infinity''"
    using c by (auto simp: s digit_value_def Let_def)
  have p: "take 2 s \<noteq> [CHR ''0'', x]" if "digit_value x = None" for x
    using that dig s by (cases cs) auto
  have "digits_of s = (s, [])" using dig by (simp add: digits_of_def)
  moreover have "js_nat (digits_value s) = digits_value s" using v by (rule js_nat_exact)
  moreover have "\<not> (2 :: nat) ^ 1024 \<le> digits_value s"
    using v power_strict_increasing [of 53 1024 "2 :: nat"] by linarith
  ultimately have t: "decimal_text s = NumInt (int (digits_value s))"
    using s by (auto simp: decimal_text_def nearest_double_def Let_def digits_value_def)
  have "take 2 s \<noteq> ''0x''" "take 2 s \<noteq> ''0X''" "take 2 s \<noteq> ''0o''" "take 2 s \<noteq> ''0O''"
    "take 2 s \<noteq> ''0b''" "take 2 s \<noteq> ''0B''"
    by (rule p, simp add: digit_value_def)+
  moreover have "s \<noteq> []" using s by simp
  ultimately show ?thesis
    unfolding js_number_text_def trim_space_digits [OF d] Let_def
    by (simp only: h t if_False simp_thms)
qed

section \<open>Messages\<close>

text \<open>\<open>jsonObject(text)\<close> of a value that may not be a string, and the two shapes of a payload.\<close>

definition jsonObject :: "json option \<Rightarrow> json option" where
  "jsonObject v =
     (case v of
        Some (JStr s) \<Rightarrow> (case json_parse s of Some (JObj kvs) \<Rightarrow> Some (JObj kvs) | _ \<Rightarrow> None)
      | _ \<Rightarrow> None)"

definition plain_object :: "json option \<Rightarrow> json option" where
  "plain_object v = (case v of Some (JObj kvs) \<Rightarrow> Some (JObj kvs) | _ \<Rightarrow> None)"

text \<open>The value of a JSON number, whichever way it is written.\<close>

definition json_num :: "json \<Rightarrow> js_num" where
  "json_num j =
     (case j of
        JInt n \<Rightarrow> if 2 ^ 1024 \<le> \<bar>n\<bar> then NumInf else NumInt n
      | JFloat s \<Rightarrow> (if s \<noteq> [] \<and> hd s = CHR ''-'' then js_neg (decimal_text (tl s)) else decimal_text s)
      | _ \<Rightarrow> NumNaN)"

end
