(* ===== verification/Vacuum_Map.thy ===== *)
theory Vacuum_Map
  imports Lz4_Block Raw_Dp Js_Text
begin

text \<open>
  The robot's map as \<open>src/model/vacuum-map.ts\<close> decodes it from the messages of the map stream, and the
  lookups of \<open>src/model/map-pixels.ts\<close> into the two pixel planes.

  The codec is the interface \<open>RawDpCodec\<close>; \<open>raw_codec\<close> is the one the SDK passes. Coordinates are
  integers (centimetres); the quotient \<open>Math.round\<close> is taken of is exact here, as the double is for any
  coordinate a device can send. A width times a height that a double would round exceeds any buffer.
\<close>

section \<open>Data\<close>

record map_point =
  ptX :: int
  ptY :: int

record map_pose = map_point +
  poTheta :: int

record map_line =
  lnFrom :: map_point
  lnTo :: map_point

record map_quad =
  qdCorners :: "map_point list"

datatype dock_kind = Charger | Station

record map_dock =
  dkKind :: dock_kind
  dkPose :: map_pose

datatype map_quality = Incomplete | Rough | Effective | ListFull

text \<open>What both planes have in common (\<open>PlacedPlane\<close>).\<close>

record placed_plane =
  plWidth :: nat
  plHeight :: nat
  plResolution :: "nat option"
  plOrigin :: map_point

record map_geometry = placed_plane +
  gmAngle :: nat
  gmQuality :: map_quality
  gmDocks :: "map_dock list"

datatype frame_kind = FullFrame | IncrementalFrame

datatype cell_value = CellUnknown | CellObstacle | CellFree | CellCarpet

record map_plane =
  mpFrame :: frame_kind
  mpMapId :: "nat option"
  mpName :: "string option"
  mpReleases :: nat
  mpIndex :: nat
  mpGeometry :: map_geometry
  mpCells :: buffer

record room_outline = placed_plane +
  roMapId :: "nat option"
  roReleases :: nat
  roCells :: buffer

datatype floor_type = FloorUnknown | FloorCarpet | FloorWood | FloorTile

datatype room_scene = SceneUnknown | Study | Bedroom | Bathroom | Kitchen | LivingRoom | DiningRoom | Corridor

datatype room_suction = SuctionQuiet | SuctionStandard | SuctionTurbo | SuctionMax | SuctionMaxPlus

datatype clean_type = Sweep | Mop | SweepAndMop | SweepThenMop

datatype mop_level = MopLow | MopMiddle | MopHigh

datatype clean_extent = ExtentNormal | ExtentNarrow | ExtentQuick

record room_settings =
  rsCleanType :: "clean_type option"
  rsSuction :: "room_suction option"
  rsMopLevel :: "mop_level option"
  rsCleanExtent :: "clean_extent option"
  rsCleanTimes :: "nat option"

record vacuum_room =
  rmId :: nat
  rmName :: "string option"
  rmScene :: room_scene
  rmSceneIndex :: nat
  rmFloor :: floor_type
  rmOrder :: nat
  rmSettings :: room_settings

record room_params =
  rpMapId :: "nat option"
  rpReleases :: nat
  rpCustomEnabled :: bool
  rpSmartMode :: bool
  rpRooms :: "vacuum_room list"

record restricted_zones =
  rzMapId :: "nat option"
  rzReleases :: nat
  rzVirtualWalls :: "map_line list"
  rzNoGoZones :: "map_quad list"
  rzNoMopZones :: "map_quad list"

record map_description =
  mdMapId :: "nat option"
  mdReleases :: nat
  mdName :: "string option"
  mdCreateCause :: nat
  mdCreatedAt :: "nat option"
  mdLastUsedAt :: "nat option"

record map_backup =
  bkDescription :: "map_description option"
  bkMap :: "map_plane option"
  bkOutline :: "room_outline option"
  bkRooms :: "room_params option"
  bkZones :: "restricted_zones option"

section \<open>The codec and the readers over it\<close>

type_synonym dp_fields = "dp_field list option"

record dp_codec =
  cdDecode :: "string \<Rightarrow> dp_fields"
  cdNested :: "buffer \<Rightarrow> dp_fields"

definition raw_codec :: "pb_reader \<Rightarrow> dp_codec" where
  "raw_codec r =
     \<lparr>cdDecode = (\<lambda>v. case rawdp_decode r v of Some x \<Rightarrow> x | None \<Rightarrow> None),
      cdNested = (\<lambda>b. case rawdp_nested r b of Some x \<Rightarrow> x | None \<Rightarrow> None)\<rparr>"

definition pr_text :: "dp_fields \<Rightarrow> nat \<Rightarrow> string option" where
  "pr_text flds field =
     (case find_field flds field of
        Some (BytesV b) \<Rightarrow> if 0 < length b then Some (utf8_text b) else None
      | _ \<Rightarrow> None)"

text \<open>\<open>TABLE[n]\<close>, and \<open>TABLE[n] ?? d\<close>.\<close>

definition table_at :: "'a list \<Rightarrow> nat \<Rightarrow> 'a option" where
  "table_at xs n = (if n < length xs then Some (xs ! n) else None)"

definition table_or :: "'a list \<Rightarrow> 'a \<Rightarrow> nat \<Rightarrow> 'a" where
  "table_or xs d n = (case table_at xs n of Some x \<Rightarrow> x | None \<Rightarrow> d)"

definition nonzero :: "nat \<Rightarrow> nat option" where
  "nonzero n = (if n = 0 then None else Some n)"

definition DOCK_KINDS :: "dock_kind list" where "DOCK_KINDS = [Charger, Station]"
definition MAP_QUALITIES :: "map_quality list" where "MAP_QUALITIES = [Incomplete, Rough, Effective, ListFull]"
definition MAP_FRAME_KINDS :: "frame_kind list" where "MAP_FRAME_KINDS = [FullFrame, IncrementalFrame]"
definition MAP_CELL_VALUES :: "cell_value list" where
  "MAP_CELL_VALUES = [CellUnknown, CellObstacle, CellFree, CellCarpet]"
definition FLOOR_TYPES :: "floor_type list" where
  "FLOOR_TYPES = [FloorUnknown, FloorCarpet, FloorWood, FloorTile]"
definition ROOM_SCENES :: "room_scene list" where
  "ROOM_SCENES = [SceneUnknown, Study, Bedroom, Bathroom, Kitchen, LivingRoom, DiningRoom, Corridor]"
definition ROOM_SUCTIONS :: "room_suction list" where
  "ROOM_SUCTIONS = [SuctionQuiet, SuctionStandard, SuctionTurbo, SuctionMax, SuctionMaxPlus]"
definition VACUUM_CLEAN_TYPES :: "clean_type list" where
  "VACUUM_CLEAN_TYPES = [Sweep, Mop, SweepAndMop, SweepThenMop]"
definition MOP_LEVELS :: "mop_level list" where "MOP_LEVELS = [MopLow, MopMiddle, MopHigh]"
definition CLEAN_EXTENTS :: "clean_extent list" where
  "CLEAN_EXTENTS = [ExtentNormal, ExtentNarrow, ExtentQuick]"

definition mapIdOf :: "dp_fields \<Rightarrow> nat \<Rightarrow> nat option" where
  "mapIdOf flds field = nonzero (pr_int flds field)"

definition pointOf :: "dp_codec \<Rightarrow> dp_fields \<Rightarrow> nat \<Rightarrow> map_point" where
  "pointOf c flds field =
     (let p = pr_sub (cdNested c) flds field in \<lparr>ptX = pr_signed p 1, ptY = pr_signed p 2\<rparr>)"

definition poseOf :: "dp_fields \<Rightarrow> map_pose" where
  "poseOf pose = \<lparr>ptX = pr_signed pose 1, ptY = pr_signed pose 2, poTheta = pr_signed pose 3\<rparr>"

definition lineOf :: "dp_codec \<Rightarrow> dp_fields \<Rightarrow> map_line" where
  "lineOf c line = \<lparr>lnFrom = pointOf c line 1, lnTo = pointOf c line 2\<rparr>"

definition quadOf :: "dp_codec \<Rightarrow> dp_fields \<Rightarrow> map_quad" where
  "quadOf c quad =
     \<lparr>qdCorners = [pointOf c quad 1, pointOf c quad 2, pointOf c quad 3, pointOf c quad 4]\<rparr>"

definition docksOf :: "dp_codec \<Rightarrow> dp_fields \<Rightarrow> map_dock list" where
  "docksOf c info =
     (let v2 = map (\<lambda>d. \<lparr>dkKind = table_or DOCK_KINDS Charger (pr_int (Some d) 1),
                         dkPose = poseOf (pr_sub (cdNested c) (Some d) 2)\<rparr>)
                (pr_each (cdNested c) info 10)
      in if v2 \<noteq> [] then v2
         else map (\<lambda>p. \<lparr>dkKind = Charger, dkPose = poseOf (Some p)\<rparr>) (pr_each (cdNested c) info 6))"

definition geometryOf :: "dp_codec \<Rightarrow> dp_fields \<Rightarrow> map_geometry option" where
  "geometryOf c info =
     (let width = pr_int info 2; height = pr_int info 3 in
      if width = 0 \<or> height = 0 then None
      else Some
        \<lparr>plWidth = width, plHeight = height, plResolution = nonzero (pr_int info 4),
         plOrigin = pointOf c info 5, gmAngle = pr_int info 9,
         gmQuality = table_or MAP_QUALITIES Incomplete (pr_int info 7), gmDocks = docksOf c info\<rparr>)"

definition planeOf :: "dp_fields \<Rightarrow> nat \<Rightarrow> nat \<Rightarrow> nat \<Rightarrow> buffer option" where
  "planeOf flds pixels size_field needed =
     (case pr_bytes flds pixels of
        None \<Rightarrow> None
      | Some raw \<Rightarrow>
          (let expected = pr_int flds size_field;
               plane = (if length raw = expected then Some raw else lz4BlockDecompress raw (int expected))
           in case plane of
                Some p \<Rightarrow> if length p \<ge> needed then Some p else None
              | None \<Rightarrow> None))"

section \<open>Decoders\<close>

text \<open>
  A payload of unknown type is \<open>None\<close> where it is not a string. A decoder without a codec answers
  \<open>undefined\<close>.
\<close>

definition open_payload :: "string option \<Rightarrow> dp_codec option \<Rightarrow> dp_fields" where
  "open_payload raw codec =
     (case (raw, codec) of (Some s, Some c) \<Rightarrow> cdDecode c s | _ \<Rightarrow> None)"

definition with_fields ::
  "string option \<Rightarrow> dp_codec option \<Rightarrow> (dp_codec \<Rightarrow> dp_fields \<Rightarrow> 'a option) \<Rightarrow> 'a option" where
  "with_fields raw codec f =
     (case (open_payload raw codec, codec) of
        (Some fs, Some c) \<Rightarrow> f c (Some fs)
      | _ \<Rightarrow> None)"

definition decodeVacuumMapGeometry :: "string option \<Rightarrow> dp_codec option \<Rightarrow> map_geometry option" where
  "decodeVacuumMapGeometry raw codec = with_fields raw codec geometryOf"

definition decodeVacuumPose :: "string option \<Rightarrow> dp_codec option \<Rightarrow> map_pose option" where
  "decodeVacuumPose raw codec =
     with_fields raw codec (\<lambda>c fs.
       case pr_sub (cdNested c) fs 1 of Some pose \<Rightarrow> Some (poseOf (Some pose)) | None \<Rightarrow> None)"

definition decodeVacuumMap :: "string option \<Rightarrow> dp_codec option \<Rightarrow> map_plane option" where
  "decodeVacuumMap raw codec =
     with_fields raw codec (\<lambda>c fs.
       case geometryOf c (pr_sub (cdNested c) fs 6) of
         None \<Rightarrow> None
       | Some geometry \<Rightarrow>
           (let needed = (plWidth geometry * plHeight geometry + 3) div 4 in
            case planeOf fs 4 5 needed of
              None \<Rightarrow> None
            | Some cells \<Rightarrow> Some
                \<lparr>mpFrame = table_or MAP_FRAME_KINDS FullFrame (pr_int fs 3), mpMapId = mapIdOf fs 8,
                 mpName = pr_text fs 7, mpReleases = pr_int fs 9,
                 mpIndex = pr_int (pr_sub (cdNested c) fs 10) 1, mpGeometry = geometry, mpCells = cells\<rparr>))"

definition decodeVacuumRoomOutline :: "string option \<Rightarrow> dp_codec option \<Rightarrow> room_outline option" where
  "decodeVacuumRoomOutline raw codec =
     with_fields raw codec (\<lambda>c fs.
       let width = pr_int fs 3; height = pr_int fs 4 in
       if width = 0 \<or> height = 0 then None
       else
         (case planeOf fs 7 8 (width * height) of
            None \<Rightarrow> None
          | Some cells \<Rightarrow> Some
              \<lparr>plWidth = width, plHeight = height, plResolution = nonzero (pr_int fs 5),
               plOrigin = pointOf c fs 6, roMapId = mapIdOf fs 1, roReleases = pr_int fs 2,
               roCells = cells\<rparr>))"

definition settingsOf :: "dp_codec \<Rightarrow> dp_fields \<Rightarrow> room_settings" where
  "settingsOf c room =
     (let custom = pr_sub (cdNested c) room 7;
          wrapped = (\<lambda>field. case pr_sub (cdNested c) custom field of
                               None \<Rightarrow> None
                             | Some inner \<Rightarrow> Some (pr_int (Some inner) 1));
          times = pr_int custom 5
      in \<lparr>rsCleanType = Option.bind (wrapped 1) (table_at VACUUM_CLEAN_TYPES),
          rsSuction = Option.bind (wrapped 2) (table_at ROOM_SUCTIONS),
          rsMopLevel = Option.bind (wrapped 3) (table_at MOP_LEVELS),
          rsCleanExtent = Option.bind (wrapped 4) (table_at CLEAN_EXTENTS),
          rsCleanTimes = nonzero times\<rparr>)"

definition roomOf :: "dp_codec \<Rightarrow> dp_fields \<Rightarrow> vacuum_room" where
  "roomOf c room =
     (let scene = pr_sub (cdNested c) room 4
      in \<lparr>rmId = pr_int room 1, rmName = pr_text room 2,
          rmScene = table_or ROOM_SCENES SceneUnknown (pr_int scene 1),
          rmSceneIndex = pr_int (pr_sub (cdNested c) scene 2) 1,
          rmFloor = table_or FLOOR_TYPES FloorUnknown (pr_int (pr_sub (cdNested c) room 3) 1),
          rmOrder = pr_int (pr_sub (cdNested c) room 6) 1,
          rmSettings = settingsOf c room\<rparr>)"

definition decodeVacuumRoomParams :: "string option \<Rightarrow> dp_codec option \<Rightarrow> room_params option" where
  "decodeVacuumRoomParams raw codec =
     with_fields raw codec (\<lambda>c fs. Some
       \<lparr>rpMapId = mapIdOf fs 3, rpReleases = pr_int fs 4, rpCustomEnabled = pr_flag fs 1,
        rpSmartMode = pr_flag (pr_sub (cdNested c) fs 6) 1,
        rpRooms = map (\<lambda>room. roomOf c (Some room)) (pr_each (cdNested c) fs 2)\<rparr>)"

definition decodeVacuumRestrictedZones :: "string option \<Rightarrow> dp_codec option \<Rightarrow> restricted_zones option" where
  "decodeVacuumRestrictedZones raw codec =
     with_fields raw codec (\<lambda>c fs. Some
       \<lparr>rzMapId = mapIdOf fs 4, rzReleases = pr_int fs 5,
        rzVirtualWalls = map (\<lambda>l. lineOf c (Some l)) (pr_each (cdNested c) fs 1),
        rzNoGoZones = map (\<lambda>q. quadOf c (Some q)) (pr_each (cdNested c) fs 2),
        rzNoMopZones = map (\<lambda>q. quadOf c (Some q)) (pr_each (cdNested c) fs 3)\<rparr>)"

definition decodeVacuumMapDescription :: "string option \<Rightarrow> dp_codec option \<Rightarrow> map_description option" where
  "decodeVacuumMapDescription raw codec =
     with_fields raw codec (\<lambda>c fs. Some
       \<lparr>mdMapId = mapIdOf fs 6, mdReleases = pr_int fs 7, mdName = pr_text fs 2,
        mdCreateCause = pr_int fs 3, mdCreatedAt = nonzero (pr_int fs 4),
        mdLastUsedAt = nonzero (pr_int fs 5)\<rparr>)"

text \<open>The length prefix \<open>reframe\<close> puts back: base-128 digits, low first.\<close>

fun reframe_prefix :: "nat \<Rightarrow> buffer" where
  "reframe_prefix n =
     (if n > 0x7f then of_nat (n mod 0x80 + 0x80) # reframe_prefix (n div 0x80) else [of_nat n])"

declare reframe_prefix.simps [simp del]

definition reframe :: "buffer \<Rightarrow> string" where
  "reframe body = b64_encode (reframe_prefix (length body) @ body)"

definition backup_part ::
  "dp_codec \<Rightarrow> dp_fields \<Rightarrow> nat \<Rightarrow> (string option \<Rightarrow> dp_codec option \<Rightarrow> 'a option) \<Rightarrow> 'a option" where
  "backup_part c fs field decode =
     (case pr_bytes fs field of None \<Rightarrow> None | Some inner \<Rightarrow> decode (Some (reframe inner)) (Some c))"

definition decodeVacuumMapBackup :: "string option \<Rightarrow> dp_codec option \<Rightarrow> map_backup option" where
  "decodeVacuumMapBackup raw codec =
     with_fields raw codec (\<lambda>c fs. Some
       \<lparr>bkDescription = backup_part c fs 1 decodeVacuumMapDescription,
        bkMap = backup_part c fs 2 decodeVacuumMap,
        bkOutline = backup_part c fs 3 decodeVacuumRoomOutline,
        bkRooms = backup_part c fs 4 decodeVacuumRoomParams,
        bkZones = backup_part c fs 5 decodeVacuumRestrictedZones\<rparr>)"

section \<open>Lookups\<close>

record map_cell =
  clCol :: int
  clRow :: int

definition js_round_div :: "int \<Rightarrow> nat \<Rightarrow> int" where
  "js_round_div n d = (2 * n + int d) div (2 * int d)"

definition in_plane :: "('a :: type) placed_plane_scheme \<Rightarrow> map_cell \<Rightarrow> bool" where
  "in_plane p c \<longleftrightarrow> 0 \<le> clCol c \<and> 0 \<le> clRow c \<and> clCol c < int (plWidth p) \<and> clRow c < int (plHeight p)"

definition resolution_of :: "('a :: type) placed_plane_scheme \<Rightarrow> nat option" where
  "resolution_of p = Option.bind (plResolution p) nonzero"

definition cellAtPoint :: "('a :: type) placed_plane_scheme \<Rightarrow> ('b :: type) map_point_scheme \<Rightarrow> map_cell option" where
  "cellAtPoint p pt =
     (case resolution_of p of
        None \<Rightarrow> None
      | Some r \<Rightarrow>
          (let c = \<lparr>clCol = js_round_div (ptX pt - ptX (plOrigin p)) r,
                    clRow = js_round_div (ptY pt - ptY (plOrigin p)) r\<rparr>
           in if in_plane p c then Some c else None))"

definition pointAtCell :: "('a :: type) placed_plane_scheme \<Rightarrow> map_cell \<Rightarrow> map_point option" where
  "pointAtCell p c =
     (case resolution_of p of
        None \<Rightarrow> None
      | Some r \<Rightarrow>
          if in_plane p c
          then Some \<lparr>ptX = ptX (plOrigin p) + clCol c * int r, ptY = ptY (plOrigin p) + clRow c * int r\<rparr>
          else None)"

text \<open>\<open>buf[i]\<close>, and the 32-bit reading the shifts take of an index.\<close>

definition byte_at :: "buffer \<Rightarrow> int \<Rightarrow> byte option" where
  "byte_at b i = (if 0 \<le> i \<and> nat i < length b then Some (b ! nat i) else None)"

definition to_int32 :: "int \<Rightarrow> int" where
  "to_int32 n = signed_take_bit 31 n"

definition mapCellValue :: "map_plane \<Rightarrow> map_cell \<Rightarrow> cell_value option" where
  "mapCellValue m c =
     (if \<not> in_plane (mpGeometry m) c then None
      else
        (let i = clRow c * int (plWidth (mpGeometry m)) + clCol c in
         case byte_at (mpCells m) (drop_bit 2 (to_int32 i)) of
           None \<Rightarrow> None
         | Some b \<Rightarrow> Some (MAP_CELL_VALUES ! nat (drop_bit (nat ((to_int32 i AND 3) * 2)) (uint b) AND 3))))"

definition mapCellValueAt :: "map_plane \<Rightarrow> ('b :: type) map_point_scheme \<Rightarrow> cell_value option" where
  "mapCellValueAt m pt =
     (case cellAtPoint (mpGeometry m) pt of Some c \<Rightarrow> mapCellValue m c | None \<Rightarrow> None)"

definition roomIdAt :: "room_outline \<Rightarrow> map_cell \<Rightarrow> nat option" where
  "roomIdAt o1 c =
     (if \<not> in_plane o1 c then None
      else
        (case byte_at (roCells o1) (clRow c * int (plWidth o1) + clCol c) of
           None \<Rightarrow> None
         | Some b \<Rightarrow> nonzero (unat b div 4)))"

definition roomIdAtPoint :: "room_outline \<Rightarrow> ('b :: type) map_point_scheme \<Rightarrow> nat option" where
  "roomIdAtPoint o1 pt = (case cellAtPoint o1 pt of Some c \<Rightarrow> roomIdAt o1 c | None \<Rightarrow> None)"

definition roomAtPoint :: "room_outline \<Rightarrow> room_params \<Rightarrow> ('b :: type) map_point_scheme \<Rightarrow> vacuum_room option" where
  "roomAtPoint o1 rooms pt =
     (case roomIdAtPoint o1 pt of
        None \<Rightarrow> None
      | Some n \<Rightarrow> find (\<lambda>r. rmId r = n) (rpRooms rooms))"


section \<open>Cells and positions\<close>

lemma resolution_pos: "resolution_of p = Some r \<Longrightarrow> 0 < r"
  by (auto simp: resolution_of_def nonzero_def bind_eq_Some_conv split: if_splits)

lemma js_round_div_near:
  assumes "0 < r" "- int r \<le> 2 * d" "2 * d < int r"
  shows "js_round_div (n * int r + d) r = n"
proof -
  have e: "2 * (n * int r + d) + int r = (2 * d + int r) + n * (2 * int r)" by (simp add: algebra_simps)
  have z: "(2 * d + int r) div (2 * int r) = 0" using assms by (intro div_pos_pos_trivial) linarith+
  have nz: "2 * int r \<noteq> 0" using assms(1) by simp
  show ?thesis unfolding js_round_div_def e div_mult_self1 [OF nz] z by simp
qed

text \<open>
  A cell and the world position it is anchored at determine each other: \<open>pointAtCell\<close> of a cell of
  the plane is found again by \<open>cellAtPoint\<close>, and so is every position within half a cell of it, on
  either axis and for either sign of the origin; a cell outside the plane has no position.
\<close>

theorem cell_point_roundtrip:
  assumes "resolution_of p = Some r"
    and "- int r \<le> 2 * dx" "2 * dx < int r" "- int r \<le> 2 * dy" "2 * dy < int r"
  shows "if in_plane p c
    then \<exists>pt. pointAtCell p c = Some pt \<and> cellAtPoint p (pt\<lparr>ptX := ptX pt + dx, ptY := ptY pt + dy\<rparr>) = Some c
    else pointAtCell p c = None"
proof -
  have r: "0 < r" using assms(1) by (rule resolution_pos)
  have "(ptX (plOrigin p) + clCol c * int r + dx) - ptX (plOrigin p) = clCol c * int r + dx"
    "(ptY (plOrigin p) + clRow c * int r + dy) - ptY (plOrigin p) = clRow c * int r + dy" by simp_all
  moreover have "in_plane p \<lparr>clCol = clCol c, clRow = clRow c\<rparr> = in_plane p c"
    by (simp add: in_plane_def)
  ultimately show ?thesis
    using assms js_round_div_near [OF r, of dx "clCol c"] js_round_div_near [OF r, of dy "clRow c"]
    by (simp add: pointAtCell_def cellAtPoint_def Let_def)
qed

section \<open>The planes answer for every cell\<close>

lemma in_plane_index:
  assumes "in_plane p c"
  shows "0 \<le> clRow c * int (plWidth p) + clCol c"
    and "clRow c * int (plWidth p) + clCol c < int (plWidth p * plHeight p)"
proof -
  have c: "0 \<le> clCol c" "0 \<le> clRow c" "clCol c < int (plWidth p)" "clRow c + 1 \<le> int (plHeight p)"
    using assms by (auto simp: in_plane_def)
  show "0 \<le> clRow c * int (plWidth p) + clCol c" using c by (intro add_nonneg_nonneg mult_nonneg_nonneg) auto
  have "clRow c * int (plWidth p) + clCol c < (clRow c + 1) * int (plWidth p)"
    using c by (simp add: algebra_simps)
  also have "\<dots> \<le> int (plHeight p) * int (plWidth p)" using c by (intro mult_right_mono) auto
  finally show "clRow c * int (plWidth p) + clCol c < int (plWidth p * plHeight p)"
    by (simp add: mult.commute)
qed

lemma to_int32_small: "0 \<le> i \<Longrightarrow> i < 2 ^ 31 \<Longrightarrow> to_int32 i = i"
  unfolding to_int32_def by (rule signed_take_bit_int_eq_self) (simp_all add: less_le_trans)

lemma drop_bit_2: "drop_bit 2 (i :: int) = i div 4"
  by (simp add: drop_bit_eq_div)

lemma planeOf_length: "planeOf fs a b n = Some p \<Longrightarrow> n \<le> length p"
  by (auto simp: planeOf_def Let_def split: option.splits if_splits)

lemma decodeVacuumMap_cells:
  assumes "decodeVacuumMap raw codec = Some m"
  shows "(plWidth (mpGeometry m) * plHeight (mpGeometry m) + 3) div 4 \<le> length (mpCells m)"
  using assms
  by (auto simp: decodeVacuumMap_def with_fields_def Let_def dest!: planeOf_length split: option.splits)

lemma decodeVacuumRoomOutline_cells:
  assumes "decodeVacuumRoomOutline raw codec = Some m"
  shows "plWidth m * plHeight m \<le> length (roCells m)"
  using assms
  by (auto simp: decodeVacuumRoomOutline_def with_fields_def Let_def dest!: planeOf_length
      split: option.splits if_splits)

lemma mapCellValue_index:
  assumes c: "in_plane (mpGeometry m) c"
    and w: "plWidth (mpGeometry m) * plHeight (mpGeometry m) \<le> 2 ^ 31"
    and i: "i = nat (clRow c * int (plWidth (mpGeometry m)) + clCol c)"
  shows "mapCellValue m c =
    (if i div 4 < length (mpCells m)
     then Some (MAP_CELL_VALUES ! (unat (mpCells m ! (i div 4)) div 4 ^ (i mod 4) mod 4)) else None)"
proof -
  let ?j = "clRow c * int (plWidth (mpGeometry m)) + clCol c"
  have "int (plWidth (mpGeometry m) * plHeight (mpGeometry m)) \<le> int (2 ^ 31)"
    using w by (rule of_nat_mono)
  then have j: "0 \<le> ?j" "?j < 2 ^ 31" using in_plane_index [OF c] by (simp_all del: of_nat_mult)
  have ij: "?j = int i" using j i by simp
  have t: "to_int32 (int i) = int i" using to_int32_small [OF j] ij by simp
  have a: "int i AND 3 = int (i mod 4)" using take_bit_eq_mask [of 2 "int i"]
    by (simp add: mask_eq_exp_minus_1 take_bit_eq_mod zmod_int)
  have v: "drop_bit (nat (int (i mod 4) * 2)) (uint b) AND 3 = int (unat b div 4 ^ (i mod 4) mod 4)" for b :: byte
  proof -
    have "(2 :: int) ^ nat (int (i mod 4) * 2) = 4 ^ (i mod 4)"
      by (simp add: nat_mult_distrib power_mult [symmetric] mult.commute power_mult [of _ 2])
    then show ?thesis using take_bit_eq_mask [of 2 "uint b div 4 ^ (i mod 4)"]
      by (simp add: mask_eq_exp_minus_1 take_bit_eq_mod drop_bit_eq_div zmod_int zdiv_int)
  qed
  have q: "drop_bit 2 (int i) = int (i div 4)" by (simp add: drop_bit_2 zdiv_int)
  show ?thesis using c
    by (simp add: mapCellValue_def ij t a v q byte_at_def Let_def del: of_nat_div)
qed


text \<open>
  Whatever \<open>decodeVacuumMap\<close> accepts answers for its whole grid: every cell inside the plane has a
  value and no cell outside has one, so the plane is never read past its end; and likewise the room of a
  decoded outline is read from the byte of that cell, for every cell inside. The bound is the index the
  32-bit shift of \<open>mapCellValue\<close> can hold.
\<close>

theorem decoded_planes_answer:
  assumes "decodeVacuumMap raw codec = Some m" "decodeVacuumRoomOutline raw' codec' = Some rooms"
    and "plWidth (mpGeometry m) * plHeight (mpGeometry m) \<le> 2 ^ 31"
  shows "(mapCellValue m c \<noteq> None \<longleftrightarrow> in_plane (mpGeometry m) c) \<and>
    (in_plane rooms c \<longrightarrow>
       nat (clRow c * int (plWidth rooms) + clCol c) < length (roCells rooms) \<and>
       roomIdAt rooms c = nonzero (unat (roCells rooms ! nat (clRow c * int (plWidth rooms) + clCol c)) div 4)) \<and>
    (\<not> in_plane rooms c \<longrightarrow> roomIdAt rooms c = None)"
proof (intro conjI impI iffI)
  show "in_plane (mpGeometry m) c" if "mapCellValue m c \<noteq> None"
    using that by (auto simp: mapCellValue_def split: if_splits)
  show "roomIdAt rooms c = None" if "\<not> in_plane rooms c"
    using that by (simp add: roomIdAt_def)
  show "mapCellValue m c \<noteq> None" if c: "in_plane (mpGeometry m) c"
  proof -
    have "nat (clRow c * int (plWidth (mpGeometry m)) + clCol c) < plWidth (mpGeometry m) * plHeight (mpGeometry m)"
      using in_plane_index [OF c] by (simp add: nat_less_iff)
    then show ?thesis
      using decodeVacuumMap_cells [OF assms(1)] by (simp add: mapCellValue_index [OF c assms(3) refl])
  qed
  show b: "nat (clRow c * int (plWidth rooms) + clCol c) < length (roCells rooms)" if c: "in_plane rooms c"
  proof -
    have "nat (clRow c * int (plWidth rooms) + clCol c) < plWidth rooms * plHeight rooms"
      using in_plane_index [OF c] by (simp add: nat_less_iff)
    then show ?thesis using decodeVacuumRoomOutline_cells [OF assms(2)] by simp
  qed
  show "roomIdAt rooms c = nonzero (unat (roCells rooms ! nat (clRow c * int (plWidth rooms) + clCol c)) div 4)"
    if c: "in_plane rooms c"
    using c b [OF c] in_plane_index(1) [OF c] by (simp add: roomIdAt_def byte_at_def)
qed

section \<open>The packing of the cell plane\<close>

text \<open>Four cells to a byte, the first in the low bits: the packing the module documents.\<close>

definition quad_at :: "nat list \<Rightarrow> nat \<Rightarrow> nat" where
  "quad_at vs i = (if i < length vs then vs ! i else 0)"

definition pack_cells :: "nat list \<Rightarrow> buffer" where
  "pack_cells vs =
     map (\<lambda>k. of_nat (quad_at vs (4 * k) + 4 * quad_at vs (4 * k + 1) + 16 * quad_at vs (4 * k + 2)
                    + 64 * quad_at vs (4 * k + 3)))
       [0..<(length vs + 3) div 4]"

lemma quad_digits:
  assumes "a < 4" "b < 4" "c < 4" "d < (4 :: nat)" "j < 4"
  shows "(a + 4 * b + 16 * c + 64 * d) div 4 ^ j mod 4 = [a, b, c, d] ! j"
proof -
  have q: "(x + 4 * y) div 4 = y" "(x + 4 * y) mod 4 = x" if "x < 4" for x y :: nat
    using that by simp_all
  have e: "a + 4 * b + 16 * c + 64 * d = a + 4 * (b + 4 * (c + 4 * d))" by simp
  consider "j = 0" | "j = 1" | "j = 2" | "j = 3" using assms(5) by linarith
  then show ?thesis
  proof cases
    case 1
    then show ?thesis using assms unfolding e by (simp only: q power_0 div_by_1 nth_Cons_0)
  next
    case 2
    then show ?thesis using assms unfolding e
      by (simp only: q power_Suc power_0 mult_Suc_right mult_0_right add_0_right One_nat_def nth_Cons_0 nth_Cons_Suc)
  next
    case 3
    have "n div 4 ^ 2 = n div 4 div 4" for n :: nat by (simp add: div_mult2_eq [symmetric])
    then show ?thesis using 3 assms unfolding e by (simp only: q) (simp add: q)
  next
    case 4
    have "n div 4 ^ 3 = n div 4 div 4 div 4" for n :: nat by (simp add: div_mult2_eq [symmetric])
    then show ?thesis using 4 assms unfolding e by (simp only: q) (simp add: q)
  qed
qed

text \<open>
  A map is read the way it is packed: for any grid of two-bit values packed four to the byte, low
  bits first and without row padding, the value of the cell at a column and a row is the one the grid
  has there.
\<close>

theorem cells_roundtrip:
  assumes g: "length vs = plWidth (mpGeometry m) * plHeight (mpGeometry m)" "list_all (\<lambda>v. v < 4) vs"
    and w: "length vs \<le> 2 ^ 31" and c: "in_plane (mpGeometry m) c"
    and m: "mpCells m = pack_cells vs"
  shows "mapCellValue m c =
    Some (MAP_CELL_VALUES ! (vs ! nat (clRow c * int (plWidth (mpGeometry m)) + clCol c)))"
proof -
  define i where "i = nat (clRow c * int (plWidth (mpGeometry m)) + clCol c)"
  have i: "i < length vs" using in_plane_index [OF c] by (simp add: i_def g(1) nat_less_iff)
  have q: "quad_at vs k < 4" for k using g(2) by (auto simp: quad_at_def list_all_length)
  let ?k = "i div 4"
  have k: "?k < (length vs + 3) div 4" using i by linarith
  have l: "quad_at vs (4 * ?k) + 4 * quad_at vs (4 * ?k + 1) + 16 * quad_at vs (4 * ?k + 2)
      + 64 * quad_at vs (4 * ?k + 3) < 256"
    using q [of "4 * ?k"] q [of "4 * ?k + 1"] q [of "4 * ?k + 2"] q [of "4 * ?k + 3"] by linarith
  have "unat (mpCells m ! ?k) = quad_at vs (4 * ?k) + 4 * quad_at vs (4 * ?k + 1)
      + 16 * quad_at vs (4 * ?k + 2) + 64 * quad_at vs (4 * ?k + 3)"
    using k l by (simp add: m pack_cells_def unat_of_nat_byte del: of_nat_add of_nat_mult)
  then have "unat (mpCells m ! ?k) div 4 ^ (i mod 4) mod 4 =
      [quad_at vs (4 * ?k), quad_at vs (4 * ?k + 1), quad_at vs (4 * ?k + 2), quad_at vs (4 * ?k + 3)] ! (i mod 4)"
    using quad_digits [OF q q q q, of "i mod 4"] by simp
  also have "\<dots> = quad_at vs (4 * ?k + i mod 4)"
  proof -
    consider "i mod 4 = 0" | "i mod 4 = 1" | "i mod 4 = 2" | "i mod 4 = 3"
      using mod_less_divisor [of 4 i] by linarith
    then show ?thesis by cases (simp_all add: numeral_2_eq_2 numeral_3_eq_3)
  qed
  also have "\<dots> = vs ! i" using i by (simp add: quad_at_def)
  finally have v: "unat (mpCells m ! ?k) div 4 ^ (i mod 4) mod 4 = vs ! i" .
  have "?k < length (mpCells m)" using k by (simp add: m pack_cells_def)
  then show ?thesis
    using mapCellValue_index [OF c _ i_def] w v by (simp add: g(1) i_def)
qed


section \<open>Parts of a backup\<close>

lemma reframe_prefix_varint: "reframe_prefix n = varint_loop n"
proof (induction n rule: reframe_prefix.induct)
  case (1 n)
  then show ?case by (subst reframe_prefix.simps, subst varint_loop.simps) simp
qed

text \<open>
  A part of a backup is read as the message it is: put back into its envelope and decoded like a
  payload off the wire, its bytes yield the very fields they yield as a nested message, for every body a
  32-bit length can describe, the empty one included.
\<close>

theorem reframe_transparent:
  assumes "pb_contract r" "length body < 2 ^ 32"
  shows "cdDecode (raw_codec r) (reframe body) = cdNested (raw_codec r) body"
proof -
  let ?len = "varint_loop (length body)"
  have "rd_uint32 r ([] @ ?len @ body) (length ([] :: buffer)) =
      Some (length body, length ([] :: buffer) + length ?len)"
    using pb_contractD(1) [OF assms] .
  moreover have "b64_encode (?len @ body) \<noteq> []"
    using b64_roundtrip [of "?len @ body"] by (auto simp: b64_decode_def)
  ultimately have "rawdp_decode r (reframe body) = rawdp_nested r body"
    by (simp add: reframe_def reframe_prefix_varint rawdp_decode_def rawdp_nested_def b64_roundtrip Let_def)
  then show ?thesis by (simp add: raw_codec_def)
qed

section \<open>Instances\<close>

definition sample_geometry :: map_geometry where
  "sample_geometry = \<lparr>plWidth = 3, plHeight = 2, plResolution = Some 5, plOrigin = \<lparr>ptX = -20, ptY = 7\<rparr>,
     gmAngle = 0, gmQuality = Effective, gmDocks = []\<rparr>"

definition sample_map :: map_plane where
  "sample_map = \<lparr>mpFrame = FullFrame, mpMapId = Some 1, mpName = None, mpReleases = 1, mpIndex = 0,
     mpGeometry = sample_geometry, mpCells = pack_cells [0, 1, 2, 3, 2, 1]\<rparr>"

text \<open>A \<open>Map\<close> and a \<open>RoomOutline\<close> of three cells by two, as a codec of one message hands out their fields.\<close>

definition sample_codec :: dp_codec where
  "sample_codec = \<lparr>cdDecode = (\<lambda>s.
       if s = ''map'' then Some [(3, IntV 0), (4, BytesV [228, 6]), (5, IntV 2), (6, BytesV [1]), (8, IntV 1), (9, IntV 1)]
       else Some [(1, IntV 1), (2, IntV 1), (3, IntV 3), (4, IntV 2), (7, BytesV [0, 4, 19, 0, 8, 0]), (8, IntV 6)]),
     cdNested = (\<lambda>b. Some [(2, IntV 3), (3, IntV 2), (4, IntV 5)])\<rparr>"

lemma sample_js_nat: "n < 1000 \<Longrightarrow> js_nat n = n"
  by (rule js_nat_exact) (rule less_trans [of _ 1000], simp_all)

lemma sample_decodes:
  "\<exists>m. decodeVacuumMap (Some ''map'') (Some sample_codec) = Some m
     \<and> plWidth (mpGeometry m) = 3 \<and> plHeight (mpGeometry m) = 2"
  "\<exists>m. decodeVacuumRoomOutline (Some ''outline'') (Some sample_codec) = Some m"
  by (simp_all add: decodeVacuumMap_def decodeVacuumRoomOutline_def with_fields_def open_payload_def
      sample_codec_def geometryOf_def planeOf_def pr_int_def pr_sub_def pr_bytes_def find_field_def sample_js_nat Let_def)

theorem cell_point_roundtrip_witness:
  "\<exists>pt. pointAtCell sample_geometry \<lparr>clCol = 2, clRow = 1\<rparr> = Some pt \<and>
     cellAtPoint sample_geometry (pt\<lparr>ptX := ptX pt - 2, ptY := ptY pt + 2\<rparr>) = Some \<lparr>clCol = 2, clRow = 1\<rparr>"
  using cell_point_roundtrip [of sample_geometry 5 "- 2" 2 "\<lparr>clCol = 2, clRow = 1\<rparr>"]
  by (simp add: sample_geometry_def resolution_of_def nonzero_def in_plane_def)

theorem decoded_planes_answer_witness:
  "\<exists>m rooms. decodeVacuumMap (Some ''map'') (Some sample_codec) = Some m \<and>
     decodeVacuumRoomOutline (Some ''outline'') (Some sample_codec) = Some rooms \<and>
     (mapCellValue m \<lparr>clCol = 2, clRow = 1\<rparr> \<noteq> None \<longleftrightarrow> in_plane (mpGeometry m) \<lparr>clCol = 2, clRow = 1\<rparr>)"
proof -
  obtain m where m: "decodeVacuumMap (Some ''map'') (Some sample_codec) = Some m"
    "plWidth (mpGeometry m) * plHeight (mpGeometry m) \<le> 2 ^ 31"
    using sample_decodes(1) by auto
  obtain rooms where rooms: "decodeVacuumRoomOutline (Some ''outline'') (Some sample_codec) = Some rooms"
    using sample_decodes(2) by blast
  from decoded_planes_answer [OF m(1) rooms m(2)] m(1) rooms show ?thesis by blast
qed

theorem cells_roundtrip_witness:
  "mapCellValue sample_map \<lparr>clCol = 1, clRow = 1\<rparr> = Some CellFree"
  using cells_roundtrip [of "[0, 1, 2, 3, 2, 1]" sample_map "\<lparr>clCol = 1, clRow = 1\<rparr>"]
  by (simp add: sample_map_def sample_geometry_def in_plane_def MAP_CELL_VALUES_def)

theorem reframe_transparent_witness:
  "cdDecode (raw_codec sample_reader) (reframe []) = Some []"
  using reframe_transparent [OF sample_reader_contract, of "[]"]
  by (simp add: raw_codec_def rawdp_nested_def readFields_def)

end
