(* ===== verification/Vacuum_Store.thy ===== *)
theory Vacuum_Store
  imports Vacuum_Map
begin

text \<open>
  The map stream from the broker to the store: \<open>parseBizMapFrame\<close> of
  \<open>src/transport/mqtt/biz-stream.ts\<close>, the channel table of \<open>src/client/map-channels.ts\<close>, and the store of
  \<open>src/model/vacuum-map-store.ts\<close> that assembles one map out of pieces that arrive in any order.
\<close>

section \<open>Frames of the map stream\<close>

definition BIZ_MAP_DATA_PROTOCOL :: nat where "BIZ_MAP_DATA_PROTOCOL = 41"

record biz_frame =
  bfChannelId :: nat
  bfClearType :: nat
  bfDataType :: nat
  bfOffset :: nat
  bfLen :: nat
  bfPayload :: string

text \<open>\<open>count(value)\<close>: a non-negative integer, however the JSON spelled it.\<close>

definition count_field :: "json option \<Rightarrow> nat option" where
  "count_field v =
     (let n = (case v of
                 Some (JInt k) \<Rightarrow> json_num (JInt k)
               | Some (JFloat s) \<Rightarrow> json_num (JFloat s)
               | Some (JStr s) \<Rightarrow> js_number_text s
               | _ \<Rightarrow> NumNaN)
      in case n of
           NumInt k \<Rightarrow> if is_safe_integer k \<and> 0 \<le> k then Some (nat k) else None
         | _ \<Rightarrow> None)"

text \<open>\<open>raw\<close> is the message after \<open>JSON.parse\<close>, \<open>None\<close> where there was none.\<close>

definition envelope_payload :: "json option \<Rightarrow> json option" where
  "envelope_payload raw =
     (let outer = Option.bind raw (json_get ''payload'')
      in case jsonObject outer of Some p \<Rightarrow> Some p | None \<Rightarrow> plain_object outer)"

definition parseBizMapFrame :: "json option \<Rightarrow> biz_frame option" where
  "parseBizMapFrame raw =
     (case envelope_payload raw of
        None \<Rightarrow> None
      | Some p \<Rightarrow>
          if count_field (json_get ''protocol'' p) \<noteq> Some BIZ_MAP_DATA_PROTOCOL then None
          else
            (case plain_object (json_get ''data'' p) of
               None \<Rightarrow> None
             | Some d \<Rightarrow>
                 (case (count_field (json_get ''channel_id'' d), count_field (json_get ''clear_type'' d),
                        count_field (json_get ''data_type'' d)) of
                    (Some ch, Some cl, Some dt) \<Rightarrow>
                      (case (count_field (json_get ''offset'' d), count_field (json_get ''len'' d)) of
                         (Some off, Some ln) \<Rightarrow>
                           (case (case json_get ''data'' d of Some (JStr h) \<Rightarrow> hexToRawDp h | _ \<Rightarrow> None) of
                              None \<Rightarrow> None
                            | Some b64 \<Rightarrow> Some
                                \<lparr>bfChannelId = ch, bfClearType = cl, bfDataType = dt, bfOffset = off,
                                 bfLen = ln, bfPayload = b64\<rparr>)
                       | _ \<Rightarrow> None)
                  | _ \<Rightarrow> None)))"

text \<open>The channels by their default id, and the name of one.\<close>

datatype biz_channel = Scenes | MapInfo | Path | RoomOutline | RoomParams | RestrictedZone | DynamicData
  | TemporaryData | ObstacleInfo | MapData | CruiseData

definition BIZ_CHANNEL :: "(biz_channel \<times> nat) list" where
  "BIZ_CHANNEL = [(Scenes, 0), (MapInfo, 1), (Path, 2), (RoomOutline, 3), (RoomParams, 4),
     (RestrictedZone, 5), (DynamicData, 6), (TemporaryData, 7), (ObstacleInfo, 8), (MapData, 9), (CruiseData, 10)]"

definition bizChannelName :: "nat \<Rightarrow> biz_channel option" where
  "bizChannelName n = map_of (map (\<lambda>(c, i). (i, c)) BIZ_CHANNEL) n"

section \<open>Pieces\<close>

datatype lone_piece = PlanePiece map_plane | OutlinePiece room_outline | RoomsPiece room_params
  | ZonesPiece restricted_zones | DescriptionPiece map_description | PosePiece map_pose

datatype map_piece = Lone lone_piece | Backup map_backup

text \<open>The decoder of a channel, tagged; a channel without one yields nothing.\<close>

definition channel_reader :: "biz_channel \<Rightarrow> string \<Rightarrow> dp_codec \<Rightarrow> lone_piece option" where
  "channel_reader ch raw codec =
     (case ch of
        MapData \<Rightarrow> map_option PlanePiece (decodeVacuumMap (Some raw) (Some codec))
      | RoomOutline \<Rightarrow> map_option OutlinePiece (decodeVacuumRoomOutline (Some raw) (Some codec))
      | RoomParams \<Rightarrow> map_option RoomsPiece (decodeVacuumRoomParams (Some raw) (Some codec))
      | RestrictedZone \<Rightarrow> map_option ZonesPiece (decodeVacuumRestrictedZones (Some raw) (Some codec))
      | DynamicData \<Rightarrow> map_option PosePiece (decodeVacuumPose (Some raw) (Some codec))
      | _ \<Rightarrow> None)"

definition decodeMapFrame :: "biz_frame \<Rightarrow> dp_codec \<Rightarrow> lone_piece option" where
  "decodeMapFrame frame codec =
     (if bfOffset frame \<noteq> 0 then None
      else (case bizChannelName (bfChannelId frame) of
              None \<Rightarrow> None
            | Some ch \<Rightarrow> channel_reader ch (bfPayload frame) codec))"

section \<open>The store\<close>

record map_snapshot =
  snMapId :: "nat option"
  snPlane :: "map_plane option"
  snOutline :: "room_outline option"
  snRooms :: "room_params option"
  snZones :: "restricted_zones option"
  snDescription :: "map_description option"
  snPose :: "map_pose option"

definition EMPTY :: map_snapshot where
  "EMPTY = \<lparr>snMapId = None, snPlane = None, snOutline = None, snRooms = None, snZones = None,
     snDescription = None, snPose = None\<rparr>"

datatype stamped_kind = KPlane | KOutline | KRooms | KZones | KDescription

record map_store =
  vsCurrent :: map_snapshot
  vsRevisions :: "stamped_kind \<rightharpoonup> nat"

definition new_store :: map_store where
  "new_store = \<lparr>vsCurrent = EMPTY, vsRevisions = Map.empty\<rparr>"

text \<open>
  \<open>put(kind, value, mapId, releases)\<close>; \<open>store\<close> is the assignment of the value to the member of its kind.
\<close>

definition switch_map :: "nat option \<Rightarrow> map_store \<Rightarrow> map_store" where
  "switch_map mapId s =
     (if mapId \<noteq> None \<and> snMapId (vsCurrent s) \<noteq> None \<and> mapId \<noteq> snMapId (vsCurrent s)
      then \<lparr>vsCurrent = EMPTY\<lparr>snPose := snPose (vsCurrent s), snMapId := mapId\<rparr>, vsRevisions = Map.empty\<rparr>
      else s)"

definition put ::
  "stamped_kind \<Rightarrow> (map_snapshot \<Rightarrow> map_snapshot) \<Rightarrow> nat option \<Rightarrow> nat \<Rightarrow> map_store \<Rightarrow> bool \<times> map_store" where
  "put kind store mapId releases s0 =
     (let s = switch_map mapId s0;
          stale = (case vsRevisions s kind of Some seen \<Rightarrow> releases < seen | None \<Rightarrow> False)
      in if stale then (False, s)
         else
           (True, \<lparr>vsCurrent = store ((vsCurrent s)\<lparr>snMapId := (case mapId of Some m \<Rightarrow> Some m
                                                                | None \<Rightarrow> snMapId (vsCurrent s))\<rparr>),
                   vsRevisions = (vsRevisions s)(kind \<mapsto> releases)\<rparr>))"

fun apply_lone :: "lone_piece \<Rightarrow> map_store \<Rightarrow> bool \<times> map_store" where
  "apply_lone (PosePiece p) s = (True, s\<lparr>vsCurrent := (vsCurrent s)\<lparr>snPose := Some p\<rparr>\<rparr>)"
| "apply_lone (PlanePiece v) s = put KPlane (\<lambda>c. c\<lparr>snPlane := Some v\<rparr>) (mpMapId v) (mpReleases v) s"
| "apply_lone (OutlinePiece v) s = put KOutline (\<lambda>c. c\<lparr>snOutline := Some v\<rparr>) (roMapId v) (roReleases v) s"
| "apply_lone (RoomsPiece v) s = put KRooms (\<lambda>c. c\<lparr>snRooms := Some v\<rparr>) (rpMapId v) (rpReleases v) s"
| "apply_lone (ZonesPiece v) s = put KZones (\<lambda>c. c\<lparr>snZones := Some v\<rparr>) (rzMapId v) (rzReleases v) s"
| "apply_lone (DescriptionPiece v) s =
     put KDescription (\<lambda>c. c\<lparr>snDescription := Some v\<rparr>) (mdMapId v) (mdReleases v) s"

definition opt_piece :: "('a \<Rightarrow> lone_piece) \<Rightarrow> 'a option \<Rightarrow> lone_piece list" where
  "opt_piece f v = (case v of Some x \<Rightarrow> [f x] | None \<Rightarrow> [])"

definition piecesOf :: "map_backup \<Rightarrow> lone_piece list" where
  "piecesOf b =
     opt_piece DescriptionPiece (bkDescription b) @ opt_piece PlanePiece (bkMap b)
     @ opt_piece OutlinePiece (bkOutline b) @ opt_piece RoomsPiece (bkRooms b)
     @ opt_piece ZonesPiece (bkZones b)"

definition applyBackup :: "map_backup \<Rightarrow> map_store \<Rightarrow> bool \<times> map_store" where
  "applyBackup b s =
     fold (\<lambda>p (changed, s1). case apply_lone p s1 of (c, s2) \<Rightarrow> (c \<or> changed, s2)) (piecesOf b) (False, s)"

definition apply_piece :: "map_piece \<Rightarrow> map_store \<Rightarrow> bool \<times> map_store" where
  "apply_piece p s = (case p of Lone q \<Rightarrow> apply_lone q s | Backup b \<Rightarrow> applyBackup b s)"

definition store_clear :: "map_store \<Rightarrow> map_store" where
  "store_clear s = new_store"

definition currentRoom :: "map_store \<Rightarrow> vacuum_room option" where
  "currentRoom s =
     (case (snPose (vsCurrent s), snOutline (vsCurrent s), snRooms (vsCurrent s)) of
        (Some pose, Some outline, Some rooms) \<Rightarrow> roomAtPoint outline rooms pose
      | _ \<Rightarrow> None)"


section \<open>What the store keeps\<close>

text \<open>The stamp (map id and revision) of the piece of each kind a snapshot holds.\<close>

fun held_stamp :: "map_snapshot \<Rightarrow> stamped_kind \<Rightarrow> (nat option \<times> nat) option" where
  "held_stamp c KPlane = map_option (\<lambda>v. (mpMapId v, mpReleases v)) (snPlane c)"
| "held_stamp c KOutline = map_option (\<lambda>v. (roMapId v, roReleases v)) (snOutline c)"
| "held_stamp c KRooms = map_option (\<lambda>v. (rpMapId v, rpReleases v)) (snRooms c)"
| "held_stamp c KZones = map_option (\<lambda>v. (rzMapId v, rzReleases v)) (snZones c)"
| "held_stamp c KDescription = map_option (\<lambda>v. (mdMapId v, mdReleases v)) (snDescription c)"

text \<open>
  Every piece held belongs to the map the snapshot names, or names none, and the revisions remembered
  are those of the pieces held.
\<close>

definition store_inv :: "map_store \<Rightarrow> bool" where
  "store_inv s \<longleftrightarrow>
     (\<forall>k n r. held_stamp (vsCurrent s) k = Some (n, r) \<longrightarrow> n = None \<or> n = snMapId (vsCurrent s)) \<and>
     (\<forall>k. vsRevisions s k = map_option snd (held_stamp (vsCurrent s) k))"

text \<open>How one piece may change what is held: a new map, or every piece kept or replaced by one as new.\<close>

definition store_advances :: "map_store \<Rightarrow> map_store \<Rightarrow> bool" where
  "store_advances s s' \<longleftrightarrow>
     (snMapId (vsCurrent s) \<noteq> None \<and> snMapId (vsCurrent s') \<noteq> None \<and>
      snMapId (vsCurrent s) \<noteq> snMapId (vsCurrent s')) \<or>
     (\<forall>k n r. held_stamp (vsCurrent s) k = Some (n, r) \<longrightarrow>
        (\<exists>n' r'. held_stamp (vsCurrent s') k = Some (n', r') \<and> r \<le> r'))"

lemma store_invD: "store_inv s \<Longrightarrow> held_stamp (vsCurrent s) k = Some (n, r) \<Longrightarrow> n = None \<or> n = snMapId (vsCurrent s)"
  unfolding store_inv_def by blast

lemma held_stamp_EMPTY [simp]: "held_stamp (EMPTY\<lparr>snPose := p, snMapId := n\<rparr>) k = None" "held_stamp EMPTY k = None"
  by (cases k; simp add: EMPTY_def)+

lemma held_stamp_frame [simp]: "held_stamp (c\<lparr>snMapId := n\<rparr>) k = held_stamp c k" "held_stamp (c\<lparr>snPose := p\<rparr>) k = held_stamp c k"
  by (cases k; simp)+

lemma switch_map_inv: "store_inv s \<Longrightarrow> store_inv (switch_map n s)"
  by (auto simp: store_inv_def switch_map_def)

lemma switch_map_id:
  "n \<noteq> None \<Longrightarrow> snMapId (vsCurrent (switch_map n s)) = n \<or> snMapId (vsCurrent (switch_map n s)) = None"
  by (auto simp: switch_map_def EMPTY_def)

text \<open>
  What the five kinds of stamped pieces have in common: storing one is seen under its kind alone, and
  leaves the map id and the pose.
\<close>

locale piece_slot =
  fixes kind :: stamped_kind
    and store :: "'v \<Rightarrow> map_snapshot \<Rightarrow> map_snapshot"
    and stamp :: "'v \<Rightarrow> nat option \<times> nat"
  assumes held_stamp_store: "held_stamp (store v c) k = (if k = kind then Some (stamp v) else held_stamp c k)"
    and store_frame: "snMapId (store v c) = snMapId c" "snPose (store v c) = snPose c"
begin

lemma put_cases:
  assumes st: "stamp v = (i, r)"
  obtains (stale) n where "put kind (store v) i r s = (False, switch_map i s)"
      "vsRevisions (switch_map i s) kind = Some n" "r < n"
    | (stored) c where
      "snd (put kind (store v) i r s) = \<lparr>vsCurrent = c, vsRevisions = (vsRevisions (switch_map i s))(kind \<mapsto> r)\<rparr>"
      "snMapId c = (if i = None then snMapId (vsCurrent (switch_map i s)) else i)"
      "\<And>k. held_stamp c k = (if k = kind then Some (i, r) else held_stamp (vsCurrent (switch_map i s)) k)"
      "\<And>n. vsRevisions (switch_map i s) kind = Some n \<Longrightarrow> n \<le> r"
proof (cases "case vsRevisions (switch_map i s) kind of Some seen \<Rightarrow> r < seen | None \<Rightarrow> False")
  case True
  then obtain n where n: "vsRevisions (switch_map i s) kind = Some n" "r < n"
    by (auto split: option.splits)
  with True show thesis by (intro stale [of n]) (simp_all add: put_def)
next
  case False
  then have le: "n \<le> r" if "vsRevisions (switch_map i s) kind = Some n" for n using that by auto
  show thesis
    by (rule stored [OF _ _ _ le]) (use False in \<open>auto simp: put_def Let_def held_stamp_store store_frame st split: option.splits\<close>)
qed

lemma put_inv:
  assumes "store_inv s"
  shows "store_inv (snd (put kind (store v) (fst (stamp v)) (snd (stamp v)) s))"
proof -
  obtain i r where st: "stamp v = (i, r)" by (cases "stamp v")
  have inv: "store_inv (switch_map i s)" using assms by (rule switch_map_inv)
  from st have "store_inv (snd (put kind (store v) i r s))"
  proof (cases rule: put_cases [where s = s])
    case stale
    with inv show ?thesis by simp
  next
    case (stored c)
    have "n = None \<or> n = snMapId c" if h: "held_stamp c k = Some (n, q)" for k n q
    proof (cases "k = kind")
      case True
      with h stored(2,3) show ?thesis by (cases i) auto
    next
      case False
      with h stored(3) have "held_stamp (vsCurrent (switch_map i s)) k = Some (n, q)" by simp
      with inv have "n = None \<or> n = snMapId (vsCurrent (switch_map i s))" by (rule store_invD)
      then show ?thesis using stored(2) switch_map_id [of i s] by (cases i) auto
    qed
    moreover have "((vsRevisions (switch_map i s))(kind \<mapsto> r)) k = map_option snd (held_stamp c k)" for k
      using inv stored(3) by (simp add: store_inv_def)
    ultimately show ?thesis unfolding stored(1) store_inv_def by simp
  qed
  then show ?thesis by (simp add: st)
qed

lemma put_advances:
  assumes "store_inv s"
  shows "store_advances s (snd (put kind (store v) (fst (stamp v)) (snd (stamp v)) s))"
proof -
  obtain i r where st: "stamp v = (i, r)" by (cases "stamp v")
  have sw: "switch_map i s = s \<or>
      (i \<noteq> None \<and> snMapId (vsCurrent s) \<noteq> None \<and> i \<noteq> snMapId (vsCurrent s) \<and>
       snMapId (vsCurrent (switch_map i s)) = i)"
    by (auto simp: switch_map_def)
  have rev: "vsRevisions s kind = map_option snd (held_stamp (vsCurrent s) kind)"
    using assms by (simp add: store_inv_def)
  from st have "store_advances s (snd (put kind (store v) i r s))"
  proof (cases rule: put_cases [where s = s])
    case stale
    with sw show ?thesis by (auto simp: store_advances_def)
  next
    case (stored c)
    from sw show ?thesis
    proof
      assume s: "switch_map i s = s"
      show ?thesis
        unfolding store_advances_def stored(1)
        by (rule disjI2) (use stored(3,4) rev in \<open>simp add: s\<close>)
    next
      assume "i \<noteq> None \<and> snMapId (vsCurrent s) \<noteq> None \<and> i \<noteq> snMapId (vsCurrent s) \<and>
        snMapId (vsCurrent (switch_map i s)) = i"
      then show ?thesis using stored(2) by (auto simp: store_advances_def stored(1))
    qed
  qed
  then show ?thesis by (simp add: st)
qed

text \<open>A piece older than the one of its kind held, on the same map, changes nothing.\<close>

lemma put_stale:
  assumes "store_inv s" "held_stamp (vsCurrent s) kind = Some (n, r)" "snd (stamp v) < r"
    and "fst (stamp v) = None \<or> snMapId (vsCurrent s) = None \<or> fst (stamp v) = snMapId (vsCurrent s)"
  shows "put kind (store v) (fst (stamp v)) (snd (stamp v)) s = (False, s)"
proof -
  have "switch_map (fst (stamp v)) s = s" using assms(4) by (auto simp: switch_map_def)
  moreover have "vsRevisions s kind = Some r" using assms(1,2) by (simp add: store_inv_def)
  ultimately show ?thesis using assms(3) by (simp add: put_def)
qed

end

interpretation plane_slot: piece_slot KPlane "\<lambda>v c. c\<lparr>snPlane := Some v\<rparr>" "\<lambda>v. (mpMapId v, mpReleases v)"
proof
  show "held_stamp (c\<lparr>snPlane := Some v\<rparr>) k = (if k = KPlane then Some (mpMapId v, mpReleases v) else held_stamp c k)"
    for v c k by (cases k) simp_all
qed simp_all

interpretation outline_slot: piece_slot KOutline "\<lambda>v c. c\<lparr>snOutline := Some v\<rparr>" "\<lambda>v. (roMapId v, roReleases v)"
proof
  show "held_stamp (c\<lparr>snOutline := Some v\<rparr>) k = (if k = KOutline then Some (roMapId v, roReleases v) else held_stamp c k)"
    for v c k by (cases k) simp_all
qed simp_all

interpretation rooms_slot: piece_slot KRooms "\<lambda>v c. c\<lparr>snRooms := Some v\<rparr>" "\<lambda>v. (rpMapId v, rpReleases v)"
proof
  show "held_stamp (c\<lparr>snRooms := Some v\<rparr>) k = (if k = KRooms then Some (rpMapId v, rpReleases v) else held_stamp c k)"
    for v c k by (cases k) simp_all
qed simp_all

interpretation zones_slot: piece_slot KZones "\<lambda>v c. c\<lparr>snZones := Some v\<rparr>" "\<lambda>v. (rzMapId v, rzReleases v)"
proof
  show "held_stamp (c\<lparr>snZones := Some v\<rparr>) k = (if k = KZones then Some (rzMapId v, rzReleases v) else held_stamp c k)"
    for v c k by (cases k) simp_all
qed simp_all

interpretation description_slot: piece_slot KDescription "\<lambda>v c. c\<lparr>snDescription := Some v\<rparr>"
  "\<lambda>v. (mdMapId v, mdReleases v)"
proof
  show "held_stamp (c\<lparr>snDescription := Some v\<rparr>) k =
      (if k = KDescription then Some (mdMapId v, mdReleases v) else held_stamp c k)"
    for v c k by (cases k) simp_all
qed simp_all

lemmas slot_invs = plane_slot.put_inv outline_slot.put_inv rooms_slot.put_inv zones_slot.put_inv
  description_slot.put_inv

lemmas slot_advances = plane_slot.put_advances outline_slot.put_advances rooms_slot.put_advances
  zones_slot.put_advances description_slot.put_advances

lemma apply_lone_inv: "store_inv s \<Longrightarrow> store_inv (snd (apply_lone p s))"
  using slot_invs by (cases p) (simp_all, simp add: store_inv_def)

lemma apply_lone_advances: "store_inv s \<Longrightarrow> store_advances s (snd (apply_lone p s))"
  using slot_advances by (cases p) (simp_all, simp add: store_advances_def)

lemma apply_all_inv:
  "store_inv s \<Longrightarrow>
   store_inv (snd (fold (\<lambda>p (changed, s1). case apply_lone p s1 of (c, s2) \<Rightarrow> (c \<or> changed, s2)) ps (b, s)))"
proof (induction ps arbitrary: b s)
  case (Cons p ps)
  have "store_inv (snd (apply_lone p s))" using Cons.prems by (rule apply_lone_inv)
  then show ?case using Cons.IH by (simp add: case_prod_beta)
qed simp

datatype store_event = Apply map_piece | Clear

definition store_step :: "map_store \<Rightarrow> store_event \<Rightarrow> map_store" where
  "store_step s e = (case e of Apply p \<Rightarrow> snd (apply_piece p s) | Clear \<Rightarrow> store_clear s)"

lemma new_store_inv: "store_inv new_store"
  by (simp add: store_inv_def new_store_def)

interpretation store_runs: stepper store_step store_inv
proof
  show "store_inv (store_step s e)" if "store_inv s" for s e
  proof (cases e)
    case (Apply p)
    then show ?thesis using that apply_lone_inv apply_all_inv
      by (cases p) (simp_all add: store_step_def apply_piece_def applyBackup_def)
  next
    case Clear
    then show ?thesis using new_store_inv by (simp add: store_step_def store_clear_def)
  qed
qed

definition run_store :: "store_event list \<Rightarrow> map_store" where
  "run_store es = foldl store_step new_store es"

lemma run_store_inv: "store_inv (run_store es)"
  unfolding run_store_def using new_store_inv by (rule store_runs.inv_run)

text \<open>
  C34. In every store reached by any pieces, backups and resets in any order, what is held is one map:
  every piece names the map of the snapshot or none at all, and the revision remembered for a kind is
  that of the piece held.
\<close>

theorem store_holds_one_map:
  "\<forall>k n r. held_stamp (vsCurrent (run_store es)) k = Some (n, r) \<longrightarrow>
     (n = None \<or> n = snMapId (vsCurrent (run_store es))) \<and> vsRevisions (run_store es) k = Some r"
  using run_store_inv [of es] by (auto simp: store_inv_def)

text \<open>
  Out of order, nothing goes back: a piece applied to any reachable store either starts another map or
  leaves every kind held with a revision no older than before.
\<close>

theorem pieces_never_go_back:
  "store_advances (run_store es) (snd (apply_lone p (run_store es)))"
  using run_store_inv by (rule apply_lone_advances)

text \<open>
  A room is answered from pieces that belong together: where \<open>currentRoom\<close> names one, a pose, an
  outline and a room list are held, the outline and the list name the map of the snapshot or none, the
  pose lies in a cell of the outline, and the room is the first of the list with the id of that cell.
\<close>

theorem current_room_of_one_map:
  assumes "currentRoom (run_store es) = Some room"
  shows "\<exists>pose outline rooms c.
    snPose (vsCurrent (run_store es)) = Some pose \<and> snOutline (vsCurrent (run_store es)) = Some outline \<and>
    snRooms (vsCurrent (run_store es)) = Some rooms \<and>
    (roMapId outline = None \<or> roMapId outline = snMapId (vsCurrent (run_store es))) \<and>
    (rpMapId rooms = None \<or> rpMapId rooms = snMapId (vsCurrent (run_store es))) \<and>
    cellAtPoint outline pose = Some c \<and> roomIdAt outline c = Some (rmId room) \<and>
    find (\<lambda>r. rmId r = rmId room) (rpRooms rooms) = Some room"
proof -
  let ?c = "vsCurrent (run_store es)"
  from assms obtain pose outline rooms where h: "snPose ?c = Some pose" "snOutline ?c = Some outline"
    "snRooms ?c = Some rooms" "roomAtPoint outline rooms pose = Some room"
    by (auto simp: currentRoom_def split: option.splits)
  from h(4) obtain n where n: "roomIdAtPoint outline pose = Some n" "find (\<lambda>r. rmId r = n) (rpRooms rooms) = Some room"
    by (auto simp: roomAtPoint_def split: option.splits)
  then have "rmId room = n" by (auto simp: find_Some_iff)
  moreover from n(1) obtain c where "cellAtPoint outline pose = Some c" "roomIdAt outline c = Some n"
    by (auto simp: roomIdAtPoint_def split: option.splits)
  moreover have "held_stamp ?c KOutline = Some (roMapId outline, roReleases outline)"
    "held_stamp ?c KRooms = Some (rpMapId rooms, rpReleases rooms)" using h by simp_all
  moreover have "i = None \<or> i = snMapId ?c" if "held_stamp ?c k = Some (i, r)" for k i r
    using run_store_inv that by (rule store_invD)
  ultimately show ?thesis using h(1-3) n(2) by blast
qed


section \<open>A frame as the device sends it\<close>

definition biz_data :: "biz_frame \<Rightarrow> buffer \<Rightarrow> json" where
  "biz_data f body = JObj
     [(''channel_id'', JInt (int (bfChannelId f))), (''clear_type'', JInt (int (bfClearType f))),
      (''data_type'', JInt (int (bfDataType f))), (''offset'', JInt (int (bfOffset f))),
      (''data'', JStr (hex_encode body)), (''len'', JInt (int (bfLen f)))]"

definition biz_payload :: "biz_frame \<Rightarrow> buffer \<Rightarrow> json" where
  "biz_payload f body = JObj [(''protocol'', JInt 41), (''data'', biz_data f body)]"

definition biz_counts :: "biz_frame \<Rightarrow> nat list" where
  "biz_counts f = [bfChannelId f, bfClearType f, bfDataType f, bfOffset f, bfLen f]"

lemma count_int: "n < 2 ^ 53 \<Longrightarrow> count_field (Some (JInt (int n))) = Some n"
proof -
  assume n: "n < 2 ^ 53"
  have "(2 :: nat) ^ 53 < 2 ^ 1024" by (intro power_strict_increasing) simp_all
  then have "\<not> (2 :: nat) ^ 1024 \<le> n" using n by linarith
  then have "\<not> (2 :: int) ^ 1024 \<le> int n" by (metis of_nat_le_iff of_nat_numeral of_nat_power)
  then have "json_num (JInt (int n)) = NumInt (int n)" by (simp add: json_num_def)
  moreover have "is_safe_integer (int n)" using n by (simp add: is_safe_integer_def MAX_SAFE_INTEGER_def)
  ultimately show ?thesis by (simp add: count_field_def)
qed

lemma hexToRawDp_encode: "body \<noteq> [] \<Longrightarrow> hexToRawDp (hex_encode body) = Some (b64_encode body)"
  using hex_encode_clean [of body] by (simp add: hexToRawDp_def hex_roundtrip)

lemma parse_biz_payload:
  assumes "list_all (\<lambda>n. n < 2 ^ 53) (biz_counts f)" "body \<noteq> []"
    and "envelope_payload raw = Some (biz_payload f body)"
  shows "parseBizMapFrame raw = Some (f\<lparr>bfPayload := b64_encode body\<rparr>)"
proof -
  have "count_field (Some (JInt 41)) = Some 41" using count_int [of 41] by simp
  then show ?thesis
    using assms(1,2) by (simp add: parseBizMapFrame_def assms(3) biz_payload_def biz_data_def json_get_def
        plain_object_def BIZ_MAP_DATA_PROTOCOL_def biz_counts_def count_int hexToRawDp_encode)
qed

text \<open>
  A map frame is read whole however it is wrapped: with the payload as an object or as the JSON text
  of one, all six members present and the bytes in hex, \<open>parseBizMapFrame\<close> hands back the five numbers
  and, in base64, the very bytes.
\<close>

theorem biz_frame_roundtrip:
  assumes "list_all (\<lambda>n. n < 2 ^ 53) (biz_counts f)" "body \<noteq> []"
    and "bfPayload f = b64_encode body"
    and "payload = biz_payload f body \<or> payload = JStr (json_stringify (biz_payload f body))"
  shows "parseBizMapFrame (Some (JObj ((''head'', h) # [(''payload'', payload)]))) = Some f \<and>
    b64_decode (bfPayload f) = body"
proof -
  have "plain_json (biz_payload f body)"
    using assms(1) by (auto simp: biz_payload_def biz_data_def biz_counts_def)
  then have "json_parse (json_stringify (biz_payload f body)) = Some (biz_payload f body)"
    by (rule parse_stringify)
  moreover have "envelope_payload (Some (JObj ((''head'', h) # [(''payload'', payload)]))) =
      Some (biz_payload f body)"
    using assms(4) calculation
    by (auto simp: envelope_payload_def json_get_def jsonObject_def plain_object_def biz_payload_def Let_def)
  ultimately show ?thesis
    using parse_biz_payload [OF assms(1,2)] assms(3) by (simp add: b64_roundtrip)
qed

definition sample_biz_frame :: biz_frame where
  "sample_biz_frame = \<lparr>bfChannelId = 9, bfClearType = 0, bfDataType = 1, bfOffset = 0, bfLen = 3,
     bfPayload = b64_encode [2, 8, 1]\<rparr>"

theorem biz_frame_roundtrip_witness:
  "parseBizMapFrame (Some (JObj [(''head'', JNull),
      (''payload'', JStr (json_stringify (biz_payload sample_biz_frame [2, 8, 1])))])) = Some sample_biz_frame"
  using biz_frame_roundtrip [of sample_biz_frame "[2, 8, 1]" _ JNull]
  by (simp add: sample_biz_frame_def biz_counts_def)

text \<open>
  A repeat of the piece held, at its own revision, is reported as a change: only an older one is not.
\<close>

lemma repeat_reported_as_change:
  assumes "fst (apply_lone (RoomsPiece v) s)"
  shows "fst (apply_lone (RoomsPiece v) (snd (apply_lone (RoomsPiece v) s)))"
  using assms by (auto simp: put_def switch_map_def Let_def EMPTY_def split: option.splits if_splits)

section \<open>Instances\<close>

definition sample_outline :: room_outline where
  "sample_outline = \<lparr>plWidth = 2, plHeight = 1, plResolution = Some 5, plOrigin = \<lparr>ptX = 0, ptY = 0\<rparr>,
     roMapId = Some 4, roReleases = 1, roCells = [0, 29]\<rparr>"

definition sample_room :: vacuum_room where
  "sample_room = \<lparr>rmId = 7, rmName = None, rmScene = Kitchen, rmSceneIndex = 1, rmFloor = FloorTile,
     rmOrder = 0, rmSettings = \<lparr>rsCleanType = None, rsSuction = None, rsMopLevel = None,
     rsCleanExtent = None, rsCleanTimes = None\<rparr>\<rparr>"

definition sample_events :: "store_event list" where
  "sample_events = [Apply (Lone (OutlinePiece sample_outline)),
     Apply (Lone (RoomsPiece \<lparr>rpMapId = Some 4, rpReleases = 1, rpCustomEnabled = False,
       rpSmartMode = False, rpRooms = [sample_room]\<rparr>)),
     Apply (Lone (PosePiece \<lparr>ptX = 6, ptY = -1, poTheta = 0\<rparr>))]"

lemma sample_current_room: "currentRoom (run_store sample_events) = Some sample_room"
  by (simp add: run_store_def sample_events_def store_step_def apply_piece_def put_def switch_map_def
      new_store_def EMPTY_def currentRoom_def roomAtPoint_def roomIdAtPoint_def cellAtPoint_def
      resolution_of_def nonzero_def sample_outline_def js_round_div_def in_plane_def roomIdAt_def
      byte_at_def sample_room_def)

theorem current_room_of_one_map_witness:
  "\<exists>outline. snOutline (vsCurrent (run_store sample_events)) = Some outline \<and>
     (roMapId outline = None \<or> roMapId outline = snMapId (vsCurrent (run_store sample_events)))"
  using current_room_of_one_map [OF sample_current_room] by blast


theorem store_holds_one_map_witness:
  "held_stamp (vsCurrent (run_store sample_events)) KRooms = Some (Some 4, 1) \<and>
   snMapId (vsCurrent (run_store sample_events)) = Some 4 \<and>
   vsRevisions (run_store sample_events) KRooms = Some 1"
proof -
  have h: "held_stamp (vsCurrent (run_store sample_events)) KRooms = Some (Some 4, 1)"
    by (simp add: run_store_def sample_events_def store_step_def apply_piece_def put_def switch_map_def
        new_store_def EMPTY_def sample_outline_def)
  from store_holds_one_map [of sample_events] h show ?thesis by fastforce
qed

end
