(* ===== verification/Mcs_Parser.thy ===== *)
theory Mcs_Parser
  imports Raw_Dp Js_Text
begin

text \<open>
  The parser of Google's MCS stream, \<open>src/transport/push/parser.ts\<close>: a version byte, then messages of a
  tag, a varint length and a body, cut into chunks anywhere by the TLS socket.

  Two functions of protobufjs, which is not in the repository, are parameters: the varint reader
  (\<open>Reader.int32\<close> on a fresh reader) and the decoder of a message type. \<open>size_contract\<close> says what the
  parser relies on.
\<close>

section \<open>The environment\<close>

text \<open>
  A read of the size: the value and the position behind it; "index out of range" with the position the
  reader was left at; or another exception.
\<close>

datatype size_read = SizeOk int nat | SizeShort nat | SizeBad

record mcs_env =
  mcsReadSize :: "buffer \<Rightarrow> size_read"
  mcsDecode :: "string \<Rightarrow> buffer \<Rightarrow> js_error + json"

definition size_contract :: "(buffer \<Rightarrow> size_read) \<Rightarrow> bool" where
  "size_contract rd \<longleftrightarrow>
     (\<forall>n x. n < 2 ^ 31 \<longrightarrow> rd (varint_loop n @ x) = SizeOk (int n) (length (varint_loop n))) \<and>
     (\<forall>n k. n < 2 ^ 31 \<longrightarrow> k < length (varint_loop n) \<longrightarrow> rd (take k (varint_loop n)) = SizeShort k)"

section \<open>The parser\<close>

datatype mcs_state = VersionTagAndSize | TagAndSize | SizeOnly | ProtoBytes

definition TAG_TO_TYPE :: "(int \<times> string) list" where
  "TAG_TO_TYPE =
     [(0, ''mcs_proto.HeartbeatPing''), (1, ''mcs_proto.HeartbeatAck''), (2, ''mcs_proto.LoginRequest''),
      (3, ''mcs_proto.LoginResponse''), (4, ''mcs_proto.Close''), (7, ''mcs_proto.IqStanza''),
      (8, ''mcs_proto.DataMessageStanza''), (10, ''mcs_proto.StreamErrorStanza'')]"

type_synonym mcs_message = "int \<times> json"

record mcs_parser =
  mcData :: buffer
  mcState :: mcs_state
  mcTag :: int
  mcSize :: int
  mcSoFar :: nat

definition mcs_reset :: mcs_parser where
  "mcs_reset = \<lparr>mcData = [], mcState = VersionTagAndSize, mcTag = 0, mcSize = 0, mcSoFar = 0\<rparr>"

definition minBytesNeeded :: "mcs_parser \<Rightarrow> int" where
  "minBytesNeeded s =
     (case mcState s of
        VersionTagAndSize \<Rightarrow> 3
      | TagAndSize \<Rightarrow> 2
      | SizeOnly \<Rightarrow> int (mcSoFar s) + 1
      | ProtoBytes \<Rightarrow> mcSize s)"

text \<open>
  What a handler does last: call \<open>waitForData\<close> again, return, or let an exception out. The message is
  what it emitted before.
\<close>

datatype mcs_next = Again "mcs_message list" mcs_parser | Halt mcs_parser | Threw js_error mcs_parser

text \<open>\<open>readInt8(0)\<close>, and the two subarrays at a length that may be negative.\<close>

definition int8_at0 :: "buffer \<Rightarrow> int" where
  "int8_at0 b = as_signed 8 (unat (b ! 0))"

definition cut_point :: "int \<Rightarrow> buffer \<Rightarrow> nat" where
  "cut_point n b = (if 0 \<le> n then nat n else nat (int (length b) + n))"

definition onBytes :: "mcs_env \<Rightarrow> mcs_parser \<Rightarrow> mcs_next" where
  "onBytes env s =
     (if mcSize s = 0 then Again [(mcTag s, JObj [])] (s\<lparr>mcState := TagAndSize\<rparr>)
      else if int (length (mcData s)) < mcSize s then Halt (s\<lparr>mcState := ProtoBytes\<rparr>)
      else
        (let k = cut_point (mcSize s) (mcData s);
             buf = take k (mcData s);
             s1 = s\<lparr>mcData := drop k (mcData s)\<rparr>
         in case map_of TAG_TO_TYPE (mcTag s) of
              None \<Rightarrow> Again [(mcTag s, JObj [])] (s1\<lparr>mcState := TagAndSize\<rparr>)
            | Some ty \<Rightarrow>
                (case mcsDecode env ty buf of
                   Inl e \<Rightarrow> Threw e s1
                 | Inr obj \<Rightarrow> Again [(mcTag s, obj)] (s1\<lparr>mcState := TagAndSize\<rparr>))))"

definition onSize :: "mcs_env \<Rightarrow> mcs_parser \<Rightarrow> mcs_next" where
  "onSize env s =
     (case mcsReadSize env (mcData s) of
        SizeBad \<Rightarrow> Threw (UserError ''reader'') s
      | SizeShort pos \<Rightarrow> Again [] (s\<lparr>mcSoFar := pos, mcState := SizeOnly\<rparr>)
      | SizeOk n pos \<Rightarrow>
          (let s1 = s\<lparr>mcSize := n, mcData := drop pos (mcData s), mcSoFar := 0\<rparr>
           in if n > 0 then Again [] (s1\<lparr>mcState := ProtoBytes\<rparr>) else onBytes env s1))"

definition onTag :: "mcs_env \<Rightarrow> mcs_parser \<Rightarrow> mcs_next" where
  "onTag env s = onSize env (s\<lparr>mcTag := int8_at0 (mcData s), mcData := drop 1 (mcData s)\<rparr>)"

definition onVersion :: "mcs_env \<Rightarrow> mcs_parser \<Rightarrow> mcs_next" where
  "onVersion env s =
     (let s1 = s\<lparr>mcData := drop 1 (mcData s)\<rparr>
      in if int8_at0 (mcData s) < 38 then Threw (UserError ''wrong protocol version'') s1
         else onTag env s1)"

definition dispatch :: "mcs_env \<Rightarrow> mcs_parser \<Rightarrow> mcs_next" where
  "dispatch env s =
     (case mcState s of
        VersionTagAndSize \<Rightarrow> onVersion env s
      | TagAndSize \<Rightarrow> onTag env s
      | SizeOnly \<Rightarrow> onSize env s
      | ProtoBytes \<Rightarrow> onBytes env s)"

text \<open>
  \<open>waitForData\<close> and the handlers call each other until the data runs out. The fuel is enough for a
  reader that meets its contract (\<open>mcs_delivers\<close>); \<open>None\<close> is running out of it.
\<close>

type_synonym mcs_result = "mcs_message list \<times> js_error option \<times> mcs_parser"

fun waitForData :: "mcs_env \<Rightarrow> nat \<Rightarrow> mcs_parser \<Rightarrow> mcs_result option" where
  "waitForData env 0 s = None"
| "waitForData env (Suc fuel) s =
     (if int (length (mcData s)) < minBytesNeeded s then Some ([], None, s)
      else
        (case dispatch env s of
           Halt s' \<Rightarrow> Some ([], None, s')
         | Threw e s' \<Rightarrow> Some ([], Some e, s')
         | Again ms s' \<Rightarrow> map_option (\<lambda>(ms', e, s''). (ms @ ms', e, s'')) (waitForData env fuel s')))"

definition handleData :: "mcs_env \<Rightarrow> mcs_parser \<Rightarrow> buffer \<Rightarrow> mcs_result option" where
  "handleData env s chunk =
     (let s1 = s\<lparr>mcData := mcData s @ chunk\<rparr> in waitForData env (2 * length (mcData s1) + 3) s1)"

text \<open>The chunks of a connection, up to an exception that leaves the socket's listener.\<close>

fun handle_chunks :: "mcs_env \<Rightarrow> mcs_parser \<Rightarrow> buffer list \<Rightarrow> mcs_result option" where
  "handle_chunks env s [] = Some ([], None, s)"
| "handle_chunks env s (c # cs) =
     (case handleData env s c of
        None \<Rightarrow> None
      | Some (ms, Some e, s') \<Rightarrow> Some (ms, Some e, s')
      | Some (ms, None, s') \<Rightarrow>
          map_option (\<lambda>(ms', e, s''). (ms @ ms', e, s'')) (handle_chunks env s' cs))"

section \<open>A stream as a server writes it\<close>

text \<open>A message on the wire: its tag and its body; and what a listener should be given for it.\<close>

type_synonym wire_message = "byte \<times> buffer"

definition message_bytes :: "wire_message \<Rightarrow> buffer" where
  "message_bytes m = fst m # varint_loop (length (snd m)) @ snd m"

definition stream_bytes :: "wire_message list \<Rightarrow> buffer" where
  "stream_bytes ms = concat (map message_bytes ms)"

definition tag_of :: "wire_message \<Rightarrow> int" where
  "tag_of m = as_signed 8 (unat (fst m))"

definition decodes_to :: "mcs_env \<Rightarrow> wire_message \<Rightarrow> json \<Rightarrow> bool" where
  "decodes_to env m obj \<longleftrightarrow>
     (if snd m = [] then obj = JObj []
      else (case map_of TAG_TO_TYPE (tag_of m) of
              None \<Rightarrow> obj = JObj []
            | Some ty \<Rightarrow> mcsDecode env ty (snd m) = Inr obj))"

definition mcs_wire_ok :: "mcs_env \<Rightarrow> (wire_message \<times> json) list \<Rightarrow> bool" where
  "mcs_wire_ok env ms \<longleftrightarrow> (\<forall>(m, obj) \<in> set ms. length (snd m) < 2 ^ 31 \<and> decodes_to env m obj)"

definition delivered :: "(wire_message \<times> json) list \<Rightarrow> mcs_message list" where
  "delivered ms = map (\<lambda>(m, obj). (tag_of m, obj)) ms"

text \<open>
  Where the parser stands: the data it holds and the bytes still to come are the rest of the stream, in
  the form its state expects; \<open>ms\<close> are the messages not yet emitted.
\<close>

definition stands :: "mcs_parser \<Rightarrow> buffer \<Rightarrow> (wire_message \<times> json) list \<Rightarrow> bool" where
  "stands s rest ms \<longleftrightarrow>
     (case mcState s of
        VersionTagAndSize \<Rightarrow> \<exists>v. mcData s @ rest = v # stream_bytes (map fst ms) \<and> 38 \<le> as_signed 8 (unat v)
      | TagAndSize \<Rightarrow> mcData s @ rest = stream_bytes (map fst ms)
      | SizeOnly \<Rightarrow> \<exists>m obj ms'. ms = (m, obj) # ms' \<and> mcTag s = tag_of m \<and>
          mcData s @ rest = varint_loop (length (snd m)) @ snd m @ stream_bytes (map fst ms') \<and>
          mcSoFar s \<le> length (mcData s) \<and> mcSoFar s < length (varint_loop (length (snd m)))
      | ProtoBytes \<Rightarrow> \<exists>m obj ms'. ms = (m, obj) # ms' \<and> mcTag s = tag_of m \<and> snd m \<noteq> [] \<and>
          mcSize s = int (length (snd m)) \<and> mcData s @ rest = snd m @ stream_bytes (map fst ms'))"


section \<open>One message after the other\<close>

lemma stream_bytes_simps [simp]:
  "stream_bytes [] = []"
  "stream_bytes (m # ms) = fst m # varint_loop (length (snd m)) @ snd m @ stream_bytes ms"
  by (simp_all add: stream_bytes_def message_bytes_def)

lemma mcs_wire_ok_Cons:
  "mcs_wire_ok env ((m, obj) # ms) \<longleftrightarrow> length (snd m) < 2 ^ 31 \<and> decodes_to env m obj \<and> mcs_wire_ok env ms"
  by (auto simp: mcs_wire_ok_def)

text \<open>A step of the dispatcher that keeps its place in the stream, and moves or waits.\<close>

definition good_step :: "mcs_next \<Rightarrow> buffer \<Rightarrow> (wire_message \<times> json) list \<Rightarrow> nat \<Rightarrow> bool" where
  "good_step r rest ms n \<longleftrightarrow>
     (\<exists>out s' ms'. r = Again (delivered out) s' \<and> ms = out @ ms' \<and> stands s' rest ms' \<and>
        (length (mcData s') < n \<or> int (length (mcData s')) < minBytesNeeded s'))"

lemma good_stepI:
  "r = Again (delivered out) s' \<Longrightarrow> ms = out @ ms' \<Longrightarrow> stands s' rest ms' \<Longrightarrow>
   length (mcData s') < n \<or> int (length (mcData s')) < minBytesNeeded s' \<Longrightarrow> good_step r rest ms n"
  unfolding good_step_def by blast

lemma append_split:
  assumes "a @ rest = b @ c" "length b \<le> length a"
  obtains y where "a = b @ y" "y @ rest = c"
proof -
  have "take (length b) (a @ rest) = b" using assms(1) by simp
  then have "a = b @ drop (length b) a" using assms(2) by (metis append_take_drop_id take_append diff_is_0_eq take_0 append_Nil2)
  moreover from this assms(1) have "drop (length b) a @ rest = c" by (metis append_assoc same_append_eq)
  ultimately show thesis by (rule that)
qed

lemma onBytes_empty:
  assumes "mcSize s = 0" "mcTag s = tag_of m" "snd m = []" "decodes_to env m obj"
    and "mcData s @ rest = stream_bytes (map fst ms')" "length (mcData s) < n"
  shows "good_step (onBytes env s) rest ((m, obj) # ms') n"
  by (rule good_stepI [where out = "[(m, obj)]" and s' = "s\<lparr>mcState := TagAndSize\<rparr>"])
    (use assms in \<open>simp_all add: onBytes_def delivered_def stands_def decodes_to_def\<close>)

lemma onBytes_body:
  assumes sz: "mcSize s = int (length (snd m))" and tag: "mcTag s = tag_of m" and ne: "snd m \<noteq> []"
    and d: "decodes_to env m obj" and data: "mcData s @ rest = snd m @ stream_bytes (map fst ms')"
    and le: "length (snd m) \<le> length (mcData s)"
  shows "good_step (onBytes env s) rest ((m, obj) # ms') (length (mcData s))"
proof -
  from data le obtain y where y: "mcData s = snd m @ y" "y @ rest = stream_bytes (map fst ms')"
    by (rule append_split)
  have c: "cut_point (mcSize s) (mcData s) = length (snd m)" by (simp add: cut_point_def sz)
  have "onBytes env s = Again [(tag_of m, obj)] (s\<lparr>mcData := y, mcState := TagAndSize\<rparr>)"
    using d ne sz tag y(1) unfolding onBytes_def c Let_def
    by (auto simp: decodes_to_def split: option.splits)
  then show ?thesis
    by (rule good_stepI [where out = "[(m, obj)]", unfolded delivered_def, simplified])
      (use y ne in \<open>simp_all add: stands_def\<close>)
qed

lemma onSize_step:
  assumes rd: "size_contract (mcsReadSize env)" and ok: "mcs_wire_ok env ((m, obj) # ms')"
    and tag: "mcTag s = tag_of m"
    and data: "mcData s @ rest = varint_loop (length (snd m)) @ snd m @ stream_bytes (map fst ms')"
    and n: "length (mcData s) \<le> n"
  shows "good_step (onSize env s) rest ((m, obj) # ms') n"
proof (cases "length (varint_loop (length (snd m))) \<le> length (mcData s)")
  case True
  with data obtain y where y: "mcData s = varint_loop (length (snd m)) @ y"
    "y @ rest = snd m @ stream_bytes (map fst ms')"
    by (rule append_split)
  have "length (mcData s) = length (varint_loop (length (snd m))) + length y" by (simp add: y(1))
  moreover have "0 < length (varint_loop (length (snd m)))" by simp
  ultimately have len: "length y < n" using n by linarith
  have r: "mcsReadSize env (mcData s) = SizeOk (int (length (snd m))) (length (varint_loop (length (snd m))))"
    using rd ok y(1) by (simp add: size_contract_def mcs_wire_ok_Cons)
  have dr: "drop (length (varint_loop (length (snd m)))) (mcData s) = y" by (simp add: y(1))
  show ?thesis
  proof (cases "snd m = []")
    case True
    have "good_step (onBytes env (s\<lparr>mcSize := 0, mcData := y, mcSoFar := 0\<rparr>)) rest ((m, obj) # ms') n"
      using True y ok tag n len by (intro onBytes_empty) (simp_all add: mcs_wire_ok_Cons)
    then show ?thesis unfolding onSize_def r size_read.case Let_def dr using True by simp
  next
    case False
    let ?s = "s\<lparr>mcSize := int (length (snd m)), mcData := y, mcSoFar := 0, mcState := ProtoBytes\<rparr>"
    have "onSize env s = Again (delivered []) ?s"
      unfolding onSize_def r size_read.case Let_def dr using False by (simp add: delivered_def)
    then show ?thesis
      by (rule good_stepI [where ms' = "(m, obj) # ms'"])
        (use False y n len tag in \<open>simp_all add: stands_def\<close>)
  qed
next
  case False
  then have k: "mcData s = take (length (mcData s)) (varint_loop (length (snd m)))"
    using data by (metis append_eq_append_conv_if linorder_linear take_all)
  then have r: "mcsReadSize env (mcData s) = SizeShort (length (mcData s))"
    using rd ok False by (metis linorder_not_le size_contract_def mcs_wire_ok_Cons)
  let ?s = "s\<lparr>mcSoFar := length (mcData s), mcState := SizeOnly\<rparr>"
  have "onSize env s = Again (delivered []) ?s" by (simp add: onSize_def r delivered_def)
  then show ?thesis
    by (rule good_stepI [where ms' = "(m, obj) # ms'"])
      (use False data tag in \<open>simp_all add: stands_def minBytesNeeded_def\<close>)
qed

lemma onTag_step:
  assumes "size_contract (mcsReadSize env)" "mcs_wire_ok env ms" "2 \<le> length (mcData s)"
    and "mcData s @ rest = stream_bytes (map fst ms)" "length (mcData s) \<le> n"
  shows "good_step (onTag env s) rest ms n"
proof -
  from assms(3) obtain t y where s: "mcData s = t # y" by (cases "mcData s") auto
  then obtain m obj ms' where ms: "ms = (m, obj) # ms'" "t = fst m"
    "y @ rest = varint_loop (length (snd m)) @ snd m @ stream_bytes (map fst ms')"
    using assms(4) by (cases ms) auto
  show ?thesis
    unfolding onTag_def ms(1)
    by (rule onSize_step [OF assms(1)]) (use assms s ms in \<open>simp_all add: int8_at0_def tag_of_def\<close>)
qed

lemma dispatch_step:
  assumes "size_contract (mcsReadSize env)" "mcs_wire_ok env ms" "stands s rest ms"
    and "minBytesNeeded s \<le> int (length (mcData s))"
  shows "good_step (dispatch env s) rest ms (length (mcData s))"
proof (cases "mcState s")
  case VersionTagAndSize
  with assms(3,4) obtain v y where y: "mcData s = v # y" "y @ rest = stream_bytes (map fst ms)"
    "38 \<le> as_signed 8 (unat v)" "2 \<le> length y"
    by (cases "mcData s") (auto simp: stands_def minBytesNeeded_def)
  have "good_step (onTag env (s\<lparr>mcData := y\<rparr>)) rest ms (length (mcData s))"
    using y by (intro onTag_step [OF assms(1,2)]) simp_all
  with y show ?thesis by (simp add: dispatch_def VersionTagAndSize onVersion_def int8_at0_def)
next
  case TagAndSize
  with assms show ?thesis
    by (auto simp: dispatch_def stands_def minBytesNeeded_def intro!: onTag_step)
next
  case SizeOnly
  with assms(3) obtain m obj ms' where "ms = (m, obj) # ms'" "mcTag s = tag_of m"
    "mcData s @ rest = varint_loop (length (snd m)) @ snd m @ stream_bytes (map fst ms')"
    by (auto simp: stands_def)
  with assms(1,2) show ?thesis by (auto simp: dispatch_def SizeOnly intro!: onSize_step)
next
  case ProtoBytes
  with assms(3) obtain m obj ms' where "ms = (m, obj) # ms'" "mcTag s = tag_of m" "snd m \<noteq> []"
    "mcSize s = int (length (snd m))" "mcData s @ rest = snd m @ stream_bytes (map fst ms')"
    by (auto simp: stands_def)
  with assms(2,4) show ?thesis
    by (auto simp: dispatch_def ProtoBytes minBytesNeeded_def mcs_wire_ok_Cons intro!: onBytes_body)
qed

lemma mcs_wire_ok_append: "mcs_wire_ok env (out @ ms) \<longleftrightarrow> mcs_wire_ok env out \<and> mcs_wire_ok env ms"
  by (auto simp: mcs_wire_ok_def)

lemma waitForData_delivers:
  assumes "size_contract (mcsReadSize env)" "mcs_wire_ok env ms" "stands s rest ms"
    and "length (mcData s) + 2 \<le> fuel \<or> (0 < fuel \<and> int (length (mcData s)) < minBytesNeeded s)"
  shows "\<exists>out s' ms'. waitForData env fuel s = Some (delivered out, None, s') \<and> ms = out @ ms' \<and>
    stands s' rest ms' \<and> int (length (mcData s')) < minBytesNeeded s'"
  using assms(2-4)
proof (induction fuel arbitrary: s ms)
  case (Suc fuel)
  show ?case
  proof (cases "int (length (mcData s)) < minBytesNeeded s")
    case True
    with Suc.prems show ?thesis by (intro exI [of _ "[]"]) (simp add: delivered_def)
  next
    case False
    then have "good_step (dispatch env s) rest ms (length (mcData s))"
      by (intro dispatch_step assms Suc.prems) simp_all
    then obtain out s1 ms1 where o: "dispatch env s = Again (delivered out) s1" "ms = out @ ms1"
      "stands s1 rest ms1" "length (mcData s1) < length (mcData s) \<or> int (length (mcData s1)) < minBytesNeeded s1"
      unfolding good_step_def by blast
    have "length (mcData s1) + 2 \<le> fuel \<or> (0 < fuel \<and> int (length (mcData s1)) < minBytesNeeded s1)"
      using o(4) False Suc.prems(3) by linarith
    moreover have "mcs_wire_ok env ms1" using Suc.prems(1) by (simp add: o(2) mcs_wire_ok_append)
    ultimately obtain out' s' ms' where "waitForData env fuel s1 = Some (delivered out', None, s')"
      "ms1 = out' @ ms'" "stands s' rest ms'" "int (length (mcData s')) < minBytesNeeded s'"
      using Suc.IH [OF _ o(3)] by blast
    with False o(1,2) show ?thesis
      by (intro exI [of _ "out @ out'"] exI [of _ s'] exI [of _ ms']) (simp add: delivered_def)
  qed
qed simp

lemma stands_chunk: "stands s (c @ rest) ms \<Longrightarrow> stands (s\<lparr>mcData := mcData s @ c\<rparr>) rest ms"
  by (auto simp: stands_def split: mcs_state.splits)

lemma handleData_delivers:
  assumes "size_contract (mcsReadSize env)" "mcs_wire_ok env ms" "stands s (c @ rest) ms"
  shows "\<exists>out s' ms'. handleData env s c = Some (delivered out, None, s') \<and> ms = out @ ms' \<and>
    stands s' rest ms' \<and> int (length (mcData s')) < minBytesNeeded s'"
  unfolding handleData_def Let_def
  by (rule waitForData_delivers [OF assms(1,2) stands_chunk [OF assms(3)]]) simp

lemma handle_chunks_delivers:
  assumes "size_contract (mcsReadSize env)" "mcs_wire_ok env ms" "stands s (concat cs @ rest) ms"
    and "int (length (mcData s)) < minBytesNeeded s"
  shows "\<exists>out s' ms'. handle_chunks env s cs = Some (delivered out, None, s') \<and> ms = out @ ms' \<and>
    stands s' rest ms' \<and> int (length (mcData s')) < minBytesNeeded s'"
  using assms(2-)
proof (induction cs arbitrary: s ms)
  case Nil
  then show ?case by (intro exI [of _ "[]"]) (simp add: delivered_def)
next
  case (Cons c cs)
  from handleData_delivers [OF assms(1) Cons.prems(1), of s c "concat cs @ rest"] Cons.prems(2)
  obtain out s1 ms1 where o: "handleData env s c = Some (delivered out, None, s1)" "ms = out @ ms1"
    "stands s1 (concat cs @ rest) ms1" "int (length (mcData s1)) < minBytesNeeded s1" by auto
  moreover have "mcs_wire_ok env ms1" using Cons.prems(1) by (simp add: o(2) mcs_wire_ok_append)
  ultimately obtain out' s' ms' where "handle_chunks env s1 cs = Some (delivered out', None, s')"
    "ms1 = out' @ ms'" "stands s' rest ms'" "int (length (mcData s')) < minBytesNeeded s'"
    using Cons.IH by blast
  with o(1,2) show ?case
    by (intro exI [of _ "out @ out'"] exI [of _ s'] exI [of _ ms']) (simp add: delivered_def)
qed

text \<open>Nothing is left in a parser that waits at the end of the stream.\<close>

lemma short_stream: "length (stream_bytes ms) < 2 \<Longrightarrow> ms = []"
  using varint_loop_nonempty by (cases ms) auto

lemma stands_end:
  assumes "stands s [] ms" "int (length (mcData s)) < minBytesNeeded s"
  shows "ms = []"
  using assms by (auto simp: stands_def minBytesNeeded_def short_stream split: mcs_state.splits
      dest!: short_stream)

text \<open>
  C31. The parser delivers a stream exactly: after any cut of the bytes of a connection into chunks, empty
  ones included, the messages emitted are those the server wrote, in their order, with their tags
  and decoded bodies; after a part of the stream they are the first ones of it; and no call throws or
  runs forever.
\<close>

theorem mcs_delivers:
  assumes "size_contract (mcsReadSize env)" "mcs_wire_ok env ms" "38 \<le> as_signed 8 (unat v)"
    and "concat chunks @ rest = v # stream_bytes (map fst ms)"
  shows "\<exists>out ms' s'. handle_chunks env mcs_reset chunks = Some (delivered out, None, s') \<and>
    ms = out @ ms' \<and> (rest = [] \<longrightarrow> ms' = [])"
proof -
  have "stands mcs_reset (concat chunks @ rest) ms"
    using assms(3,4) by (simp add: stands_def mcs_reset_def)
  moreover have "int (length (mcData mcs_reset)) < minBytesNeeded mcs_reset"
    by (simp add: mcs_reset_def minBytesNeeded_def)
  ultimately obtain out s' ms' where "handle_chunks env mcs_reset chunks = Some (delivered out, None, s')"
    "ms = out @ ms'" "stands s' rest ms'" "int (length (mcData s')) < minBytesNeeded s'"
    using handle_chunks_delivers [OF assms(1,2)] by blast
  with stands_end show ?thesis by blast
qed


section \<open>An environment that meets the contract\<close>

definition sample_size :: "buffer \<Rightarrow> size_read" where
  "sample_size b =
     (case take_varint b of
        None \<Rightarrow> SizeShort (length b)
      | Some g \<Rightarrow> SizeOk (int (varint_value g)) (length g))"

definition sample_mcs :: mcs_env where
  "sample_mcs = \<lparr>mcsReadSize = sample_size,
     mcsDecode = (\<lambda>ty b. if b = [0] then Inl (UserError ''decode'') else Inr (JStr (string_of_bytes b)))\<rparr>"

lemma take_varint_prefix:
  "varint_shape g \<Longrightarrow> k < length g \<Longrightarrow> take_varint (take k g) = None"
proof (induction g arbitrary: k)
  case (Cons b g)
  then show ?case
  proof (cases k)
    case (Suc j)
    with Cons.prems have "varint_shape g" "\<not> unat b < 128" "j < length g"
      by (cases g; auto simp: varint_shape_def)+
    with Suc Cons.IH show ?thesis by simp
  qed simp
qed simp

lemma sample_size_contract: "size_contract (mcsReadSize sample_mcs)"
  using varint_loop_spec
  by (auto simp: size_contract_def sample_mcs_def sample_size_def take_varint_shape take_varint_prefix)

text \<open>A heartbeat without a body and a login answer of three bytes, cut inside the second's length.\<close>

theorem mcs_delivers_witness:
  "\<exists>s. handle_chunks sample_mcs mcs_reset [[41, 0], [0, 3], [3, 72, 105], [33]] =
     Some ([(0, JObj []), (3, JStr ''Hi!'')], None, s)"
proof -
  let ?ms = "[((0, []), JObj []), ((3, [72, 105, 33]), JStr ''Hi!'')]"
  have "string_of_bytes [72, 105, 33] = ''Hi!''" by code_simp
  then have ok: "mcs_wire_ok sample_mcs ?ms"
    by (simp add: mcs_wire_ok_def decodes_to_def tag_of_def as_signed_def TAG_TO_TYPE_def sample_mcs_def)
  have v: "varint_loop 0 = [0]" "varint_loop (Suc (Suc (Suc 0))) = [3]" by (subst varint_loop.simps, simp)+
  have bytes: "concat [[41, 0], [0, 3], [3, 72, 105], [33]] @ [] = (41 :: byte) # stream_bytes (map fst ?ms)"
    by (simp add: v)
  have ver: "38 \<le> as_signed 8 (unat (41 :: byte))" by (simp add: as_signed_def)
  from mcs_delivers [OF sample_size_contract ok ver bytes] show ?thesis
    by (auto simp: delivered_def tag_of_def as_signed_def)
qed

text \<open>
  A body that does not decode leaves the parser in the middle: the bytes are gone but the state still
  asks for that many, so what follows, here a heartbeat of two bytes, is taken for the body.
\<close>

lemma failed_decode_desynchronises:
  "case handleData sample_mcs mcs_reset [41, 3, 1, 0] of
     Some (ms, Some e, s) \<Rightarrow> ms = [] \<and> mcState s = ProtoBytes \<and> mcSize s = 1 \<and> mcData s = [] \<and>
       (case handleData sample_mcs s [0, 0] of Some (ms', Some e', s') \<Rightarrow> ms' = [] | _ \<Rightarrow> False)
   | _ \<Rightarrow> False"
  by code_simp

text \<open>
  A length past 31 bits comes out of \<open>int32\<close> negative: the body handed to the decoder is then all but the
  last bytes of whatever has arrived.
\<close>

lemma negative_size_takes_what_is_there:
  assumes "mcSize s = - 1" "mcData s = b @ [x]"
  shows "cut_point (mcSize s) (mcData s) = length b"
  using assms by (simp add: cut_point_def)

end
