(* ===== verification/Push_Client.thy ===== *)
theory Push_Client
  imports Mcs_Parser
begin

text \<open>
  The push client of \<open>src/transport/push/push-client.ts\<close> over the MCS parser: connecting, logging in,
  heartbeats, login failures, reconnecting with a growing delay, and the normalisation of a push.

  A TLS socket is a number; the events a socket, a timer or the caller raises are the steps, and what
  goes out to sockets and listeners is logged in \<open>pcOut\<close>. Listeners of the client do not call it back.
  The handlers are attached to every socket and do not look at which one an event comes from.
\<close>

section \<open>Reading a push\<close>

text \<open>\<open>a ?? b\<close> of properties, truthiness, and a string with more than white space in it.\<close>

definition or_nullish :: "json option \<Rightarrow> json option \<Rightarrow> json option" where
  "or_nullish a b = (if a = None \<or> a = Some JNull then b else a)"

definition truthy :: "json option \<Rightarrow> bool" where
  "truthy v =
     (case v of
        None \<Rightarrow> False
      | Some JNull \<Rightarrow> False
      | Some (JBool b) \<Rightarrow> b
      | Some (JStr s) \<Rightarrow> s \<noteq> []
      | Some (JInt n) \<Rightarrow> n \<noteq> 0
      | Some (JFloat s) \<Rightarrow> json_num (JFloat s) \<noteq> NumInt 0
      | Some _ \<Rightarrow> True)"

definition nonemptyString :: "json option \<Rightarrow> string option" where
  "nonemptyString v = (case v of Some (JStr s) \<Rightarrow> if trim_space s \<noteq> [] then Some s else None | _ \<Rightarrow> None)"

definition readNullTerminated :: "buffer \<Rightarrow> string" where
  "readNullTerminated b = utf8_text (takeWhile (\<lambda>x. x \<noteq> 0) b)"

record raw_push =
  rwId :: "json option"
  rwFrom :: "json option"
  rwTo :: "json option"
  rwCategory :: "json option"
  rwPersistentId :: "json option"
  rwTtl :: "json option"
  rwSent :: "json option"
  rwPayload :: "json option"

datatype attribution = AttrDevice string | AttrStation "string option" | AttrAmbiguous

record push_event =
  evDeviceSn :: "json option"
  evStationSn :: "json option"
  evEventType :: "json option"
  evThumbnailUrl :: "json option"
  evCandidate :: "(string \<times> attribution) option"
  evCipher :: "json option"
  evPayload :: json
  evRaw :: raw_push

definition push_inner :: "json \<Rightarrow> json" where
  "push_inner env =
     (let inner = or_nullish (json_get ''payload'' env) (Some env);
          parsed = (case inner of Some (JStr s) \<Rightarrow> json_parse s | _ \<Rightarrow> inner)
      in case parsed of Some (JObj kvs) \<Rightarrow> JObj kvs | Some (JArr js) \<Rightarrow> JArr js | _ \<Rightarrow> JObj [])"

definition thumbnail_attribution :: "json \<Rightarrow> json \<Rightarrow> attribution" where
  "thumbnail_attribution p env =
     (let deviceClaims = List.map_filter nonemptyString [json_get ''device_sn'' p, json_get ''device_sn'' env];
          stationClaims = List.map_filter nonemptyString
            [json_get ''station_sn'' p, json_get ''station_sn'' env, json_get ''s'' p]
      in if deviceClaims \<noteq> [] \<and> list_all (\<lambda>c. c = hd deviceClaims) deviceClaims
         then AttrDevice (hd deviceClaims)
         else if deviceClaims = [] \<and> stationClaims \<noteq> []
         then AttrStation (if list_all (\<lambda>c. c = hd stationClaims) stationClaims
                           then Some (hd stationClaims) else None)
         else AttrAmbiguous)"

definition normalizePushEvent :: "raw_push \<Rightarrow> push_event" where
  "normalizePushEvent raw =
     (let env = (case rwPayload raw of Some v \<Rightarrow> if v = JNull then JObj [] else v | None \<Rightarrow> JObj []);
          p = push_inner env;
          url = (case nonemptyString (json_get ''pic_url'' p) of
                   Some u \<Rightarrow> Some u | None \<Rightarrow> nonemptyString (json_get ''thumbnail'' p))
      in \<lparr>evDeviceSn = or_nullish (or_nullish (json_get ''device_sn'' p) (json_get ''device_sn'' env))
            (json_get ''s'' p),
          evStationSn = or_nullish (json_get ''station_sn'' p) (json_get ''station_sn'' env),
          evEventType = or_nullish (json_get ''event_type'' p) (json_get ''a'' p),
          evThumbnailUrl = or_nullish (json_get ''pic_url'' p) (json_get ''thumbnail'' p),
          evCandidate = map_option (\<lambda>u. (u, thumbnail_attribution p env)) url,
          evCipher = or_nullish (json_get ''cipher'' p) (json_get ''k'' p),
          evPayload = p, evRaw = raw\<rparr>)"

section \<open>The client\<close>

definition MAX_LOGIN_FAILURES :: nat where "MAX_LOGIN_FAILURES = 3"
definition TAG_LOGIN_RESPONSE :: int where "TAG_LOGIN_RESPONSE = 3"
definition TAG_CLOSE :: int where "TAG_CLOSE = 4"
definition TAG_HEARTBEAT_PING :: int where "TAG_HEARTBEAT_PING = 0"
definition TAG_DATA_MESSAGE :: int where "TAG_DATA_MESSAGE = 8"

datatype push_out = OpenSocket nat | WriteLogin nat "string list" | WriteHeartbeatPing nat
  | WriteHeartbeatAck nat "json option" | DestroySocket nat | EmitConnect | EmitDisconnect
  | EmitLoginError json nat | EmitSocketError | EmitMessage raw_push | EmitPush push_event | Uncaught

text \<open>
  \<open>pcSockets\<close> is the environment's side: the sockets whose close event is still to come, and whether
  they have been destroyed. \<open>pcReconnect\<close> is the delay of the pending reconnect timer.
\<close>

record push_client =
  pcSocket :: "nat option"
  pcParser :: mcs_parser
  pcHeartbeat :: bool
  pcReconnect :: "nat option"
  pcDelay :: nat
  pcPersistentIds :: "string list"
  pcLoggedIn :: bool
  pcClosing :: bool
  pcLoginFailures :: nat
  pcSockets :: "(nat \<times> bool) list"
  pcNext :: nat
  pcOut :: "push_out list"

definition new_client :: "string list \<Rightarrow> push_client" where
  "new_client ids = \<lparr>pcSocket = None, pcParser = mcs_reset, pcHeartbeat = False, pcReconnect = None,
     pcDelay = 0, pcPersistentIds = ids, pcLoggedIn = False, pcClosing = False, pcLoginFailures = 0,
     pcSockets = [], pcNext = 0, pcOut = []\<rparr>"

definition push_emit :: "push_out \<Rightarrow> push_client \<Rightarrow> push_client" where
  "push_emit x s = s\<lparr>pcOut := pcOut s @ [x]\<rparr>"

definition destroy_socket :: "push_client \<Rightarrow> push_client" where
  "destroy_socket s =
     (case pcSocket s of
        None \<Rightarrow> s
      | Some n \<Rightarrow> push_emit (DestroySocket n)
          (s\<lparr>pcSockets := map (\<lambda>(m, d). (m, d \<or> m = n)) (pcSockets s)\<rparr>))"

definition push_connect :: "push_client \<Rightarrow> push_client" where
  "push_connect s =
     push_emit (OpenSocket (pcNext s))
       (s\<lparr>pcClosing := False, pcParser := mcs_reset, pcLoggedIn := False, pcSocket := Some (pcNext s),
          pcSockets := (pcNext s, False) # pcSockets s, pcNext := Suc (pcNext s)\<rparr>)"

definition onLoginError :: "json \<Rightarrow> push_client \<Rightarrow> push_client" where
  "onLoginError err s =
     (let s1 = s\<lparr>pcLoginFailures := Suc (pcLoginFailures s)\<rparr>;
          s2 = (if pcLoginFailures s1 \<ge> MAX_LOGIN_FAILURES
                then push_emit (EmitLoginError err (pcLoginFailures s1)) s1 else s1)
      in destroy_socket s2)"

text \<open>One entry of \<open>appData\<close>; both members are required strings of the message type.\<close>

definition app_datum :: "json \<Rightarrow> (string \<times> json) option" where
  "app_datum kv =
     (case (json_get ''key'' kv, json_get ''value'' kv) of
        (Some (JStr k), Some (JStr v)) \<Rightarrow>
          if k = ''payload'' then
            (let text = readNullTerminated (b64_decode v)
             in Some (''payload'', case json_parse text of Some j \<Rightarrow> j | None \<Rightarrow> JStr text))
          else Some (k, JStr v)
      | _ \<Rightarrow> None)"

definition handleDataMessage :: "json \<Rightarrow> push_client \<Rightarrow> push_client" where
  "handleDataMessage obj s =
     (let s1 = (case json_get ''persistentId'' obj of
                  Some (JStr i) \<Rightarrow> if i \<noteq> [] then s\<lparr>pcPersistentIds := pcPersistentIds s @ [i]\<rparr> else s
                | _ \<Rightarrow> s);
          data = JObj (List.map_filter app_datum
                   (case json_get ''appData'' obj of Some (JArr kvs) \<Rightarrow> kvs | _ \<Rightarrow> []));
          raw = \<lparr>rwId = json_get ''id'' obj, rwFrom = json_get ''from'' obj, rwTo = json_get ''to'' obj,
                 rwCategory = json_get ''category'' obj, rwPersistentId = json_get ''persistentId'' obj,
                 rwTtl = json_get ''ttl'' obj, rwSent = json_get ''sent'' obj,
                 rwPayload = or_nullish (json_get ''payload'' data) (Some data)\<rparr>
      in push_emit (EmitPush (normalizePushEvent raw)) (push_emit (EmitMessage raw) s1))"

definition onPushMessage :: "mcs_message \<Rightarrow> push_client \<Rightarrow> push_client" where
  "onPushMessage m s =
     (case m of (tag, obj) \<Rightarrow>
        if tag = TAG_LOGIN_RESPONSE then
          (if truthy (json_get ''error'' obj) then onLoginError (the (json_get ''error'' obj)) s
           else push_emit EmitConnect
             (s\<lparr>pcLoggedIn := True, pcDelay := 0, pcLoginFailures := 0, pcHeartbeat := True\<rparr>))
        else if tag = TAG_DATA_MESSAGE then handleDataMessage obj s
        else if tag = TAG_HEARTBEAT_PING then
          (case pcSocket s of
             Some n \<Rightarrow> push_emit (WriteHeartbeatAck n
                 (if truthy (json_get ''lastStreamIdReceived'' obj)
                  then json_get ''lastStreamIdReceived'' obj else None)) s
           | None \<Rightarrow> s)
        else if tag = TAG_CLOSE then destroy_socket s
        else s)"

definition next_delay :: "nat \<Rightarrow> nat" where
  "next_delay d = (if d < 60000 then d + 10000 else if d < 600000 then d + 60000 else d)"

definition scheduleReconnect :: "push_client \<Rightarrow> push_client" where
  "scheduleReconnect s =
     (let delay = (if pcDelay s = 0 then 5000 else pcDelay s);
          s1 = s\<lparr>pcDelay := next_delay (pcDelay s)\<rparr>
      in if pcReconnect s1 \<noteq> None then s1 else s1\<lparr>pcReconnect := Some delay\<rparr>)"

definition onPushClose :: "push_client \<Rightarrow> push_client" where
  "onPushClose s =
     (let s1 = push_emit EmitDisconnect (s\<lparr>pcHeartbeat := False, pcLoggedIn := False\<rparr>)
      in if \<not> pcClosing s1 then scheduleReconnect s1 else s1)"

definition push_close :: "push_client \<Rightarrow> push_client" where
  "push_close s =
     (destroy_socket (s\<lparr>pcClosing := True, pcHeartbeat := False, pcReconnect := None\<rparr>))\<lparr>pcSocket := None\<rparr>"

definition on_data :: "mcs_env \<Rightarrow> buffer \<Rightarrow> push_client \<Rightarrow> push_client" where
  "on_data env chunk s =
     (case handleData env (pcParser s) chunk of
        None \<Rightarrow> push_emit Uncaught s
      | Some (ms, err, p) \<Rightarrow>
          (let s1 = fold onPushMessage ms (s\<lparr>pcParser := p\<rparr>)
           in if err = None then s1 else push_emit Uncaught s1))"

section \<open>Events\<close>

datatype push_input = CallConnect | CallClose | CallSetIds "string list" | Secured nat | Data nat buffer
  | Closed nat | Failed nat | HeartbeatTick | ReconnectFire

text \<open>A socket that has been destroyed delivers its close event and nothing else.\<close>

definition push_step :: "mcs_env \<Rightarrow> push_client \<Rightarrow> push_input \<Rightarrow> push_client" where
  "push_step env s e =
     (case e of
        CallConnect \<Rightarrow> push_connect s
      | CallClose \<Rightarrow> push_close s
      | CallSetIds ids \<Rightarrow> s\<lparr>pcPersistentIds := ids\<rparr>
      | Secured n \<Rightarrow> if (n, False) \<in> set (pcSockets s) then push_emit (WriteLogin n (pcPersistentIds s)) s else s
      | Data n chunk \<Rightarrow> if (n, False) \<in> set (pcSockets s) then on_data env chunk s else s
      | Closed n \<Rightarrow> if n \<in> fst ` set (pcSockets s)
          then onPushClose (s\<lparr>pcSockets := filter (\<lambda>(m, _). m \<noteq> n) (pcSockets s)\<rparr>) else s
      | Failed n \<Rightarrow> if (n, False) \<in> set (pcSockets s) then push_emit EmitSocketError s else s
      | HeartbeatTick \<Rightarrow>
          (if pcHeartbeat s then
             (case pcSocket s of
                Some n \<Rightarrow> if pcLoggedIn s then push_emit (WriteHeartbeatPing n) s else s
              | None \<Rightarrow> s)
           else s)
      | ReconnectFire \<Rightarrow>
          (case pcReconnect s of
             None \<Rightarrow> s
           | Some _ \<Rightarrow>
               (let s1 = s\<lparr>pcReconnect := None\<rparr> in if \<not> pcClosing s1 then push_connect s1 else s1)))"

definition run_push :: "mcs_env \<Rightarrow> string list \<Rightarrow> push_input list \<Rightarrow> push_client" where
  "run_push env ids es = foldl (push_step env) (new_client ids) es"


section \<open>The link is kept up, and stays down\<close>

definition delay_ok :: "nat \<Rightarrow> bool" where
  "delay_ok d \<longleftrightarrow> d \<le> 600000 \<and> 10000 dvd d \<and> (60000 \<le> d \<longrightarrow> 60000 dvd d)"

definition push_inv :: "push_client \<Rightarrow> bool" where
  "push_inv s \<longleftrightarrow> delay_ok (pcDelay s) \<and>
     (\<forall>d. pcReconnect s = Some d \<longrightarrow> 5000 \<le> d \<and> d \<le> 600000) \<and>
     (pcClosing s \<longrightarrow> pcReconnect s = None) \<and>
     (\<not> pcClosing s \<longrightarrow> 0 < pcNext s \<longrightarrow> pcSockets s \<noteq> [] \<or> pcReconnect s \<noteq> None)"

lemma delay_ok_next: "delay_ok d \<Longrightarrow> delay_ok (next_delay d)"
proof -
  assume d: "delay_ok d"
  then obtain k where k: "d = 10000 * k" by (auto simp: delay_ok_def dvd_def)
  show ?thesis
  proof (cases "d < 60000")
    case True
    then have "k < 6" using k by simp
    then have "k = 0 \<or> k = 1 \<or> k = 2 \<or> k = 3 \<or> k = 4 \<or> k = 5" by linarith
    then show ?thesis using k by (auto simp: delay_ok_def next_delay_def)
  next
    case False
    then obtain j where j: "d = 60000 * j" using d by (auto simp: delay_ok_def dvd_def)
    show ?thesis
    proof (cases "d < 600000")
      case True
      then have "j + 1 \<le> 10" using j by simp
      moreover have n: "next_delay d = 60000 * (j + 1)" using True False j by (simp add: next_delay_def)
      moreover have "10000 dvd 60000 * (j + 1)" using dvd_mult2 [of "10000 :: nat" 60000 "j + 1"] by simp
      ultimately show ?thesis unfolding delay_ok_def n by simp
    qed (use d False in \<open>simp add: next_delay_def\<close>)
  qed
qed

lemma delay_ok_zero [simp]: "delay_ok 0"
  by (simp add: delay_ok_def)

lemma delay_ok_bounds: "delay_ok d \<Longrightarrow> d = 0 \<or> 5000 \<le> d \<and> d \<le> 600000"
  by (auto simp: delay_ok_def dvd_def)

lemma push_emit_inv [simp]: "push_inv (push_emit x s) = push_inv s"
  by (simp add: push_inv_def push_emit_def)

lemma destroy_socket_inv: "push_inv s \<Longrightarrow> push_inv (destroy_socket s)"
  by (auto simp: destroy_socket_def push_inv_def push_emit_def split: option.splits)

lemma connect_inv: "push_inv s \<Longrightarrow> push_inv (push_connect s)"
  by (simp add: push_connect_def push_inv_def push_emit_def)

lemma handleDataMessage_frame:
  obtains x y ids where "handleDataMessage obj s = push_emit x (push_emit y (s\<lparr>pcPersistentIds := ids\<rparr>))"
proof -
  have s: "s = s\<lparr>pcPersistentIds := pcPersistentIds s\<rparr>" by simp
  have "\<exists>ids. (case json_get ''persistentId'' obj of
      Some (JStr i) \<Rightarrow> if i \<noteq> [] then s\<lparr>pcPersistentIds := pcPersistentIds s @ [i]\<rparr> else s
    | _ \<Rightarrow> s) = s\<lparr>pcPersistentIds := ids\<rparr>"
  proof (cases "\<exists>i. json_get ''persistentId'' obj = Some (JStr i) \<and> i \<noteq> []")
    case True
    then show ?thesis by auto
  next
    case False
    then have "(case json_get ''persistentId'' obj of
      Some (JStr i) \<Rightarrow> if i \<noteq> [] then s\<lparr>pcPersistentIds := pcPersistentIds s @ [i]\<rparr> else s
    | _ \<Rightarrow> s) = s" by (simp split: option.split json.split)
    with s show ?thesis by metis
  qed
  then show thesis using that unfolding handleDataMessage_def Let_def by metis
qed

text \<open>What a message does to the client, for a predicate that the parts of it keep.\<close>

lemma onPushMessage_keeps:
  assumes "P s" "\<And>x t. P t \<Longrightarrow> P (push_emit x t)" "\<And>t. P t \<Longrightarrow> P (destroy_socket t)"
    and "\<And>t ids. P t \<Longrightarrow> P (t\<lparr>pcPersistentIds := ids\<rparr>)" "\<And>t n. P t \<Longrightarrow> P (t\<lparr>pcLoginFailures := n\<rparr>)"
    and "\<And>t. P t \<Longrightarrow> P (t\<lparr>pcLoggedIn := True, pcDelay := 0, pcLoginFailures := 0, pcHeartbeat := True\<rparr>)"
  shows "P (onPushMessage m s)"
proof -
  obtain tag obj where m: "m = (tag, obj)" by (cases m)
  have e: "P (onLoginError err s)" for err
    unfolding onLoginError_def Let_def by (simp add: assms)
  have d: "P (handleDataMessage obj s)"
    by (rule handleDataMessage_frame [of obj s]) (simp add: assms)
  show ?thesis unfolding m onPushMessage_def prod.case
    by (simp add: assms e d split: option.split)
qed

lemma onPushMessage_inv: "push_inv s \<Longrightarrow> push_inv (onPushMessage m s)"
  by (rule onPushMessage_keeps) (simp_all add: destroy_socket_inv, simp_all add: push_inv_def)

lemma on_data_inv: "push_inv s \<Longrightarrow> push_inv (on_data env chunk s)"
proof -
  have f: "push_inv t \<Longrightarrow> push_inv (fold onPushMessage ms t)" for ms t
    by (induction ms arbitrary: t) (auto intro: onPushMessage_inv)
  assume "push_inv s"
  then have "push_inv (s\<lparr>pcParser := p\<rparr>)" for p by (simp add: push_inv_def)
  with f \<open>push_inv s\<close> show ?thesis by (auto simp: on_data_def Let_def split: option.splits)
qed

lemma onPushClose_inv:
  assumes "delay_ok (pcDelay s)" "\<And>d. pcReconnect s = Some d \<Longrightarrow> 5000 \<le> d \<and> d \<le> 600000"
    and "pcClosing s \<Longrightarrow> pcReconnect s = None"
  shows "push_inv (onPushClose s)"
  using assms delay_ok_bounds [OF assms(1)]
  by (auto simp: onPushClose_def scheduleReconnect_def push_inv_def push_emit_def Let_def delay_ok_next)

interpretation push_runs: stepper "push_step env" push_inv for env
proof
  fix s e
  assume i: "push_inv s"
  show "push_inv (push_step env s e)"
  proof (cases e)
    case CallConnect
    then show ?thesis using connect_inv [OF i] by (simp add: push_step_def)
  next
    case CallClose
    have "push_inv (destroy_socket (s\<lparr>pcClosing := True, pcHeartbeat := False, pcReconnect := None\<rparr>))"
      using i by (intro destroy_socket_inv) (simp add: push_inv_def)
    then show ?thesis using CallClose by (simp add: push_step_def push_close_def push_inv_def)
  next
    case (Data n c)
    then show ?thesis using i on_data_inv [OF i] by (simp add: push_step_def)
  next
    case (Closed n)
    have "push_inv (onPushClose (s\<lparr>pcSockets := filter (\<lambda>(m, _). m \<noteq> n) (pcSockets s)\<rparr>))"
      by (rule onPushClose_inv) (use i in \<open>simp_all add: push_inv_def\<close>)
    then show ?thesis using i Closed by (simp add: push_step_def)
  next
    case ReconnectFire
    show ?thesis
    proof (cases "pcReconnect s = None \<or> pcClosing s")
      case True
      then show ?thesis using i ReconnectFire
        by (auto simp: push_step_def push_inv_def split: option.splits)
    next
      case False
      then show ?thesis using i ReconnectFire
        by (auto simp: push_step_def push_connect_def push_inv_def push_emit_def split: option.splits)
    qed
  qed (use i in \<open>auto simp: push_step_def push_inv_def push_emit_def split: option.splits\<close>)
qed

lemma run_push_inv: "push_inv (run_push env ids es)"
  unfolding run_push_def
  by (rule push_runs.inv_run) (simp add: push_inv_def new_client_def)

text \<open>
  C32. The push link is kept up, whatever sockets and servers do: once a connection was asked for and
  until \<open>close\<close>, there is always a socket whose close event is still to come or a reconnect timer
  pending; a pending timer waits between five seconds and ten minutes; after \<open>close\<close> none is pending.
\<close>

theorem push_link_kept_up:
  "(\<not> pcClosing (run_push env ids es) \<and> 0 < pcNext (run_push env ids es) \<longrightarrow>
      pcSockets (run_push env ids es) \<noteq> [] \<or> pcReconnect (run_push env ids es) \<noteq> None) \<and>
   (\<forall>d. pcReconnect (run_push env ids es) = Some d \<longrightarrow> 5000 \<le> d \<and> d \<le> 600000) \<and>
   (pcClosing (run_push env ids es) \<longrightarrow> pcReconnect (run_push env ids es) = None)"
  using run_push_inv [of env ids es] unfolding push_inv_def by blast

text \<open>A closed client, seen by everything but a new call of \<open>connect\<close>.\<close>

definition shut :: "nat \<Rightarrow> push_client \<Rightarrow> bool" where
  "shut n s \<longleftrightarrow> pcClosing s \<and> pcReconnect s = None \<and> pcNext s = n"

lemma push_emit_shut [simp]: "shut n (push_emit x s) = shut n s"
  by (simp add: shut_def push_emit_def)

lemma destroy_shut [simp]: "shut n (destroy_socket s) = shut n s"
  by (simp add: destroy_socket_def shut_def push_emit_def split: option.splits)

lemma onPushMessage_shut: "shut n s \<Longrightarrow> shut n (onPushMessage m s)"
  by (rule onPushMessage_keeps) (simp_all, simp_all add: shut_def)

lemma push_close_shut: "shut (pcNext s) (push_close s)"
  by (simp add: push_close_def destroy_socket_def shut_def push_emit_def split: option.split)

lemma step_shut:
  assumes "shut n s" "e \<noteq> CallConnect"
  shows "shut n (push_step env s e)"
proof (cases e)
  case (Data k c)
  have f: "shut n t \<Longrightarrow> shut n (fold onPushMessage ms t)" for ms t
    by (induction ms arbitrary: t) (auto intro: onPushMessage_shut)
  have "shut n (s\<lparr>pcParser := p\<rparr>)" for p using assms(1) by (simp add: shut_def)
  with f assms(1) show ?thesis by (auto simp: push_step_def Data on_data_def Let_def split: option.splits)
next
  case (Closed k)
  then show ?thesis using assms(1)
    by (simp add: push_step_def onPushClose_def Let_def push_emit_def shut_def)
next
  case CallClose
  have "shut n (push_close s)" using assms(1) by (simp add: shut_def push_close_shut [unfolded shut_def])
  then show ?thesis by (simp add: push_step_def CallClose)
qed (use assms in \<open>auto simp: push_step_def shut_def push_emit_def split: option.splits\<close>)

lemma run_shut: "shut n t \<Longrightarrow> CallConnect \<notin> set xs \<Longrightarrow> shut n (foldl (push_step env) t xs)"
proof (induction xs arbitrary: t)
  case (Cons x xs)
  then have "shut n (push_step env t x)" by (intro step_shut) auto
  with Cons show ?case by simp
qed simp

text \<open>
  C33. Closed stays closed: after \<open>close\<close>, no order of late socket events, server messages, timer ticks and
  further closes opens a socket or arms a reconnect until \<open>connect\<close> is called again.
\<close>

theorem push_stays_closed:
  assumes "CallConnect \<notin> set es'"
  shows "pcNext (run_push env ids (es @ CallClose # es')) = pcNext (run_push env ids es) \<and>
    pcReconnect (run_push env ids (es @ CallClose # es')) = None"
proof -
  let ?n = "pcNext (run_push env ids es)"
  have start: "shut ?n (push_step env (run_push env ids es) CallClose)"
    by (simp add: push_step_def push_close_shut)
  from run_shut [OF start assms, of env]
  have "shut ?n (run_push env ids (es @ CallClose # es'))" by (simp add: run_push_def)
  then show ?thesis by (simp add: shut_def)
qed

theorem push_link_kept_up_witness:
  "pcReconnect (run_push sample_mcs [] [CallConnect, Closed 0]) = Some 5000 \<and> 5000 \<le> (5000 :: nat)"
proof -
  have r: "pcReconnect (run_push sample_mcs [] [CallConnect, Closed 0]) = Some 5000"
    by (simp add: run_push_def push_step_def push_connect_def onPushClose_def scheduleReconnect_def
        new_client_def push_emit_def)
  with push_link_kept_up [of sample_mcs "[]" "[CallConnect, Closed 0]"] show ?thesis by simp
qed

theorem push_stays_closed_witness:
  "pcNext (run_push sample_mcs [] ([CallConnect] @ CallClose # [Closed 0, ReconnectFire])) = 1"
proof -
  have "pcNext (run_push sample_mcs [] [CallConnect]) = 1"
    by (simp add: run_push_def push_step_def push_connect_def new_client_def push_emit_def)
  with push_stays_closed [of "[Closed 0, ReconnectFire]" sample_mcs "[]" "[CallConnect]"]
  show ?thesis by simp
qed

text \<open>
  The close event of a socket that was given up arrives after the next \<open>connect\<close>, is taken for the new
  socket's, and a second connection is opened beside it; \<open>close\<close> then destroys only one of the two.
\<close>

lemma stale_close_opens_second_socket:
  "pcSockets (run_push sample_mcs [] [CallConnect, CallClose, CallConnect, Closed 0, ReconnectFire, CallClose])
     = [(2, True), (1, False)]"
  by (simp add: run_push_def push_step_def push_connect_def push_close_def destroy_socket_def onPushClose_def
      scheduleReconnect_def new_client_def push_emit_def)

end
