(* ===== verification/Talkback.thy ===== *)
theory Talkback
  imports Adts P2p_Lifecycle "HOL-Library.Sublist"
begin

text \<open>
  \<open>src/transport/p2p/talkback.ts\<close>: one talkback on a camera channel. Audio is cut into ADTS frames and
  paced onto the wire at its own playback rate, by the wall clock.

  The sink (\<open>TalkbackSink\<close>) is a parameter, the interface the code names; the session of \<open>P2p_Session\<close> is
  the one it gets. The caller's encoder answers later, in an event. The interval, the microtasks of the
  promise chain, the audio-gap listener and the calls of the host are events too; what the host hears, and
  what goes to the sink, is logged in \<open>tkOut\<close>. A listener of the host that calls back does so in a later
  event.
\<close>

section \<open>State\<close>

record 'k talk_sink =
  snkStart :: "int \<Rightarrow> bool \<Rightarrow> int \<Rightarrow> ('k, bool) act"
  snkStop :: "int \<Rightarrow> bool \<Rightarrow> int \<Rightarrow> ('k, bool) act"
  snkSend :: "int \<Rightarrow> buffer \<Rightarrow> int \<Rightarrow> ('k, unit) act"

text \<open>The caller's encoder: whether it has a \<open>flush\<close>, and what its \<open>close\<close> throws when it has one and throws.\<close>

record talk_encoder =
  encFlush :: bool
  encCloseThrows :: "js_error option"

definition DEFAULT_HIGH_WATER_FRAMES :: nat where
  "DEFAULT_HIGH_WATER_FRAMES = (2000 + AAC_FRAME_MS - 1) div AAC_FRAME_MS"

definition DEFAULT_IDLE_TIMEOUT_MS :: int where "DEFAULT_IDLE_TIMEOUT_MS = 30000"

record 'k talk_opts =
  toSink :: "'k talk_sink"
  toChannel :: int
  toAttached :: bool
  toEncoder :: "talk_encoder option"
  toHighWater :: nat
  toIdleMs :: int

datatype talk_error = SinkThrew js_error | NotPlayable buffer | FrameTooLong buffer
  | WriteAfterEnd | EncoderFailed js_error | NeverAcknowledged int

datatype talk_out = FrameHanded buffer | TalkError talk_error | TalkFinished | TalkStopped
  | MediaReleased | EncodeAsked buffer | FlushAsked | CallbackGiven nat

datatype talk_job = EncodeJob buffer | FlushJob | AnnounceJob

text \<open>The head of \<open>tkChain\<close> is the job that runs; \<open>tkAwaiting\<close> says that it waits for the encoder.\<close>

record 'k talkback =
  tkSink :: 'k
  tkBuffered :: buffer
  tkQueue :: "buffer list"
  tkTimer :: bool
  tkListening :: bool
  tkStarted :: bool
  tkStopped :: bool
  tkEnded :: bool
  tkAnnounced :: bool
  tkOnRoom :: "nat option"
  tkNextDue :: int
  tkLastWrite :: int
  tkChain :: "talk_job list"
  tkAwaiting :: bool
  tkOut :: "talk_out list"

definition new_talkback :: "'k \<Rightarrow> 'k talkback" where
  "new_talkback k =
     \<lparr>tkSink = k, tkBuffered = [], tkQueue = [], tkTimer = False, tkListening = False, tkStarted = False,
      tkStopped = False, tkEnded = False, tkAnnounced = False, tkOnRoom = None, tkNextDue = 0,
      tkLastWrite = 0, tkChain = [], tkAwaiting = False, tkOut = []\<rparr>"

definition tk_emit :: "talk_out \<Rightarrow> 'k talkback \<Rightarrow> 'k talkback" where
  "tk_emit x t = t\<lparr>tkOut := tkOut t @ [x]\<rparr>"

definition talk_fail :: "talk_error \<Rightarrow> 'k talkback \<Rightarrow> 'k talkback" where
  "talk_fail e = tk_emit (TalkError e)"

section \<open>Operations\<close>

definition announceFinishIfDone :: "'k talkback \<Rightarrow> 'k talkback" where
  "announceFinishIfDone t =
     (if tkAnnounced t \<or> \<not> tkEnded t \<or> tkQueue t \<noteq> [] then t
      else tk_emit TalkFinished (t\<lparr>tkAnnounced := True\<rparr>))"

definition releaseWriter :: "'k talkback \<Rightarrow> 'k talkback" where
  "releaseWriter t =
     (case tkOnRoom t of None \<Rightarrow> t | Some cb \<Rightarrow> tk_emit (CallbackGiven cb) (t\<lparr>tkOnRoom := None\<rparr>))"

text \<open>
  Everything \<open>stop\<close> does is synchronous. What the encoder's \<open>close\<close> or the sink throws passes through the
  \<open>finally\<close>.
\<close>

definition talk_stop :: "'k talk_opts \<Rightarrow> int \<Rightarrow> ('k talkback, unit) act" where
  "talk_stop opts now t =
     (if tkStopped t then (Inr (), t)
      else
        (let t1 = releaseWriter (t\<lparr>tkStopped := True, tkTimer := False, tkListening := False, tkQueue := []\<rparr>);
             (r, t2) =
               (case Option.bind (toEncoder opts) encCloseThrows of
                  Some e \<Rightarrow> (Inl e, t1)
                | None \<Rightarrow>
                    if tkStarted t1 then
                      (case snkStop (toSink opts) (toChannel opts) (toAttached opts) now (tkSink t1) of
                         (Inl e, k) \<Rightarrow> (Inl e, t1\<lparr>tkSink := k\<rparr>)
                       | (Inr _, k) \<Rightarrow> (Inr (), t1\<lparr>tkSink := k\<rparr>))
                    else (Inr (), t1))
         in (r, tk_emit TalkStopped (tk_emit MediaReleased t2))))"

definition talk_start :: "'k talk_opts \<Rightarrow> int \<Rightarrow> ('k talkback, unit) act" where
  "talk_start opts now t =
     (if tkStarted t then (Inr (), t)
      else
        (case snkStart (toSink opts) (toChannel opts) (toAttached opts) now (tkSink t) of
           (Inl e, k) \<Rightarrow> (Inl e, t\<lparr>tkSink := k\<rparr>)
         | (Inr False, k) \<Rightarrow> (Inl (UserError ''could not open the audio path''), t\<lparr>tkSink := k\<rparr>)
         | (Inr True, k) \<Rightarrow>
             (Inr (), t\<lparr>tkSink := k, tkStarted := True, tkNextDue := now + int AAC_FRAME_MS,
                       tkLastWrite := now, tkTimer := True, tkListening := True\<rparr>)))"

definition talk_enqueue_one :: "buffer \<Rightarrow> 'k talkback \<Rightarrow> 'k talkback" where
  "talk_enqueue_one frame t =
     (case parseAdtsHeader frame 0 of
        None \<Rightarrow> t
      | Some h \<Rightarrow>
          if \<not> isSupportedAdts h then talk_fail (NotPlayable frame) t
          else if length frame > MAX_AUDIO_FRAME_BYTES then talk_fail (FrameTooLong frame) t
          else t\<lparr>tkQueue := tkQueue t @ [frame]\<rparr>)"

definition talk_enqueue :: "buffer list \<Rightarrow> 'k talkback \<Rightarrow> 'k talkback" where
  "talk_enqueue = fold talk_enqueue_one"

text \<open>\<open>this.enqueue(this.reader.push(chunk))\<close>.\<close>

definition push_and_enqueue :: "buffer \<Rightarrow> 'k talkback \<Rightarrow> 'k talkback" where
  "push_and_enqueue chunk t =
     (case adts_push (tkBuffered t) chunk of (buffered, frames) \<Rightarrow>
        talk_enqueue frames (t\<lparr>tkBuffered := buffered\<rparr>))"

definition talk_write :: "'k talk_opts \<Rightarrow> buffer \<Rightarrow> int \<Rightarrow> 'k talkback \<Rightarrow> 'k talkback" where
  "talk_write opts chunk now t =
     (if tkStopped t then t
      else if tkEnded t then talk_fail WriteAfterEnd t
      else
        (let t1 = t\<lparr>tkLastWrite := now\<rparr>
         in if toEncoder opts = None then push_and_enqueue chunk t1
            else t1\<lparr>tkChain := tkChain t1 @ [EncodeJob chunk]\<rparr>))"

definition talk_end :: "'k talkback \<Rightarrow> 'k talkback" where
  "talk_end t =
     (if tkEnded t \<or> tkStopped t then t
      else t\<lparr>tkEnded := True, tkChain := tkChain t @ [FlushJob, AnnounceJob]\<rparr>)"

text \<open>The next job of the chain begins, in a microtask.\<close>

definition chain_turn :: "'k talk_opts \<Rightarrow> 'k talkback \<Rightarrow> 'k talkback" where
  "chain_turn opts t =
     (if tkAwaiting t then t
      else
        (case tkChain t of
           [] \<Rightarrow> t
         | EncodeJob pcm # rest \<Rightarrow>
             if tkStopped t then t\<lparr>tkChain := rest\<rparr>
             else tk_emit (EncodeAsked pcm) (t\<lparr>tkAwaiting := True\<rparr>)
         | FlushJob # rest \<Rightarrow>
             if tkStopped t \<or> \<not> (case toEncoder opts of None \<Rightarrow> False | Some e \<Rightarrow> encFlush e)
             then t\<lparr>tkChain := rest\<rparr>
             else tk_emit FlushAsked (t\<lparr>tkAwaiting := True\<rparr>)
         | AnnounceJob # rest \<Rightarrow> announceFinishIfDone (t\<lparr>tkChain := rest\<rparr>)))"

text \<open>The encoder answers the job that waits: its frames, or what it threw.\<close>

definition encoder_answers :: "js_error + buffer list \<Rightarrow> 'k talkback \<Rightarrow> 'k talkback" where
  "encoder_answers r t =
     (if \<not> tkAwaiting t then t
      else
        (let t1 = t\<lparr>tkAwaiting := False, tkChain := tl (tkChain t)\<rparr>
         in case (r, tkChain t) of
              (Inl e, _) \<Rightarrow> talk_fail (EncoderFailed e) t1
            | (Inr frames, EncodeJob pcm # _) \<Rightarrow> fold push_and_enqueue frames t1
            | (Inr frames, _) \<Rightarrow> talk_enqueue frames t1))"

text \<open>
  The loop of \<open>tick\<close> over the queue: every frame that is due is sent. The answer is False when the sink
  threw, which ends the tick.
\<close>

fun pace :: "'k talk_opts \<Rightarrow> int \<Rightarrow> buffer list \<Rightarrow> 'k talkback \<Rightarrow> bool \<times> 'k talkback" where
  "pace opts now [] t = (True, t)"
| "pace opts now (frame # rest) t =
     (if now < tkNextDue t then (True, t)
      else
        (let t1 = tk_emit (FrameHanded frame) (t\<lparr>tkQueue := rest, tkNextDue := tkNextDue t + int AAC_FRAME_MS\<rparr>)
         in case snkSend (toSink opts) (toChannel opts) frame now (tkSink t1) of
              (Inl e, k) \<Rightarrow> (False, talk_fail (SinkThrew e) (t1\<lparr>tkSink := k\<rparr>))
            | (Inr _, k) \<Rightarrow> pace opts now rest (t1\<lparr>tkSink := k\<rparr>)))"

definition idleCheck :: "'k talk_opts \<Rightarrow> int \<Rightarrow> 'k talkback \<Rightarrow> 'k talkback" where
  "idleCheck opts now t =
     (if toIdleMs opts = 0 \<or> now - tkLastWrite t < toIdleMs opts then t else snd (talk_stop opts now t))"

definition talk_tick :: "'k talk_opts \<Rightarrow> int \<Rightarrow> 'k talkback \<Rightarrow> 'k talkback" where
  "talk_tick opts now t =
     (if tkStopped t then t
      else if tkQueue t = [] then
        announceFinishIfDone (idleCheck opts now (t\<lparr>tkNextDue := now + int AAC_FRAME_MS\<rparr>))
      else
        (case pace opts now (tkQueue t) t of
           (False, t1) \<Rightarrow> t1
         | (True, t1) \<Rightarrow>
             announceFinishIfDone (if length (tkQueue t1) < toHighWater opts then releaseWriter t1 else t1)))"

text \<open>The stream of \<open>writable()\<close>: one write of it with its callback, and its end.\<close>

definition piped_write :: "'k talk_opts \<Rightarrow> nat \<Rightarrow> buffer \<Rightarrow> int \<Rightarrow> 'k talkback \<Rightarrow> 'k talkback" where
  "piped_write opts cb chunk now t =
     (let t1 = talk_write opts chunk now t
      in if length (tkQueue t1) < toHighWater opts then tk_emit (CallbackGiven cb) t1
         else t1\<lparr>tkOnRoom := Some cb\<rparr>)"

definition piped_final :: "nat \<Rightarrow> 'k talkback \<Rightarrow> 'k talkback" where
  "piped_final cb t = tk_emit (CallbackGiven cb) (talk_end t)"

section \<open>Runs\<close>

text \<open>The last event is what anything else does to the sink, which the talkback shares.\<close>

datatype 'k talk_event = TkStart int | TkWrite buffer int | TkPiped nat buffer int | TkEnd | TkFinal nat
  | TkChain | TkEncoder "js_error + buffer list" | TkTick int | TkStop int | TkGap int | TkSink 'k

fun talk_step :: "'k talk_opts \<Rightarrow> 'k talkback \<Rightarrow> 'k talk_event \<Rightarrow> 'k talkback" where
  "talk_step opts t (TkStart now) = snd (talk_start opts now t)"
| "talk_step opts t (TkWrite chunk now) = talk_write opts chunk now t"
| "talk_step opts t (TkPiped cb chunk now) = piped_write opts cb chunk now t"
| "talk_step opts t TkEnd = talk_end t"
| "talk_step opts t (TkFinal cb) = piped_final cb t"
| "talk_step opts t TkChain = chain_turn opts t"
| "talk_step opts t (TkEncoder r) = encoder_answers r t"
| "talk_step opts t (TkTick now) = (if tkTimer t then talk_tick opts now t else t)"
| "talk_step opts t (TkStop now) = snd (talk_stop opts now t)"
| "talk_step opts t (TkGap q) = (if tkListening t then talk_fail (NeverAcknowledged q) t else t)"
| "talk_step opts t (TkSink k) = t\<lparr>tkSink := k\<rparr>"

definition run_talk :: "'k talk_opts \<Rightarrow> 'k \<Rightarrow> 'k talk_event list \<Rightarrow> 'k talkback" where
  "run_talk opts k es = foldl (talk_step opts) (new_talkback k) es"


section \<open>What the operations leave alone\<close>

definition handed_frames :: "'k talkback \<Rightarrow> buffer list" where
  "handed_frames t = List.map_filter (\<lambda>x. case x of FrameHanded f \<Rightarrow> Some f | _ \<Rightarrow> None) (tkOut t)"

text \<open>A frame the device can play: what \<open>enqueue\<close> admits.\<close>

definition playable :: "buffer \<Rightarrow> bool" where
  "playable f \<longleftrightarrow> (case parseAdtsHeader f 0 of None \<Rightarrow> False
     | Some h \<Rightarrow> isSupportedAdts h \<and> length f \<le> MAX_AUDIO_FRAME_BYTES)"

lemma tk_emit_simps [simp]:
  "tkSink (tk_emit x t) = tkSink t" "tkBuffered (tk_emit x t) = tkBuffered t"
  "tkQueue (tk_emit x t) = tkQueue t" "tkTimer (tk_emit x t) = tkTimer t"
  "tkListening (tk_emit x t) = tkListening t" "tkStarted (tk_emit x t) = tkStarted t"
  "tkStopped (tk_emit x t) = tkStopped t" "tkEnded (tk_emit x t) = tkEnded t"
  "tkAnnounced (tk_emit x t) = tkAnnounced t" "tkOnRoom (tk_emit x t) = tkOnRoom t"
  "tkNextDue (tk_emit x t) = tkNextDue t" "tkLastWrite (tk_emit x t) = tkLastWrite t"
  "tkChain (tk_emit x t) = tkChain t" "tkAwaiting (tk_emit x t) = tkAwaiting t"
  "tkOut (tk_emit x t) = tkOut t @ [x]"
  by (simp_all add: tk_emit_def)

lemma handed_emit [simp]:
  "handed_frames (tk_emit x t) = handed_frames t @ (case x of FrameHanded f \<Rightarrow> [f] | _ \<Rightarrow> [])"
  by (simp add: handed_frames_def map_filter_def split: talk_out.split)

lemma handed_update [simp]:
  "handed_frames (t\<lparr>tkSink := k\<rparr>) = handed_frames t" "handed_frames (t\<lparr>tkBuffered := b\<rparr>) = handed_frames t"
  "handed_frames (t\<lparr>tkQueue := q\<rparr>) = handed_frames t" "handed_frames (t\<lparr>tkTimer := p\<rparr>) = handed_frames t"
  "handed_frames (t\<lparr>tkListening := p\<rparr>) = handed_frames t" "handed_frames (t\<lparr>tkStarted := p\<rparr>) = handed_frames t"
  "handed_frames (t\<lparr>tkStopped := p\<rparr>) = handed_frames t" "handed_frames (t\<lparr>tkEnded := p\<rparr>) = handed_frames t"
  "handed_frames (t\<lparr>tkAnnounced := p\<rparr>) = handed_frames t" "handed_frames (t\<lparr>tkOnRoom := r\<rparr>) = handed_frames t"
  "handed_frames (t\<lparr>tkNextDue := n\<rparr>) = handed_frames t" "handed_frames (t\<lparr>tkLastWrite := n\<rparr>) = handed_frames t"
  "handed_frames (t\<lparr>tkChain := c\<rparr>) = handed_frames t" "handed_frames (t\<lparr>tkAwaiting := p\<rparr>) = handed_frames t"
  by (simp_all add: handed_frames_def)

text \<open>What every operation but \<open>start\<close>, \<open>write\<close> and \<open>stop\<close> keeps of a talkback: all but the queue and the log.\<close>

definition tk_same :: "'k talkback \<Rightarrow> 'k talkback \<Rightarrow> bool" where
  "tk_same t u \<longleftrightarrow> tkSink u = tkSink t \<and> tkTimer u = tkTimer t \<and> tkListening u = tkListening t \<and>
     tkStarted u = tkStarted t \<and> tkStopped u = tkStopped t \<and> tkEnded u = tkEnded t \<and>
     tkAnnounced u = tkAnnounced t \<and> tkNextDue u = tkNextDue t \<and> tkLastWrite u = tkLastWrite t \<and>
     tkOnRoom u = tkOnRoom t \<and> handed_frames u = handed_frames t \<and> (\<exists>es. tkOut u = tkOut t @ map TalkError es)"

lemma tk_same_refl [simp]: "tk_same t t"
  by (auto simp: tk_same_def intro: exI [of _ "[]"])

lemma tk_same_trans: "tk_same t u \<Longrightarrow> tk_same u v \<Longrightarrow> tk_same t v"
  unfolding tk_same_def by (metis append_assoc map_append)

lemma tk_same_fail: "tk_same t (talk_fail e t)"
  by (auto simp: tk_same_def talk_fail_def intro: exI [of _ "[e]"])

lemma enqueue_one:
  "tk_same t (talk_enqueue_one f t) \<and> tkBuffered (talk_enqueue_one f t) = tkBuffered t \<and>
   tkChain (talk_enqueue_one f t) = tkChain t \<and> tkAwaiting (talk_enqueue_one f t) = tkAwaiting t \<and>
   tkQueue (talk_enqueue_one f t) = tkQueue t @ filter playable [f]"
proof (cases "parseAdtsHeader f 0")
  case (Some h)
  show ?thesis
    using tk_same_fail [of t "NotPlayable f"] tk_same_fail [of t "FrameTooLong f"]
    by (auto simp: talk_enqueue_one_def Some playable_def talk_fail_def tk_same_def)
qed (simp add: talk_enqueue_one_def playable_def)

lemma enqueue_frames:
  "tk_same t (talk_enqueue fs t) \<and> tkBuffered (talk_enqueue fs t) = tkBuffered t \<and>
   tkChain (talk_enqueue fs t) = tkChain t \<and> tkAwaiting (talk_enqueue fs t) = tkAwaiting t \<and>
   tkQueue (talk_enqueue fs t) = tkQueue t @ filter playable fs"
proof (induction fs arbitrary: t)
  case (Cons f fs)
  then show ?case
    using enqueue_one [of t f] Cons.IH [of "talk_enqueue_one f t"]
    by (auto simp: talk_enqueue_def intro: tk_same_trans)
qed (simp add: talk_enqueue_def)

lemma push_frames:
  "tk_same t (push_and_enqueue c t) \<and> tkBuffered (push_and_enqueue c t) = fst (adts_push (tkBuffered t) c) \<and>
   tkChain (push_and_enqueue c t) = tkChain t \<and> tkAwaiting (push_and_enqueue c t) = tkAwaiting t \<and>
   tkQueue (push_and_enqueue c t) = tkQueue t @ filter playable (snd (adts_push (tkBuffered t) c))"
proof -
  obtain b fs where a: "adts_push (tkBuffered t) c = (b, fs)" by fastforce
  show ?thesis
    using enqueue_frames [of "t\<lparr>tkBuffered := b\<rparr>" fs]
    by (auto simp: push_and_enqueue_def a tk_same_def)
qed

text \<open>The loop of a tick hands over a front of the queue.\<close>

lemma frame_ms: "int AAC_FRAME_MS = 64"
  by (simp add: AAC_FRAME_MS_def AAC_SAMPLES_PER_FRAME_def AAC_SAMPLE_RATE_def)

lemma pace_queue:
  "tkQueue t = q \<Longrightarrow> handed_frames (snd (pace opts now q t)) @ tkQueue (snd (pace opts now q t)) = handed_frames t @ q"
  by (induction opts now q t rule: pace.induct) (auto simp: Let_def talk_fail_def split: prod.splits sum.splits)

lemma pace_same:
  "tkStopped (snd (pace opts now q t)) = tkStopped t" "tkEnded (snd (pace opts now q t)) = tkEnded t"
  "tkAnnounced (snd (pace opts now q t)) = tkAnnounced t" "tkBuffered (snd (pace opts now q t)) = tkBuffered t"
  "tkChain (snd (pace opts now q t)) = tkChain t" "tkAwaiting (snd (pace opts now q t)) = tkAwaiting t"
  "tkStarted (snd (pace opts now q t)) = tkStarted t" "tkTimer (snd (pace opts now q t)) = tkTimer t"
  "tkLastWrite (snd (pace opts now q t)) = tkLastWrite t" "tkListening (snd (pace opts now q t)) = tkListening t"
  "tkOnRoom (snd (pace opts now q t)) = tkOnRoom t"
  by (induction opts now q t rule: pace.induct; simp add: Let_def talk_fail_def split: prod.splits sum.splits)+

lemma pace_due:
  "tkNextDue (snd (pace opts now q t)) - 64 * int (length (handed_frames (snd (pace opts now q t)))) =
   tkNextDue t - 64 * int (length (handed_frames t))"
proof (induction opts now q t rule: pace.induct)
  case (2 opts now frame rest t)
  then show ?case by (simp add: Let_def talk_fail_def frame_ms split: prod.splits sum.splits)
qed simp

lemma pace_cursor:
  "tkNextDue (snd (pace opts now q t)) \<le> max (tkNextDue t) (now + 64)"
proof (induction opts now q t rule: pace.induct)
  case (2 opts now frame rest t)
  then show ?case by (force simp: Let_def talk_fail_def frame_ms split: prod.splits sum.splits)
qed simp

lemma pace_catches_up:
  "tkQueue t = q \<Longrightarrow> fst (pace opts now q t) \<Longrightarrow>
   tkQueue (snd (pace opts now q t)) = [] \<or> now < tkNextDue (snd (pace opts now q t))"
  by (induction opts now q t rule: pace.induct) (auto simp: Let_def split: prod.splits sum.splits)

text \<open>How often the log has an entry.\<close>

definition told :: "talk_out \<Rightarrow> 'k talkback \<Rightarrow> nat" where
  "told x t = length (filter ((=) x) (tkOut t))"

lemma told_emit [simp]: "told x (tk_emit y t) = told x t + (if x = y then 1 else 0)"
  by (simp add: told_def)

lemma told_update [simp]:
  "told x (t\<lparr>tkSink := k\<rparr>) = told x t" "told x (t\<lparr>tkBuffered := b\<rparr>) = told x t"
  "told x (t\<lparr>tkQueue := q\<rparr>) = told x t" "told x (t\<lparr>tkTimer := p\<rparr>) = told x t"
  "told x (t\<lparr>tkListening := p\<rparr>) = told x t" "told x (t\<lparr>tkStarted := p\<rparr>) = told x t"
  "told x (t\<lparr>tkStopped := p\<rparr>) = told x t" "told x (t\<lparr>tkEnded := p\<rparr>) = told x t"
  "told x (t\<lparr>tkAnnounced := p\<rparr>) = told x t" "told x (t\<lparr>tkOnRoom := r\<rparr>) = told x t"
  "told x (t\<lparr>tkNextDue := n\<rparr>) = told x t" "told x (t\<lparr>tkLastWrite := n\<rparr>) = told x t"
  "told x (t\<lparr>tkChain := c\<rparr>) = told x t" "told x (t\<lparr>tkAwaiting := p\<rparr>) = told x t"
  by (simp_all add: told_def)

lemma pace_told:
  "x \<in> {TalkFinished, TalkStopped, MediaReleased} \<Longrightarrow> told x (snd (pace opts now q t)) = told x t"
  by (induction opts now q t rule: pace.induct) (auto simp: Let_def talk_fail_def split: prod.splits sum.splits)

lemma told_same: "tk_same t u \<Longrightarrow> x \<in> {TalkFinished, TalkStopped, MediaReleased} \<Longrightarrow> told x u = told x t"
  by (auto simp: tk_same_def told_def filter_map o_def)


section \<open>Frames are handed over in the order they were written\<close>

lemma stop_effect:
  "\<not> tkStopped t \<Longrightarrow>
   tkStopped (snd (talk_stop opts now t)) \<and> handed_frames (snd (talk_stop opts now t)) = handed_frames t \<and>
   \<not> tkTimer (snd (talk_stop opts now t)) \<and> tkQueue (snd (talk_stop opts now t)) = [] \<and>
   tkOnRoom (snd (talk_stop opts now t)) = None \<and> tkChain (snd (talk_stop opts now t)) = tkChain t \<and>
   tkAwaiting (snd (talk_stop opts now t)) = tkAwaiting t \<and>
   tkAnnounced (snd (talk_stop opts now t)) = tkAnnounced t \<and>
   told x (snd (talk_stop opts now t)) = told x t + (if x = TalkStopped \<or> x = MediaReleased \<or>
     Some x = map_option CallbackGiven (tkOnRoom t) then 1 else 0)"
  by (simp add: talk_stop_def Let_def releaseWriter_def split: option.split prod.split sum.split)

lemma stop_stopped [simp]: "tkStopped t \<Longrightarrow> talk_stop opts now t = (Inr (), t)"
  by (simp add: talk_stop_def)

lemma announce_same [simp]:
  "tkStopped (announceFinishIfDone t) = tkStopped t" "handed_frames (announceFinishIfDone t) = handed_frames t"
  "tkQueue (announceFinishIfDone t) = tkQueue t" "tkEnded (announceFinishIfDone t) = tkEnded t"
  "tkBuffered (announceFinishIfDone t) = tkBuffered t" "tkChain (announceFinishIfDone t) = tkChain t"
  "tkAwaiting (announceFinishIfDone t) = tkAwaiting t" "tkTimer (announceFinishIfDone t) = tkTimer t"
  "tkStarted (announceFinishIfDone t) = tkStarted t" "tkNextDue (announceFinishIfDone t) = tkNextDue t"
  "tkLastWrite (announceFinishIfDone t) = tkLastWrite t" "tkOnRoom (announceFinishIfDone t) = tkOnRoom t"
  by (simp_all add: announceFinishIfDone_def)

lemma releaseWriter_same [simp]:
  "tkStopped (releaseWriter t) = tkStopped t" "handed_frames (releaseWriter t) = handed_frames t"
  "tkQueue (releaseWriter t) = tkQueue t" "tkEnded (releaseWriter t) = tkEnded t"
  "tkBuffered (releaseWriter t) = tkBuffered t" "tkChain (releaseWriter t) = tkChain t"
  "tkAwaiting (releaseWriter t) = tkAwaiting t" "tkTimer (releaseWriter t) = tkTimer t"
  "tkStarted (releaseWriter t) = tkStarted t" "tkNextDue (releaseWriter t) = tkNextDue t"
  "tkLastWrite (releaseWriter t) = tkLastWrite t" "tkAnnounced (releaseWriter t) = tkAnnounced t"
  "x \<in> {TalkFinished, TalkStopped, MediaReleased} \<Longrightarrow> told x (releaseWriter t) = told x t"
  by (auto simp: releaseWriter_def split: option.split)

fun chunk_of :: "'k talk_event \<Rightarrow> buffer list" where
  "chunk_of (TkWrite chunk now) = [chunk]"
| "chunk_of (TkPiped cb chunk now) = [chunk]"
| "chunk_of _ = []"

fun is_end :: "'k talk_event \<Rightarrow> bool" where
  "is_end TkEnd = True"
| "is_end (TkFinal cb) = True"
| "is_end _ = False"

text \<open>The chunks written before the input is declared finished, and the frames they hold.\<close>

definition until_end :: "'k talk_event list \<Rightarrow> buffer list" where
  "until_end es = concat (map chunk_of (takeWhile (\<lambda>e. \<not> is_end e) es))"

definition frames_written :: "buffer list \<Rightarrow> buffer list" where
  "frames_written chunks = filter playable (snd (feed adts_push [] chunks))"

lemma until_end_snoc:
  "until_end (es @ [e]) = (if \<exists>x \<in> set es. is_end x then until_end es else until_end es @ chunk_of e)"
proof (cases "\<exists>x \<in> set es. is_end x")
  case True
  then show ?thesis by (auto simp: until_end_def)
next
  case False
  then have tw: "takeWhile (\<lambda>e. \<not> is_end e) es = es"
    "takeWhile (\<lambda>e. \<not> is_end e) (es @ [e]) = es @ takeWhile (\<lambda>e. \<not> is_end e) [e]"
    by (simp_all add: takeWhile_append2 takeWhile_eq_all_conv)
  have "is_end e \<Longrightarrow> chunk_of e = []" by (cases e) auto
  then show ?thesis using False unfolding until_end_def tw by auto
qed

lemma feed_snoc:
  "feed push s (cs @ [c]) =
     (case feed push s cs of (s1, out1) \<Rightarrow> case push s1 c of (s2, out2) \<Rightarrow> (s2, out1 @ out2))"
  by (induction cs arbitrary: s) (simp_all add: Let_def case_prod_unfold)

lemma frames_snoc:
  "frames_written (cs @ [c]) = frames_written cs @ filter playable (snd (adts_push (fst (feed adts_push [] cs)) c))"
  by (simp add: frames_written_def feed_snoc case_prod_unfold)

lemma frames_prefix: "prefix (frames_written (until_end es)) (frames_written (until_end (es @ [e])))"
proof (cases "\<exists>c. chunk_of e = [c]")
  case True
  then show ?thesis by (auto simp: until_end_snoc frames_snoc)
next
  case False
  then have "chunk_of e = []" by (cases e) auto
  then show ?thesis by (simp add: until_end_snoc)
qed

definition ordered :: "'k talk_event list \<Rightarrow> 'k talkback \<Rightarrow> bool" where
  "ordered es t \<longleftrightarrow>
     \<not> tkAwaiting t \<and> (\<forall>pcm. EncodeJob pcm \<notin> set (tkChain t)) \<and>
     prefix (handed_frames t) (frames_written (until_end es)) \<and>
     (\<not> tkStopped t \<longrightarrow>
        handed_frames t @ tkQueue t = frames_written (until_end es) \<and>
        (tkEnded t \<longleftrightarrow> (\<exists>e \<in> set es. is_end e)) \<and>
        (\<not> tkEnded t \<longrightarrow> tkBuffered t = fst (feed adts_push [] (until_end es))) \<and>
        (0 < told TalkFinished t \<longrightarrow> tkEnded t \<and> tkQueue t = []))"

text \<open>An operation that only moves frames from the queue to the sink, or stops, keeps the order.\<close>

lemma ordered_move:
  assumes "ordered es t" "chunk_of e = []" "\<not> is_end e"
    and "tkAwaiting u = tkAwaiting t" "set (tkChain u) \<subseteq> set (tkChain t)" "tkBuffered u = tkBuffered t"
    and "tkEnded u = tkEnded t" "tkStopped t \<Longrightarrow> handed_frames u = handed_frames t \<and> tkStopped u"
    and "\<not> tkStopped t \<Longrightarrow> \<not> tkStopped u \<Longrightarrow> handed_frames u @ tkQueue u = handed_frames t @ tkQueue t \<and>
      (0 < told TalkFinished u \<longrightarrow> tkEnded u \<and> tkQueue u = [])"
    and "\<not> tkStopped t \<Longrightarrow> tkStopped u \<Longrightarrow> prefix (handed_frames u) (handed_frames t @ tkQueue t)"
  shows "ordered (es @ [e]) u"
proof -
  have fr: "until_end (es @ [e]) = until_end es" using assms(2) by (simp add: until_end_snoc)
  have ch: "\<forall>pcm. EncodeJob pcm \<notin> set (tkChain u)" "\<not> tkAwaiting u"
    using assms(1,4,5) by (auto simp: ordered_def)
  show ?thesis
  proof (cases "tkStopped t")
    case True
    then show ?thesis using assms(1,8) ch unfolding ordered_def fr by auto
  next
    case nt: False
    note t = assms(1) [unfolded ordered_def, THEN conjunct2, THEN conjunct2, THEN conjunct2, rule_format, OF nt]
    show ?thesis
    proof (cases "tkStopped u")
      case True
      then show ?thesis using nt t assms(10) ch unfolding ordered_def fr by auto
    next
      case False
      have "handed_frames u @ tkQueue u = frames_written (until_end es)" using assms(9) [OF nt False] t by simp
      moreover from this have "prefix (handed_frames u) (frames_written (until_end es))" by (metis prefixI)
      ultimately show ?thesis
        using nt t assms(3,6,7,9) False ch unfolding ordered_def fr by auto
    qed
  qed
qed


lemma start_effect:
  "handed_frames (snd (talk_start opts now t)) = handed_frames t" "tkQueue (snd (talk_start opts now t)) = tkQueue t"
  "tkStopped (snd (talk_start opts now t)) = tkStopped t" "tkEnded (snd (talk_start opts now t)) = tkEnded t"
  "tkBuffered (snd (talk_start opts now t)) = tkBuffered t" "tkChain (snd (talk_start opts now t)) = tkChain t"
  "tkAwaiting (snd (talk_start opts now t)) = tkAwaiting t" "told x (snd (talk_start opts now t)) = told x t"
  "tkAnnounced (snd (talk_start opts now t)) = tkAnnounced t" "tkOnRoom (snd (talk_start opts now t)) = tkOnRoom t"
  by (simp_all add: talk_start_def split: prod.split sum.split bool.split)

lemma idleCheck_cases:
  obtains "idleCheck opts now t = t" | "idleCheck opts now t = snd (talk_stop opts now t)"
  unfolding idleCheck_def by metis

text \<open>A write on a talkback that takes it, without an encoder.\<close>

lemma ordered_write:
  assumes "ordered es t" "toEncoder opts = None" "chunk_of e = [chunk]" "\<not> is_end e"
  shows "ordered (es @ [e]) (talk_write opts chunk now t)"
proof -
  have pre: "prefix (frames_written (until_end es)) (frames_written (until_end (es @ [e])))" by (rule frames_prefix)
  show ?thesis
  proof (cases "tkStopped t")
    case True
    then show ?thesis using assms(1) pre by (auto simp: ordered_def talk_write_def)
  next
    case nt: False
    note t = assms(1) [unfolded ordered_def]
    show ?thesis
    proof (cases "tkEnded t")
      case True
      then have "until_end (es @ [e]) = until_end es" using t nt by (simp add: until_end_snoc)
      then show ?thesis using t nt True assms(4) by (simp add: talk_write_def talk_fail_def ordered_def)
    next
      case False
      then have u: "until_end (es @ [e]) = until_end es @ [chunk]"
        using t nt assms(3) by (simp add: until_end_snoc)
      let ?t1 = "t\<lparr>tkLastWrite := now\<rparr>"
      note p = push_frames [of ?t1 chunk]
      have same: "tkStopped (push_and_enqueue chunk ?t1) = tkStopped t"
        "tkEnded (push_and_enqueue chunk ?t1) = tkEnded t" "handed_frames (push_and_enqueue chunk ?t1) = handed_frames t"
        "told TalkFinished (push_and_enqueue chunk ?t1) = told TalkFinished t"
        using p told_same [of ?t1 "push_and_enqueue chunk ?t1" TalkFinished] by (simp_all add: tk_same_def)
      have w: "talk_write opts chunk now t = push_and_enqueue chunk ?t1"
        using nt False assms(2) by (simp add: talk_write_def)
      have b: "tkBuffered t = fst (feed adts_push [] (until_end es))" using t nt False by simp
      have f: "handed_frames t @ tkQueue t = frames_written (until_end es)" using t nt by simp
      have "handed_frames t @ tkQueue (push_and_enqueue chunk ?t1) = frames_written (until_end es @ [chunk])"
        using p b f by (simp add: frames_snoc)
      moreover from this have "prefix (handed_frames t) (frames_written (until_end es @ [chunk]))" by (metis prefixI)
      moreover have "tkBuffered (push_and_enqueue chunk ?t1) = fst (feed adts_push [] (until_end es @ [chunk]))"
        using p b by (simp add: feed_snoc case_prod_unfold)
      moreover have "told TalkFinished t = 0" using t nt False by simp
      ultimately show ?thesis
        using t nt False assms(4) p unfolding w by (simp add: ordered_def u same)
    qed
  qed
qed


lemma ordered_piped:
  assumes "ordered es t" "toEncoder opts = None"
  shows "ordered (es @ [TkPiped cb chunk now]) (piped_write opts cb chunk now t)"
proof -
  have o: "ordered (es @ [TkPiped cb chunk now]) (talk_write opts chunk now t)"
    by (rule ordered_write [OF assms]) simp_all
  let ?u = "talk_write opts chunk now t"
  have "ordered (es @ [TkPiped cb chunk now]) (tk_emit (CallbackGiven cb) ?u)"
    "ordered (es @ [TkPiped cb chunk now]) (?u\<lparr>tkOnRoom := Some cb\<rparr>)"
    using o unfolding ordered_def by auto
  then show ?thesis by (simp add: piped_write_def Let_def)
qed

lemma ordered_end:
  assumes "ordered es t" "is_end e"
  shows "ordered (es @ [e]) (talk_end t)"
proof -
  have c: "chunk_of e = []" using assms(2) by (cases e) auto
  have u: "until_end (es @ [e]) = until_end es" using c by (simp add: until_end_snoc)
  show ?thesis using assms unfolding ordered_def u by (auto simp: talk_end_def)
qed

lemma ordered_tick:
  assumes "ordered es t"
  shows "ordered (es @ [TkTick now]) (talk_tick opts now t)"
proof (cases "tkStopped t")
  case True
  then show ?thesis by (intro ordered_move [OF assms]) (simp_all add: talk_tick_def)
next
  case nt: False
  note t = assms [unfolded ordered_def]
  show ?thesis
  proof (cases "tkQueue t = []")
    case True
    let ?t1 = "t\<lparr>tkNextDue := now + int AAC_FRAME_MS\<rparr>"
    have tick: "talk_tick opts now t = announceFinishIfDone (idleCheck opts now ?t1)"
      using nt True by (simp add: talk_tick_def)
    show ?thesis
    proof (cases rule: idleCheck_cases [of opts now ?t1])
      case 1
      then show ?thesis
        using nt True t unfolding tick
        by (intro ordered_move [OF assms]) (auto simp: announceFinishIfDone_def)
    next
      case 2
      have "\<not> tkStopped ?t1" using nt by simp
      from stop_effect [OF this, of opts now TalkFinished] 2 show ?thesis
        using nt True t unfolding tick
        by (intro ordered_move [OF assms]) (simp_all add: talk_stop_def Let_def split: prod.split option.split sum.split)
    qed
  next
    case q: False
    obtain ok t1 where p: "pace opts now (tkQueue t) t = (ok, t1)" by fastforce
    have s: "tkStopped t1 = tkStopped t" "tkEnded t1 = tkEnded t" "tkBuffered t1 = tkBuffered t"
      "tkChain t1 = tkChain t" "tkAwaiting t1 = tkAwaiting t" "told TalkFinished t1 = told TalkFinished t"
      "handed_frames t1 @ tkQueue t1 = handed_frames t @ tkQueue t"
      using pace_same [of opts now "tkQueue t" t] pace_told [of TalkFinished opts now "tkQueue t" t]
        pace_queue [of t "tkQueue t" opts now] p by simp_all
    have z: "told TalkFinished t = 0" using t nt q by auto
    show ?thesis
    proof (cases ok)
      case False
      then have "talk_tick opts now t = t1" using nt q p by (simp add: talk_tick_def)
      then show ?thesis using s z nt by (intro ordered_move [OF assms]) simp_all
    next
      case True
      define t2 where "t2 = (if length (tkQueue t1) < toHighWater opts then releaseWriter t1 else t1)"
      have "talk_tick opts now t = announceFinishIfDone t2" using nt q p True by (simp add: talk_tick_def t2_def)
      moreover have "tkStopped t2 = tkStopped t1" "tkEnded t2 = tkEnded t1" "tkBuffered t2 = tkBuffered t1"
        "tkChain t2 = tkChain t1" "tkAwaiting t2 = tkAwaiting t1" "told TalkFinished t2 = told TalkFinished t1"
        "handed_frames t2 = handed_frames t1" "tkQueue t2 = tkQueue t1" by (simp_all add: t2_def)
      moreover have "0 < told TalkFinished (announceFinishIfDone t2) \<longrightarrow> tkEnded t2 \<and> tkQueue t2 = []"
        using s(6) z \<open>told TalkFinished t2 = told TalkFinished t1\<close> by (simp add: announceFinishIfDone_def)
      ultimately show ?thesis using s nt by (intro ordered_move [OF assms]) simp_all
    qed
  qed
qed

lemma ordered_step:
  assumes "ordered es t" "toEncoder opts = None"
  shows "ordered (es @ [e]) (talk_step opts t e)"
proof (cases e)
  case (TkStart now)
  have "ordered (es @ [TkStart now]) (snd (talk_start opts now t))"
    using assms(1) by (intro ordered_move [OF assms(1)]) (auto simp: start_effect ordered_def)
  then show ?thesis by (simp add: TkStart)
next
  case (TkStop now)
  have "ordered (es @ [TkStop now]) (snd (talk_stop opts now t))"
  proof (cases "tkStopped t")
    case True
    then show ?thesis by (intro ordered_move [OF assms(1)]) simp_all
  next
    case False
    from stop_effect [OF this, of opts now TalkFinished] show ?thesis
      using False by (intro ordered_move [OF assms(1)])
        (simp_all add: talk_stop_def Let_def split: prod.split option.split sum.split)
  qed
  then show ?thesis by (simp add: TkStop)
next
  case (TkTick now)
  have "ordered (es @ [TkTick now]) t"
    using assms(1) by (intro ordered_move [OF assms(1)]) (auto simp: ordered_def)
  then show ?thesis using ordered_tick [OF assms(1)] by (simp add: TkTick)
next
  case (TkGap q)
  have "ordered (es @ [TkGap q]) t" "ordered (es @ [TkGap q]) (talk_fail (NeverAcknowledged q) t)"
    using assms(1) by (intro ordered_move [OF assms(1)]; auto simp: ordered_def talk_fail_def)+
  then show ?thesis by (simp add: TkGap)
next
  case (TkSink k)
  have "ordered (es @ [TkSink k]) (t\<lparr>tkSink := k\<rparr>)"
    using assms(1) by (intro ordered_move [OF assms(1)]) (auto simp: ordered_def)
  then show ?thesis by (simp add: TkSink)
next
  case (TkEncoder r)
  have "ordered (es @ [TkEncoder r]) t"
    using assms(1) by (intro ordered_move [OF assms(1)]) (auto simp: ordered_def)
  then show ?thesis using assms(1) by (simp add: TkEncoder encoder_answers_def ordered_def)
next
  case TkChain
  have n: "tkChain t \<noteq> EncodeJob pcm # rest" for pcm rest using assms(1) by (auto simp: ordered_def)
  have "ordered (es @ [TkChain]) (chain_turn opts t)"
    using assms(1) n by (intro ordered_move [OF assms(1)])
      (auto simp: ordered_def chain_turn_def assms(2) announceFinishIfDone_def
        split: list.splits talk_job.splits)
  then show ?thesis by (simp add: TkChain)
next
  case TkEnd
  then show ?thesis using ordered_end [OF assms(1), of e] by simp
next
  case (TkFinal cb)
  have "ordered (es @ [e]) (talk_end t)" using ordered_end [OF assms(1), of e] TkFinal by simp
  then show ?thesis by (simp add: TkFinal piped_final_def ordered_def)
next
  case (TkWrite chunk now)
  then show ?thesis using ordered_write [OF assms, of "TkWrite chunk now"] by simp
next
  case (TkPiped cb chunk now)
  then show ?thesis using ordered_piped [OF assms] by simp
qed

lemma ordered_run: "toEncoder opts = None \<Longrightarrow> ordered es (run_talk opts k es)"
proof (induction es rule: rev_induct)
  case Nil
  show ?case by (simp add: run_talk_def ordered_def new_talkback_def handed_frames_def frames_written_def until_end_def told_def)
next
  case (snoc e es)
  then show ?case using ordered_step by (simp add: run_talk_def)
qed

text \<open>
  C24. Without an encoder, under any order of writes in any chunks, ticks, throws of the sink and
  everything else, what is handed to the sink is a front of the playable frames of the bytes written
  before the end, in order; until the talkback is stopped the rest is queued, and when the finish is
  announced nothing is.
\<close>

theorem talkback_in_order:
  assumes "toEncoder opts = None"
  shows "let t = run_talk opts k es; frames = filter playable (snd (adts_push [] (concat (until_end es))))
    in prefix (handed_frames t) frames \<and>
      (\<not> tkStopped t \<longrightarrow> handed_frames t @ tkQueue t = frames \<and>
        (TalkFinished \<in> set (tkOut t) \<longrightarrow> handed_frames t = frames))"
proof -
  have f: "frames_written cs = filter playable (snd (adts_push [] (concat cs)))" for cs
    using adts.feed_concat [of "[]" cs] by (simp add: frames_written_def scan_nil)
  have told: "TalkFinished \<in> set (tkOut t) \<Longrightarrow> 0 < told TalkFinished t" for t :: "'a talkback"
    by (auto simp: told_def filter_empty_conv)
  show ?thesis
    using ordered_run [OF assms, of es k] told [of "run_talk opts k es"]
    unfolding ordered_def Let_def f by auto
qed


section \<open>Frames are handed over at their own rate\<close>

fun time_of :: "'k talk_event \<Rightarrow> int list" where
  "time_of (TkStart now) = [now]"
| "time_of (TkWrite chunk now) = [now]"
| "time_of (TkPiped cb chunk now) = [now]"
| "time_of (TkTick now) = [now]"
| "time_of (TkStop now) = [now]"
| "time_of _ = []"

definition talk_times :: "'k talk_event list \<Rightarrow> int list" where
  "talk_times es = concat (map time_of es)"

text \<open>The cursor of the pacer after a start at \<open>t0\<close>, by the clock.\<close>

definition paced :: "int \<Rightarrow> int \<Rightarrow> 'k talkback \<Rightarrow> bool" where
  "paced t0 clock t \<longleftrightarrow> t0 \<le> clock \<and>
     (if tkStarted t
      then t0 + 64 * int (length (handed_frames t)) + 64 \<le> tkNextDue t \<and> tkNextDue t \<le> clock + 64
      else handed_frames t = [] \<and> \<not> tkTimer t)"

lemma same_cursor:
  "tk_same t u \<Longrightarrow> tkStarted u = tkStarted t \<and> handed_frames u = handed_frames t \<and> tkTimer u = tkTimer t \<and> tkNextDue u = tkNextDue t"
  by (simp add: tk_same_def)

lemma push_same: "tk_same t (fold push_and_enqueue fs t)"
proof (induction fs arbitrary: t)
  case (Cons f fs)
  show ?case using tk_same_trans [OF conjunct1 [OF push_frames [of t f]] Cons.IH] by simp
qed simp

lemma step_cursor:
  assumes "\<forall>now. e \<noteq> TkTick now" "\<forall>now. e \<noteq> TkStart now"
  shows "tkStarted (talk_step opts t e) = tkStarted t \<and> handed_frames (talk_step opts t e) = handed_frames t \<and>
    (tkTimer (talk_step opts t e) \<longrightarrow> tkTimer t) \<and> tkNextDue (talk_step opts t e) = tkNextDue t"
proof -
  have w: "tkStarted (talk_write opts c now t) = tkStarted t \<and> handed_frames (talk_write opts c now t) = handed_frames t \<and>
    tkTimer (talk_write opts c now t) = tkTimer t \<and> tkNextDue (talk_write opts c now t) = tkNextDue t" for c now
    using same_cursor [OF conjunct1 [OF push_frames [of "t\<lparr>tkLastWrite := now\<rparr>" c]]]
    by (simp add: talk_write_def talk_fail_def Let_def)
  show ?thesis
  proof (cases e)
    case (TkStop now)
    then show ?thesis
      by (cases "tkStopped t")
        (simp_all add: talk_stop_def releaseWriter_def Let_def split: option.split prod.split sum.split)
  next
    case (TkEncoder r)
    have a: "tk_same (t\<lparr>tkAwaiting := False, tkChain := c\<rparr>) (fold push_and_enqueue fs (t\<lparr>tkAwaiting := False, tkChain := c\<rparr>))"
      "tk_same (t\<lparr>tkAwaiting := False, tkChain := c\<rparr>) (talk_enqueue fs (t\<lparr>tkAwaiting := False, tkChain := c\<rparr>))" for c fs
      by (simp_all add: push_same enqueue_frames)
    show ?thesis
      using a [THEN same_cursor]
      by (auto simp: TkEncoder encoder_answers_def Let_def talk_fail_def split: sum.split list.split talk_job.split)
  qed (use assms w in \<open>auto simp: piped_write_def piped_final_def Let_def talk_end_def talk_fail_def chain_turn_def
      announceFinishIfDone_def split: list.split talk_job.split option.split\<close>)
qed


lemma stop_cursor:
  "tkStarted (snd (talk_stop opts now t)) = tkStarted t \<and> handed_frames (snd (talk_stop opts now t)) = handed_frames t \<and>
   (tkTimer (snd (talk_stop opts now t)) \<longrightarrow> tkTimer t) \<and> tkNextDue (snd (talk_stop opts now t)) = tkNextDue t"
  using step_cursor [of "TkStop now" opts t] by simp

lemma paced_mono: "paced t0 clock t \<Longrightarrow> clock \<le> now \<Longrightarrow> paced t0 now t"
  by (auto simp: paced_def)

lemma paced_same:
  "paced t0 clock t \<Longrightarrow> tkStarted u = tkStarted t \<and> handed_frames u = handed_frames t \<and> (tkTimer u \<longrightarrow> tkTimer t) \<and> tkNextDue u = tkNextDue t \<Longrightarrow>
   paced t0 clock u"
  by (auto simp: paced_def)

lemma paced_tick:
  assumes p: "paced t0 clock t" and le: "clock \<le> now" and timer: "tkTimer t"
  shows "paced t0 now (talk_tick opts now t)"
proof (cases "tkStopped t")
  case True
  then show ?thesis using paced_mono [OF p le] by (simp add: talk_tick_def)
next
  case nt: False
  have st: "tkStarted t" using p timer by (simp add: paced_def split: if_splits)
  show ?thesis
  proof (cases "tkQueue t = []")
    case True
    let ?t1 = "t\<lparr>tkNextDue := now + int AAC_FRAME_MS\<rparr>"
    have "paced t0 now ?t1" using p le st by (auto simp: paced_def frame_ms)
    then have "paced t0 now (idleCheck opts now ?t1)"
      by (cases rule: idleCheck_cases [of opts now ?t1]) (simp_all add: paced_same [OF _ stop_cursor])
    then have "paced t0 now (announceFinishIfDone (idleCheck opts now ?t1))"
      by (rule paced_same) simp
    then show ?thesis using nt True by (simp add: talk_tick_def)
  next
    case False
    obtain ok t1 where t1: "pace opts now (tkQueue t) t = (ok, t1)" by fastforce
    have "paced t0 now t1"
      using p le st pace_due [of opts now "tkQueue t" t] pace_cursor [of opts now "tkQueue t" t]
        pace_same [of opts now "tkQueue t" t] t1 by (auto simp: paced_def)
    then have "paced t0 now (announceFinishIfDone t1)" "paced t0 now (announceFinishIfDone (releaseWriter t1))"
      by - ((erule paced_same, simp add: releaseWriter_def split: option.split)+)
    then show ?thesis using nt False t1 \<open>paced t0 now t1\<close> by (simp add: talk_tick_def split: bool.split)
  qed
qed

lemma paced_step:
  assumes p: "paced t0 clock t" and le: "\<forall>now \<in> set (time_of e). clock \<le> now"
  shows "paced t0 (last (clock # time_of e)) (talk_step opts t e)"
proof -
  have m: "paced t0 (last (clock # time_of e)) t" "clock \<le> last (clock # time_of e)"
    using p le by (cases e; simp add: paced_mono)+
  consider (tick) now where "e = TkTick now" | (start) now where "e = TkStart now"
    | (other) "\<forall>now. e \<noteq> TkTick now" "\<forall>now. e \<noteq> TkStart now"
    by blast
  then show ?thesis
  proof cases
    case (tick now)
    then show ?thesis using paced_tick [OF p] le m by simp
  next
    case (start now)
    then show ?thesis using m le p
      by (auto simp: talk_start_def paced_def frame_ms split: prod.split sum.split bool.split if_splits)
  next
    case other
    then show ?thesis by (rule paced_same [OF m(1) step_cursor])
  qed
qed

lemma paced_run:
  "paced t0 clock t \<Longrightarrow> sorted (clock # talk_times es) \<Longrightarrow>
   paced t0 (last (clock # talk_times es)) (foldl (talk_step opts) t es)"
proof (induction es arbitrary: clock t)
  case (Cons e es)
  have ts: "talk_times (e # es) = time_of e @ talk_times es" by (simp add: talk_times_def)
  have le: "\<forall>now \<in> set (time_of e). clock \<le> now" using Cons.prems(2) by (simp add: ts)
  have l: "last (clock # talk_times (e # es)) = last (last (clock # time_of e) # talk_times es)"
    unfolding ts by (cases e) simp_all
  have "sorted (last (clock # time_of e) # talk_times es)" using Cons.prems(2) unfolding ts by (cases e) simp_all
  then show ?case using Cons.IH [OF paced_step [OF Cons.prems(1) le]] l by simp
qed (simp add: talk_times_def)


section \<open>What the pacer relies on the sink for\<close>

text \<open>
  In a state a sink keeps, an admitted frame is sent without a throw. \<open>kept\<close> is preserved by what the
  talkback calls.
\<close>

locale audio_sink =
  fixes sink :: "'k talk_sink" and kept :: "'k \<Rightarrow> bool"
  assumes kept_start: "kept k \<Longrightarrow> kept (snd (snkStart sink ch attached now k))"
    and kept_stop: "kept k \<Longrightarrow> kept (snd (snkStop sink ch attached now k))"
    and kept_send: "kept k \<Longrightarrow> kept (snd (snkSend sink ch f now k))"
    and send_total: "kept k \<Longrightarrow> length f \<le> MAX_AUDIO_FRAME_BYTES \<Longrightarrow> fst (snkSend sink ch f now k) = Inr ()"
begin

text \<open>How many frames a tick owes: those due by the cursor.\<close>

definition owed :: "int \<Rightarrow> 'k talkback \<Rightarrow> nat" where
  "owed now t = (if now < tkNextDue t then 0 else nat ((now - tkNextDue t) div 64) + 1)"

lemma owed_later:
  "\<not> now < tkNextDue t \<Longrightarrow> tkNextDue u = tkNextDue t + 64 \<Longrightarrow> owed now t = Suc (owed now u)"
proof -
  assume a: "\<not> now < tkNextDue t" "tkNextDue u = tkNextDue t + 64"
  have d: "(now - tkNextDue t) div 64 = (now - tkNextDue u) div 64 + 1"
    using a(2) div_add_self2 [of 64 "now - tkNextDue u"] by (simp add: algebra_simps)
  show ?thesis
  proof (cases "now < tkNextDue u")
    case True
    then have "(now - tkNextDue t) div 64 = 0" using a by (simp add: div_pos_pos_trivial)
    then show ?thesis using a True by (simp add: owed_def)
  next
    case False
    then have "0 \<le> (now - tkNextDue u) div 64" by (simp add: pos_imp_zdiv_nonneg_iff)
    then show ?thesis using a False d by (simp add: owed_def nat_add_distrib)
  qed
qed

lemma pace_hands_owed:
  "toSink opts = sink \<Longrightarrow> kept (tkSink t) \<Longrightarrow> tkQueue t = q \<Longrightarrow> list_all playable q \<Longrightarrow>
   fst (pace opts now q t) \<and> handed_frames (snd (pace opts now q t)) = handed_frames t @ take (owed now t) q"
proof (induction q arbitrary: t)
  case (Cons f q)
  show ?case
  proof (cases "now < tkNextDue t")
    case True
    then show ?thesis by (simp add: owed_def)
  next
    case False
    let ?t1 = "tk_emit (FrameHanded f) (t\<lparr>tkQueue := q, tkNextDue := tkNextDue t + int AAC_FRAME_MS\<rparr>)"
    obtain r k where k: "snkSend sink (toChannel opts) f now (tkSink t) = (r, k)" by fastforce
    have "length f \<le> MAX_AUDIO_FRAME_BYTES" using Cons.prems(4) by (auto simp: playable_def split: option.splits)
    then have r: "r = Inr ()" "kept k"
      using send_total [OF Cons.prems(2), of f "toChannel opts" now] kept_send [OF Cons.prems(2), of "toChannel opts" f now] k
      by simp_all
    have p: "pace opts now (f # q) t = pace opts now q (?t1\<lparr>tkSink := k\<rparr>)"
      using False k r Cons.prems(1) by simp
    have "fst (pace opts now q (?t1\<lparr>tkSink := k\<rparr>)) \<and>
      handed_frames (snd (pace opts now q (?t1\<lparr>tkSink := k\<rparr>))) = handed_frames (?t1\<lparr>tkSink := k\<rparr>) @ take (owed now (?t1\<lparr>tkSink := k\<rparr>)) q"
      using Cons.prems r by (intro Cons.IH) simp_all
    moreover have "owed now t = Suc (owed now (?t1\<lparr>tkSink := k\<rparr>))"
      using False by (rule owed_later) (simp add: frame_ms)
    ultimately show ?thesis unfolding p by simp
  qed
qed simp

lemma tick_hands_owed:
  assumes "toSink opts = sink" "kept (tkSink t)" "list_all playable (tkQueue t)" "\<not> tkStopped t"
  shows "handed_frames (talk_tick opts now t) = handed_frames t @ take (owed now t) (tkQueue t)"
proof (cases "tkQueue t = []")
  case True
  then show ?thesis
    using assms(4) stop_cursor [of opts now "t\<lparr>tkNextDue := now + int AAC_FRAME_MS\<rparr>"]
    by (simp add: talk_tick_def idleCheck_def)
next
  case False
  then show ?thesis
    using pace_hands_owed [OF assms(1,2) refl assms(3), of now] assms(4)
    by (auto simp: talk_tick_def split: prod.split bool.split)
qed

end

text \<open>The session as a sink.\<close>

definition session_sink :: "session_env \<Rightarrow> session talk_sink" where
  "session_sink env = \<lparr>snkStart = startTalkback env, snkStop = stopTalkback env, snkSend = sendAudioFrame\<rparr>"

definition audio_seq_ok :: "session \<Rightarrow> bool" where
  "audio_seq_ok s \<longleftrightarrow> 0 \<le> sessVideoSeq s \<and> sessVideoSeq s < 65536"

definition seq_kept :: "session \<Rightarrow> session \<Rightarrow> bool" where
  "seq_kept s t \<longleftrightarrow> (audio_seq_ok s \<longrightarrow> audio_seq_ok t)"

interpretation seq_keeping: act_relation seq_kept
  by unfold_locales (auto simp: seq_kept_def)

lemma seq_modify: "(\<And>s. sessVideoSeq (f s) = sessVideoSeq s) \<Longrightarrow> seq_keeping.keeps (act_modify f)"
  by (rule seq_keeping.keeps_modify) (simp add: seq_kept_def audio_seq_ok_def)

lemma seq_send: "seq_keeping.keeps (s_send a ty p)"
  unfolding s_send_def emit_def by (intro seq_keeping.keeps_intros seq_modify) simp

lemma seq_raw2: "seq_keeping.keeps (sendRawLevel2Bytes env p ch oc sc)"
proof -
  have e: "seq_keeping.keeps (encryptLevel2 env q)" for q
    by (auto simp: seq_keeping.keeps_def encryptLevel2_def seq_kept_def audio_seq_ok_def Let_def
        split: option.split prod.split)
  show ?thesis
    unfolding sendRawLevel2Bytes_def put_command_def next_seq_def
    by (intro seq_keeping.keeps_intros seq_send seq_modify e) simp_all
qed

lemma seq_talkback: "seq_keeping.keeps (sendTalkbackControl env ch attached start now)"
  unfolding sendTalkbackControl_def Let_def sendRawLevel2_def sendStringPayloadCommand_def put_command_def next_seq_def
  by (intro seq_keeping.keeps_intros seq_raw2 seq_send seq_modify) simp_all

lemma seq_audio: "seq_keeping.keeps (sendAudioFrame ch f now)"
  unfolding sendAudioFrame_def Let_def
  by (intro seq_keeping.keeps_intros seq_send seq_keeping.keeps_modify) (simp add: seq_kept_def audio_seq_ok_def)

lemma send_frame_total:
  assumes "audio_seq_ok s" "length f \<le> MAX_AUDIO_FRAME_BYTES"
  shows "fst (sendAudioFrame ch f now s) = Inr ()"
proof (cases "sessAddress s")
  case (Some a)
  have m: "length MAGIC_WORD = 4" "length (data_type_header DT_VIDEO) = 2"
    by (simp_all add: MAGIC_WORD_def bytes_of_string_def)
  have "\<exists>head. buildCommandHeader (sessVideoSeq s) CMD_AUDIO_FRAME (data_type_header DT_VIDEO) = Inr head \<and> length head = 10"
    using assms(1) m by (simp add: buildCommandHeader_def write_u16be_def write_u16le_def audio_seq_ok_def
        CMD_AUDIO_FRAME_def u16be_def u16le_def)
  then obtain head where head: "buildCommandHeader (sessVideoSeq s) CMD_AUDIO_FRAME (data_type_header DT_VIDEO) = Inr head"
    "length head = 10" by blast
  let ?d = "(u32le (int (length f)) @ u32le ch @ replicate 8 0) @ f"
  have l: "length ?d = 16 + length f" by (simp add: u32le_def)
  have "\<exists>body. buildRawCommandPayload ?d ch 0 (0x01, 0x00) 0 = Inr body \<and> length body = 26 + length f"
    using assms(2) by (simp add: buildRawCommandPayload_def write_u16le_def l MAX_AUDIO_FRAME_BYTES_def u16le_def u32le_def)
  then obtain body where body: "buildRawCommandPayload ?d ch 0 (0x01, 0x00) 0 = Inr body" "length body = 26 + length f"
    by blast
  have sent: "fst (s_send a REQ_DATA (head @ body) t) = Inr ()" for t
    using assms(2) head(2) body(2)
    by (simp add: s_send_def frameMessage_def write_u16be_def MAX_AUDIO_FRAME_BYTES_def emit_def act_bind_def act_lift_def act_modify_def)
  show ?thesis
    using sent by (simp add: sendAudioFrame_def Some head [simplified] body [simplified] Let_def
        act_bind_def act_lift_def act_modify_def)
qed (simp add: sendAudioFrame_def)

interpretation session_audio: audio_sink "session_sink env" audio_seq_ok
  for env
proof
  fix k :: session and ch attached now f
  show "audio_seq_ok k \<Longrightarrow> audio_seq_ok (snd (snkStart (session_sink env) ch attached now k))"
    "audio_seq_ok k \<Longrightarrow> audio_seq_ok (snd (snkStop (session_sink env) ch attached now k))"
    using seq_keeping.keepsD [OF seq_talkback, of k env ch attached _ now]
    by (simp_all add: seq_kept_def session_sink_def startTalkback_def stopTalkback_def)
  show "audio_seq_ok k \<Longrightarrow> audio_seq_ok (snd (snkSend (session_sink env) ch f now k))"
    using seq_keeping.keepsD [OF seq_audio, of k ch f now] by (simp add: seq_kept_def session_sink_def)
  show "audio_seq_ok k \<Longrightarrow> length f \<le> MAX_AUDIO_FRAME_BYTES \<Longrightarrow> fst (snkSend (session_sink env) ch f now k) = Inr ()"
    by (simp add: session_sink_def send_frame_total)
qed


section \<open>Every frame handed over is one the device plays\<close>

definition all_playable :: "'k talkback \<Rightarrow> bool" where
  "all_playable t \<longleftrightarrow> list_all playable (handed_frames t) \<and> list_all playable (tkQueue t)"

lemma all_playable_same:
  "all_playable t \<Longrightarrow> handed_frames u = handed_frames t \<Longrightarrow> tkQueue u = tkQueue t \<or> tkQueue u = [] \<Longrightarrow> all_playable u"
  by (auto simp: all_playable_def)

lemma all_playable_enqueue: "all_playable t \<Longrightarrow> all_playable (talk_enqueue fs t)"
  using enqueue_frames [of t fs] by (auto simp: all_playable_def tk_same_def list_all_iff)

lemma all_playable_push: "all_playable t \<Longrightarrow> all_playable (push_and_enqueue c t)"
  using push_frames [of t c] by (auto simp: all_playable_def tk_same_def list_all_iff)

lemma all_playable_pushes: "all_playable t \<Longrightarrow> all_playable (fold push_and_enqueue fs t)"
  by (induction fs arbitrary: t) (auto intro: all_playable_push)

lemma all_playable_tick:
  assumes "all_playable t"
  shows "all_playable (talk_tick opts now t)"
proof -
  have p: "all_playable (snd (pace opts now (tkQueue t) t))"
    using assms pace_queue [of t "tkQueue t" opts now] by (metis all_playable_def list_all_append)
  have s: "all_playable (idleCheck opts now u)" if "all_playable u" for u :: "'a talkback"
    using that stop_cursor [of opts now u] stop_effect [of u opts now] stop_stopped [of u opts now]
    by (cases "tkStopped u"; simp add: idleCheck_def all_playable_def)
  show ?thesis
    using assms p s [of "t\<lparr>tkNextDue := now + int AAC_FRAME_MS\<rparr>"]
    by (auto simp: talk_tick_def all_playable_def split: prod.split bool.split)
qed

interpretation talk_playable: stepper "talk_step opts" all_playable
  for opts :: "'k talk_opts"
proof
  fix t :: "'k talkback" and e :: "'k talk_event"
  assume a: "all_playable t"
  have w: "all_playable (talk_write opts c now t)" for c now
    using a all_playable_push [of "t\<lparr>tkLastWrite := now\<rparr>" c]
    by (simp add: talk_write_def talk_fail_def all_playable_def Let_def)
  show "all_playable (talk_step opts t e)"
  proof (cases e)
    case (TkStart now)
    then show ?thesis using a by (simp add: all_playable_def start_effect)
  next
    case (TkStop now)
    then show ?thesis using a stop_cursor [of opts now t] stop_effect [of t opts now]
      by (cases "tkStopped t") (simp_all add: all_playable_def)
  next
    case (TkTick now)
    then show ?thesis using a by (simp add: all_playable_tick)
  next
    case (TkEncoder r)
    have c: "all_playable (t\<lparr>tkAwaiting := False, tkChain := c\<rparr>)" for c using a by (simp add: all_playable_def)
    have "all_playable (talk_fail e (t\<lparr>tkAwaiting := False, tkChain := c\<rparr>))" for e c
      using c by (simp add: all_playable_def talk_fail_def)
    then show ?thesis
      using a all_playable_enqueue [OF c] all_playable_pushes [OF c]
      by (auto simp: TkEncoder encoder_answers_def Let_def split: sum.split list.split talk_job.split)
  next
    case TkChain
    then show ?thesis using a
      by (auto simp: all_playable_def chain_turn_def split: list.split talk_job.split)
  next
    case (TkPiped cb c now)
    then show ?thesis using w by (simp add: piped_write_def Let_def all_playable_def)
  next
    case (TkWrite c now)
    then show ?thesis using w by simp
  qed (use a in \<open>simp_all add: all_playable_def talk_end_def piped_final_def talk_fail_def\<close>)
qed

lemma run_playable: "all_playable (run_talk opts k es)"
  unfolding run_talk_def by (rule talk_playable.inv_run) (simp add: all_playable_def new_talkback_def handed_frames_def)


section \<open>The rate on a session\<close>

context audio_sink
begin

lemma kept_stopped: "toSink opts = sink \<Longrightarrow> kept (tkSink t) \<Longrightarrow> kept (tkSink (snd (talk_stop opts now t)))"
  using kept_stop [of "tkSink t" "toChannel opts" "toAttached opts" now]
  by (auto simp: talk_stop_def Let_def releaseWriter_def split: option.split prod.split sum.split)

lemma kept_pace: "toSink opts = sink \<Longrightarrow> kept (tkSink t) \<Longrightarrow> kept (tkSink (snd (pace opts now q t)))"
proof (induction opts now q t rule: pace.induct)
  case (2 opts now f q t)
  obtain r k where k: "snkSend sink (toChannel opts) f now (tkSink t) = (r, k)" by fastforce
  have "kept k" using kept_send [OF 2(3), of "toChannel opts" f now] k by simp
  then show ?case using 2 k by (cases r) (simp_all add: Let_def talk_fail_def)
qed simp

lemma kept_step:
  assumes "toSink opts = sink" "kept (tkSink t)" "\<forall>k. e = TkSink k \<longrightarrow> kept k"
  shows "kept (tkSink (talk_step opts t e))"
proof -
  have ann: "tkSink (announceFinishIfDone u) = tkSink u" "tkSink (releaseWriter u) = tkSink u" for u :: "'k talkback"
    by (simp_all add: announceFinishIfDone_def releaseWriter_def split: option.split)
  have eq: "tkSink (talk_enqueue fs u) = tkSink u" for fs and u :: "'k talkback"
    using enqueue_frames [of u fs] by (simp add: tk_same_def)
  have pu: "tkSink (push_and_enqueue c u) = tkSink u" for c and u :: "'k talkback"
    using push_frames [of u c] by (simp add: tk_same_def)
  have pus: "tkSink (fold push_and_enqueue cs u) = tkSink u" for cs and u :: "'k talkback"
    by (induction cs arbitrary: u) (simp_all add: pu)
  have w: "tkSink (talk_write opts c now t) = tkSink t" for c now
    by (simp add: talk_write_def talk_fail_def Let_def pu)
  show ?thesis
  proof (cases e)
    case (TkStart now)
    then show ?thesis using assms kept_start [of "tkSink t" "toChannel opts" "toAttached opts" now]
      by (auto simp: talk_start_def split: prod.split sum.split bool.split)
  next
    case (TkStop now)
    then show ?thesis using assms by (simp add: kept_stopped)
  next
    case (TkTick now)
    have i: "kept (tkSink (idleCheck opts now u))" if "kept (tkSink u)" for u
      using that assms(1) by (simp add: idleCheck_def kept_stopped)
    show ?thesis
      using assms kept_pace [of opts t now "tkQueue t"] i [of "t\<lparr>tkNextDue := now + int AAC_FRAME_MS\<rparr>"]
      by (auto simp: TkTick talk_tick_def ann split: prod.split bool.split)
  next
    case (TkEncoder r)
    then show ?thesis using assms
      by (auto simp: encoder_answers_def Let_def talk_fail_def eq pus split: sum.split list.split talk_job.split)
  next
    case TkChain
    then show ?thesis using assms
      by (auto simp: chain_turn_def ann split: list.split talk_job.split)
  qed (use assms w in \<open>simp_all add: piped_write_def piped_final_def talk_end_def talk_fail_def Let_def\<close>)
qed

lemma kept_run:
  "toSink opts = sink \<Longrightarrow> kept k \<Longrightarrow> \<forall>k. TkSink k \<in> set es \<longrightarrow> kept k \<Longrightarrow> kept (tkSink (run_talk opts k es))"
proof (induction es rule: rev_induct)
  case Nil
  then show ?case by (simp add: run_talk_def new_talkback_def)
next
  case (snoc e es)
  then have "kept (tkSink (run_talk opts k es))" by simp
  then have "kept (tkSink (talk_step opts (run_talk opts k es) e))"
    using snoc.prems by (intro kept_step) auto
  then show ?case by (simp add: run_talk_def)
qed

end

text \<open>Nothing is handed over before the first start.\<close>

lemma idle_before_start:
  "\<forall>now. TkStart now \<notin> set es \<Longrightarrow>
   \<not> tkStarted (run_talk opts k es) \<and> handed_frames (run_talk opts k es) = [] \<and> \<not> tkTimer (run_talk opts k es)"
proof (induction es rule: rev_induct)
  case Nil
  show ?case by (simp add: run_talk_def new_talkback_def handed_frames_def)
next
  case (snoc e es)
  let ?t = "run_talk opts k es"
  have i: "\<not> tkStarted ?t \<and> handed_frames ?t = [] \<and> \<not> tkTimer ?t" using snoc by auto
  have "\<not> tkStarted (talk_step opts ?t e) \<and> handed_frames (talk_step opts ?t e) = [] \<and> \<not> tkTimer (talk_step opts ?t e)"
  proof (cases "\<exists>now. e = TkTick now")
    case True
    then show ?thesis using i by auto
  next
    case False
    then show ?thesis using i step_cursor [of e opts ?t] snoc.prems by auto
  qed
  then show ?case by (simp add: run_talk_def)
qed

text \<open>
  C23. On a session, by a clock that does not go back: the frames handed over since the start never run
  ahead of the time they play for, 64 ms each, and a tick before the stop hands over, in order, exactly the
  frames the cursor says are due, however late it fires.
\<close>

theorem talkback_paced:
  assumes "toSink opts = session_sink env" "audio_seq_ok s"
    and "\<forall>s'. TkSink s' \<in> set (before @ after) \<longrightarrow> audio_seq_ok s'"
    and "\<forall>t. TkStart t \<notin> set before" "sorted (t0 # talk_times after)"
  shows "let t = run_talk opts s (before @ TkStart t0 # after);
             due = (if now < tkNextDue t then 0 else nat ((now - tkNextDue t) div 64) + 1)
    in 64 * int (length (handed_frames t)) \<le> last (t0 # talk_times after) - t0 \<and>
      (tkTimer t \<and> \<not> tkStopped t \<longrightarrow>
        handed_frames (talk_step opts t (TkTick now)) = handed_frames t @ take due (tkQueue t))"
proof -
  let ?b = "run_talk opts s before" and ?t = "run_talk opts s (before @ TkStart t0 # after)"
  have "paced t0 t0 (talk_step opts ?b (TkStart t0))"
    using idle_before_start [OF assms(4), of opts s]
    by (auto simp: paced_def talk_start_def frame_ms split: prod.split sum.split bool.split)
  then have "paced t0 (last (t0 # talk_times after)) ?t"
    using paced_run [OF _ assms(5), of t0 _ opts] by (simp add: run_talk_def)
  then have "64 * int (length (handed_frames ?t)) \<le> last (t0 # talk_times after) - t0"
    by (cases "tkStarted ?t") (simp_all only: paced_def if_True if_False list.size of_nat_0, linarith+)
  moreover have "audio_seq_ok (tkSink ?t)"
    using assms(3) by (intro session_audio.kept_run [OF assms(1,2)]) auto
  moreover have "list_all playable (tkQueue ?t)" using run_playable [of opts s] by (simp add: all_playable_def)
  ultimately show ?thesis
    using session_audio.tick_hands_owed [OF assms(1), of ?t now]
    unfolding Let_def session_audio.owed_def by simp
qed


section \<open>Stopping\<close>

definition closed_once :: "'k talkback \<Rightarrow> bool" where
  "closed_once t \<longleftrightarrow>
     told MediaReleased t = (if tkStopped t then 1 else 0) \<and>
     told TalkStopped t = (if tkStopped t then 1 else 0) \<and>
     told TalkFinished t = (if tkAnnounced t then 1 else 0)"

lemma closed_once_same:
  "tk_same t u \<Longrightarrow> closed_once t \<Longrightarrow> closed_once u"
  using told_same [of t u] by (simp add: closed_once_def tk_same_def)

lemma closed_once_ext:
  "closed_once t \<Longrightarrow> tkStopped u = tkStopped t \<Longrightarrow> tkAnnounced u = tkAnnounced t \<Longrightarrow>
   (\<And>x. x \<in> {TalkFinished, TalkStopped, MediaReleased} \<Longrightarrow> told x u = told x t) \<Longrightarrow> closed_once u"
  by (simp add: closed_once_def)

lemma closed_once_stop: "closed_once t \<Longrightarrow> closed_once (snd (talk_stop opts now t))"
proof (cases "tkStopped t")
  case False
  assume "closed_once t"
  moreover note stop_effect [OF False, of opts now TalkStopped] stop_effect [OF False, of opts now MediaReleased]
    stop_effect [OF False, of opts now TalkFinished]
  ultimately show ?thesis using False by (cases "tkOnRoom t") (simp_all add: closed_once_def)
qed simp

lemma closed_once_announce: "closed_once t \<Longrightarrow> closed_once (announceFinishIfDone t)"
  by (simp add: closed_once_def announceFinishIfDone_def)

lemma closed_once_release: "closed_once t \<Longrightarrow> closed_once (releaseWriter t)"
  by (rule closed_once_ext [of t]) simp_all

lemma closed_once_tick: "closed_once t \<Longrightarrow> closed_once (talk_tick opts now t)"
proof -
  assume c: "closed_once t"
  have "closed_once (idleCheck opts now (t\<lparr>tkNextDue := now + int AAC_FRAME_MS\<rparr>))"
    using c closed_once_stop [of "t\<lparr>tkNextDue := now + int AAC_FRAME_MS\<rparr>"]
    by (cases rule: idleCheck_cases [of opts now "t\<lparr>tkNextDue := now + int AAC_FRAME_MS\<rparr>"])
      (simp_all add: closed_once_def)
  moreover have "closed_once (snd (pace opts now (tkQueue t) t))"
    using pace_same [of opts now "tkQueue t" t] pace_told [of _ opts now "tkQueue t" t]
    by (intro closed_once_ext [OF c]) simp_all
  ultimately show ?thesis
    using c by (auto simp: talk_tick_def closed_once_announce closed_once_release split: prod.split bool.split)
qed

interpretation talk_closing: stepper "talk_step opts" closed_once
  for opts :: "'k talk_opts"
proof
  fix t :: "'k talkback" and e :: "'k talk_event"
  assume c: "closed_once t"
  have upd: "closed_once (t\<lparr>tkLastWrite := n\<rparr>)" "closed_once (t\<lparr>tkAwaiting := p, tkChain := ch\<rparr>)" for n p ch
    using c by (simp_all add: closed_once_def)
  have w: "closed_once (talk_write opts ch now t)" for ch now
    using c closed_once_same [OF conjunct1 [OF push_frames [of "t\<lparr>tkLastWrite := now\<rparr>" ch]] upd(1)]
    by (simp add: talk_write_def talk_fail_def closed_once_def Let_def)
  show "closed_once (talk_step opts t e)"
  proof (cases e)
    case (TkStart now)
    show ?thesis unfolding TkStart talk_step.simps by (rule closed_once_ext [OF c]) (simp_all add: start_effect)
  next
    case (TkStop now)
    then show ?thesis using c by (simp add: closed_once_stop)
  next
    case (TkTick now)
    then show ?thesis using c by (simp add: closed_once_tick)
  next
    case (TkEncoder r)
    have "closed_once (talk_fail e (t\<lparr>tkAwaiting := p, tkChain := ch\<rparr>))" for e p ch
      using upd(2) by (simp add: closed_once_def talk_fail_def)
    moreover have "closed_once (talk_enqueue fs (t\<lparr>tkAwaiting := p, tkChain := ch\<rparr>))" for fs p ch
      by (rule closed_once_same [OF conjunct1 [OF enqueue_frames] upd(2)])
    moreover have "closed_once (fold push_and_enqueue fs (t\<lparr>tkAwaiting := p, tkChain := ch\<rparr>))" for fs p ch
      by (rule closed_once_same [OF push_same upd(2)])
    ultimately show ?thesis
      using c by (auto simp: TkEncoder encoder_answers_def Let_def split: sum.split list.split talk_job.split)
  next
    case TkChain
    have "closed_once (announceFinishIfDone (t\<lparr>tkChain := ch\<rparr>))" for ch
      using c by (intro closed_once_announce) (simp add: closed_once_def)
    then show ?thesis using c
      by (auto simp: TkChain chain_turn_def closed_once_def split: list.split talk_job.split)
  next
    case (TkPiped cb ch now)
    then show ?thesis using w [of ch now] by (simp add: piped_write_def Let_def closed_once_def)
  next
    case (TkWrite ch now)
    then show ?thesis using w by simp
  qed (use c in \<open>simp_all add: closed_once_def talk_end_def piped_final_def talk_fail_def\<close>)
qed

lemma stopped_hands_nothing:
  "tkStopped t \<Longrightarrow> tkStopped (talk_step opts t e) \<and> handed_frames (talk_step opts t e) = handed_frames t"
proof -
  assume s: "tkStopped t"
  have r: "tkStopped (talk_step opts t e) = tkStopped t" if "\<not> (\<exists>now. e = TkStop now)"
  proof (cases e)
    case (TkEncoder r)
    have "tkStopped (fold push_and_enqueue fs u) = tkStopped u" "tkStopped (talk_enqueue fs u) = tkStopped u" for fs and u :: "'a talkback"
      using push_same [of u fs] enqueue_frames [of u fs] by (simp_all add: tk_same_def)
    then show ?thesis
      by (auto simp: TkEncoder encoder_answers_def Let_def talk_fail_def split: sum.split list.split talk_job.split)
  qed (use that s in \<open>auto simp: start_effect talk_write_def piped_write_def talk_end_def piped_final_def
      chain_turn_def talk_tick_def talk_fail_def Let_def split: list.split talk_job.split\<close>)
  show ?thesis
  proof (cases "\<exists>now. e = TkTick now \<or> e = TkStart now \<or> e = TkStop now")
    case True
    then show ?thesis using s by (auto simp: talk_tick_def start_effect)
  next
    case False
    then show ?thesis using s r step_cursor [of e opts t] by auto
  qed
qed

lemma stopped_for_good: "tkStopped t \<Longrightarrow> handed_frames (foldl (talk_step opts) t es) = handed_frames t"
  by (induction es arbitrary: t) (auto simp: stopped_hands_nothing)

text \<open>
  Under any order of events the media session is released and the stop announced once when the
  talkback is stopped, and not before, whatever the encoder or the sink throw; the finish is announced at
  most once; and after a stop nothing is handed to the sink any more.
\<close>

theorem talkback_releases_once:
  "let t = run_talk opts k es
   in told MediaReleased t = (if tkStopped t then 1 else 0) \<and>
      told TalkStopped t = (if tkStopped t then 1 else 0) \<and> told TalkFinished t \<le> 1 \<and>
      handed_frames (run_talk opts k (es @ TkStop now # es')) = handed_frames t \<and>
      tkStopped (run_talk opts k (es @ [TkStop now]))"
proof -
  let ?t = "run_talk opts k es"
  have c: "closed_once ?t"
    unfolding run_talk_def
    by (rule talk_closing.inv_run) (simp add: closed_once_def new_talkback_def told_def)
  have s: "tkStopped (snd (talk_stop opts now ?t)) \<and> handed_frames (snd (talk_stop opts now ?t)) = handed_frames ?t"
    using stop_effect [of ?t opts now] stop_cursor [of opts now ?t] by (cases "tkStopped ?t") simp_all
  have "handed_frames (run_talk opts k (es @ TkStop now # es')) = handed_frames ?t"
    "tkStopped (run_talk opts k (es @ [TkStop now]))"
    using s stopped_for_good [of "snd (talk_stop opts now ?t)" opts es'] by (simp_all add: run_talk_def)
  then show ?thesis using c by (simp add: Let_def closed_once_def)
qed


section \<open>Runs\<close>

definition beep :: buffer where
  "beep = [0xff, 0xf1, 0x60, 0x40, 0x01, 0x1f, 0xfc, 0xaa]"

definition mute_sink :: "unit talk_sink" where
  "mute_sink = \<lparr>snkStart = \<lambda>ch a now k. (Inr True, k), snkStop = \<lambda>ch a now k. (Inr True, k),
     snkSend = \<lambda>ch f now k. (Inr (), k)\<rparr>"

definition sample_talk_opts :: "'k talk_sink \<Rightarrow> 'k talk_opts" where
  "sample_talk_opts sink = \<lparr>toSink = sink, toChannel = 0, toAttached = True, toEncoder = None,
     toHighWater = DEFAULT_HIGH_WATER_FRAMES, toIdleMs = DEFAULT_IDLE_TIMEOUT_MS\<rparr>"

lemma beep_playable: "playable beep" "adts_frame beep" "length beep = 8"
proof -
  have p: "parseAdtsHeader beep 0 = Some \<lparr>frameLength = 8, headerLength = 7, profile = 1, frequencyIndex = 8, channels = 1\<rparr>"
    by (simp add: beep_def parseAdtsHeader_def HEADER_LEN_NO_CRC_def adts_frame_length_def)
  show "playable beep"
    by (simp add: playable_def p isSupportedAdts_def PROFILE_AAC_LC_def FREQ_INDEX_16K_def CHANNELS_MONO_def
        MAX_AUDIO_FRAME_BYTES_def) (simp add: beep_def)
  show "adts_frame beep" using sample_adts_frame by (simp add: beep_def)
  show "length beep = 8" by (simp add: beep_def)
qed

lemma beeps_recovered: "adts_push [] (concat (replicate n beep)) = ([], replicate n beep)"
  using scan_frames [of "replicate n beep"] beep_playable(2) by (simp add: adts_push_scan)

lemma enqueue_beep: "talk_enqueue_one beep t = t\<lparr>tkQueue := tkQueue t @ [beep]\<rparr>"
  using beep_playable(1) by (auto simp: talk_enqueue_one_def playable_def split: option.splits)

lemma push_beeps:
  "tkBuffered t = [] \<Longrightarrow> push_and_enqueue (concat (replicate n beep)) t = t\<lparr>tkBuffered := [], tkQueue := tkQueue t @ replicate n beep\<rparr>"
proof -
  have "talk_enqueue (replicate n beep) u = u\<lparr>tkQueue := tkQueue u @ replicate n beep\<rparr>" for u :: "'a talkback"
    by (induction n arbitrary: u) (simp_all add: talk_enqueue_def enqueue_beep)
  then show "tkBuffered t = [] \<Longrightarrow> ?thesis" by (simp add: push_and_enqueue_def beeps_recovered)
qed

lemma push_beep: "tkBuffered t = [] \<Longrightarrow> push_and_enqueue beep t = t\<lparr>tkBuffered := [], tkQueue := tkQueue t @ [beep]\<rparr>"
  using push_beeps [of t 1] by simp

lemmas talk_evals = run_talk_def new_talkback_def talk_start_def talk_write_def talk_end_def talk_tick_def
  sample_talk_opts_def mute_sink_def frame_ms announceFinishIfDone_def releaseWriter_def tk_emit_def Let_def

lemma talkback_in_order_witness:
  "handed_frames (run_talk (sample_talk_opts mute_sink) ()
     [TkWrite (concat (replicate 2 beep)) 5, TkStart 10, TkEnd, TkTick 150]) = [beep, beep]"
proof -
  let ?es = "[TkWrite (concat (replicate 2 beep)) 5, TkStart 10, TkEnd, TkTick 150] :: unit talk_event list"
  have o: "toEncoder (sample_talk_opts mute_sink) = None" by (simp add: sample_talk_opts_def)
  have r: "replicate 2 beep = [beep, beep]" by (simp add: numeral_2_eq_2)
  have "\<not> tkStopped (run_talk (sample_talk_opts mute_sink) () ?es) \<and>
    TalkFinished \<in> set (tkOut (run_talk (sample_talk_opts mute_sink) () ?es))"
    by (simp add: talk_evals push_beeps del: concat_replicate_trivial) (simp add: r talk_evals)
  moreover have "filter playable (snd (adts_push [] (concat (until_end ?es)))) = [beep, beep]"
    using beeps_recovered [of 2] beep_playable(1) by (simp add: until_end_def r)
  ultimately show ?thesis
    using talkback_in_order [OF o, of "()" ?es] unfolding Let_def by metis
qed

definition sample_talk_session :: session where
  "sample_talk_session = (new_session sample_env)\<lparr>sessSocket := True, sessConnected := True,
     sessAddress := Some station_address, sessLevel2Key := Some (replicate 16 7)\<rparr>"

lemma talkback_paced_witness:
  "handed_frames (talk_step (sample_talk_opts (session_sink sample_env))
     (run_talk (sample_talk_opts (session_sink sample_env)) sample_talk_session
       [TkStart 1000, TkWrite (concat (replicate 3 beep)) 1000]) (TkTick 1150)) = [beep, beep]"
proof -
  let ?o = "sample_talk_opts (session_sink sample_env)"
  let ?after = "[TkWrite (concat (replicate 3 beep)) 1000] :: session talk_event list"
  let ?t = "run_talk ?o sample_talk_session ([] @ TkStart 1000 # ?after)"
  have h: "toSink ?o = session_sink sample_env" by (simp add: sample_talk_opts_def)
  have k: "audio_seq_ok sample_talk_session"
    by (simp add: audio_seq_ok_def sample_talk_session_def new_session_def)
  have "fst (startTalkback sample_env 0 True 1000 sample_talk_session) = Inr True"
    by (simp add: startTalkback_def sendTalkbackControl_def sample_talk_session_def sendRawLevel2_def
        sendRawLevel2Bytes_def encryptLevel2_def Let_def act_bind_def put_command_def next_seq_def act_lift_def
        buildCommandHeader_def write_u16be_def write_u16le_def new_session_def sample_env_def
        buildRawCommandPayload_def bytes_of_string_def s_send_def frameMessage_def emit_def
        CMD_START_TALKBACK_def MAGIC_WORD_def u32le_def u16le_def u16be_def)
  then have "tkTimer ?t \<and> \<not> tkStopped ?t \<and> tkNextDue ?t = 1064 \<and> tkQueue ?t = replicate 3 beep \<and> handed_frames ?t = []"
    by (auto simp: talk_evals session_sink_def push_beeps handed_frames_def split: prod.splits)
  moreover have "sorted (1000 # talk_times ?after)" by (simp add: talk_times_def)
  ultimately show ?thesis
    using talkback_paced [OF h k, of "[]" ?after 1000 1150] unfolding Let_def by (simp add: numeral_3_eq_3)
qed


text \<open>
  With an encoder the finish may be announced while frames are still to come: \<open>ended\<close> is set at once, the
  encode is still pending, and a tick finds the queue empty.
\<close>

lemma finished_before_pending_encode:
  "let opts = (sample_talk_opts mute_sink)\<lparr>toEncoder := Some \<lparr>encFlush = False, encCloseThrows = None\<rparr>\<rparr>;
       t = run_talk opts () [TkStart 0, TkWrite pcm 10, TkChain, TkEnd, TkTick 64, TkEncoder (Inr [beep]), TkTick 128]
   in handed_frames t = [beep] \<and>
      tkOut t = [EncodeAsked pcm, TalkFinished, FrameHanded beep]"
  by (simp add: talk_evals push_beep chain_turn_def encoder_answers_def idleCheck_def DEFAULT_IDLE_TIMEOUT_MS_def
      handed_frames_def map_filter_simps)

text \<open>A talkback stopped right behind its end announces the finish of audio it dropped.\<close>

lemma finished_though_dropped:
  "let t = run_talk (sample_talk_opts mute_sink) ()
       [TkStart 0, TkWrite (concat (replicate 3 beep)) 0, TkEnd, TkStop 1, TkChain, TkChain]
   in handed_frames t = [] \<and> TalkFinished \<in> set (tkOut t)"
  by (simp add: talk_evals push_beeps talk_stop_def chain_turn_def handed_frames_def map_filter_simps)

text \<open>
  A stream whose callback is withheld at the high-water mark never gets it back when the sink throws until
  the queue is empty: a tick that throws ends before the release, a tick on an empty queue does not release.
\<close>

definition broken_sink :: "unit talk_sink" where
  "broken_sink = mute_sink\<lparr>snkSend := \<lambda>ch f now k. (Inl RangeError, k)\<rparr>"

lemma writer_left_waiting:
  "let opts = (sample_talk_opts broken_sink)\<lparr>toHighWater := 1, toIdleMs := 0\<rparr>;
       t = run_talk opts () [TkStart 0, TkPiped 4 beep 0, TkTick 64]
   in tkOnRoom t = Some 4 \<and> tkQueue t = [] \<and>
      tkOnRoom (foldl (talk_step opts) t (map TkTick nows)) = Some 4"
proof -
  let ?opts = "(sample_talk_opts broken_sink)\<lparr>toHighWater := 1, toIdleMs := 0\<rparr>"
  let ?t = "run_talk ?opts () [TkStart 0, TkPiped 4 beep 0, TkTick 64]"
  have t: "tkOnRoom ?t = Some 4 \<and> tkQueue ?t = [] \<and> \<not> tkStopped ?t"
    by (simp add: talk_evals push_beep broken_sink_def piped_write_def talk_fail_def)
  have "tkOnRoom (foldl (talk_step ?opts) u (map TkTick nows)) = Some 4"
    if "tkOnRoom u = Some 4" "tkQueue u = []" "\<not> tkStopped u" for u :: "unit talkback"
    using that
    by (induction nows arbitrary: u) (simp_all add: talk_tick_def idleCheck_def announceFinishIfDone_def)
  then show ?thesis using t by (simp add: Let_def)
qed

text \<open>With an encoder the stream is never held back: what it wrote waits in the chain, which nobody counts.\<close>

lemma encoder_not_held_back:
  assumes "toEncoder opts \<noteq> None" "length (tkQueue t) < toHighWater opts" "\<not> tkStopped t" "\<not> tkEnded t"
  shows "let u = foldl (talk_step opts) t (map (\<lambda>(cb, c, now). TkPiped cb c now) ws)
    in tkChain u = tkChain t @ map (\<lambda>(cb, c, now). EncodeJob c) ws \<and>
       tkOut u = tkOut t @ map (\<lambda>(cb, c, now). CallbackGiven cb) ws"
  using assms
  by (induction ws arbitrary: t) (auto simp: piped_write_def talk_write_def Let_def)

end
