(* ===== verification/Live_Stream.thy ===== *)
theory Live_Stream
  imports P2p_Lifecycle Video Annexb Live_Consumer
begin

text \<open>
  \<open>src/transport/p2p/live-stream.ts\<close>: one camera's live stream over a session. It asks the station for
  media, keeps asking while it must, takes its own frames off the session's feed, and turns them into
  access units and audio.

  The session is the one of \<open>P2p_Session\<close>; what anything else does to it is an event. What the stream
  emits is logged in \<open>lvOut\<close>; the trace telemetry is left out. A listener that throws is outside the model.
\<close>

section \<open>State\<close>

definition AUDIO_HEADER_LEN :: nat where "AUDIO_HEADER_LEN = 0x10"
definition AUDIO_TYPE_OFFSET :: nat where "AUDIO_TYPE_OFFSET = 0x05"
definition DEFAULT_KEEPALIVE_MS :: int where "DEFAULT_KEEPALIVE_MS = 3000"

fun AUDIO_CODECS :: "nat \<Rightarrow> audio_codec option" where
  "AUDIO_CODECS n = (if n = 0 then Some AacLc else if n = 2 then Some G711a else if n = 7 then Some AacEld else None)"

record stream_opts =
  soChannel :: "int option"
  soEcc :: "buffer option"
  soAccount :: string
  soKeepAliveMs :: "int option"
  soStallMs :: "int option"
  soAttached :: bool

datatype stream_out = LvStart | LvStop | LvVideo live_frame | LvAudio audio_frame | LvUnacknowledged
  | LvDropped unit_drop

text \<open>\<open>lvStallAt\<close> is the window the pending stall watch was armed with; \<open>None\<close>, no watch is pending.\<close>

record live_stream =
  lvSession :: session
  lvListening :: bool
  lvDecoder :: "decoder option"
  lvKeepTimer :: bool
  lvStallAt :: "int option"
  lvLastCodec :: video_codec
  lvUnits :: assembler
  lvMediaChannel :: "int option"
  lvOut :: "stream_out list"

definition keep_alive_ms :: "stream_opts \<Rightarrow> int" where
  "keep_alive_ms opts = (case soKeepAliveMs opts of None \<Rightarrow> DEFAULT_KEEPALIVE_MS | Some ms \<Rightarrow> ms)"

definition stall_ms :: "stream_opts \<Rightarrow> int" where
  "stall_ms opts = (case soStallMs opts of None \<Rightarrow> keep_alive_ms opts * 2 | Some ms \<Rightarrow> ms)"

definition stream_channel :: "stream_opts \<Rightarrow> int" where
  "stream_channel opts = (case soChannel opts of None \<Rightarrow> STATION_CHANNEL | Some c \<Rightarrow> c)"

definition new_stream :: "stream_opts \<Rightarrow> session \<Rightarrow> js_error + live_stream" where
  "new_stream opts s =
     res_bind (case soEcc opts of None \<Rightarrow> Inr None | Some k \<Rightarrow> res_bind (new_decoder k) (\<lambda>d. Inr (Some d)))
       (\<lambda>d. Inr \<lparr>lvSession = s, lvListening = False, lvDecoder = d, lvKeepTimer = False, lvStallAt = None,
          lvLastCodec = H264, lvUnits = new_assembler,
          lvMediaChannel = (if soAttached opts then soChannel opts else None), lvOut = []\<rparr>)"

definition lv_emit :: "stream_out \<Rightarrow> live_stream \<Rightarrow> live_stream" where
  "lv_emit x v = v\<lparr>lvOut := lvOut v @ [x]\<rparr>"

section \<open>Asking for media\<close>

text \<open>\<open>sendStart\<close> swallows what \<open>startLiveMedia\<close> throws; the session keeps what it had done.\<close>

definition sendStart :: "session_env \<Rightarrow> stream_opts \<Rightarrow> bool \<Rightarrow> int \<Rightarrow> live_stream \<Rightarrow> live_stream" where
  "sendStart env opts force now v =
     v\<lparr>lvSession := snd (startLiveMedia env (stream_channel opts) (soAccount opts) (soAttached opts) force now (lvSession v))\<rparr>"

definition ls_start :: "session_env \<Rightarrow> stream_opts \<Rightarrow> int \<Rightarrow> live_stream \<Rightarrow> live_stream" where
  "ls_start env opts now v =
     (if lvListening v then v
      else
        (let v1 = sendStart env opts False now (v\<lparr>lvListening := True\<rparr>);
             v2 = (if keep_alive_ms opts > 0 then v1\<lparr>lvKeepTimer := True\<rparr> else v1)
         in lv_emit LvStart v2))"

definition armStallWatch :: "stream_opts \<Rightarrow> live_stream \<Rightarrow> live_stream" where
  "armStallWatch opts v =
     (let v1 = v\<lparr>lvStallAt := None\<rparr> in
      if keep_alive_ms opts \<le> 0 then v1
      else v1\<lparr>lvStallAt := Some (stall_ms opts)\<rparr>)"

text \<open>The stall watch elapses; \<open>wanted\<close> is what \<open>reassertWanted\<close> answers, true where it is absent.\<close>

definition stallElapsed :: "session_env \<Rightarrow> stream_opts \<Rightarrow> bool \<Rightarrow> int \<Rightarrow> live_stream \<Rightarrow> live_stream" where
  "stallElapsed env opts wanted now v =
     (let v1 = v\<lparr>lvStallAt := None\<rparr> in
      if \<not> lvListening v1 \<or> lvKeepTimer v1 then v1
      else if \<not> wanted then armStallWatch opts v1
      else (sendStart env opts False now v1)\<lparr>lvKeepTimer := True\<rparr>)"

definition settleKeepalive :: "stream_opts \<Rightarrow> live_stream \<Rightarrow> live_stream" where
  "settleKeepalive opts v =
     (if \<not> soAttached opts then v
      else
        (let v1 = armStallWatch opts v
         in if \<not> lvKeepTimer v1 then v1 else v1\<lparr>lvKeepTimer := False\<rparr>))"

definition nudge :: "session_env \<Rightarrow> stream_opts \<Rightarrow> bool \<Rightarrow> int \<Rightarrow> live_stream \<Rightarrow> live_stream" where
  "nudge env opts force now v = (if lvListening v then sendStart env opts force now v else v)"

definition ls_stop :: "session_env \<Rightarrow> stream_opts \<Rightarrow> live_stream \<Rightarrow> live_stream" where
  "ls_stop env opts v =
     (if \<not> lvListening v then v
      else
        (let v1 = v\<lparr>lvListening := False, lvKeepTimer := False, lvStallAt := None\<rparr>;
             v2 = v1\<lparr>lvSession := snd (stopLiveMedia env (stream_channel opts) (soAccount opts) (lvSession v1))\<rparr>
         in lv_emit LvStop v2))"

section \<open>Taking frames\<close>

definition acceptsMedia :: "p2p_header \<Rightarrow> live_stream \<Rightarrow> bool" where
  "acceptsMedia h v =
     (case lvMediaChannel v of
        None \<Rightarrow> True
      | Some c \<Rightarrow>
          if int (commandId h) \<noteq> CMD_VIDEO_FRAME \<and> int (commandId h) \<noteq> CMD_AUDIO_FRAME then True
          else int (channel h) = c)"

definition plaintextAnnexB :: "buffer \<Rightarrow> buffer option" where
  "plaintextAnnexB d =
     (if length d > VIDEO_HEADER_LEN then
        (let body = drop VIDEO_HEADER_LEN d in
         if length body \<ge> 4 \<and> (take 4 body = [0, 0, 0, 1] \<or> take 3 body = [0, 0, 1]) then Some body else None)
      else None)"

definition annexbOf :: "session_env \<Rightarrow> session \<Rightarrow> nat \<Rightarrow> decoder option \<Rightarrow> buffer \<Rightarrow> decoder option \<times> buffer option" where
  "annexbOf env s sign d payload =
     (case decodeVideoFrame env s payload sign of
        Some annexb \<Rightarrow> (d, Some annexb)
      | None \<Rightarrow>
          (case plaintextAnnexB payload of
             Some annexb \<Rightarrow> (d, Some annexb)
           | None \<Rightarrow>
               (case d of
                  None \<Rightarrow> (None, None)
                | Some dec \<Rightarrow>
                    (case decodeFrame (envCrypto env) (envGcm env) dec payload of
                       (dec', r) \<Rightarrow> (Some dec', map_option h264 r)))))"

definition takes_unit :: "stream_opts \<Rightarrow> access_unit \<Rightarrow> live_stream \<Rightarrow> live_stream" where
  "takes_unit opts u v =
     (let cd = (if unitKeyframe u
                   then (case sniffAnnexbCodec (unitData u) of None \<Rightarrow> lvLastCodec v | Some c \<Rightarrow> c)
                   else lvLastCodec v)
      in lv_emit (LvVideo \<lparr>fKeyframe = unitKeyframe u, fWidth = unitWidth u, fHeight = unitHeight u,
             fCodec = cd, fData = unitData u\<rparr>)
           (settleKeepalive opts (v\<lparr>lvLastCodec := cd\<rparr>)))"

definition takes_audio :: "buffer \<Rightarrow> live_stream \<Rightarrow> live_stream" where
  "takes_audio d v =
     (let audio = (if length d > AUDIO_HEADER_LEN then drop AUDIO_HEADER_LEN d else d) in
      if audio = [] then v
      else
        (case (if length d > AUDIO_TYPE_OFFSET then AUDIO_CODECS (unat (d ! AUDIO_TYPE_OFFSET)) else None) of
           None \<Rightarrow> v
         | Some ac \<Rightarrow> lv_emit (LvAudio \<lparr>aCodec = ac, aData = audio\<rparr>) v))"

text \<open>A dropped unit is reported while the assembler is pushed, before the unit that ended it is taken.\<close>

definition ls_onFrame :: "session_env \<Rightarrow> stream_opts \<Rightarrow> p2p_header \<Rightarrow> buffer \<Rightarrow> live_stream \<Rightarrow> live_stream" where
  "ls_onFrame env opts h d v =
     (if \<not> lvListening v \<or> \<not> acceptsMedia h v then v
      else if int (commandId h) = CMD_VIDEO_FRAME then
        (case assembler_push (annexbOf env (lvSession v) (signCode h)) (lvUnits v, lvDecoder v) d of
           ((st, dec), units, drops) \<Rightarrow>
             fold (takes_unit opts) units
               (fold (\<lambda>x. lv_emit (LvDropped x)) drops (v\<lparr>lvUnits := st, lvDecoder := dec\<rparr>)))
      else if int (commandId h) = CMD_AUDIO_FRAME then takes_audio d v
      else v)"

definition ls_unacknowledged :: "stream_opts \<Rightarrow> int \<Rightarrow> live_stream \<Rightarrow> live_stream" where
  "ls_unacknowledged opts ch v =
     (if lvListening v \<and> ch = stream_channel opts then lv_emit LvUnacknowledged v else v)"

section \<open>Runs\<close>

text \<open>The last event is whatever else happens to the session, which the stream shares.\<close>

datatype stream_event = LsStart int | LsFrame p2p_header buffer | LsKeepTick int | LsStall bool int
  | LsNudge bool int | LsStop | LsUnacknowledged int | LsSession session

fun stream_step :: "session_env \<Rightarrow> stream_opts \<Rightarrow> live_stream \<Rightarrow> stream_event \<Rightarrow> live_stream" where
  "stream_step env opts v (LsStart now) = ls_start env opts now v"
| "stream_step env opts v (LsFrame h d) = ls_onFrame env opts h d v"
| "stream_step env opts v (LsKeepTick now) = (if lvKeepTimer v then sendStart env opts False now v else v)"
| "stream_step env opts v (LsStall wanted now) = (if lvStallAt v = None then v else stallElapsed env opts wanted now v)"
| "stream_step env opts v (LsNudge force now) = nudge env opts force now v"
| "stream_step env opts v LsStop = ls_stop env opts v"
| "stream_step env opts v (LsUnacknowledged ch) = ls_unacknowledged opts ch v"
| "stream_step env opts v (LsSession s) = v\<lparr>lvSession := s\<rparr>"

definition run_stream :: "session_env \<Rightarrow> stream_opts \<Rightarrow> live_stream \<Rightarrow> stream_event list \<Rightarrow> live_stream" where
  "run_stream env opts v es = foldl (stream_step env opts) v es"


section \<open>A stream takes its own frames only\<close>

lemma lv_emit_simps [simp]:
  "lvSession (lv_emit x v) = lvSession v" "lvListening (lv_emit x v) = lvListening v"
  "lvKeepTimer (lv_emit x v) = lvKeepTimer v" "lvStallAt (lv_emit x v) = lvStallAt v"
  "lvMediaChannel (lv_emit x v) = lvMediaChannel v" "lvLastCodec (lv_emit x v) = lvLastCodec v"
  "lvUnits (lv_emit x v) = lvUnits v" "lvDecoder (lv_emit x v) = lvDecoder v"
  "lvOut (lv_emit x v) = lvOut v @ [x]"
  by (simp_all add: lv_emit_def)

lemma drops_simps [simp]:
  "lvListening (fold (\<lambda>x. lv_emit (LvDropped x)) ds v) = lvListening v"
  "lvKeepTimer (fold (\<lambda>x. lv_emit (LvDropped x)) ds v) = lvKeepTimer v"
  "lvStallAt (fold (\<lambda>x. lv_emit (LvDropped x)) ds v) = lvStallAt v"
  "lvMediaChannel (fold (\<lambda>x. lv_emit (LvDropped x)) ds v) = lvMediaChannel v"
  "lvSession (fold (\<lambda>x. lv_emit (LvDropped x)) ds v) = lvSession v"
  "lvUnits (fold (\<lambda>x. lv_emit (LvDropped x)) ds v) = lvUnits v"
  "lvDecoder (fold (\<lambda>x. lv_emit (LvDropped x)) ds v) = lvDecoder v"
  "lvOut (fold (\<lambda>x. lv_emit (LvDropped x)) ds v) = lvOut v @ map LvDropped ds"
  by (induction ds arbitrary: v) simp_all

lemma settle_simps [simp]:
  "lvListening (settleKeepalive opts v) = lvListening v" "lvMediaChannel (settleKeepalive opts v) = lvMediaChannel v"
  "lvSession (settleKeepalive opts v) = lvSession v" "lvOut (settleKeepalive opts v) = lvOut v"
  "lvUnits (settleKeepalive opts v) = lvUnits v" "lvDecoder (settleKeepalive opts v) = lvDecoder v"
  by (simp_all add: settleKeepalive_def armStallWatch_def Let_def)

lemma takes_simps [simp]:
  "lvListening (takes_unit opts u v) = lvListening v" "lvMediaChannel (takes_unit opts u v) = lvMediaChannel v"
  "lvSession (takes_unit opts u v) = lvSession v" "lvUnits (takes_unit opts u v) = lvUnits v"
  "lvDecoder (takes_unit opts u v) = lvDecoder v"
  "lvListening (takes_audio d v) = lvListening v" "lvMediaChannel (takes_audio d v) = lvMediaChannel v"
  "lvKeepTimer (takes_audio d v) = lvKeepTimer v" "lvStallAt (takes_audio d v) = lvStallAt v"
  by (simp_all add: takes_unit_def takes_audio_def Let_def split: option.split)

lemma takes_units_simps [simp]:
  "lvListening (fold (takes_unit opts) us v) = lvListening v"
  "lvMediaChannel (fold (takes_unit opts) us v) = lvMediaChannel v"
  by (induction us arbitrary: v) simp_all

lemma step_media_channel: "lvMediaChannel (stream_step env opts v e) = lvMediaChannel v"
  by (cases e) (simp_all add: ls_start_def ls_stop_def ls_onFrame_def nudge_def stallElapsed_def armStallWatch_def
      sendStart_def ls_unacknowledged_def Let_def split: prod.split)

definition foreign_media :: "int \<Rightarrow> stream_event \<Rightarrow> bool" where
  "foreign_media c e = (case e of
     LsFrame h d \<Rightarrow> (int (commandId h) = CMD_VIDEO_FRAME \<or> int (commandId h) = CMD_AUDIO_FRAME) \<and> int (channel h) \<noteq> c
   | _ \<Rightarrow> False)"

text \<open>
  C19. The stream of an attached camera is blind to the media of its siblings: whatever the station
  interleaves on the session, leaving out every frame tagged for another channel changes nothing of what
  the stream emits, asks for or remembers.
\<close>

theorem stream_blind_to_siblings:
  assumes "new_stream opts s = Inr v" "soAttached opts" "soChannel opts = Some c"
  shows "run_stream env opts v es = run_stream env opts v (filter (\<lambda>e. \<not> foreign_media c e) es)"
proof -
  have "lvMediaChannel v = Some c"
    using assms by (auto simp: new_stream_def res_bind_Inr_conv)
  then show ?thesis
  proof (induction es arbitrary: v)
    case (Cons e es)
    have m: "lvMediaChannel (stream_step env opts v e) = Some c" using Cons.prems by (simp add: step_media_channel)
    show ?case
    proof (cases "foreign_media c e")
      case True
      then obtain h d where "e = LsFrame h d" "\<not> acceptsMedia h v"
        using Cons.prems by (auto simp: foreign_media_def acceptsMedia_def split: stream_event.splits)
      then have "stream_step env opts v e = v" by (simp add: ls_onFrame_def)
      then show ?thesis using Cons True by (simp add: run_stream_def)
    next
      case False
      then show ?thesis using Cons.IH [OF m] by (simp add: run_stream_def)
    qed
  qed (simp add: run_stream_def)
qed

section \<open>A stream keeps asking\<close>

definition asking :: "stream_opts \<Rightarrow> live_stream \<Rightarrow> bool" where
  "asking opts v \<longleftrightarrow>
     (if lvListening v \<and> keep_alive_ms opts > 0
      then (lvKeepTimer v \<longleftrightarrow> lvStallAt v = None) \<and> (\<not> soAttached opts \<longrightarrow> lvKeepTimer v) \<and>
        (lvStallAt v = None \<or> lvStallAt v = Some (stall_ms opts))
      else \<not> lvKeepTimer v \<and> lvStallAt v = None)"

lemma asking_cong:
  "lvListening u = lvListening v \<Longrightarrow> lvKeepTimer u = lvKeepTimer v \<Longrightarrow> lvStallAt u = lvStallAt v \<Longrightarrow>
   asking opts u = asking opts v"
  by (simp only: asking_def)

lemma asking_send [simp]: "asking opts (sendStart env opts force now v) = asking opts v"
  by (rule asking_cong) (simp_all add: sendStart_def)

lemma asking_emit [simp]: "asking opts (lv_emit x v) = asking opts v"
  by (rule asking_cong) simp_all

lemma asking_unit: "asking opts v \<Longrightarrow> lvListening v \<Longrightarrow> asking opts (takes_unit opts u v)"
  by (auto simp: asking_def takes_unit_def settleKeepalive_def armStallWatch_def Let_def)

lemma asking_units: "asking opts v \<Longrightarrow> lvListening v \<Longrightarrow> asking opts (fold (takes_unit opts) us v)"
proof (induction us arbitrary: v)
  case (Cons u us)
  then show ?case using Cons.IH [of "takes_unit opts u v"] by (simp add: asking_unit)
qed simp

lemma start_fields:
  "lvListening (ls_start env opts now v)" "lvStallAt (ls_start env opts now v) = lvStallAt v"
  "lvKeepTimer (ls_start env opts now v) = (lvKeepTimer v \<or> \<not> lvListening v \<and> keep_alive_ms opts > 0)"
  by (simp_all add: ls_start_def sendStart_def Let_def)

interpretation stream_asking: stepper "stream_step env opts" "asking opts"
  for env opts
proof
  fix v e
  assume a: "asking opts v"
  show "asking opts (stream_step env opts v e)"
  proof (cases e)
    case (LsFrame h d)
    have u: "asking opts (fold (takes_unit opts) us (fold (\<lambda>x. lv_emit (LvDropped x)) ds (v\<lparr>lvUnits := st, lvDecoder := dec\<rparr>)))"
      if "lvListening v" for us ds st dec
      using a that by (intro asking_units) (auto simp: asking_def)
    have "asking opts (takes_audio d v)" using a unfolding asking_def takes_simps .
    then show ?thesis using a u by (simp add: LsFrame ls_onFrame_def split: prod.split)
  next
    case (LsStall wanted now)
    then show ?thesis using a
      by (auto simp: asking_def stallElapsed_def armStallWatch_def sendStart_def Let_def split: if_splits)
  next
    case (LsStart now)
    then show ?thesis using a by (cases "lvListening v"; cases "keep_alive_ms opts > 0") (simp_all add: asking_def start_fields)
  next
    case (LsKeepTick now)
    then show ?thesis using a by simp
  next
    case (LsNudge force now)
    then show ?thesis using a by (simp add: nudge_def)
  next
    case LsStop
    then show ?thesis using a by (cases "lvListening v") (simp_all add: ls_stop_def Let_def, simp add: asking_def)
  next
    case (LsSession s)
    have "asking opts (v\<lparr>lvSession := s\<rparr>) = asking opts v" by (rule asking_cong) simp_all
    then show ?thesis using a LsSession by simp
  qed (use a in \<open>simp_all add: ls_unacknowledged_def\<close>)
qed

text \<open>
  C20. Under every order of frames, stalls, nudges, stops and restarts a stream that listens has exactly one
  of its two clocks running, the keepalive or the watch over its own silence, and whichever runs asks the
  station again when it elapses (the watch, where its owner still wants the channel; otherwise it is
  armed again); an own-session stream always has its keepalive; a stream that does not listen has neither.
\<close>

theorem stream_keeps_asking:
  assumes "new_stream opts s = Inr v0" "keep_alive_ms opts > 0"
  shows "let v = run_stream env opts v0 es;
             asked = snd (startLiveMedia env (stream_channel opts) (soAccount opts) (soAttached opts) False now (lvSession v))
    in if \<not> lvListening v then \<not> lvKeepTimer v \<and> lvStallAt v = None
       else if lvKeepTimer v then lvStallAt v = None \<and> lvSession (stream_step env opts v (LsKeepTick now)) = asked
       else soAttached opts \<and> lvStallAt v \<noteq> None \<and>
         lvSession (stream_step env opts v (LsStall True now)) = asked \<and>
         lvKeepTimer (stream_step env opts v (LsStall True now)) \<and>
         lvStallAt (stream_step env opts v (LsStall False now)) = lvStallAt v"
proof -
  have "asking opts v0"
    using assms(1) by (auto simp: asking_def new_stream_def res_bind_Inr_conv)
  then have "asking opts (run_stream env opts v0 es)"
    unfolding run_stream_def by (rule stream_asking.inv_run)
  then show ?thesis
    using assms(2) by (auto simp: asking_def Let_def sendStart_def stallElapsed_def armStallWatch_def)
qed


section \<open>What is delivered\<close>

definition delivered_frames :: "live_stream \<Rightarrow> live_frame list" where
  "delivered_frames v = List.map_filter (\<lambda>x. case x of LvVideo f \<Rightarrow> Some f | _ \<Rightarrow> None) (lvOut v)"

text \<open>A delta frame carries the codec of the last keyframe that told one.\<close>

definition codec_told :: "video_codec \<Rightarrow> access_unit \<Rightarrow> video_codec" where
  "codec_told c u =
     (if unitKeyframe u then (case sniffAnnexbCodec (unitData u) of None \<Rightarrow> c | Some d \<Rightarrow> d) else c)"

fun unit_frames_from :: "video_codec \<Rightarrow> access_unit list \<Rightarrow> live_frame list" where
  "unit_frames_from c [] = []"
| "unit_frames_from c (u # us) =
     \<lparr>fKeyframe = unitKeyframe u, fWidth = unitWidth u, fHeight = unitHeight u,
      fCodec = codec_told c u, fData = unitData u\<rparr> # unit_frames_from (codec_told c u) us"

lemma unit_frames_append:
  "unit_frames_from c (us @ vs) = unit_frames_from c us @ unit_frames_from (foldl codec_told c us) vs"
  by (induction us arbitrary: c) simp_all

lemma takes_codec: "lvLastCodec (takes_unit opts u v) = codec_told (lvLastCodec v) u"
  by (simp add: takes_unit_def settleKeepalive_def armStallWatch_def Let_def codec_told_def)

lemma takes_delivers:
  "delivered_frames (takes_unit opts u v) = delivered_frames v @ unit_frames_from (lvLastCodec v) [u]"
  by (simp add: takes_unit_def delivered_frames_def map_filter_def Let_def codec_told_def)

lemma takes_units:
  "delivered_frames (fold (takes_unit opts) us v) = delivered_frames v @ unit_frames_from (lvLastCodec v) us"
  "lvLastCodec (fold (takes_unit opts) us v) = foldl codec_told (lvLastCodec v) us"
  "lvSession (fold (takes_unit opts) us v) = lvSession v"
  "lvUnits (fold (takes_unit opts) us v) = lvUnits v" "lvDecoder (fold (takes_unit opts) us v) = lvDecoder v"
  by (induction us arbitrary: v) (simp_all add: takes_codec takes_delivers)

lemma drops_delivered:
  "delivered_frames (fold (\<lambda>x. lv_emit (LvDropped x)) ds v) = delivered_frames v"
  "lvLastCodec (fold (\<lambda>x. lv_emit (LvDropped x)) ds v) = lvLastCodec v"
  by (induction ds arbitrary: v) (simp_all add: delivered_frames_def map_filter_def)

text \<open>
  The video frames of one encryption a listening stream takes are delivered as the access units the
  assembler makes of their payloads, one frame per unit, in order, each with the codec the last keyframe
  announced.
\<close>

theorem stream_delivers_units:
  assumes "lvListening v" "\<forall>(h, d) \<in> set fs. int (commandId h) = CMD_VIDEO_FRAME \<and> signCode h = sign \<and> acceptsMedia h v"
  shows "delivered_frames (run_stream env opts v (map (\<lambda>(h, d). LsFrame h d) fs)) = delivered_frames v @
    unit_frames_from (lvLastCodec v)
      (fst (snd (assembler_run (annexbOf env (lvSession v) sign) (lvUnits v, lvDecoder v) (map snd fs))))"
  using assms
proof (induction fs arbitrary: v)
  case (Cons f fs)
  obtain h d where f: "f = (h, d)" by fastforce
  obtain st dec us ds where p: "assembler_push (annexbOf env (lvSession v) (signCode h)) (lvUnits v, lvDecoder v) d = ((st, dec), us, ds)"
    by (metis prod.exhaust)
  let ?w = "fold (\<lambda>x. lv_emit (LvDropped x)) ds (v\<lparr>lvUnits := st, lvDecoder := dec\<rparr>)"
  let ?v = "fold (takes_unit opts) us ?w"
  have sign: "signCode h = sign" using Cons.prems f by simp
  have step: "stream_step env opts v (LsFrame h d) = ?v"
    using Cons.prems f p by (simp add: ls_onFrame_def)
  have w: "delivered_frames ?w = delivered_frames v" "lvLastCodec ?w = lvLastCodec v"
    by (simp_all add: drops_delivered) (simp add: delivered_frames_def)
  have "delivered_frames (run_stream env opts ?v (map (\<lambda>(h, d). LsFrame h d) fs)) = delivered_frames ?v @
    unit_frames_from (lvLastCodec ?v)
      (fst (snd (assembler_run (annexbOf env (lvSession ?v) sign) (lvUnits ?v, lvDecoder ?v) (map snd fs))))"
    using Cons.prems by (intro Cons.IH) (auto simp: acceptsMedia_def)
  then show ?case
    using step p sign w
    by (simp add: run_stream_def f takes_units unit_frames_append case_prod_unfold Let_def)
qed (simp add: run_stream_def)


section \<open>A sample stream\<close>

definition sample_stream_opts :: "bool \<Rightarrow> stream_opts" where
  "sample_stream_opts attached = \<lparr>soChannel = Some 2, soEcc = None, soAccount = ''u'', soKeepAliveMs = None,
     soStallMs = None, soAttached = attached\<rparr>"

definition sample_stream :: "bool \<Rightarrow> live_stream" where
  "sample_stream attached = \<lparr>lvSession = new_session sample_env, lvListening = False, lvDecoder = None, lvKeepTimer = False,
     lvStallAt = None, lvLastCodec = H264, lvUnits = new_assembler,
     lvMediaChannel = (if attached then Some 2 else None), lvOut = []\<rparr>"

lemma sample_stream_new: "new_stream (sample_stream_opts attached) (new_session sample_env) = Inr (sample_stream attached)"
  by (simp add: new_stream_def sample_stream_opts_def sample_stream_def)

definition media_header :: "nat \<Rightarrow> nat \<Rightarrow> p2p_header" where
  "media_header cmd ch = \<lparr>commandId = cmd, bytesToRead = 0, channel = ch, signCode = 0, frameType = 0\<rparr>"

text \<open>A plaintext delta frame of three bytes, and an AAC frame.\<close>

definition sample_video :: buffer where
  "sample_video = [3, 0, 0, 0, 0] @ replicate 17 0 @ [7, 8, 9]"

lemma stream_blind_to_siblings_witness:
  "run_stream sample_env (sample_stream_opts True) (sample_stream True)
     [LsStart 5, LsFrame (media_header 1300 0) sample_video, LsFrame (media_header 1301 2) [0, 0, 0, 0, 0, 0, 1]] =
   run_stream sample_env (sample_stream_opts True) (sample_stream True)
     [LsStart 5, LsFrame (media_header 1301 2) [0, 0, 0, 0, 0, 0, 1]]"
  using stream_blind_to_siblings [OF sample_stream_new, of True 2 sample_env
      "[LsStart 5, LsFrame (media_header 1300 0) sample_video, LsFrame (media_header 1301 2) [0, 0, 0, 0, 0, 0, 1]]"]
  by (simp add: foreign_media_def media_header_def CMD_VIDEO_FRAME_def CMD_AUDIO_FRAME_def sample_stream_opts_def)

lemma sample_video_taken:
  "assembler_push (annexbOf env s 0) (new_assembler, dec) sample_video =
     ((new_assembler, dec), [\<lparr>unitKeyframe = False, unitWidth = 0, unitHeight = 0, unitData = [7, 8, 9]\<rparr>], [])"
proof -
  have l: "length sample_video = 25" by (simp add: sample_video_def)
  have r: "replicate 17 (0 :: byte) = [0, 0, 0, 0, 0, 0, 0, 0, 0, 0, 0, 0, 0, 0, 0, 0, 0]" by (simp add: numeral_eq_Suc)
  have d: "annexbOf env s 0 dec sample_video = (dec, Some [7, 8, 9])"
    by (simp add: annexbOf_def decodeVideoFrame_def l Let_def) (simp add: sample_video_def r u32le_at_def slice_def)
  have h: "parseVideoFrameHeader sample_video = Some \<lparr>payloadLength = 3, keyframe = False, flags = 0, sequence = 0,
      width = 0, height = 0, timestamp = 0\<rparr>"
    by (simp add: parseVideoFrameHeader_def l VIDEO_HEADER_LEN_def)
      (simp add: sample_video_def r u32le_at_def u16le_at_def as_signed_def)
  show ?thesis
    by (simp add: assembler_push_def h d assemble_def new_assembler_def discard_def unitOf_def
        STATION_CHUNK_BYTES_def Let_def)
qed

lemma started_stream:
  "lvListening (run_stream sample_env (sample_stream_opts a) (sample_stream a) [LsStart 5]) \<and>
   lvKeepTimer (run_stream sample_env (sample_stream_opts a) (sample_stream a) [LsStart 5]) \<and>
   lvUnits (run_stream sample_env (sample_stream_opts a) (sample_stream a) [LsStart 5]) = new_assembler \<and>
   lvMediaChannel (run_stream sample_env (sample_stream_opts a) (sample_stream a) [LsStart 5]) = (if a then Some 2 else None) \<and>
   lvLastCodec (run_stream sample_env (sample_stream_opts a) (sample_stream a) [LsStart 5]) = H264 \<and>
   delivered_frames (run_stream sample_env (sample_stream_opts a) (sample_stream a) [LsStart 5]) = []"
  by (simp add: run_stream_def ls_start_def sendStart_def Let_def sample_stream_def sample_stream_opts_def
      keep_alive_ms_def DEFAULT_KEEPALIVE_MS_def delivered_frames_def map_filter_simps lv_emit_def)

lemma stream_delivers_units_witness:
  "map fData (delivered_frames (run_stream sample_env (sample_stream_opts True)
     (run_stream sample_env (sample_stream_opts True) (sample_stream True) [LsStart 5])
     [LsFrame (media_header 1300 2) sample_video])) = [[7, 8, 9]]"
proof -
  let ?v = "run_stream sample_env (sample_stream_opts True) (sample_stream True) [LsStart 5]"
  have l: "lvListening ?v" using started_stream by blast
  have a: "\<forall>(h, d) \<in> set [(media_header 1300 2, sample_video)].
      int (commandId h) = CMD_VIDEO_FRAME \<and> signCode h = 0 \<and> acceptsMedia h ?v"
    using started_stream [of True] by (simp add: media_header_def CMD_VIDEO_FRAME_def acceptsMedia_def)
  show ?thesis
    using stream_delivers_units [OF l a, of sample_env "sample_stream_opts True"] started_stream [of True]
    by (simp add: sample_video_taken Let_def)
qed

lemma stream_keeps_asking_witness:
  "let v = run_stream sample_env (sample_stream_opts True) (sample_stream True)
       [LsStart 5, LsFrame (media_header 1300 2) sample_video]
   in lvStallAt v \<noteq> None \<and> lvKeepTimer (stream_step sample_env (sample_stream_opts True) v (LsStall True 6005))"
proof -
  let ?u = "run_stream sample_env (sample_stream_opts True) (sample_stream True) [LsStart 5]"
  let ?v = "run_stream sample_env (sample_stream_opts True) (sample_stream True)
       [LsStart 5, LsFrame (media_header 1300 2) sample_video]"
  have v: "?v = stream_step sample_env (sample_stream_opts True) ?u (LsFrame (media_header 1300 2) sample_video)"
    by (simp add: run_stream_def)
  have "lvListening ?v \<and> \<not> lvKeepTimer ?v"
    using started_stream [of True] sample_video_taken [of sample_env "lvSession ?u" "lvDecoder ?u"]
    unfolding v by (simp add: ls_onFrame_def media_header_def CMD_VIDEO_FRAME_def acceptsMedia_def takes_unit_def
        settleKeepalive_def armStallWatch_def sample_stream_opts_def Let_def)
  moreover have "keep_alive_ms (sample_stream_opts True) > 0"
    by (simp add: keep_alive_ms_def sample_stream_opts_def DEFAULT_KEEPALIVE_MS_def)
  ultimately show ?thesis
    using stream_keeps_asking [OF sample_stream_new, of True sample_env
        "[LsStart 5, LsFrame (media_header 1300 2) sample_video]" 6005]
    by (simp only: Let_def if_True if_False not_False_eq_True) simp
qed

end
