(* ===== verification/P2p_Bodies.thy ===== *)
theory P2p_Bodies
  imports Js_Text P2p_Codec
begin

text \<open>
  What the P2P router puts into a command and reads off a cloud record: the packed control bodies of
  \<open>src/transport/p2p/write-commands.ts\<close> and the LAN address of \<open>src/transport/p2p/lan-ip.ts\<close>. Account ids
  are ASCII. A device name, which need not be, is the list of its UTF-16 code units.
\<close>

section \<open>Control bodies\<close>

definition write_u32le :: "int \<Rightarrow> js_error + buffer" where
  "write_u32le n = (if 0 \<le> n \<and> n < 4294967296 then Inr (u32le n) else Inl RangeError)"

text \<open>The trailing field of 128 bytes, of a body allocated with zeros.\<close>

definition accountIdField :: "string \<Rightarrow> js_error + buffer" where
  "accountIdField accountId =
     (if accountId = [] then Inl (UserError ''control command requires a non-empty account_id'')
      else (let b = bytes_of_string (take 128 accountId) in Inr (b @ replicate (128 - length b) 0)))"

definition buildDirectBinaryBody :: "int \<Rightarrow> string \<Rightarrow> int option \<Rightarrow> js_error + buffer" where
  "buildDirectBinaryBody v accountId ch =
     res_bind (case ch of None \<Rightarrow> Inr [] | Some c \<Rightarrow> write_u32le c) (\<lambda>head.
     res_bind (write_u32le v) (\<lambda>body.
     res_bind (accountIdField accountId) (\<lambda>acc. Inr (head @ body @ acc))))"

text \<open>
  \<open>Buffer.from(s, "utf8")\<close> of UTF-16 code units: a surrogate pair is one character of four bytes, a
  surrogate alone is replaced.
\<close>

definition is_high :: "nat \<Rightarrow> bool" where "is_high u \<longleftrightarrow> 0xD800 \<le> u \<and> u \<le> 0xDBFF"
definition is_low :: "nat \<Rightarrow> bool" where "is_low u \<longleftrightarrow> 0xDC00 \<le> u \<and> u \<le> 0xDFFF"

definition utf8_char :: "nat \<Rightarrow> buffer" where
  "utf8_char n =
     (if n < 0x80 then [of_nat n]
      else if n < 0x800 then [of_nat (0xC0 + n div 64), of_nat (0x80 + n mod 64)]
      else if n < 0x10000 then
        [of_nat (0xE0 + n div 4096), of_nat (0x80 + n div 64 mod 64), of_nat (0x80 + n mod 64)]
      else [of_nat (0xF0 + n div 262144), of_nat (0x80 + n div 4096 mod 64),
            of_nat (0x80 + n div 64 mod 64), of_nat (0x80 + n mod 64)])"

fun utf8_of_utf16 :: "16 word list \<Rightarrow> buffer" where
  "utf8_of_utf16 [] = []"
| "utf8_of_utf16 [u] = (if is_high (unat u) \<or> is_low (unat u) then REPLACEMENT else utf8_char (unat u))"
| "utf8_of_utf16 (u # v # us) =
     (if is_high (unat u) \<and> is_low (unat v)
      then utf8_char (0x10000 + (unat u - 0xD800) * 1024 + (unat v - 0xDC00)) @ utf8_of_utf16 us
      else (if is_high (unat u) \<or> is_low (unat u) then REPLACEMENT else utf8_char (unat u)) @ utf8_of_utf16 (v # us))"

function encodeNameField :: "16 word list \<Rightarrow> nat \<Rightarrow> buffer" where
  "encodeNameField name maxBytes =
     (if length (utf8_of_utf16 name) > maxBytes then encodeNameField (butlast name) maxBytes
      else utf8_of_utf16 name)"
  by pat_completeness auto
termination encodeNameField
proof (relation "measure (\<lambda>(name, m). length name)")
  fix name :: "16 word list" and maxBytes :: nat
  assume "maxBytes < length (utf8_of_utf16 name)"
  then have "name \<noteq> []" by auto
  then show "((butlast name, maxBytes), (name, maxBytes)) \<in> measure (\<lambda>(name, m). length name)"
    by simp
qed simp

declare encodeNameField.simps [simp del]

definition buildDeviceNameBody :: "int \<Rightarrow> 16 word list \<Rightarrow> string \<Rightarrow> js_error + buffer" where
  "buildDeviceNameBody ch name accountId =
     (let field = encodeNameField name 127
      in res_bind (accountIdField accountId) (\<lambda>acc.
        Inr (u32le 0 @ [word_of_int (ch AND 0xff)] @ field @ replicate (128 - length field) 0 @ acc)))"

lemma accountIdField_length: "accountIdField a = Inr b \<Longrightarrow> length b = 128"
  by (auto simp: accountIdField_def Let_def split: if_splits)

lemma directBinary_length:
  "buildDirectBinaryBody v a ch = Inr b \<Longrightarrow> length b = (if ch = None then 132 else 136)"
  by (auto simp: buildDirectBinaryBody_def res_bind_Inr_conv write_u32le_def u32le_def
      dest: accountIdField_length split: option.splits if_splits)

text \<open>What a station reads at the offsets of a direct-binary body.\<close>

lemma directBinary_read:
  assumes "buildDirectBinaryBody v a (Some c) = Inr b"
  shows "u32le_at b 0 = nat c \<and> u32le_at b 4 = nat v \<and> take (length a) (drop 8 b) = take 128 (bytes_of_string a)"
proof -
  obtain acc where b: "b = u32le c @ u32le v @ acc" "0 \<le> c" "c < 4294967296" "0 \<le> v" "v < 4294967296"
    and acc: "accountIdField a = Inr acc"
    using assms by (auto simp: buildDirectBinaryBody_def res_bind_Inr_conv write_u32le_def split: if_splits)
  have "u32le_at b 0 = nat c" "u32le_at b 4 = nat v"
    using b le32.rd_at [of "[]" c "u32le v @ acc"] le32.rd_at [of "u32le c" v acc] le32.length_enc [of c]
    by simp_all
  moreover have "take (length a) (drop 8 b) = take 128 (bytes_of_string a)"
    using b acc by (auto simp: accountIdField_def Let_def u32le_def bytes_of_string_def take_map min_def split: if_splits)
  ultimately show ?thesis by blast
qed

lemma encodeNameField_fits: "length (encodeNameField name m) \<le> m"
proof (induction name m rule: encodeNameField.induct)
  case (1 name m)
  then show ?case by (subst encodeNameField.simps) simp
qed

lemma encodeNameField_whole: "length (utf8_of_utf16 name) \<le> m \<Longrightarrow> encodeNameField name m = utf8_of_utf16 name"
  by (subst encodeNameField.simps) simp

lemma deviceName_length: "buildDeviceNameBody ch name a = Inr b \<Longrightarrow> length b = 261 \<and> b ! 132 = 0"
  using encodeNameField_fits [of name 127]
  by (auto simp: buildDeviceNameBody_def Let_def res_bind_Inr_conv u32le_def nth_append dest!: accountIdField_length)

text \<open>
  A name cut inside a surrogate pair: dropping one code unit leaves the first half, three bytes of
  replacement that fit where the four of the pair did not.
\<close>

lemma name_cut_in_pair:
  "encodeNameField (replicate 124 0x61 @ [0xD83D, 0xDE00]) 127 = replicate 124 0x61 @ REPLACEMENT"
proof -
  have a: "utf8_of_utf16 (replicate n 0x61 @ u # us) = replicate n 0x61 @ utf8_of_utf16 (u # us)" for n u us
  proof (induction n)
    case (Suc n)
    show ?case using Suc by (cases n) (simp_all add: is_high_def is_low_def utf8_char_def)
  qed simp
  have b: "butlast (replicate 124 (0x61 :: 16 word) @ [0xD83D, 0xDE00]) = replicate 124 0x61 @ [0xD83D]"
    by (simp add: butlast_append)
  show ?thesis
    by (subst encodeNameField.simps, subst encodeNameField.simps)
      (simp add: a b is_high_def is_low_def utf8_char_def REPLACEMENT_def)
qed

section \<open>The LAN address of a station\<close>

definition octet_part :: "string \<Rightarrow> bool" where
  "octet_part s \<longleftrightarrow> is_digits s \<and> length s \<le> 3"

definition isPrivateIpv4 :: "string \<Rightarrow> bool" where
  "isPrivateIpv4 s =
     (case split_on (CHR ''.'') s of
        [p, q, r, t] \<Rightarrow>
          list_all octet_part [p, q, r, t] \<and> list_all (\<lambda>o1. digits_value o1 \<le> 255) [p, q, r, t] \<and>
          (let a = digits_value p; b = digits_value q
           in a = 10 \<or> (a = 172 \<and> 16 \<le> b \<and> b \<le> 31) \<or> (a = 192 \<and> b = 168))
      | _ \<Rightarrow> False)"

text \<open>
  The entries \<open>for ... of\<close> runs over: those of an array; the characters of a string, which hold no
  parameter; nothing for a missing value. Anything else is not iterable. Update times are integers.
\<close>

definition param_entries :: "json option \<Rightarrow> js_error + json list" where
  "param_entries v =
     (case v of None \<Rightarrow> Inr [] | Some JNull \<Rightarrow> Inr [] | Some (JArr ps) \<Rightarrow> Inr ps | Some (JStr s) \<Rightarrow> Inr []
      | _ \<Rightarrow> Inl TypeError)"

definition param_ip :: "json \<Rightarrow> (string \<times> int) option" where
  "param_ip p =
     (case json_get ''param_value'' p of
        Some (JStr v) \<Rightarrow>
          if v = [] \<or> \<not> isPrivateIpv4 v then None
          else Some (v, case json_get ''update_time'' p of Some (JInt n) \<Rightarrow> n | _ \<Rightarrow> 0)
      | _ \<Rightarrow> None)"

fun fresher :: "(string \<times> int) option \<Rightarrow> json list \<Rightarrow> (string \<times> int) option" where
  "fresher best [] = best"
| "fresher best (p # ps) =
     (case param_ip p of
        None \<Rightarrow> fresher best ps
      | Some (ip, ts) \<Rightarrow>
          fresher (case best of None \<Rightarrow> Some (ip, ts) | Some (_, t) \<Rightarrow> if ts > t then Some (ip, ts) else best) ps)"

definition record_ip :: "json option \<Rightarrow> string option" where
  "record_ip v = (case v of Some (JStr s) \<Rightarrow> if isPrivateIpv4 s then Some s else None | _ \<Rightarrow> None)"

definition freshestLanIp :: "json \<Rightarrow> js_error + string option" where
  "freshestLanIp raw =
     res_bind (param_entries (json_get ''params'' raw)) (\<lambda>ps.
       case fresher None ps of
         Some (ip, ts) \<Rightarrow> Inr (Some ip)
       | None \<Rightarrow>
           (case record_ip (json_get ''local_ip'' raw) of
              Some s \<Rightarrow> Inr (Some s)
            | None \<Rightarrow> Inr (record_ip (json_get ''ip_addr'' raw))))"

lemma fresher_spec:
  "fresher best ps = r \<Longrightarrow>
   (r = None \<longleftrightarrow> best = None \<and> (\<forall>p \<in> set ps. param_ip p = None)) \<and>
   (\<forall>x. r = Some x \<longrightarrow> (best = Some x \<or> (\<exists>p \<in> set ps. param_ip p = Some x)) \<and>
      (\<forall>y. best = Some y \<or> (\<exists>p \<in> set ps. param_ip p = Some y) \<longrightarrow> snd y \<le> snd x))"
proof (induction best ps arbitrary: r rule: fresher.induct)
  case (2 best p ps)
  show ?case
  proof (cases "param_ip p")
    case None
    then show ?thesis using 2 by simp
  next
    case (Some x)
    obtain ip ts where x: "x = (ip, ts)" by fastforce
    let ?b = "case best of None \<Rightarrow> Some (ip, ts) | Some (_, t) \<Rightarrow> if ts > t then Some (ip, ts) else best"
    note ih = 2(2) [OF Some x [symmetric], of r]
    have b: "\<exists>z. ?b = Some z \<and> (best = Some z \<or> z = x) \<and> snd x \<le> snd z \<and> (\<forall>y. best = Some y \<longrightarrow> snd y \<le> snd z)"
      by (cases best) (auto simp: x)
    then obtain z where z: "?b = Some z" "best = Some z \<or> z = x" "snd x \<le> snd z" "\<forall>y. best = Some y \<longrightarrow> snd y \<le> snd z"
      by blast
    have r: "fresher ?b ps = r" using 2(3) by (simp add: Some x)
    note h = ih [OF r, unfolded z(1)]
    have "r \<noteq> None" using h by simp
    then obtain w where w: "r = Some w" by blast
    have w1: "z = w \<or> (\<exists>q \<in> set ps. param_ip q = Some w)" using h w by auto
    have "\<forall>y. Some z = Some y \<or> (\<exists>p \<in> set ps. param_ip p = Some y) \<longrightarrow> snd y \<le> snd w" using h unfolding w by blast
    then have w2: "snd z \<le> snd w" "\<And>q y. q \<in> set ps \<Longrightarrow> param_ip q = Some y \<Longrightarrow> snd y \<le> snd w" by blast+
    have "best = Some w \<or> (\<exists>q \<in> set (p # ps). param_ip q = Some w)" using w1 z(2) Some by auto
    moreover have "snd y \<le> snd w" if y: "best = Some y \<or> (\<exists>q \<in> set (p # ps). param_ip q = Some y)" for y
    proof -
      consider "best = Some y" | "y = x" | q where "q \<in> set ps" "param_ip q = Some y"
        using y Some by fastforce
      then show ?thesis using w2 z(3,4) by cases (blast intro: order_trans)+
    qed
    ultimately show ?thesis using w Some by (metis list.set_intros(1) option.distinct(1) option.inject)
  qed
qed auto

text \<open>The address answered is private; while any parameter holds one, it is one of the newest of them.\<close>

lemma freshestLanIp_newest:
  assumes "json_get ''params'' raw = Some (JArr ps)" "p \<in> set ps" "param_ip p = Some (ip, ts)"
  shows "\<exists>q \<in> set ps. \<exists>ip' ts'. param_ip q = Some (ip', ts') \<and> freshestLanIp raw = Inr (Some ip') \<and> ts \<le> ts'"
proof -
  note f = fresher_spec [OF refl, of None ps]
  obtain x where x: "fresher None ps = Some x" using f assms(2,3) by (cases "fresher None ps") auto
  then obtain q where "q \<in> set ps" "param_ip q = Some x" "ts \<le> snd x" using f assms(2,3) by auto
  then show ?thesis using x assms(1) by (cases x) (auto simp: freshestLanIp_def param_entries_def)
qed

end
