(* ===== verification/P2p_Registry.thy ===== *)
theory P2p_Registry
  imports Session_Manager Live_Source P2p_Lifecycle
begin

text \<open>
  What \<open>P2PCommandRouter\<close> of \<open>src/transport/p2p/command-router.ts\<close> keeps per camera and per station, and the
  part of it that runs in one turn of the event loop: the shared live source and the talkback of a camera,
  the sources' calls back into the session manager, the manager's calls back into the registry, and what
  becomes of a station's sources when its session goes. The sources are those of \<open>Live_Source\<close>, the
  manager is that of \<open>Session_Manager\<close>. Sessions and talkbacks are numbers.
\<close>

section \<open>Device records and keys\<close>

record router_device =
  rdSn :: string
  rdStationSn :: "string option"
  rdP2pDid :: "string option"
  rdRaw :: json

text \<open>A member of the cloud record that is text. Serials, ids and addresses of a record are.\<close>

definition raw_text :: "string \<Rightarrow> json \<Rightarrow> string option" where
  "raw_text k j = (case json_get k j of Some (JStr s) \<Rightarrow> Some s | _ \<Rightarrow> None)"

definition recordFor :: "router_device list \<Rightarrow> string \<Rightarrow> router_device option" where
  "recordFor ds sn = List.find (\<lambda>d. rdSn d = sn) ds"

text \<open>The HomeBase of an attached device: another serial named as its parent.\<close>

definition parent_of :: "router_device \<Rightarrow> string option" where
  "parent_of d =
     (case raw_text ''parent_sn'' (rdRaw d) of
        None \<Rightarrow> None
      | Some p \<Rightarrow> if p \<noteq> [] \<and> p \<noteq> rdSn d then Some p else None)"

definition stationKeyFor :: "router_device \<Rightarrow> string" where
  "stationKeyFor d =
     (case parent_of d of Some p \<Rightarrow> p | None \<Rightarrow> (case rdStationSn d of Some s \<Rightarrow> s | None \<Rightarrow> rdSn d))"

definition stationKeyOf :: "router_device list \<Rightarrow> string \<Rightarrow> string" where
  "stationKeyOf ds sn = (case recordFor ds sn of None \<Rightarrow> sn | Some d \<Rightarrow> stationKeyFor d)"

definition claimsDevice :: "router_device \<Rightarrow> bool" where
  "claimsDevice d \<longleftrightarrow> (case rdP2pDid d of None \<Rightarrow> False | Some p \<Rightarrow> p \<noteq> [])"

definition camera_key :: "string \<Rightarrow> int \<Rightarrow> string" where
  "camera_key parentSn ch = parentSn @ '':'' @ show_int ch"

definition at_station :: "string \<Rightarrow> string \<Rightarrow> bool" where
  "at_station stationSn key \<longleftrightarrow> starts_with (stationSn @ '':'') key"

section \<open>State\<close>

record shared_opts =
  shEccPrivateKey :: "buffer option"
  shKeepAliveMs :: "int option"
  shLingerMs :: "int option"
  shPreBufferSeconds :: "int option"
  shPowered :: "power_tier option"
  shBatteryBudgetMs :: "int option"
  shBudgetGraceMs :: "int option"

text \<open>What a source's callbacks hold: its device, station and key, its options, and the cell of its session.\<close>

record source_info =
  ifSn :: string
  ifParent :: string
  ifKey :: string
  ifOpts :: shared_opts
  ifHeld :: nat

datatype registry_out =
    StationClosed string
  | TalkStopped nat
  | OptionsIgnored string "string list"
  | StreamOn nat nat

text \<open>
  The closes begun for a failed start, with their caller, and the keys they drop; the replacements under
  way, with the source that asked.
\<close>

record registry =
  rgManager :: manager
  rgOpts :: manager_opts
  rgDevices :: "router_device list"
  rgSources :: "(string \<times> nat) list"
  rgSource :: "nat \<Rightarrow> source"
  rgInfo :: "nat \<Rightarrow> source_info"
  rgNext :: nat
  rgTalks :: "(string \<times> nat) list"
  rgNextTalk :: nat
  rgFailing :: "(nat \<times> string) list"
  rgReplacing :: "(nat \<times> nat) list"
  rgNextCaller :: nat
  rgLog :: "registry_out list"

definition no_opts :: shared_opts where
  "no_opts = \<lparr>shEccPrivateKey = None, shKeepAliveMs = None, shLingerMs = None, shPreBufferSeconds = None,
              shPowered = None, shBatteryBudgetMs = None, shBudgetGraceMs = None\<rparr>"

definition no_info :: source_info where
  "no_info = \<lparr>ifSn = [], ifParent = [], ifKey = [], ifOpts = no_opts, ifHeld = 0\<rparr>"

definition new_registry :: "manager_opts \<Rightarrow> (string \<Rightarrow> power_tier) \<Rightarrow> registry" where
  "new_registry opts tier =
     \<lparr>rgManager = new_manager tier, rgOpts = opts, rgDevices = [], rgSources = [], rgSource = (\<lambda>_. new_source),
      rgInfo = (\<lambda>_. no_info), rgNext = 0, rgTalks = [], rgNextTalk = 0, rgFailing = [], rgReplacing = [],
      rgNextCaller = 0, rgLog = []\<rparr>"

definition rg_note :: "registry_out \<Rightarrow> registry \<Rightarrow> registry" where
  "rg_note x r = r\<lparr>rgLog := rgLog r @ [x]\<rparr>"

text \<open>
  The options a source is built from. Its stream can be nudged and its owner replaces an unreachable
  session; a window of seconds is whole.
\<close>

definition source_options :: "shared_opts \<Rightarrow> live_options" where
  "source_options o1 =
     \<lparr>oMaxQueue = 900,
      oPreBufferMs = (case shPreBufferSeconds o1 of None \<Rightarrow> 0 | Some n \<Rightarrow> if n > 0 then n * 1000 else 0),
      oBattery = (shPowered o1 = Some Battery), oHasNudge = True, oReplaces = True\<rparr>"

section \<open>A station's session goes\<close>

definition set_source :: "nat \<Rightarrow> source \<Rightarrow> registry \<Rightarrow> registry" where
  "set_source k s r = r\<lparr>rgSource := (rgSource r)(k := s)\<rparr>"

definition forget_key :: "string \<Rightarrow> registry \<Rightarrow> registry" where
  "forget_key key r = r\<lparr>rgSources := filter (\<lambda>(j, _). j \<noteq> key) (rgSources r)\<rparr>"

text \<open>
  \<open>dropLiveSource\<close>. A source that is disposed tells its owner nothing but \<open>onIdle\<close>, when it had
  consumers; what the owner does then is \<open>rel\<close>. What an operation of a source asks of its owner is done
  when the operation is over, but for what a release of the station does to the source itself, which is
  foreseen (\<open>release_closes\<close>).
\<close>

definition idle_effects :: "(string \<Rightarrow> registry \<Rightarrow> registry) \<Rightarrow> string \<Rightarrow> effect list \<Rightarrow> registry \<Rightarrow> registry" where
  "idle_effects rel parentSn es r = foldl (\<lambda>r e. if e = OnIdle then rel parentSn r else r) r es"

definition drop_with :: "(string \<Rightarrow> registry \<Rightarrow> registry) \<Rightarrow> string \<Rightarrow> registry \<Rightarrow> registry" where
  "drop_with rel key r =
     (case map_of (rgSources r) key of
        None \<Rightarrow> r
      | Some k \<Rightarrow>
          (let s = rgSource r k; s' = dispose s
           in forget_key key
                (idle_effects rel (ifParent (rgInfo r k)) (drop (length (sEffects s)) (sEffects s')) (set_source k s' r))))"

text \<open>
  In \<open>tearDownStation\<close> the station's entry is gone before its sources are dropped, so that the release of
  their users finds no entry and the manager has nothing to announce.
\<close>

definition plain_release :: "string \<Rightarrow> registry \<Rightarrow> registry" where
  "plain_release sn r = r\<lparr>rgManager := sm_release (rgOpts r) sn (rgManager r)\<rparr>"

definition stop_talks :: "string \<Rightarrow> registry \<Rightarrow> registry" where
  "stop_talks stationSn r =
     r\<lparr>rgTalks := filter (\<lambda>(key, _). \<not> at_station stationSn key) (rgTalks r),
       rgLog := rgLog r @ map (\<lambda>(_, t). TalkStopped t) (filter (\<lambda>(key, _). at_station stationSn key) (rgTalks r))\<rparr>"

definition drop_station :: "string \<Rightarrow> registry \<Rightarrow> registry" where
  "drop_station stationSn r =
     foldl (\<lambda>r key. drop_with plain_release key r) r (filter (at_station stationSn) (map fst (rgSources r)))"

definition tearDownStation :: "string \<Rightarrow> registry \<Rightarrow> registry" where
  "tearDownStation stationSn r =
     rg_note (StationClosed stationSn)
       (stop_talks stationSn (drop_station stationSn (r\<lparr>rgManager := sm_remove stationSn (rgManager r)\<rparr>)))"

text \<open>The manager does something; the closes nobody asked for are announced.\<close>

definition announce :: "registry \<Rightarrow> manager_out \<Rightarrow> registry" where
  "announce r x = (case x of AutoClosed sn \<Rightarrow> tearDownStation sn r | _ \<Rightarrow> r)"

definition rg_manager :: "(manager \<Rightarrow> manager) \<Rightarrow> registry \<Rightarrow> registry" where
  "rg_manager f r =
     (let m = rgManager r; m' = f m
      in foldl announce (r\<lparr>rgManager := m'\<rparr>) (drop (length (mgLog m)) (mgLog m')))"

definition rg_release :: "string \<Rightarrow> registry \<Rightarrow> registry" where
  "rg_release sn r = rg_manager (sm_release (rgOpts r) sn) r"

definition dropLiveSource :: "string \<Rightarrow> registry \<Rightarrow> registry" where
  "dropLiveSource = drop_with rg_release"

text \<open>The listener of a session's \<open>close\<close>.\<close>

definition onSessionClose :: "nat \<Rightarrow> string \<Rightarrow> registry \<Rightarrow> registry" where
  "onSessionClose sess stationSn r = (if sm_get stationSn (rgManager r) \<noteq> Some sess then r else tearDownStation stationSn r)"

section \<open>What a source asks of its owner\<close>

text \<open>
  A start that failed: an attached camera's source is dropped; a standalone device's session is closed, and
  the source dropped when that is over, whatever is under the key by then.
\<close>

definition onLiveStartFailed :: "string \<Rightarrow> string \<Rightarrow> registry \<Rightarrow> registry" where
  "onLiveStartFailed sn key r =
     (let station = stationKeyOf (rgDevices r) sn in
      if station \<noteq> sn then dropLiveSource key r
      else (rg_manager (sm_close station (rgNextCaller r)) r)
             \<lparr>rgNextCaller := rgNextCaller r + 1, rgFailing := rgFailing r @ [(rgNextCaller r, key)]\<rparr>)"

definition startFailedOver :: "nat \<Rightarrow> registry \<Rightarrow> registry" where
  "startFailedOver c r =
     (case map_of (rgFailing r) c of
        None \<Rightarrow> r
      | Some key \<Rightarrow> dropLiveSource key (r\<lparr>rgFailing := filter (\<lambda>(d, _). d \<noteq> c) (rgFailing r)\<rparr>))"

text \<open>
  A session nothing acknowledges: up to the first \<open>await\<close> of \<open>replaceUnreachableSession\<close>, and what it does
  once \<open>resolveSession\<close> has answered. The cell belongs to the source that asked, the source that warms
  again is the one under its key.
\<close>

definition replaceUnreachableSession :: "nat \<Rightarrow> registry \<Rightarrow> registry" where
  "replaceUnreachableSession k r =
     (let station = stationKeyOf (rgDevices r) (ifSn (rgInfo r k)) in
      if station \<noteq> ifSn (rgInfo r k) then r
      else (rg_manager (sm_close station (rgNextCaller r)) r)
             \<lparr>rgNextCaller := rgNextCaller r + 1, rgReplacing := rgReplacing r @ [(rgNextCaller r, k)]\<rparr>)"

definition owner :: "nat \<Rightarrow> registry \<Rightarrow> effect \<Rightarrow> registry" where
  "owner k r e =
     (case e of
        OnActive \<Rightarrow> r\<lparr>rgManager := sm_retain (ifParent (rgInfo r k)) (rgManager r)\<rparr>
      | OnIdle \<Rightarrow> rg_release (ifParent (rgInfo r k)) r
      | OnStartFailed \<Rightarrow> onLiveStartFailed (ifSn (rgInfo r k)) (ifKey (rgInfo r k)) r
      | OnSessionUnreachable \<Rightarrow> replaceUnreachableSession k r
      | StreamOpened \<Rightarrow> rg_note (StreamOn k (ifHeld (rgInfo r k))) r
      | _ \<Rightarrow> r)"

text \<open>
  Whether the release of the station's user that a last consumer's leave brings would close the station: its
  close waits for that user. Then the router tears the station down within the call, and the source with it.
\<close>

definition release_closes :: "nat \<Rightarrow> registry \<Rightarrow> bool" where
  "release_closes k r =
     (let p = ifParent (rgInfo r k);
          m = (if sConsumers (rgSource r k) = [] then sm_retain p (rgManager r) else rgManager r)
      in AutoClosed p \<in> set (drop (length (mgLog m)) (mgLog (sm_release (rgOpts r) p m))))"

definition foreseen :: "nat \<Rightarrow> registry \<Rightarrow> source" where
  "foreseen k r = (rgSource r k)\<lparr>sOwnerDisposes := release_closes k r\<rparr>"

definition source_does :: "(source \<Rightarrow> source) \<Rightarrow> nat \<Rightarrow> registry \<Rightarrow> registry" where
  "source_does f k r =
     (let s = foreseen k r; s' = f s
      in foldl (owner k) (set_source k s' r) (drop (length (sEffects s)) (sEffects s')))"

definition sessionReplaced :: "nat \<Rightarrow> nat option \<Rightarrow> registry \<Rightarrow> registry" where
  "sessionReplaced c answer r =
     (case map_of (rgReplacing r) c of
        None \<Rightarrow> r
      | Some k \<Rightarrow>
          (let r1 = r\<lparr>rgReplacing := filter (\<lambda>(d, _). d \<noteq> c) (rgReplacing r)\<rparr> in
           case answer of
             None \<Rightarrow> r1
           | Some sess \<Rightarrow>
               (case map_of (rgSources r1) (ifKey (rgInfo r1 k)) of
                  None \<Rightarrow> r1
                | Some j \<Rightarrow>
                    source_does rewarm j
                      (r1\<lparr>rgInfo := (rgInfo r1)(k := (rgInfo r1 k)\<lparr>ifHeld := sess\<rparr>)\<rparr>))))"

section \<open>Acquiring a live source\<close>

definition releaseLingeringSiblings :: "string \<Rightarrow> int \<Rightarrow> registry \<Rightarrow> registry" where
  "releaseLingeringSiblings parentSn ch r =
     foldl (\<lambda>r (key, k).
       if \<not> at_station parentSn key \<or> key = camera_key parentSn ch \<or> sConsumers (rgSource r k) \<noteq> [] then r
       else dropLiveSource key r) r (rgSources r)"

definition serves :: "registry \<Rightarrow> nat \<Rightarrow> bool" where
  "serves r k \<longleftrightarrow> sState (rgSource r k) \<noteq> Stopped \<and> sConsumers (rgSource r k) \<noteq> []"

text \<open>The channel is read back from the key, which a number made.\<close>

definition occupiedSiblingChannel :: "string \<Rightarrow> string \<Rightarrow> registry \<Rightarrow> int option" where
  "occupiedSiblingChannel parentSn key r =
     (case List.find (\<lambda>(j, k). j \<noteq> key \<and> at_station parentSn j \<and> serves r k) (rgSources r) of
        None \<Rightarrow> None
      | Some (j, k) \<Rightarrow> parse_int10 (drop (length parentSn + 1) j))"

definition asked_opts :: "shared_opts \<Rightarrow> shared_opts \<Rightarrow> string list" where
  "asked_opts o1 first =
     (if shEccPrivateKey o1 \<noteq> None \<and> shEccPrivateKey o1 \<noteq> shEccPrivateKey first then [''eccPrivateKey''] else []) @
     (if shKeepAliveMs o1 \<noteq> None \<and> shKeepAliveMs o1 \<noteq> shKeepAliveMs first then [''keepAliveMs''] else []) @
     (if shLingerMs o1 \<noteq> None \<and> shLingerMs o1 \<noteq> shLingerMs first then [''lingerMs''] else []) @
     (if shPreBufferSeconds o1 \<noteq> None \<and> shPreBufferSeconds o1 \<noteq> shPreBufferSeconds first then [''preBufferSeconds''] else []) @
     (if shPowered o1 \<noteq> None \<and> shPowered o1 \<noteq> shPowered first then [''powered''] else []) @
     (if shBatteryBudgetMs o1 \<noteq> None \<and> shBatteryBudgetMs o1 \<noteq> shBatteryBudgetMs first then [''batteryBudgetMs''] else []) @
     (if shBudgetGraceMs o1 \<noteq> None \<and> shBudgetGraceMs o1 \<noteq> shBudgetGraceMs first then [''budgetGraceMs''] else [])"

definition warnIgnoredLiveOpts :: "string \<Rightarrow> shared_opts \<Rightarrow> registry \<Rightarrow> registry" where
  "warnIgnoredLiveOpts key o1 r =
     (case map_of (rgSources r) key of
        None \<Rightarrow> r
      | Some k \<Rightarrow>
          (let ignored = asked_opts o1 (ifOpts (rgInfo r k))
           in if ignored = [] then r else rg_note (OptionsIgnored key ignored) r))"

text \<open>\<open>sharedLiveSourceFor\<close> once the session is resolved. The error names the channel being served.\<close>

datatype busy = StationBusy int

definition build_source :: "string \<Rightarrow> string \<Rightarrow> string \<Rightarrow> nat \<Rightarrow> shared_opts \<Rightarrow> registry \<Rightarrow> registry" where
  "build_source sn parentSn key sess o1 r =
     r\<lparr>rgSource := (rgSource r)(rgNext r := new_source),
       rgInfo := (rgInfo r)(rgNext r := \<lparr>ifSn = sn, ifParent = parentSn, ifKey = key, ifOpts = o1, ifHeld = sess\<rparr>),
       rgSources := rgSources r @ [(key, rgNext r)], rgNext := rgNext r + 1\<rparr>"

definition drop_stopped :: "string \<Rightarrow> registry \<Rightarrow> registry" where
  "drop_stopped key r =
     (case map_of (rgSources r) key of
        None \<Rightarrow> r
      | Some k \<Rightarrow> if sState (rgSource r k) = Stopped then dropLiveSource key r else r)"

definition sharedLiveSource ::
  "string \<Rightarrow> string \<Rightarrow> int \<Rightarrow> bool \<Rightarrow> nat \<Rightarrow> shared_opts \<Rightarrow> registry \<Rightarrow> (busy + nat) \<times> registry" where
  "sharedLiveSource sn parentSn ch homeBaseAttached sess o1 r =
     (let key = camera_key parentSn ch;
          r1 = drop_stopped key r;
          found = (case map_of (rgSources r) key of
                     None \<Rightarrow> None
                   | Some k \<Rightarrow> if sState (rgSource r k) = Stopped then None else Some k);
          r2 = releaseLingeringSiblings parentSn ch r1
      in case (if homeBaseAttached then occupiedSiblingChannel parentSn key r2 else None) of
           Some serving \<Rightarrow> (Inl (StationBusy serving), r2)
         | None \<Rightarrow>
             (case found of
                None \<Rightarrow> (Inr (rgNext r2), build_source sn parentSn key sess o1 r2)
              | Some k \<Rightarrow> (Inr k, warnIgnoredLiveOpts key o1 r2)))"

section \<open>Talkbacks\<close>

text \<open>
  The claim of \<open>openTalkback\<close> on a camera, decided and recorded at once; the check of it when the media
  source is warm; and its end, by a \<open>stop\<close> of the talkback or a failure on the way.
\<close>

definition claimTalkback :: "string \<Rightarrow> registry \<Rightarrow> nat option \<times> registry" where
  "claimTalkback key r =
     (if map_of (rgTalks r) key \<noteq> None then (None, r)
      else (Some (rgNextTalk r), r\<lparr>rgTalks := rgTalks r @ [(key, rgNextTalk r)], rgNextTalk := rgNextTalk r + 1\<rparr>))"

definition holdsTalkback :: "string \<Rightarrow> nat \<Rightarrow> registry \<Rightarrow> bool" where
  "holdsTalkback key t r \<longleftrightarrow> map_of (rgTalks r) key = Some t"

definition endTalkback :: "string \<Rightarrow> nat \<Rightarrow> registry \<Rightarrow> registry" where
  "endTalkback key t r =
     (if holdsTalkback key t r then r\<lparr>rgTalks := filter (\<lambda>(j, _). j \<noteq> key) (rgTalks r)\<rparr> else r)"

section \<open>The registry's life\<close>

definition dispose_all :: "registry \<Rightarrow> registry" where
  "dispose_all r = foldl (\<lambda>r (key, k). source_does dispose k r) r (rgSources r)"

text \<open>\<open>closeAll\<close>: the talkbacks, and once they have stopped the sources and the stations.\<close>

definition closeTalkbacks :: "registry \<Rightarrow> registry" where
  "closeTalkbacks r = r\<lparr>rgTalks := [], rgLog := rgLog r @ map (\<lambda>(_, t). TalkStopped t) (rgTalks r)\<rparr>"

definition closeAllStations :: "nat \<Rightarrow> registry \<Rightarrow> registry" where
  "closeAllStations c r = rg_manager (sm_closeAll c) ((dispose_all r)\<lparr>rgSources := []\<rparr>)"

datatype registry_event =
    Devices "router_device list"
  | GetSource string string int bool nat shared_opts
  | SourceEvent nat live_event
  | ManagerEvent manager_event
  | SessionEnds nat string
  | StartFailedOver nat
  | SessionReplaced nat "nat option"
  | RebuildPath string nat
  | CloseTalks
  | RouterCloseAll nat
  | ClaimTalk string
  | EndTalk string nat

text \<open>What only the router itself does to a source and to the manager.\<close>

fun own_source_event :: "live_event \<Rightarrow> bool" where
  "own_source_event Rewarm = True"
| "own_source_event (OwnerWill b) = True"
| "own_source_event Dispose = True"
| "own_source_event _ = False"

fun own_manager_event :: "manager_event \<Rightarrow> bool" where
  "own_manager_event (Retain sn) = True"
| "own_manager_event (Release sn) = True"
| "own_manager_event (Remove sn) = True"
| "own_manager_event (CloseStation sn c) = True"
| "own_manager_event (CloseAll c) = True"
| "own_manager_event _ = False"

fun registry_step :: "registry \<Rightarrow> registry_event \<Rightarrow> registry" where
  "registry_step r (Devices ds) = r\<lparr>rgDevices := ds\<rparr>"
| "registry_step r (GetSource sn p ch att sess o1) = snd (sharedLiveSource sn p ch att sess o1 r)"
| "registry_step r (SourceEvent k ev) =
     (if own_source_event ev \<or> rgNext r \<le> k then r
      else source_does (\<lambda>s. live_step (source_options (ifOpts (rgInfo r k))) s ev) k r)"
| "registry_step r (ManagerEvent ev) =
     (if own_manager_event ev then r else rg_manager (\<lambda>m. manager_step (rgOpts r) m ev) r)"
| "registry_step r (SessionEnds sess sn) = onSessionClose sess sn r"
| "registry_step r (StartFailedOver c) = startFailedOver c r"
| "registry_step r (SessionReplaced c answer) = sessionReplaced c answer r"
| "registry_step r (RebuildPath sn c) = rg_manager (sm_close sn c) r"
| "registry_step r CloseTalks = closeTalkbacks r"
| "registry_step r (RouterCloseAll c) = closeAllStations c r"
| "registry_step r (ClaimTalk key) = snd (claimTalkback key r)"
| "registry_step r (EndTalk key t) = endTalkback key t r"

definition registry_run :: "manager_opts \<Rightarrow> (string \<Rightarrow> power_tier) \<Rightarrow> registry_event list \<Rightarrow> registry" where
  "registry_run opts tier evs = foldl registry_step (new_registry opts tier) evs"

section \<open>The count of an entry\<close>

text \<open>What the entry of a serial retains, and how many holds are among it.\<close>

definition tally :: "string \<Rightarrow> manager \<Rightarrow> (nat \<times> nat) option" where
  "tally sn m = map_option (\<lambda>e. (enRetained (mgStore m e), length (enHolds (mgStore m e)))) (map_of (mgEntries m) sn)"

lemma tally_ext: "mgEntries m' = mgEntries m \<Longrightarrow> mgStore m' = mgStore m \<Longrightarrow> tally sn m' = tally sn m"
  by (simp add: tally_def)

lemma tally_fields [simp]:
  "tally sn (m\<lparr>mgLog := x\<rparr>) = tally sn m" "tally sn (m\<lparr>mgOpens := os\<rparr>) = tally sn m"
  "tally sn (m\<lparr>mgSuperseded := os\<rparr>) = tally sn m" "tally sn (m\<lparr>mgNextOpen := n\<rparr>) = tally sn m"
  "tally sn (m\<lparr>mgClosing := cs\<rparr>) = tally sn m" "tally sn (m\<lparr>mgAlls := as\<rparr>) = tally sn m"
  "tally sn (m\<lparr>mgTier := tr\<rparr>) = tally sn m" "tally sn (m\<lparr>mgGeneration := n\<rparr>) = tally sn m"
  "tally sn (m\<lparr>mgTimers := ts\<rparr>) = tally sn m" "tally sn (m\<lparr>mgNextTimer := n\<rparr>) = tally sn m"
  "tally sn (sm_log y m) = tally sn m" "tally sn (settle ds ok m) = tally sn m"
  "tally sn (close_alls e ok m) = tally sn m"
  by (simp_all add: tally_def sm_log_def settle_def close_alls_def Let_def)

text \<open>An entry changed in place, its counts kept, or changed where the serial has another entry.\<close>

lemma tally_at:
  "enRetained (f (mgStore m e)) = enRetained (mgStore m e) \<Longrightarrow>
    length (enHolds (f (mgStore m e))) = length (enHolds (mgStore m e)) \<Longrightarrow> tally sn (at_entry e f m) = tally sn m"
  by (cases "map_of (mgEntries m) sn") (auto simp: tally_def at_entry_def)

lemma tally_else: "map_of (mgEntries m) sn \<noteq> Some e \<Longrightarrow> tally sn (at_entry e f m) = tally sn m"
  by (cases "map_of (mgEntries m) sn") (auto simp: tally_def at_entry_def)

lemma tally_here:
  "map_of (mgEntries m) sn = Some e \<Longrightarrow>
    tally sn (at_entry e f m) = Some (enRetained (f (mgStore m e)), length (enHolds (f (mgStore m e))))"
  by (simp add: tally_def at_entry_def)

lemma other_entry:
  "manager_ok m \<Longrightarrow> map_of (mgEntries m) sn = Some e \<Longrightarrow> k \<noteq> sn \<Longrightarrow> map_of (mgEntries m) k \<noteq> Some e"
  by (metis entry_of_serial entry_unique manager_okD(1))

lemma fresh_entry: "manager_ok m \<Longrightarrow> map_of (mgEntries m) k \<noteq> Some (mgNext m)"
proof
  assume m: "manager_ok m" and "map_of (mgEntries m) k = Some (mgNext m)"
  then have "registered m (mgNext m)" using map_of_SomeD by (force simp: registered_def)
  then show False using manager_okD(1) [OF m] by (auto simp: registry_ok_def)
qed

lemma tally_entry:
  assumes "manager_ok m" "sm_entry sn m = (e, m1)"
  shows "tally k m1 = (if k = sn \<and> tally sn m = None then Some (0, 0) else tally k m) \<and> map_of (mgEntries m1) sn = Some e"
proof (cases "map_of (mgEntries m) sn")
  case None
  then have m1: "e = mgNext m" "m1 = m\<lparr>mgEntries := mgEntries m @ [(sn, mgNext m)], mgNext := mgNext m + 1,
      mgStore := (mgStore m)(mgNext m := new_entry)\<rparr>"
    using assms(2) by (auto simp: sm_entry_def)
  show ?thesis
    using None fresh_entry [OF assms(1), of k]
    by (cases "map_of (mgEntries m) k") (auto simp: m1 tally_def map_add_def new_entry_def)
next
  case (Some e')
  then show ?thesis using assms(2) by (auto simp: sm_entry_def tally_def)
qed

lemma tally_discard:
  assumes "manager_ok m" "sm_discard sn m = Some (e, m1)"
  shows "tally k m1 = (if k = sn then None else tally k m)"
proof -
  have e: "map_of (mgEntries m) sn = Some e" using assms(2) by (auto simp: sm_discard_def)
  have f: "map_of (filter (\<lambda>(j, _). j \<noteq> sn) es) i = (if i = sn then None else map_of es i)" for es :: "(string \<times> nat) list" and i
    by (induction es) auto
  have m1: "map_of (mgEntries m1) i = (if i = sn then None else map_of (mgEntries m) i)"
    "e' \<noteq> e \<Longrightarrow> mgStore m1 e' = mgStore m e'" for i e'
    using assms(2) by (auto simp: sm_discard_def e f at_entry_def)
  show ?thesis using other_entry [OF assms(1) e, of k] m1(2)
    by (cases "map_of (mgEntries m) k") (auto simp: tally_def m1(1))
qed

lemma tally_closeEntry: "tally k (sm_closeEntry e cs m) = tally k m"
  by (simp add: sm_closeEntry_def Let_def split: option.split)

lemma tally_settleReset: "tally k (sm_settleReset e ok m) = tally k m"
  by (simp add: sm_settleReset_def tally_at)

lemma tally_autoClose: "manager_ok m \<Longrightarrow> tally k (sm_autoClose sn cs m) = (if k = sn then None else tally k m)"
proof (cases "sm_discard sn m")
  case None
  then have "tally sn m = None" by (simp add: sm_discard_def tally_def)
  then show ?thesis by (simp add: sm_autoClose_def None)
next
  case (Some p)
  assume "manager_ok m"
  then have "tally i (snd p) = (if i = sn then None else tally i m)" for i
    using Some tally_discard [of m sn "fst p" "snd p" i] by simp
  then show ?thesis using Some by (cases p) (simp add: sm_autoClose_def tally_closeEntry)
qed

lemma tally_remove: "manager_ok m \<Longrightarrow> tally k (sm_remove sn m) = (if k = sn then None else tally k m)"
proof (cases "sm_discard sn m")
  case None
  then have "tally sn m = None" by (simp add: sm_discard_def tally_def)
  then show ?thesis by (simp add: sm_remove_def None)
next
  case (Some p)
  assume "manager_ok m"
  then have "tally i (snd p) = (if i = sn then None else tally i m)" for i
    using Some tally_discard [of m sn "fst p" "snd p" i] by simp
  then show ?thesis using Some by (cases p) (simp add: sm_remove_def tally_settleReset)
qed

lemma tally_close: "manager_ok m \<Longrightarrow> tally k (sm_close sn c m) = (if k = sn then None else tally k m)"
proof (cases "sm_discard sn m")
  case None
  then have "tally sn m = None" by (simp add: sm_discard_def tally_def)
  then show ?thesis by (simp add: sm_close_def None)
next
  case (Some p)
  assume "manager_ok m"
  then have "tally i (snd p) = (if i = sn then None else tally i m)" for i
    using Some tally_discard [of m sn "fst p" "snd p" i] by simp
  then show ?thesis using Some by (cases p) (simp add: sm_close_def tally_closeEntry)
qed

lemma tally_retain:
  assumes "manager_ok m"
  shows "tally k (sm_retain sn m) =
    (if k = sn then Some (case tally sn m of None \<Rightarrow> (1, 0) | Some (a, b) \<Rightarrow> (a + 1, b)) else tally k m)"
proof -
  obtain e m1 where e: "sm_entry sn m = (e, m1)" by fastforce
  have ok: "manager_ok m1" using ok_entry(1) [OF assms e] .
  note t = tally_entry [OF assms e]
  have r: "sm_retain sn m = at_entry e (\<lambda>x. x\<lparr>enRetained := enRetained x + 1, enIdle := None\<rparr>) m1"
    by (simp add: sm_retain_def e)
  have s: "map_of (mgEntries m1) sn = Some e" using t by blast
  show ?thesis
  proof (cases "k = sn")
    case True
    have "tally sn m1 = Some (enRetained (mgStore m1 e), length (enHolds (mgStore m1 e)))" by (simp add: tally_def s)
    then show ?thesis using True t [of sn] s
      by (cases "tally sn m") (auto simp: r tally_here [OF s])
  next
    case False
    then show ?thesis using t [of k] other_entry [OF ok s False] by (simp add: r tally_else)
  qed
qed

lemma tally_hold:
  assumes "manager_ok m"
  shows "tally k (sm_hold sn ms m) =
    (if k = sn then Some (case tally sn m of None \<Rightarrow> (1, 1) | Some (a, b) \<Rightarrow> (a + 1, b + 1)) else tally k m)"
proof -
  obtain e m1 where e: "sm_entry sn m = (e, m1)" by fastforce
  have ok: "manager_ok m1" using ok_entry(1) [OF assms e] .
  note t = tally_entry [OF assms e]
  have s: "map_of (mgEntries m1) sn = Some e" using t by blast
  have re: "sm_retain sn m1 = at_entry e (\<lambda>x. x\<lparr>enRetained := enRetained x + 1, enIdle := None\<rparr>) m1"
    using s by (simp add: sm_retain_def sm_entry_def)
  have s2: "map_of (mgEntries (sm_retain sn m1)) sn = Some e" using s by (simp add: re at_entry_def)
  have h: "sm_hold sn ms m =
      (at_entry e (\<lambda>x. x\<lparr>enHolds := enHolds x @ [mgNextTimer (sm_retain sn m1)]\<rparr>) (sm_retain sn m1))
        \<lparr>mgTimers := mgTimers (sm_retain sn m1) @ [(mgNextTimer (sm_retain sn m1), e, sn, ms)],
         mgNextTimer := mgNextTimer (sm_retain sn m1) + 1\<rparr>"
    by (simp add: sm_hold_def e Let_def)
  show ?thesis
  proof (cases "k = sn")
    case True
    have "tally sn m1 = Some (enRetained (mgStore m1 e), length (enHolds (mgStore m1 e)))" by (simp add: tally_def s)
    then show ?thesis using True t [of sn] s
      by (cases "tally sn m") (auto simp: h re at_entry_def tally_def)
  next
    case False
    then show ?thesis using t [of k] other_entry [OF ok_retain [OF ok] s2 False] tally_retain [OF ok, of k sn]
      by (simp add: h tally_else)
  qed
qed

text \<open>The entry of a station is retained by its holds and by \<open>n\<close> others; a station without one, by nobody.\<close>

definition owes :: "string \<Rightarrow> manager \<Rightarrow> int \<Rightarrow> bool" where
  "owes sn m n \<longleftrightarrow> (case tally sn m of None \<Rightarrow> n = 0 | Some (a, b) \<Rightarrow> int a = int b + n)"

lemma owes_ext: "tally sn m' = tally sn m \<Longrightarrow> owes sn m' n = owes sn m n"
  by (simp add: owes_def)

lemma owes_retain: "manager_ok m \<Longrightarrow> owes k (sm_retain sn m) n = owes k m (if k = sn then n - 1 else n)"
  by (auto simp: owes_def tally_retain split: option.splits)

lemma armIdle_counts: "tally k (sm_armIdle opts sn e m) = tally k m"
  by (simp add: sm_armIdle_def tally_at)

lemma release_other: "manager_ok m \<Longrightarrow> k \<noteq> sn \<Longrightarrow> tally k (sm_release opts sn m) = tally k m"
proof (cases "map_of (mgEntries m) sn")
  case (Some e)
  assume m: "manager_ok m" and k: "k \<noteq> sn"
  have "tally k (sm_release opts sn m) = map_option (\<lambda>e. (enRetained (mgStore m e), length (enHolds (mgStore m e))))
      (map_of (mgEntries (sm_release opts sn m)) k)"
    using release_apart(1) [OF _ Some, of _ opts] release_apart(2) [OF k, of opts m] other_entry [OF m Some k]
    by (cases "map_of (mgEntries m) k") (auto simp: tally_def)
  then show ?thesis using release_apart(2) [OF k, of opts m] by (simp add: tally_def)
qed (simp add: sm_release_def)

lemma autoClose_gone: "tally sn (sm_autoClose sn cs m) = None"
proof (cases "sm_discard sn m")
  case None
  then have "tally sn m = None" by (simp add: sm_discard_def tally_def)
  then show ?thesis by (simp add: sm_autoClose_def None)
next
  case (Some p)
  then have "map_of (mgEntries (snd p)) sn = None" by (auto simp: sm_discard_def map_of_eq_None_iff)
  then have "tally sn (snd p) = None" by (simp add: tally_def)
  then show ?thesis using Some by (cases p) (simp add: sm_autoClose_def tally_closeEntry)
qed

lemma owes_release:
  assumes "manager_ok m" "owes sn m (n + 1)" "0 \<le> n"
  shows "owes sn (sm_release opts sn m) n"
proof (cases "map_of (mgEntries m) sn")
  case None
  then show ?thesis using assms(2,3) by (simp add: owes_def tally_def)
next
  case (Some e)
  let ?x = "mgStore m e" and ?m = "at_entry e (\<lambda>x. x\<lparr>enRetained := enRetained x - 1\<rparr>) m"
  have c: "int (enRetained ?x) = int (length (enHolds ?x)) + n + 1" using assms(2) Some by (simp add: owes_def tally_def)
  have t: "tally sn ?m = Some (enRetained ?x - 1, length (enHolds ?x))" using tally_here [OF Some] by simp
  show ?thesis
  proof (cases "enReset ?x \<noteq> None \<and> enRetained ?x - 1 \<le> length (enHolds ?x)")
    case True
    then have r: "sm_release opts sn m = sm_autoClose sn [] ?m"
      using c assms(3) by (simp add: sm_release_def Some Let_def entry_store)
    have n: "n = 0" using True c assms(3) by linarith
    show ?thesis using n autoClose_gone [of sn "[]" ?m] by (simp only: r owes_def option.case)
  next
    case False
    then have "sm_release opts sn m = (if enRetained ?x - 1 = 0 then sm_armIdle opts sn e ?m else ?m)"
      using c assms(3) by (auto simp: sm_release_def Some Let_def entry_store)
    then have "tally sn (sm_release opts sn m) = Some (enRetained ?x - 1, length (enHolds ?x))"
      using t by (simp add: armIdle_counts)
    then show ?thesis using c assms(3) by (auto simp: owes_def)
  qed
qed

lemma owes_autoClose: "manager_ok m \<Longrightarrow> owes k m n \<Longrightarrow> (k = sn \<Longrightarrow> n = 0) \<Longrightarrow> owes k (sm_autoClose sn cs m) n"
  by (simp add: owes_def tally_autoClose)

lemma owes_at:
  "enRetained (f (mgStore m e)) = enRetained (mgStore m e) \<Longrightarrow> enHolds (f (mgStore m e)) = enHolds (mgStore m e) \<Longrightarrow>
    owes k (at_entry e f m) n = owes k m n"
  by (simp add: owes_def tally_at)

lemma owes_hold: "manager_ok m \<Longrightarrow> owes k m n \<Longrightarrow> owes k (sm_hold sn ms m) n"
  by (auto simp: owes_def tally_hold split: option.splits)

lemma owes_entry:
  "manager_ok m \<Longrightarrow> sm_entry sn m = (e, m1) \<Longrightarrow> owes k m n \<Longrightarrow> owes k m1 n"
  using tally_entry [of m sn e m1 k] by (auto simp: owes_def split: if_splits)

lemma owes_reset:
  assumes "manager_ok m" "owes k m n" "0 \<le> n"
  shows "owes k (sm_resetWhenUnused sn c m) n"
proof (cases "map_of (mgEntries m) sn")
  case (Some e)
  show ?thesis
  proof (cases "enRetained (mgStore m e) \<le> length (enHolds (mgStore m e))")
    case True
    have "n = 0" if "k = sn" using True assms(2,3) Some that by (simp add: owes_def tally_def)
    then show ?thesis using True Some owes_autoClose [OF assms(1,2)] by (simp add: sm_resetWhenUnused_def)
  qed (simp add: sm_resetWhenUnused_def Some owes_at assms(2))
qed (use assms(2) in \<open>simp add: sm_resetWhenUnused_def owes_def\<close>)

lemma owes_holdExpires:
  assumes "manager_ok m" "owes k m n" "0 \<le> n"
  shows "owes k (sm_holdExpires opts t m) n"
proof (cases "map_of (mgTimers m) t")
  case None
  then show ?thesis using assms(2) by (simp add: sm_holdExpires_def)
next
  case (Some p)
  obtain e sn ms where p: "p = (e, sn, ms)" by (cases p) auto
  have tm: "(t, e, sn, ms) \<in> set (mgTimers m)" using Some p map_of_SomeD by fastforce
  have held: "t \<in> set (enHolds (mgStore m e))" using manager_okD(2) [OF assms(1), of e] tm by (auto simp: entry_ok_def)
  have sn: "map_of (mgEntries m) sn = Some e"
    using registry_timer [OF manager_okD(1) [OF assms(1)] tm] entry_of_serial [OF manager_okD(1) [OF assms(1)]] by simp
  let ?m = "hold_gone t e m"
  have ok: "manager_ok ?m" using ok_holdGone [OF assms(1) tm] .
  have e: "sm_holdExpires opts t m = sm_release opts sn ?m" using Some by (simp add: p holdExpires_releases)
  have l: "length (remove1 t (enHolds (mgStore m e))) + 1 = length (enHolds (mgStore m e))"
    using held length_pos_if_in_set [OF held] by (simp add: length_remove1)
  show ?thesis
  proof (cases "k = sn")
    case True
    have "tally sn ?m = Some (enRetained (mgStore m e), length (remove1 t (enHolds (mgStore m e))))"
      using sn by (simp add: tally_def hold_gone_def at_entry_def)
    moreover have "int (enRetained (mgStore m e)) = int (length (enHolds (mgStore m e))) + n"
      using assms(2) sn True by (simp add: owes_def tally_def)
    ultimately have "owes sn ?m (n + 1)" using l by (simp add: owes_def)
    then show ?thesis using owes_release [OF ok _ assms(3)] True e by simp
  next
    case False
    have "tally k ?m = tally k m"
      using tally_else [OF other_entry [OF assms(1) sn False]] by (simp add: hold_gone_def)
    then show ?thesis using release_other [OF ok False] assms(2) by (simp add: e owes_def)
  qed
qed

lemma owes_idleFires:
  assumes "manager_ok m" "owes k m n" "0 \<le> n"
  shows "owes k (sm_idleFires e m) n"
proof (cases "enIdle (mgStore m e)")
  case None
  then show ?thesis using assms(2) by (simp add: sm_idleFires_def)
next
  case (Some p)
  obtain sn ms where p: "p = (sn, ms)" by fastforce
  let ?m = "at_entry e (\<lambda>x. x\<lparr>enIdle := None\<rparr>) m"
  have ok: "manager_ok ?m" using assms(1) by (rule ok_keep) auto
  have i: "(sn, e) \<in> set (mgEntries m)" "enRetained (mgStore m e) = 0"
    using manager_okD(2) [OF assms(1), of e] Some p by (auto simp: entry_ok_def)
  then have sn: "map_of (mgEntries m) sn = Some e" using entry_of_serial [OF manager_okD(1) [OF assms(1)]] by simp
  have o1: "owes k ?m n" using assms(2) by (simp add: owes_at)
  have "n = 0" if "k = sn" using assms(2,3) i sn that by (simp add: owes_def tally_def)
  then show ?thesis
    using owes_autoClose [OF ok o1] sn i by (simp add: sm_idleFires_def Some p sm_onIdle_def entry_store)
qed

text \<open>Nothing the manager does by itself changes what a station owes to its viewers.\<close>

lemma owes_step:
  assumes "manager_ok m" "owes k m n" "0 \<le> n" "\<not> own_manager_event ev"
  shows "owes k (manager_step opts m ev) n"
proof (cases ev)
  case (Register sn s)
  obtain e m1 where e: "sm_entry sn m = (e, m1)" by fastforce
  show ?thesis using owes_entry [OF assms(1) e assms(2)] by (simp add: Register sm_register_def e owes_at)
next
  case (Acquire sn c)
  obtain e m1 where e: "sm_entry sn m = (e, m1)" by fastforce
  show ?thesis using owes_entry [OF assms(1) e assms(2)]
    by (auto simp: Acquire sm_acquire_def e owes_at split: option.split) (simp_all add: owes_def tally_at)
next
  case (FactoryDone i s)
  show ?thesis using assms(2)
    by (auto simp: FactoryDone sm_factoryDone_def Let_def open_over_def owes_def tally_at split: option.split)
next
  case (ResetWhenUnused sn c)
  then show ?thesis using owes_reset assms by simp
next
  case (EntryClosed e ok)
  show ?thesis using assms(2)
    by (auto simp: EntryClosed sm_entryClosed_def Let_def owes_def tally_settleReset split: option.split)
next
  case (Hold sn ms)
  then show ?thesis using owes_hold assms by simp
next
  case (BumpCommand sn)
  then show ?thesis using owes_hold assms by (simp add: sm_bumpCommand_def)
next
  case (HoldExpires t)
  then show ?thesis using owes_holdExpires assms by simp
next
  case (IdleFires e)
  then show ?thesis using owes_idleFires assms by simp
qed (use assms in \<open>auto simp: sm_factoryRegisters_def sm_factoryFails_def sm_supersededClosed_def open_over_def Let_def
    owes_def tally_at split: option.splits prod.splits\<close>)

section \<open>What a source tells its owner in one operation\<close>

text \<open>
  \<open>onIdle\<close> comes when what was told of users before it is settled, and so do the two calls that may close a
  session.
\<close>

fun tame :: "effect list \<Rightarrow> bool" where
  "tame [] = True"
| "tame (e # es) \<longleftrightarrow> tame es \<and>
     (e = OnIdle \<or> e = OnStartFailed \<or> e = OnSessionUnreachable \<longrightarrow> count_list es OnActive = count_list es OnIdle)"

lemma tame_append:
  "tame (xs @ ys) \<longleftrightarrow> tame ys \<and>
    (if count_list ys OnActive = count_list ys OnIdle then tame xs else tame (xs @ ys))"
  by (induction xs) auto

text \<open>Reaching the consumers says nothing, or that the last of them left.\<close>

definition last_leaves :: "source \<Rightarrow> source \<Rightarrow> bool" where
  "last_leaves s t \<longleftrightarrow> sOwnerDisposes t = sOwnerDisposes s \<and>
     (sEffects t = sEffects s \<and> (sConsumers s = [] \<longrightarrow> sConsumers t = []) \<and> sDisposed t = sDisposed s \<or>
      (sEffects t = sEffects s @ [OnIdle] \<or> sEffects t = sEffects s @ [OnIdle, StreamStopped]) \<and>
        sConsumers s \<noteq> [] \<and> sConsumers t = [] \<and> (sDisposed t \<longrightarrow> sDisposed s \<or> sOwnerDisposes s) \<and>
        (sDisposed s \<longrightarrow> sDisposed t))"

lemma last_leaves_same:
  "sEffects t = sEffects s \<Longrightarrow> sConsumers t = sConsumers s \<Longrightarrow> sDisposed t = sDisposed s \<Longrightarrow>
    sOwnerDisposes t = sOwnerDisposes s \<Longrightarrow> last_leaves s t"
  by (simp add: last_leaves_def)

lemma last_leaves_cases:
  assumes "last_leaves s t"
  obtains l where "sEffects t = sEffects s @ l" "l = [] \<or> l = [OnIdle] \<or> l = [OnIdle, StreamStopped]"
  using assms that [of "[]"] that [of "[OnIdle]"] that [of "[OnIdle, StreamStopped]"] unfolding last_leaves_def by auto

lemma last_leaves_trans: "last_leaves s t \<Longrightarrow> last_leaves t v \<Longrightarrow> last_leaves s v"
  by (auto simp: last_leaves_def)

lemma last_leaves_stays: "last_leaves s t \<Longrightarrow> sDisposed s \<Longrightarrow> sDisposed t"
  by (auto simp: last_leaves_def)

lemma visit_leaves: "last_leaves s (visit f s i)"
  by (auto simp: last_leaves_def visit_def onDetach_def arm_def effect_def Let_def split: option.split)

lemma each_leaves: "last_leaves s (each_consumer f s)"
proof -
  have "last_leaves s (foldl (visit f) s is)" for "is"
    by (induction "is" arbitrary: s) (auto intro: last_leaves_same last_leaves_trans [OF visit_leaves])
  then show ?thesis by (simp add: each_consumer_def)
qed

text \<open>One operation tells its owner tame effects, and a disposed source stays so.\<close>

definition tells :: "source \<Rightarrow> source \<Rightarrow> bool" where
  "tells s t \<longleftrightarrow> (\<exists>es. sEffects t = sEffects s @ es \<and> tame es) \<and> (sDisposed s \<longrightarrow> sDisposed t)"

lemma tells_same: "sEffects t = sEffects s \<Longrightarrow> (sDisposed s \<Longrightarrow> sDisposed t) \<Longrightarrow> tells s t"
  by (auto simp: tells_def intro: exI [of _ "[]"])

lemma tells_refl: "tells s s"
  by (rule tells_same) simp_all

text \<open>Consumers first, and then what says nothing of users.\<close>

lemma tells_then:
  assumes "last_leaves s t" "sEffects v = sEffects t @ es" "tame es" "OnActive \<notin> set es" "OnIdle \<notin> set es"
    "sDisposed s \<Longrightarrow> sDisposed v"
  shows "tells s v"
proof -
  have c: "count_list es OnActive = 0" "count_list es OnIdle = 0" using assms(4,5) by (simp_all add: count_list_0_iff)
  obtain l where l: "sEffects t = sEffects s @ l" "l = [] \<or> l = [OnIdle] \<or> l = [OnIdle, StreamStopped]" using assms(1) by (rule last_leaves_cases)
  then have "tame (l @ es)" using assms(3) c by auto
  then show ?thesis using assms(2,6) l(1) unfolding tells_def by (metis append.assoc)
qed

lemma teardown_says:
  "\<exists>es. sEffects (teardown st rep s) = sEffects s @ es \<and> tame es \<and> OnActive \<notin> set es \<and> OnIdle \<notin> set es"
  by (auto simp: teardown_def clearBudget_def clearWarmWatch_def effect_def Let_def)

lemma foreseen_fields [simp]:
  "sConsumers (foreseen k r) = sConsumers (rgSource r k)" "sEffects (foreseen k r) = sEffects (rgSource r k)"
  "sDisposed (foreseen k r) = sDisposed (rgSource r k)" "live_inv (foreseen k r) = live_inv (rgSource r k)"
  "sOwnerDisposes (foreseen k r) = release_closes k r"
  by (simp_all add: foreseen_def live_inv_def cons_ok_def user_balance_def life_ok_def)

lemma tells_foreseen: "tells (foreseen k r) t = tells (rgSource r k) t"
  by (simp add: tells_def)

lemma teardown_disposed: "sDisposed (teardown st rep s) = sDisposed s"
  by (simp add: teardown_def clearBudget_def clearWarmWatch_def effect_def Let_def)

lemma tells_teardown: "last_leaves s t \<Longrightarrow> (sDisposed s \<Longrightarrow> sDisposed t) \<Longrightarrow> tells s (teardown st rep t)"
  using teardown_says [of st rep t] tells_then [of s t "teardown st rep t"] by (auto simp: teardown_disposed)

lemma tells_each:
  "sEffects t = sEffects s \<Longrightarrow> sConsumers t = sConsumers s \<Longrightarrow> sDisposed t = sDisposed s \<Longrightarrow>
    sOwnerDisposes t = sOwnerDisposes s \<Longrightarrow> tells s (each_consumer f t)"
  using tells_then [of s "each_consumer f t" "each_consumer f t" "[]"]
    last_leaves_trans [OF last_leaves_same each_leaves, of t s f]
  by (simp add: each_disposed)

lemma dispose_says:
  assumes "live_inv s"
  shows "\<exists>es. sEffects (dispose s) = sEffects s @ es \<and> filter (\<lambda>e. e = OnIdle) es = (if sConsumers s = [] then [] else [OnIdle])"
    "sConsumers (dispose s) = []" "sDisposed (dispose s)"
proof -
  have "sDisposed s \<Longrightarrow> sConsumers s = []" using assms by (simp add: inv_defs)
  moreover have "sEffects (each_consumer c_end (s\<lparr>sDisposed := True\<rparr>)) = sEffects s"
    "sDisposed (each_consumer c_end (s\<lparr>sDisposed := True\<rparr>))"
    using each_same [of "s\<lparr>sDisposed := True\<rparr>" c_end] by (simp_all add: owner_calm_def same_upstream_def)
  ultimately show "\<exists>es. sEffects (dispose s) = sEffects s @ es \<and> filter (\<lambda>e. e = OnIdle) es = (if sConsumers s = [] then [] else [OnIdle])"
    "sConsumers (dispose s) = []" "sDisposed (dispose s)"
    by (auto simp: dispose_def Let_def teardown_def clearBudget_def clearWarmWatch_def effect_def)
qed

lemma tells_attach:
  assumes "attachConsumer opts prime sink errs s = Inr t"
  shows "tells s t"
proof -
  have nd: "\<not> sDisposed s" using assms by (auto simp: attachConsumer_def)
  let ?c = "new_consumer (oMaxQueue opts) sink errs"
  define s1 where "s1 = s\<lparr>sConsumers := sConsumers s @ [(sNextId s, ?c)], sNextId := sNextId s + 1\<rparr>"
  define s2 where "s2 = (if sConsumers s = [] then effect OnActive s1 else s1)"
  define s3 where "s3 = (if sLinger s2 then
                     s2\<lparr>sLinger := False,
                        sState := (if sState s2 = Lingering then
                                     (if sLastKeyframe s2 \<noteq> None then Live else Warming) else sState s2)\<rparr>
                   else s2)"
  define s4 where "s4 = (if \<not> sStream s3 then warm s3 else watchReusedStream opts s3)"
  have t: "t = (case sLastKeyframe s4 of None \<Rightarrow> s4 | Some k \<Rightarrow> if prime then visit (c_prime k) s4 (sNextId s) else s4)"
    using assms nd unfolding attachConsumer_def Let_def s4_def s3_def s2_def s1_def if_not_P [OF nd] by simp
  have "\<exists>es. sEffects s4 = sEffects s2 @ es \<and> tame es \<and> OnActive \<notin> set es \<and> OnIdle \<notin> set es"
    by (auto simp: s4_def s3_def warm_def openStream_def armWarmWatch_def watchReusedStream_def effect_def Let_def)
  then obtain es where es: "sEffects s4 = sEffects s2 @ es" "tame es" "OnActive \<notin> set es" "OnIdle \<notin> set es" by blast
  have "last_leaves s4 t" using visit_leaves [of s4 _ "sNextId s"] last_leaves_same [of s4 s4] by (simp add: t split: option.split)
  then obtain l where l: "sEffects t = sEffects s4 @ l" "l = [] \<or> l = [OnIdle] \<or> l = [OnIdle, StreamStopped]" by (rule last_leaves_cases)
  have c: "count_list es OnActive = 0" "count_list es OnIdle = 0" using es(3,4) by (simp_all add: count_list_0_iff)
  define a where "a = (if sConsumers s = [] then [OnActive] else [])"
  have "sEffects s2 = sEffects s @ a" by (simp add: s2_def s1_def effect_def a_def)
  then have "sEffects t = sEffects s @ (a @ es @ l)" using es(1) l(1) by simp
  moreover have "tame (a @ es @ l)"
  proof -
    have "tame (ys @ l)" if "tame ys" "set ys \<inter> {OnActive, OnIdle, OnStartFailed, OnSessionUnreachable} = {}" for ys
      using that l(2) by (induction ys) auto
    moreover have "set es \<inter> {OnActive, OnIdle, OnStartFailed, OnSessionUnreachable} = {}"
      using es(1) by (auto simp: s4_def s3_def warm_def openStream_def armWarmWatch_def watchReusedStream_def effect_def Let_def split: if_splits)
    ultimately have "tame (es @ l)" using es(2) by blast
    then show ?thesis by (simp add: a_def)
  qed
  ultimately show ?thesis using nd unfolding tells_def by blast
qed

lemma tells_warmed: "sEffects t = sEffects s @ es \<Longrightarrow> set es \<inter> {OnActive, OnIdle} = {} \<Longrightarrow> tame es \<Longrightarrow> sDisposed t = sDisposed s \<Longrightarrow> tells s t"
  by (auto simp: tells_def)

lemma disposed_keeps [simp]:
  "sOwnerDisposes (settleReuseWatch s) = sOwnerDisposes s" "sOwnerDisposes (refresh_geometry s) = sOwnerDisposes s"
  by (simp_all add: settleReuseWatch_def clearWarmWatch_def refresh_geometry_def)

lemma tells_video: "tells s (onVideo opts f now s)"
  unfolding onVideo_def Let_def
  by (rule tells_each) (simp_all add: armBudget_def clearBudget_def clearWarmWatch_def)

lemma tells_audio: "tells s (onAudio opts f now s)"
  unfolding onAudio_def Let_def by (rule tells_each) simp_all

lemma tells_step:
  assumes "live_inv s"
  shows "tells s (live_step opts s ev)"
proof (cases ev)
  case (Attach prime sink errs)
  then show ?thesis using tells_attach [of opts prime sink errs s] tells_same [of s s]
    by (auto split: sum.split)
next
  case (Host i call)
  then show ?thesis
    using tells_then [OF visit_leaves [of s "\<lambda>c. c_step c (host_event call)" i], of _ "[]"]
      visit_disposed [of s "\<lambda>c. c_step c (host_event call)" i]
    by simp
next
  case (UpVideo f now)
  then show ?thesis using tells_video by (auto intro: tells_same)
next
  case (UpAudio f now)
  then show ?thesis using tells_audio by (auto intro: tells_same)
next
  case UpStop
  have "last_leaves s (each_consumer c_end (each_consumer f s))" for f
    using last_leaves_trans [OF each_leaves each_leaves] .
  then show ?thesis
    by (auto simp: UpStop onUpstreamEnd_def Let_def each_disposed each_leaves tells_refl intro!: tells_teardown)
next
  case UpError
  then show ?thesis by (auto simp: onUpstreamError_def Let_def each_disposed each_leaves tells_refl intro!: tells_teardown)
next
  case UpUnacknowledged
  then show ?thesis
    by (auto simp: onStartUnacknowledged_def effect_def tells_refl intro!: tells_warmed [where es = "[OnSessionUnreachable]"])
next
  case Rewarm
  then show ?thesis
    by (auto simp: rewarm_def openStream_def effect_def Let_def tells_refl intro!:
        tells_warmed [where es = "if sStream s then [StreamStopped, StreamOpened] else [StreamOpened]"])
next
  case LingerFires
  then show ?thesis by (auto simp: tells_refl intro!: tells_teardown last_leaves_same)
next
  case DeadlineFires
  have l: "last_leaves s (each_consumer f (s\<lparr>sDeadline := False\<rparr>))" for f
    by (rule last_leaves_trans [OF last_leaves_same each_leaves]) simp_all
  show ?thesis using tells_teardown [OF l]
    by (auto simp: DeadlineFires onWarmTimeout_def Let_def each_disposed tells_refl tells_same)
next
  case RetryFires
  then show ?thesis
    by (simp add: reissueStart_def effect_def Let_def tells_refl) (simp add: tells_def)
next
  case BudgetFires
  then show ?thesis by (simp add: onBudgetExpire_def tells_refl tells_same tells_each)
next
  case GraceFires
  have l: "last_leaves s (each_consumer f (s\<lparr>sGrace := False\<rparr>))" for f
    by (rule last_leaves_trans [OF last_leaves_same each_leaves]) simp_all
  show ?thesis using tells_teardown [OF l]
    by (auto simp: GraceFires each_disposed tells_refl)
next
  case Extend
  then show ?thesis by (auto simp: extendBudget_def clearBudget_def intro!: tells_same)
next
  case (OwnerWill b)
  then show ?thesis by (simp add: tells_same)
next
  case Dispose
  obtain es where es: "sEffects (dispose s) = sEffects s @ es" using dispose_says(1) [OF assms] by blast
  have "tame es"
  proof -
    have e: "sEffects (each_consumer c_end (s\<lparr>sDisposed := True\<rparr>)) = sEffects s"
      using each_same [of "s\<lparr>sDisposed := True\<rparr>" c_end] by (simp add: owner_calm_def same_upstream_def)
    have "sEffects (dispose s) = sEffects s \<or> sEffects (dispose s) = sEffects s @ [OnIdle] \<or>
        sEffects (dispose s) = sEffects s @ [StreamStopped] \<or> sEffects (dispose s) = sEffects s @ [StreamStopped, OnIdle]"
      by (auto simp: dispose_def Let_def teardown_def clearBudget_def clearWarmWatch_def effect_def e)
    then show ?thesis using es by auto
  qed
  then show ?thesis using es dispose_says(3) [OF assms] by (auto simp: Dispose tells_def)
qed

text \<open>
  A source that one operation finds disposed at its end, and not at its start, told its owner that the last
  consumer had left, and the owner meant to dispose of it.
\<close>

definition closes_in :: "source \<Rightarrow> source \<Rightarrow> bool" where
  "closes_in s t \<longleftrightarrow> (sDisposed t \<and> \<not> sDisposed s \<longrightarrow> sOwnerDisposes s \<and>
     (\<exists>pre post. sEffects t = sEffects s @ pre @ OnIdle # post \<and>
        set pre \<inter> {OnIdle, OnStartFailed, OnSessionUnreachable} = {} \<and>
        count_list pre OnActive = (if sConsumers s = [] then 1 else 0)))"

lemma closes_same: "sDisposed t = sDisposed s \<Longrightarrow> closes_in s t"
  by (simp add: closes_in_def)

lemma closes_then:
  assumes "last_leaves s t" "sEffects v = sEffects t @ es" "sDisposed v = sDisposed t"
  shows "closes_in s v"
  unfolding closes_in_def
proof (intro impI)
  assume d: "sDisposed v \<and> \<not> sDisposed s"
  obtain l where "sEffects t = sEffects s @ OnIdle # l" "sConsumers s \<noteq> []" "sOwnerDisposes s"
    using assms(1,3) d unfolding last_leaves_def by auto
  then show "sOwnerDisposes s \<and> (\<exists>pre post. sEffects v = sEffects s @ pre @ OnIdle # post \<and>
        set pre \<inter> {OnIdle, OnStartFailed, OnSessionUnreachable} = {} \<and>
        count_list pre OnActive = (if sConsumers s = [] then 1 else 0))"
    using assms(2) by (intro conjI exI [of _ "[]"] exI [of _ "l @ es"]) simp_all
qed

lemma closes_teardown: "last_leaves s t \<Longrightarrow> closes_in s (teardown st rep t)"
  using teardown_says [of st rep t] closes_then [of s t "teardown st rep t"] by (auto simp: teardown_disposed)

lemma closes_each:
  assumes "sEffects t = sEffects s" "sConsumers t = sConsumers s" "sDisposed t = sDisposed s" "sOwnerDisposes t = sOwnerDisposes s"
  shows "closes_in s (each_consumer f t)"
  by (rule closes_then [OF last_leaves_trans [OF last_leaves_same [OF assms] each_leaves], of _ _ "[]"]) simp_all

lemma closes_attach:
  assumes "attachConsumer opts prime sink errs s = Inr t"
  shows "closes_in s t"
proof -
  have nd: "\<not> sDisposed s" using assms by (auto simp: attachConsumer_def)
  let ?c = "new_consumer (oMaxQueue opts) sink errs"
  define s1 where "s1 = s\<lparr>sConsumers := sConsumers s @ [(sNextId s, ?c)], sNextId := sNextId s + 1\<rparr>"
  define s2 where "s2 = (if sConsumers s = [] then effect OnActive s1 else s1)"
  define s3 where "s3 = (if sLinger s2 then
                     s2\<lparr>sLinger := False,
                        sState := (if sState s2 = Lingering then
                                     (if sLastKeyframe s2 \<noteq> None then Live else Warming) else sState s2)\<rparr>
                   else s2)"
  define s4 where "s4 = (if \<not> sStream s3 then warm s3 else watchReusedStream opts s3)"
  have t: "t = (case sLastKeyframe s4 of None \<Rightarrow> s4 | Some k \<Rightarrow> if prime then visit (c_prime k) s4 (sNextId s) else s4)"
    using assms nd unfolding attachConsumer_def Let_def s4_def s3_def s2_def s1_def if_not_P [OF nd] by simp
  have "\<exists>es. sEffects s4 = sEffects s2 @ es \<and> set es \<inter> {OnActive, OnIdle, OnStartFailed, OnSessionUnreachable} = {}"
    by (auto simp: s4_def s3_def warm_def openStream_def armWarmWatch_def watchReusedStream_def effect_def Let_def)
  then obtain es where es: "sEffects s4 = sEffects s2 @ es" "set es \<inter> {OnActive, OnIdle, OnStartFailed, OnSessionUnreachable} = {}" by blast
  define a where "a = (if sConsumers s = [] then [OnActive] else [])"
  have a: "sEffects s2 = sEffects s @ a" by (simp add: s2_def s1_def effect_def a_def)
  have c: "count_list (a @ es) OnActive = (if sConsumers s = [] then 1 else 0)"
    "set (a @ es) \<inter> {OnIdle, OnStartFailed, OnSessionUnreachable} = {}"
    using es(2) by (auto simp: a_def count_list_0_iff)
  have k: "sOwnerDisposes s4 = sOwnerDisposes s" "\<not> sDisposed s4"
    using nd by (simp_all add: s4_def s3_def s2_def s1_def warm_def openStream_def armWarmWatch_def watchReusedStream_def effect_def Let_def)
  have "last_leaves s4 t" using visit_leaves [of s4 _ "sNextId s"] last_leaves_same [of s4 s4] by (simp add: t split: option.split)
  then have l: "sDisposed t \<Longrightarrow> sOwnerDisposes s \<and> (\<exists>l. sEffects t = sEffects s4 @ OnIdle # l)"
    unfolding last_leaves_def using k by auto
  show ?thesis unfolding closes_in_def
  proof (intro impI)
    assume "sDisposed t \<and> \<not> sDisposed s"
    with l obtain p where p: "sOwnerDisposes s" "sEffects t = sEffects s4 @ OnIdle # p" by blast
    then have "sEffects t = sEffects s @ (a @ es) @ OnIdle # p" using es(1) a by simp
    then show "sOwnerDisposes s \<and> (\<exists>pre post. sEffects t = sEffects s @ pre @ OnIdle # post \<and>
        set pre \<inter> {OnIdle, OnStartFailed, OnSessionUnreachable} = {} \<and>
        count_list pre OnActive = (if sConsumers s = [] then 1 else 0))"
      using p(1) c by blast
  qed
qed

lemma closes_step: "ev \<noteq> Dispose \<Longrightarrow> closes_in s (live_step opts s ev)"
proof (cases ev)
  case (Attach prime sink errs)
  then show ?thesis using closes_attach [of opts prime sink errs s] by (auto simp: closes_same split: sum.split)
next
  case (Host i call)
  show ?thesis
    using closes_then [OF visit_leaves [of s "\<lambda>c. c_step c (host_event call)" i], of _ "[]"] by (simp add: Host)
next
  case (UpVideo f now)
  have "closes_in s (onVideo opts f now s)" unfolding onVideo_def Let_def
    by (rule closes_each) (simp_all add: armBudget_def clearBudget_def clearWarmWatch_def)
  then show ?thesis by (simp add: UpVideo closes_same)
next
  case (UpAudio f now)
  have "closes_in s (onAudio opts f now s)" unfolding onAudio_def Let_def by (rule closes_each) simp_all
  then show ?thesis by (simp add: UpAudio closes_same)
next
  case UpStop
  have "last_leaves s (each_consumer c_end (each_consumer f s))" for f
    using last_leaves_trans [OF each_leaves each_leaves] .
  then show ?thesis
    by (auto simp: UpStop onUpstreamEnd_def Let_def closes_same each_leaves intro!: closes_teardown)
next
  case UpError
  then show ?thesis by (auto simp: onUpstreamError_def Let_def closes_same each_leaves intro!: closes_teardown)
next
  case DeadlineFires
  have l: "last_leaves s (each_consumer f (s\<lparr>sDeadline := False\<rparr>))" for f
    by (rule last_leaves_trans [OF last_leaves_same each_leaves]) simp_all
  show ?thesis using closes_teardown [OF l] by (auto simp: DeadlineFires onWarmTimeout_def Let_def closes_same)
next
  case BudgetFires
  then show ?thesis by (simp add: onBudgetExpire_def closes_same closes_each)
next
  case GraceFires
  have l: "last_leaves s (each_consumer f (s\<lparr>sGrace := False\<rparr>))" for f
    by (rule last_leaves_trans [OF last_leaves_same each_leaves]) simp_all
  show ?thesis using closes_teardown [OF l] by (auto simp: GraceFires closes_same)
qed (auto simp: closes_same teardown_disposed onStartUnacknowledged_def effect_def rewarm_def openStream_def Let_def
    reissueStart_def extendBudget_def clearBudget_def)

lemma closes_rewarm: "closes_in s (rewarm s)"
  using closes_step [of Rewarm s] by simp

section \<open>What is always true of the registry of live sources\<close>

definition key_ok :: "source_info \<Rightarrow> bool" where
  "key_ok i \<longleftrightarrow> CHR '':'' \<notin> set (ifParent i) \<and> (\<exists>ch. ifKey i = camera_key (ifParent i) ch)"

lemma show_int_colon: "CHR '':'' \<notin> set (show_int n)"
  using dec_string_no [of "CHR '':''"] by (auto simp: show_int_def digit_value_def)

lemma at_station_key:
  assumes "key_ok i"
  shows "at_station sn (ifKey i) \<longleftrightarrow> sn = ifParent i"
proof -
  obtain ch where k: "ifKey i = ifParent i @ '':'' @ show_int ch" and p: "CHR '':'' \<notin> set (ifParent i)"
    using assms by (auto simp: key_ok_def camera_key_def)
  have "sn = ifParent i" if "at_station sn (ifKey i)"
  proof -
    have e: "ifKey i = (sn @ '':'') @ drop (length sn + 1) (ifKey i)"
      using that append_take_drop_id [of "length sn + 1" "ifKey i"] by (simp add: at_station_def starts_with_def)
    have "count_list (ifKey i) (CHR '':'') = 1"
      using p show_int_colon [of ch] by (simp add: k count_list_0_iff)
    moreover have "count_list (ifKey i) (CHR '':'') = count_list sn (CHR '':'') + 1 + count_list (drop (length sn + 1) (ifKey i)) (CHR '':'')"
      by (subst e) simp
    ultimately have "CHR '':'' \<notin> set sn" by (simp add: count_list_0_iff)
    then have "takeWhile (\<lambda>c. c \<noteq> CHR '':'') (ifKey i) = sn"
      by (subst e) (auto simp: takeWhile_tail takeWhile_eq_all_conv)
    moreover have "takeWhile (\<lambda>c. c \<noteq> CHR '':'') (ifKey i) = ifParent i"
      using p by (auto simp: k takeWhile_tail takeWhile_eq_all_conv)
    ultimately show ?thesis by simp
  qed
  then show ?thesis by (auto simp: at_station_def starts_with_def k)
qed

definition rg_ok :: "registry \<Rightarrow> bool" where
  "rg_ok r \<longleftrightarrow> manager_ok (rgManager r) \<and> (\<forall>k. live_inv (rgSource r k)) \<and>
     distinct (map fst (rgSources r)) \<and>
     (\<forall>(key, k) \<in> set (rgSources r). k < rgNext r \<and> ifKey (rgInfo r k) = key) \<and>
     (\<forall>k < rgNext r. key_ok (rgInfo r k) \<and>
        ((ifKey (rgInfo r k), k) \<in> set (rgSources r) \<or> sDisposed (rgSource r k)))"

text \<open>The sources of a station that somebody watches.\<close>

definition viewed :: "string \<Rightarrow> registry \<Rightarrow> nat set" where
  "viewed sn r = {k. k < rgNext r \<and> ifParent (rgInfo r k) = sn \<and> sConsumers (rgSource r k) \<noteq> []}"

definition hub_ok :: "string \<Rightarrow> int \<Rightarrow> registry \<Rightarrow> bool" where
  "hub_ok H d r \<longleftrightarrow> rg_ok r \<and> owes H (rgManager r) (int (card (viewed H r)) + d)"

lemma rg_okD:
  assumes "rg_ok r"
  shows "manager_ok (rgManager r)" "live_inv (rgSource r k)" "distinct (map fst (rgSources r))"
    "(key, k) \<in> set (rgSources r) \<Longrightarrow> k < rgNext r \<and> ifKey (rgInfo r k) = key"
    "k < rgNext r \<Longrightarrow> key_ok (rgInfo r k)"
    "k < rgNext r \<Longrightarrow> (ifKey (rgInfo r k), k) \<in> set (rgSources r) \<or> sDisposed (rgSource r k)"
  using assms unfolding rg_ok_def by auto

lemma rg_okI:
  assumes "manager_ok (rgManager r)" "\<And>k. live_inv (rgSource r k)" "distinct (map fst (rgSources r))"
    "\<And>key k. (key, k) \<in> set (rgSources r) \<Longrightarrow> k < rgNext r \<and> ifKey (rgInfo r k) = key"
    "\<And>k. k < rgNext r \<Longrightarrow> key_ok (rgInfo r k)"
    "\<And>k. k < rgNext r \<Longrightarrow> (ifKey (rgInfo r k), k) \<in> set (rgSources r) \<or> sDisposed (rgSource r k)"
  shows "rg_ok r"
  unfolding rg_ok_def using assms by blast

lemma disposed_alone: "live_inv s \<Longrightarrow> sDisposed s \<Longrightarrow> sConsumers s = []"
  by (simp add: inv_defs)

lemma viewed_registered: "rg_ok r \<Longrightarrow> k \<in> viewed sn r \<Longrightarrow> (ifKey (rgInfo r k), k) \<in> set (rgSources r)"
  using rg_okD(6) [of r k] rg_okD(2) [of r k] disposed_alone [of "rgSource r k"] by (auto simp: viewed_def)

lemma finite_viewed [simp]: "finite (viewed sn r)"
  by (rule finite_subset [of _ "{..<rgNext r}"]) (auto simp: viewed_def)

text \<open>What the parts of a registry are after its parts changed.\<close>

lemma viewed_set:
  "k < rgNext r \<Longrightarrow> viewed sn (set_source k s r) =
     (if ifParent (rgInfo r k) = sn \<and> sConsumers s \<noteq> [] then insert k (viewed sn r) else viewed sn r - {k})"
  by (auto simp: viewed_def set_source_def split: if_splits)

definition is_viewed :: "source \<Rightarrow> int" where
  "is_viewed s = (if sConsumers s = [] then 0 else 1)"

lemma card_viewed_set:
  assumes "k < rgNext r"
  shows "int (card (viewed sn (set_source k s r))) =
    int (card (viewed sn r)) + (if ifParent (rgInfo r k) = sn then is_viewed s - is_viewed (rgSource r k) else 0)"
proof -
  have k: "k \<in> viewed sn r \<longleftrightarrow> ifParent (rgInfo r k) = sn \<and> sConsumers (rgSource r k) \<noteq> []" using assms by (simp add: viewed_def)
  have pos: "0 < card (viewed sn r)" if "k \<in> viewed sn r" using that by (auto simp: card_gt_0_iff)
  have ins: "int (card (insert k (viewed sn r))) = int (card (viewed sn r)) + (if k \<in> viewed sn r then 0 else 1)"
    by (simp add: card_insert_if)
  have del: "int (card (viewed sn r - {k})) = int (card (viewed sn r)) - (if k \<in> viewed sn r then 1 else 0)"
    using pos by (auto simp: card_Diff_singleton_if)
  show ?thesis
  proof (cases "ifParent (rgInfo r k) = sn")
    case True
    then show ?thesis using viewed_set [OF assms, of sn s] ins del k
      by (cases "sConsumers s = []"; cases "sConsumers (rgSource r k) = []") (simp_all add: is_viewed_def)
  next
    case False
    then show ?thesis using viewed_set [OF assms, of sn s] del k by simp
  qed
qed

lemma set_fields [simp]:
  "rgManager (set_source k s r) = rgManager r" "rgInfo (set_source k s r) = rgInfo r" "rgNext (set_source k s r) = rgNext r"
  "rgSources (set_source k s r) = rgSources r" "rgOpts (set_source k s r) = rgOpts r" "rgDevices (set_source k s r) = rgDevices r"
  "rgSource (set_source k s r) = (rgSource r)(k := s)"
  "rgManager (forget_key key r) = rgManager r" "rgInfo (forget_key key r) = rgInfo r" "rgNext (forget_key key r) = rgNext r"
  "rgSource (forget_key key r) = rgSource r" "rgOpts (forget_key key r) = rgOpts r" "rgDevices (forget_key key r) = rgDevices r"
  "rgSources (forget_key key r) = filter (\<lambda>(j, _). j \<noteq> key) (rgSources r)"
  by (simp_all add: set_source_def forget_key_def)

lemma hub_set:
  assumes "hub_ok H d r" "k < rgNext r" "live_inv s" "sDisposed (rgSource r k) \<Longrightarrow> sDisposed s"
  shows "hub_ok H (d + (if ifParent (rgInfo r k) = H then is_viewed (rgSource r k) - is_viewed s else 0)) (set_source k s r)"
proof -
  have "rg_ok (set_source k s r)" using assms unfolding hub_ok_def rg_ok_def by auto
  moreover have "owes H (rgManager (set_source k s r)) (int (card (viewed H (set_source k s r))) +
      (d + (if ifParent (rgInfo r k) = H then is_viewed (rgSource r k) - is_viewed s else 0)))"
    using assms(1) card_viewed_set [OF assms(2), of H s] by (simp add: hub_ok_def algebra_simps split: if_splits)
  ultimately show ?thesis by (simp add: hub_ok_def)
qed

lemma hub_manager:
  "hub_ok H d r \<Longrightarrow> manager_ok m \<Longrightarrow> owes H m (int (card (viewed H r)) + d') \<Longrightarrow> hub_ok H d' (r\<lparr>rgManager := m\<rparr>)"
  by (simp add: hub_ok_def rg_ok_def viewed_def)

lemma hub_ext:
  assumes "hub_ok H d r" "rgManager r' = rgManager r" "rgInfo r' = rgInfo r" "rgNext r' = rgNext r"
    "rgSource r' = rgSource r" "rgSources r' = rgSources r"
  shows "hub_ok H d r'"
  using assms by (simp add: hub_ok_def rg_ok_def viewed_def)

text \<open>A source forgotten once it is disposed.\<close>

lemma hub_forget:
  assumes "hub_ok H d r" "\<And>k. (key, k) \<in> set (rgSources r) \<Longrightarrow> sDisposed (rgSource r k)"
  shows "hub_ok H d (forget_key key r)"
proof -
  have ok: "rg_ok r" using assms(1) by (simp add: hub_ok_def)
  have "rg_ok (forget_key key r)"
  proof (rule rg_okI)
    show "distinct (map fst (rgSources (forget_key key r)))"
      using rg_okD(3) [OF ok] by (simp add: distinct_map_filter)
    show "k < rgNext (forget_key key r) \<and> ifKey (rgInfo (forget_key key r) k) = j"
      if "(j, k) \<in> set (rgSources (forget_key key r))" for j k
      using rg_okD(4) [OF ok, of j k] that by simp
    show "(ifKey (rgInfo (forget_key key r) k), k) \<in> set (rgSources (forget_key key r)) \<or> sDisposed (rgSource (forget_key key r) k)"
      if "k < rgNext (forget_key key r)" for k
      using rg_okD(6) [OF ok, of k] assms(2) [of k] that by (cases "ifKey (rgInfo r k) = key") auto
  qed (use rg_okD(1,2,5) [OF ok] in simp_all)
  then show ?thesis using assms(1) by (simp add: hub_ok_def viewed_def)
qed

section \<open>Dropping a source, tearing a station down\<close>

text \<open>
  Devices, options and what the sources' callbacks hold stay as they are, sources only leave the registry,
  and a disposed one stays disposed.
\<close>

definition same_cells :: "registry \<Rightarrow> registry \<Rightarrow> bool" where
  "same_cells r r' \<longleftrightarrow> rgInfo r' = rgInfo r \<and> rgNext r' = rgNext r \<and> rgOpts r' = rgOpts r \<and> rgDevices r' = rgDevices r \<and>
     set (rgSources r') \<subseteq> set (rgSources r) \<and> (\<forall>k. sDisposed (rgSource r k) \<longrightarrow> sDisposed (rgSource r' k))"

lemma cells_refl: "same_cells r r"
  by (simp add: same_cells_def)

lemma cells_trans: "same_cells r r' \<Longrightarrow> same_cells r' r'' \<Longrightarrow> same_cells r r''"
  by (auto simp: same_cells_def)

lemma cells_ext:
  "rgInfo r' = rgInfo r \<Longrightarrow> rgNext r' = rgNext r \<Longrightarrow> rgOpts r' = rgOpts r \<Longrightarrow> rgDevices r' = rgDevices r \<Longrightarrow>
    rgSources r' = rgSources r \<Longrightarrow> rgSource r' = rgSource r \<Longrightarrow> same_cells r r'"
  by (simp add: same_cells_def)

lemma cells_foldl: "(\<And>r x. same_cells r (f r x)) \<Longrightarrow> same_cells r (foldl f r xs)"
  by (induction xs arbitrary: r) (auto intro: cells_refl cells_trans)

lemma dispose_disposes: "sDisposed (dispose s)"
  by (simp add: dispose_def Let_def effect_def teardown_disposed)
    (simp add: teardown_def clearBudget_def clearWarmWatch_def effect_def Let_def each_disposed)

lemma cells_set: "(sDisposed (rgSource r k) \<Longrightarrow> sDisposed s) \<Longrightarrow> same_cells r (set_source k s r)"
  by (simp add: same_cells_def)

lemma cells_forget: "same_cells r (forget_key key r)"
  by (auto simp: same_cells_def)

lemma cells_drop: "(\<And>sn r. same_cells r (rel sn r)) \<Longrightarrow> same_cells r (drop_with rel key r)"
proof -
  assume rel: "\<And>sn r. same_cells r (rel sn r)"
  have i: "same_cells r (idle_effects rel p es r)" for p es r
    unfolding idle_effects_def by (rule cells_foldl) (simp add: rel cells_refl)
  show ?thesis
  proof (cases "map_of (rgSources r) key")
    case (Some k)
    show ?thesis unfolding drop_with_def Some Let_def option.case
      by (rule cells_trans [OF cells_trans [OF cells_set i] cells_forget]) (simp add: dispose_disposes)
  qed (simp add: drop_with_def cells_refl)
qed

lemma cells_plain: "same_cells r (plain_release sn r)"
  by (simp add: same_cells_def plain_release_def)

lemma cells_tearDown: "same_cells r (tearDownStation sn r)"
proof -
  have "same_cells r' (drop_station sn r')" for r'
    unfolding drop_station_def by (rule cells_foldl) (rule cells_drop, rule cells_plain)
  from this [of "r\<lparr>rgManager := sm_remove sn (rgManager r)\<rparr>"] show ?thesis
    by (simp add: tearDownStation_def rg_note_def stop_talks_def same_cells_def)
qed

lemma cells_announce: "same_cells r (foldl announce r xs)"
  by (rule cells_foldl) (auto simp: announce_def cells_refl cells_tearDown split: manager_out.split)

lemma cells_manager: "same_cells r (rg_manager f r)"
  unfolding rg_manager_def Let_def by (rule cells_trans [OF cells_ext cells_announce]) simp_all

lemma cells_release: "same_cells r (rg_release sn r)"
  by (simp add: rg_release_def cells_manager)

lemma cells_dropLive: "same_cells r (dropLiveSource key r)"
  by (simp add: dropLiveSource_def cells_drop cells_release)

lemma cells_owner: "same_cells r (owner k r e)"
proof -
  have "same_cells r (rg_manager f r\<lparr>rgNextCaller := n, rgFailing := x\<rparr>)"
    "same_cells r (rg_manager f r\<lparr>rgNextCaller := n, rgReplacing := y\<rparr>)" for f n x y
    by (rule cells_trans [OF cells_manager cells_ext]; simp)+
  then show ?thesis
    using cells_release cells_dropLive
    by (auto simp: owner_def onLiveStartFailed_def replaceUnreachableSession_def Let_def cells_refl rg_note_def
        split: effect.split intro: cells_ext)
qed

text \<open>The source under a key, and what disposing it changes.\<close>

lemma registered_source:
  assumes "rg_ok r" "map_of (rgSources r) key = Some k"
  shows "k < rgNext r" "ifKey (rgInfo r k) = key" "at_station sn key \<longleftrightarrow> sn = ifParent (rgInfo r k)"
    "(key, j) \<in> set (rgSources r) \<longleftrightarrow> j = k"
proof -
  have m: "(key, k) \<in> set (rgSources r)" using assms(2) by (rule map_of_SomeD)
  show k: "k < rgNext r" "ifKey (rgInfo r k) = key" using rg_okD(4) [OF assms(1) m] by simp_all
  show "at_station sn key \<longleftrightarrow> sn = ifParent (rgInfo r k)"
    using at_station_key [OF rg_okD(5) [OF assms(1) k(1)], of sn] k(2) by simp
  show "(key, j) \<in> set (rgSources r) \<longleftrightarrow> j = k"
    using m rg_okD(3) [OF assms(1)] eq_key_imp_eq_value [of "rgSources r" key k j] by auto
qed

lemma idle_effects_filter: "idle_effects rel p es r = foldl (\<lambda>r e. rel p r) r (filter (\<lambda>e. e = OnIdle) es)"
  unfolding idle_effects_def by (induction es arbitrary: r) auto

lemma drop_shape:
  assumes "rg_ok r" "map_of (rgSources r) key = Some k"
  shows "drop_with rel key r = forget_key key
    (if sConsumers (rgSource r k) = [] then set_source k (dispose (rgSource r k)) r
     else rel (ifParent (rgInfo r k)) (set_source k (dispose (rgSource r k)) r))"
proof -
  obtain es where es: "sEffects (dispose (rgSource r k)) = sEffects (rgSource r k) @ es"
    "filter (\<lambda>e. e = OnIdle) es = (if sConsumers (rgSource r k) = [] then [] else [OnIdle])"
    using dispose_says(1) [OF rg_okD(2) [OF assms(1)], of k] by blast
  show ?thesis by (simp add: drop_with_def assms(2) Let_def es idle_effects_filter)
qed

lemma hub_disposed:
  assumes "hub_ok H d r" "map_of (rgSources r) key = Some k"
  shows "hub_ok H (d + (if ifParent (rgInfo r k) = H then is_viewed (rgSource r k) else 0)) (set_source k (dispose (rgSource r k)) r)"
proof -
  have ok: "rg_ok r" using assms(1) by (simp add: hub_ok_def)
  note s = registered_source(1) [OF ok assms(2)] and v = rg_okD(2) [OF ok, of k]
  have "live_inv (dispose (rgSource r k))" using v by (rule dispose_inv)
  from hub_set [OF assms(1) s this] show ?thesis using dispose_says(2,3) [OF v] by (simp add: is_viewed_def split: if_splits)
qed

text \<open>A release may only change the manager and, through it, the sources that are forgotten.\<close>

lemma plain_release_other: "hub_ok H d r \<Longrightarrow> sn \<noteq> H \<Longrightarrow> hub_ok H d (plain_release sn r)"
proof -
  assume h: "hub_ok H d r" and sn: "sn \<noteq> H"
  have ok: "manager_ok (rgManager r)" using h by (simp add: hub_ok_def rg_ok_def)
  have "owes H (sm_release (rgOpts r) sn (rgManager r)) (int (card (viewed H r)) + d)"
    using h release_other [OF ok, of H sn "rgOpts r"] sn by (simp add: hub_ok_def owes_def)
  then show ?thesis unfolding plain_release_def by (intro hub_manager [OF h ok_release [OF ok]])
qed

lemma hub_some: "rg_ok r \<Longrightarrow> \<exists>d. hub_ok H d r"
proof (cases "tally H (rgManager r)")
  case None
  assume "rg_ok r"
  then have "hub_ok H (- int (card (viewed H r))) r" using None by (simp add: hub_ok_def owes_def)
  then show ?thesis ..
next
  case (Some p)
  assume "rg_ok r"
  then have "hub_ok H (int (fst p) - int (snd p) - int (card (viewed H r))) r"
    using Some by (cases p) (simp add: hub_ok_def owes_def)
  then show ?thesis ..
qed

lemma plain_fields [simp]:
  "rgSources (plain_release sn r) = rgSources r" "rgSource (plain_release sn r) = rgSource r"
  by (simp_all add: plain_release_def)

lemma torn_other:
  assumes "hub_ok H d r" "ifParent (rgInfo r k) \<noteq> H" "map_of (rgSources r) key = Some k"
  shows "hub_ok H d (drop_with plain_release key r)"
proof -
  have ok: "rg_ok r" using assms(1) by (simp add: hub_ok_def)
  let ?r = "set_source k (dispose (rgSource r k)) r"
  have h: "hub_ok H d ?r" using hub_disposed [OF assms(1,3)] assms(2) by simp
  have "sDisposed (rgSource ?r j)" if "(key, j) \<in> set (rgSources ?r)" for j
    using that registered_source(4) [OF ok assms(3)] dispose_says(3) [OF rg_okD(2) [OF ok]] by simp
  then show ?thesis
    using hub_forget [OF h] hub_forget [OF plain_release_other [OF h assms(2)]] by (simp add: drop_shape [OF ok assms(3)])
qed

lemma torn_ok: "rg_ok r \<Longrightarrow> rg_ok (drop_with plain_release key r)"
proof (cases "map_of (rgSources r) key")
  case (Some k)
  assume ok: "rg_ok r"
  have "ifParent (rgInfo r k) \<noteq> ifParent (rgInfo r k) @ ''x''" by simp
  moreover obtain d where "hub_ok (ifParent (rgInfo r k) @ ''x'') d r" using hub_some [OF ok] by blast
  ultimately show ?thesis using torn_other Some unfolding hub_ok_def by blast
qed (simp add: drop_with_def)

lemma torn_keys: "rg_ok r \<Longrightarrow> rgSources (drop_with plain_release key r) = filter (\<lambda>(j, _). j \<noteq> key) (rgSources r)"
proof (cases "map_of (rgSources r) key")
  case None
  then have "filter (\<lambda>(j, _). j \<noteq> key) (rgSources r) = rgSources r"
    by (auto simp: filter_id_conv map_of_eq_None_iff image_iff)
  then show ?thesis using None by (simp add: drop_with_def)
qed (simp add: drop_shape)

lemma torn_tally:
  "rg_ok r \<Longrightarrow> tally H (rgManager r) = None \<Longrightarrow> tally H (rgManager (drop_with plain_release key r)) = None"
proof (cases "map_of (rgSources r) key")
  case (Some k)
  assume ok: "rg_ok r" and t: "tally H (rgManager r) = None"
  have m: "manager_ok (rgManager r)" using rg_okD(1) [OF ok] .
  have "tally H (sm_release opts p (rgManager r)) = None" for opts p
  proof (cases "p = H")
    case True
    then show ?thesis using t by (simp add: sm_release_def tally_def)
  qed (use release_other [OF m] t in simp)
  then show ?thesis using t by (simp add: drop_shape [OF ok Some] plain_release_def)
qed (simp add: drop_with_def)

lemma drop_station_torn:
  "rg_ok r \<Longrightarrow> rg_ok (foldl (\<lambda>r key. drop_with plain_release key r) r keys) \<and>
     rgSources (foldl (\<lambda>r key. drop_with plain_release key r) r keys) = filter (\<lambda>(j, _). j \<notin> set keys) (rgSources r) \<and>
     (tally H (rgManager r) = None \<longrightarrow> tally H (rgManager (foldl (\<lambda>r key. drop_with plain_release key r) r keys)) = None)"
proof (induction keys arbitrary: r)
  case (Cons key keys)
  have "filter (\<lambda>(j, _). j \<notin> set keys) (filter (\<lambda>(j, _). j \<noteq> key) (rgSources r)) = filter (\<lambda>(j, _). j \<notin> set (key # keys)) (rgSources r)"
    by (auto intro!: filter_cong)
  then show ?case using Cons.IH [OF torn_ok [OF Cons.prems]] torn_keys [OF Cons.prems] torn_tally [OF Cons.prems] by simp
qed simp

lemma drop_station_other:
  assumes "hub_ok H d r" "sn \<noteq> H" "\<And>key. key \<in> set keys \<Longrightarrow> at_station sn key"
  shows "hub_ok H d (foldl (\<lambda>r key. drop_with plain_release key r) r keys)"
  using assms
proof (induction keys arbitrary: r)
  case (Cons key keys)
  have "hub_ok H d (drop_with plain_release key r)"
  proof (cases "map_of (rgSources r) key")
    case (Some k)
    have ok: "rg_ok r" using Cons.prems(1) by (simp add: hub_ok_def)
    have "ifParent (rgInfo r k) \<noteq> H" using registered_source(3) [OF ok Some, of sn] Cons.prems(2,3) by simp
    then show ?thesis using torn_other [OF Cons.prems(1) _ Some] by blast
  qed (simp add: drop_with_def Cons.prems(1))
  then show ?case using Cons.IH Cons.prems(2,3) by simp
qed simp

lemma tearDown_fields:
  "rgManager (tearDownStation sn r) = rgManager (drop_station sn (r\<lparr>rgManager := sm_remove sn (rgManager r)\<rparr>))"
  "rgSources (tearDownStation sn r) = rgSources (drop_station sn (r\<lparr>rgManager := sm_remove sn (rgManager r)\<rparr>))"
  "rgSource (tearDownStation sn r) = rgSource (drop_station sn (r\<lparr>rgManager := sm_remove sn (rgManager r)\<rparr>))"
  "rgInfo (tearDownStation sn r) = rgInfo (drop_station sn (r\<lparr>rgManager := sm_remove sn (rgManager r)\<rparr>))"
  "rgNext (tearDownStation sn r) = rgNext (drop_station sn (r\<lparr>rgManager := sm_remove sn (rgManager r)\<rparr>))"
  by (simp_all add: tearDownStation_def rg_note_def stop_talks_def)

text \<open>A torn station owes nothing and has no source; another station is left as it was.\<close>

lemma tearDown_hub:
  assumes "rg_ok r" "sn \<noteq> H \<Longrightarrow> hub_ok H d r"
  shows "hub_ok H (if sn = H then 0 else d) (tearDownStation sn r)"
proof -
  have m: "manager_ok (rgManager r)" using rg_okD(1) [OF assms(1)] .
  let ?r = "r\<lparr>rgManager := sm_remove sn (rgManager r)\<rparr>"
  let ?keys = "filter (at_station sn) (map fst (rgSources ?r))"
  have ok: "rg_ok ?r" using assms(1) ok_remove [OF m, of sn] by (simp add: rg_ok_def)
  have "hub_ok H (if sn = H then 0 else d) (drop_station sn ?r)"
  proof (cases "sn = H")
    case True
    have t: "tally H (rgManager ?r) = None" using tally_remove [OF m, of H sn] True by simp
    note f = drop_station_torn [OF ok, where H = H and keys = ?keys]
    have "filter (\<lambda>(j, _). j \<notin> set ?keys) (rgSources r) = filter (\<lambda>(j, _). \<not> at_station sn j) (rgSources r)"
      by (rule filter_cong) force+
    then have gone: "rg_ok (drop_station sn ?r)" "tally H (rgManager (drop_station sn ?r)) = None"
      "rgSources (drop_station sn ?r) = filter (\<lambda>(j, _). \<not> at_station sn j) (rgSources r)"
      using f t by (simp_all add: drop_station_def)
    have "viewed H (drop_station sn ?r) = {}"
    proof (rule ccontr)
      assume "viewed H (drop_station sn ?r) \<noteq> {}"
      then obtain k where k: "k \<in> viewed H (drop_station sn ?r)" by blast
      have "key_ok (rgInfo (drop_station sn ?r) k)" using rg_okD(5) [OF gone(1), of k] k by (simp add: viewed_def)
      then have "at_station sn (ifKey (rgInfo (drop_station sn ?r) k))" using at_station_key True k by (simp add: viewed_def)
      then show False using viewed_registered [OF gone(1) k] gone(3) by simp
    qed
    then show ?thesis using gone True by (simp add: hub_ok_def owes_def)
  next
    case False
    have "owes H (sm_remove sn (rgManager r)) (int (card (viewed H r)) + d)"
      using assms(2) [OF False] tally_remove [OF m, of H sn] False by (simp add: hub_ok_def owes_def)
    then have h: "hub_ok H d ?r" using hub_manager [OF assms(2) [OF False] ok_remove [OF m]] by simp
    have "hub_ok H d (drop_station sn ?r)" unfolding drop_station_def
      by (rule drop_station_other [OF h False]) simp
    then show ?thesis using False by simp
  qed
  then show ?thesis by (rule hub_ext) (simp_all add: tearDown_fields)
qed

lemma announces_hub: "hub_ok H 0 r \<Longrightarrow> hub_ok H 0 (foldl announce r xs)"
proof (induction xs arbitrary: r)
  case (Cons x xs)
  have "hub_ok H 0 (announce r x)"
    using tearDown_hub [of r _ H 0] Cons.prems by (auto simp: announce_def hub_ok_def split: manager_out.split)
  then show ?case using Cons.IH by simp
qed simp

lemma rg_manager_hub:
  assumes "rg_ok r" "manager_ok (f (rgManager r))" "owes H (f (rgManager r)) (int (card (viewed H r)))"
  shows "hub_ok H 0 (rg_manager f r)"
proof -
  obtain d where "hub_ok H d r" using hub_some [OF assms(1)] by blast
  then have "hub_ok H 0 (r\<lparr>rgManager := f (rgManager r)\<rparr>)" using hub_manager [OF _ assms(2), of H d r 0] assms(3) by simp
  then show ?thesis unfolding rg_manager_def Let_def by (rule announces_hub)
qed

lemma rg_release_hub:
  assumes "hub_ok H (if sn = H then 1 else 0) r"
  shows "hub_ok H 0 (rg_release sn r)"
proof -
  have ok: "rg_ok r" and m: "manager_ok (rgManager r)" using assms by (simp_all add: hub_ok_def rg_ok_def)
  have "owes H (sm_release (rgOpts r) sn (rgManager r)) (int (card (viewed H r)))"
  proof (cases "sn = H")
    case True
    then show ?thesis using owes_release [OF m, of H "int (card (viewed H r))"] assms by (simp add: hub_ok_def)
  next
    case False
    then show ?thesis using assms release_other [OF m, of H sn] by (simp add: hub_ok_def owes_def)
  qed
  then show ?thesis unfolding rg_release_def by (intro rg_manager_hub ok ok_release m)
qed

lemma dropLive_hub: "hub_ok H 0 r \<Longrightarrow> hub_ok H 0 (dropLiveSource key r)"
proof (cases "map_of (rgSources r) key")
  case (Some k)
  assume h: "hub_ok H 0 r"
  then have ok: "rg_ok r" by (simp add: hub_ok_def)
  let ?p = "ifParent (rgInfo r k)" and ?r = "set_source k (dispose (rgSource r k)) r"
  have h1: "hub_ok H (if ?p = H then is_viewed (rgSource r k) else 0) ?r" using hub_disposed [OF h Some] by simp
  have gone: "sDisposed (rgSource r' j)" if "same_cells ?r r'" "(key, j) \<in> set (rgSources r')" for r' j
    using that registered_source(4) [OF ok Some] by (auto simp: same_cells_def dispose_disposes split: if_splits)
  show ?thesis
  proof (cases "sConsumers (rgSource r k) = []")
    case True
    then have "hub_ok H 0 ?r" using h1 by (simp add: is_viewed_def split: if_splits)
    then have "hub_ok H 0 (forget_key key ?r)" using hub_forget gone [OF cells_refl] by blast
    then show ?thesis using True by (simp add: dropLiveSource_def drop_shape [OF ok Some])
  next
    case False
    then have "is_viewed (rgSource r k) = 1" by (simp add: is_viewed_def)
    then have "hub_ok H (if ?p = H then 1 else 0) ?r" using h1 by metis
    then have "hub_ok H 0 (forget_key key (rg_release ?p ?r))" using hub_forget rg_release_hub gone [OF cells_release] by blast
    then show ?thesis using False by (simp add: dropLiveSource_def drop_shape [OF ok Some])
  qed
qed (simp add: dropLiveSource_def drop_with_def)

lemma rg_close_hub:
  assumes "hub_ok H 0 r" "sn \<noteq> H"
  shows "hub_ok H 0 (rg_manager (sm_close sn c) r)"
proof -
  have ok: "rg_ok r" and m: "manager_ok (rgManager r)" using assms by (simp_all add: hub_ok_def rg_ok_def)
  have "owes H (sm_close sn c (rgManager r)) (int (card (viewed H r)))"
    using assms tally_close [OF m, of H sn c] by (simp add: hub_ok_def owes_def)
  then show ?thesis by (intro rg_manager_hub ok ok_close m)
qed

text \<open>
  The calls a source makes during one operation, in their order. Those it makes of users settle what its
  consumers changed; no source of the station is its own station.
\<close>

lemma owner_hub:
  assumes "hub_ok H d r" "ifSn (rgInfo r k) \<noteq> H"
    and "e = OnIdle \<or> e = OnStartFailed \<or> e = OnSessionUnreachable \<Longrightarrow>
      d = (if e = OnIdle \<and> ifParent (rgInfo r k) = H then 1 else 0)"
    and "e = OnActive \<Longrightarrow> ifParent (rgInfo r k) \<noteq> H \<Longrightarrow> d = 0"
  shows "hub_ok H (if ifParent (rgInfo r k) = H then (if e = OnActive then d + 1 else if e = OnIdle then d - 1 else d) else d)
    (owner k r e)"
proof -
  have ok: "rg_ok r" and m: "manager_ok (rgManager r)" using assms(1) by (simp_all add: hub_ok_def rg_ok_def)
  have failed: "hub_ok H 0 (onLiveStartFailed (ifSn (rgInfo r k)) key r)" if "hub_ok H 0 r" for key
  proof -
    have "hub_ok H 0 (rg_manager (sm_close (ifSn (rgInfo r k)) c) r\<lparr>rgNextCaller := n, rgFailing := x\<rparr>)" for c n x
      by (rule hub_ext [OF rg_close_hub [OF that assms(2)]]) simp_all
    then show ?thesis using dropLive_hub [OF that] by (simp add: onLiveStartFailed_def Let_def)
  qed
  have replaced: "hub_ok H 0 (replaceUnreachableSession k r)" if "hub_ok H 0 r"
  proof -
    have "hub_ok H 0 (rg_manager (sm_close (ifSn (rgInfo r k)) c) r\<lparr>rgNextCaller := n, rgReplacing := x\<rparr>)" for c n x
      by (rule hub_ext [OF rg_close_hub [OF that assms(2)]]) simp_all
    then show ?thesis using that by (simp add: replaceUnreachableSession_def Let_def)
  qed
  show ?thesis
  proof (cases e)
    case OnActive
    have "owes H (sm_retain (ifParent (rgInfo r k)) (rgManager r))
        (int (card (viewed H r)) + (if ifParent (rgInfo r k) = H then d + 1 else d))"
      using assms(1) owes_retain [OF m, of H "ifParent (rgInfo r k)"] by (auto simp: hub_ok_def)
    then have "hub_ok H (if ifParent (rgInfo r k) = H then d + 1 else d)
        (r\<lparr>rgManager := sm_retain (ifParent (rgInfo r k)) (rgManager r)\<rparr>)"
      by (rule hub_manager [OF assms(1) ok_retain [OF m]])
    then show ?thesis using OnActive by (auto simp: owner_def split: if_splits)
  next
    case OnIdle
    then show ?thesis using rg_release_hub [of H "ifParent (rgInfo r k)" r] assms(1,3) by (auto simp: owner_def split: if_splits)
  next
    case OnStartFailed
    then show ?thesis using failed assms(1,3) by (simp add: owner_def)
  next
    case OnSessionUnreachable
    then show ?thesis using replaced assms(1,3) by (simp add: owner_def)
  next
    case StreamOpened
    have "hub_ok H d (rg_note x r)" for x by (rule hub_ext [OF assms(1)]) (simp_all add: rg_note_def)
    then show ?thesis using StreamOpened by (simp add: owner_def)
  qed (use assms(1) in \<open>simp_all add: owner_def\<close>)
qed

definition idle_balance :: "effect list \<Rightarrow> int" where
  "idle_balance es = int (count_list es OnIdle) - int (count_list es OnActive)"

lemma owners_hub:
  assumes "tame es" "hub_ok H (if ifParent (rgInfo r k) = H then idle_balance es else 0) r" "ifSn (rgInfo r k) \<noteq> H"
  shows "hub_ok H 0 (foldl (owner k) r es)"
  using assms
proof (induction es arbitrary: r)
  case Nil
  then show ?case by (simp add: idle_balance_def split: if_splits)
next
  case (Cons e es)
  have i: "rgInfo (owner k r e) = rgInfo r" using cells_owner [of r k e] by (simp add: same_cells_def)
  let ?d = "if ifParent (rgInfo r k) = H then idle_balance (e # es) else 0"
  have "hub_ok H (if ifParent (rgInfo r k) = H then (if e = OnActive then ?d + 1 else if e = OnIdle then ?d - 1 else ?d) else ?d)
      (owner k r e)"
    by (rule owner_hub [OF Cons.prems(2,3)]) (use Cons.prems(1) in \<open>auto simp: idle_balance_def\<close>)
  then have "hub_ok H (if ifParent (rgInfo r k) = H then idle_balance es else 0) (owner k r e)"
    by (simp add: idle_balance_def split: if_splits)
  then show ?case using Cons.IH [of "owner k r e"] Cons.prems(1,3) i by simp
qed

lemma pending_watched: "live_inv s \<Longrightarrow> live_inv t \<Longrightarrow> sEffects t = sEffects s @ es \<Longrightarrow> idle_balance es = is_viewed s - is_viewed t"
  by (auto simp: live_inv_def user_balance_def idle_balance_def is_viewed_def)

lemma source_does_hub:
  assumes "hub_ok H 0 r" "k < rgNext r" "ifSn (rgInfo r k) \<noteq> H" "live_inv (f (foreseen k r))" "tells (foreseen k r) (f (foreseen k r))"
  shows "hub_ok H 0 (source_does f k r)"
proof -
  have v: "live_inv (rgSource r k)" using assms(1) rg_okD(2) by (simp add: hub_ok_def)
  obtain es where es: "sEffects (f (foreseen k r)) = sEffects (rgSource r k) @ es" "tame es"
    using assms(5) by (auto simp: tells_def)
  let ?r = "set_source k (f (foreseen k r)) r"
  have "hub_ok H (if ifParent (rgInfo r k) = H then idle_balance es else 0) ?r"
    using hub_set [OF assms(1,2,4)] assms(5) pending_watched [OF v assms(4) es(1)] by (simp add: tells_def split: if_splits)
  then have "hub_ok H 0 (foldl (owner k) ?r es)" using owners_hub [OF es(2), of H ?r k] assms(3) by simp
  then show ?thesis by (simp add: source_does_def Let_def es(1))
qed

lemma cells_source_does: "tells (foreseen k r) (f (foreseen k r)) \<Longrightarrow> same_cells r (source_does f k r)"
  unfolding source_does_def Let_def
  by (rule cells_trans [OF cells_set cells_foldl]) (auto simp: tells_def cells_owner)

lemma tells_dispose: "live_inv s \<Longrightarrow> tells s (dispose s)"
  using tells_step [of s _ Dispose] by simp

lemma tells_rewarm: "live_inv s \<Longrightarrow> tells s (rewarm s)"
  using tells_step [of s _ Rewarm] by simp

lemma rewarm_inv: "live_inv s \<Longrightarrow> live_inv (rewarm s)"
  using step_inv [of s _ Rewarm] by simp

definition hub_inv :: "string \<Rightarrow> registry \<Rightarrow> bool" where
  "hub_inv H r \<longleftrightarrow> hub_ok H 0 r \<and> (\<forall>k < rgNext r. ifSn (rgInfo r k) \<noteq> H)"

lemma hub_inv_cells: "hub_ok H 0 r' \<Longrightarrow> hub_inv H r \<Longrightarrow> same_cells r r' \<Longrightarrow> hub_inv H r'"
  by (simp add: hub_inv_def same_cells_def)

lemma hub_inv_drop: "hub_inv H r \<Longrightarrow> hub_inv H (dropLiveSource key r)"
  using hub_inv_cells [OF dropLive_hub _ cells_dropLive] by (simp add: hub_inv_def)

lemma hub_inv_ext:
  assumes "hub_inv H r" "rgManager r' = rgManager r" "rgInfo r' = rgInfo r" "rgNext r' = rgNext r"
    "rgSource r' = rgSource r" "rgSources r' = rgSources r"
  shows "hub_inv H r'"
  using assms hub_ext [OF _ assms(2-6)] by (simp add: hub_inv_def)

lemma hub_inv_siblings: "hub_inv H r \<Longrightarrow> hub_inv H (releaseLingeringSiblings p ch r)"
proof -
  have "hub_inv H r \<Longrightarrow> hub_inv H (foldl (\<lambda>r (key, k). if \<not> at_station p key \<or> key = camera_key p ch \<or> sConsumers (rgSource r k) \<noteq> [] then r
       else dropLiveSource key r) r xs)" for xs
    by (induction xs arbitrary: r) (auto simp: hub_inv_drop)
  then show "hub_inv H r \<Longrightarrow> ?thesis" by (simp add: releaseLingeringSiblings_def)
qed

lemma cells_siblings: "same_cells r (releaseLingeringSiblings p ch r)"
  unfolding releaseLingeringSiblings_def
  by (rule cells_foldl) (auto simp: cells_refl cells_dropLive split: prod.split)

lemma dropLive_absent: "map_of (rgSources (dropLiveSource key r)) key = None"
  by (auto simp: dropLiveSource_def drop_with_def Let_def map_of_eq_None_iff split: option.split)

lemma absent_cells: "map_of (rgSources r) key = None \<Longrightarrow> same_cells r r' \<Longrightarrow> map_of (rgSources r') key = None"
  by (force simp: same_cells_def map_of_eq_None_iff)

lemma hub_inv_build:
  assumes "hub_inv H r" "map_of (rgSources r) (camera_key p ch) = None" "CHR '':'' \<notin> set p" "sn \<noteq> H"
  shows "hub_inv H (build_source sn p (camera_key p ch) sess o1 r)"
proof -
  let ?r = "build_source sn p (camera_key p ch) sess o1 r"
  have ok: "rg_ok r" using assms(1) by (simp add: hub_inv_def hub_ok_def)
  have new: "live_inv new_source" using live_run_inv [of undefined "[]"] by (simp add: live_run_def)
  have "rg_ok ?r"
  proof (rule rg_okI)
    show "manager_ok (rgManager ?r)" using rg_okD(1) [OF ok] by (simp add: build_source_def)
    show "live_inv (rgSource ?r k)" for k using rg_okD(2) [OF ok] new by (simp add: build_source_def)
    show "distinct (map fst (rgSources ?r))"
      using rg_okD(3) [OF ok] assms(2) by (simp add: build_source_def map_of_eq_None_iff)
    show "k < rgNext ?r \<and> ifKey (rgInfo ?r k) = key" if "(key, k) \<in> set (rgSources ?r)" for key k
      using that rg_okD(4) [OF ok, of key k] by (auto simp: build_source_def)
    show "key_ok (rgInfo ?r k)" if "k < rgNext ?r" for k
      using that rg_okD(5) [OF ok, of k] assms(3) by (auto simp: build_source_def key_ok_def less_Suc_eq)
    show "(ifKey (rgInfo ?r k), k) \<in> set (rgSources ?r) \<or> sDisposed (rgSource ?r k)" if "k < rgNext ?r" for k
      using that rg_okD(6) [OF ok, of k] by (auto simp: build_source_def less_Suc_eq)
  qed
  moreover have "viewed H ?r = viewed H r" by (auto simp: viewed_def build_source_def new_source_def less_Suc_eq)
  ultimately show ?thesis using assms(1,4) by (auto simp: hub_inv_def hub_ok_def build_source_def less_Suc_eq)
qed

lemma drop_stopped_absent:
  assumes "case map_of (rgSources r) key of None \<Rightarrow> True | Some k \<Rightarrow> sState (rgSource r k) = Stopped"
  shows "map_of (rgSources (drop_stopped key r)) key = None"
  using assms dropLive_absent by (auto simp: drop_stopped_def split: option.splits)

lemma hub_inv_get:
  assumes "hub_inv H r" "CHR '':'' \<notin> set p" "sn \<noteq> H"
  shows "hub_inv H (snd (sharedLiveSource sn p ch att sess o1 r))"
proof -
  let ?key = "camera_key p ch"
  let ?r2 = "releaseLingeringSiblings p ch (drop_stopped ?key r)"
  have "hub_inv H (drop_stopped ?key r)" using assms(1) hub_inv_drop by (simp add: drop_stopped_def split: option.split)
  then have h: "hub_inv H ?r2" by (rule hub_inv_siblings)
  moreover have "hub_inv H (warnIgnoredLiveOpts ?key o1 ?r2)"
  proof -
    have "hub_inv H (rg_note x ?r2)" for x by (rule hub_inv_ext [OF h]) (simp_all add: rg_note_def)
    then show ?thesis using h by (simp add: warnIgnoredLiveOpts_def Let_def split: option.split)
  qed
  moreover have "hub_inv H (build_source sn p ?key sess o1 ?r2)"
    if "case map_of (rgSources r) ?key of None \<Rightarrow> True | Some k \<Rightarrow> sState (rgSource r k) = Stopped"
    using hub_inv_build [OF h absent_cells [OF drop_stopped_absent [OF that] cells_siblings] assms(2,3)] .
  ultimately show ?thesis
    by (cases "map_of (rgSources r) ?key") (auto simp: sharedLiveSource_def Let_def split: option.split)
qed

lemma hub_inv_source:
  assumes "hub_inv H r" "k < rgNext r" "live_inv (f (foreseen k r))" "tells (foreseen k r) (f (foreseen k r))"
  shows "hub_inv H (source_does f k r)"
proof -
  have "hub_ok H 0 (source_does f k r)"
    by (rule source_does_hub) (use assms in \<open>simp_all add: hub_inv_def\<close>)
  then show ?thesis using hub_inv_cells assms(1) cells_source_does [where f = f, OF assms(4)] by blast
qed

text \<open>Another cell for the session of a source, its device and key kept.\<close>

lemma hub_inv_held: "hub_inv H r \<Longrightarrow> hub_inv H (r\<lparr>rgInfo := (rgInfo r)(k := (rgInfo r k)\<lparr>ifHeld := sess\<rparr>)\<rparr>)"
proof -
  let ?r = "r\<lparr>rgInfo := (rgInfo r)(k := (rgInfo r k)\<lparr>ifHeld := sess\<rparr>)\<rparr>"
  have i: "ifKey (rgInfo ?r j) = ifKey (rgInfo r j)" "ifParent (rgInfo ?r j) = ifParent (rgInfo r j)"
    "ifSn (rgInfo ?r j) = ifSn (rgInfo r j)" for j by simp_all
  assume h: "hub_inv H r"
  then have ok: "rg_ok r" by (simp add: hub_inv_def hub_ok_def)
  have "rg_ok ?r"
  proof (rule rg_okI)
    show "j < rgNext ?r \<and> ifKey (rgInfo ?r j) = key" if "(key, j) \<in> set (rgSources ?r)" for key j
      using that rg_okD(4) [OF ok, of key j] unfolding i by simp
    show "key_ok (rgInfo ?r j)" if "j < rgNext ?r" for j using that rg_okD(5) [OF ok, of j] unfolding key_ok_def i by simp
    show "(ifKey (rgInfo ?r j), j) \<in> set (rgSources ?r) \<or> sDisposed (rgSource ?r j)" if "j < rgNext ?r" for j
      using that rg_okD(6) [OF ok, of j] unfolding i by simp
  qed (use rg_okD(1-3) [OF ok] in simp_all)
  moreover have "viewed H ?r = viewed H r" unfolding viewed_def i by simp
  ultimately show ?thesis using h unfolding hub_inv_def hub_ok_def i by simp
qed

lemma hub_inv_replaced: "hub_inv H r \<Longrightarrow> hub_inv H (sessionReplaced c answer r)"
proof -
  assume h: "hub_inv H r"
  let ?r = "r\<lparr>rgReplacing := filter (\<lambda>(d, _). d \<noteq> c) (rgReplacing r)\<rparr>"
  have h1: "hub_inv H ?r" by (rule hub_inv_ext [OF h]) simp_all
  have "hub_inv H (source_does rewarm j (?r\<lparr>rgInfo := (rgInfo ?r)(k := (rgInfo ?r k)\<lparr>ifHeld := sess\<rparr>)\<rparr>))"
    if "map_of (rgSources ?r) key = Some j" for j k key sess
  proof -
    let ?s = "?r\<lparr>rgInfo := (rgInfo ?r)(k := (rgInfo ?r k)\<lparr>ifHeld := sess\<rparr>)\<rparr>"
    have h2: "hub_inv H ?s" using hub_inv_held [OF h1] by simp
    have ok: "rg_ok ?s" using h2 by (simp add: hub_inv_def hub_ok_def)
    have "j < rgNext ?s" using registered_source(1) [OF ok, of key j] that by simp
    then show ?thesis
      by (rule hub_inv_source [where f = rewarm, OF h2 _ rewarm_inv tells_rewarm]) (use rg_okD(2) [OF ok, of j] in simp_all)
  qed
  then show ?thesis using h h1 by (auto simp: sessionReplaced_def Let_def split: option.split)
qed

lemma discard_all_entries: "mgEntries (snd (discard_all sns m)) = filter (\<lambda>(k, _). k \<notin> set sns) (mgEntries m)"
proof (induction sns m rule: discard_all.induct)
  case (2 sn sns m)
  show ?case
  proof (cases "sm_discard sn m")
    case None
    then have "map_of (mgEntries m) sn = None" by (simp add: sm_discard_def)
    then have "sn \<notin> fst ` set (mgEntries m)" by (simp add: map_of_eq_None_iff)
    then have "filter (\<lambda>(k, _). k \<notin> set sns) (mgEntries m) = filter (\<lambda>(k, _). k \<notin> set (sn # sns)) (mgEntries m)"
      by (intro filter_cong) force+
    then show ?thesis using 2 None by simp
  next
    case (Some p)
    have "mgEntries (snd p) = filter (\<lambda>(k, _). k \<noteq> sn) (mgEntries m)" using Some by (auto simp: sm_discard_def)
    moreover have "filter (\<lambda>(k, _). k \<notin> set sns) (filter (\<lambda>(k, _). k \<noteq> sn) (mgEntries m)) = filter (\<lambda>(k, _). k \<notin> set (sn # sns)) (mgEntries m)"
      by (auto intro!: filter_cong)
    moreover have "mgEntries (snd (discard_all (sn # sns) m)) = mgEntries (snd (discard_all sns (snd p)))"
      using Some by (cases p) (simp split: prod.split)
    moreover have "mgEntries (snd (discard_all sns (snd p))) = filter (\<lambda>(k, _). k \<notin> set sns) (mgEntries (snd p))"
      using 2(2) [OF Some, of "fst p" "snd p"] by simp
    ultimately show ?thesis by simp
  qed
qed simp

lemma tally_closeAll: "tally k (sm_closeAll c m) = None"
proof -
  let ?m = "m\<lparr>mgGeneration := mgGeneration m + 1\<rparr>"
  obtain es m1 where d: "discard_all (map fst (mgEntries m)) ?m = (es, m1)" by (rule prod.exhaust)
  have "mgEntries m1 = []" using discard_all_entries [of "map fst (mgEntries m)" ?m] d by (force simp: filter_empty_conv)
  then have "tally k m1 = None" by (simp add: tally_def)
  moreover have "tally k (foldl (\<lambda>m e. sm_closeEntry e [] m) m' xs) = tally k m'" for m' xs
    by (induction xs arbitrary: m') (simp_all add: tally_closeEntry)
  ultimately show ?thesis unfolding sm_closeAll_def d Let_def prod.case by simp
qed

lemma dispose_all_inv:
  assumes "hub_inv H r"
  shows "hub_inv H (dispose_all r) \<and> same_cells r (dispose_all r) \<and> (\<forall>(key, k) \<in> set (rgSources r). sDisposed (rgSource (dispose_all r) k))"
proof -
  have owners_keep: "sDisposed (rgSource (source_does dispose k s) k)" for k s
  proof -
    have "same_cells s' (foldl (owner k) s' es)" for s' es by (rule cells_foldl) (rule cells_owner)
    then show ?thesis by (simp add: source_does_def Let_def same_cells_def dispose_disposes)
  qed
  have "hub_inv H s \<Longrightarrow> \<forall>(key, k) \<in> set xs. k < rgNext s \<Longrightarrow>
      hub_inv H (foldl (\<lambda>r (key, k). source_does dispose k r) s xs) \<and> same_cells s (foldl (\<lambda>r (key, k). source_does dispose k r) s xs) \<and>
      (\<forall>(key, k) \<in> set xs. sDisposed (rgSource (foldl (\<lambda>r (key, k). source_does dispose k r) s xs) k))" for s xs
  proof (induction xs arbitrary: s)
    case (Cons x xs)
    obtain key k where x: "x = (key, k)" by fastforce
    have v: "live_inv (foreseen k s)" using Cons.prems(1) rg_okD(2) by (simp add: hub_inv_def hub_ok_def)
    let ?s = "source_does dispose k s"
    have h: "hub_inv H ?s"
      by (rule hub_inv_source [where f = dispose, OF Cons.prems(1) _ dispose_inv [OF v] tells_dispose [OF v]])
        (use Cons.prems(2) x in auto)
    have c: "same_cells s ?s" by (rule cells_source_does [where f = dispose, OF tells_dispose [OF v]])
    have ih: "hub_inv H (foldl (\<lambda>r (key, k). source_does dispose k r) ?s xs) \<and>
        same_cells ?s (foldl (\<lambda>r (key, k). source_does dispose k r) ?s xs) \<and>
        (\<forall>(key, k) \<in> set xs. sDisposed (rgSource (foldl (\<lambda>r (key, k). source_does dispose k r) ?s xs) k))"
      by (rule Cons.IH [OF h]) (use Cons.prems(2) c in \<open>auto simp: same_cells_def\<close>)
    then have "sDisposed (rgSource (foldl (\<lambda>r (key, k). source_does dispose k r) ?s xs) k)"
      using owners_keep [of k s] by (simp add: same_cells_def)
    then show ?case using ih cells_trans [OF c] by (simp add: x)
  qed (simp add: cells_refl)
  moreover have "\<forall>(key, k) \<in> set (rgSources r). k < rgNext r"
    using assms rg_okD(4) by (fastforce simp: hub_inv_def hub_ok_def)
  ultimately show ?thesis using assms unfolding dispose_all_def by blast
qed

lemma hub_inv_closeAll: "hub_inv H r \<Longrightarrow> hub_inv H (closeAllStations c r)"
proof -
  assume h: "hub_inv H r"
  let ?r = "(dispose_all r)\<lparr>rgSources := []\<rparr>"
  note d = dispose_all_inv [OF h]
  have ok: "rg_ok (dispose_all r)" using d by (simp add: hub_inv_def hub_ok_def)
  have gone: "sDisposed (rgSource (dispose_all r) k)" if "k < rgNext (dispose_all r)" for k
    using rg_okD(6) [OF ok that] d by (auto simp: same_cells_def)
  have ok': "rg_ok ?r"
    by (rule rg_okI) (use rg_okD(1,2,5) [OF ok] gone in simp_all)
  have "viewed H ?r = {}" using gone disposed_alone [OF rg_okD(2) [OF ok]] by (auto simp: viewed_def)
  then have "hub_ok H 0 (rg_manager (sm_closeAll c) ?r)"
    using rg_manager_hub [where f = "sm_closeAll c", OF ok' ok_closeAll [OF rg_okD(1) [OF ok']]] tally_closeAll
    by (simp add: owes_def)
  then have "hub_ok H 0 (closeAllStations c r)" by (simp add: closeAllStations_def)
  moreover have "same_cells r (closeAllStations c r)"
    unfolding closeAllStations_def
    by (rule cells_trans [OF _ cells_manager]) (use d in \<open>auto simp: same_cells_def\<close>)
  ultimately show ?thesis using hub_inv_cells h by blast
qed

text \<open>
  The events of a hub's life the theorems are about: serials hold no colon, no camera is its own hub, and the
  hub's session is not rebuilt. The last is a real event, which \<open>resolveSession\<close> brings about when the path of a
  registered session has fallen silent, and what the theorems say fails for it (\<open>rebuild_leaves_source_cached\<close>).
\<close>

fun hub_event :: "string \<Rightarrow> registry_event \<Rightarrow> bool" where
  "hub_event H (GetSource sn p ch att sess o1) \<longleftrightarrow> CHR '':'' \<notin> set p \<and> sn \<noteq> H"
| "hub_event H (RebuildPath sn c) \<longleftrightarrow> sn \<noteq> H"
| "hub_event H _ \<longleftrightarrow> True"

lemma hub_step:
  assumes "hub_inv H r" "hub_event H ev"
  shows "hub_inv H (registry_step r ev)"
proof -
  have ok: "rg_ok r" and m: "manager_ok (rgManager r)" and o: "owes H (rgManager r) (int (card (viewed H r)))"
    using assms(1) by (simp_all add: hub_inv_def hub_ok_def rg_ok_def)
  have managed: "hub_inv H (rg_manager f r)" if "manager_ok (f (rgManager r))" "owes H (f (rgManager r)) (int (card (viewed H r)))" for f
    using hub_inv_cells [OF rg_manager_hub [where f = f, OF ok that] assms(1) cells_manager] .
  have plain: "hub_inv H r'" if "rgManager r' = rgManager r" "rgInfo r' = rgInfo r" "rgNext r' = rgNext r"
    "rgSource r' = rgSource r" "rgSources r' = rgSources r" for r'
    using hub_inv_ext [OF assms(1) that] .
  show ?thesis
  proof (cases ev)
    case (GetSource sn p ch att sess o1)
    then show ?thesis using hub_inv_get assms by simp
  next
    case (SourceEvent k e)
    then show ?thesis
      using hub_inv_source [OF assms(1), of k "\<lambda>s. live_step (source_options (ifOpts (rgInfo r k))) s e"]
        step_inv [of "foreseen k r"] tells_step [of "foreseen k r"] rg_okD(2) [OF ok] assms(1) by simp
  next
    case (ManagerEvent e)
    then show ?thesis using managed [of "\<lambda>m. manager_step (rgOpts r) m e"] ok_step [OF m] owes_step [OF m o] assms(1) by simp
  next
    case (SessionEnds sess sn)
    have "hub_ok H (if sn = H then 0 else 0) (tearDownStation sn r)"
      by (rule tearDown_hub [OF ok]) (use assms(1) in \<open>simp add: hub_inv_def\<close>)
    then have "hub_inv H (tearDownStation sn r)" using hub_inv_cells [OF _ assms(1) cells_tearDown] by simp
    then show ?thesis using assms(1) by (simp add: SessionEnds onSessionClose_def)
  next
    case (StartFailedOver c)
    have "hub_inv H (r\<lparr>rgFailing := x\<rparr>)" for x by (rule plain) simp_all
    then show ?thesis using assms(1) by (simp add: StartFailedOver startFailedOver_def hub_inv_drop split: option.split)
  next
    case (SessionReplaced c answer)
    then show ?thesis using hub_inv_replaced [OF assms(1)] by simp
  next
    case (RebuildPath sn c)
    then show ?thesis using managed [of "sm_close sn c"] ok_close [OF m] tally_close [OF m, of H sn c] o assms(2) by (simp add: owes_def)
  next
    case (RouterCloseAll c)
    then show ?thesis using hub_inv_closeAll [OF assms(1)] by simp
  qed (use plain assms(1) in \<open>auto simp: closeTalkbacks_def claimTalkback_def endTalkback_def\<close>)
qed

lemma hub_new: "hub_inv H (new_registry opts tier)"
  using live_run_inv [of undefined "[]"] ok_new [of tier]
  by (simp add: hub_inv_def hub_ok_def rg_ok_def new_registry_def owes_def tally_def viewed_def new_manager_def live_run_def)

lemma hub_run:
  assumes "list_all (hub_event H) evs"
  shows "hub_inv H (registry_run opts tier evs)"
proof -
  have "hub_inv H r \<Longrightarrow> list_all (hub_event H) evs \<Longrightarrow> hub_inv H (foldl registry_step r evs)" for r
    by (induction evs arbitrary: r) (simp_all add: hub_step)
  then show ?thesis using hub_new assms by (simp add: registry_run_def)
qed

section \<open>What is registered can be attached to\<close>

text \<open>No source under a key outside \<open>K\<close> is disposed.\<close>

definition alive :: "string set \<Rightarrow> registry \<Rightarrow> bool" where
  "alive K r \<longleftrightarrow> (\<forall>(key, k) \<in> set (rgSources r). ifKey (rgInfo r k) = key \<and> (sDisposed (rgSource r k) \<longrightarrow> key \<in> K))"

lemma aliveD: "alive K r \<Longrightarrow> (key, k) \<in> set (rgSources r) \<Longrightarrow> ifKey (rgInfo r k) = key \<and> (sDisposed (rgSource r k) \<longrightarrow> key \<in> K)"
  by (auto simp: alive_def)

lemma alive_ext: "alive K r \<Longrightarrow> rgSources r' = rgSources r \<Longrightarrow> rgSource r' = rgSource r \<Longrightarrow> rgInfo r' = rgInfo r \<Longrightarrow> alive K r'"
  by (simp add: alive_def)

lemma alive_set: "alive K r \<Longrightarrow> alive (insert (ifKey (rgInfo r k)) K) (set_source k s r)"
  by (auto simp: alive_def)

lemma alive_set_same: "alive K r \<Longrightarrow> (sDisposed s \<Longrightarrow> sDisposed (rgSource r k)) \<Longrightarrow> alive K (set_source k s r)"
  by (auto simp: alive_def)

lemma alive_forget: "alive (insert key K) r \<Longrightarrow> alive K (forget_key key r)"
  by (auto simp: alive_def)

lemma alive_gone: "alive (insert key K) r \<Longrightarrow> (\<And>k. (key, k) \<notin> set (rgSources r)) \<Longrightarrow> alive K r"
  by (auto simp: alive_def)

lemma alive_foldl: "(\<And>r x. alive K r \<Longrightarrow> alive K (f r x)) \<Longrightarrow> alive K r \<Longrightarrow> alive K (foldl f r xs)"
  by (induction xs arbitrary: r) simp_all

lemma alive_drop:
  assumes "\<And>K sn r. alive K r \<Longrightarrow> alive K (rel sn r)" "alive K r"
  shows "alive K (drop_with rel key r)"
proof (cases "map_of (rgSources r) key")
  case (Some k)
  have "ifKey (rgInfo r k) = key" using aliveD [OF assms(2) map_of_SomeD [OF Some]] by simp
  then have "alive (insert key K) (set_source k (dispose (rgSource r k)) r)" using alive_set [OF assms(2), of k] by simp
  then show ?thesis unfolding drop_with_def Some Let_def option.case idle_effects_def
    by (intro alive_forget alive_foldl) (simp_all add: assms(1))
qed (simp add: drop_with_def assms(2))

lemma alive_plain: "alive K r \<Longrightarrow> alive K (plain_release sn r)"
  by (rule alive_ext) (simp_all add: plain_release_def)

lemma alive_tearDown: "alive K r \<Longrightarrow> alive K (tearDownStation sn r)"
proof -
  assume "alive K r"
  then have "alive K (r\<lparr>rgManager := sm_remove sn (rgManager r)\<rparr>)" by (rule alive_ext) simp_all
  then have "alive K (drop_station sn (r\<lparr>rgManager := sm_remove sn (rgManager r)\<rparr>))" unfolding drop_station_def
    by (intro alive_foldl alive_drop alive_plain)
  then show ?thesis by (rule alive_ext) (simp_all add: tearDown_fields)
qed

lemma alive_announces: "alive K r \<Longrightarrow> alive K (foldl announce r xs)"
  by (rule alive_foldl) (simp_all add: announce_def alive_tearDown split: manager_out.split)

lemma alive_manager: "alive K r \<Longrightarrow> alive K (rg_manager f r)"
  unfolding rg_manager_def Let_def by (rule alive_announces) (rule alive_ext, simp_all)

lemma alive_dropLive: "alive K r \<Longrightarrow> alive K (dropLiveSource key r)"
  unfolding dropLiveSource_def by (rule alive_drop) (simp_all add: rg_release_def alive_manager)

lemma alive_owner: "alive K r \<Longrightarrow> alive K (owner k r e)"
proof -
  assume a: "alive K r"
  have "alive K (rg_manager f r\<lparr>rgNextCaller := n, rgFailing := x\<rparr>)" "alive K (rg_manager f r\<lparr>rgNextCaller := n, rgReplacing := y\<rparr>)" for f n x y
    by (rule alive_ext [OF alive_manager [OF a]]; simp)+
  moreover have "alive K (r\<lparr>rgManager := m\<rparr>)" "alive K (rg_note o1 r)" for m o1
    by (rule alive_ext [OF a]; simp add: rg_note_def)+
  ultimately show ?thesis using a alive_manager alive_dropLive
    by (cases e) (simp_all add: owner_def onLiveStartFailed_def replaceUnreachableSession_def rg_release_def Let_def)
qed

text \<open>A torn station has nothing registered.\<close>

lemma torn_gone: "at_station sn key \<Longrightarrow> (key, k) \<notin> set (rgSources (tearDownStation sn r))"
proof
  assume a: "at_station sn key" and m: "(key, k) \<in> set (rgSources (tearDownStation sn r))"
  let ?r = "r\<lparr>rgManager := sm_remove sn (rgManager r)\<rparr>"
  have keep: "same_cells r' (foldl (\<lambda>r key. drop_with plain_release key r) r' keys)" for keys r'
    by (rule cells_foldl) (rule cells_drop, rule cells_plain)
  have absent: "key \<in> set keys \<Longrightarrow> (key, k) \<notin> set (rgSources (foldl (\<lambda>r key. drop_with plain_release key r) r' keys))" for keys r'
  proof (induction keys arbitrary: r')
    case (Cons j keys)
    have "(key, k) \<notin> set (rgSources (drop_with plain_release key r'))"
      by (auto simp: drop_with_def Let_def dest: map_of_is_SomeI split: option.split dest!: weak_map_of_SomeI)
    then show ?case using Cons keep [of "drop_with plain_release j r'" keys] by (auto simp: same_cells_def)
  qed simp
  have "same_cells ?r (drop_station sn ?r)" unfolding drop_station_def by (rule keep)
  then have "(key, k) \<in> set (rgSources ?r)" using m unfolding tearDown_fields same_cells_def by blast
  then have "key \<in> set (filter (at_station sn) (map fst (rgSources ?r)))" using a by force
  then show False using absent m by (simp add: tearDown_fields drop_station_def)
qed

lemma announced_torn: "AutoClosed p \<in> set xs \<Longrightarrow> at_station p key \<Longrightarrow> (key, k) \<notin> set (rgSources (foldl announce r xs))"
proof (induction xs arbitrary: r)
  case (Cons x xs)
  show ?case
  proof (cases "x = AutoClosed p")
    case True
    then have "(key, k) \<notin> set (rgSources (announce r x))" using torn_gone [OF Cons.prems(2)] by (simp add: announce_def)
    then show ?thesis using cells_announce [of "announce r x" xs] unfolding foldl.simps same_cells_def by blast
  next
    case False
    then show ?thesis using Cons by auto
  qed
qed simp

text \<open>Before the owner hears of the last consumer it has at most counted the user.\<close>

lemma owners_before:
  "set pre \<inter> {OnIdle, OnStartFailed, OnSessionUnreachable} = {} \<Longrightarrow>
    rgManager (foldl (owner k) r pre) = (sm_retain (ifParent (rgInfo r k)) ^^ count_list pre OnActive) (rgManager r)"
proof (induction pre arbitrary: r)
  case (Cons e pre)
  have i: "rgInfo (owner k r e) = rgInfo r" using cells_owner [of r k e] by (simp add: same_cells_def)
  have "rgManager (owner k r e) = (if e = OnActive then sm_retain (ifParent (rgInfo r k)) (rgManager r) else rgManager r)"
    using Cons.prems by (cases e) (simp_all add: owner_def rg_note_def)
  then show ?case using Cons i by (simp add: funpow_swap1)
qed simp

lemma alive_source:
  assumes "alive {} r" "key_ok (rgInfo r k)" "closes_in (foreseen k r) (f (foreseen k r))"
  shows "alive {} (source_does f k r)"
proof -
  let ?s = "f (foreseen k r)" and ?p = "ifParent (rgInfo r k)" and ?key = "ifKey (rgInfo r k)"
  let ?r = "set_source k ?s r"
  have owners: "alive K r' \<Longrightarrow> alive K (foldl (owner k) r' es)" for K r' es by (rule alive_foldl) (rule alive_owner)
  show ?thesis
  proof (cases "sDisposed ?s \<and> \<not> sDisposed (rgSource r k)")
    case False
    then have "alive {} ?r" by (intro alive_set_same [OF assms(1)]) blast
    then show ?thesis unfolding source_does_def Let_def by (rule owners)
  next
    case True
    then obtain pre post where c: "release_closes k r" "sEffects ?s = sEffects (rgSource r k) @ pre @ OnIdle # post"
      "set pre \<inter> {OnIdle, OnStartFailed, OnSessionUnreachable} = {}"
      "count_list pre OnActive = (if sConsumers (rgSource r k) = [] then 1 else 0)"
      using assms(3) unfolding closes_in_def by auto
    let ?m = "foldl (owner k) ?r pre"
    have cells: "same_cells ?r ?m" by (rule cells_foldl) (rule cells_owner)
    have "rgManager ?m = (if sConsumers (rgSource r k) = [] then sm_retain ?p (rgManager r) else rgManager r)"
      using owners_before [OF c(3), of k ?r] c(4) by simp
    then have a: "AutoClosed ?p \<in> set (drop (length (mgLog (rgManager ?m))) (mgLog (sm_release (rgOpts ?m) ?p (rgManager ?m))))"
      using c(1) cells by (simp add: release_closes_def Let_def same_cells_def split: if_splits)
    have "alive {?key} ?m" using alive_set [OF assms(1), of k ?s] by (rule owners)
    then have "alive {?key} (rg_release ?p ?m)" by (simp add: rg_release_def alive_manager)
    moreover have "(?key, j) \<notin> set (rgSources (rg_release ?p ?m))" for j
      unfolding rg_release_def rg_manager_def Let_def
      by (rule announced_torn [OF a]) (simp add: at_station_key [OF assms(2)])
    ultimately have "alive {} (owner k ?m OnIdle)" using cells by (simp add: owner_def same_cells_def alive_gone)
    from owners [OF this, of post] show ?thesis by (simp add: source_does_def c(2) Let_def)
  qed
qed

lemma alive_siblings: "alive K r \<Longrightarrow> alive K (releaseLingeringSiblings p ch r)"
  unfolding releaseLingeringSiblings_def by (rule alive_foldl) (auto simp: alive_dropLive split: prod.split)

lemma alive_build: "alive {} r \<Longrightarrow> (\<And>key k. (key, k) \<in> set (rgSources r) \<Longrightarrow> k < rgNext r) \<Longrightarrow> alive {} (build_source sn p key sess o1 r)"
  by (auto simp: alive_def build_source_def new_source_def)

lemma alive_drop_stopped: "alive K r \<Longrightarrow> alive K (drop_stopped key r)"
  by (simp add: drop_stopped_def alive_dropLive split: option.split)

lemma alive_get:
  assumes "hub_inv H r" "alive {} r"
  shows "alive {} (snd (sharedLiveSource sn p ch att sess o1 r))"
proof -
  let ?key = "camera_key p ch"
  let ?r2 = "releaseLingeringSiblings p ch (drop_stopped ?key r)"
  have "hub_inv H (drop_stopped ?key r)" using assms(1) hub_inv_drop by (simp add: drop_stopped_def split: option.split)
  then have "hub_inv H ?r2" by (rule hub_inv_siblings)
  then have ok: "rg_ok ?r2" by (simp add: hub_inv_def hub_ok_def)
  have a: "alive {} ?r2" by (intro alive_siblings alive_drop_stopped assms(2))
  have "alive {} (rg_note x ?r2)" for x by (rule alive_ext [OF a]) (simp_all add: rg_note_def)
  moreover have "alive {} (build_source sn p ?key sess o1 ?r2)" using alive_build [OF a] rg_okD(4) [OF ok] by blast
  ultimately show ?thesis using a
    by (auto simp: sharedLiveSource_def Let_def warnIgnoredLiveOpts_def split: option.split)
qed

lemma alive_step:
  assumes "hub_inv H r" "alive {} r"
  shows "alive {} (registry_step r ev)"
proof -
  have ok: "rg_ok r" using assms(1) by (simp add: hub_inv_def hub_ok_def)
  have plain: "alive {} r'" if "rgSources r' = rgSources r" "rgSource r' = rgSource r" "rgInfo r' = rgInfo r" for r'
    using alive_ext [OF assms(2) that] .
  show ?thesis
  proof (cases ev)
    case (GetSource sn p ch att sess o1)
    then show ?thesis using alive_get [OF assms] by simp
  next
    case (SourceEvent k e)
    have "alive {} (source_does (\<lambda>s. live_step (source_options (ifOpts (rgInfo r k))) s e) k r)"
      if "\<not> own_source_event e" "k < rgNext r"
      by (rule alive_source [where f = "\<lambda>s. live_step (source_options (ifOpts (rgInfo r k))) s e",
          OF assms(2) rg_okD(5) [OF ok that(2)] closes_step]) (use that(1) in auto)
    then show ?thesis using assms(2) by (simp add: SourceEvent)
  next
    case (StartFailedOver c)
    have "alive {} (r\<lparr>rgFailing := x\<rparr>)" for x by (rule plain) simp_all
    then show ?thesis using assms(2) by (simp add: StartFailedOver startFailedOver_def alive_dropLive split: option.split)
  next
    case (SessionReplaced c answer)
    let ?r = "r\<lparr>rgReplacing := filter (\<lambda>(d, _). d \<noteq> c) (rgReplacing r)\<rparr>"
    have a: "alive {} ?r" by (rule plain) simp_all
    have "alive {} (source_does rewarm j (?r\<lparr>rgInfo := (rgInfo ?r)(k := (rgInfo ?r k)\<lparr>ifHeld := sess\<rparr>)\<rparr>))"
      if "map_of (rgSources ?r) key = Some j" for j k key sess
    proof -
      let ?s = "?r\<lparr>rgInfo := (rgInfo ?r)(k := (rgInfo ?r k)\<lparr>ifHeld := sess\<rparr>)\<rparr>"
      have s: "alive {} ?s" using a by (auto simp: alive_def)
      have "j < rgNext r" using registered_source(1) [OF ok, of key j] that by simp
      then have "key_ok (rgInfo ?s j)" using rg_okD(5) [OF ok, of j] by (cases "j = k") (simp_all add: key_ok_def)
      then show ?thesis by (rule alive_source [where f = rewarm, OF s _ closes_rewarm])
    qed
    then show ?thesis using a assms(2) by (auto simp: SessionReplaced sessionReplaced_def Let_def split: option.split)
  next
    case (RouterCloseAll c)
    have "alive {} ((dispose_all r)\<lparr>rgSources := []\<rparr>)" by (simp add: alive_def)
    then show ?thesis by (simp add: RouterCloseAll closeAllStations_def alive_manager)
  qed (use plain assms(2) in \<open>auto simp: alive_manager alive_tearDown onSessionClose_def closeTalkbacks_def claimTalkback_def endTalkback_def\<close>)
qed

lemma alive_run:
  assumes "list_all (hub_event H) evs"
  shows "alive {} (registry_run opts tier evs)"
proof -
  have "hub_inv H r \<Longrightarrow> alive {} r \<Longrightarrow> list_all (hub_event H) evs \<Longrightarrow> alive {} (foldl registry_step r evs)" for r
    by (induction evs arbitrary: r) (simp_all add: hub_step alive_step)
  moreover have "alive {} (new_registry opts tier)" by (simp add: alive_def new_registry_def)
  ultimately show ?thesis using hub_new assms by (simp add: registry_run_def)
qed

section \<open>What viewers are spared\<close>

text \<open>Where a close is announced, the station's entry is gone.\<close>

lemma release_form:
  "(\<exists>m'. mgLog m' = mgLog m \<and> sm_release opts sn m = sm_autoClose sn [] m') \<or> Session_Manager.quiet m (sm_release opts sn m)"
proof (cases "map_of (mgEntries m) sn")
  case None
  then show ?thesis by (simp add: sm_release_def Session_Manager.quiet_refl)
next
  case (Some e)
  let ?m = "at_entry e (\<lambda>x. x\<lparr>enRetained := enRetained x - 1\<rparr>) m" and ?x = "mgStore m e"
  show ?thesis
  proof (cases "0 < enRetained ?x \<and> enReset ?x \<noteq> None \<and> enRetained ?x - 1 \<le> length (enHolds ?x)")
    case True
    then have "sm_release opts sn m = sm_autoClose sn [] ?m" by (simp add: sm_release_def Some Let_def entry_store)
    then show ?thesis using entry_store(3) by blast
  next
    case False
    then have "sm_release opts sn m \<in> {sm_log (ReleaseRefused sn) m, sm_armIdle opts sn e ?m, ?m}"
      by (auto simp: sm_release_def Some Let_def entry_store)
    then show ?thesis by (auto simp: Session_Manager.quiet_def sm_log_def sm_armIdle_def entry_store)
  qed
qed

lemma announced_gone:
  assumes "mgLog m' = mgLog m" "AutoClosed k \<in> set (drop (length (mgLog m)) (mgLog (sm_autoClose sn cs m')))"
  shows "tally k (sm_autoClose sn cs m') = None"
  using autoClose_log [of sn cs m'] assms autoClose_gone by auto

lemma release_gone:
  "AutoClosed k \<in> set (drop (length (mgLog m)) (mgLog (sm_release opts sn m))) \<Longrightarrow> tally k (sm_release opts sn m) = None"
proof -
  assume a: "AutoClosed k \<in> set (drop (length (mgLog m)) (mgLog (sm_release opts sn m)))"
  then have "\<not> Session_Manager.quiet m (sm_release opts sn m)" by (auto simp: Session_Manager.quiet_def)
  then obtain m' where m': "mgLog m' = mgLog m" "sm_release opts sn m = sm_autoClose sn [] m'" using release_form by blast
  show ?thesis using announced_gone [OF m'(1)] a unfolding m'(2) by blast
qed

lemma step_gone:
  assumes "AutoClosed k \<in> set (drop (length (mgLog m)) (mgLog (manager_step opts m ev)))"
  shows "tally k (manager_step opts m ev) = None"
proof -
  have "\<not> Session_Manager.quiet m (manager_step opts m ev)" using assms by (auto simp: Session_Manager.quiet_def)
  then consider sn where "ev = Release sn" | t where "ev = HoldExpires t" | e where "ev = IdleFires e" |
      sn c where "ev = ResetWhenUnused sn c"
    using quiet_step [of ev m opts] by blast
  then show ?thesis
  proof cases
    case 1
    then show ?thesis using release_gone assms by simp
  next
    case (2 t)
    show ?thesis
    proof (cases "map_of (mgTimers m) t")
      case (Some p)
      obtain e sn ms where p: "p = (e, sn, ms)" by (cases p) auto
      have "mgLog (hold_gone t e m) = mgLog m" by (simp add: hold_gone_def at_entry_def)
      then show ?thesis using release_gone [of k "hold_gone t e m" opts sn] assms Some by (simp add: 2 p holdExpires_releases)
    qed (use assms in \<open>simp add: 2 sm_holdExpires_def\<close>)
  next
    case (3 e)
    have l: "mgLog (at_entry e f m) = mgLog m" for f by (simp add: at_entry_def)
    show ?thesis using assms announced_gone [OF l]
      by (auto simp: 3 sm_idleFires_def sm_onIdle_def l split: option.splits if_splits)
  next
    case (4 sn c)
    then show ?thesis using assms announced_gone [OF refl]
      by (auto simp: sm_resetWhenUnused_def at_entry_def settle_def split: option.splits if_splits)
  qed
qed

text \<open>The consumers of the sources of the hub.\<close>

definition same_viewers :: "string \<Rightarrow> registry \<Rightarrow> registry \<Rightarrow> bool" where
  "same_viewers H r r' \<longleftrightarrow> (\<forall>k < rgNext r. ifParent (rgInfo r k) = H \<longrightarrow> sConsumers (rgSource r' k) = sConsumers (rgSource r k))"

lemma viewers_trans: "same_viewers H r r' \<Longrightarrow> same_cells r r' \<Longrightarrow> same_viewers H r' r'' \<Longrightarrow> same_viewers H r r''"
  by (simp add: same_viewers_def same_cells_def)

lemma viewers_same: "rgSource r' = rgSource r \<Longrightarrow> same_viewers H r r'"
  by (simp add: same_viewers_def)

lemma viewed_same: "same_viewers H r r' \<Longrightarrow> same_cells r r' \<Longrightarrow> viewed H r' = viewed H r"
  by (auto simp: viewed_def same_viewers_def same_cells_def)

lemma viewers_torn:
  assumes "rg_ok r" "at_station sn key" "sn = H \<Longrightarrow> viewed H r = {}"
  shows "same_viewers H r (drop_with plain_release key r)"
proof (cases "map_of (rgSources r) key")
  case (Some k)
  note p = registered_source(1,3) [OF assms(1) Some]
  have "sConsumers (rgSource r k) = []" if "ifParent (rgInfo r k) = H"
    using assms(2,3) p that by (auto simp: viewed_def)
  then show ?thesis
    using dispose_says(2) [OF rg_okD(2) [OF assms(1)]] by (auto simp: drop_shape [OF assms(1) Some] same_viewers_def)
qed (simp add: drop_with_def viewers_same)

lemma viewers_station:
  "rg_ok r \<Longrightarrow> list_all (at_station sn) keys \<Longrightarrow> (sn = H \<Longrightarrow> viewed H r = {}) \<Longrightarrow>
    same_viewers H r (foldl (\<lambda>r key. drop_with plain_release key r) r keys)"
proof (induction keys arbitrary: r)
  case (Cons key keys)
  let ?r = "drop_with plain_release key r"
  have v: "same_viewers H r ?r" and c: "same_cells r ?r"
    using viewers_torn [of r sn key H] cells_drop [OF cells_plain] Cons.prems by simp_all
  have "same_viewers H ?r (foldl (\<lambda>r key. drop_with plain_release key r) ?r keys)"
    by (rule Cons.IH [OF torn_ok]) (use Cons.prems viewed_same [OF v c] in auto)
  then show ?case using viewers_trans [OF v c] by simp
qed (simp add: viewers_same)

lemma viewers_tearDown:
  assumes "rg_ok r" "sn = H \<Longrightarrow> viewed H r = {}"
  shows "same_viewers H r (tearDownStation sn r)"
proof -
  let ?r = "r\<lparr>rgManager := sm_remove sn (rgManager r)\<rparr>"
  have ok: "rg_ok ?r" using assms(1) ok_remove [OF rg_okD(1) [OF assms(1)], of sn] by (simp add: rg_ok_def)
  have "same_viewers H ?r (drop_station sn ?r)" unfolding drop_station_def
    by (rule viewers_station [OF ok]) (use assms(2) in \<open>auto simp: list_all_iff viewed_def\<close>)
  then show ?thesis by (simp add: same_viewers_def tearDown_fields)
qed

lemma tearDown_ok: "rg_ok r \<Longrightarrow> rg_ok (tearDownStation sn r)"
  using tearDown_hub [of r sn sn 0] by (simp add: hub_ok_def)

lemma viewers_announce:
  "rg_ok r \<Longrightarrow> (AutoClosed H \<in> set xs \<Longrightarrow> viewed H r = {}) \<Longrightarrow> same_viewers H r (foldl announce r xs)"
proof (induction xs arbitrary: r)
  case (Cons x xs)
  have s: "same_viewers H r (announce r x) \<and> rg_ok (announce r x)"
    using viewers_tearDown [OF Cons.prems(1), of _ H] tearDown_ok [OF Cons.prems(1)] Cons.prems
    by (auto simp: announce_def viewers_same split: manager_out.split)
  have c: "same_cells r (announce r x)" using cells_announce [of r "[x]"] by simp
  have "same_viewers H (announce r x) (foldl announce (announce r x) xs)"
    by (rule Cons.IH) (use s Cons.prems(2) viewed_same [OF conjunct1 [OF s] c] in auto)
  then show ?case using viewers_trans [OF conjunct1 [OF s] c] by simp
qed (simp add: viewers_same)

lemma viewers_manager:
  assumes "rg_ok r" "manager_ok (f (rgManager r))" "owes H (f (rgManager r)) (int (card (viewed H r)))"
    and "AutoClosed H \<in> set (drop (length (mgLog (rgManager r))) (mgLog (f (rgManager r)))) \<Longrightarrow> tally H (f (rgManager r)) = None"
  shows "same_viewers H r (rg_manager f r)"
proof -
  let ?r = "r\<lparr>rgManager := f (rgManager r)\<rparr>"
  have ok: "rg_ok ?r" using assms(1,2) by (simp add: rg_ok_def)
  have v: "viewed H ?r = viewed H r" by (simp add: viewed_def)
  have "viewed H r = {}" if "tally H (f (rgManager r)) = None" using assms(3) that by (simp add: owes_def)
  then have "same_viewers H ?r (rg_manager f r)"
    unfolding rg_manager_def Let_def by (intro viewers_announce [OF ok]) (simp add: v assms(4))
  then show ?thesis by (simp add: same_viewers_def)
qed

text \<open>
  C3. The manager counts the viewers of a HomeBase. Over any events in the life of a hub (cameras acquired,
  sources and consumers doing anything, opens, holds, resets, sessions ending, the router closing) but one, the
  rebuild of the hub's own session after its path fell silent: what the hub's entry retains is its holds and one
  for each of its live sources that somebody watches; a hub without an entry has no viewed source. The rebuild
  is left out because the count does not survive it (\<open>rebuild_leaves_source_cached\<close>).
\<close>

theorem registry_counts_viewers:
  assumes "list_all (hub_event H) evs" "r = registry_run opts tier evs"
  shows "case map_of (mgEntries (rgManager r)) H of
      None \<Rightarrow> viewed H r = {}
    | Some e \<Rightarrow> enRetained (mgStore (rgManager r) e) = length (enHolds (mgStore (rgManager r) e)) + card (viewed H r)"
proof -
  have "owes H (rgManager r) (int (card (viewed H r)))"
    using hub_run [OF assms(1)] assms(2) by (simp add: hub_inv_def hub_ok_def)
  then show ?thesis by (cases "map_of (mgEntries (rgManager r)) H") (simp_all add: owes_def tally_def)
qed

text \<open>
  C4. The manager never takes a live view of a HomeBase away whose session was not rebuilt. In any state of the
  hub's life, as long as its session has not been closed and opened again because its path fell silent: whatever
  the manager does by itself (an idle window that elapses, a hold that runs out, a pending reset, an open that
  ends) and whatever it has torn down for it, no source of the hub loses a consumer. After such a rebuild under
  a viewer this fails, for the viewer is no longer counted (\<open>rebuild_leaves_source_cached\<close>).
\<close>

theorem manager_spares_viewers:
  assumes "list_all (hub_event H) evs" "r = registry_run opts tier evs" "k < rgNext r" "ifParent (rgInfo r k) = H"
  shows "sConsumers (rgSource (registry_step r (ManagerEvent ev)) k) = sConsumers (rgSource r k)"
proof (cases "own_manager_event ev")
  case False
  have h: "rg_ok r" "owes H (rgManager r) (int (card (viewed H r)))"
    using hub_run [OF assms(1)] assms(2) by (simp_all add: hub_inv_def hub_ok_def)
  note m = rg_okD(1) [OF h(1)]
  have "same_viewers H r (rg_manager (\<lambda>m. manager_step (rgOpts r) m ev) r)"
    by (rule viewers_manager) (use h(1) ok_step [OF m] owes_step [OF m h(2) _ False] step_gone in simp_all)
  then show ?thesis using False assms(3,4) by (simp add: same_viewers_def)
qed simp

section \<open>Acquiring a camera\<close>

text \<open>Dropping a source reaches no consumer but its own.\<close>

lemma drop_spares:
  assumes "hub_ok H 0 r" "map_of (rgSources r) key = Some k" "j < rgNext r" "ifParent (rgInfo r j) = H" "j \<noteq> k"
  shows "sConsumers (rgSource (dropLiveSource key r) j) = sConsumers (rgSource r j)"
proof -
  have ok: "rg_ok r" using assms(1) by (simp add: hub_ok_def)
  let ?p = "ifParent (rgInfo r k)" and ?r = "set_source k (dispose (rgSource r k)) r"
  have h: "hub_ok H (if ?p = H then is_viewed (rgSource r k) else 0) ?r" using hub_disposed [OF assms(1,2)] by simp
  show ?thesis
  proof (cases "sConsumers (rgSource r k) = []")
    case True
    then show ?thesis using assms(5) by (simp add: dropLiveSource_def drop_shape [OF ok assms(2)])
  next
    case False
    then have "is_viewed (rgSource r k) = 1" by (simp add: is_viewed_def)
    then have h1: "hub_ok H (if ?p = H then 1 else 0) ?r" using h by metis
    have ok1: "rg_ok ?r" and m: "manager_ok (rgManager ?r)" using h1 by (simp_all add: hub_ok_def rg_ok_def)
    have o: "owes H (sm_release (rgOpts ?r) ?p (rgManager ?r)) (int (card (viewed H ?r)))"
    proof (cases "?p = H")
      case True
      then show ?thesis using owes_release [OF m, of H "int (card (viewed H ?r))"] h1 by (simp add: hub_ok_def)
    next
      case False
      then show ?thesis using h1 release_other [OF m, of H ?p] by (simp add: hub_ok_def owes_def)
    qed
    have "same_viewers H ?r (rg_release ?p ?r)" unfolding rg_release_def
      by (rule viewers_manager [where f = "sm_release (rgOpts ?r) ?p", OF ok1 ok_release [OF m] o]) (rule release_gone)
    then show ?thesis using False assms(3-5) by (simp add: dropLiveSource_def drop_shape [OF ok assms(2)] same_viewers_def)
  qed
qed

text \<open>A sibling that is released had nobody, so nothing else changes.\<close>

lemma drop_lingering:
  assumes "rg_ok r" "map_of (rgSources r) key = Some k" "sConsumers (rgSource r k) = []"
  shows "dropLiveSource key r = forget_key key (set_source k (dispose (rgSource r k)) r)"
  using assms by (simp add: dropLiveSource_def drop_shape)

definition spared :: "string \<Rightarrow> registry \<Rightarrow> registry \<Rightarrow> bool" where
  "spared own r r' \<longleftrightarrow> map_of (rgSources r') own = map_of (rgSources r) own \<and>
     (\<forall>k. map_of (rgSources r) own = Some k \<longrightarrow> rgSource r' k = rgSource r k) \<and>
     (\<forall>k. sConsumers (rgSource r' k) = sConsumers (rgSource r k))"

lemma spared_refl: "spared own r r"
  by (simp add: spared_def)

lemma spared_trans: "spared own r r' \<Longrightarrow> spared own r' r'' \<Longrightarrow> spared own r r''"
  by (auto simp: spared_def)

lemma map_of_forget: "map_of (filter (\<lambda>(j, _). j \<noteq> key) xs) own = (if own = key then None else map_of xs own)"
  by (induction xs) auto

lemma drop_lingering_spares:
  assumes "rg_ok r" "map_of (rgSources r) key = Some k" "sConsumers (rgSource r k) = []" "key \<noteq> own"
  shows "spared own r (dropLiveSource key r)"
proof -
  have "k \<noteq> j" if "map_of (rgSources r) own = Some j" for j
    using registered_source(2) [OF assms(1,2)] registered_source(2) [OF assms(1) that] assms(4) by auto
  then show ?thesis
    using dispose_says(2) [OF rg_okD(2) [OF assms(1)], of k] assms(3,4)
    by (auto simp: drop_lingering [OF assms(1-3)] spared_def map_of_forget)
qed

lemma siblings_spare:
  assumes "hub_inv H r"
  shows "spared (camera_key p ch) r (releaseLingeringSiblings p ch r)"
proof -
  define f where "f r x = (case x of (key, k) \<Rightarrow> if \<not> at_station p key \<or> key = camera_key p ch \<or> sConsumers (rgSource r k) \<noteq> [] then r
       else dropLiveSource key r)" for r x
  have dist: "distinct (map fst (rgSources r))" using assms rg_okD(3) by (simp add: hub_inv_def hub_ok_def)
  have step: "spared (camera_key p ch) s (f s x)" if "hub_inv H s" "same_cells r s" "x \<in> set (rgSources r)" for s x
  proof -
    obtain key k where x: "x = (key, k)" by fastforce
    have ok: "rg_ok s" using that(1) by (simp add: hub_inv_def hub_ok_def)
    show ?thesis
    proof (cases "map_of (rgSources s) key")
      case None
      then show ?thesis by (simp add: f_def x spared_refl dropLiveSource_def drop_with_def)
    next
      case (Some j)
      have "(key, j) \<in> set (rgSources r)" using map_of_SomeD [OF Some] that(2) by (auto simp: same_cells_def)
      then have "j = k" using dist that(3) x eq_key_imp_eq_value [of "rgSources r" key j k] by auto
      then show ?thesis using drop_lingering_spares [OF ok Some] by (simp add: f_def x spared_refl)
    qed
  qed
  have "hub_inv H s \<Longrightarrow> same_cells r s \<Longrightarrow> set xs \<subseteq> set (rgSources r) \<Longrightarrow> spared (camera_key p ch) s (foldl f s xs)" for s xs
  proof (induction xs arbitrary: s)
    case (Cons x xs)
    have h: "hub_inv H (f s x)" using Cons.prems(1) hub_inv_drop by (simp add: f_def split: prod.split)
    have c: "same_cells s (f s x)" by (simp add: f_def cells_refl cells_dropLive split: prod.split)
    have "spared (camera_key p ch) (f s x) (foldl f (f s x) xs)"
      by (rule Cons.IH [OF h cells_trans [OF Cons.prems(2) c]]) (use Cons.prems(3) in simp)
    moreover have "spared (camera_key p ch) s (f s x)" by (rule step) (use Cons.prems in simp_all)
    ultimately show ?case by (simp only: foldl.simps) (rule spared_trans)
  qed (simp add: spared_refl)
  from this [OF assms cells_refl subset_refl] show ?thesis
    unfolding releaseLingeringSiblings_def f_def by (simp only: case_prod_eta)
qed

lemma parse_int10_show: "parse_int10 (show_int n) = Some n"
proof (cases "n < 0")
  case True
  have d: "is_digits (dec_string (nat (- n)))" "digits_value (dec_string (nat (- n))) = nat (- n)"
    using dec_string_spec by simp_all
  then have "takeWhile (\<lambda>c. digit_value c \<noteq> None) (dec_string (nat (- n))) = dec_string (nat (- n))" "dec_string (nat (- n)) \<noteq> []"
    by (simp_all add: is_digits_def list_all_iff)
  then show ?thesis using True d(2) by (simp add: show_int_def parse_int10_def Let_def is_space_def takeWhile_eq_all_conv [THEN iffD2] del: not_None_eq)
next
  case False
  then show ?thesis using dec_string_spec [of "nat n"] parse_int10_digits [of "dec_string (nat n)"] by (simp add: show_int_def)
qed

text \<open>Every key of a station is that of a channel, which is read back from it.\<close>

lemma channel_of_key: "parse_int10 (drop (length p + 1) (camera_key p ch)) = Some ch"
  by (simp add: camera_key_def parse_int10_show)

lemma station_keys:
  assumes "rg_ok r" "(key, k) \<in> set (rgSources r)" "at_station p key"
  shows "\<exists>ch. key = camera_key p ch"
proof -
  have k: "k < rgNext r" "ifKey (rgInfo r k) = key" using rg_okD(4) [OF assms(1,2)] by simp_all
  have o: "key_ok (rgInfo r k)" using rg_okD(5) [OF assms(1) k(1)] .
  then show ?thesis using at_station_key [OF o, of p] assms(3) k(2) by (auto simp: key_ok_def)
qed

lemma occupied_some:
  assumes "rg_ok r" "occupiedSiblingChannel p key r = Some ch"
  shows "\<exists>k. (camera_key p ch, k) \<in> set (rgSources r) \<and> camera_key p ch \<noteq> key \<and> serves r k"
proof -
  obtain j k where f: "List.find (\<lambda>(j, k). j \<noteq> key \<and> at_station p j \<and> serves r k) (rgSources r) = Some (j, k)"
    "parse_int10 (drop (length p + 1) j) = Some ch"
    using assms(2) by (auto simp: occupiedSiblingChannel_def split: option.splits)
  then have j: "(j, k) \<in> set (rgSources r)" "j \<noteq> key" "at_station p j" "serves r k" by (auto simp: find_Some_iff in_set_conv_nth)
  obtain c where "j = camera_key p c" using station_keys [OF assms(1) j(1,3)] by blast
  then show ?thesis using j f(2) channel_of_key [of p c] by auto
qed

lemma occupied_none:
  assumes "rg_ok r" "occupiedSiblingChannel p key r = None" "(j, k) \<in> set (rgSources r)" "at_station p j" "j \<noteq> key"
  shows "\<not> serves r k"
proof (cases "List.find (\<lambda>(j, k). j \<noteq> key \<and> at_station p j \<and> serves r k) (rgSources r)")
  case None
  then show ?thesis using assms(3-5) by (auto simp: find_None_iff)
next
  case (Some x)
  obtain i l where x: "x = (i, l)" by fastforce
  have "(i, l) \<in> set (rgSources r)" "at_station p i" using Some x by (auto simp: find_Some_iff in_set_conv_nth)
  then obtain c where "i = camera_key p c" using station_keys [OF assms(1)] by blast
  then show ?thesis using assms(2) channel_of_key [of p c] by (simp add: occupiedSiblingChannel_def Some x)
qed

lemma warn_fields:
  "rgSource (warnIgnoredLiveOpts key o1 r) = rgSource r" "rgSources (warnIgnoredLiveOpts key o1 r) = rgSources r"
  by (simp_all add: warnIgnoredLiveOpts_def rg_note_def Let_def split: option.split)

lemma warn_serves: "serves (warnIgnoredLiveOpts key o1 r) = serves r"
  by (simp add: serves_def warn_fields fun_eq_iff)

text \<open>What an acquisition finds under its key when it has freed the station.\<close>

lemma acquisition:
  assumes "hub_inv H r" "own = camera_key p ch"
    and "found = (case map_of (rgSources r) own of None \<Rightarrow> None | Some k \<Rightarrow> if sState (rgSource r k) = Stopped then None else Some k)"
    and "r2 = releaseLingeringSiblings p ch (drop_stopped own r)"
  shows "hub_inv H r2 \<and> same_cells r r2 \<and> map_of (rgSources r2) own = found \<and>
    (\<forall>k. found = Some k \<longrightarrow> rgSource r2 k = rgSource r k \<and> sState (rgSource r k) \<noteq> Stopped) \<and>
    (\<forall>k < rgNext r. ifParent (rgInfo r k) = H \<and> ifKey (rgInfo r k) \<noteq> own \<longrightarrow> sConsumers (rgSource r2 k) = sConsumers (rgSource r k))"
proof -
  let ?r1 = "drop_stopped own r"
  have ok: "rg_ok r" using assms(1) by (simp add: hub_inv_def hub_ok_def)
  have h1: "hub_inv H ?r1" using assms(1) hub_inv_drop by (simp add: drop_stopped_def split: option.split)
  have c1: "same_cells r ?r1" by (simp add: drop_stopped_def cells_refl cells_dropLive split: option.split)
  have s: "spared own ?r1 r2" using siblings_spare [OF h1, of p ch] by (simp add: assms(2,4))
  have h2: "hub_inv H r2" using hub_inv_siblings [OF h1] by (simp add: assms(4))
  have c2: "same_cells r r2" using cells_trans [OF c1 cells_siblings] by (simp add: assms(4))
  have "map_of (rgSources ?r1) own = found \<and> (\<forall>k. found = Some k \<longrightarrow> rgSource ?r1 k = rgSource r k \<and> sState (rgSource r k) \<noteq> Stopped)"
    using dropLive_absent by (auto simp: drop_stopped_def assms(3) split: option.splits if_splits)
  moreover have "sConsumers (rgSource ?r1 k) = sConsumers (rgSource r k)"
    if "k < rgNext r" "ifParent (rgInfo r k) = H" "ifKey (rgInfo r k) \<noteq> own" for k
  proof (cases "map_of (rgSources r) own")
    case (Some j)
    then have "k \<noteq> j" using registered_source(2) [OF ok Some] that(3) by auto
    then show ?thesis using drop_spares [OF _ Some that(1,2)] assms(1) by (simp add: drop_stopped_def Some hub_inv_def)
  qed (simp add: drop_stopped_def)
  ultimately show ?thesis using s h2 c2 by (auto simp: spared_def)
qed

text \<open>
  C2. Acquiring a camera of a HomeBase. In any state of the hub's life, as long as its session has not been
  rebuilt, no camera but the one asked for loses a consumer. That holds of a consumer of any kind: a sibling held
  only by a snapshot keeps its channel too, although the comment of \<open>releaseLingeringSiblings\<close> says that a live
  request takes it. A source handed out is the registered one, not stopped and not disposed, so that it can be
  attached to; on an attached camera it is handed out only when no other camera of the hub is being served to
  anyone. A refusal names a channel of the hub that is.
\<close>

theorem acquire_one_camera:
  assumes "list_all (hub_event H) evs" "r = registry_run opts tier evs"
    and "sharedLiveSource sn H ch att sess o1 r = (res, r')"
  shows "(\<forall>k < rgNext r. ifParent (rgInfo r k) = H \<and> ifKey (rgInfo r k) \<noteq> camera_key H ch \<longrightarrow>
        sConsumers (rgSource r' k) = sConsumers (rgSource r k)) \<and>
    (case res of
       Inr k \<Rightarrow> map_of (rgSources r') (camera_key H ch) = Some k \<and> sState (rgSource r' k) \<noteq> Stopped \<and>
         \<not> sDisposed (rgSource r' k) \<and>
         (att \<longrightarrow> (\<forall>(key, j) \<in> set (rgSources r'). at_station H key \<and> key \<noteq> camera_key H ch \<longrightarrow> \<not> serves r' j))
     | Inl (StationBusy c) \<Rightarrow> att \<and> c \<noteq> ch \<and> (\<exists>j. (camera_key H c, j) \<in> set (rgSources r') \<and> serves r' j))"
proof -
  let ?own = "camera_key H ch"
  define found where "found = (case map_of (rgSources r) ?own of None \<Rightarrow> None | Some k \<Rightarrow> if sState (rgSource r k) = Stopped then None else Some k)"
  define r2 where "r2 = releaseLingeringSiblings H ch (drop_stopped ?own r)"
  have inv: "hub_inv H r" using hub_run [OF assms(1)] assms(2) by simp
  note a = acquisition [OF inv refl found_def r2_def]
  have ok: "rg_ok r2" using a by (simp add: hub_inv_def hub_ok_def)
  have "alive {} r2" unfolding r2_def
    using alive_run [OF assms(1)] assms(2) by (simp add: alive_siblings alive_drop_stopped)
  then have nd: "\<not> sDisposed (rgSource r2 k)" if "map_of (rgSources r2) key = Some k" for key k
    using aliveD map_of_SomeD [OF that] by blast
  have res: "(res, r') = (case (if att then occupiedSiblingChannel H ?own r2 else None) of
           Some serving \<Rightarrow> (Inl (StationBusy serving), r2)
         | None \<Rightarrow> (case found of
                None \<Rightarrow> (Inr (rgNext r2), build_source sn H ?own sess o1 r2)
              | Some k \<Rightarrow> (Inr k, warnIgnoredLiveOpts ?own o1 r2)))"
    using assms(3) [symmetric, unfolded sharedLiveSource_def Let_def, folded found_def r2_def] .
  show ?thesis
  proof (cases "if att then occupiedSiblingChannel H ?own r2 else None")
    case (Some c)
    then have "att" "occupiedSiblingChannel H ?own r2 = Some c" by (simp_all split: if_splits)
    then show ?thesis using res a occupied_some [OF ok, of H ?own c] by (auto simp: Some)
  next
    case None
    have free: "\<not> serves r2 j" if att "(key, j) \<in> set (rgSources r2)" "at_station H key" "key \<noteq> ?own" for key j
      using occupied_none [OF ok _ that(2-4)] None that(1) by simp
    show ?thesis
    proof (cases found)
      case (Some k)
      have e: "res = Inr k" "r' = warnIgnoredLiveOpts ?own o1 r2" using res None Some by simp_all
      have st: "map_of (rgSources r2) ?own = Some k" "sState (rgSource r2 k) \<noteq> Stopped" using a Some by simp_all
      show ?thesis using a st nd [OF st(1)] free unfolding e by (auto simp: warn_fields warn_serves)
    next
      case none: None
      have e: "res = Inr (rgNext r2)" "r' = build_source sn H ?own sess o1 r2" using res None none by simp_all
      have m: "map_of (rgSources r2) ?own = None" using a none by simp
      have old: "j < rgNext r2" if "(key, j) \<in> set (rgSources r2)" for key j using rg_okD(4) [OF ok that] by simp
      have "rgNext r2 = rgNext r" using a by (simp add: same_cells_def)
      then have "sConsumers (rgSource r' k) = sConsumers (rgSource r k)"
        if "k < rgNext r" "ifParent (rgInfo r k) = H" "ifKey (rgInfo r k) \<noteq> ?own" for k
        using a that by (simp add: e build_source_def)
      moreover have "\<not> serves r' j" if att "(key, j) \<in> set (rgSources r')" "at_station H key" "key \<noteq> ?own" for key j
        using free [OF that(1) _ that(3,4), of j] old [of key j] that(2,4) by (auto simp: e build_source_def serves_def)
      moreover have "map_of (rgSources r') ?own = Some (rgNext r2)" "sState (rgSource r' (rgNext r2)) \<noteq> Stopped"
        "\<not> sDisposed (rgSource r' (rgNext r2))"
        using m by (simp_all add: e build_source_def new_source_def map_add_def)
      ultimately show ?thesis unfolding e(1) by auto
    qed
  qed
qed

section \<open>A camera watched over a HomeBase\<close>

definition watched_run :: "registry_event list" where
  "watched_run =
     [ManagerEvent (Acquire ''H'' 0), ManagerEvent (FactoryRegisters 0 7), ManagerEvent (FactoryDone 0 7),
      GetSource ''C'' ''H'' 0 True 7 no_opts, SourceEvent 0 (Attach True (\<lambda>l. Keep) True)]"

lemma watched_events: "list_all (hub_event ''H'') watched_run"
  by (simp add: watched_run_def)

lemmas registry_eval = registry_run_def new_registry_def new_manager_def rg_manager_def Let_def announce_def
  sm_acquire_def sm_entry_def new_entry_def at_entry_def sm_factoryRegisters_def sm_factoryDone_def superseded_def
  sm_log_def open_over_def sharedLiveSource_def drop_stopped_def releaseLingeringSiblings_def occupiedSiblingChannel_def
  build_source_def source_does_def foreseen_def release_closes_def sm_release_def sm_armIdle_def attachConsumer_def effect_def warm_def openStream_def armWarmWatch_def new_source_def
  owner_def sm_retain_def rg_note_def set_source_def

lemma watched_state:
  "let r = registry_run sample_opts (\<lambda>_. Battery) watched_run
   in rgSources r = [(camera_key ''H'' 0, 0)] \<and> rgNext r = 1 \<and> map_of (mgEntries (rgManager r)) ''H'' = Some 0 \<and>
      length (sConsumers (rgSource r 0)) = 1 \<and> sState (rgSource r 0) = Warming \<and> ifParent (rgInfo r 0) = ''H'' \<and>
      ifHeld (rgInfo r 0) = 7 \<and> ifKey (rgInfo r 0) = camera_key ''H'' 0 \<and> enSession (mgStore (rgManager r) 0) = Some 7 \<and>
      enIdle (mgStore (rgManager r) 0) = None \<and> mgLog (rgManager r) = [Acquired 0 7]"
  by (simp add: watched_run_def registry_eval)

abbreviation watched_registry :: registry where
  "watched_registry \<equiv> registry_run sample_opts (\<lambda>_. Battery) watched_run"

lemma registry_counts_viewers_witness:
  "enRetained (mgStore (rgManager watched_registry) 0) =
     length (enHolds (mgStore (rgManager watched_registry) 0)) + card (viewed ''H'' watched_registry) \<and>
   0 \<in> viewed ''H'' watched_registry"
  using registry_counts_viewers [OF watched_events refl, of sample_opts "\<lambda>_. Battery"] watched_state
  by (auto simp: Let_def viewed_def)

lemma manager_spares_viewers_witness:
  "length (sConsumers (rgSource (registry_step watched_registry (ManagerEvent (IdleFires 0))) 0)) = 1"
  using manager_spares_viewers [OF watched_events refl, of 0 sample_opts "\<lambda>_. Battery" "IdleFires 0"] watched_state
  by (auto simp: Let_def)

lemma acquire_one_camera_witness:
  "length (sConsumers (rgSource (snd (sharedLiveSource ''D'' ''H'' 1 True 7 no_opts watched_registry)) 0)) = 1"
  using acquire_one_camera [OF watched_events refl, of "''D''" 1 True 7 no_opts sample_opts "\<lambda>_. Battery",
      OF prod.collapse [symmetric]] watched_state
  by (auto simp: Let_def camera_key_def show_int_def dec_string.simps digit_char_def)

text \<open>
  A path that stopped answering is closed before it is opened again, by a caller, and nothing is torn down:
  the viewed source stays registered and warming on the closed session.
\<close>

lemma rebuild_leaves_source_cached:
  "let r = registry_step watched_registry (RebuildPath ''H'' 1)
   in rgSources r = [(camera_key ''H'' 0, 0)] \<and> serves r 0 \<and> ifHeld (rgInfo r 0) = 7 \<and>
      SessionClose 7 \<in> set (mgLog (rgManager r)) \<and> sm_get ''H'' (rgManager r) = None"
  by (simp add: watched_run_def registry_eval sm_close_def sm_discard_def sm_closeEntry_def sm_get_def serves_def)

end
