(* ===== verification/Fmp4.thy ===== *)
theory Fmp4
  imports Sps_Geometry Adts Live_Consumer Throwing_Act
begin

text \<open>
  The fragmented-MP4 muxer of \<open>src/transport/p2p/fmp4.ts\<close>: the boxes of the init segment and of a media
  fragment, and the muxer that cuts a recording into fragments. Timestamps are whole milliseconds, so that a
  measured duration is whole ticks; the frame rate an option names divides the time scale. A buffer is
  shorter than \<open>2 ^ 32\<close> bytes, which is what a box's size field is written from.
\<close>

section \<open>Boxes\<close>

definition TIMESCALE :: int where "TIMESCALE = 90000"
definition DEFAULT_FRAME_TICKS :: int where "DEFAULT_FRAME_TICKS = TIMESCALE div 15"
definition AAC_ELD_SAMPLES_PER_FRAME :: int where "AAC_ELD_SAMPLES_PER_FRAME = 512"
definition ADTS_FREQUENCY_INDEX_16K :: nat where "ADTS_FREQUENCY_INDEX_16K = 8"
definition ADTS_CHANNELS_MONO :: nat where "ADTS_CHANNELS_MONO = 1"

definition mp4_box :: "string \<Rightarrow> buffer list \<Rightarrow> buffer" where
  "mp4_box type payload =
     (let body = concat payload in u32be (int (8 + length body)) @ bytes_of_string type @ body)"

text \<open>\<open>u32\<close> takes the low 32 bits, as \<open>u32be\<close> does; \<open>u16\<close> and \<open>u64\<close> are Node's writers, which throw.\<close>

definition write_u64be :: "int \<Rightarrow> js_error + buffer" where
  "write_u64be n = (if 0 \<le> n \<and> n < 2 ^ 64 then Inr (u32be (n div 2 ^ 32) @ u32be n) else Inl RangeError)"

definition write_i32be :: "int \<Rightarrow> js_error + buffer" where
  "write_i32be n = (if - (2 ^ 31) \<le> n \<and> n < 2 ^ 31 then Inr (u32be n) else Inl RangeError)"

definition put_at :: "nat \<Rightarrow> buffer \<Rightarrow> buffer \<Rightarrow> buffer" where
  "put_at i bs b = take i b @ bs @ drop (i + length bs) b"

definition zeros :: "nat \<Rightarrow> buffer" where
  "zeros n = replicate n 0"

definition writeMatrix :: "nat \<Rightarrow> buffer \<Rightarrow> buffer" where
  "writeMatrix i b =
     put_at (i + 32) (u32be 0x40000000) (put_at (i + 16) (u32be 0x00010000) (put_at i (u32be 0x00010000) b))"

text \<open>\<open>n << 16\<close>: a signed 32-bit result.\<close>

definition shl16 :: "int \<Rightarrow> int" where
  "shl16 n = as_signed 32 (nat (n * 65536 mod 4294967296))"

definition mp4_descriptor :: "byte \<Rightarrow> buffer \<Rightarrow> js_error + buffer" where
  "mp4_descriptor tag payload =
     (if 128 \<le> length payload then Inl (UserError ''fMP4 muxer: MPEG-4 descriptor is too large'')
      else Inr ([tag, of_nat (length payload)] @ payload))"

section \<open>The init segment\<close>

definition ftyp :: buffer where
  "ftyp = mp4_box ''ftyp'' [bytes_of_string ''iso5'', u32be 0, bytes_of_string ''iso5'', bytes_of_string ''iso6'',
            bytes_of_string ''mp41'', bytes_of_string ''cmfc'']"

definition mvhd :: "bool \<Rightarrow> buffer" where
  "mvhd audio =
     mp4_box ''mvhd''
       [put_at 96 (u32be (if audio then 3 else 2)) (writeMatrix 32 (put_at 24 (u16be 0x0100)
         (put_at 20 (u32be 0x00010000) (put_at 16 (u32be 0) (put_at 12 (u32be TIMESCALE) (put_at 8 (u32be 0)
         (put_at 4 (u32be 0) (put_at 0 (u32be 0) (zeros 100)))))))))]"

definition tkhd :: "int \<Rightarrow> int \<Rightarrow> js_error + buffer" where
  "tkhd width height =
     res_bind (write_u32be (shl16 width)) (\<lambda>w. res_bind (write_u32be (shl16 height)) (\<lambda>h.
       Inr (mp4_box ''tkhd''
         [put_at 80 h (put_at 76 w (writeMatrix 40 (put_at 20 (u32be 0) (put_at 12 (u32be 1)
           (put_at 0 (u32be 7) (zeros 84))))))])))"

definition sized_nal :: "buffer \<Rightarrow> js_error + buffer" where
  "sized_nal nal = res_bind (write_u16be (int (length nal))) (\<lambda>l. Inr (l @ nal))"

definition byte_or :: "byte \<Rightarrow> nat \<Rightarrow> buffer \<Rightarrow> byte" where
  "byte_or d i b = (if i < length b then b ! i else d)"

definition avcC :: "param_sets \<Rightarrow> js_error + buffer" where
  "avcC ps =
     (let sps0 = (case sps ps of [] \<Rightarrow> zeros 4 | s # _ \<Rightarrow> s) in
      res_bind (res_map sized_nal (sps ps)) (\<lambda>ss. res_bind (res_map sized_nal (pps ps)) (\<lambda>ppss.
        Inr ([1, byte_or 0x42 1 sps0, byte_or 0x00 2 sps0, byte_or 0x1e 3 sps0, 0xff,
              word_of_int (0xe0 OR int (length (sps ps)))] @
             concat ss @ [of_nat (length (pps ps))] @ concat ppss))))"

definition hvcc_header :: buffer where
  "hvcc_header =
     [1, 0x01, 0x60, 0x00, 0x00, 0x00, 0x90, 0x00, 0x00, 0x00, 0x00, 0x00, 0x5a, 0xf0, 0x00, 0xfc, 0xfd, 0xf8,
      0xf8, 0x00, 0x00, 0x0f]"

text \<open>The array of a NAL type, or none where there are no such NALs.\<close>

definition hvcc_array :: "int \<Rightarrow> buffer list \<Rightarrow> js_error + buffer list" where
  "hvcc_array nalType nals =
     (if nals = [] then Inr []
      else res_bind (write_u16be (int (length nals))) (\<lambda>n. res_bind (res_map sized_nal nals) (\<lambda>parts.
             Inr [[word_of_int (0x80 OR nalType)] @ n @ concat parts])))"

definition hvcC :: "param_sets \<Rightarrow> js_error + buffer" where
  "hvcC ps =
     res_bind (hvcc_array 32 (vps ps)) (\<lambda>a. res_bind (hvcc_array 33 (sps ps)) (\<lambda>b.
     res_bind (hvcc_array 34 (pps ps)) (\<lambda>c.
       Inr (hvcc_header @ [of_nat (length (a @ b @ c))] @ concat (a @ b @ c)))))"

text \<open>\<open>CODEC_BOXES\<close>; the muxer takes no AV1.\<close>

definition codec_boxes :: "video_codec \<Rightarrow> string \<times> string" where
  "codec_boxes c = (if c = H265 then (''hvc1'', ''hvcC'') else (''avc1'', ''avcC''))"

definition sampleEntry :: "video_codec \<Rightarrow> param_sets \<Rightarrow> int \<Rightarrow> int \<Rightarrow> js_error + buffer" where
  "sampleEntry c ps width height =
     res_bind (write_u16be width) (\<lambda>w. res_bind (write_u16be height) (\<lambda>h.
     res_bind (if c = H264 then avcC ps else hvcC ps) (\<lambda>config.
       Inr (mp4_box (fst (codec_boxes c))
         [put_at 76 (u16be (-1)) (put_at 74 (u16be 0x18) (put_at 40 (u16be 1) (put_at 32 (u32be 0x00480000)
            (put_at 28 (u32be 0x00480000) (put_at 26 h (put_at 24 w (put_at 6 (u16be 1) (zeros 78)))))))),
          mp4_box (snd (codec_boxes c)) [config]]))))"

definition stbl :: "buffer \<Rightarrow> buffer" where
  "stbl entry =
     mp4_box ''stbl''
       [mp4_box ''stsd'' [u32be 0, u32be 1, entry], mp4_box ''stts'' [u32be 0, u32be 0],
        mp4_box ''stsc'' [u32be 0, u32be 0], mp4_box ''stsz'' [u32be 0, u32be 0, u32be 0],
        mp4_box ''stco'' [u32be 0, u32be 0]]"

definition dinf :: buffer where
  "dinf = mp4_box ''dinf'' [mp4_box ''dref'' [u32be 0, u32be 1, mp4_box ''url '' [u32be 1]]]"

definition hdlr :: "string \<Rightarrow> string \<Rightarrow> buffer" where
  "hdlr handler name =
     mp4_box ''hdlr'' [u32be 0, u32be 0, bytes_of_string handler, u32be 0, u32be 0, u32be 0, bytes_of_string name @ [0]]"

definition mdhd :: "int \<Rightarrow> buffer" where
  "mdhd scale = mp4_box ''mdhd'' [put_at 24 (u16be 0x55c4) (put_at 16 (u32be 0) (put_at 12 (u32be scale) (put_at 0 (u32be 0) (zeros 32))))]"

definition trak :: "video_codec \<Rightarrow> param_sets \<Rightarrow> int \<Rightarrow> int \<Rightarrow> js_error + buffer" where
  "trak c ps width height =
     res_bind (tkhd width height) (\<lambda>head. res_bind (sampleEntry c ps width height) (\<lambda>entry.
       Inr (mp4_box ''trak''
         [head,
          mp4_box ''mdia''
            [mdhd TIMESCALE, hdlr ''vide'' ''VideoHandler'',
             mp4_box ''minf'' [mp4_box ''vmhd'' [u32be 1, zeros 8], dinf, stbl entry]]])))"

definition audioTkhd :: buffer where
  "audioTkhd =
     mp4_box ''tkhd'' [writeMatrix 40 (put_at 36 (u16be 0x0100) (put_at 12 (u32be 2) (put_at 0 (u32be 7) (zeros 84))))]"

definition esds :: "audio_codec \<Rightarrow> js_error + buffer" where
  "esds c =
     res_bind (mp4_descriptor 0x05 (if c = AacEld then [0xf8, 0xf0, 0x20] else [0x14, 0x08])) (\<lambda>specific.
     res_bind (mp4_descriptor 0x04 ([0x40, 0x15, 0, 0, 0] @ u32be 64000 @ u32be 32000 @ specific)) (\<lambda>decoder.
     res_bind (mp4_descriptor 0x06 [0x02]) (\<lambda>sl.
     res_bind (write_u16be 2) (\<lambda>id.
     res_bind (mp4_descriptor 0x03 (id @ [0] @ decoder @ sl)) (\<lambda>es.
       Inr (mp4_box ''esds'' [u32be 0, es]))))))"

definition audioTrak :: "audio_codec \<Rightarrow> js_error + buffer" where
  "audioTrak c =
     res_bind (esds c) (\<lambda>config.
       let entry = mp4_box ''mp4a''
             [put_at 24 (u32be (shl16 (int AAC_SAMPLE_RATE))) (put_at 18 (u16be 16) (put_at 16 (u16be 1)
                (put_at 6 (u16be 1) (zeros 28)))), config]
       in Inr (mp4_box ''trak''
            [audioTkhd,
             mp4_box ''mdia''
               [mp4_box ''mdhd'' [put_at 24 (u16be 0x55c4) (put_at 12 (u32be (int AAC_SAMPLE_RATE)) (zeros 32))],
                hdlr ''soun'' ''SoundHandler'',
                mp4_box ''minf'' [mp4_box ''smhd'' [zeros 8], dinf, stbl entry]]]))"

definition trex :: "int \<Rightarrow> buffer" where
  "trex trackId = mp4_box ''trex'' [put_at 8 (u32be 1) (put_at 4 (u32be trackId) (zeros 24))]"

definition moov :: "video_codec \<Rightarrow> param_sets \<Rightarrow> int \<Rightarrow> int \<Rightarrow> audio_codec option \<Rightarrow> js_error + buffer" where
  "moov c ps width height audio =
     res_bind (trak c ps width height) (\<lambda>video.
     res_bind (case audio of None \<Rightarrow> Inr [] | Some a \<Rightarrow> res_bind (audioTrak a) (\<lambda>t. Inr [t])) (\<lambda>tracks.
       Inr (mp4_box ''moov''
         ([mvhd (audio \<noteq> None), video] @ tracks @
          [mp4_box ''mvex'' ([trex 1] @ (if audio \<noteq> None then [trex 2] else []))]))))"

section \<open>A media fragment\<close>

record mp4_sample =
  smData :: buffer
  smDuration :: int
  smKeyframe :: bool

definition trun :: "mp4_sample list \<Rightarrow> buffer" where
  "trun samples =
     mp4_box ''trun''
       ([u32be 0x000701, u32be (int (length samples)), u32be 0] @
        map (\<lambda>s. u32be (smDuration s) @ u32be (int (length (smData s))) @
                 u32be (if smKeyframe s then 0x02000000 else 0x01010000)) samples)"

definition traf :: "int \<Rightarrow> int \<Rightarrow> mp4_sample list \<Rightarrow> js_error + buffer" where
  "traf trackId baseDecodeTime samples =
     res_bind (write_u64be baseDecodeTime) (\<lambda>base.
       Inr (mp4_box ''traf''
         [mp4_box ''tfhd'' [u32be 0x020000, u32be trackId], mp4_box ''tfdt'' [u32be 0x01000000, base], trun samples]))"

text \<open>The video track, and the audio track where there is one with samples.\<close>

definition moof :: "int \<Rightarrow> int \<Rightarrow> mp4_sample list \<Rightarrow> (int \<times> mp4_sample list) option \<Rightarrow> js_error + buffer" where
  "moof seq base samples audio =
     res_bind (traf 1 base samples) (\<lambda>video.
     res_bind (case audio of None \<Rightarrow> Inr [] | Some (audioBase, ss) \<Rightarrow> res_bind (traf 2 audioBase ss) (\<lambda>t. Inr [t])) (\<lambda>tracks.
       Inr (mp4_box ''moof'' ([mp4_box ''mfhd'' [u32be 0, u32be seq], video] @ tracks))))"

text \<open>\<open>childBoxes\<close>: the loop from an offset, and its call on a container.\<close>

function child_loop :: "buffer \<Rightarrow> nat \<Rightarrow> nat \<Rightarrow> js_error + (string \<times> nat) list" where
  "child_loop b parentEnd start =
     (if parentEnd < start + 8 then Inr []
      else case read_u32be b start of
             Inl e \<Rightarrow> Inl e
           | Inr sz \<Rightarrow>
               if sz < 8 \<or> parentEnd < start + sz then Inl (UserError ''fMP4 muxer: invalid box structure'')
               else res_bind (child_loop b parentEnd (start + sz)) (\<lambda>cs.
                      Inr ((string_of_bytes (slice (start + 4) (start + 8) b), start) # cs)))"
  by pat_completeness auto
termination by (relation "measure (\<lambda>(b, e, s). e - s)") auto

declare child_loop.simps [simp del]

definition childBoxes :: "buffer \<Rightarrow> nat \<Rightarrow> js_error + (string \<times> nat) list" where
  "childBoxes b parentStart =
     res_bind (read_u32be b parentStart) (\<lambda>sz. child_loop b (parentStart + sz) (parentStart + 8))"

text \<open>\<open>patchTrunDataOffsets\<close>: the offsets not yet used are passed on, with the buffer written so far.\<close>

fun patch_truns :: "(string \<times> nat) list \<Rightarrow> int list \<Rightarrow> buffer \<Rightarrow> js_error + (int list \<times> buffer)" where
  "patch_truns [] offs b = Inr (offs, b)"
| "patch_truns ((type, start) # cs) offs b =
     (if type \<noteq> ''trun'' then patch_truns cs offs b
      else case offs of
             [] \<Rightarrow> Inl (UserError ''fMP4 muxer: missing trun data offset'')
           | d # ds \<Rightarrow>
               res_bind (write_i32be d) (\<lambda>w.
                 if start + 20 \<le> length b then patch_truns cs ds (put_at (start + 16) w b) else Inl RangeError))"

fun patch_trafs :: "(string \<times> nat) list \<Rightarrow> int list \<Rightarrow> buffer \<Rightarrow> js_error + (int list \<times> buffer)" where
  "patch_trafs [] offs b = Inr (offs, b)"
| "patch_trafs ((type, start) # cs) offs b =
     (if type \<noteq> ''traf'' then patch_trafs cs offs b
      else res_bind (childBoxes b start) (\<lambda>ks. res_bind (patch_truns ks offs b) (\<lambda>(offs', b'). patch_trafs cs offs' b')))"

definition patchTrunDataOffsets :: "int list \<Rightarrow> buffer \<Rightarrow> js_error + buffer" where
  "patchTrunDataOffsets offs b =
     res_bind (childBoxes b 0) (\<lambda>trafs. res_bind (patch_trafs trafs offs b) (\<lambda>(rest, b').
       if rest = [] then Inr b' else Inl (UserError ''fMP4 muxer: trun count does not match data offsets'')))"

section \<open>The muxer\<close>

text \<open>
  A fragment is a whole number of seconds long, and the frame rate divides the time scale, so that a frame lasts
  a whole number of ticks: for those \<open>TIMESCALE div fps\<close> is the quotient the code takes.
\<close>

record fmp4_options =
  foFragmentSeconds :: "int option"
  foFps :: "int option"
  foAudio :: bool

record muxer =
  mxParams :: "param_sets option"
  mxCodec :: video_codec
  mxWidth :: int
  mxHeight :: int
  mxInitSent :: bool
  mxSeq :: int
  mxBaseDecodeTime :: int
  mxFragTicks :: int
  mxSamples :: "mp4_sample list"
  mxLastVideo :: "int option"
  mxAudioRequested :: bool
  mxAudioCodec :: "audio_codec option"
  mxAudioDisabled :: bool
  mxAudioSamples :: "mp4_sample list"
  mxAudioBaseDecodeTime :: int
  mxFirstVideo :: "int option"
  mxFirstAudio :: "int option"
  mxLastAudio :: "int option"
  mxOrigin :: "int option"
  mxAligned :: bool
  mxFragmentTicks :: int
  mxFirstDuration :: int

record media_fragment =
  mfInit :: "buffer option"
  mfData :: buffer
  mfKeyframe :: bool

definition new_muxer :: "fmp4_options \<Rightarrow> muxer" where
  "new_muxer opts =
     \<lparr>mxParams = None, mxCodec = H264, mxWidth = 0, mxHeight = 0, mxInitSent = False, mxSeq = 1,
      mxBaseDecodeTime = 0, mxFragTicks = 0, mxSamples = [], mxLastVideo = None, mxAudioRequested = foAudio opts,
      mxAudioCodec = None, mxAudioDisabled = False, mxAudioSamples = [], mxAudioBaseDecodeTime = 0,
      mxFirstVideo = None, mxFirstAudio = None, mxLastAudio = None, mxOrigin = None, mxAligned = False,
      mxFragmentTicks = (case foFragmentSeconds opts of Some n \<Rightarrow> n | None \<Rightarrow> 2) * TIMESCALE,
      mxFirstDuration =
        (case foFps opts of Some n \<Rightarrow> if n \<noteq> 0 then TIMESCALE div n else DEFAULT_FRAME_TICKS | None \<Rightarrow> DEFAULT_FRAME_TICKS)\<rparr>"

type_synonym 'a mux = "(muxer, 'a) act"

definition hasAudioTrack :: "muxer \<Rightarrow> bool" where
  "hasAudioTrack m \<longleftrightarrow> mxAudioCodec m \<noteq> None \<and> \<not> mxAudioDisabled m"

definition alignTimeline :: "muxer \<Rightarrow> muxer" where
  "alignTimeline m =
     (if mxAligned m then m
      else case mxFirstVideo m of
             None \<Rightarrow> m
           | Some video \<Rightarrow>
               (let origin = min video (case mxFirstAudio m of Some a \<Rightarrow> a | None \<Rightarrow> video)
                in m\<lparr>mxOrigin := Some origin, mxBaseDecodeTime := (video - origin) * (TIMESCALE div 1000),
                     mxAudioBaseDecodeTime :=
                       ((case mxFirstAudio m of Some a \<Rightarrow> a | None \<Rightarrow> origin) - origin) * (int AAC_SAMPLE_RATE div 1000),
                     mxAligned := True\<rparr>))"

text \<open>\<open>buildInit\<close>; it runs only once the parameter sets are known.\<close>

definition buildInit :: "buffer mux" where
  "buildInit =
     act_bind (act_modify alignTimeline) (\<lambda>_. act_read (\<lambda>m.
       case mxParams m of
         None \<Rightarrow> act_lift (Inl TypeError)
       | Some ps \<Rightarrow>
           act_lift (res_bind (moov (mxCodec m) ps (mxWidth m) (mxHeight m)
                                 (if hasAudioTrack m then mxAudioCodec m else None))
             (\<lambda>v. Inr (ftyp @ v)))))"

definition ticks :: "mp4_sample list \<Rightarrow> int" where
  "ticks samples = sum_list (map smDuration samples)"

definition media_bytes :: "mp4_sample list \<Rightarrow> buffer" where
  "media_bytes samples = concat (map smData samples)"

definition buildFragment :: "buffer mux" where
  "buildFragment = act_read (\<lambda>m.
     let samples = mxSamples m; audioSamples = mxAudioSamples m in
     act_bind (act_modify (\<lambda>m. m\<lparr>mxSamples := [], mxAudioSamples := [], mxFragTicks := 0, mxSeq := mxSeq m + 1\<rparr>)) (\<lambda>_.
     act_bind (act_lift (moof (mxSeq m) (mxBaseDecodeTime m) samples
         (if hasAudioTrack m \<and> audioSamples \<noteq> [] then Some (mxAudioBaseDecodeTime m, audioSamples) else None))) (\<lambda>head.
     let videoData = media_bytes samples;
         dataOffset = int (length head + 8)
     in act_bind (act_lift (patchTrunDataOffsets
            (if audioSamples \<noteq> [] then [dataOffset, dataOffset + int (length videoData)] else [dataOffset]) head)) (\<lambda>patched.
        act_bind (act_modify (\<lambda>m. m\<lparr>mxBaseDecodeTime := mxBaseDecodeTime m + ticks samples,
            mxAudioBaseDecodeTime := mxAudioBaseDecodeTime m + ticks audioSamples\<rparr>)) (\<lambda>_.
        act_return (patched @ mp4_box ''mdat'' [videoData, media_bytes audioSamples]))))))"

definition annexbToAvcc :: "buffer \<Rightarrow> buffer" where
  "annexbToAvcc b = concat (map (\<lambda>nal. u32be (int (length nal)) @ nal) (splitAnnexbNals b))"

text \<open>The init on its own, as three places send it: the flag first, then the segment.\<close>

definition announce_init :: "media_fragment option mux" where
  "announce_init = act_read (\<lambda>m.
     if mxParams m = None \<or> mxInitSent m then act_return None
     else act_bind (act_modify (\<lambda>m. m\<lparr>mxInitSent := True\<rparr>)) (\<lambda>_.
          act_bind buildInit (\<lambda>b. act_return (Some \<lparr>mfInit = Some b, mfData = [], mfKeyframe = False\<rparr>))))"

text \<open>And with the flag after it.\<close>

definition send_init :: "buffer option mux" where
  "send_init = act_bind buildInit (\<lambda>b. act_bind (act_modify (\<lambda>m. m\<lparr>mxInitSent := True\<rparr>)) (\<lambda>_. act_return (Some b)))"

text \<open>The init that a fragment must not come before: audio that has not shown up by then is left out.\<close>

definition init_first :: "buffer option mux" where
  "init_first = act_read (\<lambda>m.
     if mxInitSent m then act_return None
     else act_bind (act_modify (\<lambda>m. m\<lparr>mxAudioDisabled := (mxAudioCodec m = None)\<rparr>)) (\<lambda>_. send_init))"

text \<open>
  \<open>push\<close>, in its parts: the parameter sets of the first keyframe; the duration of the sample before, now that
  it is over; the boundary; the sample.
\<close>

definition takes_params :: "live_frame \<Rightarrow> int \<Rightarrow> muxer \<Rightarrow> muxer option" where
  "takes_params f t m =
     (if mxParams m \<noteq> None then Some m
      else if \<not> fKeyframe f then None
      else case extractParamSets (fData f) of
             None \<Rightarrow> None
           | Some ps \<Rightarrow>
               if codec ps = AV1 then None
               else Some (m\<lparr>mxParams := Some ps, mxCodec := codec ps,
                      mxWidth := (case codedGeometry ps of Some g \<Rightarrow> gWidth g | None \<Rightarrow> fWidth f),
                      mxHeight := (case codedGeometry ps of Some g \<Rightarrow> gHeight g | None \<Rightarrow> fHeight f),
                      mxFirstVideo := Some t\<rparr>))"

definition measure_last :: "int \<Rightarrow> muxer \<Rightarrow> muxer" where
  "measure_last t m =
     (case mxLastVideo m of
        None \<Rightarrow> m
      | Some before \<Rightarrow>
          if mxSamples m = [] then m
          else (let measured = (t - before) * (TIMESCALE div 1000); previous = last (mxSamples m) in
                if 0 < measured
                then m\<lparr>mxFragTicks := mxFragTicks m + (measured - smDuration previous),
                       mxSamples := butlast (mxSamples m) @ [previous\<lparr>smDuration := measured\<rparr>]\<rparr>
                else m))\<lparr>mxLastVideo := Some t\<rparr>"

definition at_boundary :: "live_frame \<Rightarrow> muxer \<Rightarrow> bool" where
  "at_boundary f m \<longleftrightarrow> fKeyframe f \<and> mxSamples m \<noteq> [] \<and> mxFragmentTicks m \<le> mxFragTicks m"

definition add_sample :: "live_frame \<Rightarrow> muxer \<Rightarrow> muxer" where
  "add_sample f m =
     m\<lparr>mxSamples := mxSamples m @ [\<lparr>smData = annexbToAvcc (fData f), smDuration = mxFirstDuration m, smKeyframe = fKeyframe f\<rparr>],
       mxFragTicks := mxFragTicks m + mxFirstDuration m\<rparr>"

definition close_fragment :: "live_frame \<Rightarrow> (buffer option \<times> buffer option) mux" where
  "close_fragment f = act_read (\<lambda>m.
     if at_boundary f m
     then act_bind init_first (\<lambda>i. act_bind buildFragment (\<lambda>b. act_return (i, Some b)))
     else act_return (None, None))"

definition segment_of :: "buffer option \<Rightarrow> buffer option \<Rightarrow> media_fragment option mux" where
  "segment_of i b = act_read (\<lambda>m.
     if i \<noteq> None \<or> b \<noteq> None
     then act_return (Some \<lparr>mfInit = i, mfData = (case b of Some x \<Rightarrow> x | None \<Rightarrow> []),
            mfKeyframe = (b \<noteq> None \<and> (case mxSamples m of [] \<Rightarrow> False | s # _ \<Rightarrow> smKeyframe s))\<rparr>)
     else act_return None)"

definition push_result :: "buffer option \<Rightarrow> buffer option \<Rightarrow> media_fragment option mux" where
  "push_result i b =
     act_bind (act_read (\<lambda>m.
       if \<not> mxInitSent m \<and> (\<not> mxAudioRequested m \<or> mxAudioCodec m \<noteq> None \<or> mxAudioDisabled m)
       then send_init else act_return i)) (\<lambda>i2. segment_of i2 b)"

definition fmp4_push :: "live_frame \<Rightarrow> int \<Rightarrow> media_fragment option mux" where
  "fmp4_push f t =
     (if fCodec f = AV1 then act_lift (Inl (UserError ''fMP4 muxer: AV1 is not supported''))
      else act_read (\<lambda>m. case takes_params f t m of
        None \<Rightarrow> act_return None
      | Some m1 \<Rightarrow>
          act_bind (act_modify (\<lambda>_. measure_last t m1)) (\<lambda>_.
          act_bind (close_fragment f) (\<lambda>(i, b).
          act_bind (act_modify (add_sample f)) (\<lambda>_.
          push_result i b)))))"

definition disableAudio :: "media_fragment option mux" where
  "disableAudio =
     act_bind (act_modify (\<lambda>m. m\<lparr>mxAudioDisabled := True, mxAudioSamples := []\<rparr>)) (\<lambda>_. announce_init)"

text \<open>The time of the audio frame: where its track starts again in an empty fragment, or how long the last one was.\<close>

definition place_audio :: "int \<Rightarrow> muxer \<Rightarrow> muxer" where
  "place_audio t m =
     (let measured = (case mxLastAudio m of None \<Rightarrow> 0 | Some before \<Rightarrow> (t - before) * (int AAC_SAMPLE_RATE div 1000));
          m1 = m\<lparr>mxLastAudio := Some t\<rparr>
      in if mxAligned m1 \<and> mxAudioSamples m1 = [] \<and> mxOrigin m1 \<noteq> None
         then m1\<lparr>mxAudioBaseDecodeTime := (t - the (mxOrigin m1)) * (int AAC_SAMPLE_RATE div 1000)\<rparr>
         else if 0 < measured \<and> mxAudioSamples m1 \<noteq> []
         then m1\<lparr>mxAudioSamples := butlast (mxAudioSamples m1) @ [(last (mxAudioSamples m1))\<lparr>smDuration := measured\<rparr>]\<rparr>
         else m1)"

definition audio_sample :: "audio_frame \<Rightarrow> adts_header \<Rightarrow> mp4_sample" where
  "audio_sample f h =
     \<lparr>smData = slice (headerLength h) (frameLength h) (aData f),
      smDuration = (if aCodec f = AacEld then AAC_ELD_SAMPLES_PER_FRAME else int AAC_SAMPLES_PER_FRAME), smKeyframe = True\<rparr>"

definition fmp4_pushAudio :: "audio_frame \<Rightarrow> int \<Rightarrow> media_fragment option mux" where
  "fmp4_pushAudio f t = act_read (\<lambda>m.
     if \<not> mxAudioRequested m \<or> mxAudioDisabled m then act_return None
     else if aCodec f = G711a then
       (if mxInitSent m then act_return None
        else act_bind (act_modify (\<lambda>m. m\<lparr>mxAudioDisabled := True\<rparr>)) (\<lambda>_. announce_init))
     else if mxAudioCodec m \<noteq> None \<and> mxAudioCodec m \<noteq> Some (aCodec f) then disableAudio
     else case parseAdtsHeader (aData f) 0 of
            None \<Rightarrow> act_lift (Inl (UserError ''fMP4 muxer: frame is not a complete ADTS access unit''))
          | Some h \<Rightarrow>
              if length (aData f) < frameLength h
              then act_lift (Inl (UserError ''fMP4 muxer: frame is not a complete ADTS access unit''))
              else if frequencyIndex h \<noteq> ADTS_FREQUENCY_INDEX_16K \<or> channels h \<noteq> ADTS_CHANNELS_MONO then disableAudio
              else act_bind (act_modify (\<lambda>m. place_audio t (m\<lparr>mxAudioCodec := Some (aCodec f),
                       mxFirstAudio := (case mxFirstAudio m of None \<Rightarrow> Some t | Some a \<Rightarrow> Some a)\<rparr>))) (\<lambda>_.
                   act_bind (act_modify (\<lambda>m. m\<lparr>mxAudioSamples := mxAudioSamples m @ [audio_sample f h]\<rparr>)) (\<lambda>_. announce_init)))"

definition fmp4_flush :: "media_fragment option mux" where
  "fmp4_flush = act_read (\<lambda>m.
     if mxSamples m = [] then act_return None
     else act_bind init_first (\<lambda>i. act_bind buildFragment (\<lambda>b.
            act_return (Some \<lparr>mfInit = i, mfData = b, mfKeyframe = True\<rparr>))))"

section \<open>Reading a fragment\<close>

text \<open>
  What a player makes of a fragment, after ISO/IEC 14496-12: the boxes of a byte sequence, the track runs of the
  movie fragment, and the samples each run cuts out of the file at its data offset, counted from the start of
  the movie fragment. The table of a run has the fields its flags name, here duration, size and flags.
\<close>

function read_boxes :: "buffer \<Rightarrow> (string \<times> buffer) list option" where
  "read_boxes b =
     (if b = [] then Some []
      else if length b < 8 then None
      else (let sz = u32be_at b 0 in
            if sz < 8 \<or> length b < sz then None
            else map_option (\<lambda>cs. (string_of_bytes (slice 4 8 b), slice 8 sz b) # cs) (read_boxes (drop sz b))))"
  by pat_completeness auto
termination by (relation "measure length") auto

declare read_boxes.simps [simp del]

record track_run =
  trTrack :: nat
  trBase :: nat
  trSamples :: "mp4_sample list"

fun read_entries :: "nat \<Rightarrow> buffer \<Rightarrow> buffer \<Rightarrow> mp4_sample list" where
  "read_entries 0 table bytes = []"
| "read_entries (Suc n) table bytes =
     \<lparr>smData = take (u32be_at table 4) bytes, smDuration = int (u32be_at table 0), smKeyframe = (u32be_at table 8 = 0x02000000)\<rparr>
       # read_entries n (drop 12 table) (drop (u32be_at table 4) bytes)"

definition read_run :: "buffer \<Rightarrow> buffer \<Rightarrow> mp4_sample list option" where
  "read_run file b =
     (if length b < 12 \<or> u32be_at b 0 \<noteq> 0x701 \<or> length b \<noteq> 12 + 12 * u32be_at b 4 then None
      else Some (read_entries (u32be_at b 4) (drop 12 b) (drop (u32be_at b 8) file)))"

definition read_traf :: "buffer \<Rightarrow> buffer \<Rightarrow> track_run option" where
  "read_traf file b =
     do { kids \<leftarrow> read_boxes b; head \<leftarrow> map_of kids ''tfhd''; time \<leftarrow> map_of kids ''tfdt''; table \<leftarrow> map_of kids ''trun'';
          samples \<leftarrow> read_run file table;
          Some \<lparr>trTrack = u32be_at head 4, trBase = 2 ^ 32 * u32be_at time 4 + u32be_at time 8, trSamples = samples\<rparr> }"

fun read_trafs :: "buffer \<Rightarrow> (string \<times> buffer) list \<Rightarrow> track_run list option" where
  "read_trafs file [] = Some []"
| "read_trafs file ((t, b) # bs) =
     (if t \<noteq> ''traf'' then read_trafs file bs
      else do { r \<leftarrow> read_traf file b; rs \<leftarrow> read_trafs file bs; Some (r # rs) })"

definition demux :: "buffer \<Rightarrow> (nat \<times> track_run list) option" where
  "demux file =
     (case read_boxes file of
        Some ((t, m) # rest) \<Rightarrow>
          if t \<noteq> ''moof'' then None
          else do { kids \<leftarrow> read_boxes m; head \<leftarrow> map_of kids ''mfhd''; runs \<leftarrow> read_trafs file kids;
                    Some (u32be_at head 4, runs) }
      | _ \<Rightarrow> None)"

section \<open>Containers\<close>

text \<open>A box by its type and body; the positions of the boxes of a container.\<close>

definition box_of :: "string \<times> buffer \<Rightarrow> buffer" where
  "box_of k = mp4_box (fst k) [snd k]"

fun positions :: "nat \<Rightarrow> (string \<times> buffer) list \<Rightarrow> (string \<times> nat) list" where
  "positions i [] = []"
| "positions i (k # ks) = (fst k, i) # positions (i + 8 + length (snd k)) ks"

definition boxes_ok :: "(string \<times> buffer) list \<Rightarrow> bool" where
  "boxes_ok ks \<longleftrightarrow> (\<forall>k \<in> set ks. length (fst k) = 4 \<and> 8 + length (snd k) < 4294967296)"

lemma mp4_box_concat: "mp4_box t payload = box_of (t, concat payload)"
  by (simp add: box_of_def mp4_box_def)

lemma box_of_split: "box_of k = u32be (8 + int (length (snd k))) @ bytes_of_string (fst k) @ snd k"
  by (simp add: box_of_def mp4_box_def Let_def)

lemma length_box_of: "length (fst k) = 4 \<Longrightarrow> length (box_of k) = 8 + length (snd k)"
  by (simp add: box_of_split)

lemma u32_head: "n < 4294967296 \<Longrightarrow> u32be_at (u32be (int n) @ r) 0 = n"
  by (simp add: int_u32be nat_mod_distrib)

lemma u32_at: "n < 4294967296 \<Longrightarrow> u32be_at (p @ u32be (int n) @ r) (length p) = n"
  using be32.rd_skip [of p "u32be (int n) @ r" 0] u32_head [of n r] by simp

lemma box_header:
  assumes "length (fst k) = 4" "8 + length (snd k) < 4294967296"
  shows "u32be_at (p @ box_of k @ r) (length p) = 8 + length (snd k)"
    "slice (length p + 4) (length p + 8) (p @ box_of k @ r) = bytes_of_string (fst k)"
proof -
  show "u32be_at (p @ box_of k @ r) (length p) = 8 + length (snd k)"
    using u32_at [of "8 + length (snd k)" p "bytes_of_string (fst k) @ snd k @ r"] assms(2) by (simp add: box_of_split)
  show "slice (length p + 4) (length p + 8) (p @ box_of k @ r) = bytes_of_string (fst k)"
    unfolding slice_skip using assms(1) by (simp add: slice_def box_of_split)
qed

lemma child_loop_boxes:
  assumes "boxes_ok ks" "stop = length p + length (concat (map box_of ks))"
  shows "child_loop (p @ concat (map box_of ks) @ r) stop (length p) = Inr (positions (length p) ks)"
  using assms
proof (induction ks arbitrary: p)
  case Nil
  then show ?case by (simp add: child_loop.simps)
next
  case (Cons k ks)
  have k: "length (fst k) = 4" "8 + length (snd k) < 4294967296" using Cons.prems(1) by (simp_all add: boxes_ok_def)
  have l: "length (box_of k) = 8 + length (snd k)" using k(1) by (rule length_box_of)
  have IH: "child_loop (p @ box_of k @ concat (map box_of ks) @ r) stop (length p + (8 + length (snd k))) =
      Inr (positions (length p + (8 + length (snd k))) ks)"
    using Cons.IH [of "p @ box_of k"] Cons.prems l by (simp add: boxes_ok_def add.assoc)
  have "read_u32be (p @ box_of k @ concat (map box_of ks) @ r) (length p) = Inr (8 + length (snd k))"
    using l box_header(1) [OF k] by (simp add: read_u32be_def)
  then show ?case
    using Cons.prems(2) l IH box_header(2) [OF k, of p "concat (map box_of ks) @ r"]
    by (subst child_loop.simps) (simp add: add.assoc)
qed

text \<open>The children of a container that stands in a longer buffer.\<close>

lemma childBoxes_container:
  assumes "boxes_ok ks" "length t = 4" "8 + length (concat (map box_of ks)) < 4294967296"
  shows "childBoxes (p @ box_of (t, concat (map box_of ks)) @ r) (length p) = Inr (positions (length p + 8) ks)"
proof -
  let ?b = "concat (map box_of ks)"
  let ?h = "u32be (8 + int (length ?b)) @ bytes_of_string t"
  have "read_u32be (p @ box_of (t, ?b) @ r) (length p) = Inr (8 + length ?b)"
    using box_header(1) [of "(t, ?b)" p r] assms length_box_of [of "(t, ?b)"] by (simp add: read_u32be_def)
  moreover have "child_loop ((p @ ?h) @ ?b @ r) (length p + 8 + length ?b) (length (p @ ?h)) = Inr (positions (length (p @ ?h)) ks)"
    by (rule child_loop_boxes [OF assms(1)]) (use assms(2) in simp)
  ultimately show ?thesis using assms(2) by (simp add: childBoxes_def box_of_split add.assoc)
qed

lemma read_boxes_container: "boxes_ok ks \<Longrightarrow> read_boxes (concat (map box_of ks)) = Some ks"
proof (induction ks)
  case Nil
  then show ?case by (simp add: read_boxes.simps)
next
  case (Cons k ks)
  have k: "length (fst k) = 4" "8 + length (snd k) < 4294967296" and ks: "boxes_ok ks"
    using Cons.prems by (simp_all add: boxes_ok_def)
  have l: "length (box_of k) = 8 + length (snd k)" using k(1) by (rule length_box_of)
  have n: "box_of k \<noteq> []" using l by auto
  have b: "slice 8 (8 + length (snd k)) (box_of k @ concat (map box_of ks)) = snd k"
    using k(1) by (simp add: slice_def box_of_split)
  show ?case
    using l n b box_header [OF k, of "[]" "concat (map box_of ks)"] Cons.IH [OF ks]
    by (subst read_boxes.simps) (simp add: Let_def)
qed

section \<open>The movie fragment\<close>

text \<open>A run, a track fragment and a movie fragment with their data offsets in place.\<close>

definition entry_bytes :: "mp4_sample \<Rightarrow> buffer" where
  "entry_bytes s = u32be (smDuration s) @ u32be (int (length (smData s))) @ u32be (if smKeyframe s then 0x02000000 else 0x01010000)"

definition run_body :: "mp4_sample list \<Rightarrow> int \<Rightarrow> buffer" where
  "run_body ss d = u32be 0x000701 @ u32be (int (length ss)) @ u32be d @ concat (map entry_bytes ss)"

definition traf_kids :: "int \<Rightarrow> int \<Rightarrow> mp4_sample list \<Rightarrow> int \<Rightarrow> (string \<times> buffer) list" where
  "traf_kids track base ss d =
     [(''tfhd'', u32be 0x020000 @ u32be track), (''tfdt'', u32be 0x01000000 @ u32be (base div 2 ^ 32) @ u32be base),
      (''trun'', run_body ss d)]"

type_synonym run_spec = "int \<times> int \<times> mp4_sample list"

definition traf_kid :: "run_spec \<Rightarrow> int \<Rightarrow> string \<times> buffer" where
  "traf_kid r d = (''traf'', concat (map box_of (traf_kids (fst r) (fst (snd r)) (snd (snd r)) d)))"

definition moof_kids :: "int \<Rightarrow> (run_spec \<times> int) list \<Rightarrow> (string \<times> buffer) list" where
  "moof_kids seq rs = (''mfhd'', u32be 0 @ u32be seq) # map (\<lambda>(r, d). traf_kid r d) rs"

definition moof_of :: "int \<Rightarrow> (run_spec \<times> int) list \<Rightarrow> buffer" where
  "moof_of seq rs = box_of (''moof'', concat (map box_of (moof_kids seq rs)))"

lemma length_entries: "length (concat (map entry_bytes ss)) = 12 * length ss"
  by (induction ss) (simp_all add: entry_bytes_def)

lemma length_run_body: "length (run_body ss d) = 12 + 12 * length ss"
  using length_entries [of ss] by (simp add: run_body_def)

lemma length_traf_kid: "length (snd (traf_kid (track, base, ss) d)) = 56 + 12 * length ss"
  by (simp add: traf_kid_def traf_kids_def length_box_of length_run_body)

lemma length_moof_of:
  "length (moof_of seq rs) = 24 + (\<Sum>(r, d) \<leftarrow> rs. 64 + 12 * length (snd (snd r)))"
proof -
  have "length (concat (map box_of (map (\<lambda>(r, d). traf_kid r d) rs))) = (\<Sum>(r, d) \<leftarrow> rs. 64 + 12 * length (snd (snd r)))"
  proof (induction rs)
    case (Cons x xs)
    obtain track base ss d where x: "x = ((track, base, ss), d)" by (metis prod.exhaust)
    have "length (box_of (traf_kid (track, base, ss) d)) = 64 + 12 * length ss"
      by (subst length_box_of) (simp_all add: length_traf_kid, simp add: traf_kid_def)
    then show ?case using Cons by (simp add: x)
  qed simp
  then show ?thesis by (simp add: moof_of_def moof_kids_def length_box_of)
qed

lemma u64_bytes: "0 \<le> n \<Longrightarrow> n < 2 ^ 64 \<Longrightarrow> write_u64be n = Inr (u32be (n div 2 ^ 32) @ u32be n)"
  by (simp add: write_u64be_def)

lemma trun_box: "trun ss = box_of (''trun'', run_body ss 0)"
  by (simp add: trun_def mp4_box_concat run_body_def entry_bytes_def [abs_def])

lemma traf_box:
  assumes "0 \<le> base" "base < 2 ^ 64"
  shows "traf track base ss = Inr (box_of (traf_kid (track, base, ss) 0))"
  unfolding traf_def u64_bytes [OF assms] trun_box res_bind_simps mp4_box_concat traf_kid_def traf_kids_def
  by (simp only: fst_conv snd_conv list.map concat.simps append_Nil2 append_assoc)

definition bases_ok :: "run_spec list \<Rightarrow> bool" where
  "bases_ok rs \<longleftrightarrow> (\<forall>(track, base, ss) \<in> set rs. 0 \<le> base \<and> base < 2 ^ 64)"

definition specs_of :: "int \<Rightarrow> mp4_sample list \<Rightarrow> (int \<times> mp4_sample list) option \<Rightarrow> run_spec list" where
  "specs_of base ss audio = (1, base, ss) # (case audio of None \<Rightarrow> [] | Some (b, as) \<Rightarrow> [(2, b, as)])"

lemma moof_box:
  assumes "bases_ok (specs_of base ss audio)"
  shows "moof seq base ss audio = Inr (moof_of seq (map (\<lambda>r. (r, 0)) (specs_of base ss audio)))"
proof -
  have v: "traf 1 base ss = Inr (box_of (traf_kid (1, base, ss) 0))"
    using assms by (intro traf_box) (simp_all add: bases_ok_def specs_of_def)
  show ?thesis
  proof (cases audio)
    case None
    then show ?thesis by (simp add: moof_def v moof_of_def moof_kids_def mp4_box_concat specs_of_def)
  next
    case (Some a)
    obtain b as where a: "a = (b, as)" by fastforce
    have "traf 2 b as = Inr (box_of (traf_kid (2, b, as) 0))"
      using assms by (intro traf_box) (simp_all add: bases_ok_def specs_of_def Some a)
    then show ?thesis by (simp add: moof_def v moof_of_def moof_kids_def mp4_box_concat specs_of_def Some a)
  qed
qed

section \<open>Patching the data offsets\<close>

lemma put_field: "length w = length v \<Longrightarrow> put_at (length a) w (a @ v @ r) = a @ w @ r"
  by (simp add: put_at_def)

lemma traf_split:
  "\<exists>A. length A = 60 \<and> (\<forall>d. box_of (traf_kid (track, base, ss) d) = A @ u32be d @ concat (map entry_bytes ss))"
proof -
  let ?A = "u32be (int (64 + 12 * length ss)) @ bytes_of_string ''traf'' @ box_of (''tfhd'', u32be 0x020000 @ u32be track) @
      box_of (''tfdt'', u32be 0x01000000 @ u32be (base div 2 ^ 32) @ u32be base) @
      u32be (int (20 + 12 * length ss)) @ bytes_of_string ''trun'' @ u32be 0x000701 @ u32be (int (length ss))"
  have l: "length ?A = 60" by (simp add: length_box_of)
  have "box_of (traf_kid (track, base, ss) d) = ?A @ u32be d @ concat (map entry_bytes ss)" for d
  proof -
    have "box_of (traf_kid (track, base, ss) d) =
        u32be (int (64 + 12 * length ss)) @ bytes_of_string ''traf'' @ snd (traf_kid (track, base, ss) d)"
      unfolding box_of_split length_traf_kid by (simp add: traf_kid_def)
    moreover have "box_of (''trun'', run_body ss d) =
        u32be (int (20 + 12 * length ss)) @ bytes_of_string ''trun'' @ u32be 0x000701 @ u32be (int (length ss)) @ u32be d @ concat (map entry_bytes ss)"
      unfolding box_of_split snd_conv length_run_body fst_conv by (simp add: run_body_def)
    ultimately show ?thesis by (simp add: traf_kid_def traf_kids_def)
  qed
  with l show ?thesis by blast
qed

lemma traf_positions:
  "positions (i + 8) (traf_kids track base ss d) = [(''tfhd'', i + 8), (''tfdt'', i + 24), (''trun'', i + 44)]"
  by (simp add: traf_kids_def)

lemma traf_kids_ok: "12 * length ss < 4294967000 \<Longrightarrow> boxes_ok (traf_kids track base ss d)"
  by (simp add: boxes_ok_def traf_kids_def length_run_body)

lemma i32_bytes: "0 \<le> n \<Longrightarrow> n < 2147483648 \<Longrightarrow> write_i32be n = Inr (u32be n)"
  by (simp add: write_i32be_def)

lemma patch_traf:
  assumes "0 \<le> d" "d < 2147483648"
  shows "patch_truns (positions (length p + 8) (traf_kids track base ss d0)) (d # ds) (p @ box_of (traf_kid (track, base, ss) d0) @ r) =
    Inr (ds, p @ box_of (traf_kid (track, base, ss) d) @ r)"
proof -
  obtain A where A: "length A = 60" "\<And>d. box_of (traf_kid (track, base, ss) d) = A @ u32be d @ concat (map entry_bytes ss)"
    using traf_split by blast
  have "put_at (length p + 60) (u32be d) (p @ A @ u32be d0 @ concat (map entry_bytes ss) @ r) =
      p @ A @ u32be d @ concat (map entry_bytes ss) @ r"
    using put_field [of "u32be d" "u32be d0" "p @ A" "concat (map entry_bytes ss) @ r"] A(1) by (simp add: add.assoc)
  then have "put_at (length p + 44 + 16) (u32be d) (p @ A @ u32be d0 @ concat (map entry_bytes ss) @ r) =
      p @ A @ u32be d @ concat (map entry_bytes ss) @ r" by (simp add: add.assoc)
  then show ?thesis unfolding traf_positions by (simp add: i32_bytes [OF assms] A A(1))
qed

definition offsets_ok :: "int list \<Rightarrow> bool" where
  "offsets_ok ds \<longleftrightarrow> (\<forall>d \<in> set ds. 0 \<le> d \<and> d < 2147483648)"

definition specs_ok :: "run_spec list \<Rightarrow> bool" where
  "specs_ok rs \<longleftrightarrow> (\<forall>(track, base, ss) \<in> set rs. 12 * length ss < 4294967000)"

definition trafs_of :: "(run_spec \<times> int) list \<Rightarrow> buffer" where
  "trafs_of rs = concat (map box_of (map (\<lambda>(r, d). traf_kid r d) rs))"

lemma patch_all:
  assumes "length ds = length rs" "offsets_ok ds" "specs_ok (map fst rs)"
  shows "patch_trafs (positions (length p) (map (\<lambda>(r, d). traf_kid r d) rs)) (ds @ left) (p @ trafs_of rs) =
    Inr (left, p @ trafs_of (zip (map fst rs) ds))"
  using assms
proof (induction rs arbitrary: p ds)
  case Nil
  then show ?case by (simp add: trafs_of_def)
next
  case (Cons x xs)
  obtain track base ss d0 where x: "x = ((track, base, ss), d0)" by (metis prod.exhaust)
  obtain d es where ds: "ds = d # es" using Cons.prems(1) by (cases ds) simp_all
  have d: "0 \<le> d" "d < 2147483648" using Cons.prems(2) by (simp_all add: ds offsets_ok_def)
  have s: "12 * length ss < 4294967000" using Cons.prems(3) by (simp add: x specs_ok_def)
  have len: "length (box_of (traf_kid (track, base, ss) e)) = 64 + 12 * length ss" for e
    by (subst length_box_of) (simp_all add: length_traf_kid, simp add: traf_kid_def)
  have kids: "childBoxes (p @ box_of (traf_kid (track, base, ss) d0) @ trafs_of xs) (length p) =
      Inr (positions (length p + 8) (traf_kids track base ss d0))"
    unfolding traf_kid_def fst_conv snd_conv
    by (rule childBoxes_container [OF traf_kids_ok [OF s]]) (use s in \<open>simp_all add: traf_kids_def length_box_of length_run_body\<close>)
  have IH: "patch_trafs (positions (length p + (64 + 12 * length ss)) (map (\<lambda>(r, d). traf_kid r d) xs)) (es @ left)
      (p @ box_of (traf_kid (track, base, ss) d) @ trafs_of xs) =
      Inr (left, p @ box_of (traf_kid (track, base, ss) d) @ trafs_of (zip (map fst xs) es))"
    using Cons.IH [of es "p @ box_of (traf_kid (track, base, ss) d)"] Cons.prems len [of d]
    by (simp add: ds x offsets_ok_def specs_ok_def)
  have t: "fst (traf_kid (track, base, ss) d0) = ''traf''" by (simp add: traf_kid_def)
  have c: "trafs_of (x # xs) = box_of (traf_kid (track, base, ss) d0) @ trafs_of xs"
    "trafs_of (zip (map fst (x # xs)) ds) = box_of (traf_kid (track, base, ss) d) @ trafs_of (zip (map fst xs) es)"
    by (simp_all add: trafs_of_def x ds)
  have "positions (length p) (map (\<lambda>(r, d). traf_kid r d) (x # xs)) =
      (''traf'', length p) # positions (length p + (64 + 12 * length ss)) (map (\<lambda>(r, d). traf_kid r d) xs)"
    by (simp add: x t length_traf_kid add.assoc)
  then show ?case unfolding c by (simp add: ds kids patch_traf [OF d] IH)
qed

lemma patch_moof:
  assumes "length ds = length rs" "offsets_ok ds" "specs_ok rs" "length (moof_of seq (map (\<lambda>r. (r, 0)) rs)) < 4294967296"
  shows "patchTrunDataOffsets (ds @ left) (moof_of seq (map (\<lambda>r. (r, 0)) rs)) =
    (if left = [] then Inr (moof_of seq (zip rs ds))
     else Inl (UserError ''fMP4 muxer: trun count does not match data offsets''))"
proof -
  let ?z = "map (\<lambda>r. (r, 0 :: int)) rs"
  let ?h = "u32be (int (length (moof_of seq ?z))) @ bytes_of_string ''moof'' @ box_of (''mfhd'', u32be 0 @ u32be seq)"
  have f: "map fst ?z = rs" "map fst (zip rs ds) = rs" using assms(1) by (simp_all add: o_def)
  have split: "moof_of seq xs = (u32be (int (length (moof_of seq xs))) @ bytes_of_string ''moof'' @ box_of (''mfhd'', u32be 0 @ u32be seq)) @ trafs_of xs" for xs
    by (simp add: moof_of_def moof_kids_def trafs_of_def box_of_split [of "(''moof'', b)" for b] length_box_of)
  have same: "length (moof_of seq (zip rs ds)) = length (moof_of seq ?z)"
    unfolding length_moof_of using assms(1) by (induction ds rs rule: list_induct2) auto
  have len: "8 + length (concat (map box_of (moof_kids seq ?z))) = length (moof_of seq ?z)"
    by (simp add: moof_of_def length_box_of)
  have ok: "boxes_ok (moof_kids seq ?z)"
    using assms(3) by (auto simp: boxes_ok_def moof_kids_def specs_ok_def length_traf_kid) (auto simp: traf_kid_def)
  have "childBoxes (moof_of seq ?z) 0 = Inr (positions 8 (moof_kids seq ?z))"
    using childBoxes_container [OF ok, of "''moof''" "[]" "[]"] len assms(4) by (simp add: moof_of_def)
  moreover have "patch_trafs (positions 24 (map (\<lambda>(r, d). traf_kid r d) ?z)) (ds @ left) (?h @ trafs_of ?z) = Inr (left, ?h @ trafs_of (zip rs ds))"
    using patch_all [of ds ?z ?h] assms(1-3) f by (simp add: length_box_of)
  ultimately show ?thesis
    using split [of ?z] split [of "zip rs ds"] same
    by (simp add: patchTrunDataOffsets_def moof_kids_def)
qed

section \<open>What a player reads\<close>

text \<open>What fits the table of a run.\<close>

definition samples_ok :: "mp4_sample list \<Rightarrow> bool" where
  "samples_ok ss \<longleftrightarrow> (\<forall>s \<in> set ss. 0 \<le> smDuration s \<and> smDuration s < 4294967296 \<and> length (smData s) < 4294967296)"

lemma u32_int: "0 \<le> n \<Longrightarrow> n < 4294967296 \<Longrightarrow> u32be_at (u32be n @ r) 0 = nat n"
  using u32_head [of "nat n" r] by simp

lemma u32_int_at: "0 \<le> n \<Longrightarrow> n < 4294967296 \<Longrightarrow> length p = i \<Longrightarrow> u32be_at (p @ u32be n @ r) i = nat n"
  using u32_at [of "nat n" p r] by simp

lemma read_entry:
  assumes "0 \<le> smDuration s" "smDuration s < 4294967296" "length (smData s) < 4294967296"
  shows "read_entries (Suc n) (entry_bytes s @ r) (smData s @ bytes) = s # read_entries n r bytes"
proof -
  have a: "u32be_at (entry_bytes s @ r) 0 = nat (smDuration s)"
    using u32_int assms(1,2) by (simp add: entry_bytes_def)
  have b: "u32be_at (entry_bytes s @ r) 4 = length (smData s)"
    using u32_int_at [of "int (length (smData s))" "u32be (smDuration s)" 4] assms(3) by (simp add: entry_bytes_def)
  have c: "u32be_at (entry_bytes s @ r) 8 = (if smKeyframe s then 0x02000000 else 0x01010000)"
    using u32_int_at [of "if smKeyframe s then 0x02000000 else 0x01010000" "u32be (smDuration s) @ u32be (int (length (smData s)))" 8 r]
    by (simp add: entry_bytes_def split: if_splits)
  have d: "drop 12 (entry_bytes s @ r) = r" by (simp add: entry_bytes_def)
  have k: "(u32be_at (entry_bytes s @ r) 8 = 0x02000000) = smKeyframe s" by (simp add: c)
  show ?thesis unfolding read_entries.simps a b d k using assms(1) by simp
qed

lemma read_entries_samples:
  "samples_ok ss \<Longrightarrow> read_entries (length ss) (concat (map entry_bytes ss)) (media_bytes ss @ r) = ss"
proof (induction ss)
  case (Cons s ss)
  then show ?case
    using read_entry [of s "length ss" "concat (map entry_bytes ss)" "media_bytes ss @ r"]
    by (simp add: samples_ok_def media_bytes_def)
qed simp

lemma read_run_body:
  assumes "samples_ok ss" "length ss < 4294967296" "0 \<le> d" "d < 4294967296" "drop (nat d) file = media_bytes ss @ r"
  shows "read_run file (run_body ss d) = Some ss"
proof -
  have a: "u32be_at (run_body ss d) 0 = 0x701" using u32_int [of "0x701"] by (simp add: run_body_def)
  have b: "u32be_at (run_body ss d) 4 = length ss"
    using u32_int_at [of "int (length ss)" "u32be 0x701" 4] assms(2) by (simp add: run_body_def)
  have c: "u32be_at (run_body ss d) 8 = nat d"
    using u32_int_at [of d "u32be 0x701 @ u32be (int (length ss))" 8] assms(3,4) by (simp add: run_body_def)
  have e: "drop 12 (run_body ss d) = concat (map entry_bytes ss)" by (simp add: run_body_def)
  show ?thesis using read_entries_samples [OF assms(1)] assms(5) by (simp add: read_run_def length_run_body a b c e)
qed

definition run_of :: "run_spec \<Rightarrow> track_run" where
  "run_of r = \<lparr>trTrack = nat (fst r), trBase = nat (fst (snd r)), trSamples = snd (snd r)\<rparr>"

definition spec_ok :: "run_spec \<Rightarrow> bool" where
  "spec_ok r \<longleftrightarrow> 0 \<le> fst r \<and> fst r < 4294967296 \<and> 0 \<le> fst (snd r) \<and> fst (snd r) < 2 ^ 64 \<and>
     samples_ok (snd (snd r)) \<and> 12 * length (snd (snd r)) < 4294967000"

lemma u64_read: "0 \<le> n \<Longrightarrow> n < 2 ^ 64 \<Longrightarrow> 2 ^ 32 * u32be_at (u32be (n div 2 ^ 32) @ r) 0 + nat (n mod 4294967296) = nat n"
proof -
  assume n: "0 \<le> n" "n < 2 ^ 64"
  have hi: "0 \<le> n div 2 ^ 32" using n by (simp add: pos_imp_zdiv_nonneg_iff)
  have "n div 2 ^ 32 < 2 ^ 32" using n by (simp add: div_less_iff_less_mult)
  then have lo: "n div 2 ^ 32 < 4294967296" by simp
  have "int (2 ^ 32 * nat (n div 2 ^ 32) + nat (n mod 4294967296)) = n"
    using hi mult_div_mod_eq [of 4294967296 n] by simp
  then have "2 ^ 32 * nat (n div 2 ^ 32) + nat (n mod 4294967296) = nat n" by (metis nat_int)
  then show ?thesis unfolding u32_int [OF hi lo] .
qed

lemma read_traf_kid:
  assumes "spec_ok (track, base, ss)" "0 \<le> d" "d < 4294967296" "drop (nat d) file = media_bytes ss @ r"
  shows "read_traf file (snd (traf_kid (track, base, ss) d)) = Some (run_of (track, base, ss))"
proof -
  have s: "0 \<le> track" "track < 4294967296" "0 \<le> base" "base < 2 ^ 64" "samples_ok ss" "12 * length ss < 4294967000"
    using assms(1) by (simp_all add: spec_ok_def)
  have kids: "read_boxes (snd (traf_kid (track, base, ss) d)) = Some (traf_kids track base ss d)"
    using read_boxes_container [OF traf_kids_ok [OF s(6)]] by (simp add: traf_kid_def)
  have h: "u32be_at (u32be 0x020000 @ u32be track) 4 = nat track"
    using u32_int_at [OF s(1,2), of "u32be 0x020000" 4 "[]"] by simp
  have lo: "u32be_at (u32be 0x01000000 @ u32be (base div 2 ^ 32) @ u32be base) 4 = u32be_at (u32be (base div 2 ^ 32) @ u32be base) 0"
    using u32be_at_skip [of "u32be 0x01000000" "u32be (base div 2 ^ 32) @ u32be base" 0] by simp
  have hi: "u32be_at (u32be 0x01000000 @ u32be (base div 2 ^ 32) @ u32be base) 8 = nat (base mod 4294967296)"
    using u32be_at_skip [of "u32be 0x01000000 @ u32be (base div 2 ^ 32)" "u32be base" 0] int_u32be [of base "[]"] by simp
  have t: "2 ^ 32 * u32be_at (u32be 0x01000000 @ u32be (base div 2 ^ 32) @ u32be base) 4 +
      u32be_at (u32be 0x01000000 @ u32be (base div 2 ^ 32) @ u32be base) 8 = nat base"
    unfolding lo hi by (rule u64_read [OF s(3,4)])
  have r: "read_run file (run_body ss d) = Some ss"
    by (rule read_run_body [OF s(5) _ assms(2-4)]) (use s(6) in simp)
  have m: "map_of (traf_kids track base ss d) ''tfhd'' = Some (u32be 0x020000 @ u32be track)"
    "map_of (traf_kids track base ss d) ''tfdt'' = Some (u32be 0x01000000 @ u32be (base div 2 ^ 32) @ u32be base)"
    "map_of (traf_kids track base ss d) ''trun'' = Some (run_body ss d)"
    by (simp_all add: traf_kids_def)
  have "read_traf file (snd (traf_kid (track, base, ss) d)) =
      Some \<lparr>trTrack = u32be_at (u32be 0x020000 @ u32be track) 4,
        trBase = 2 ^ 32 * u32be_at (u32be 0x01000000 @ u32be (base div 2 ^ 32) @ u32be base) 4 +
          u32be_at (u32be 0x01000000 @ u32be (base div 2 ^ 32) @ u32be base) 8, trSamples = ss\<rparr>"
    by (simp only: read_traf_def kids m r Option.bind.bind_lunit)
  then show ?thesis unfolding h t run_of_def by simp
qed

text \<open>Where a run's samples stand in the file.\<close>

definition placed :: "buffer \<Rightarrow> run_spec \<times> int \<Rightarrow> bool" where
  "placed file x \<longleftrightarrow> spec_ok (fst x) \<and> 0 \<le> snd x \<and> snd x < 4294967296 \<and>
     (\<exists>r. drop (nat (snd x)) file = media_bytes (snd (snd (fst x))) @ r)"

lemma read_trafs_all:
  "(\<And>x. x \<in> set rs \<Longrightarrow> placed file x) \<Longrightarrow>
   read_trafs file (map (\<lambda>(r, d). traf_kid r d) rs) = Some (map (run_of \<circ> fst) rs)"
proof (induction rs)
  case (Cons x xs)
  obtain track base ss d where x: "x = ((track, base, ss), d)" by (metis prod.exhaust)
  obtain r where "spec_ok (track, base, ss)" "0 \<le> d" "d < 4294967296" "drop (nat d) file = media_bytes ss @ r"
    using Cons.prems [of x] by (auto simp: placed_def x)
  then have "read_traf file (snd (traf_kid (track, base, ss) d)) = Some (run_of (track, base, ss))" by (rule read_traf_kid)
  moreover have "traf_kid (track, base, ss) d = (''traf'', snd (traf_kid (track, base, ss) d))" by (simp add: traf_kid_def)
  ultimately show ?case using Cons by (simp add: x) (metis read_trafs.simps(2) bind.bind_lunit)
qed simp

lemma demux_fragment:
  assumes "length (moof_of seq rs) < 4294967296" "8 + length b < 4294967296"
    and "\<And>x. x \<in> set rs \<Longrightarrow> placed (moof_of seq rs @ box_of (''mdat'', b)) x"
  shows "demux (moof_of seq rs @ box_of (''mdat'', b)) = Some (nat (seq mod 4294967296), map (run_of \<circ> fst) rs)"
proof -
  let ?file = "moof_of seq rs @ box_of (''mdat'', b)"
  let ?m = "concat (map box_of (moof_kids seq rs))"
  have len: "8 + length ?m = length (moof_of seq rs)" by (simp add: moof_of_def length_box_of)
  have top: "read_boxes ?file = Some [(''moof'', ?m), (''mdat'', b)]"
    using read_boxes_container [of "[(''moof'', ?m), (''mdat'', b)]"] len assms(1,2) by (simp add: boxes_ok_def moof_of_def)
  have "boxes_ok (moof_kids seq rs)"
  proof -
    have "length (fst (traf_kid r d)) = 4 \<and> 8 + length (snd (traf_kid r d)) < 4294967296" if "(r, d) \<in> set rs" for r d
    proof -
      obtain track base ss where r: "r = (track, base, ss)" by (metis prod.exhaust)
      have "12 * length ss < 4294967000" using assms(3) [OF that] by (simp add: placed_def spec_ok_def r)
      then show ?thesis by (simp add: r length_traf_kid) (simp add: traf_kid_def)
    qed
    then show ?thesis by (auto simp: boxes_ok_def moof_kids_def)
  qed
  then have kids: "read_boxes ?m = Some (moof_kids seq rs)" by (rule read_boxes_container)
  have "read_trafs ?file (moof_kids seq rs) = Some (map (run_of \<circ> fst) rs)"
    using read_trafs_all [OF assms(3)] by (simp add: moof_kids_def)
  moreover have "u32be_at (u32be 0 @ u32be seq) 4 = nat (seq mod 4294967296)"
    using u32be_at_skip [of "u32be 0" "u32be seq" 0] int_u32be [of seq "[]"] by simp
  moreover have "map_of (moof_kids seq rs) ''mfhd'' = Some (u32be 0 @ u32be seq)" by (simp add: moof_kids_def)
  ultimately show ?thesis by (simp add: demux_def top kids)
qed

section \<open>A fragment is what the muxer held\<close>

definition track_specs :: "muxer \<Rightarrow> run_spec list" where
  "track_specs m =
     (1, mxBaseDecodeTime m, mxSamples m) #
     (if mxAudioSamples m = [] then [] else [(2, mxAudioBaseDecodeTime m, mxAudioSamples m)])"

definition fragment_size :: "muxer \<Rightarrow> nat" where
  "fragment_size m =
     96 + (if mxAudioSamples m = [] then 0 else 64) + 12 * (length (mxSamples m) + length (mxAudioSamples m)) +
     length (media_bytes (mxSamples m)) + length (media_bytes (mxAudioSamples m))"

definition fragment_ready :: "muxer \<Rightarrow> bool" where
  "fragment_ready m \<longleftrightarrow>
     samples_ok (mxSamples m) \<and> samples_ok (mxAudioSamples m) \<and> fragment_size m < 2 ^ 31 \<and>
     0 \<le> mxBaseDecodeTime m \<and> mxBaseDecodeTime m < 2 ^ 64 \<and>
     (mxAudioSamples m \<noteq> [] \<longrightarrow> hasAudioTrack m \<and> 0 \<le> mxAudioBaseDecodeTime m \<and> mxAudioBaseDecodeTime m < 2 ^ 64)"

definition fragment_offsets :: "muxer \<Rightarrow> int list" where
  "fragment_offsets m =
     (let d = 96 + int (if mxAudioSamples m = [] then 0 else 64) + 12 * int (length (mxSamples m) + length (mxAudioSamples m))
      in d # (if mxAudioSamples m = [] then [] else [d + int (length (media_bytes (mxSamples m)))]))"

definition after_fragment :: "muxer \<Rightarrow> muxer" where
  "after_fragment m =
     m\<lparr>mxSamples := [], mxAudioSamples := [], mxFragTicks := 0, mxSeq := mxSeq m + 1,
       mxBaseDecodeTime := mxBaseDecodeTime m + ticks (mxSamples m),
       mxAudioBaseDecodeTime := mxAudioBaseDecodeTime m + ticks (mxAudioSamples m)\<rparr>"

definition fragment_bytes :: "muxer \<Rightarrow> buffer" where
  "fragment_bytes m =
     moof_of (mxSeq m) (zip (track_specs m) (fragment_offsets m)) @
     box_of (''mdat'', media_bytes (mxSamples m) @ media_bytes (mxAudioSamples m))"

lemma length_fragment_moof:
  "length (moof_of seq (zip (track_specs m) (fragment_offsets m))) =
     88 + (if mxAudioSamples m = [] then 0 else 64) + 12 * (length (mxSamples m) + length (mxAudioSamples m))"
  "length (moof_of seq (map (\<lambda>r. (r, 0)) (track_specs m))) =
     88 + (if mxAudioSamples m = [] then 0 else 64) + 12 * (length (mxSamples m) + length (mxAudioSamples m))"
  by (simp_all add: length_moof_of track_specs_def fragment_offsets_def Let_def)

lemma length_fragment_bytes: "length (fragment_bytes m) = fragment_size m"
  by (simp add: fragment_bytes_def length_fragment_moof length_box_of fragment_size_def)

lemma fragment_built:
  assumes "fragment_ready m"
  shows "buildFragment m = (Inr (fragment_bytes m), after_fragment m)"
proof -
  let ?audio = "if hasAudioTrack m \<and> mxAudioSamples m \<noteq> [] then Some (mxAudioBaseDecodeTime m, mxAudioSamples m) else None"
  have specs: "specs_of (mxBaseDecodeTime m) (mxSamples m) ?audio = track_specs m"
    using assms by (auto simp: specs_of_def track_specs_def fragment_ready_def)
  have head: "moof (mxSeq m) (mxBaseDecodeTime m) (mxSamples m) ?audio = Inr (moof_of (mxSeq m) (map (\<lambda>r. (r, 0)) (track_specs m)))"
    by (subst moof_box) (use assms in \<open>auto simp: specs bases_ok_def track_specs_def fragment_ready_def\<close>)
  have bound: "fragment_size m < 2147483648" using assms by (simp add: fragment_ready_def)
  have len: "length (moof_of (mxSeq m) (map (\<lambda>r. (r, 0)) (track_specs m))) < 4294967296"
    using bound by (simp add: length_fragment_moof fragment_size_def split: if_splits)
  have "length (fragment_offsets m) = length (track_specs m)" by (simp add: fragment_offsets_def track_specs_def Let_def)
  moreover have "offsets_ok (fragment_offsets m)"
    using bound by (simp add: offsets_ok_def fragment_offsets_def Let_def fragment_size_def split: if_splits)
  moreover have "specs_ok (track_specs m)"
    using bound by (simp add: specs_ok_def track_specs_def fragment_size_def split: if_splits)
  ultimately have patched: "patchTrunDataOffsets (fragment_offsets m) (moof_of (mxSeq m) (map (\<lambda>r. (r, 0)) (track_specs m))) =
      Inr (moof_of (mxSeq m) (zip (track_specs m) (fragment_offsets m)))"
    using patch_moof [of "fragment_offsets m" "track_specs m" "mxSeq m" "[]"] len by simp
  have offs: "(if mxAudioSamples m \<noteq> []
      then [int (length (moof_of (mxSeq m) (map (\<lambda>r. (r, 0)) (track_specs m))) + 8),
            int (length (moof_of (mxSeq m) (map (\<lambda>r. (r, 0)) (track_specs m))) + 8) + int (length (media_bytes (mxSamples m)))]
      else [int (length (moof_of (mxSeq m) (map (\<lambda>r. (r, 0)) (track_specs m))) + 8)]) = fragment_offsets m"
    by (simp add: fragment_offsets_def length_fragment_moof Let_def)
  have "buildFragment m = (Inr (moof_of (mxSeq m) (zip (track_specs m) (fragment_offsets m)) @
      mp4_box ''mdat'' [media_bytes (mxSamples m), media_bytes (mxAudioSamples m)]), after_fragment m)"
    unfolding buildFragment_def
    by (simp only: act_simps Let_def act_bind_def prod.case sum.case head offs patched) (simp add: after_fragment_def)
  then show ?thesis by (simp add: fragment_bytes_def mp4_box_concat)
qed

lemma drop_after: "length p = n \<Longrightarrow> drop (n + k) (p @ x) = drop k x"
  by simp

lemma fragment_demux:
  assumes "fragment_ready m"
  shows "demux (fragment_bytes m) = Some (nat (mxSeq m mod 4294967296), map run_of (track_specs m))"
proof -
  let ?z = "zip (track_specs m) (fragment_offsets m)"
  let ?v = "media_bytes (mxSamples m)" and ?a = "media_bytes (mxAudioSamples m)"
  define n where "n = 88 + (if mxAudioSamples m = [] then 0 else 64) + 12 * (length (mxSamples m) + length (mxAudioSamples m))"
  have bound: "fragment_size m < 2147483648" using assms by (simp add: fragment_ready_def)
  have len: "length (moof_of (mxSeq m) ?z) = n" unfolding n_def by (rule length_fragment_moof)
  have data: "drop (n + 8 + k) (fragment_bytes m) = drop k (?v @ ?a)" for k
  proof -
    have l: "length (moof_of (mxSeq m) ?z @ u32be (8 + int (length (?v @ ?a))) @ bytes_of_string ''mdat'') = n + 8" by (simp add: len)
    show ?thesis using drop_after [OF l, of k "?v @ ?a"] by (simp add: fragment_bytes_def box_of_split [of "(''mdat'', b)" for b])
  qed
  have fst: "map (run_of \<circ> fst) ?z = map run_of (track_specs m)"
    by (simp add: track_specs_def fragment_offsets_def Let_def)
  have offs: "fragment_offsets m = int (n + 8) # (if mxAudioSamples m = [] then [] else [int (n + 8 + length ?v)])"
    by (simp add: fragment_offsets_def Let_def n_def)
  have specs: "\<And>r. r \<in> set (track_specs m) \<Longrightarrow> spec_ok r"
    using assms bound by (auto simp: track_specs_def spec_ok_def fragment_ready_def fragment_size_def split: if_splits)
  have small: "n + 8 + length ?v < 4294967296" using bound by (simp add: n_def fragment_size_def split: if_splits)
  have mdat: "8 + length (?v @ ?a) < 4294967296" using bound by (simp add: fragment_size_def split: if_splits)
  have "placed (fragment_bytes m) x" if "x \<in> set ?z" for x
  proof -
    have "fst x \<in> set (track_specs m)" using that set_zip_leftD [of "fst x" "snd x"] by simp
    then have s: "spec_ok (fst x)" by (rule specs)
    have "x = ((1, mxBaseDecodeTime m, mxSamples m), int (n + 8)) \<or>
        x = ((2, mxAudioBaseDecodeTime m, mxAudioSamples m), int (n + 8 + length ?v))"
      using that unfolding offs track_specs_def by (auto split: if_splits)
    then show ?thesis
    proof
      assume x: "x = ((1, mxBaseDecodeTime m, mxSamples m), int (n + 8))"
      have "drop (n + 8) (fragment_bytes m) = ?v @ ?a" using data [of 0] by simp
      then show ?thesis using s small unfolding placed_def x by (simp only: fst_conv snd_conv nat_int) auto
    next
      assume x: "x = ((2, mxAudioBaseDecodeTime m, mxAudioSamples m), int (n + 8 + length ?v))"
      have "drop (n + 8 + length ?v) (fragment_bytes m) = ?a @ []" using data [of "length ?v"] by simp
      then show ?thesis using s small unfolding placed_def x by (simp only: fst_conv snd_conv nat_int) auto
    qed
  qed
  then show ?thesis
    using demux_fragment [of "mxSeq m" ?z "?v @ ?a"] small fst mdat
    by (simp add: fragment_bytes_def len)
qed

text \<open>A fragment that was built had what it needs: the audio samples of a muxer without an audio track make it throw.\<close>

lemma traf_needs: "traf track base ss = Inr b \<Longrightarrow> 0 \<le> base \<and> base < 2 ^ 64"
  by (auto simp: traf_def write_u64be_def res_bind_def split: if_splits)

lemma fragment_needs:
  assumes "buildFragment m = (Inr b, m')" "fragment_size m < 2 ^ 31" "samples_ok (mxSamples m)" "samples_ok (mxAudioSamples m)"
  shows "fragment_ready m"
proof -
  let ?audio = "if hasAudioTrack m \<and> mxAudioSamples m \<noteq> [] then Some (mxAudioBaseDecodeTime m, mxAudioSamples m) else None"
  obtain head where head: "moof (mxSeq m) (mxBaseDecodeTime m) (mxSamples m) ?audio = Inr head"
  proof (cases "moof (mxSeq m) (mxBaseDecodeTime m) (mxSamples m) ?audio")
    case (Inl e)
    then show ?thesis using assms(1) unfolding buildFragment_def by (simp only: act_simps Let_def act_bind_def prod.case sum.case Inl) simp
  qed
  have video: "0 \<le> mxBaseDecodeTime m \<and> mxBaseDecodeTime m < 2 ^ 64"
    using head traf_needs [of 1 "mxBaseDecodeTime m" "mxSamples m"] by (auto simp: moof_def res_bind_Inr_conv)
  show ?thesis
  proof (cases "mxAudioSamples m = [] \<or> hasAudioTrack m")
    case True
    then have "mxAudioSamples m \<noteq> [] \<longrightarrow> hasAudioTrack m \<and> 0 \<le> mxAudioBaseDecodeTime m \<and> mxAudioBaseDecodeTime m < 2 ^ 64"
      using head traf_needs [of 2 "mxAudioBaseDecodeTime m" "mxAudioSamples m"] by (auto simp: moof_def res_bind_Inr_conv)
    then show ?thesis using assms(2-4) video by (simp add: fragment_ready_def)
  next
    case False
    let ?rs = "[(1, mxBaseDecodeTime m, mxSamples m)] :: run_spec list"
    have h: "head = moof_of (mxSeq m) (map (\<lambda>r. (r, 0)) ?rs)"
      using head moof_box [of "mxBaseDecodeTime m" "mxSamples m" None "mxSeq m"] video False
      by (simp add: specs_of_def bases_ok_def)
    have len: "length head = 88 + 12 * length (mxSamples m)" by (simp add: h length_moof_of)
    have "patchTrunDataOffsets ([int (length head + 8)] @ [int (length head + 8) + int (length (media_bytes (mxSamples m)))]) head =
        Inl (UserError ''fMP4 muxer: trun count does not match data offsets'')"
      unfolding h by (subst patch_moof)
        (use assms(2) False len [unfolded h] in \<open>simp_all add: offsets_ok_def specs_ok_def fragment_size_def\<close>)
    then show ?thesis
      using assms(1) False unfolding buildFragment_def by (simp add: act_bind_def Let_def head)
  qed
qed

section \<open>A recording\<close>

datatype mux_event = VideoIn live_frame int | AudioIn audio_frame int

fun mux_step :: "mux_event \<Rightarrow> media_fragment option mux" where
  "mux_step (VideoIn f t) = fmp4_push f t"
| "mux_step (AudioIn f t) = fmp4_pushAudio f t"

definition mux_run :: "mux_event list \<Rightarrow> muxer \<Rightarrow> (js_error + media_fragment option) list \<times> muxer" where
  "mux_run evs m = foldl (\<lambda>(rs, m) e. case mux_step e m of (r, m1) \<Rightarrow> (rs @ [r], m1)) ([], m) evs"

text \<open>The decode times of the samples of a track, and those of the video track of what an operation returned.\<close>

fun timed :: "int \<Rightarrow> mp4_sample list \<Rightarrow> (int \<times> buffer \<times> bool) list" where
  "timed x [] = []"
| "timed x (s # ss) = (x, smData s, smKeyframe s) # timed (x + smDuration s) ss"

definition video_of :: "js_error + media_fragment option \<Rightarrow> (int \<times> buffer \<times> bool) list" where
  "video_of r =
     (case r of
        Inr (Some f) \<Rightarrow> (case demux (mfData f) of Some (_, v # _) \<Rightarrow> timed (int (trBase v)) (trSamples v) | _ \<Rightarrow> [])
      | _ \<Rightarrow> [])"

text \<open>The frames a recording has: those from the first keyframe with parameter sets the muxer takes on.\<close>

fun videos :: "mux_event list \<Rightarrow> (live_frame \<times> int) list" where
  "videos [] = []"
| "videos (VideoIn f t # es) = (f, t) # videos es"
| "videos (AudioIn f t # es) = videos es"

fun event_time :: "mux_event \<Rightarrow> int" where
  "event_time (VideoIn f t) = t"
| "event_time (AudioIn f t) = t"

definition opens :: "live_frame \<Rightarrow> bool" where
  "opens f \<longleftrightarrow> fKeyframe f \<and> (case extractParamSets (fData f) of None \<Rightarrow> False | Some ps \<Rightarrow> codec ps \<noteq> AV1)"

definition accepted :: "mux_event list \<Rightarrow> (live_frame \<times> int) list" where
  "accepted evs = dropWhile (\<lambda>(f, t). \<not> opens f) (videos evs)"

text \<open>
  Where the frames stand on a timeline from an instant on. A frame lasts to the stamp of the next one; where that
  is not later, it lasts for the duration a frame has by default.
\<close>

definition gap :: "int \<Rightarrow> int \<Rightarrow> int \<Rightarrow> int" where
  "gap d w t = (if w < t then 90 * (t - w) else d)"

fun on_timeline :: "int \<Rightarrow> int \<Rightarrow> (live_frame \<times> int) list \<Rightarrow> (int \<times> buffer \<times> bool) list" where
  "on_timeline d x [] = []"
| "on_timeline d x ((f, t) # fs) =
     (x, annexbToAvcc (fData f), fKeyframe f) # on_timeline d (x + (case fs of [] \<Rightarrow> 0 | y # _ \<Rightarrow> gap d t (snd y))) fs"

text \<open>Frames of rising stamps stand at their distance from the first.\<close>

lemma on_timeline_rising:
  "sorted_wrt (<) (map snd fs) \<Longrightarrow>
    on_timeline d x fs = map (\<lambda>(f, t). (x + 90 * (t - snd (hd fs)), annexbToAvcc (fData f), fKeyframe f)) fs"
proof (induction d x fs rule: on_timeline.induct)
  case (2 d x f t fs)
  show ?case
  proof (cases fs)
    case (Cons y ys)
    have "t < snd y" using 2(2) by (simp add: Cons)
    then show ?thesis using 2 by (auto simp: Cons gap_def algebra_simps)
  qed simp
qed simp

lemma videos_snoc: "videos (evs @ [VideoIn f t]) = videos evs @ [(f, t)]" "videos (evs @ [AudioIn g t]) = videos evs"
  by (induction evs rule: videos.induct) simp_all

lemma accepted_snoc:
  "accepted (evs @ [VideoIn f t]) = (if accepted evs = [] \<and> \<not> opens f then [] else accepted evs @ [(f, t)])"
  "accepted (evs @ [AudioIn g t]) = accepted evs"
  by (auto simp: accepted_def videos_snoc dropWhile_append dropWhile_eq_Nil_conv)

lemma run_snoc: "mux_run (evs @ [e]) m = (case mux_run evs m of (rs, m1) \<Rightarrow> case mux_step e m1 of (r, m2) \<Rightarrow> (rs @ [r], m2))"
  by (simp add: mux_run_def split: prod.split)

subsection \<open>Samples that fill the time between frames\<close>

definition is_of :: "mp4_sample \<Rightarrow> live_frame \<Rightarrow> bool" where
  "is_of s f \<longleftrightarrow> smData s = annexbToAvcc (fData f) \<and> smKeyframe s = fKeyframe f"

text \<open>The samples of frames whose last one lasts to an instant; and those whose last one is still open.\<close>

fun covers :: "int \<Rightarrow> mp4_sample list \<Rightarrow> (live_frame \<times> int) list \<Rightarrow> int \<Rightarrow> bool" where
  "covers d [] fs t \<longleftrightarrow> fs = []"
| "covers d (s # ss) [] t \<longleftrightarrow> False"
| "covers d (s # ss) ((f, w) # fs) t \<longleftrightarrow>
     is_of s f \<and> smDuration s = gap d w (case fs of [] \<Rightarrow> t | x # _ \<Rightarrow> snd x) \<and> covers d ss fs t"

definition tiles :: "int \<Rightarrow> mp4_sample list \<Rightarrow> (live_frame \<times> int) list \<Rightarrow> bool" where
  "tiles d ss fs \<longleftrightarrow> ss \<noteq> [] \<and> fs \<noteq> [] \<and> is_of (last ss) (fst (last fs)) \<and> smDuration (last ss) = d \<and>
     covers d (butlast ss) (butlast fs) (snd (last fs))"

lemma covers_snoc:
  "covers d ss fs w \<Longrightarrow> is_of s f \<Longrightarrow> smDuration s = gap d w t \<Longrightarrow> covers d (ss @ [s]) (fs @ [(f, w)]) t"
  by (induction d ss fs w rule: covers.induct) (auto split: list.splits)

lemma tiles_snoc: "covers d ss fs t \<Longrightarrow> is_of s f \<Longrightarrow> smDuration s = d \<Longrightarrow> tiles d (ss @ [s]) (fs @ [(f, t)])"
  by (simp add: tiles_def)

lemma tiles_measured:
  assumes "tiles d (ss @ [s]) fs"
  shows "covers d (ss @ [s\<lparr>smDuration := gap d (snd (last fs)) t\<rparr>]) fs t"
proof -
  have "covers d (ss @ [s\<lparr>smDuration := gap d (snd (last fs)) t\<rparr>]) (butlast fs @ [(fst (last fs), snd (last fs))]) t"
    using assms by (intro covers_snoc) (simp_all add: tiles_def is_of_def)
  then show ?thesis using assms by (simp add: tiles_def)
qed

lemma timed_append: "timed x (a @ b) = timed x a @ timed (x + ticks a) b"
  by (induction a arbitrary: x) (simp_all add: ticks_def add.assoc)

lemma timed_covers: "covers d ss fs w \<Longrightarrow> is_of z f \<Longrightarrow> timed x (ss @ [z]) = on_timeline d x (fs @ [(f, w)])"
  by (induction d ss fs w arbitrary: x rule: covers.induct) (auto simp: is_of_def split: list.splits)

lemma timed_tiles:
  assumes "tiles d ss fs"
  shows "timed x ss = on_timeline d x fs"
  using timed_covers [of d "butlast ss" "butlast fs" "snd (last fs)" "last ss" "fst (last fs)" x] assms
  by (simp add: tiles_def)

subsection \<open>The muxer between two frames\<close>

definition dur_ok :: "mp4_sample list \<Rightarrow> bool" where
  "dur_ok ss \<longleftrightarrow> (\<forall>s \<in> set ss. 0 \<le> smDuration s \<and> smDuration s < 4294967296)"

text \<open>Less than thirteen hours from an instant, so that any distance in ticks is below \<open>2 ^ 32\<close>.\<close>

definition within_hours :: "int \<Rightarrow> int \<Rightarrow> bool" where
  "within_hours t0 t \<longleftrightarrow> t0 \<le> t \<and> t < t0 + 47721858"

definition mux_bounds :: "int \<Rightarrow> int \<Rightarrow> muxer \<Rightarrow> bool" where
  "mux_bounds t0 d m \<longleftrightarrow>
     mxFirstDuration m = d \<and> 0 \<le> d \<and> d < 4294967296 \<and> dur_ok (mxSamples m) \<and> dur_ok (mxAudioSamples m) \<and>
     (\<forall>t. mxLastAudio m = Some t \<longrightarrow> within_hours t0 t)"

text \<open>A muxer that has its parameter sets, after closing some samples, with the time of its first frame.\<close>

definition mux_core :: "muxer \<Rightarrow> mp4_sample list \<Rightarrow> int \<Rightarrow> bool" where
  "mux_core m closed first \<longleftrightarrow>
     mxParams m \<noteq> None \<and> mxFirstVideo m = Some first \<and> (mxInitSent m \<longrightarrow> mxAligned m) \<and>
     (if mxAligned m then mxOrigin m \<noteq> None \<and> mxBaseDecodeTime m = 90 * (first - the (mxOrigin m)) + ticks closed
      else closed = [])"

definition mux_blank :: "muxer \<Rightarrow> bool" where
  "mux_blank m \<longleftrightarrow> mxParams m = None \<and> mxFirstVideo m = None \<and> mxLastVideo m = None \<and> mxSamples m = [] \<and>
     \<not> mxAligned m \<and> \<not> mxInitSent m"

definition mux_inv :: "int \<Rightarrow> int \<Rightarrow> muxer \<Rightarrow> mp4_sample list \<Rightarrow> (live_frame \<times> int) list \<Rightarrow> bool" where
  "mux_inv t0 d m closed acc \<longleftrightarrow>
     mux_bounds t0 d m \<and>
     (if acc = [] then mux_blank m \<and> closed = []
      else mux_core m closed (snd (hd acc)) \<and> mxLastVideo m = Some (snd (last acc)) \<and> within_hours t0 (snd (last acc)) \<and>
        mxSamples m \<noteq> [] \<and> tiles d (closed @ mxSamples m) acc)"

definition start_of :: "muxer \<Rightarrow> int \<Rightarrow> int" where
  "start_of m first = 90 * (first - the (mxOrigin m))"

text \<open>What sending the init changes.\<close>

lemma align_keeps:
  "mxParams (alignTimeline m) = mxParams m" "mxFirstVideo (alignTimeline m) = mxFirstVideo m"
  "mxLastVideo (alignTimeline m) = mxLastVideo m" "mxSamples (alignTimeline m) = mxSamples m"
  "mxInitSent (alignTimeline m) = mxInitSent m" "mxFirstDuration (alignTimeline m) = mxFirstDuration m"
  "mxAudioSamples (alignTimeline m) = mxAudioSamples m" "mxLastAudio (alignTimeline m) = mxLastAudio m"
  "mux_bounds t0 d (alignTimeline m) = mux_bounds t0 d m"
  by (simp_all add: alignTimeline_def mux_bounds_def Let_def split: option.split)

lemma align_core: "mux_core m closed first \<Longrightarrow> mux_core (alignTimeline m) closed first \<and> mxAligned (alignTimeline m)"
  by (auto simp: mux_core_def alignTimeline_def Let_def ticks_def TIMESCALE_def split: if_splits)

lemma align_origin: "mxAligned m \<Longrightarrow> alignTimeline m = m"
  by (simp add: alignTimeline_def)

lemma core_ext:
  "mxParams m' = mxParams m \<Longrightarrow> mxFirstVideo m' = mxFirstVideo m \<Longrightarrow> mxAligned m' = mxAligned m \<Longrightarrow> mxOrigin m' = mxOrigin m \<Longrightarrow>
   mxBaseDecodeTime m' = mxBaseDecodeTime m \<Longrightarrow> (mxInitSent m' \<longrightarrow> mxAligned m) \<Longrightarrow> mux_core m closed first \<Longrightarrow> mux_core m' closed first"
  by (simp add: mux_core_def)

lemma build_init_state: "snd (buildInit m) = alignTimeline m"
  by (simp add: buildInit_def act_bind_def act_lift_def split: option.split)

text \<open>
  An operation that leaves the video samples and the time of the last frame alone, may align the timeline, and
  sends nothing but the init.
\<close>

definition init_only :: "muxer \<Rightarrow> muxer \<Rightarrow> bool" where
  "init_only m m' \<longleftrightarrow>
     mxParams m' = mxParams m \<and> mxFirstVideo m' = mxFirstVideo m \<and> mxLastVideo m' = mxLastVideo m \<and>
     mxSamples m' = mxSamples m \<and> mxFirstDuration m' = mxFirstDuration m \<and>
     (mxAligned m \<longrightarrow> mxAligned m' \<and> mxOrigin m' = mxOrigin m \<and> mxBaseDecodeTime m' = mxBaseDecodeTime m) \<and>
     (mxInitSent m' \<and> \<not> mxInitSent m \<longrightarrow> mxParams m \<noteq> None) \<and>
     (\<forall>closed first. mux_core m closed first \<longrightarrow> mux_core m' closed first) \<and> (mux_blank m \<longrightarrow> mux_blank m')"

lemma init_only_trans: "init_only a b \<Longrightarrow> init_only b c \<Longrightarrow> init_only a c"
  unfolding init_only_def by (metis (no_types))

lemma init_only_align: "init_only m (alignTimeline m)"
  using align_core by (auto simp: init_only_def align_keeps alignTimeline_def mux_blank_def Let_def split: option.split)

lemma init_only_sent: "mxParams m \<noteq> None \<Longrightarrow> init_only m ((alignTimeline m)\<lparr>mxInitSent := True\<rparr>)"
proof -
  assume p: "mxParams m \<noteq> None"
  have "mux_core ((alignTimeline m)\<lparr>mxInitSent := True\<rparr>) closed first" if "mux_core m closed first" for closed first
    using align_core [OF that] by (simp add: mux_core_def)
  then show ?thesis using p init_only_align [of m] by (auto simp: init_only_def mux_blank_def)
qed

lemma init_only_same:
  assumes "mxParams m' = mxParams m" "mxFirstVideo m' = mxFirstVideo m" "mxLastVideo m' = mxLastVideo m" "mxSamples m' = mxSamples m"
    "mxFirstDuration m' = mxFirstDuration m" "mxAligned m' = mxAligned m" "mxOrigin m' = mxOrigin m"
    "mxBaseDecodeTime m' = mxBaseDecodeTime m" "mxInitSent m' = mxInitSent m"
  shows "init_only m m'"
  using assms by (simp add: init_only_def mux_core_def mux_blank_def)

definition audio_same :: "muxer \<Rightarrow> muxer \<Rightarrow> bool" where
  "audio_same m m' \<longleftrightarrow> mxAudioSamples m' = mxAudioSamples m \<and> mxLastAudio m' = mxLastAudio m"

lemma audio_same_trans: "audio_same a b \<Longrightarrow> audio_same b c \<Longrightarrow> audio_same a c"
  by (simp add: audio_same_def)

lemma demux_empty: "demux [] = None"
  by (simp add: demux_def read_boxes.simps)

lemma align_sent: "alignTimeline (m\<lparr>mxInitSent := True\<rparr>) = (alignTimeline m)\<lparr>mxInitSent := True\<rparr>"
  by (simp add: alignTimeline_def Let_def split: option.split)

lemma announce_init_only:
  assumes "announce_init m = (r, m')"
  shows "init_only m m' \<and> audio_same m m' \<and> video_of r = []"
proof (cases "mxParams m = None \<or> mxInitSent m")
  case True
  then have "r = Inr None" "m' = m" using assms by (simp_all add: announce_init_def)
  then show ?thesis by (simp add: init_only_same audio_same_def video_of_def)
next
  case False
  obtain b m1 where b: "buildInit (m\<lparr>mxInitSent := True\<rparr>) = (b, m1)" by fastforce
  have m1: "m1 = (alignTimeline m)\<lparr>mxInitSent := True\<rparr>"
    using build_init_state [of "m\<lparr>mxInitSent := True\<rparr>"] b align_sent by simp
  have "m' = m1" "video_of r = []"
    using assms False b by (auto simp: announce_init_def act_bind_def video_of_def demux_empty split: sum.splits)
  then show ?thesis using init_only_sent [of m] False by (simp add: m1 audio_same_def align_keeps)
qed

lemma send_init_only:
  assumes "send_init m = (Inr i, m')" "mxParams m \<noteq> None"
  shows "init_only m m' \<and> audio_same m m' \<and> mxInitSent m' \<and> (mux_core m closed first \<longrightarrow> mxAligned m')"
proof -
  obtain b m1 where b: "buildInit m = (b, m1)" by fastforce
  have "m1 = alignTimeline m" using build_init_state [of m] b by simp
  then have "m' = (alignTimeline m)\<lparr>mxInitSent := True\<rparr>"
    using assms(1) b by (auto simp: send_init_def act_bind_def split: sum.splits)
  then show ?thesis using init_only_sent [OF assms(2)] align_core [of m closed first] by (auto simp: audio_same_def align_keeps)
qed

lemma init_first_only:
  assumes "init_first m = (Inr i, m')" "mux_core m closed first"
  shows "init_only m m' \<and> audio_same m m' \<and> mxAligned m' \<and> mux_core m' closed first"
proof (cases "mxInitSent m")
  case True
  then have "m' = m" using assms(1) by (simp add: init_first_def)
  then show ?thesis using assms(2) True by (simp add: init_only_same audio_same_def mux_core_def)
next
  case False
  let ?m = "m\<lparr>mxAudioDisabled := (mxAudioCodec m = None)\<rparr>"
  have s: "send_init ?m = (Inr i, m')" using assms(1) False by (simp add: init_first_def act_bind_def)
  have c: "mux_core ?m closed first" using assms(2) by (simp add: mux_core_def)
  have p: "mxParams ?m \<noteq> None" using assms(2) by (simp add: mux_core_def)
  have a: "init_only m ?m" "audio_same m ?m" by (simp_all add: init_only_same audio_same_def)
  have b: "init_only ?m m' \<and> audio_same ?m m' \<and> mxInitSent m' \<and> mxAligned m'" using send_init_only [OF s p, of closed first] c by simp
  have "mux_core m' closed first" using b c unfolding init_only_def by blast
  then show ?thesis using b init_only_trans [OF a(1)] audio_same_trans [OF a(2)] by blast
qed

lemma init_only_inv:
  assumes "init_only m m'" "mux_inv t0 d m closed acc" "mux_bounds t0 d m'"
  shows "mux_inv t0 d m' closed acc"
  using assms by (auto simp: mux_inv_def init_only_def split: if_splits)

lemma init_only_start:
  assumes "init_only m m'" "mux_inv t0 d m closed acc" "acc \<noteq> []"
  shows "timed (start_of m' first) closed = timed (start_of m first) closed"
  using assms by (cases "mxAligned m") (auto simp: mux_inv_def mux_core_def init_only_def start_of_def)

lemma same_bounds: "init_only m m' \<Longrightarrow> audio_same m m' \<Longrightarrow> mux_bounds t0 d m \<Longrightarrow> mux_bounds t0 d m'"
  by (simp add: mux_bounds_def init_only_def audio_same_def)

lemma dur_ok_append: "dur_ok (a @ b) \<longleftrightarrow> dur_ok a \<and> dur_ok b"
  by (auto simp: dur_ok_def)

lemma dur_ok_butlast: "dur_ok ss \<Longrightarrow> dur_ok (butlast ss)"
  by (auto simp: dur_ok_def dest: in_set_butlastD)

lemma dur_ok_one: "dur_ok [s] \<longleftrightarrow> 0 \<le> smDuration s \<and> smDuration s < 4294967296"
  by (simp add: dur_ok_def)

lemma place_audio_only: "init_only m (place_audio t m)"
  by (rule init_only_same) (simp_all add: place_audio_def Let_def)

lemma place_audio_bounds:
  assumes "mux_bounds t0 d m" "within_hours t0 t"
  shows "mux_bounds t0 d (place_audio t m)"
proof -
  have d: "dur_ok (butlast (mxAudioSamples m))" using assms(1) by (simp add: mux_bounds_def dur_ok_butlast)
  have "0 \<le> (t - w) * 16 \<longrightarrow> (t - w) * 16 < 4294967296" if "mxLastAudio m = Some w" for w
    using assms that by (simp add: mux_bounds_def within_hours_def)
  then show ?thesis using assms d
    by (auto simp: place_audio_def mux_bounds_def Let_def AAC_SAMPLE_RATE_def dur_ok_append dur_ok_one split: option.splits)
qed

lemma audio_step:
  assumes "fmp4_pushAudio f t m = (r, m')" "mux_inv t0 d m closed acc" "within_hours t0 t"
  shows "mux_inv t0 d m' closed acc \<and> video_of r = [] \<and> init_only m m'"
proof -
  have bounds: "mux_bounds t0 d m" using assms(2) by (simp add: mux_inv_def)
  have only: "mux_inv t0 d m' closed acc \<and> video_of r = [] \<and> init_only m m'"
    if "init_only m m'" "mux_bounds t0 d m'" "video_of r = []"
    using that init_only_inv [OF that(1) assms(2) that(2)] by simp
  have sent: ?thesis if "init_only m n" "mux_bounds t0 d n" "announce_init n = (r, m')" for n
    using only announce_init_only [OF that(3)] same_bounds [OF _ _ that(2), of m'] init_only_trans [OF that(1)] by blast
  have silent: ?thesis if "(Inr None, m) = (r, m')"
    using that only bounds by (auto simp: video_of_def init_only_same)
  show ?thesis
  proof (cases "\<not> mxAudioRequested m \<or> mxAudioDisabled m")
    case True
    show ?thesis by (rule silent) (use assms(1) True in \<open>simp add: fmp4_pushAudio_def\<close>)
  next
    case on: False
    show ?thesis
    proof (cases "aCodec f = G711a")
      case True
      show ?thesis
      proof (cases "mxInitSent m")
        case True
        show ?thesis by (rule silent) (use assms(1) on True \<open>aCodec f = G711a\<close> in \<open>simp add: fmp4_pushAudio_def\<close>)
      next
        case False
        then show ?thesis using assms(1) on True bounds sent [of "m\<lparr>mxAudioDisabled := True\<rparr>"]
          by (simp add: fmp4_pushAudio_def act_bind_def init_only_same mux_bounds_def)
      qed
    next
      case aac: False
      have off: ?thesis if "disableAudio m = (r, m')"
        using that bounds sent [of "m\<lparr>mxAudioDisabled := True, mxAudioSamples := []\<rparr>"]
        by (simp add: disableAudio_def act_bind_def init_only_same mux_bounds_def dur_ok_def)
      have thrown: ?thesis if "act_lift (Inl e) m = (r, m')" for e
        using that only bounds by (auto simp: video_of_def init_only_same act_lift_def)
      show ?thesis
      proof (cases "mxAudioCodec m \<noteq> None \<and> mxAudioCodec m \<noteq> Some (aCodec f)")
        case True
        then show ?thesis using assms(1) on aac off by (simp add: fmp4_pushAudio_def)
      next
        case same: False
        show ?thesis
        proof (cases "parseAdtsHeader (aData f) 0")
          case None
          then show ?thesis using assms(1) on aac same thrown by (auto simp: fmp4_pushAudio_def)
        next
          case (Some h)
          let ?m1 = "m\<lparr>mxAudioCodec := Some (aCodec f), mxFirstAudio := (case mxFirstAudio m of None \<Rightarrow> Some t | Some a \<Rightarrow> Some a)\<rparr>"
          let ?m2 = "(place_audio t ?m1)\<lparr>mxAudioSamples := mxAudioSamples (place_audio t ?m1) @ [audio_sample f h]\<rparr>"
          have one: "init_only m ?m1" "mux_bounds t0 d ?m1" using bounds by (simp_all add: init_only_same mux_bounds_def)
          have two: "init_only m (place_audio t ?m1)" using init_only_trans [OF one(1) place_audio_only] .
          have "init_only m ?m2" by (rule init_only_trans [OF two]) (simp add: init_only_same)
          moreover have "mux_bounds t0 d ?m2"
            using place_audio_bounds [OF one(2) assms(3)]
            by (simp add: mux_bounds_def dur_ok_append dur_ok_one audio_sample_def AAC_ELD_SAMPLES_PER_FRAME_def AAC_SAMPLES_PER_FRAME_def)
          ultimately have fin: "announce_init ?m2 = (r, m') \<Longrightarrow> ?thesis" using sent [of ?m2] by blast
          show ?thesis using assms(1) on aac same thrown off fin
            by (auto simp: fmp4_pushAudio_def Some act_bind_def split: if_splits)
        qed
      qed
    qed
  qed
qed

subsection \<open>A frame\<close>

text \<open>The muxer once the sample before has its duration.\<close>

definition mux_due :: "int \<Rightarrow> int \<Rightarrow> muxer \<Rightarrow> mp4_sample list \<Rightarrow> (live_frame \<times> int) list \<Rightarrow> int \<Rightarrow> int \<Rightarrow> bool" where
  "mux_due t0 d m closed acc first t \<longleftrightarrow>
     mux_bounds t0 d m \<and> mux_core m closed first \<and> mxLastVideo m = Some t \<and> covers d (closed @ mxSamples m) acc t"

lemma media_bytes_append: "media_bytes (a @ b) = media_bytes a @ media_bytes b"
  by (simp add: media_bytes_def)

lemma sample_within: "s \<in> set ss \<Longrightarrow> length (smData s) \<le> length (media_bytes ss)"
  by (induction ss) (auto simp: media_bytes_def)

lemma samples_fit:
  assumes "dur_ok ss" "length (media_bytes ss) < 4294967296"
  shows "samples_ok ss"
proof -
  have "length (smData s) < 4294967296" if "s \<in> set ss" for s
    using sample_within [OF that] assms(2) by (rule le_less_trans)
  then show ?thesis using assms(1) unfolding samples_ok_def dur_ok_def by blast
qed

lemma unmeasured:
  "mxSamples m = ss @ [s] \<Longrightarrow> smDuration s = d \<Longrightarrow>
    m\<lparr>mxFragTicks := mxFragTicks m, mxSamples := ss @ [s\<lparr>smDuration := d\<rparr>], mxLastVideo := x\<rparr> = m\<lparr>mxLastVideo := x\<rparr>"
  by (cases m; cases s) simp

lemma measure_due:
  assumes "mux_inv t0 d m closed acc" "acc \<noteq> []" "within_hours t0 t"
  shows "mux_due t0 d (measure_last t m) closed acc (snd (hd acc)) t \<and> start_of (measure_last t m) first = start_of m first \<and>
    fragment_size (measure_last t m) = fragment_size m"
proof -
  obtain w where w: "mxLastVideo m = Some w" "snd (last acc) = w" "within_hours t0 w" using assms(1,2) by (auto simp: mux_inv_def)
  obtain ss s where ss: "mxSamples m = ss @ [s]" using assms(1,2) by (cases "mxSamples m" rule: rev_cases) (auto simp: mux_inv_def)
  have c: "mux_core m closed (snd (hd acc))" "tiles d ((closed @ ss) @ [s]) acc" "mux_bounds t0 d m"
    using assms(1,2) by (simp_all add: mux_inv_def ss)
  have dur: "smDuration s = d" using c(2) by (simp add: tiles_def)
  have g: "0 \<le> gap d w t" "gap d w t < 4294967296"
    using c(3) assms(3) w by (auto simp: gap_def within_hours_def mux_bounds_def)
  have m: "measure_last t m = m\<lparr>mxFragTicks := mxFragTicks m + (gap d w t - smDuration s),
      mxSamples := ss @ [s\<lparr>smDuration := gap d w t\<rparr>], mxLastVideo := Some t\<rparr>"
    using unmeasured [OF ss dur] by (cases "w < t") (simp_all add: measure_last_def w(1) ss TIMESCALE_def Let_def gap_def dur mult.commute)
  have b: "mux_bounds t0 d (measure_last t m)" using c(3) g by (simp add: m mux_bounds_def dur_ok_append dur_ok_one ss)
  have "covers d (closed @ mxSamples (measure_last t m)) acc t"
    using tiles_measured [OF c(2), of t] by (simp add: m w(2))
  moreover have "mux_core (measure_last t m) closed (snd (hd acc))" using c(1) by (simp add: m mux_core_def)
  ultimately show ?thesis using b by (simp add: mux_due_def m start_of_def fragment_size_def ss media_bytes_append media_bytes_def)
qed

lemma opening_due:
  assumes "mux_inv t0 d m [] []" "takes_params f t m = Some m1"
  shows "mux_due t0 d (measure_last t m1) [] [] t t \<and> fragment_size (measure_last t m1) = fragment_size m \<and> opens f"
proof -
  have b: "mux_bounds t0 d m" and e: "mxParams m = None" "mxLastVideo m = None" "mxSamples m = []" "\<not> mxAligned m" "\<not> mxInitSent m"
    using assms(1) by (simp_all add: mux_inv_def mux_blank_def)
  obtain ps where ps: "fKeyframe f" "extractParamSets (fData f) = Some ps" "codec ps \<noteq> AV1"
    using assms(2) e(1) by (auto simp: takes_params_def split: if_splits option.splits)
  define w h where "w = (case codedGeometry ps of Some g \<Rightarrow> gWidth g | None \<Rightarrow> fWidth f)"
    and "h = (case codedGeometry ps of Some g \<Rightarrow> gHeight g | None \<Rightarrow> fHeight f)"
  then have m1: "m1 = m\<lparr>mxParams := Some ps, mxCodec := codec ps, mxWidth := w, mxHeight := h, mxFirstVideo := Some t\<rparr>"
    using assms(2) e(1) ps by (simp add: takes_params_def)
  have "measure_last t m1 = m1\<lparr>mxLastVideo := Some t\<rparr>" using e by (simp add: m1 measure_last_def)
  then show ?thesis using b e ps by (simp add: m1 mux_due_def mux_core_def mux_bounds_def opens_def fragment_size_def)
qed

lemma not_taken: "mux_inv t0 d m [] [] \<Longrightarrow> takes_params f t m = None \<longleftrightarrow> \<not> opens f"
  by (simp add: takes_params_def mux_inv_def mux_blank_def opens_def split: option.split)

text \<open>What the fragment just closed adds, if there is one.\<close>

definition part_of :: "buffer option \<Rightarrow> (int \<times> buffer \<times> bool) list" where
  "part_of b = video_of (Inr (Some \<lparr>mfInit = None, mfData = (case b of Some x \<Rightarrow> x | None \<Rightarrow> []), mfKeyframe = True\<rparr>))"

lemma fragment_part:
  assumes "buildFragment m = (Inr b, m')" "mux_bounds t0 d m" "mux_core m closed first" "mxAligned m" "fragment_size m < 2 ^ 31"
  shows "m' = after_fragment m \<and> part_of (Some b) = timed (start_of m first + ticks closed) (mxSamples m)"
proof -
  have "length (media_bytes (mxSamples m)) < 4294967296" "length (media_bytes (mxAudioSamples m)) < 4294967296"
    using assms(5) by (simp_all add: fragment_size_def split: if_splits)
  then have "samples_ok (mxSamples m)" "samples_ok (mxAudioSamples m)"
    using assms(2) samples_fit by (simp_all add: mux_bounds_def)
  then have r: "fragment_ready m" using fragment_needs [OF assms(1,5)] by simp
  then have "b = fragment_bytes m" "m' = after_fragment m" using fragment_built assms(1) by simp_all
  moreover have "0 \<le> mxBaseDecodeTime m" using r by (simp add: fragment_ready_def)
  moreover have "start_of m first + ticks closed = mxBaseDecodeTime m" using assms(3,4) by (simp add: mux_core_def start_of_def)
  ultimately show ?thesis using fragment_demux [OF r] by (simp add: part_of_def video_of_def track_specs_def run_of_def)
qed

lemma close_due:
  assumes "close_fragment f m = (Inr (i, b), m')" "mux_due t0 d m closed acc first t" "fragment_size m < 2 ^ 31"
  shows "\<exists>closed'. mux_due t0 d m' closed' acc first t \<and> timed (start_of m first) closed @ part_of b = timed (start_of m' first) closed'"
proof (cases "at_boundary f m")
  case False
  then have "m' = m" "b = None" using assms(1) by (simp_all add: close_fragment_def)
  then show ?thesis using assms(2) by (intro exI [of _ closed]) (simp add: part_of_def video_of_def demux_empty)
next
  case True
  obtain m1 where i: "init_first m = (Inr i, m1)" and c: "act_bind buildFragment (\<lambda>x. act_return (i, Some x)) m1 = (Inr (i, b), m')"
    using assms(1) True by (auto simp: close_fragment_def act_bind_def split: prod.splits sum.splits)
  obtain x where x: "buildFragment m1 = (Inr x, m')" "b = Some x"
    using c by (auto simp: act_bind_def split: prod.splits sum.splits)
  have d: "mux_bounds t0 d m" "mux_core m closed first" "mxLastVideo m = Some t" "covers d (closed @ mxSamples m) acc t"
    using assms(2) by (simp_all add: mux_due_def)
  have o1: "init_only m m1" "audio_same m m1" "mxAligned m1" "mux_core m1 closed first" using init_first_only [OF i d(2)] by simp_all
  have b1: "mux_bounds t0 d m1" using same_bounds [OF o1(1,2) d(1)] .
  have s1: "mxSamples m1 = mxSamples m" "mxLastVideo m1 = Some t" using o1(1) d(3) by (simp_all add: init_only_def)
  have f1: "fragment_size m1 < 2 ^ 31" using assms(3) o1(2) by (simp add: fragment_size_def s1 audio_same_def)
  have m': "m' = after_fragment m1" "part_of (Some x) = timed (start_of m1 first + ticks closed) (mxSamples m)"
    using fragment_part [OF x(1) b1 o1(4,3) f1] by (simp_all add: s1)
  have st: "timed (start_of m first) closed = timed (start_of m1 first) closed"
    using o1(1) d(2) by (cases "mxAligned m") (simp_all add: init_only_def mux_core_def start_of_def)
  have "mux_due t0 d m' (closed @ mxSamples m) acc first t"
    using b1 o1(3,4) s1 d(4) by (simp add: mux_due_def m' after_fragment_def mux_bounds_def dur_ok_def mux_core_def ticks_def)
  moreover have "start_of m' first = start_of m1 first" by (simp add: m' after_fragment_def start_of_def)
  ultimately show ?thesis using m'(2) st x(2) by (intro exI [of _ "closed @ mxSamples m"]) (simp add: timed_append)
qed

text \<open>The sample goes in, and the init may go out.\<close>

lemma add_due:
  assumes "mux_due t0 d m closed acc first t" "within_hours t0 t" "first = snd (hd (acc @ [(f, t)]))"
  shows "mux_inv t0 d (add_sample f m) closed (acc @ [(f, t)]) \<and> start_of (add_sample f m) first = start_of m first"
proof -
  have "tiles d ((closed @ mxSamples m) @ [\<lparr>smData = annexbToAvcc (fData f), smDuration = mxFirstDuration m, smKeyframe = fKeyframe f\<rparr>])
      (acc @ [(f, t)])"
    using assms(1) by (intro tiles_snoc) (simp_all add: mux_due_def is_of_def mux_bounds_def)
  then show ?thesis using assms
    by (simp add: mux_inv_def mux_due_def add_sample_def mux_bounds_def dur_ok_append dur_ok_one mux_core_def start_of_def)
qed

lemma segment_part: "segment_of i b m = (Inr x, m') \<Longrightarrow> m' = m \<and> video_of (Inr x) = part_of b"
  by (auto simp: segment_of_def video_of_def part_of_def demux_empty split: if_splits)

lemma finish_push:
  assumes "push_result i b m = (Inr x, m')" "mux_inv t0 d m closed acc" "acc \<noteq> []"
  shows "mux_inv t0 d m' closed acc \<and> video_of (Inr x) = part_of b \<and> init_only m m'"
proof -
  have p: "mxParams m \<noteq> None" and bd: "mux_bounds t0 d m" using assms(2,3) by (simp_all add: mux_inv_def mux_core_def)
  show ?thesis
  proof (cases "\<not> mxInitSent m \<and> (\<not> mxAudioRequested m \<or> mxAudioCodec m \<noteq> None \<or> mxAudioDisabled m)")
    case False
    then have "act_bind (act_return i) (\<lambda>i2. segment_of i2 b) m = (Inr x, m')"
      using assms(1) by (simp add: push_result_def act_bind_def split: if_splits)
    then have "segment_of i b m = (Inr x, m')" by (simp add: act_bind_def)
    from segment_part [OF this] show ?thesis using assms(2) by (simp add: init_only_same)
  next
    case True
    obtain j n where s: "send_init m = (Inr j, n)" and r: "segment_of j b n = (Inr x, m')"
      using assms(1) True by (auto simp: push_result_def act_bind_def split: prod.splits sum.splits)
    have o1: "init_only m n" "audio_same m n" using send_init_only [OF s p] by simp_all
    show ?thesis using segment_part [OF r] init_only_inv [OF o1(1) assms(2) same_bounds [OF o1 bd]] o1(1) by simp
  qed
qed

lemma push_parts:
  assumes "fmp4_push f t m = (Inr x, m')" "takes_params f t m = Some m1"
  obtains i b m3 where "close_fragment f (measure_last t m1) = (Inr (i, b), m3)"
    "push_result i b (add_sample f m3) = (Inr x, m')"
proof -
  have av: "fCodec f \<noteq> AV1" using assms(1) by (auto simp: fmp4_push_def)
  obtain c m3 where c: "close_fragment f (measure_last t m1) = (c, m3)" by fastforce
  obtain i b where ib: "c = Inr (i, b)" using assms av c by (cases c) (auto simp: fmp4_push_def act_bind_def)
  show ?thesis
    by (rule that [of i b m3]) (use assms av c ib in \<open>simp_all add: fmp4_push_def act_bind_def\<close>)
qed

lemma init_start: "init_only m m' \<Longrightarrow> mux_core m closed first \<Longrightarrow> timed (start_of m' first) closed = timed (start_of m first) closed"
  by (cases "mxAligned m") (simp_all add: init_only_def mux_core_def start_of_def)

lemma video_step:
  assumes "fmp4_push f t m = (Inr x, m')" "mux_inv t0 d m closed acc" "within_hours t0 t"
    "fragment_size m < 2 ^ 31" "first = snd (hd (acc @ [(f, t)]))" "acc \<noteq> [] \<or> opens f"
  shows "\<exists>closed'. mux_inv t0 d m' closed' (acc @ [(f, t)]) \<and>
    timed (start_of m first) closed @ video_of (Inr x) = timed (start_of m' first) closed'"
proof -
  obtain m1 where m1: "takes_params f t m = Some m1"
    "mux_due t0 d (measure_last t m1) closed acc first t" "fragment_size (measure_last t m1) < 2 ^ 31"
    "timed (start_of (measure_last t m1) first) closed = timed (start_of m first) closed"
  proof (cases "acc = []")
    case True
    then have i: "mux_inv t0 d m [] []" "closed = []" using assms(2) by (simp_all add: mux_inv_def)
    obtain n where "takes_params f t m = Some n" using not_taken [OF i(1), of f t] assms(6) True by auto
    then show ?thesis using that [of n] opening_due [OF i(1)] assms(4,5) True i(2) by simp
  next
    case False
    then have "takes_params f t m = Some m" using assms(2) by (simp add: takes_params_def mux_inv_def mux_core_def)
    then show ?thesis using that [of m] measure_due [OF assms(2) False assms(3), of first] assms(4,5) False by simp
  qed
  obtain i b m3 where c: "close_fragment f (measure_last t m1) = (Inr (i, b), m3)"
    and r: "push_result i b (add_sample f m3) = (Inr x, m')"
    by (rule push_parts [OF assms(1) m1(1)])
  obtain closed' where d: "mux_due t0 d m3 closed' acc first t"
    "timed (start_of (measure_last t m1) first) closed @ part_of b = timed (start_of m3 first) closed'"
    using close_due [OF c m1(2,3)] by blast
  have a: "mux_inv t0 d (add_sample f m3) closed' (acc @ [(f, t)])" "start_of (add_sample f m3) first = start_of m3 first"
    using add_due [OF d(1) assms(3,5)] by simp_all
  have z: "mux_inv t0 d m' closed' (acc @ [(f, t)])" "video_of (Inr x) = part_of b" "init_only (add_sample f m3) m'"
    using finish_push [OF r a(1)] by simp_all
  have "mux_core (add_sample f m3) closed' first" using a(1) assms(5) by (simp add: mux_inv_def)
  then have s: "timed (start_of m' first) closed' = timed (start_of m3 first) closed'" using init_start [OF z(3)] a(2) by simp
  show ?thesis by (rule exI [of _ closed']) (simp only: z(1,2) s m1(4) [symmetric] d(2) simp_thms)
qed

lemma waiting_step:
  assumes "fmp4_push f t m = (Inr x, m')" "mux_inv t0 d m [] []" "\<not> opens f"
  shows "m' = m \<and> video_of (Inr x) = []"
proof -
  have "takes_params f t m = None" using not_taken [OF assms(2)] assms(3) by simp
  then show ?thesis using assms(1) by (auto simp: fmp4_push_def video_of_def split: if_splits)
qed

text \<open>The muxer and what it has emitted, after any events.\<close>

definition run_ok :: "int \<Rightarrow> mux_event list \<Rightarrow> muxer \<Rightarrow> bool" where
  "run_ok t0 evs m0 \<longleftrightarrow>
     (\<forall>r \<in> set (fst (mux_run evs m0)). \<exists>x. r = Inr x) \<and>
     (\<forall>e \<in> set evs. within_hours t0 (event_time e)) \<and>
     (\<forall>k \<le> length evs. fragment_size (snd (mux_run (take k evs) m0)) < 2 ^ 31)"

lemma run_ok_prefix:
  assumes "run_ok t0 (evs @ [e]) m0"
  shows "run_ok t0 evs m0"
proof -
  have z: "fragment_size (snd (mux_run (take k evs) m0)) < 2 ^ 31" if "k \<le> length evs" for k
    using assms that by (auto simp: run_ok_def dest: spec [of _ k])
  have "\<exists>x. r = Inr x" if "r \<in> set (fst (mux_run evs m0))" for r
    using assms that by (auto simp: run_ok_def run_snoc split: prod.splits)
  then show ?thesis using assms z by (simp add: run_ok_def)
qed

lemma run_recorded:
  assumes "run_ok t0 evs m0" "mux_inv t0 d m0 [] []" "mux_run evs m0 = (rs, m)" "first = snd (hd (accepted evs))"
  shows "\<exists>closed. mux_inv t0 d m closed (accepted evs) \<and> concat (map video_of rs) = timed (start_of m first) closed"
  using assms
proof (induction evs arbitrary: rs m first rule: rev_induct)
  case Nil
  then show ?case by (intro exI [of _ "[]"]) (simp add: mux_run_def accepted_def)
next
  case (snoc e evs)
  obtain rs1 m1 where r1: "mux_run evs m0 = (rs1, m1)" by fastforce
  obtain r where r: "mux_step e m1 = (r, m)" "rs = rs1 @ [r]"
    using snoc.prems(3) by (auto simp: run_snoc r1 split: prod.splits)
  obtain x where x: "r = Inr x" using snoc.prems(1,3) r(2) by (auto simp: run_ok_def)
  have w: "within_hours t0 (event_time e)" using snoc.prems(1) by (simp add: run_ok_def)
  have size: "fragment_size m1 < 2 ^ 31"
    using snoc.prems(1) r1 by (auto simp: run_ok_def dest: spec [of _ "length evs"])
  obtain closed where c: "mux_inv t0 d m1 closed (accepted evs)"
    "concat (map video_of rs1) = timed (start_of m1 (snd (hd (accepted evs)))) closed"
    using snoc.IH [OF run_ok_prefix [OF snoc.prems(1)] snoc.prems(2) r1 refl] by blast
  show ?case
  proof (cases e)
    case (AudioIn f t)
    have a: "mux_inv t0 d m closed (accepted evs) \<and> video_of r = [] \<and> init_only m1 m"
      using audio_step [OF _ c(1)] r(1) w AudioIn by simp
    have "timed (start_of m first) closed = timed (start_of m1 first) closed"
    proof (cases "accepted evs = []")
      case True
      then show ?thesis using c(1) by (simp add: mux_inv_def)
    next
      case False
      then show ?thesis using c(1) a snoc.prems(4) AudioIn by (intro init_start) (simp_all add: mux_inv_def accepted_snoc)
    qed
    then show ?thesis using a c snoc.prems(4) r(2) by (intro exI [of _ closed]) (simp add: AudioIn accepted_snoc)
  next
    case (VideoIn f t)
    have p: "fmp4_push f t m1 = (Inr x, m)" using r(1) x VideoIn by simp
    show ?thesis
    proof (cases "accepted evs = [] \<and> \<not> opens f")
      case True
      have "closed = []" using True c(1) by (simp add: mux_inv_def)
      moreover have "mux_inv t0 d m1 [] []" using True c(1) by (simp add: mux_inv_def)
      then have "m = m1 \<and> video_of (Inr x) = []" using waiting_step [OF p, of t0] True by blast
      ultimately show ?thesis using c r(2) x True by (intro exI [of _ "[]"]) (simp add: VideoIn accepted_snoc)
    next
      case False
      have f: "first = snd (hd (accepted evs @ [(f, t)]))" using snoc.prems(4) False by (simp add: VideoIn accepted_snoc)
      then obtain closed' where "mux_inv t0 d m closed' (accepted evs @ [(f, t)])"
        "timed (start_of m1 first) closed @ video_of (Inr x) = timed (start_of m first) closed'"
        using video_step [OF p c(1) _ size f] w False VideoIn by auto
      moreover have "timed (start_of m1 first) closed = concat (map video_of rs1)"
        using c f by (cases "accepted evs") (simp_all add: mux_inv_def)
      ultimately show ?thesis using False r(2) x by (intro exI [of _ closed']) (auto simp: VideoIn accepted_snoc)
    qed
  qed
qed

lemma flush_step:
  assumes "fmp4_flush m = (Inr x, m')" "mux_inv t0 d m closed acc" "fragment_size m < 2 ^ 31" "first = snd (hd acc)"
  shows "timed (start_of m first) closed @ video_of (Inr x) = on_timeline d (start_of m' first) acc"
proof (cases "acc = []")
  case True
  then have "mxSamples m = []" "closed = []" using assms(2) by (simp_all add: mux_inv_def mux_blank_def)
  then show ?thesis using assms(1) True by (simp add: fmp4_flush_def video_of_def)
next
  case False
  have i: "mux_core m closed first" "mux_bounds t0 d m" "mxSamples m \<noteq> []" "tiles d (closed @ mxSamples m) acc"
    using assms(2,4) False by (simp_all add: mux_inv_def)
  obtain j n where n: "init_first m = (Inr j, n)"
    and r: "act_bind buildFragment (\<lambda>b. act_return (Some \<lparr>mfInit = j, mfData = b, mfKeyframe = True\<rparr>)) n = (Inr x, m')"
    using assms(1) i(3) by (auto simp: fmp4_flush_def act_bind_def split: prod.splits sum.splits)
  obtain b where b: "buildFragment n = (Inr b, m')" "x = Some \<lparr>mfInit = j, mfData = b, mfKeyframe = True\<rparr>"
    using r by (auto simp: act_bind_def split: prod.splits sum.splits)
  have o: "init_only m n" "audio_same m n" "mxAligned n" "mux_core n closed first" using init_first_only [OF n i(1)] by simp_all
  have s: "mxSamples n = mxSamples m" using o(1) by (simp add: init_only_def)
  have z: "fragment_size n < 2 ^ 31" using assms(3) o(2) s by (simp add: fragment_size_def audio_same_def)
  have p: "m' = after_fragment n" "part_of (Some b) = timed (start_of n first + ticks closed) (mxSamples m)"
    using fragment_part [OF b(1) same_bounds [OF o(1,2) i(2)] o(4,3) z] by (simp_all add: s)
  have "timed (start_of m first) closed @ video_of (Inr x) = timed (start_of n first) (closed @ mxSamples m)"
    using p(2) init_start [OF o(1) i(1)] by (simp add: timed_append b(2) part_of_def video_of_def)
  also have "\<dots> = on_timeline d (start_of n first) acc" using timed_tiles [OF i(4)] assms(4) by simp
  also have "start_of n first = start_of m' first" by (simp add: p(1) after_fragment_def start_of_def)
  finally show ?thesis .
qed

text \<open>A frame rate whose frames last a whole number of ticks, or none.\<close>

definition fps_ok :: "fmp4_options \<Rightarrow> bool" where
  "fps_ok opts \<longleftrightarrow> (case foFps opts of None \<Rightarrow> True | Some n \<Rightarrow> 0 \<le> n \<and> (n \<noteq> 0 \<longrightarrow> TIMESCALE mod n = 0))"

lemma new_muxer_inv: "fps_ok opts \<Longrightarrow> mux_inv t0 (mxFirstDuration (new_muxer opts)) (new_muxer opts) [] []"
proof -
  have "0 < n \<Longrightarrow> 0 \<le> 90000 div n \<and> 90000 div n < (4294967296 :: int)" for n
    by (simp add: pos_imp_zdiv_nonneg_iff div_less_iff_less_mult) (use zdiv_mono2 [of 90000 1 n] in auto)
  then show "fps_ok opts \<Longrightarrow> ?thesis"
    by (auto simp: mux_inv_def mux_bounds_def mux_blank_def new_muxer_def fps_ok_def TIMESCALE_def DEFAULT_FRAME_TICKS_def dur_ok_def
        split: option.split)
qed

lemma accepted_rising: "sorted_wrt (<) (map snd (videos evs)) \<Longrightarrow> sorted_wrt (<) (map snd (accepted evs))"
proof -
  have "sorted_wrt (<) (map snd xs) \<Longrightarrow> sorted_wrt (<) (map snd (dropWhile P xs))" for P and xs :: "(live_frame \<times> int) list"
    by (induction xs) auto
  then show "sorted_wrt (<) (map snd (videos evs)) \<Longrightarrow> ?thesis" by (simp add: accepted_def)
qed

text \<open>
  C6. A recording is complete. Whatever video and audio frames are pushed, stamped in any order within thirteen
  hours, with no two gigabytes held at once, no operation throwing and a frame rate of whole ticks: the media
  fragments emitted and flushed, read by a player, hold exactly the video frames from the first usable keyframe
  on, in order, with their access units in length-prefixed form and their keyframe flags. Each stands where the
  frame before it ends, which lasts to the stamp of its successor, and for the default duration where that stamp
  is not later than its own. So where the stamps rise strictly each stands at its distance from the origin in
  ticks of the 90 kHz time scale, and where two frames share a stamp all that follow are late
  (\<open>tied_stamp_is_late\<close>).
\<close>

theorem recording_complete:
  assumes "run_ok t0 evs (new_muxer opts)" "fps_ok opts"
    and "mux_run evs (new_muxer opts) = (rs, m)" "fmp4_flush m = (Inr x, m')"
  shows "concat (map video_of rs) @ video_of (Inr x) =
      on_timeline (mxFirstDuration (new_muxer opts)) (90 * (snd (hd (accepted evs)) - the (mxOrigin m'))) (accepted evs) \<and>
    (sorted_wrt (<) (map snd (videos evs)) \<longrightarrow>
      concat (map video_of rs) @ video_of (Inr x) =
        map (\<lambda>(f, t). (90 * (t - the (mxOrigin m')), annexbToAvcc (fData f), fKeyframe f)) (accepted evs))"
proof -
  let ?d = "mxFirstDuration (new_muxer opts)" and ?first = "snd (hd (accepted evs))"
  obtain closed where c: "mux_inv t0 ?d m closed (accepted evs)" "concat (map video_of rs) = timed (start_of m ?first) closed"
    using run_recorded [OF assms(1) new_muxer_inv [OF assms(2)] assms(3) refl] by blast
  have "fragment_size m < 2 ^ 31" using assms(1,3) by (auto simp: run_ok_def dest: spec [of _ "length evs"])
  from flush_step [OF assms(4) c(1) this refl]
  have all: "concat (map video_of rs) @ video_of (Inr x) = on_timeline ?d (90 * (?first - the (mxOrigin m'))) (accepted evs)"
    using c(2) by (simp add: start_of_def)
  have "on_timeline ?d (90 * (?first - the (mxOrigin m'))) (accepted evs) =
      map (\<lambda>(f, t). (90 * (t - the (mxOrigin m')), annexbToAvcc (fData f), fKeyframe f)) (accepted evs)"
    if "sorted_wrt (<) (map snd (videos evs))"
    using on_timeline_rising [OF accepted_rising [OF that]] by (auto simp: algebra_simps)
  then show ?thesis using all by simp
qed

text \<open>
  Three frames at 1000, 1000 and 1033 ms, as a clock of whole milliseconds may stamp a burst: the second lasts
  to the third, but the first keeps the default of a fifteenth of a second, and the third stands 2970 + 6000
  ticks from the first where its stamp says 2970.
\<close>

lemma tied_stamp_is_late:
  "map fst (on_timeline DEFAULT_FRAME_TICKS 0 [(f, 1000), (g, 1000), (h, 1033)]) = [0, 6000, 8970]"
  by (simp add: gap_def DEFAULT_FRAME_TICKS_def TIMESCALE_def)

text \<open>
  C16. A fragment is what the muxer held. When what the muxer holds fits the fields (durations and sizes below
  \<open>2 ^ 32\<close>, under two gigabytes in all) and audio samples have an audio track, a fragment is built, and read by a
  player it has one run per track with samples, from the track's decode time, with exactly the samples held; the
  decode times then move on by their durations.
\<close>

theorem fragment_read_back:
  assumes "fragment_ready m"
  shows "\<exists>b. buildFragment m = (Inr b, after_fragment m) \<and> length b = fragment_size m \<and>
    demux b = Some (nat (mxSeq m mod 4294967296),
      \<lparr>trTrack = 1, trBase = nat (mxBaseDecodeTime m), trSamples = mxSamples m\<rparr> #
      (if mxAudioSamples m = [] then []
       else [\<lparr>trTrack = 2, trBase = nat (mxAudioBaseDecodeTime m), trSamples = mxAudioSamples m\<rparr>]))"
  using fragment_built [OF assms] fragment_demux [OF assms] length_fragment_bytes [of m]
  by (auto simp: track_specs_def run_of_def)

section \<open>Where the boxes differ from the format\<close>

text \<open>
  The display matrix stands in bytes 36 to 71 of a \<open>mvhd\<close> of version 0, and in bytes 40 to 75 of a \<open>tkhd\<close>. The
  track header has the unity matrix there; the movie header has it four bytes early.
\<close>

lemma tkhd_matrix: "slice 48 84 audioTkhd = concat (map u32be [0x00010000, 0, 0, 0, 0x00010000, 0, 0, 0, 0x40000000])"
  by code_simp

lemma mvhd_matrix_misplaced:
  "slice 44 80 (mvhd audio) = concat (map u32be [0, 0, 0, 0x00010000, 0, 0, 0, 0x40000000, 0])"
proof -
  have "slice 44 80 (mvhd True) = concat (map u32be [0, 0, 0, 0x00010000, 0, 0, 0, 0x40000000, 0])"
    "slice 44 80 (mvhd False) = concat (map u32be [0, 0, 0, 0x00010000, 0, 0, 0, 0x40000000, 0])"
    by code_simp+
  then show ?thesis by (cases audio) simp_all
qed

text \<open>A \<open>mdhd\<close> of version 0 has 24 bytes and its language in bytes 20 and 21.\<close>

lemma mdhd_language_misplaced:
  "slice 28 30 (mdhd TIMESCALE) = [0, 0]" "slice 32 34 (mdhd TIMESCALE) = u16be 0x55c4" "length (mdhd TIMESCALE) = 8 + 32"
  by code_simp+

text \<open>A picture as wide as the geometry reader admits does not fit the shift of the track header.\<close>

lemma widest_picture_throws: "tkhd MAX_CODED_DIMENSION h = Inl RangeError"
  by (simp add: tkhd_def shl16_def as_signed_def MAX_CODED_DIMENSION_def write_u32be_def)

text \<open>
  AAC frames that came before the first keyframe stay when a G.711 frame then turns the audio off, and the first
  fragment, which has their bytes and no run for them, throws and loses its samples.
\<close>

lemma g711_keeps_samples:
  assumes "mxParams m = None" "mxAudioRequested m" "\<not> mxAudioDisabled m" "\<not> mxInitSent m" "aCodec f = G711a"
  shows "fmp4_pushAudio f t m = (Inr None, m\<lparr>mxAudioDisabled := True\<rparr>)"
  using assms by (simp add: fmp4_pushAudio_def act_bind_def announce_init_def)

lemma audio_without_track_throws:
  assumes "mxAudioSamples m \<noteq> []" "\<not> hasAudioTrack m" "fragment_size m < 2 ^ 31" "0 \<le> mxBaseDecodeTime m" "mxBaseDecodeTime m < 2 ^ 64"
  shows "buildFragment m = (Inl (UserError ''fMP4 muxer: trun count does not match data offsets''),
    m\<lparr>mxSamples := [], mxAudioSamples := [], mxFragTicks := 0, mxSeq := mxSeq m + 1\<rparr>)"
proof -
  let ?rs = "[(1, mxBaseDecodeTime m, mxSamples m)] :: run_spec list"
  let ?head = "moof_of (mxSeq m) (map (\<lambda>r. (r, 0)) ?rs)"
  have h: "moof (mxSeq m) (mxBaseDecodeTime m) (mxSamples m) None = Inr ?head"
    using moof_box [of "mxBaseDecodeTime m" "mxSamples m" None "mxSeq m"] assms by (simp add: specs_of_def bases_ok_def)
  have len: "length ?head = 88 + 12 * length (mxSamples m)" by (simp add: length_moof_of)
  have "patchTrunDataOffsets ([int (length ?head + 8)] @ [int (length ?head + 8) + int (length (media_bytes (mxSamples m)))]) ?head =
      Inl (UserError ''fMP4 muxer: trun count does not match data offsets'')"
    by (subst patch_moof) (use assms len in \<open>simp_all add: offsets_ok_def specs_ok_def fragment_size_def\<close>)
  then show ?thesis using assms(1,2) h by (simp add: buildFragment_def act_bind_def Let_def)
qed

section \<open>When the init segment is built\<close>

definition nals_ok :: "buffer list \<Rightarrow> bool" where
  "nals_ok nals \<longleftrightarrow> length nals < 65536 \<and> (\<forall>n \<in> set nals. length n < 65536)"

lemma sized_ok: "nals_ok nals \<Longrightarrow> \<exists>b. res_map sized_nal nals = Inr b"
proof -
  have "(\<forall>n \<in> set nals. length n < 65536) \<Longrightarrow> \<exists>b. res_map sized_nal nals = Inr b"
    by (induction nals) (auto simp: sized_nal_def write_u16be_def)
  then show "nals_ok nals \<Longrightarrow> ?thesis" by (simp add: nals_ok_def)
qed

lemma array_ok: "nals_ok nals \<Longrightarrow> \<exists>b. hvcc_array ty nals = Inr b"
  using sized_ok [of nals] by (auto simp: hvcc_array_def write_u16be_def nals_ok_def)

lemma shl16_small: "0 \<le> w \<Longrightarrow> w < 32768 \<Longrightarrow> shl16 w = w * 65536"
  by (simp add: shl16_def as_signed_def)

lemma moov_ok:
  assumes "0 \<le> w" "w < 32768" "0 \<le> h" "h < 32768" "nals_ok (sps ps)" "nals_ok (pps ps)" "nals_ok (vps ps)"
  shows "\<exists>b. moov c ps w h audio = Inr b"
proof -
  have t: "\<exists>b. tkhd w h = Inr b" using assms(1-4) by (simp add: tkhd_def shl16_small write_u32be_def)
  have "\<exists>b. avcC ps = Inr b" using sized_ok [OF assms(5)] sized_ok [OF assms(6)] by (auto simp: avcC_def Let_def)
  moreover have "\<exists>b. hvcC ps = Inr b" using array_ok [OF assms(5), of 33] array_ok [OF assms(6), of 34] array_ok [OF assms(7), of 32] by (auto simp: hvcC_def)
  ultimately have e: "\<exists>b. sampleEntry c ps w h = Inr b" using assms(1-4) by (auto simp: sampleEntry_def write_u16be_def)
  have a: "\<exists>b. audioTrak k = Inr b" for k by (simp add: audioTrak_def esds_def mp4_descriptor_def write_u16be_def Let_def)
  show ?thesis using t e a [of "the audio"] by (cases audio) (auto simp: moov_def trak_def)
qed

lemma init_ok:
  assumes "mxParams m = Some ps" "0 \<le> mxWidth m" "mxWidth m < 32768" "0 \<le> mxHeight m" "mxHeight m < 32768"
    "nals_ok (sps ps)" "nals_ok (pps ps)" "nals_ok (vps ps)"
  shows "\<exists>b. buildInit m = (Inr b, alignTimeline m)"
proof -
  have "mxWidth (alignTimeline m) = mxWidth m \<and> mxHeight (alignTimeline m) = mxHeight m"
    by (simp add: alignTimeline_def Let_def split: option.split)
  then show ?thesis
    using moov_ok [OF assms(2-8), of "mxCodec (alignTimeline m)"
        "if hasAudioTrack (alignTimeline m) then mxAudioCodec (alignTimeline m) else None"] assms(1)
    by (auto simp: buildInit_def act_bind_def align_keeps)
qed

section \<open>A recording of two frames\<close>

definition sample_key :: live_frame where
  "sample_key = \<lparr>fKeyframe = True, fWidth = 1280, fHeight = 720, fCodec = H264,
     fData = [0, 0, 0, 1, 0x67, 0x42, 0xc0, 0x1e, 0, 0, 0, 1, 0x68, 0xce, 0, 0, 0, 1, 0x65, 0x88]\<rparr>"

definition sample_delta :: live_frame where
  "sample_delta = \<lparr>fKeyframe = False, fWidth = 1280, fHeight = 720, fCodec = H264, fData = [0, 0, 0, 1, 0x21, 0x9a]\<rparr>"

definition sample_sets :: param_sets where
  "sample_sets = \<lparr>codec = H264, sps = [[0x67, 0x42, 0xc0, 0x1e]], pps = [[0x68, 0xce]], vps = []\<rparr>"

lemma sample_key_sets: "extractParamSets (fData sample_key) = Some sample_sets"
  by code_simp

lemma sample_geometry: "codedGeometry sample_sets = None"
  by code_simp

lemma sample_avcc:
  "annexbToAvcc (fData sample_key) = [0, 0, 0, 4, 0x67, 0x42, 0xc0, 0x1e, 0, 0, 0, 2, 0x68, 0xce, 0, 0, 0, 2, 0x65, 0x88]"
  "annexbToAvcc (fData sample_delta) = [0, 0, 0, 2, 0x21, 0x9a]"
  by code_simp+

definition sample_fmp4 :: fmp4_options where
  "sample_fmp4 = \<lparr>foFragmentSeconds = Some 0, foFps = None, foAudio = False\<rparr>"

definition sample_frames :: "mux_event list" where
  "sample_frames = [VideoIn sample_key 1000, VideoIn sample_delta 1066]"

text \<open>The muxer after the two frames.\<close>

definition sample_muxer :: muxer where
  "sample_muxer =
     (new_muxer sample_fmp4)
       \<lparr>mxParams := Some sample_sets, mxCodec := H264, mxWidth := 1280, mxHeight := 720, mxFirstVideo := Some 1000,
        mxLastVideo := Some 1066, mxOrigin := Some 1000, mxAligned := True, mxInitSent := True, mxFragTicks := 11940,
        mxSamples := [\<lparr>smData = annexbToAvcc (fData sample_key), smDuration = 5940, smKeyframe = True\<rparr>,
                      \<lparr>smData = annexbToAvcc (fData sample_delta), smDuration = 6000, smKeyframe = False\<rparr>]\<rparr>"

lemma first_push:
  "\<exists>b. fmp4_push sample_key 1000 (new_muxer sample_fmp4) =
     (Inr (Some \<lparr>mfInit = Some b, mfData = [], mfKeyframe = False\<rparr>),
      (new_muxer sample_fmp4)
       \<lparr>mxParams := Some sample_sets, mxCodec := H264, mxWidth := 1280, mxHeight := 720, mxFirstVideo := Some 1000,
        mxLastVideo := Some 1000, mxOrigin := Some 1000, mxAligned := True, mxInitSent := True, mxFragTicks := 6000,
        mxSamples := [\<lparr>smData = annexbToAvcc (fData sample_key), smDuration = 6000, smKeyframe = True\<rparr>]\<rparr>)"
proof -
  let ?m = "(new_muxer sample_fmp4)
       \<lparr>mxParams := Some sample_sets, mxCodec := H264, mxWidth := 1280, mxHeight := 720, mxFirstVideo := Some 1000,
        mxLastVideo := Some 1000, mxSamples := [\<lparr>smData = annexbToAvcc (fData sample_key), smDuration = 6000, smKeyframe = True\<rparr>],
        mxFragTicks := 6000\<rparr>"
  have c: "fCodec sample_key = H264" "fKeyframe sample_key" "fWidth sample_key = 1280" "fHeight sample_key = 720"
    by (simp_all add: sample_key_def)
  have n: "mxParams (new_muxer sample_fmp4) = None" "mxSamples (new_muxer sample_fmp4) = []" "mxLastVideo (new_muxer sample_fmp4) = None"
    "mxFirstDuration (new_muxer sample_fmp4) = 6000" "mxFragTicks (new_muxer sample_fmp4) = 0" "\<not> mxInitSent (new_muxer sample_fmp4)"
    "\<not> mxAudioRequested (new_muxer sample_fmp4)" "\<not> mxAligned (new_muxer sample_fmp4)" "mxFirstAudio (new_muxer sample_fmp4) = None"
    "mxBaseDecodeTime (new_muxer sample_fmp4) = 0" "mxAudioBaseDecodeTime (new_muxer sample_fmp4) = 0"
    by (simp_all add: new_muxer_def sample_fmp4_def DEFAULT_FRAME_TICKS_def TIMESCALE_def)
  obtain b where b: "buildInit ?m = (Inr b, alignTimeline ?m)"
    using init_ok [of ?m sample_sets] by (auto simp: sample_sets_def nals_ok_def)
  have "codec sample_sets = H264" by (simp add: sample_sets_def)
  then have t: "takes_params sample_key 1000 (new_muxer sample_fmp4) = Some ((new_muxer sample_fmp4)
       \<lparr>mxParams := Some sample_sets, mxCodec := H264, mxWidth := 1280, mxHeight := 720, mxFirstVideo := Some 1000\<rparr>)"
    by (simp add: takes_params_def n c sample_key_sets sample_geometry)
  have a: "add_sample sample_key ((new_muxer sample_fmp4)
       \<lparr>mxParams := Some sample_sets, mxCodec := H264, mxWidth := 1280, mxHeight := 720, mxFirstVideo := Some 1000,
        mxLastVideo := Some 1000\<rparr>) = ?m"
    by (simp add: add_sample_def n c)
  have s: "send_init ?m = (Inr (Some b), (alignTimeline ?m)\<lparr>mxInitSent := True\<rparr>)" using b by (simp add: send_init_def act_bind_def)
  have al: "alignTimeline ?m = ?m\<lparr>mxOrigin := Some 1000, mxAligned := True\<rparr>"
    by (simp add: alignTimeline_def n)
  show ?thesis
    using s by (intro exI [of _ b])
      (simp add: fmp4_push_def c t act_bind_def measure_last_def close_fragment_def at_boundary_def n a [simplified] push_result_def segment_of_def al)
qed

lemma second_push:
  "mxInitSent m \<Longrightarrow> mxParams m \<noteq> None \<Longrightarrow> mxLastVideo m = Some 1000 \<Longrightarrow> mxSamples m = [s] \<Longrightarrow>
   fmp4_push sample_delta 1066 m =
     (Inr None, m\<lparr>mxLastVideo := Some 1066, mxFragTicks := mxFragTicks m + (5940 - smDuration s) + mxFirstDuration m,
        mxSamples := [s\<lparr>smDuration := 5940\<rparr>, \<lparr>smData = annexbToAvcc (fData sample_delta), smDuration = mxFirstDuration m, smKeyframe = False\<rparr>]\<rparr>)"
  by (simp add: fmp4_push_def takes_params_def measure_last_def TIMESCALE_def act_bind_def close_fragment_def at_boundary_def
      add_sample_def push_result_def segment_of_def sample_delta_def)

lemma sample_run: "\<exists>b. mux_run sample_frames (new_muxer sample_fmp4) =
    ([Inr (Some \<lparr>mfInit = Some b, mfData = [], mfKeyframe = False\<rparr>), Inr None], sample_muxer)"
proof -
  obtain b where b: "fmp4_push sample_key 1000 (new_muxer sample_fmp4) =
     (Inr (Some \<lparr>mfInit = Some b, mfData = [], mfKeyframe = False\<rparr>),
      (new_muxer sample_fmp4)
       \<lparr>mxParams := Some sample_sets, mxCodec := H264, mxWidth := 1280, mxHeight := 720, mxFirstVideo := Some 1000,
        mxLastVideo := Some 1000, mxOrigin := Some 1000, mxAligned := True, mxInitSent := True, mxFragTicks := 6000,
        mxSamples := [\<lparr>smData = annexbToAvcc (fData sample_key), smDuration = 6000, smKeyframe = True\<rparr>]\<rparr>)"
    using first_push by blast
  have "mxFirstDuration (new_muxer sample_fmp4) = 6000"
    by (simp add: new_muxer_def sample_fmp4_def DEFAULT_FRAME_TICKS_def TIMESCALE_def)
  then show ?thesis
    by (intro exI [of _ b]) (simp add: mux_run_def sample_frames_def b second_push sample_muxer_def)
qed

lemma sample_held:
  "mxSamples sample_muxer =
     [\<lparr>smData = [0, 0, 0, 4, 0x67, 0x42, 0xc0, 0x1e, 0, 0, 0, 2, 0x68, 0xce, 0, 0, 0, 2, 0x65, 0x88], smDuration = 5940, smKeyframe = True\<rparr>,
      \<lparr>smData = [0, 0, 0, 2, 0x21, 0x9a], smDuration = 6000, smKeyframe = False\<rparr>]"
  "mxAudioSamples sample_muxer = []" "mxBaseDecodeTime sample_muxer = 0" "mxInitSent sample_muxer" "mxSeq sample_muxer = 1"
  "mxOrigin sample_muxer = Some 1000"
  by (simp_all add: sample_muxer_def sample_avcc new_muxer_def)

lemma sample_ready: "fragment_ready sample_muxer"
  by (simp add: fragment_ready_def sample_held samples_ok_def fragment_size_def media_bytes_def)

lemma fragment_read_back_witness:
  "\<exists>b. demux b = Some (1, [\<lparr>trTrack = 1, trBase = 0, trSamples = mxSamples sample_muxer\<rparr>]) \<and> length (mxSamples sample_muxer) = 2"
  using fragment_read_back [OF sample_ready] by (auto simp: sample_held)

lemma sample_run_ok: "run_ok 1000 sample_frames (new_muxer sample_fmp4)"
proof -
  obtain b where r: "mux_run sample_frames (new_muxer sample_fmp4) =
      ([Inr (Some \<lparr>mfInit = Some b, mfData = [], mfKeyframe = False\<rparr>), Inr None], sample_muxer)"
    using sample_run by blast
  obtain c where f: "fmp4_push sample_key 1000 (new_muxer sample_fmp4) =
     (Inr (Some \<lparr>mfInit = Some c, mfData = [], mfKeyframe = False\<rparr>),
      (new_muxer sample_fmp4)
       \<lparr>mxParams := Some sample_sets, mxCodec := H264, mxWidth := 1280, mxHeight := 720, mxFirstVideo := Some 1000,
        mxLastVideo := Some 1000, mxOrigin := Some 1000, mxAligned := True, mxInitSent := True, mxFragTicks := 6000,
        mxSamples := [\<lparr>smData = annexbToAvcc (fData sample_key), smDuration = 6000, smKeyframe = True\<rparr>]\<rparr>)"
    using first_push by blast
  have "fragment_size (snd (mux_run (take k sample_frames) (new_muxer sample_fmp4))) < 2 ^ 31" if "k \<le> length sample_frames" for k
  proof -
    have "k = 0 \<or> k = 1 \<or> k = 2" using that by (auto simp: sample_frames_def)
    then show ?thesis
    proof (elim disjE)
      assume "k = 0"
      then show ?thesis by (simp add: mux_run_def fragment_size_def new_muxer_def media_bytes_def)
    next
      assume "k = 1"
      then show ?thesis by (simp add: mux_run_def sample_frames_def f fragment_size_def media_bytes_def sample_avcc) (simp add: new_muxer_def)
    next
      assume "k = 2"
      then have "take k sample_frames = sample_frames" by (simp add: sample_frames_def)
      then show ?thesis using sample_ready by (simp add: r fragment_ready_def)
    qed
  qed
  then show ?thesis by (simp add: run_ok_def r) (simp add: sample_frames_def within_hours_def)
qed

lemma recording_complete_witness:
  "concat (map video_of (fst (mux_run sample_frames (new_muxer sample_fmp4)))) @
     video_of (fst (fmp4_flush (snd (mux_run sample_frames (new_muxer sample_fmp4))))) =
   [(0, annexbToAvcc (fData sample_key), True), (5940, annexbToAvcc (fData sample_delta), False)]"
proof -
  obtain b where r: "mux_run sample_frames (new_muxer sample_fmp4) =
      ([Inr (Some \<lparr>mfInit = Some b, mfData = [], mfKeyframe = False\<rparr>), Inr None], sample_muxer)"
    using sample_run by blast
  have fl: "fmp4_flush sample_muxer =
      (Inr (Some \<lparr>mfInit = None, mfData = fragment_bytes sample_muxer, mfKeyframe = True\<rparr>), after_fragment sample_muxer)"
    by (simp add: fmp4_flush_def sample_held(1,4) init_first_def act_bind_def fragment_built [OF sample_ready])
  have "opens sample_key" using sample_key_sets by (simp add: opens_def) (simp add: sample_key_def sample_sets_def)
  then have a: "accepted sample_frames = [(sample_key, 1000), (sample_delta, 1066)]"
    by (simp add: accepted_def sample_frames_def)
  have "fps_ok sample_fmp4" by (simp add: fps_ok_def sample_fmp4_def TIMESCALE_def)
  from recording_complete [OF sample_run_ok this r fl] show ?thesis
    by (simp add: r fl a gap_def after_fragment_def sample_held) (simp add: sample_key_def sample_delta_def)
qed

end
