(* ===== verification/Fragment_Recording.thy ===== *)
theory Fragment_Recording
  imports Fmp4
begin

text \<open>
  \<open>src/transport/p2p/fragment-recording.ts\<close>: a recording that is pulled one fragment at a time. Media comes from
  a consumer of the shared source, which is paused while the owner is behind; a pull finds a fragment, an end,
  a failure, or waits to be woken. What the recording does to its consumer and to a waiting pull is logged.
\<close>

section \<open>State\<close>

definition MAX_PENDING_FRAGMENTS :: nat where "MAX_PENDING_FRAGMENTS = 8"

datatype recording_out = PauseConsumer | ResumeConsumer | DetachConsumer | WakePull

datatype pull = Yield media_fragment | Finished | Failed js_error | Refused | Waits

text \<open>A pull that waits is \<open>frWaiting\<close>; \<open>frYielded\<close> is what the pulls were handed.\<close>

record recording =
  frMux :: muxer
  frQueue :: "media_fragment list"
  frConsumer :: bool
  frWaiting :: bool
  frFailure :: "js_error option"
  frEnded :: bool
  frIterated :: bool
  frHeld :: bool
  frYielded :: "media_fragment list"
  frLog :: "recording_out list"

definition new_recording :: "int option \<Rightarrow> recording" where
  "new_recording fragmentSeconds =
     \<lparr>frMux = new_muxer \<lparr>foFragmentSeconds = fragmentSeconds, foFps = None, foAudio = True\<rparr>, frQueue = [],
      frConsumer = False, frWaiting = False, frFailure = None, frEnded = False, frIterated = False, frHeld = False,
      frYielded = [], frLog = []\<rparr>"

section \<open>Operations\<close>

definition fr_note :: "recording_out \<Rightarrow> recording \<Rightarrow> recording" where
  "fr_note x r = r\<lparr>frLog := frLog r @ [x]\<rparr>"

definition to_consumer :: "recording_out \<Rightarrow> recording \<Rightarrow> recording" where
  "to_consumer x r = (if frConsumer r then fr_note x r else r)"

definition fr_nudge :: "recording \<Rightarrow> recording" where
  "fr_nudge r = (if frWaiting r then fr_note WakePull r else r)\<lparr>frWaiting := False\<rparr>"

text \<open>\<open>stop\<close>; a flush that throws leaves the recording open.\<close>

definition fr_stop :: "(recording, unit) act" where
  "fr_stop = act_read (\<lambda>r.
     if frEnded r then act_return ()
     else case fmp4_flush (frMux r) of
            (Inl e, m) \<Rightarrow> act_bind (act_modify (\<lambda>r. r\<lparr>frMux := m\<rparr>)) (\<lambda>_. act_lift (Inl e))
          | (Inr tail, m) \<Rightarrow>
              act_modify (\<lambda>r. fr_nudge (to_consumer DetachConsumer
                (r\<lparr>frMux := m, frQueue := frQueue r @ (case tail of None \<Rightarrow> [] | Some f \<Rightarrow> [f]), frEnded := True\<rparr>))))"

definition fr_fail :: "js_error \<Rightarrow> recording \<Rightarrow> recording" where
  "fr_fail e r = (if frEnded r then r else fr_nudge (to_consumer DetachConsumer (r\<lparr>frFailure := Some e, frEnded := True\<rparr>)))"

definition hold_back :: "recording \<Rightarrow> recording" where
  "hold_back r =
     (if \<not> frHeld r \<and> MAX_PENDING_FRAGMENTS \<le> length (frQueue r) then to_consumer PauseConsumer (r\<lparr>frHeld := True\<rparr>) else r)"

definition fr_ingest :: "mux_event \<Rightarrow> recording \<Rightarrow> recording" where
  "fr_ingest item r =
     (if frEnded r then r
      else case mux_step item (frMux r) of
             (Inl e, m) \<Rightarrow> fr_fail e (r\<lparr>frMux := m\<rparr>)
           | (Inr x, m) \<Rightarrow>
               fr_nudge (hold_back (r\<lparr>frMux := m, frQueue := frQueue r @ (case x of None \<Rightarrow> [] | Some f \<Rightarrow> [f])\<rparr>)))"

text \<open>\<open>attach\<close> once the source is there, with what its prebuffer hands over, or with the error it rejected with.\<close>

definition fr_attach :: "(js_error + mux_event list) \<Rightarrow> recording \<Rightarrow> recording" where
  "fr_attach answer r =
     (case answer of
        Inl e \<Rightarrow> fr_fail e r
      | Inr buffered \<Rightarrow>
          if frEnded r then r else foldl (\<lambda>r item. fr_ingest item r) (r\<lparr>frConsumer := True\<rparr>) buffered)"

definition fr_take :: "media_fragment \<Rightarrow> media_fragment list \<Rightarrow> recording \<Rightarrow> recording" where
  "fr_take f rest r =
     (let r1 = r\<lparr>frQueue := rest, frYielded := frYielded r @ [f]\<rparr>
      in if frHeld r1 \<and> length rest < MAX_PENDING_FRAGMENTS then to_consumer ResumeConsumer (r1\<lparr>frHeld := False\<rparr>) else r1)"

text \<open>One pull of the iterator, once it is ready. A pull that ends the iteration runs the \<open>finally\<close>, which stops.\<close>

definition fr_pull :: "recording \<Rightarrow> pull \<times> recording" where
  "fr_pull r =
     (case frQueue r of
        f # rest \<Rightarrow> (Yield f, fr_take f rest r)
      | [] \<Rightarrow>
          (case frFailure r of
             Some e \<Rightarrow> (Failed e, snd (fr_stop r))
           | None \<Rightarrow> if frEnded r then (Finished, snd (fr_stop r)) else (Waits, r\<lparr>frWaiting := True\<rparr>)))"

text \<open>The start of an iteration.\<close>

definition fr_iterate :: "recording \<Rightarrow> bool \<times> recording" where
  "fr_iterate r = (if frIterated r then (False, r) else (True, r\<lparr>frIterated := True\<rparr>))"

datatype recording_event =
    Media mux_event
  | SourceReady "js_error + mux_event list"
  | Pull
  | Iterate
  | StopRecording
  | ConsumerFails js_error

fun recording_step :: "recording \<Rightarrow> recording_event \<Rightarrow> recording" where
  "recording_step r (Media item) = (if frConsumer r then fr_ingest item r else r)"
| "recording_step r (SourceReady answer) = fr_attach answer r"
| "recording_step r Pull = (if frWaiting r then r else snd (fr_pull r))"
| "recording_step r Iterate = snd (fr_iterate r)"
| "recording_step r StopRecording = snd (fr_stop r)"
| "recording_step r (ConsumerFails e) = fr_fail e r"

section \<open>What is promised\<close>

text \<open>
  A recording in the abstract: the muxer, the fragments it has completed, whether the recording has ended, and
  whether it has its consumer. Neither the owner's pulls nor the bound on what it has not pulled yet are in it.
\<close>

record plain_recording =
  plMux :: muxer
  plFragments :: "media_fragment list"
  plEnded :: bool
  plConsumer :: bool

definition plain_of :: "recording \<Rightarrow> plain_recording" where
  "plain_of r = \<lparr>plMux = frMux r, plFragments = frYielded r @ frQueue r, plEnded = frEnded r, plConsumer = frConsumer r\<rparr>"

definition plain_take :: "bool \<Rightarrow> (js_error + media_fragment option) \<times> muxer \<Rightarrow> plain_recording \<Rightarrow> plain_recording" where
  "plain_take closing out p =
     (case out of
        (Inl e, m) \<Rightarrow> p\<lparr>plMux := m, plEnded := \<not> closing\<rparr>
      | (Inr x, m) \<Rightarrow> p\<lparr>plMux := m, plFragments := plFragments p @ (case x of None \<Rightarrow> [] | Some f \<Rightarrow> [f]), plEnded := closing\<rparr>)"

definition plain_media :: "plain_recording \<Rightarrow> mux_event \<Rightarrow> plain_recording" where
  "plain_media p item = (if plEnded p then p else plain_take False (mux_step item (plMux p)) p)"

fun plain_step :: "plain_recording \<Rightarrow> recording_event \<Rightarrow> plain_recording" where
  "plain_step p (Media item) = (if plConsumer p then plain_media p item else p)"
| "plain_step p (SourceReady answer) =
     (case answer of
        Inl e \<Rightarrow> p\<lparr>plEnded := True\<rparr>
      | Inr buffered \<Rightarrow> if plEnded p then p else foldl plain_media (p\<lparr>plConsumer := True\<rparr>) buffered)"
| "plain_step p Pull = p"
| "plain_step p Iterate = p"
| "plain_step p StopRecording = (if plEnded p then p else plain_take True (fmp4_flush (plMux p)) p)"
| "plain_step p (ConsumerFails e) = p\<lparr>plEnded := True\<rparr>"

named_theorems recording_defs \<open>the parts of the recording's operations\<close>

declare fr_note_def [recording_defs] to_consumer_def [recording_defs] fr_nudge_def [recording_defs]
  fr_stop_def [recording_defs] fr_fail_def [recording_defs] hold_back_def [recording_defs]

lemma plain_fail: "plain_of (fr_fail e r) = (plain_of r)\<lparr>plEnded := True\<rparr>"
  by (simp add: plain_of_def recording_defs)

lemma plain_stop: "plain_of (snd (fr_stop r)) = (if frEnded r then plain_of r else plain_take True (fmp4_flush (frMux r)) (plain_of r))"
  by (auto simp: plain_of_def recording_defs plain_take_def act_bind_def split: prod.split sum.split option.split)

lemma plain_ingest: "plain_of (fr_ingest item r) = plain_media (plain_of r) item"
proof (cases "frEnded r")
  case False
  obtain x m where x: "mux_step item (frMux r) = (x, m)" by fastforce
  have "plain_of (fr_nudge (hold_back s)) = plain_of s" for s by (simp add: plain_of_def recording_defs)
  then show ?thesis using False plain_fail
    by (cases x) (simp_all add: fr_ingest_def plain_media_def plain_take_def x plain_of_def)
qed (simp add: fr_ingest_def plain_media_def plain_of_def)

lemma plain_buffered: "plain_of (foldl (\<lambda>r item. fr_ingest item r) r items) = foldl plain_media (plain_of r) items"
  by (induction items arbitrary: r) (simp_all add: plain_ingest)

lemma plain_pull: "plain_of (snd (fr_pull r)) = (if frQueue r = [] \<and> frFailure r \<noteq> None then plain_of (snd (fr_stop r)) else plain_of r)"
  by (auto simp: fr_pull_def plain_of_def fr_take_def recording_defs Let_def split: list.split option.split)

text \<open>A failed recording has ended.\<close>

definition failure_ends :: "recording \<Rightarrow> bool" where
  "failure_ends r \<longleftrightarrow> (frFailure r \<noteq> None \<longrightarrow> frEnded r)"

lemma step_plain: "failure_ends r \<Longrightarrow> plain_of (recording_step r ev) = plain_step (plain_of r) ev"
proof (cases ev)
  case (SourceReady answer)
  have "plain_of (r\<lparr>frConsumer := True\<rparr>) = (plain_of r)\<lparr>plConsumer := True\<rparr>" by (simp add: plain_of_def)
  then show ?thesis using plain_fail plain_buffered [of "r\<lparr>frConsumer := True\<rparr>"]
    by (simp add: SourceReady fr_attach_def plain_of_def split: sum.split)
next
  case Pull
  assume "failure_ends r"
  then show ?thesis using plain_pull [of r] plain_stop [of r] by (auto simp: Pull failure_ends_def)
qed (simp_all add: plain_ingest plain_fail plain_stop fr_iterate_def, simp_all add: plain_of_def)

lemma stop_ends: "failure_ends r \<Longrightarrow> failure_ends (snd (fr_stop r))"
  by (auto simp: failure_ends_def recording_defs act_bind_def split: prod.split sum.split option.split)

lemma ingest_ends: "failure_ends r \<Longrightarrow> failure_ends (fr_ingest item r)"
  by (auto simp: fr_ingest_def failure_ends_def recording_defs split: prod.split sum.split option.split)

lemma buffered_ends: "failure_ends r \<Longrightarrow> failure_ends (foldl (\<lambda>r item. fr_ingest item r) r items)"
  by (induction items arbitrary: r) (simp_all add: ingest_ends)

lemma step_ends: "failure_ends r \<Longrightarrow> failure_ends (recording_step r ev)"
proof (cases ev)
  case (SourceReady answer)
  assume "failure_ends r"
  then show ?thesis using buffered_ends [of "r\<lparr>frConsumer := True\<rparr>"]
    by (auto simp: SourceReady fr_attach_def recording_defs failure_ends_def split: sum.split)
next
  case Pull
  assume "failure_ends r"
  then show ?thesis using stop_ends [of r]
    by (auto simp: Pull fr_pull_def fr_take_def Let_def recording_defs failure_ends_def split: list.split option.split)
next
  case (ConsumerFails e)
  assume "failure_ends r"
  then show ?thesis by (simp add: ConsumerFails failure_ends_def recording_defs)
qed (simp_all add: ingest_ends stop_ends fr_iterate_def, simp_all add: failure_ends_def)

text \<open>What the log says of the consumer: paused, and not yet resumed.\<close>

fun paused_by :: "recording_out \<Rightarrow> bool \<Rightarrow> bool" where
  "paused_by PauseConsumer p = True"
| "paused_by ResumeConsumer p = False"
| "paused_by x p = p"

definition paused :: "recording \<Rightarrow> bool" where
  "paused r \<longleftrightarrow> fold paused_by (frLog r) False"

text \<open>Once ended, the consumer is gone and nothing more is held back.\<close>

definition held_ok :: "recording \<Rightarrow> bool" where
  "held_ok r \<longleftrightarrow> (frEnded r \<or> (paused r = frHeld r \<and> frHeld r = (MAX_PENDING_FRAGMENTS \<le> length (frQueue r))
      \<and> (frHeld r \<longrightarrow> frConsumer r)))"

lemma held_stop: "held_ok r \<Longrightarrow> held_ok (snd (fr_stop r))"
  by (auto simp: held_ok_def paused_def recording_defs act_bind_def split: prod.split sum.split option.split)

lemma held_fail: "held_ok r \<Longrightarrow> held_ok (fr_fail e r)"
  by (auto simp: held_ok_def paused_def recording_defs)

lemma held_back: "frConsumer r \<Longrightarrow> frEnded r \<or> paused r = frHeld r \<and> (frHeld r \<longrightarrow> MAX_PENDING_FRAGMENTS \<le> length (frQueue r)) \<Longrightarrow>
    held_ok (fr_nudge (hold_back r))"
  by (auto simp: held_ok_def paused_def recording_defs)

lemma ingest_held:
  assumes "held_ok r" "frConsumer r"
  shows "held_ok (fr_ingest item r) \<and> frConsumer (fr_ingest item r)"
proof (cases "frEnded r")
  case False
  obtain x m where x: "mux_step item (frMux r) = (x, m)" by fastforce
  show ?thesis
  proof (cases x)
    case (Inl e)
    have "held_ok (r\<lparr>frMux := m\<rparr>)" using assms(1) by (simp add: held_ok_def paused_def)
    then show ?thesis using held_fail assms(2) False by (simp add: fr_ingest_def x Inl) (simp add: recording_defs)
  next
    case (Inr y)
    let ?s = "r\<lparr>frMux := m, frQueue := frQueue r @ (case y of None \<Rightarrow> [] | Some f \<Rightarrow> [f])\<rparr>"
    have "held_ok (fr_nudge (hold_back ?s))"
      by (rule held_back) (use assms in \<open>auto simp: held_ok_def paused_def\<close>)
    moreover have "frConsumer (fr_nudge (hold_back ?s))" using assms(2) by (simp add: recording_defs)
    ultimately show ?thesis using False by (simp add: fr_ingest_def x Inr)
  qed
qed (use assms in \<open>simp add: fr_ingest_def\<close>)

lemma buffered_held: "held_ok r \<Longrightarrow> frConsumer r \<Longrightarrow> held_ok (foldl (\<lambda>r item. fr_ingest item r) r items)"
  by (induction items arbitrary: r) (simp_all add: ingest_held)

lemma pull_held: "held_ok r \<Longrightarrow> held_ok (snd (fr_pull r))"
proof -
  assume h: "held_ok r"
  show ?thesis
  proof (cases "frQueue r")
    case (Cons f rest)
    then show ?thesis using h
      by (auto simp: fr_pull_def fr_take_def Let_def held_ok_def paused_def recording_defs MAX_PENDING_FRAGMENTS_def)
  next
    case Nil
    then show ?thesis using h held_stop [OF h] by (auto simp: fr_pull_def held_ok_def paused_def split: option.split)
  qed
qed

lemma step_held: "held_ok r \<Longrightarrow> held_ok (recording_step r ev)"
proof (cases ev)
  case (SourceReady answer)
  assume h: "held_ok r"
  then have "held_ok (r\<lparr>frConsumer := True\<rparr>)" by (auto simp: held_ok_def paused_def)
  then show ?thesis using h buffered_held [of "r\<lparr>frConsumer := True\<rparr>"] held_fail
    by (simp add: SourceReady fr_attach_def split: sum.split)
qed (simp_all add: ingest_held held_stop held_fail pull_held fr_iterate_def, auto simp: held_ok_def paused_def)

lemma new_recording_ok: "failure_ends (new_recording n)" "held_ok (new_recording n)"
  by (simp_all add: failure_ends_def held_ok_def paused_def new_recording_def MAX_PENDING_FRAGMENTS_def)

interpretation ending: stepper recording_step failure_ends
  by unfold_locales (rule step_ends)

interpretation holding: stepper recording_step held_ok
  by unfold_locales (rule step_held)

text \<open>
  C8. A recording loses nothing and holds its consumer back while it is behind. Over any media, pulls, stops and
  failures, the fragments handed over and those queued are, in order, all that the muxer has made of what it was
  given, with the tail the stop flushed, whatever the owner pulls when; and until the recording ends its consumer
  is paused exactly while eight fragments or more are waiting.
\<close>

theorem recording_refines_muxer:
  "plain_of (foldl recording_step (new_recording n) evs) = foldl plain_step (plain_of (new_recording n)) evs \<and>
   (frEnded (foldl recording_step (new_recording n) evs) \<or>
    (paused (foldl recording_step (new_recording n) evs) \<longleftrightarrow>
     MAX_PENDING_FRAGMENTS \<le> length (frQueue (foldl recording_step (new_recording n) evs))))"
proof -
  let ?r = "foldl recording_step (new_recording n) evs"
  have "failure_ends s \<Longrightarrow> plain_of (foldl recording_step s evs) = foldl plain_step (plain_of s) evs" for s
    by (induction evs arbitrary: s) (simp_all add: step_plain step_ends)
  then have "plain_of ?r = foldl plain_step (plain_of (new_recording n)) evs" using new_recording_ok(1) .
  moreover have "frEnded ?r \<or> (paused ?r \<longleftrightarrow> MAX_PENDING_FRAGMENTS \<le> length (frQueue ?r))"
    using holding.inv_run [OF new_recording_ok(2), of n evs] by (auto simp: held_ok_def)
  ultimately show ?thesis by simp
qed

text \<open>A flush that throws leaves the consumer attached and the recording open.\<close>

lemma failing_stop_keeps_consumer:
  assumes "\<not> frEnded r" "fmp4_flush (frMux r) = (Inl e, m)"
  shows "fr_stop r = (Inl e, r\<lparr>frMux := m\<rparr>)"
  using assms by (simp add: fr_stop_def act_bind_def)

end
