(* ===== verification/Stored_Images.thy ===== *)
theory Stored_Images
  imports Eufy_Prelude "HOL-Library.Multiset"
begin

text \<open>
  \<open>src/transport/stored-image-cache.ts\<close>: the thumbnails that pushes name, downloaded eagerly, two at a time and
  one per device, and the newest one kept. The downloader is asynchronous: the downloads begun and not settled
  are \<open>scPending\<close>, and each settles once, as an event. The clock and the test for a life-cycle error are
  parameters; errors and devices' keys and URLs are opaque.
\<close>

section \<open>State\<close>

definition MAX_JPEG_BYTES :: nat where "MAX_JPEG_BYTES = 10 * 1024 * 1024"
definition DIAGNOSTIC_INTERVAL_MS :: int where "DIAGNOSTIC_INTERVAL_MS = 60000"

datatype unavailable = NotObserved | Pending | DownloadFailed | InvalidImage

record candidate =
  cdKey :: string
  cdUrl :: string
  cdSequence :: nat
  cdObservedAt :: int
  cdGeneration :: nat

record device_images =
  dvNextSequence :: nat
  dvSeenUrls :: "string set"
  dvLogged :: "unavailable \<Rightarrow> int option"
  dvQueued :: "candidate option"
  dvInFlight :: "candidate option"
  dvRetained :: "(nat \<times> buffer) option"
  dvReason :: "unavailable option"
  dvLifecycleError :: "nat option"

text \<open>The map of devices keeps the order in which they were first observed.\<close>

record image_cache =
  scDevices :: "(string \<times> device_images) list"
  scActive :: "string set"
  scDownloads :: nat
  scGeneration :: nat
  scPending :: "candidate list"
  scWarnings :: "(string \<times> unavailable \<times> int) list"

definition new_cache :: image_cache where
  "new_cache = \<lparr>scDevices = [], scActive = {}, scDownloads = 0, scGeneration = 0, scPending = [], scWarnings = []\<rparr>"

definition new_device :: device_images where
  "new_device = \<lparr>dvNextSequence = 0, dvSeenUrls = {}, dvLogged = (\<lambda>_. None), dvQueued = None, dvInFlight = None,
     dvRetained = None, dvReason = None, dvLifecycleError = None\<rparr>"

section \<open>Operations\<close>

definition images_of :: "string \<Rightarrow> image_cache \<Rightarrow> device_images option" where
  "images_of key c = map_of (scDevices c) key"

text \<open>A device's state is an object the map holds: changing it leaves the map's order.\<close>

definition set_images :: "string \<Rightarrow> device_images \<Rightarrow> image_cache \<Rightarrow> image_cache" where
  "set_images key d c = c\<lparr>scDevices := map (\<lambda>(j, e). if j = key then (j, d) else (j, e)) (scDevices c)\<rparr>"

definition can_start :: "image_cache \<Rightarrow> string \<times> device_images \<Rightarrow> bool" where
  "can_start c x \<longleftrightarrow> dvQueued (snd x) \<noteq> None \<and> fst x \<notin> scActive c"

definition start_download :: "string \<Rightarrow> device_images \<Rightarrow> candidate \<Rightarrow> image_cache \<Rightarrow> image_cache" where
  "start_download key d cand c =
     (set_images key (d\<lparr>dvQueued := None, dvInFlight := Some cand\<rparr>) c)
       \<lparr>scDownloads := scDownloads c + 1, scActive := insert (cdKey cand) (scActive c), scPending := scPending c @ [cand]\<rparr>"

function pump :: "image_cache \<Rightarrow> image_cache" where
  "pump c =
     (if scDownloads c < 2 then
        (case List.find (can_start c) (scDevices c) of
           None \<Rightarrow> c
         | Some (key, d) \<Rightarrow>
             (case dvQueued d of None \<Rightarrow> c | Some cand \<Rightarrow> pump (start_download key d cand c)))
      else c)"
  by pat_completeness auto
termination by (relation "measure (\<lambda>c. 2 - scDownloads c)") (auto simp: start_download_def set_images_def)

declare pump.simps [simp del]

definition observe :: "int \<Rightarrow> string \<Rightarrow> string \<Rightarrow> image_cache \<Rightarrow> image_cache" where
  "observe now key url c =
     (let c1 = (if images_of key c = None then c\<lparr>scDevices := scDevices c @ [(key, new_device)]\<rparr> else c)
      in case images_of key c1 of
           None \<Rightarrow> c1
         | Some d \<Rightarrow>
             if url \<in> dvSeenUrls d then c1
             else pump (set_images key
                    (d\<lparr>dvSeenUrls := insert url (dvSeenUrls d), dvNextSequence := dvNextSequence d + 1,
                       dvQueued := Some \<lparr>cdKey = key, cdUrl = url, cdSequence = dvNextSequence d + 1, cdObservedAt = now,
                                         cdGeneration = scGeneration c1\<rparr>\<rparr>) c1))"

datatype snapshot = Rejected nat | Unavailable unavailable | Stored buffer

definition snapshotStored :: "string \<Rightarrow> image_cache \<Rightarrow> snapshot" where
  "snapshotStored key c =
     (case images_of key c of
        None \<Rightarrow> Unavailable NotObserved
      | Some d \<Rightarrow>
          (let reason = (if dvQueued d \<noteq> None \<or> dvInFlight d \<noteq> None then Pending
                         else case dvReason d of Some r \<Rightarrow> r | None \<Rightarrow> NotObserved)
           in case (if reason \<noteq> Pending then dvLifecycleError d else None) of
                Some e \<Rightarrow> Rejected e
              | None \<Rightarrow> (case dvRetained d of Some (n, img) \<Rightarrow> Stored img | None \<Rightarrow> Unavailable reason)))"

definition clear_images :: "image_cache \<Rightarrow> image_cache" where
  "clear_images c = c\<lparr>scGeneration := scGeneration c + 1, scDevices := []\<rparr>"

definition isValidJpeg :: "buffer \<Rightarrow> bool" where
  "isValidJpeg img \<longleftrightarrow>
     0 < length img \<and> length img \<le> MAX_JPEG_BYTES \<and> 5 \<le> length img \<and> img ! 0 = 0xff \<and> img ! 1 = 0xd8 \<and>
     img ! 2 = 0xff \<and> img ! (length img - 2) = 0xff \<and> img ! (length img - 1) = 0xd9"

text \<open>A warning is due unless the same failure was logged within the interval.\<close>

definition diagnose :: "int \<Rightarrow> unavailable \<Rightarrow> candidate \<Rightarrow> device_images \<Rightarrow> device_images \<times> (string \<times> unavailable \<times> int) list" where
  "diagnose now failure cand d =
     (if (case dvLogged d failure of Some before \<Rightarrow> now - before < DIAGNOSTIC_INTERVAL_MS | None \<Rightarrow> False) then (d, [])
      else (d\<lparr>dvLogged := (dvLogged d)(failure := Some now)\<rparr>, [(cdKey cand, failure, cdObservedAt cand)]))"

text \<open>How a download ended: with bytes, or with an error. What becomes of its device, and the warning.\<close>

datatype outcome = Bytes buffer | Error nat

definition settle_image :: "(nat \<Rightarrow> bool) \<Rightarrow> int \<Rightarrow> candidate \<Rightarrow> outcome \<Rightarrow> device_images \<Rightarrow> device_images \<times> (string \<times> unavailable \<times> int) list" where
  "settle_image isLifecycleError now cand out d =
     (let d1 = d\<lparr>dvInFlight := None\<rparr> in
      case out of
        Error e \<Rightarrow>
          if isLifecycleError e then (d1\<lparr>dvLifecycleError := Some e, dvReason := None\<rparr>, [])
          else diagnose now DownloadFailed cand (d1\<lparr>dvLifecycleError := None, dvReason := Some DownloadFailed\<rparr>)
      | Bytes img \<Rightarrow>
          if \<not> isValidJpeg img
          then diagnose now InvalidImage cand (d1\<lparr>dvLifecycleError := None, dvReason := Some InvalidImage\<rparr>)
          else if (case dvRetained d of None \<Rightarrow> True | Some (n, _) \<Rightarrow> n < cdSequence cand)
          then (d1\<lparr>dvRetained := Some (cdSequence cand, img), dvLifecycleError := None, dvReason := None\<rparr>, [])
          else (d1, []))"

text \<open>A download that settles: first off the books, then into its device if that still waits for it.\<close>

definition image_settled :: "(nat \<Rightarrow> bool) \<Rightarrow> int \<Rightarrow> candidate \<Rightarrow> outcome \<Rightarrow> image_cache \<Rightarrow> image_cache" where
  "image_settled p now cand out c =
     (let c1 = c\<lparr>scDownloads := scDownloads c - 1, scActive := scActive c - {cdKey cand}, scPending := remove1 cand (scPending c)\<rparr>
      in case images_of (cdKey cand) c1 of
           None \<Rightarrow> c1
         | Some d \<Rightarrow>
             if cdGeneration cand = scGeneration c1 \<and> dvInFlight d = Some cand
             then (case settle_image p now cand out d of
                     (e, warnings) \<Rightarrow> (set_images (cdKey cand) e c1)\<lparr>scWarnings := scWarnings c1 @ warnings\<rparr>)
             else c1)"

definition download_ends :: "(nat \<Rightarrow> bool) \<Rightarrow> int \<Rightarrow> candidate \<Rightarrow> outcome \<Rightarrow> image_cache \<Rightarrow> image_cache" where
  "download_ends isLifecycleError now cand out c = pump (image_settled isLifecycleError now cand out c)"

datatype cache_event =
    Observe int string string
  | Ends int candidate outcome
  | ClearImages

fun cache_step :: "(nat \<Rightarrow> bool) \<Rightarrow> image_cache \<Rightarrow> cache_event \<Rightarrow> image_cache" where
  "cache_step p c (Observe now key url) = observe now key url c"
| "cache_step p c (Ends now cand out) = (if cand \<in> set (scPending c) then download_ends p now cand out c else c)"
| "cache_step p c ClearImages = clear_images c"

section \<open>What every operation keeps\<close>

text \<open>A device's candidates: of the present generation, the queued one newer than the one in flight, both newer than the image kept.\<close>

definition images_ok :: "nat \<Rightarrow> candidate list \<Rightarrow> string \<times> device_images \<Rightarrow> bool" where
  "images_ok gen pend x \<longleftrightarrow> dvReason (snd x) \<noteq> Some Pending \<and>
     (case dvQueued (snd x) of None \<Rightarrow> True
      | Some q \<Rightarrow> cdKey q = fst x \<and> cdGeneration q = gen \<and> cdSequence q = dvNextSequence (snd x)) \<and>
     (case dvInFlight (snd x) of None \<Rightarrow> True
      | Some f \<Rightarrow> cdKey f = fst x \<and> cdGeneration f = gen \<and> f \<in> set pend \<and> cdSequence f \<le> dvNextSequence (snd x) \<and>
          (dvQueued (snd x) = None \<or> cdSequence f < dvNextSequence (snd x))) \<and>
     (case dvRetained (snd x) of None \<Rightarrow> True
      | Some (n, img) \<Rightarrow> n \<le> dvNextSequence (snd x) \<and> (dvQueued (snd x) = None \<or> n < dvNextSequence (snd x)) \<and>
          (case dvInFlight (snd x) of None \<Rightarrow> True | Some f \<Rightarrow> n < cdSequence f))"

definition cache_ok :: "image_cache \<Rightarrow> bool" where
  "cache_ok c \<longleftrightarrow>
     distinct (map fst (scDevices c)) \<and> scDownloads c = length (scPending c) \<and> length (scPending c) \<le> 2 \<and>
     distinct (map cdKey (scPending c)) \<and> scActive c = cdKey ` set (scPending c) \<and>
     (\<forall>x \<in> set (scDevices c). images_ok (scGeneration c) (scPending c) x) \<and>
     (\<forall>cand \<in> set (scPending c). cdGeneration cand \<le> scGeneration c \<and>
        (cdGeneration cand = scGeneration c \<longrightarrow> (\<exists>d. images_of (cdKey cand) c = Some d \<and> dvInFlight d = Some cand)))"

text \<open>No download that could run is left waiting.\<close>

definition no_idle :: "image_cache \<Rightarrow> bool" where
  "no_idle c \<longleftrightarrow> 2 \<le> scDownloads c \<or> (\<forall>x \<in> set (scDevices c). \<not> can_start c x)"

lemma set_images_keys: "map fst (scDevices (set_images key d c)) = map fst (scDevices c)"
  by (induction "scDevices c") (auto simp: set_images_def)

lemma map_of_set: "map_of (map (\<lambda>(j, e). if j = key then (j, d) else (j, e)) xs) k =
    (if k = key then (case map_of xs key of None \<Rightarrow> None | Some _ \<Rightarrow> Some d) else map_of xs k)"
  by (induction xs) auto

lemma images_of_set: "images_of k (set_images key d c) =
    (if k = key then (case images_of key c of None \<Rightarrow> None | Some _ \<Rightarrow> Some d) else images_of k c)"
  by (simp add: images_of_def set_images_def map_of_set)

lemma set_images_fields:
  "scActive (set_images key d c) = scActive c" "scDownloads (set_images key d c) = scDownloads c"
  "scGeneration (set_images key d c) = scGeneration c" "scPending (set_images key d c) = scPending c"
  "scWarnings (set_images key d c) = scWarnings c"
  by (simp_all add: set_images_def)

lemma set_images_set:
  "images_of key c = Some e \<Longrightarrow> distinct (map fst (scDevices c)) \<Longrightarrow>
   x \<in> set (scDevices (set_images key d c)) \<Longrightarrow> x = (key, d) \<or> (fst x \<noteq> key \<and> x \<in> set (scDevices c))"
  by (auto simp: set_images_def split: if_splits)

lemma images_of_mem: "images_of key c = Some d \<Longrightarrow> (key, d) \<in> set (scDevices c)"
  by (simp add: images_of_def map_of_SomeD)

lemma mem_images_of: "distinct (map fst (scDevices c)) \<Longrightarrow> (key, d) \<in> set (scDevices c) \<Longrightarrow> images_of key c = Some d"
  by (simp add: images_of_def)

text \<open>A device's own state changes, what is in flight stays.\<close>

lemma cache_ok_set:
  assumes "cache_ok c" "images_of key c = Some e" "images_ok (scGeneration c) (scPending c) (key, d)" "dvInFlight d = dvInFlight e"
  shows "cache_ok (set_images key d c)"
  using assms set_images_set [OF assms(2), of _ d]
  by (fastforce simp: cache_ok_def set_images_keys set_images_fields images_of_set)

lemma start_ok:
  assumes "cache_ok c" "(key, d) \<in> set (scDevices c)" "dvQueued d = Some cand" "key \<notin> scActive c" "scDownloads c < 2"
  shows "cache_ok (start_download key d cand c)"
proof -
  have i: "images_of key c = Some d" using assms(1,2) mem_images_of by (simp add: cache_ok_def)
  have o: "images_ok (scGeneration c) (scPending c) (key, d)" using assms(1,2) by (auto simp: cache_ok_def)
  have k: "cdKey cand = key" "cdGeneration cand = scGeneration c" using o assms(3) by (simp_all add: images_ok_def)
  have f: "dvInFlight d = None"
    using o assms(1,4) by (cases "dvInFlight d") (auto simp: images_ok_def cache_ok_def)
  have n: "cand \<notin> set (scPending c)" using assms(1,4) k(1) by (auto simp: cache_ok_def)
  let ?d = "d\<lparr>dvQueued := None, dvInFlight := Some cand\<rparr>"
  have "images_ok (scGeneration c) (scPending c @ [cand]) x" if "x \<in> set (scDevices (set_images key ?d c))" for x
  proof -
    have dist: "distinct (map fst (scDevices c))" using assms(1) by (simp add: cache_ok_def)
    have "x = (key, ?d) \<or> x \<in> set (scDevices c)" using set_images_set [OF i dist, of x ?d] that by blast
    then consider "x = (key, ?d)" | "x \<in> set (scDevices c)" by blast
    then show ?thesis
    proof cases
      case 1
      then show ?thesis using o assms(3) f by (auto simp: images_ok_def split: option.splits)
    next
      case 2
      then have "images_ok (scGeneration c) (scPending c) x" using assms(1) by (simp add: cache_ok_def)
      then show ?thesis by (auto simp: images_ok_def split: option.splits)
    qed
  qed
  moreover have "\<exists>e. images_of (cdKey p) (set_images key ?d c) = Some e \<and> dvInFlight e = Some p"
    if "p \<in> set (scPending c @ [cand])" "cdGeneration p = scGeneration c" for p
  proof (cases "p = cand")
    case True
    then show ?thesis using i k(1) by (simp add: images_of_set)
  next
    case False
    then have "p \<in> set (scPending c)" using that(1) by simp
    moreover have "cdKey p \<noteq> key" using calculation assms(1,4) by (auto simp: cache_ok_def)
    ultimately show ?thesis using that(2) assms(1) by (simp add: images_of_set cache_ok_def)
  qed
  ultimately show ?thesis
    using assms(1,4,5) k by (auto simp: cache_ok_def start_download_def set_images_keys set_images_fields images_of_def)
qed

lemma found_can_start: "List.find (can_start c) (scDevices c) = Some (key, d) \<Longrightarrow> (key, d) \<in> set (scDevices c) \<and> can_start c (key, d)"
  by (auto simp: find_Some_iff in_set_conv_nth)

lemma pump_ok: "cache_ok c \<Longrightarrow> cache_ok (pump c) \<and> no_idle (pump c)"
proof (induction c rule: pump.induct)
  case (1 c)
  show ?case
  proof (cases "scDownloads c < 2")
    case False
    then show ?thesis using 1(2) by (simp add: pump.simps [of c] no_idle_def)
  next
    case True
    show ?thesis
    proof (cases "List.find (can_start c) (scDevices c)")
      case None
      then have "pump c = c" by (simp add: pump.simps [of c])
      moreover have "\<forall>x \<in> set (scDevices c). \<not> can_start c x" using None by (auto simp: find_None_iff)
      ultimately show ?thesis using 1(2) by (simp add: no_idle_def)
    next
      case (Some x)
      obtain key d where x: "x = (key, d)" by fastforce
      have m: "(key, d) \<in> set (scDevices c)" "can_start c (key, d)" using found_can_start Some x by blast+
      then obtain cand where q: "dvQueued d = Some cand" "key \<notin> scActive c" by (auto simp: can_start_def)
      have "cache_ok (start_download key d cand c)" by (rule start_ok [OF 1(2) m(1) q True])
      then show ?thesis using 1(1) [OF True Some x [symmetric] q(1)] by (simp add: pump.simps [of c] True Some x q(1))
    qed
  qed
qed

text \<open>What the pump leaves alone.\<close>

lemma pump_keeps:
  "cache_ok c \<Longrightarrow> scGeneration (pump c) = scGeneration c \<and>
    (\<forall>key. map_option dvRetained (images_of key (pump c)) = map_option dvRetained (images_of key c))"
proof (induction c rule: pump.induct)
  case (1 c)
  show ?case
  proof (cases "scDownloads c < 2 \<and> List.find (can_start c) (scDevices c) \<noteq> None")
    case False
    then have "pump c = c" by (cases "List.find (can_start c) (scDevices c)") (auto simp: pump.simps [of c])
    then show ?thesis by simp
  next
    case True
    then obtain key d where f: "List.find (can_start c) (scDevices c) = Some (key, d)" by auto
    have m: "(key, d) \<in> set (scDevices c)" "can_start c (key, d)" using found_can_start [OF f] by blast+
    then obtain cand where q: "dvQueued d = Some cand" "key \<notin> scActive c" by (auto simp: can_start_def)
    have i: "images_of key c = Some d" using 1(2) m(1) mem_images_of by (simp add: cache_ok_def)
    have ok: "cache_ok (start_download key d cand c)" using start_ok [OF 1(2) m(1) q] True by simp
    have "images_of k (start_download key d cand c) = images_of k (set_images key (d\<lparr>dvQueued := None, dvInFlight := Some cand\<rparr>) c)" for k
      by (simp add: start_download_def images_of_def)
    then show ?thesis using 1(1) [OF _ f refl q(1) ok] True
      by (simp add: pump.simps [of c] f q(1) images_of_set i) (simp add: start_download_def set_images_fields)
  qed
qed

lemma device_ok: "cache_ok c \<Longrightarrow> images_of key c = Some d \<Longrightarrow> images_ok (scGeneration c) (scPending c) (key, d)"
  using images_of_mem by (auto simp: cache_ok_def)

lemma new_device_ok: "cache_ok c \<Longrightarrow> no_idle c \<Longrightarrow> images_of key c = None \<Longrightarrow>
   cache_ok (c\<lparr>scDevices := scDevices c @ [(key, new_device)]\<rparr>) \<and> no_idle (c\<lparr>scDevices := scDevices c @ [(key, new_device)]\<rparr>)"
proof -
  assume c: "cache_ok c" "no_idle c" "images_of key c = None"
  have n: "images_ok g p (key, new_device)" for g p by (simp add: images_ok_def new_device_def)
  have k: "key \<notin> fst ` set (scDevices c)" using c(3) by (simp add: images_of_def map_of_eq_None_iff)
  have m: "images_of k (c\<lparr>scDevices := scDevices c @ [(key, new_device)]\<rparr>) =
      (case images_of k c of Some d \<Rightarrow> Some d | None \<Rightarrow> if k = key then Some new_device else None)" for k
    by (simp add: images_of_def map_add_def split: option.split)
  have "\<exists>d. images_of (cdKey p) (c\<lparr>scDevices := scDevices c @ [(key, new_device)]\<rparr>) = Some d \<and> dvInFlight d = Some p"
    if "p \<in> set (scPending c)" "cdGeneration p = scGeneration c" for p
    using that c(1) unfolding m by (auto simp: cache_ok_def)
  moreover have "distinct (map fst (scDevices c @ [(key, new_device)]))" using c(1) k by (simp add: cache_ok_def)
  ultimately show ?thesis using c(1,2) n by (auto simp: cache_ok_def no_idle_def can_start_def new_device_def)
qed

lemma observe_ok: "cache_ok c \<Longrightarrow> no_idle c \<Longrightarrow> cache_ok (observe now key url c) \<and> no_idle (observe now key url c)"
proof -
  assume c: "cache_ok c" "no_idle c"
  let ?c1 = "if images_of key c = None then c\<lparr>scDevices := scDevices c @ [(key, new_device)]\<rparr> else c"
  have c1: "cache_ok ?c1 \<and> no_idle ?c1" using c new_device_ok [OF c] by simp
  obtain d where d: "images_of key ?c1 = Some d" by (cases "images_of key c") (auto simp: images_of_def map_add_def)
  let ?cand = "\<lparr>cdKey = key, cdUrl = url, cdSequence = dvNextSequence d + 1, cdObservedAt = now, cdGeneration = scGeneration ?c1\<rparr>"
  let ?d = "d\<lparr>dvSeenUrls := insert url (dvSeenUrls d), dvNextSequence := dvNextSequence d + 1, dvQueued := Some ?cand\<rparr>"
  have o: "images_ok (scGeneration ?c1) (scPending ?c1) (key, d)" using device_ok c1 d by blast
  then have "images_ok (scGeneration ?c1) (scPending ?c1) (key, ?d)" by (auto simp: images_ok_def split: option.splits)
  then have "cache_ok (set_images key ?d ?c1)" using cache_ok_set [of ?c1 key d ?d] c1 d by simp
  then have "cache_ok (pump (set_images key ?d ?c1)) \<and> no_idle (pump (set_images key ?d ?c1))" by (rule pump_ok)
  then show ?thesis using c1 unfolding observe_def Let_def d by simp
qed

lemma settle_image_fields:
  assumes "settle_image p now cand out d = (e, ws)" "\<And>n img. dvRetained d = Some (n, img) \<Longrightarrow> n < cdSequence cand"
  shows "dvInFlight e = None" "dvQueued e = dvQueued d" "dvNextSequence e = dvNextSequence d"
    "dvRetained e = (case out of Bytes img \<Rightarrow> if isValidJpeg img then Some (cdSequence cand, img) else dvRetained d | Error _ \<Rightarrow> dvRetained d)"
    "dvReason d \<noteq> Some Pending \<Longrightarrow> dvReason e \<noteq> Some Pending"
  using assms by (auto simp: settle_image_def diagnose_def Let_def split: outcome.splits if_splits option.splits)

lemma settled_ok:
  assumes "cache_ok c" "cand \<in> set (scPending c)"
  shows "cache_ok (image_settled p now cand out c)"
proof -
  let ?c1 = "c\<lparr>scDownloads := scDownloads c - 1, scActive := scActive c - {cdKey cand}, scPending := remove1 cand (scPending c)\<rparr>"
  have dk: "distinct (map cdKey (scPending c))" and dp: "distinct (scPending c)" and df: "distinct (map fst (scDevices c))"
    using assms(1) by (auto simp: cache_ok_def distinct_map)
  have other: "cdKey q \<noteq> cdKey cand" if "q \<in> set (scPending c)" "q \<noteq> cand" for q
    using that dk assms(2) by (auto simp: distinct_map dest: inj_onD)
  have pend: "set (scPending ?c1) = set (scPending c) - {cand}" using dp by simp
  have base: "scDownloads ?c1 = length (scPending ?c1)" "length (scPending ?c1) \<le> 2" "distinct (map cdKey (scPending ?c1))"
    "scActive ?c1 = cdKey ` set (scPending ?c1)"
  proof -
    show "scDownloads ?c1 = length (scPending ?c1)" using assms by (simp add: cache_ok_def length_remove1)
    have "length (scPending c) \<le> 2" using assms(1) by (simp add: cache_ok_def)
    then show "length (scPending ?c1) \<le> 2" using assms(2) by (simp add: length_remove1)
    have "inj_on cdKey (set (scPending c) - {cand})" using dk by (simp add: distinct_map inj_on_diff)
    then show "distinct (map cdKey (scPending ?c1))" using dp by (simp add: distinct_map)
    have "scActive c = cdKey ` set (scPending c)" using assms(1) by (simp add: cache_ok_def)
    then show "scActive ?c1 = cdKey ` set (scPending ?c1)" using other pend by auto
  qed
  show ?thesis
  proof (cases "cdGeneration cand = scGeneration c")
    case False
    have "images_ok (scGeneration c) (remove1 cand (scPending c)) x" if "x \<in> set (scDevices c)" for x
    proof -
      have "images_ok (scGeneration c) (scPending c) x" using assms(1) that by (simp add: cache_ok_def)
      then show ?thesis using False dp by (auto simp: images_ok_def split: option.splits)
    qed
    then have "cache_ok ?c1" using base assms(1) dp df by (auto simp: cache_ok_def images_of_def)
    moreover have "image_settled p now cand out c = ?c1" using False by (simp add: image_settled_def Let_def images_of_def split: option.split)
    ultimately show ?thesis by simp
  next
    case True
    obtain d where d: "images_of (cdKey cand) c = Some d" "dvInFlight d = Some cand" using assms True by (auto simp: cache_ok_def)
    have o: "images_ok (scGeneration c) (scPending c) (cdKey cand, d)" by (rule device_ok [OF assms(1) d(1)])
    obtain e ws where e: "settle_image p now cand out d = (e, ws)" by fastforce
    have new: "n < cdSequence cand" if "dvRetained d = Some (n, img)" for n img using o d(2) that by (simp add: images_ok_def)
    note f = settle_image_fields [OF e new]
    let ?c2 = "(set_images (cdKey cand) e ?c1)\<lparr>scWarnings := scWarnings ?c1 @ ws\<rparr>"
    have s: "image_settled p now cand out c = ?c2" using True d e by (simp add: image_settled_def Let_def images_of_def)
    have ke: "images_ok (scGeneration c) (remove1 cand (scPending c)) (cdKey cand, e)"
      using o d(2) f by (auto simp: images_ok_def split: option.splits outcome.splits if_splits)
    have "images_ok (scGeneration c) (remove1 cand (scPending c)) x" if x: "x \<in> set (scDevices ?c2)" for x
    proof -
      have "x = (cdKey cand, e) \<or> fst x \<noteq> cdKey cand \<and> x \<in> set (scDevices c)"
        using set_images_set [of "cdKey cand" ?c1 d x e] x d(1) df by (simp add: images_of_def)
      then show ?thesis
      proof
        assume y: "fst x \<noteq> cdKey cand \<and> x \<in> set (scDevices c)"
        then have "images_ok (scGeneration c) (scPending c) x" using assms(1) by (simp add: cache_ok_def)
        then show ?thesis using y dp by (auto simp: images_ok_def split: option.splits)
      qed (use ke in simp)
    qed
    moreover have "\<exists>g. images_of (cdKey q) ?c2 = Some g \<and> dvInFlight g = Some q"
      if "q \<in> set (remove1 cand (scPending c))" "cdGeneration q = scGeneration c" for q
    proof -
      have q: "q \<in> set (scPending c)" "q \<noteq> cand" using that(1) dp by auto
      have "images_of (cdKey q) ?c2 = images_of (cdKey q) c"
        using other [OF q] images_of_set [of "cdKey q" "cdKey cand" e ?c1] by (simp add: images_of_def)
      then show ?thesis using assms(1) q(1) that(2) by (simp add: cache_ok_def)
    qed
    moreover have "distinct (map fst (scDevices ?c2))" using df set_images_keys [of "cdKey cand" e ?c1] by simp
    ultimately have "cache_ok ?c2" using base assms(1) dp by (auto simp: cache_ok_def set_images_fields)
    then show ?thesis using s by simp
  qed
qed

lemma clear_ok: "cache_ok c \<Longrightarrow> cache_ok (clear_images c) \<and> no_idle (clear_images c)"
  by (fastforce simp: cache_ok_def no_idle_def clear_images_def)

lemma cache_step_ok: "cache_ok c \<and> no_idle c \<Longrightarrow> cache_ok (cache_step p c ev) \<and> no_idle (cache_step p c ev)"
  by (cases ev) (auto simp: observe_ok clear_ok download_ends_def dest: pump_ok [OF settled_ok])

interpretation images: stepper "cache_step p" "\<lambda>c. cache_ok c \<and> no_idle c"
  by unfold_locales (rule cache_step_ok)

lemma new_cache_ok: "cache_ok new_cache \<and> no_idle new_cache"
  by (simp add: cache_ok_def no_idle_def new_cache_def)

text \<open>
  C22. No thumbnail is forgotten. After any pushes, ends of downloads and resets, at most two downloads run, no two
  of one device; a device with a thumbnail to fetch either has a download running or two others are; and whoever
  is told that a snapshot is pending, some download is running whose end moves the queue on.
\<close>

theorem downloads_run:
  assumes "c = foldl (cache_step p) new_cache evs"
  shows "length (scPending c) \<le> 2 \<and> distinct (map cdKey (scPending c)) \<and>
    (\<forall>(key, d) \<in> set (scDevices c). dvQueued d = None \<or> key \<in> cdKey ` set (scPending c) \<or> length (scPending c) = 2) \<and>
    (snapshotStored key c = Unavailable Pending \<longrightarrow> scPending c \<noteq> [])"
proof -
  have c: "cache_ok c" "no_idle c" using images.inv_run [OF new_cache_ok] assms by simp_all
  have q: "dvQueued d = None \<or> k \<in> cdKey ` set (scPending c) \<or> length (scPending c) = 2" if "(k, d) \<in> set (scDevices c)" for k d
    using c that by (auto simp: cache_ok_def no_idle_def can_start_def)
  moreover have "scPending c \<noteq> []" if p: "snapshotStored key c = Unavailable Pending"
  proof -
    obtain d where d: "images_of key c = Some d" using p by (cases "images_of key c") (auto simp: snapshotStored_def)
    have o: "images_ok (scGeneration c) (scPending c) (key, d)" by (rule device_ok [OF c(1) d])
    have "dvReason d \<noteq> Some Pending \<Longrightarrow> dvQueued d \<noteq> None \<or> dvInFlight d \<noteq> None"
      using p d by (auto simp: snapshotStored_def Let_def split: option.splits if_splits)
    moreover have "dvReason d \<noteq> Some Pending" using o by (simp add: images_ok_def)
    moreover have "scPending c \<noteq> []" if "dvInFlight d = Some f" for f using o that by (auto simp: images_ok_def)
    ultimately show ?thesis using q [OF images_of_mem [OF d]] by auto
  qed
  moreover have "\<forall>(k, d) \<in> set (scDevices c). dvQueued d = None \<or> k \<in> cdKey ` set (scPending c) \<or> length (scPending c) = 2"
    using q by blast
  moreover have "length (scPending c) \<le> 2 \<and> distinct (map cdKey (scPending c))" using c(1) by (simp add: cache_ok_def)
  ultimately show ?thesis by blast
qed

text \<open>The image kept for a device, and the last valid one its downloads brought since the last reset.\<close>

definition kept :: "string \<Rightarrow> image_cache \<Rightarrow> buffer option" where
  "kept key c = (case images_of key c of None \<Rightarrow> None | Some d \<Rightarrow> map_option snd (dvRetained d))"

fun brought :: "string \<Rightarrow> image_cache \<Rightarrow> cache_event \<Rightarrow> buffer option \<Rightarrow> buffer option" where
  "brought key c (Ends now cand (Bytes img)) prev =
     (if cand \<in> set (scPending c) \<and> cdKey cand = key \<and> cdGeneration cand = scGeneration c \<and> isValidJpeg img then Some img else prev)"
| "brought key c ClearImages prev = None"
| "brought key c ev prev = prev"

fun last_image :: "(nat \<Rightarrow> bool) \<Rightarrow> string \<Rightarrow> cache_event list \<Rightarrow> image_cache \<Rightarrow> buffer option \<Rightarrow> buffer option" where
  "last_image p key [] c prev = prev"
| "last_image p key (ev # evs) c prev = last_image p key evs (cache_step p c ev) (brought key c ev prev)"

lemma kept_pump: "cache_ok c \<Longrightarrow> kept key (pump c) = kept key c"
  using pump_keeps [of c] by (auto simp: kept_def split: option.splits) (metis map_option_eq_Some option.map_sel option.sel option.distinct(1))+

lemma kept_observe:
  assumes "cache_ok c" "no_idle c"
  shows "kept k (observe now key url c) = kept k c"
proof -
  let ?c1 = "if images_of key c = None then c\<lparr>scDevices := scDevices c @ [(key, new_device)]\<rparr> else c"
  have c1: "cache_ok ?c1" "kept k ?c1 = kept k c"
    using assms new_device_ok [OF assms] by (auto simp: kept_def images_of_def map_add_def new_device_def split: option.split)
  obtain d where d: "images_of key ?c1 = Some d" by (cases "images_of key c") (auto simp: images_of_def map_add_def)
  let ?cand = "\<lparr>cdKey = key, cdUrl = url, cdSequence = dvNextSequence d + 1, cdObservedAt = now, cdGeneration = scGeneration ?c1\<rparr>"
  let ?d = "d\<lparr>dvSeenUrls := insert url (dvSeenUrls d), dvNextSequence := dvNextSequence d + 1, dvQueued := Some ?cand\<rparr>"
  have "images_ok (scGeneration ?c1) (scPending ?c1) (key, ?d)"
    using device_ok [OF c1(1) d] by (auto simp: images_ok_def split: option.splits)
  then have "cache_ok (set_images key ?d ?c1)" using cache_ok_set [of ?c1 key d ?d] c1 d by simp
  then have "kept k (pump (set_images key ?d ?c1)) = kept k (set_images key ?d ?c1)" by (rule kept_pump)
  moreover have "kept k (set_images key ?d ?c1) = kept k ?c1" using d by (simp add: kept_def images_of_set)
  ultimately show ?thesis using c1(2) unfolding observe_def Let_def d by simp
qed

lemma kept_settled:
  assumes "cache_ok c" "cand \<in> set (scPending c)"
  shows "kept k (image_settled p now cand out c) = brought k c (Ends now cand out) (kept k c)"
proof -
  let ?c1 = "c\<lparr>scDownloads := scDownloads c - 1, scActive := scActive c - {cdKey cand}, scPending := remove1 cand (scPending c)\<rparr>"
  have same: "kept k ?c1 = kept k c" by (simp add: kept_def images_of_def)
  show ?thesis
  proof (cases "cdGeneration cand = scGeneration c")
    case False
    then have "image_settled p now cand out c = ?c1" by (simp add: image_settled_def Let_def images_of_def split: option.split)
    then show ?thesis using same False by (cases out) simp_all
  next
    case True
    obtain d where d: "images_of (cdKey cand) c = Some d" "dvInFlight d = Some cand" using assms True by (auto simp: cache_ok_def)
    have o: "images_ok (scGeneration c) (scPending c) (cdKey cand, d)" by (rule device_ok [OF assms(1) d(1)])
    obtain e ws where e: "settle_image p now cand out d = (e, ws)" by fastforce
    have new: "n < cdSequence cand" if "dvRetained d = Some (n, img)" for n img using o d(2) that by (simp add: images_ok_def)
    note f = settle_image_fields(4) [OF e new]
    have "image_settled p now cand out c = (set_images (cdKey cand) e ?c1)\<lparr>scWarnings := scWarnings ?c1 @ ws\<rparr>"
      using True d e by (simp add: image_settled_def Let_def images_of_def)
    then have "kept k (image_settled p now cand out c) = (if k = cdKey cand then map_option snd (dvRetained e) else kept k c)"
      using images_of_set [of k "cdKey cand" e ?c1] d(1) by (simp add: kept_def images_of_def split: option.split)
    then show ?thesis using f d(1) assms(2) True by (cases out) (auto simp: kept_def)
  qed
qed

lemma kept_after_event: "cache_ok c \<and> no_idle c \<Longrightarrow> kept key (cache_step p c ev) = brought key c ev (kept key c)"
proof (cases ev)
  case (Ends now cand out)
  assume "cache_ok c \<and> no_idle c"
  then show ?thesis
    using kept_settled [of c cand key p now out] kept_pump [OF settled_ok, of c cand key p now out]
    by (cases out) (auto simp: Ends download_ends_def)
qed (simp_all add: kept_observe, simp add: kept_def clear_images_def images_of_def)

text \<open>
  C21. A snapshot is the newest one that came. After any pushes, ends of downloads and resets, the image a device's
  snapshot is answered with is the last valid JPEG that a download of that device brought since the last reset,
  whatever order its other downloads failed or were refused in; before one came there is none.
\<close>

theorem newest_image_kept:
  assumes "c = foldl (cache_step p) new_cache evs"
  shows "kept key c = last_image p key evs new_cache None \<and> (snapshotStored key c = Stored img \<longrightarrow> kept key c = Some img)"
proof -
  have "cache_ok s \<and> no_idle s \<Longrightarrow> kept key (foldl (cache_step p) s evs) = last_image p key evs s (kept key s)" for s
    by (induction evs arbitrary: s) (simp_all add: cache_step_ok kept_after_event)
  then have "kept key c = last_image p key evs new_cache (kept key new_cache)" using new_cache_ok assms by blast
  moreover have "kept key new_cache = None" by (simp add: kept_def new_cache_def images_of_def)
  moreover have "snapshotStored key c = Stored img \<Longrightarrow> kept key c = Some img"
    by (auto simp: snapshotStored_def kept_def Let_def split: option.splits)
  ultimately show ?thesis by simp
qed

definition sample_jpeg :: buffer where
  "sample_jpeg = [0xff, 0xd8, 0xff, 0xff, 0xd9]"

definition sample_pushes :: "cache_event list" where
  "sample_pushes = [Observe 0 ''C'' ''u1'', Observe 1 ''C'' ''u2'',
     Ends 2 \<lparr>cdKey = ''C'', cdUrl = ''u1'', cdSequence = 1, cdObservedAt = 0, cdGeneration = 0\<rparr> (Bytes sample_jpeg)]"

lemmas cache_eval = new_cache_def observe_def pump.simps start_download_def set_images_def images_of_def new_device_def can_start_def
  download_ends_def image_settled_def settle_image_def isValidJpeg_def MAX_JPEG_BYTES_def sample_jpeg_def sample_pushes_def Let_def

lemma sample_cache:
  "let c = foldl (cache_step (\<lambda>_. False)) new_cache sample_pushes
   in kept ''C'' c = Some sample_jpeg \<and> length (scPending c) = 1 \<and> snapshotStored ''C'' c = Stored sample_jpeg \<and>
      snapshotStored ''C'' (foldl (cache_step (\<lambda>_. False)) new_cache [Observe 0 ''C'' ''u1'']) = Unavailable Pending"
  by (simp add: cache_eval kept_def snapshotStored_def)

lemma downloads_run_witness: "scPending (foldl (cache_step (\<lambda>_. False)) new_cache [Observe 0 ''C'' ''u1'']) \<noteq> []"
  using downloads_run [OF refl, of "\<lambda>_. False" "[Observe 0 ''C'' ''u1'']" "''C''"] sample_cache by (simp add: Let_def)

lemma newest_image_kept_witness:
  "kept ''C'' (foldl (cache_step (\<lambda>_. False)) new_cache sample_pushes) = Some sample_jpeg \<and>
   last_image (\<lambda>_. False) ''C'' sample_pushes new_cache None = Some sample_jpeg"
  using newest_image_kept [OF refl, of "''C''" "\<lambda>_. False" sample_pushes sample_jpeg] sample_cache by (simp add: Let_def)

end
