(* ===== verification/Spec2Isabelle.thy ===== *)
theory Spec2Isabelle
  imports Lz4_Block Raw_Dp P2p_Codec Adts Video Live_Source P2p_Level2 Session_Manager Ff09
    Vacuum_Store Push_Client Talkback Live_Stream P2p_Bodies P2p_Registry Fragment_Recording Stored_Images
begin

text \<open>
  A verification development for the eufy SDK, the TypeScript library under \<open>src/src/\<close>. Paths below are
  relative to that directory.

  \<^bold>\<open>The program.\<close> The SDK speaks to the vendor's devices over three legs. Cameras and stations are reached
  over a peer-to-peer UDP protocol (\<open>transport/p2p/\<close>), vacuums and locks over an MQTT broker
  (\<open>transport/mqtt/\<close>), and pushes arrive over Google's MCS stream (\<open>transport/push/\<close>). A
  \<open>SessionManager\<close> owns one \<open>P2PSession\<close> per station and decides when it is open; a session punches
  through to the station, negotiates keys, sends commands and reassembles the inbound frames; the
  frames of a live view are decrypted, joined to access units and fanned out by a \<open>SharedLiveSource\<close> to
  its consumers. What devices report is read by pure decoders in \<open>core/\<close> and \<open>model/\<close>.

  \<^bold>\<open>Theories and the code they model.\<close> They stand in the order in which the code's layers use each other.

  \<^item> \<open>Eufy_Prelude\<close>: buffers and the fixed-width integers of Node's \<open>Buffer\<close> and of \<open>core/util.ts\<close>, thrown
    errors, and the contracts several components share as locales: a fixed-width codec, a chunk-fed
    scanner, a zero padder, a run of steps that keeps an invariant.
  \<^item> \<open>Js_Number\<close>, \<open>Js_String\<close>, \<open>Js_Text\<close>, \<open>Json\<close>: the part of JavaScript's library the code leans on. None of
    these is a component of the SDK, except \<open>jsonObject\<close> of \<open>core/util.ts\<close>.
  \<^item> \<open>Lz4_Block\<close>: \<open>core/lz4-block.ts\<close>. The decompressor agrees with a declarative grammar of blocks on every
    input (\<open>lz4_decompress_iff\<close>).
  \<^item> \<open>Raw_Dp\<close>: the writer \<open>core/raw-dp-writer.ts\<close>, the codec \<open>transport/raw-dp.ts\<close> and the field readers of
    \<open>model/proto-read.ts\<close>.
  \<^item> \<open>P2p_Codec\<close>: \<open>transport/p2p/codec.ts\<close>, datagrams, command headers, lookup payloads and key unwrapping.
  \<^item> \<open>P2p_Reassembly\<close>, \<open>P2p_Session\<close>, \<open>P2p_Live_Start\<close>, \<open>P2p_Lifecycle\<close>, \<open>P2p_Level2\<close>: the class of
    \<open>transport/p2p/p2p-session.ts\<close>. The record \<open>session\<close> holds its fields; every send, timer and
    inbound datagram is an operation or an event on it. The inbound half is a state of its own inside
    the session (\<open>inbound\<close>), because the reassembly neither reads nor writes the rest.
  \<^item> \<open>Session_Manager\<close>: \<open>transport/p2p/session-manager.ts\<close>.
  \<^item> \<open>Adts\<close>, \<open>Video\<close>, \<open>Annexb\<close>, \<open>Sps_Geometry\<close>: the media formats of \<open>transport/p2p/adts.ts\<close>, \<open>video.ts\<close> and
    \<open>annexb.ts\<close>.
  \<^item> \<open>Live_Consumer\<close>, \<open>Live_Ring\<close>, \<open>Live_Source\<close>: \<open>transport/p2p/shared-live-source.ts\<close>, its consumer class, its
    rolling prebuffer, and the source itself. \<open>Live_Stream\<close>: \<open>live-stream.ts\<close>, the stream a source opens over
    the session: which frames it takes, how it keeps asking the station, what it delivers.
  \<^item> \<open>Talkback\<close>: \<open>transport/p2p/talkback.ts\<close>, the paced upstream audio, over a sink that is a locale instantiated
    with the session.
  \<^item> \<open>Fmp4\<close>, \<open>Fragment_Recording\<close>: \<open>transport/p2p/fmp4.ts\<close>, the fragmented-MP4 muxer, with a reader of fragments after
    ISO/IEC 14496-12 that its theorems are stated against, and \<open>fragment-recording.ts\<close>, the pulled recording
    around it. \<open>Throwing_Act\<close> holds the operations that may throw, which the muxer and the session are written in.
  \<^item> \<open>P2p_Bodies\<close>: \<open>transport/p2p/write-commands.ts\<close> and \<open>lan-ip.ts\<close>, packed control bodies and the choice of a
    station's LAN address.
  \<^item> \<open>P2p_Registry\<close>: the registry of \<open>transport/p2p/command-router.ts\<close>, which joins \<open>Live_Source\<close> and
    \<open>Session_Manager\<close>: one source per camera, the calls the sources make to the manager and the manager to the
    registry, and what becomes of a station's sources and talkbacks when its session goes.
  \<^item> \<open>Stored_Images\<close>: \<open>transport/stored-image-cache.ts\<close>, thumbnails downloaded at most two at a time and one
    per device, the newest kept.
  \<^item> \<open>Ff09\<close>: \<open>transport/ff09.ts\<close>, the frames that drive locks and garage doors on both legs.
  \<^item> \<open>Vacuum_Map\<close>, \<open>Vacuum_Store\<close>: \<open>model/vacuum-map.ts\<close>, \<open>model/map-pixels.ts\<close>, \<open>model/vacuum-map-store.ts\<close>,
    with the leg that feeds them, \<open>transport/mqtt/biz-stream.ts\<close> and \<open>client/map-channels.ts\<close>.
  \<^item> \<open>Mcs_Parser\<close>, \<open>Push_Client\<close>: \<open>transport/push/parser.ts\<close> and \<open>push-client.ts\<close>.

  \<^bold>\<open>What the groups of lemmas show.\<close> Codecs: round trips against an encoder or the code's own inverse, and
  what a decoder does with damaged input. Stream parsers: the outcome does not depend on how the
  transport cut the bytes. Stateful classes: an invariant kept by every operation and event, and over it
  what the class promises: each inbound frame at most once and in order; every retained start
  acknowledged, repeated or reported; every waiter and every caller settled exactly once; the key only
  from the present connection; a source's viewers and its owner's view of them in balance; one map in the
  store; the push link kept up, and closed once closed; a recording with every frame in its place. The level-2
  negotiation refines an abstract three-state machine (\<open>negotiation_refines\<close>).

  \<^bold>\<open>The registry.\<close> A run of the registry is any interleaving of its callers, the sources' events, the manager's
  timers and the ends of closes (\<open>registry_event\<close>). What an operation of a source asks of its owner is done when
  the operation is over, in order; the one answer that comes back to the source within the operation, that the
  owner disposes of it because the station's close waited for its last consumer, is foreseen
  (\<open>release_closes\<close>) and given to it (\<open>sOwnerDisposes\<close>). The three properties are about the life of a HomeBase, \<open>hub_event\<close>: station
  serials have no colon, the hub is not itself a camera, and its session is not rebuilt because its path fell
  silent (what that rebuild leaves behind is \<open>rebuild_leaves_source_cached\<close>). A source that is disposed while it
  lingers is out of the registry and tells its owner nothing more.

  \<^bold>\<open>Conventions.\<close> A JavaScript string is the list of its UTF-8 bytes as characters. A number that is an integer is
  an \<open>int\<close> or a \<open>nat\<close>; where the code writes it to a field of \<open>w\<close> bits it is taken modulo \<open>2 ^ w\<close> there, and where
  it passes through a double beyond \<open>2 ^ 53\<close> the rounding is modelled (\<open>Js_Number\<close>). A quotient given to
  \<open>Math.round\<close> is exact. JSON numbers with a fraction or an exponent keep their text. White space is ASCII.
  A thrown error is the left branch of a sum; an operation that changes state before it throws returns
  both. Whatever completes later (a bound socket, a cloud lookup, an elapsed timer, a settled promise) is an
  event of its own, so a run of events is an interleaving the event loop may produce, and theorems over
  runs quantify over all of them. What goes out to sockets, timers and listeners is logged in the state.

  \<^bold>\<open>Parameters.\<close> Code outside the repository is an argument: \<open>node:crypto\<close> (\<open>crypto\<close> of \<open>P2p_Codec\<close>, \<open>gcm\<close> of \<open>Video\<close>,
  \<open>ff09_env\<close> of \<open>Ff09\<close>), the protobufjs reader and decoder (\<open>pb_reader\<close>, \<open>mcs_env\<close>), the clock and random
  bytes. What a theorem relies on is a named contract (\<open>pb_contract\<close>, \<open>size_contract\<close>, \<open>cbc_contract\<close> and the
  like), and its witness instantiates it.

  \<^bold>\<open>Fuel.\<close> Loops whose measure is awkward carry fuel that provably suffices: the JSON parser
  three steps per character and three more, the key derivation one round per byte asked for, the read loop
  of the codec one round per byte and one more (for a reader that moves forward, \<open>readFields_returns\<close>), the MCS parser two transitions per byte and three more,
  the doubling of a binary fraction 1074 steps, the exponent range of a double.

  \<^bold>\<open>Not modelled.\<close> The rest of \<open>transport/p2p/command-router.ts\<close> (sending a command, queries, waiting for a level-2
  key, recording) is promises over callers the registry does not keep. The clients of the vendor's cloud
  (\<open>transport/http/\<close>, \<open>transport/tuya/\<close>, the broker connection of \<open>transport/mqtt/\<close>, the FCM registration) are requests
  whose answers no file here determines. \<open>media.ts\<close> and \<open>ffmpeg.ts\<close> run child processes. The capability modules, the device model and the parameter dictionary under \<open>model/\<close> are tables and
  one-line reads of them, the facade \<open>client/\<close> wires the parts together, and \<open>dist/\<close> is generated from all of it.
\<close>

end
